(* ===== verification/Prelude.thy ===== *)
theory Prelude
  imports Main "HOL-Library.Code_Target_Nat"
begin

text \<open>
  Shared vocabulary: arithmetic progressions, Minkowski sums, repeated sums and rounding up on sets
  of integers, which are the abstract meaning of the run sets and of the bit-length expressions,
  with the algebraic laws that the component theories use.
\<close>

named_theorems option_intro \<open>facts about results that may be refused\<close>

subsection \<open>Minkowski sums\<close>

definition msum :: "int set \<Rightarrow> int set \<Rightarrow> int set" where
  "msum A B = {x + y |x y. x \<in> A \<and> y \<in> B}"

lemma msumI [intro]: "x \<in> A \<Longrightarrow> y \<in> B \<Longrightarrow> x + y \<in> msum A B"
  by (auto simp: msum_def)

lemma msumE [elim]: "z \<in> msum A B \<Longrightarrow> (\<And>x y. z = x + y \<Longrightarrow> x \<in> A \<Longrightarrow> y \<in> B \<Longrightarrow> P) \<Longrightarrow> P"
  by (auto simp: msum_def)

lemma msum_commute: "msum A B = msum B A"
  by (auto simp: msum_def) (metis add.commute)+

lemma msum_assoc: "msum (msum A B) C = msum A (msum B C)"
  by (auto simp: msum_def) (metis add.assoc)+

lemma msum_zero [simp]: "msum A {0} = A" "msum {0} A = A"
  by (auto simp: msum_def)

lemma msum_empty [simp]: "msum A {} = {}" "msum {} A = {}"
  by (auto simp: msum_def)

lemma msum_Un: "msum A (B \<union> C) = msum A B \<union> msum A C" "msum (B \<union> C) A = msum B A \<union> msum C A"
  by (auto simp: msum_def)

lemma msum_UN: "msum (\<Union>x\<in>X. f x) (\<Union>y\<in>Y. g y) = (\<Union>x\<in>X. \<Union>y\<in>Y. msum (f x) (g y))"
  by (auto simp: msum_def)

lemma msum_mono: "A \<subseteq> A' \<Longrightarrow> B \<subseteq> B' \<Longrightarrow> msum A B \<subseteq> msum A' B'"
  by (auto simp: msum_def)

lemma msum_singleton: "msum {a} B = (\<lambda>x. a + x) ` B" "msum B {a} = (\<lambda>x. x + a) ` B"
  by (auto simp: msum_def)

lemma msum_nonempty: "A \<noteq> {} \<Longrightarrow> B \<noteq> {} \<Longrightarrow> msum A B \<noteq> {}"
  by (auto simp: msum_def)

lemma finite_msum [intro, simp]: "finite A \<Longrightarrow> finite B \<Longrightarrow> finite (msum A B)"
proof -
  assume "finite A" "finite B"
  moreover have "msum A B = (\<lambda>(x, y). x + y) ` (A \<times> B)" by (auto simp: msum_def)
  ultimately show ?thesis by simp
qed

subsection \<open>Repeated sums\<close>

fun ksum :: "nat \<Rightarrow> int set \<Rightarrow> int set" where
  "ksum 0 A = {0}"
| "ksum (Suc k) A = msum (ksum k A) A"

definition ksum_upto :: "nat \<Rightarrow> int set \<Rightarrow> int set" where
  "ksum_upto n A = (\<Union>k\<le>n. ksum k A)"

lemma ksum_1 [simp]: "ksum (Suc 0) A = A"
  by simp

lemma ksum_upto_0 [simp]: "ksum_upto 0 A = {0}"
  by (simp add: ksum_upto_def)

lemma ksum_upto_Suc: "ksum_upto (Suc n) A = ksum_upto n A \<union> ksum (Suc n) A"
  by (simp add: ksum_upto_def atMost_Suc Un_commute)

lemma zero_in_ksum_upto: "0 \<in> ksum_upto n A"
  by (auto simp: ksum_upto_def intro: bexI [of _ 0])

lemma ksum_add: "ksum (m + n) A = msum (ksum m A) (ksum n A)"
  by (induction n) (simp_all add: msum_assoc)

lemma ksum_nonempty: "A \<noteq> {} \<Longrightarrow> ksum k A \<noteq> {}"
  by (induction k) (auto simp: msum_nonempty)

lemma finite_ksum [intro, simp]: "finite A \<Longrightarrow> finite (ksum k A)"
  by (induction k) auto

lemma finite_ksum_upto [intro, simp]: "finite A \<Longrightarrow> finite (ksum_upto n A)"
  by (simp add: ksum_upto_def)

lemma ksum_mono: "A \<subseteq> B \<Longrightarrow> ksum k A \<subseteq> ksum k B"
  by (induction k) (auto dest: msum_mono)

lemma ksum_singleton: "ksum k {c} = {int k * c}"
  by (induction k) (auto simp: msum_singleton algebra_simps)

lemma ksum_mono_count: "0 \<in> A \<Longrightarrow> j \<le> k \<Longrightarrow> ksum j A \<subseteq> ksum k A"
proof (induction k)
  case 0
  then show ?case by simp
next
  case (Suc k)
  have "ksum k A \<subseteq> ksum (Suc k) A" using msumI [OF _ Suc.prems(1)] by force
  with Suc show ?case by (cases "j = Suc k") auto
qed

lemma ksum_upto_zero_mem: "0 \<in> A \<Longrightarrow> ksum_upto n A = ksum n A"
  by (auto simp: ksum_upto_def dest: ksum_mono_count)

lemma ksum_nonneg: "(\<And>x. x \<in> A \<Longrightarrow> 0 \<le> x) \<Longrightarrow> z \<in> ksum k A \<Longrightarrow> 0 \<le> z"
  by (induction k arbitrary: z) force+

lemma ksum_lower: "(\<And>x. x \<in> A \<Longrightarrow> m \<le> x) \<Longrightarrow> z \<in> ksum k A \<Longrightarrow> int k * m \<le> z"
  by (induction k arbitrary: z) (force simp: algebra_simps)+

lemma ksum_upper: "(\<And>x. x \<in> A \<Longrightarrow> x \<le> m) \<Longrightarrow> z \<in> ksum k A \<Longrightarrow> z \<le> int k * m"
  by (induction k arbitrary: z) (force simp: algebra_simps)+

lemma ksum_extreme: "m \<in> A \<Longrightarrow> int k * m \<in> ksum k A"
proof (induction k)
  case 0
  then show ?case by simp
next
  case (Suc k)
  then have "int k * m + m \<in> msum (ksum k A) A" by blast
  then show ?case by (simp add: algebra_simps)
qed

subsection \<open>Arithmetic progressions\<close>

definition aprog :: "int \<Rightarrow> int \<Rightarrow> int \<Rightarrow> int set" where
  "aprog a d n = {a + i * d |i. 0 \<le> i \<and> i < n}"

lemma aprog_image: "aprog a d n = (\<lambda>i. a + i * d) ` {0..<n}"
  by (auto simp: aprog_def)

lemma finite_aprog [simp]: "finite (aprog a d n)"
  by (simp add: aprog_image)

lemma aprog_empty [simp]: "n \<le> 0 \<Longrightarrow> aprog a d n = {}"
  by (auto simp: aprog_def)

lemma aprog_1 [simp]: "aprog a d 1 = {a}"
  by (auto simp: aprog_image)

lemma card_aprog: "0 < d \<Longrightarrow> card (aprog a d n) = nat n"
proof -
  assume "0 < d"
  then have "inj_on (\<lambda>i. a + i * d) {0..<n}" by (auto simp: inj_on_def)
  then show ?thesis by (simp add: aprog_image card_image)
qed

text \<open>Membership by range and congruence.\<close>

lemma mem_aprog: "0 < d \<Longrightarrow> 0 < n \<Longrightarrow>
  x \<in> aprog a d n \<longleftrightarrow> a \<le> x \<and> x \<le> a + (n - 1) * d \<and> d dvd (x - a)"
proof
  assume d: "0 < d" and n: "0 < n" and "x \<in> aprog a d n"
  then obtain i where i: "x = a + i * d" "0 \<le> i" "i < n" by (auto simp: aprog_def)
  then have "i * d \<le> (n - 1) * d" using d by (intro mult_right_mono) auto
  then show "a \<le> x \<and> x \<le> a + (n - 1) * d \<and> d dvd (x - a)"
    using i d by simp
next
  assume d: "0 < d" and n: "0 < n" and *: "a \<le> x \<and> x \<le> a + (n - 1) * d \<and> d dvd (x - a)"
  then obtain i where i: "x - a = d * i" by (auto simp: dvd_def)
  then have "0 \<le> d * i" "d * i \<le> d * (n - 1)" using * by (auto simp: mult.commute)
  then have "0 \<le> i" "i \<le> n - 1" using d by (simp_all add: zero_le_mult_iff)
  then show "x \<in> aprog a d n" using i
    by (auto simp: aprog_def intro!: exI [of _ i] simp: mult.commute)
qed

lemma dvd_diff_shift: "d dvd (b - c) \<Longrightarrow> d dvd (a - b) \<longleftrightarrow> d dvd (a - (c::int))"
  using dvd_add_left_iff [of d "b - c" "a - b"] by simp

subsection \<open>Rounding up to a multiple\<close>

definition round_up :: "int \<Rightarrow> int \<Rightarrow> int" where
  "round_up v a = v + (- v) mod a"

lemma round_up_dvd: "a dvd round_up v a"
proof -
  have "(v + (- v) mod a) mod a = 0" by (simp add: mod_add_right_eq)
  then show ?thesis by (simp add: round_up_def dvd_eq_mod_eq_0)
qed

lemma round_up_ge: "0 < a \<Longrightarrow> v \<le> round_up v a"
  by (simp add: round_up_def)

lemma round_up_less: "0 < a \<Longrightarrow> round_up v a < v + a"
  by (simp add: round_up_def)

lemma round_up_unique: "0 < a \<Longrightarrow> a dvd w \<Longrightarrow> v \<le> w \<Longrightarrow> w < v + a \<Longrightarrow> w = round_up v a"
proof -
  assume a: "0 < a" and w: "a dvd w" "v \<le> w" "w < v + a"
  have "a dvd (w - round_up v a)" using w(1) round_up_dvd by (rule dvd_diff)
  moreover have "\<bar>w - round_up v a\<bar> < a"
    using w(2,3) round_up_ge [OF a, of v] round_up_less [OF a, of v] by linarith
  ultimately show ?thesis
    using a by (metis abs_of_pos dvd_imp_le_int eq_iff_diff_eq_0 linorder_not_le)
qed

lemma round_up_id: "a dvd v \<Longrightarrow> round_up v a = v"
  by (simp add: round_up_def)

lemma round_up_1 [simp]: "round_up v 1 = v"
  by (simp add: round_up_def)

lemma round_up_eq_if: "0 < a \<Longrightarrow> round_up v a = (if v mod a = 0 then v else v + (a - v mod a))"
  by (simp add: round_up_def zmod_zminus1_eq_if)

lemma round_up_mono: "0 < a \<Longrightarrow> v \<le> w \<Longrightarrow> round_up v a \<le> round_up w a"
proof (rule ccontr)
  assume a: "0 < a" and "v \<le> w" and "\<not> round_up v a \<le> round_up w a"
  then have "round_up w a < round_up v a" "v \<le> round_up w a"
    using round_up_ge [of a w] by linarith+
  moreover have "round_up v a < v + a" using a by (rule round_up_less)
  ultimately have "round_up w a = round_up v a"
    using a round_up_dvd by (intro round_up_unique) auto
  then show False using \<open>round_up w a < round_up v a\<close> by simp
qed

lemma round_up_add: "0 < a \<Longrightarrow> a dvd d \<Longrightarrow> round_up (v + d) a = round_up v a + d"
  using round_up_dvd round_up_ge [of a v] round_up_less [of a v]
  by (intro round_up_unique [symmetric]) (auto intro: dvd_add)

subsection \<open>Singletons\<close>

lemma Min_eq_Max_card: "A \<noteq> {} \<Longrightarrow> finite A \<Longrightarrow> Min A = Max A \<longleftrightarrow> card (A :: 'a::linorder set) = 1"
proof
  assume A: "A \<noteq> {}" "finite A" and eq: "Min A = Max A"
  have "x = Min A" if "x \<in> A" for x
  proof (rule antisym)
    show "x \<le> Min A" unfolding eq by (rule Max_ge [OF A(2) that])
    show "Min A \<le> x" by (rule Min_le [OF A(2) that])
  qed
  then have "A = {Min A}" using A by auto
  then show "card A = 1" by (metis is_singletonI is_singleton_altdef)
next
  assume "card A = 1"
  then obtain x where "A = {x}" by (auto simp: card_1_singleton_iff)
  then show "Min A = Max A" by simp
qed

end
