(* ===== verification/IntegerMath.thy ===== *)
theory IntegerMath
  imports Prelude "HOL-Library.Signed_Division"
begin

text \<open>
  The checked, saturating and modular helpers of
  \<^verbatim>\<open>include/llvmdsdl/Support/IntegerMath.h\<close>. A 64-bit signed integer of the code is an \<open>int\<close>
  with its range \<open>i64\<close> stated; where the code tests for overflow the model returns \<open>None\<close>, so
  that no value outside the range is ever produced by a checked operation. Division and remainder
  of the source truncate towards zero: they are \<open>sdiv\<close> and \<open>smod\<close>.
\<close>

subsection \<open>The range of a 64-bit integer\<close>

definition int64_max :: int where
  "int64_max = 9223372036854775807"

definition int64_min :: int where
  "int64_min = - 9223372036854775808"

definition i64 :: "int \<Rightarrow> bool" where
  "i64 x \<longleftrightarrow> int64_min \<le> x \<and> x \<le> int64_max"

subsection \<open>Operations\<close>

definition checkedAdd :: "int \<Rightarrow> int \<Rightarrow> int option" where
  "checkedAdd a b = (if i64 (a + b) then Some (a + b) else None)"

definition checkedMultiply :: "int \<Rightarrow> int \<Rightarrow> int option" where
  "checkedMultiply a b = (if i64 (a * b) then Some (a * b) else None)"

definition saturatingAddNonNegative :: "int \<Rightarrow> int \<Rightarrow> int" where
  "saturatingAddNonNegative a b =
     (case checkedAdd a b of Some out \<Rightarrow> out | None \<Rightarrow> int64_max)"

definition saturatingMultiplyNonNegative :: "int \<Rightarrow> int \<Rightarrow> int" where
  "saturatingMultiplyNonNegative a b =
     (case checkedMultiply a b of Some out \<Rightarrow> out | None \<Rightarrow> int64_max)"

definition saturatingRoundUpToMultipleNonNegative :: "int \<Rightarrow> int \<Rightarrow> int" where
  "saturatingRoundUpToMultipleNonNegative v alignment =
     (let rem = v smod alignment
      in if rem = 0 then v else saturatingAddNonNegative v (alignment - rem))"

definition euclideanModulo :: "int \<Rightarrow> int \<Rightarrow> int" where
  "euclideanModulo v divisor =
     (let rem = v smod divisor in if 0 \<le> rem then rem else rem + divisor)"

definition lcmAtMost :: "int \<Rightarrow> int \<Rightarrow> int \<Rightarrow> int option" where
  "lcmAtMost a b limit =
     (if a < 1 \<or> b < 1 \<or> limit < 1 then None
      else let g = gcd a b; step = a sdiv g
           in if limit sdiv b < step then None else Some (step * b))"

subsection \<open>Facts\<close>

lemmas int64_defs = i64_def int64_min_def int64_max_def

lemma i64_0 [simp]: "i64 0" and i64_1 [simp]: "i64 1"
  by (simp_all add: int64_defs)

lemma int64_max_pos [simp]: "0 < int64_max" "0 \<le> int64_max" "int64_min < 0" "int64_min \<le> int64_max"
  by (simp_all add: int64_defs)

lemma i64_between: "i64 a \<Longrightarrow> i64 b \<Longrightarrow> a \<le> x \<Longrightarrow> x \<le> b \<Longrightarrow> i64 x"
  by (auto simp: i64_def)

lemma checkedAdd_eq_Some [simp]: "checkedAdd a b = Some c \<longleftrightarrow> c = a + b \<and> i64 c"
  by (auto simp: checkedAdd_def)

lemma checkedAdd_eq_None [simp]: "checkedAdd a b = None \<longleftrightarrow> \<not> i64 (a + b)"
  by (auto simp: checkedAdd_def)

lemma checkedMultiply_eq_Some [simp]: "checkedMultiply a b = Some c \<longleftrightarrow> c = a * b \<and> i64 c"
  by (auto simp: checkedMultiply_def)

lemma checkedMultiply_eq_None [simp]: "checkedMultiply a b = None \<longleftrightarrow> \<not> i64 (a * b)"
  by (auto simp: checkedMultiply_def)

lemma smod_eq_mod: "0 \<le> a \<Longrightarrow> 0 < b \<Longrightarrow> a smod b = a mod (b::int)"
  by (auto simp: signed_modulo_int_def sgn_if)

lemma sdiv_eq_div: "0 \<le> a \<Longrightarrow> 0 < b \<Longrightarrow> a sdiv b = a div (b::int)"
  by (auto simp: signed_divide_int_def sgn_if)

lemma smod_abs_less: "b \<noteq> 0 \<Longrightarrow> \<bar>a smod b\<bar> < \<bar>b::int\<bar>"
proof -
  assume "b \<noteq> 0"
  moreover from this have "0 \<le> \<bar>a\<bar> mod \<bar>b\<bar>" "\<bar>a\<bar> mod \<bar>b\<bar> < \<bar>b\<bar>" by simp_all
  ultimately show ?thesis by (auto simp: signed_modulo_int_def abs_mult sgn_if)
qed

lemma smod_mod: "(x smod m) mod m = x mod (m::int)"
proof -
  have "x = x smod m + x sdiv m * m" by (simp add: smod_sdiv_mult_eq)
  then show ?thesis by (metis mod_mult_self1)
qed

lemma smod_norm: "0 < m \<Longrightarrow> (x smod m + m) smod m = x mod (m::int)"
proof -
  assume m: "0 < m"
  then have "0 \<le> x smod m + m" using smod_abs_less [of m x] by linarith
  then show ?thesis using m by (simp add: smod_eq_mod smod_mod)
qed

lemma smod_eq_0_iff: "0 < m \<Longrightarrow> x smod m = 0 \<longleftrightarrow> m dvd (x::int)"
proof -
  assume m: "0 < m"
  have "x smod m = 0 \<longleftrightarrow> m dvd x smod m"
    using smod_abs_less [of m x] m dvd_imp_le_int [of "x smod m" m] by fastforce
  then show ?thesis by (metis dvd_eq_mod_eq_0 smod_mod)
qed

lemma mult_sdiv_cancel: "0 < g \<Longrightarrow> (g * k) sdiv g = (k::int)"
proof -
  assume g: "0 < g"
  then have "(g * k) smod g = 0" by (simp add: smod_eq_0_iff)
  then have "(g * k) sdiv g * g = g * k" using sdiv_mult_smod_eq [of "g * k" g] by simp
  then show ?thesis using g by simp
qed

lemma mult_sdiv_cancel_right: "0 < g \<Longrightarrow> (k * g) sdiv g = (k::int)"
  using mult_sdiv_cancel [of g k] by (simp add: mult.commute)

lemma saturatingAdd_min:
  "0 \<le> a \<Longrightarrow> 0 \<le> b \<Longrightarrow> saturatingAddNonNegative a b = min int64_max (a + b)"
  by (auto simp: saturatingAddNonNegative_def checkedAdd_def int64_defs)

lemma saturatingMultiply_min:
  "0 \<le> a \<Longrightarrow> 0 \<le> b \<Longrightarrow> saturatingMultiplyNonNegative a b = min int64_max (a * b)"
proof -
  assume "0 \<le> a" "0 \<le> b"
  then have "0 \<le> a * b" by simp
  then show ?thesis
    by (auto simp: saturatingMultiplyNonNegative_def checkedMultiply_def int64_defs)
qed

lemma euclideanModulo_mod: "0 < d \<Longrightarrow> euclideanModulo v d = v mod d"
proof -
  assume d: "0 < d"
  show ?thesis
  proof (cases "0 \<le> v")
    case True
    then show ?thesis using d by (simp add: euclideanModulo_def smod_eq_mod)
  next
    case False
    then have s: "v smod d = - ((- v) mod d)"
      using d smod_eq_mod [of "- v" d] by simp
    have "v mod d = (if (- v) mod d = 0 then 0 else d - (- v) mod d)"
      using zmod_zminus1_eq_if [of "- v" d] by simp
    moreover have "0 \<le> (- v) mod d" using d by simp
    ultimately show ?thesis using s
      by (simp add: euclideanModulo_def Let_def)
  qed
qed

lemma roundUp_eq:
  assumes "0 \<le> v" "0 < a"
  shows "saturatingRoundUpToMultipleNonNegative v a =
    (if a dvd v then v else min int64_max (round_up v a))"
proof -
  have "0 \<le> a - v mod a" using assms by (simp add: less_imp_le)
  then show ?thesis
    using assms
    by (auto simp: saturatingRoundUpToMultipleNonNegative_def Let_def smod_eq_mod
        saturatingAdd_min round_up_eq_if dvd_eq_mod_eq_0)
qed

lemma int_div_less_iff:
  assumes b: "0 < (b::int)"
  shows "a div b < x \<longleftrightarrow> a < x * b"
proof -
  have a: "a = a div b * b + a mod b" "0 \<le> a mod b" "a mod b < b" using b by simp_all
  show ?thesis
  proof (cases "a div b < x")
    case True
    then have "(a div b + 1) * b \<le> x * b" using b by (intro mult_right_mono) auto
    then have "a div b * b + b \<le> x * b" by (simp add: distrib_right)
    then show ?thesis using True a by linarith
  next
    case False
    then have "x * b \<le> a div b * b" using b by (intro mult_right_mono) auto
    then show ?thesis using False a by linarith
  qed
qed

lemma lcmAtMost_Some: "lcmAtMost a b limit = Some w \<longleftrightarrow>
  1 \<le> a \<and> 1 \<le> b \<and> 1 \<le> limit \<and> w = lcm a b \<and> lcm a b \<le> limit"
proof (cases "a < 1 \<or> b < 1 \<or> limit < 1")
  case True
  then show ?thesis by (auto simp: lcmAtMost_def)
next
  case False
  then have pos: "1 \<le> a" "1 \<le> b" "1 \<le> limit" by auto
  have g: "0 < gcd a b" using pos by simp
  have l: "lcm a b = a div gcd a b * b"
    using pos lcm_altdef_int [of a b] by (simp add: div_mult_swap mult.commute)
  have "a sdiv gcd a b = a div gcd a b" using pos g by (simp add: sdiv_eq_div)
  moreover have "limit sdiv b = limit div b" using pos by (simp add: sdiv_eq_div)
  moreover have "limit div b < a div gcd a b \<longleftrightarrow> limit < lcm a b"
    using pos unfolding l by (intro int_div_less_iff) simp
  ultimately show ?thesis using pos False l
    by (auto simp: lcmAtMost_def Let_def)
qed

end
