(* ===== verification/Rational.thy ===== *)
theory Rational
  imports Complex_Main IntegerMath "HOL-Library.Monad_Syntax"
begin

text \<open>
  The exact rational numbers of constant folding: \<^verbatim>\<open>lib/Support/Rational.cpp\<close> and
  \<^verbatim>\<open>include/llvmdsdl/Support/Rational.h\<close>. A 128-bit integer is an \<open>int\<close> with its range \<open>i128\<close>
  stated. The overflow builtins of the compiler return \<open>None\<close> when they report overflow. Negating
  the least 128-bit integer is undefined in the source: \<open>neg128\<close> returns \<open>None\<close> there, and so does
  every operation that reaches it, which is why the operators return an option. The comparison
  falls back to extended precision when a cross product does not fit; the rounding of that
  platform format is the argument \<open>rnd\<close>. The meaning of a value is the rational \<open>rat_value\<close>.
\<close>

subsection \<open>128-bit integers\<close>

definition int128_max :: int where
  "int128_max = 170141183460469231731687303715884105727"

definition int128_min :: int where
  "int128_min = - 170141183460469231731687303715884105728"

definition i128 :: "int \<Rightarrow> bool" where
  "i128 x \<longleftrightarrow> int128_min \<le> x \<and> x \<le> int128_max"

definition mul_overflow :: "int \<Rightarrow> int \<Rightarrow> int option" where
  "mul_overflow a b = (if i128 (a * b) then Some (a * b) else None)"

definition add_overflow :: "int \<Rightarrow> int \<Rightarrow> int option" where
  "add_overflow a b = (if i128 (a + b) then Some (a + b) else None)"

definition sub_overflow :: "int \<Rightarrow> int \<Rightarrow> int option" where
  "sub_overflow a b = (if i128 (a - b) then Some (a - b) else None)"

definition neg128 :: "int \<Rightarrow> int option" where
  "neg128 a = (if i128 (- a) then Some (- a) else None)"

definition fitsInt64 :: "int \<Rightarrow> bool" where
  "fitsInt64 v \<longleftrightarrow> v \<ge> int64_min \<and> v \<le> int64_max"

function gcd_loop :: "int \<Rightarrow> int \<Rightarrow> int" where
  "gcd_loop a b = (if b \<noteq> 0 then gcd_loop b (a smod b) else a)"
  by pat_completeness auto
termination
  by (relation "measure (\<lambda>(a, b). nat \<bar>b\<bar>)") (auto simp: signed_modulo_int_def abs_mult abs_sgn_eq)

declare gcd_loop.simps [simp del]

definition wideGcd :: "int \<Rightarrow> int \<Rightarrow> int option" where
  "wideGcd a b = do {
     a' \<leftarrow> if a < 0 then neg128 a else Some a;
     b' \<leftarrow> if b < 0 then neg128 b else Some b;
     let g = gcd_loop a' b';
     Some (if g = 0 then 1 else g)
   }"

subsection \<open>Decimal rendering\<close>

text \<open>The loop pushes the digits of the unsigned magnitude from the least significant one; the
  buffer is reversed at the end. The magnitude of a negative value is computed as
  \<open>-(value + 1) + 1\<close>, so the least value needs no special case.\<close>

fun digit_loop :: "nat \<Rightarrow> string \<Rightarrow> string" where
  "digit_loop magnitude digits =
     (if magnitude > 0
      then digit_loop (magnitude div 10) (digits @ [char_of (48 + magnitude mod 10)])
      else digits)"

declare digit_loop.simps [simp del]

definition wideToString :: "int \<Rightarrow> string" where
  "wideToString v =
     (if v = 0 then ''0''
      else let negative = (v < 0);
               magnitude = (if negative then nat (- (v + 1)) + 1 else nat v);
               digits = digit_loop magnitude [];
               digits = (if negative then digits @ ''-'' else digits)
           in rev digits)"

subsection \<open>Rational values\<close>

record rational =
  numer :: int
  denom :: int
  overflowed :: bool

definition rat_default :: rational where
  "rat_default = \<lparr>numer = 0, denom = 1, overflowed = False\<rparr>"

definition normalize :: "rational \<Rightarrow> rational option" where
  "normalize r =
     (if denom r = 0 then Some (r\<lparr>numer := 0, denom := 1\<rparr>)
      else do {
        r \<leftarrow> if denom r < 0
             then do { n \<leftarrow> neg128 (numer r); d \<leftarrow> neg128 (denom r); Some (r\<lparr>numer := n, denom := d\<rparr>) }
             else Some r;
        g \<leftarrow> wideGcd (numer r) (denom r);
        Some (r\<lparr>numer := numer r sdiv g, denom := denom r sdiv g\<rparr>)
      })"

definition rational_of :: "int \<Rightarrow> int \<Rightarrow> rational option" where
  "rational_of n d =
     normalize \<lparr>numer = n, denom = (if d = 0 then 1 else d), overflowed = False\<rparr>"

definition isInteger :: "rational \<Rightarrow> bool" where
  "isInteger r \<longleftrightarrow> denom r = 1"

definition asInteger :: "rational \<Rightarrow> int option" where
  "asInteger r = (if \<not> isInteger r \<or> \<not> fitsInt64 (numer r) then None else Some (numer r))"

definition asWideInteger :: "rational \<Rightarrow> int option" where
  "asWideInteger r = (if \<not> isInteger r then None else Some (numer r))"

definition rat_str :: "rational \<Rightarrow> string" where
  "rat_str r =
     wideToString (numer r) @ (if denom r \<noteq> 1 then ''/'' @ wideToString (denom r) else [])"

definition fromWide :: "int \<Rightarrow> int \<Rightarrow> bool \<Rightarrow> rational option" where
  "fromWide n d operandOverflowed =
     (if d = 0 then Some \<lparr>numer = 0, denom = 1, overflowed = operandOverflowed\<rparr>
      else do {
        (n, d) \<leftarrow> if d < 0 then do { n \<leftarrow> neg128 n; d \<leftarrow> neg128 d; Some (n, d) } else Some (n, d);
        g \<leftarrow> wideGcd n d;
        Some \<lparr>numer = n sdiv g, denom = d sdiv g, overflowed = operandOverflowed\<rparr>
      })"

definition rat_add :: "rational \<Rightarrow> rational \<Rightarrow> rational option" where
  "rat_add lhs rhs =
     (case do {
        t1 \<leftarrow> mul_overflow (numer lhs) (denom rhs);
        t2 \<leftarrow> mul_overflow (numer rhs) (denom lhs);
        n \<leftarrow> add_overflow t1 t2;
        d \<leftarrow> mul_overflow (denom lhs) (denom rhs);
        Some (n, d)
      } of
        None \<Rightarrow> fromWide 0 1 True
      | Some (n, d) \<Rightarrow> fromWide n d (overflowed lhs \<or> overflowed rhs))"

definition rat_sub :: "rational \<Rightarrow> rational \<Rightarrow> rational option" where
  "rat_sub lhs rhs =
     (case do {
        t1 \<leftarrow> mul_overflow (numer lhs) (denom rhs);
        t2 \<leftarrow> mul_overflow (numer rhs) (denom lhs);
        n \<leftarrow> sub_overflow t1 t2;
        d \<leftarrow> mul_overflow (denom lhs) (denom rhs);
        Some (n, d)
      } of
        None \<Rightarrow> fromWide 0 1 True
      | Some (n, d) \<Rightarrow> fromWide n d (overflowed lhs \<or> overflowed rhs))"

definition rat_mul :: "rational \<Rightarrow> rational \<Rightarrow> rational option" where
  "rat_mul lhs rhs =
     (case do {
        n \<leftarrow> mul_overflow (numer lhs) (numer rhs);
        d \<leftarrow> mul_overflow (denom lhs) (denom rhs);
        Some (n, d)
      } of
        None \<Rightarrow> fromWide 0 1 True
      | Some (n, d) \<Rightarrow> fromWide n d (overflowed lhs \<or> overflowed rhs))"

definition rat_div :: "rational \<Rightarrow> rational \<Rightarrow> rational option" where
  "rat_div lhs rhs =
     (if numer rhs = 0 then rational_of 0 1
      else
       (case do {
          n \<leftarrow> mul_overflow (numer lhs) (denom rhs);
          d \<leftarrow> mul_overflow (denom lhs) (numer rhs);
          Some (n, d)
        } of
          None \<Rightarrow> fromWide 0 1 True
        | Some (n, d) \<Rightarrow> fromWide n d (overflowed lhs \<or> overflowed rhs)))"

definition rat_eq :: "rational \<Rightarrow> rational \<Rightarrow> bool" where
  "rat_eq lhs rhs \<longleftrightarrow> numer lhs = numer rhs \<and> denom lhs = denom rhs"

definition rat_neq :: "rational \<Rightarrow> rational \<Rightarrow> bool" where
  "rat_neq lhs rhs \<longleftrightarrow> \<not> rat_eq lhs rhs"

text \<open>\<open>rnd\<close> rounds a rational number to the nearest one of the platform's extended format.\<close>

definition rat_less :: "(rat \<Rightarrow> rat) \<Rightarrow> rational \<Rightarrow> rational \<Rightarrow> bool" where
  "rat_less rnd lhs rhs =
     (case (mul_overflow (numer lhs) (denom rhs), mul_overflow (numer rhs) (denom lhs)) of
        (Some p1, Some p2) \<Rightarrow> p1 < p2
      | _ \<Rightarrow> rnd (rnd (of_int (numer lhs)) / rnd (of_int (denom lhs)))
             < rnd (rnd (of_int (numer rhs)) / rnd (of_int (denom rhs))))"

definition rat_leq :: "(rat \<Rightarrow> rat) \<Rightarrow> rational \<Rightarrow> rational \<Rightarrow> bool" where
  "rat_leq rnd lhs rhs \<longleftrightarrow> rat_less rnd lhs rhs \<or> rat_eq lhs rhs"

definition rat_greater :: "(rat \<Rightarrow> rat) \<Rightarrow> rational \<Rightarrow> rational \<Rightarrow> bool" where
  "rat_greater rnd lhs rhs \<longleftrightarrow> rat_less rnd rhs lhs"

definition rat_geq :: "(rat \<Rightarrow> rat) \<Rightarrow> rational \<Rightarrow> rational \<Rightarrow> bool" where
  "rat_geq rnd lhs rhs \<longleftrightarrow> rat_leq rnd rhs lhs"

subsection \<open>Meaning and invariant\<close>

text \<open>Every value the code builds is reduced with a positive denominator; both parts fit, and the
  numerator is never the least 128-bit integer, because reducing such a value is undefined.\<close>

definition rat_value :: "rational \<Rightarrow> rat" where
  "rat_value r = of_int (numer r) / of_int (denom r)"

definition rat_ok :: "rational \<Rightarrow> bool" where
  "rat_ok r \<longleftrightarrow> \<bar>numer r\<bar> \<le> int128_max \<and> 0 < denom r \<and> denom r \<le> int128_max \<and>
     coprime (numer r) (denom r)"

subsection \<open>The greatest common divisor\<close>

lemmas i128_defs = i128_def int128_min_def int128_max_def

named_theorems checked128 \<open>how the checked 128-bit operations answer\<close>

lemma mul_overflow_Some [checked128]: "mul_overflow a b = Some c \<longleftrightarrow> i128 (a * b) \<and> c = a * b"
  by (auto simp: mul_overflow_def)

lemma add_overflow_Some [checked128]: "add_overflow a b = Some c \<longleftrightarrow> i128 (a + b) \<and> c = a + b"
  by (auto simp: add_overflow_def)

lemma sub_overflow_Some [checked128]: "sub_overflow a b = Some c \<longleftrightarrow> i128 (a - b) \<and> c = a - b"
  by (auto simp: sub_overflow_def)

lemma neg128_fits: "i128 a \<Longrightarrow> neg128 a = (if a = int128_min then None else Some (- a))"
  by (auto simp: neg128_def i128_defs)

lemma smod_nonneg: "0 \<le> a \<Longrightarrow> 0 \<le> b \<Longrightarrow> a smod b = a mod b" for a b :: int
  by (cases "a = 0") (simp_all add: signed_modulo_int_def)

lemma sdiv_exact: "0 < g \<Longrightarrow> g dvd a \<Longrightarrow> a sdiv g = a div g" for a g :: int
  by (simp add: signed_divide_int_eq_divide_int)

lemma gcd_loop_gcd: "0 \<le> a \<Longrightarrow> 0 \<le> b \<Longrightarrow> gcd_loop a b = gcd a b"
proof (induction a b rule: gcd_loop.induct)
  case (1 a b)
  show ?case
  proof (cases "b = 0")
    case False
    have "gcd_loop a b = gcd_loop b (a mod b)"
      using False 1 by (subst gcd_loop.simps) (simp add: smod_nonneg)
    also have "\<dots> = gcd b (a mod b)"
      using False 1 by (simp add: smod_nonneg)
    finally show ?thesis using False by (simp add: gcd_red_int [symmetric])
  qed (use 1 in \<open>simp add: gcd_loop.simps\<close>)
qed

lemma wideGcd_gcd:
  assumes "i128 a" "i128 b"
  shows "wideGcd a b = (if a = int128_min \<or> b = int128_min then None
    else Some (if a = 0 \<and> b = 0 then 1 else gcd a b))"
proof (cases "a = int128_min \<or> b = int128_min")
  case True
  moreover have "int128_min < 0" by (simp add: int128_min_def)
  ultimately show ?thesis using assms
    by (auto simp: wideGcd_def neg128_fits Option.bind_eq_None_conv)
next
  case False
  have "(if x < 0 then neg128 x else Some x) = Some \<bar>x\<bar>" if "x = a \<or> x = b" for x
    using that assms False by (auto simp: neg128_fits)
  then show ?thesis using False by (simp add: wideGcd_def gcd_loop_gcd Let_def)
qed

subsection \<open>Reduction\<close>

text \<open>\<open>reduced n d\<close> is what reducing a fraction with a positive denominator means.\<close>

definition reduced :: "int \<Rightarrow> int \<Rightarrow> bool \<Rightarrow> rational" where
  "reduced n d poisoned = \<lparr>numer = n div gcd n d, denom = d div gcd n d, overflowed = poisoned\<rparr>"

lemma abs_div_le: "0 < g \<Longrightarrow> g dvd n \<Longrightarrow> \<bar>n div g\<bar> \<le> \<bar>n\<bar>" for n g :: int
  by (auto simp: dvd_def abs_mult mult_le_cancel_right1)

lemma reduced_ok:
  assumes "\<bar>n\<bar> \<le> int128_max" "0 < d" "d \<le> int128_max"
  shows "rat_ok (reduced n d poisoned)"
    and "rat_value (reduced n d poisoned) = of_int n / of_int d"
    and "overflowed (reduced n d poisoned) = poisoned"
proof -
  let ?g = "gcd n d"
  have g: "0 < ?g" "?g dvd n" "?g dvd d" using assms by simp_all
  then have n: "n = ?g * (n div ?g)" and d: "d = ?g * (d div ?g)" by simp_all
  have "0 < d div ?g" using g assms by (simp add: pos_imp_zdiv_pos_iff zdvd_imp_le)
  moreover have "coprime (n div ?g) (d div ?g)" using assms by (intro div_gcd_coprime) simp
  ultimately show "rat_ok (reduced n d poisoned)"
    using assms abs_div_le [OF g(1,2)] abs_div_le [OF g(1,3)]
    by (auto simp: rat_ok_def reduced_def)
  have "rat_of_int n / of_int d =
      of_int ?g * of_int (n div ?g) / (of_int ?g * of_int (d div ?g))"
    using n d by (metis of_int_mult)
  also have "\<dots> = of_int (n div ?g) / of_int (d div ?g)" using g by simp
  finally show "rat_value (reduced n d poisoned) = of_int n / of_int d"
    by (simp add: rat_value_def reduced_def)
qed (simp add: reduced_def)

lemma fromWide_pos:
  assumes "i128 n" "i128 d" "0 < d"
  shows "fromWide n d poisoned = (if n = int128_min then None else Some (reduced n d poisoned))"
proof -
  have "d \<noteq> int128_min" using assms by (simp add: int128_min_def)
  then show ?thesis using assms
    by (auto simp: fromWide_def wideGcd_gcd reduced_def sdiv_exact)
qed

lemma fromWide_neg:
  assumes "i128 n" "i128 d" "d < 0"
  shows "fromWide n d poisoned =
    (if n = int128_min \<or> d = int128_min then None else Some (reduced (- n) (- d) poisoned))"
proof (cases "n = int128_min \<or> d = int128_min")
  case False
  have "i128 (- n)" "i128 (- d)" "- n \<noteq> int128_min" "- d \<noteq> int128_min"
    using assms False by (auto simp: i128_defs)
  then show ?thesis using assms False
    by (auto simp: fromWide_def neg128_fits wideGcd_gcd reduced_def sdiv_exact dvd_neg_div)
qed (use assms in \<open>auto simp: fromWide_def neg128_fits Option.bind_eq_None_conv\<close>)

lemma rational_of_reduces:
  assumes "\<bar>n\<bar> \<le> int128_max" "\<bar>d\<bar> \<le> int128_max" "d \<noteq> 0"
  shows "rational_of n d = Some (reduced (sgn d * n) \<bar>d\<bar> False)"
proof -
  have f: "i128 n" "i128 d" "i128 (- n)" "i128 (- d)"
    and m: "n \<noteq> int128_min" "d \<noteq> int128_min" "- n \<noteq> int128_min" "- d \<noteq> int128_min"
    using assms by (auto simp: i128_defs)
  show ?thesis
  proof (cases "d < 0")
    case True
    then show ?thesis using f m assms
      by (simp add: rational_of_def normalize_def neg128_fits wideGcd_gcd reduced_def sdiv_exact dvd_neg_div)
  next
    case False
    then show ?thesis using f m assms
      by (simp add: rational_of_def normalize_def wideGcd_gcd reduced_def sdiv_exact)
  qed
qed

lemma reduced_eq_iff:
  assumes "rat_ok a" "rat_ok b"
  shows "rat_value a = rat_value b \<longleftrightarrow> numer a = numer b \<and> denom a = denom b"
proof
  assume "rat_value a = rat_value b"
  then have "rat_of_int (numer a * denom b) = of_int (numer b * denom a)"
    using assms by (simp add: rat_value_def rat_ok_def field_simps)
  then have x: "numer a * denom b = numer b * denom a" by (simp only: of_int_eq_iff)
  have "coprime (numer a) (denom a)" "coprime (numer b) (denom b)" "0 < denom a" "0 < denom b"
    using assms by (auto simp: rat_ok_def)
  then show "numer a = numer b \<and> denom a = denom b"
    using x coprime_crossproduct_int [of "numer a" "denom a" "numer b" "denom b"]
    by (metis abs_of_pos mult.commute mult_right_cancel coprime_dvd_mult_right_iff
        coprime_commute dvd_triv_right zdvd_antisym_nonneg less_imp_le less_le)
qed (simp add: rat_value_def)

subsection \<open>The contract of an arithmetic operator\<close>

text \<open>Operands whose parts fit 64 bits never overflow the 128-bit intermediates.\<close>

definition fits64 :: "rational \<Rightarrow> bool" where
  "fits64 r \<longleftrightarrow> i64 (numer r) \<and> denom r \<le> int64_max"

text \<open>\<open>operator_exact op exact l r\<close>: an unmarked result is the exact one, marks are inherited, and
  operands that fit 64 bits have a result without a new mark.\<close>

definition operator_exact ::
  "(rational \<Rightarrow> rational \<Rightarrow> rational option) \<Rightarrow> (rat \<Rightarrow> rat \<Rightarrow> rat) \<Rightarrow> rational \<Rightarrow> rational \<Rightarrow> bool" where
  "operator_exact op exact l r \<longleftrightarrow>
     (\<forall>x. op l r = Some x \<longrightarrow> rat_ok x \<and> (overflowed l \<or> overflowed r \<longrightarrow> overflowed x) \<and>
       (\<not> overflowed x \<longrightarrow> rat_value x = exact (rat_value l) (rat_value r))) \<and>
     (fits64 l \<longrightarrow> fits64 r \<longrightarrow> (\<exists>x. op l r = Some x \<and> rat_ok x \<and>
       rat_value x = exact (rat_value l) (rat_value r) \<and> overflowed x = (overflowed l \<or> overflowed r)))"

text \<open>
  Each operator first computes an unreduced fraction with the overflow builtins and then reduces it.
  The locale states what the four have in common: the two phases, and that the fraction, when it
  fits, is the exact result. Its lemmas hold for addition, subtraction, multiplication and
  division, which interpret it below.
\<close>

locale rat_operator =
  fixes op :: "rational \<Rightarrow> rational \<Rightarrow> rational option"
    and fraction :: "rational \<Rightarrow> rational \<Rightarrow> (int \<times> int) option"
    and exact :: "rat \<Rightarrow> rat \<Rightarrow> rat"
    and admits :: "rational \<Rightarrow> bool"
  assumes phases: "admits r \<Longrightarrow> op l r = (case fraction l r of None \<Rightarrow> fromWide 0 1 True
      | Some (n, d) \<Rightarrow> fromWide n d (overflowed l \<or> overflowed r))"
    and fraction_exact: "rat_ok l \<Longrightarrow> rat_ok r \<Longrightarrow> admits r \<Longrightarrow> fraction l r = Some (n, d) \<Longrightarrow>
      i128 n \<and> i128 d \<and> d \<noteq> 0 \<and> of_int n / of_int d = exact (rat_value l) (rat_value r)"
begin

lemma poisoned:
  assumes "admits r" "fraction l r = None"
  shows "op l r = Some \<lparr>numer = 0, denom = 1, overflowed = True\<rparr>"
proof -
  have "fromWide 0 1 True = Some (reduced 0 1 True)"
    by (subst fromWide_pos) (auto simp: i128_defs)
  then show ?thesis using assms phases [of r l] by (simp add: reduced_def)
qed

lemma undefined_iff:
  assumes "rat_ok l" "rat_ok r" "admits r"
  shows "op l r = None \<longleftrightarrow> (\<exists>n d. fraction l r = Some (n, d) \<and> (n = int128_min \<or> d = int128_min))"
proof (cases "fraction l r")
  case None
  then show ?thesis using poisoned assms by simp
next
  case (Some nd)
  obtain n d where nd: "nd = (n, d)" by force
  note f = fraction_exact [OF assms Some [unfolded nd]]
  have "int128_min < 0" by (simp add: int128_min_def)
  then show ?thesis using f phases [OF assms(3), of l] Some nd
    by (cases "d < 0") (auto simp: fromWide_pos fromWide_neg not_less)
qed

lemma exact_result:
  assumes "rat_ok l" "rat_ok r" "admits r" "fraction l r = Some (n, d)" "op l r = Some x"
  shows "rat_ok x \<and> rat_value x = exact (rat_value l) (rat_value r) \<and>
    overflowed x = (overflowed l \<or> overflowed r)"
proof -
  note f = fraction_exact [OF assms(1-4)]
  have m: "n \<noteq> int128_min" "d \<noteq> int128_min" using assms(4,5) undefined_iff [OF assms(1-3)] by auto
  let ?s = "sgn d * n" and ?p = "overflowed l \<or> overflowed r"
  have b: "\<bar>?s\<bar> \<le> int128_max" "0 < \<bar>d\<bar>" "\<bar>d\<bar> \<le> int128_max"
    using f m by (auto simp: i128_defs abs_mult)
  have "fromWide n d ?p = Some (reduced ?s \<bar>d\<bar> ?p)"
    using f m by (cases "d < 0") (auto simp: fromWide_pos fromWide_neg)
  then have "x = reduced ?s \<bar>d\<bar> ?p"
    using assms phases [OF assms(3), of l] by simp
  moreover have "rat_of_int ?s / of_int \<bar>d\<bar> = of_int n / of_int d"
    using f by (cases "d < 0") auto
  ultimately show ?thesis using reduced_ok [OF b] f by metis
qed

lemma sound:
  assumes "rat_ok l" "rat_ok r" "admits r" "op l r = Some x"
  shows "rat_ok x"
    and "overflowed l \<or> overflowed r \<Longrightarrow> overflowed x"
    and "\<not> overflowed x \<Longrightarrow> rat_value x = exact (rat_value l) (rat_value r)"
proof -
  have "rat_ok x \<and> (overflowed l \<or> overflowed r \<longrightarrow> overflowed x) \<and>
      (\<not> overflowed x \<longrightarrow> rat_value x = exact (rat_value l) (rat_value r))"
  proof (cases "fraction l r")
    case None
    then show ?thesis using poisoned [OF assms(3) None] assms
      by (auto simp: rat_ok_def int128_max_def)
  next
    case (Some nd)
    then show ?thesis using exact_result [OF assms(1-3) _ assms(4)] by (cases nd) auto
  qed
  then show "rat_ok x" "overflowed l \<or> overflowed r \<Longrightarrow> overflowed x"
    "\<not> overflowed x \<Longrightarrow> rat_value x = exact (rat_value l) (rat_value r)" by blast+
qed

lemma defined_when_small:
  assumes "rat_ok l" "rat_ok r" "admits r" "fraction l r = Some (n, d)"
    "\<bar>n\<bar> \<le> int128_max" "\<bar>d\<bar> \<le> int128_max"
  shows "\<exists>x. op l r = Some x \<and> rat_ok x \<and> rat_value x = exact (rat_value l) (rat_value r) \<and>
    overflowed x = (overflowed l \<or> overflowed r)"
proof -
  have "n \<noteq> int128_min" "d \<noteq> int128_min" using assms by (auto simp: int128_min_def int128_max_def)
  then have "op l r \<noteq> None" using undefined_iff [OF assms(1-3)] assms(4) by auto
  then show ?thesis using exact_result [OF assms(1-4)] by blast
qed

lemma exact_operator:
  assumes "rat_ok l" "rat_ok r" "admits r"
    and "\<exists>n d. fits64 l \<longrightarrow> fits64 r \<longrightarrow>
      fraction l r = Some (n, d) \<and> \<bar>n\<bar> \<le> int128_max \<and> \<bar>d\<bar> \<le> int128_max"
  shows "operator_exact op exact l r"
  using sound [OF assms(1-3)] defined_when_small [OF assms(1-3)] assms(4)
  unfolding operator_exact_def by blast

end

subsection \<open>The four operators\<close>

definition add_fraction :: "rational \<Rightarrow> rational \<Rightarrow> (int \<times> int) option" where
  "add_fraction l r = do {
     t1 \<leftarrow> mul_overflow (numer l) (denom r);
     t2 \<leftarrow> mul_overflow (numer r) (denom l);
     n \<leftarrow> add_overflow t1 t2;
     d \<leftarrow> mul_overflow (denom l) (denom r);
     Some (n, d)
   }"

definition sub_fraction :: "rational \<Rightarrow> rational \<Rightarrow> (int \<times> int) option" where
  "sub_fraction l r = do {
     t1 \<leftarrow> mul_overflow (numer l) (denom r);
     t2 \<leftarrow> mul_overflow (numer r) (denom l);
     n \<leftarrow> sub_overflow t1 t2;
     d \<leftarrow> mul_overflow (denom l) (denom r);
     Some (n, d)
   }"

definition mul_fraction :: "rational \<Rightarrow> rational \<Rightarrow> (int \<times> int) option" where
  "mul_fraction l r = do {
     n \<leftarrow> mul_overflow (numer l) (numer r);
     d \<leftarrow> mul_overflow (denom l) (denom r);
     Some (n, d)
   }"

definition div_fraction :: "rational \<Rightarrow> rational \<Rightarrow> (int \<times> int) option" where
  "div_fraction l r = do {
     n \<leftarrow> mul_overflow (numer l) (denom r);
     d \<leftarrow> mul_overflow (denom l) (numer r);
     Some (n, d)
   }"

lemmas fraction_defs = add_fraction_def sub_fraction_def mul_fraction_def div_fraction_def

lemma add_fraction_Some: "add_fraction l r = Some (n, d) \<longleftrightarrow>
    i128 (numer l * denom r) \<and> i128 (numer r * denom l) \<and> i128 n \<and> i128 d \<and>
    n = numer l * denom r + numer r * denom l \<and> d = denom l * denom r"
  by (auto simp: add_fraction_def checked128 bind_eq_Some_conv)

lemma sub_fraction_Some: "sub_fraction l r = Some (n, d) \<longleftrightarrow>
    i128 (numer l * denom r) \<and> i128 (numer r * denom l) \<and> i128 n \<and> i128 d \<and>
    n = numer l * denom r - numer r * denom l \<and> d = denom l * denom r"
  by (auto simp: sub_fraction_def checked128 bind_eq_Some_conv)

lemma mul_fraction_Some: "mul_fraction l r = Some (n, d) \<longleftrightarrow>
    i128 n \<and> i128 d \<and> n = numer l * numer r \<and> d = denom l * denom r"
  by (auto simp: mul_fraction_def checked128 bind_eq_Some_conv)

lemma div_fraction_Some: "div_fraction l r = Some (n, d) \<longleftrightarrow>
    i128 n \<and> i128 d \<and> n = numer l * denom r \<and> d = denom l * numer r"
  by (auto simp: div_fraction_def checked128 bind_eq_Some_conv)

lemmas fraction_Some = add_fraction_Some sub_fraction_Some mul_fraction_Some div_fraction_Some

interpretation plus: rat_operator rat_add add_fraction "(+)" "\<lambda>_. True"
proof unfold_locales
  show "rat_add l r = (case add_fraction l r of None \<Rightarrow> fromWide 0 1 True
      | Some (n, d) \<Rightarrow> fromWide n d (overflowed l \<or> overflowed r))" for l r
    by (simp add: rat_add_def add_fraction_def)
qed (auto simp: add_fraction_Some rat_ok_def rat_value_def field_simps)

interpretation minus: rat_operator rat_sub sub_fraction "(-)" "\<lambda>_. True"
proof unfold_locales
  show "rat_sub l r = (case sub_fraction l r of None \<Rightarrow> fromWide 0 1 True
      | Some (n, d) \<Rightarrow> fromWide n d (overflowed l \<or> overflowed r))" for l r
    by (simp add: rat_sub_def sub_fraction_def)
qed (auto simp: sub_fraction_Some rat_ok_def rat_value_def diff_frac_eq)

interpretation times: rat_operator rat_mul mul_fraction "(*)" "\<lambda>_. True"
proof unfold_locales
  show "rat_mul l r = (case mul_fraction l r of None \<Rightarrow> fromWide 0 1 True
      | Some (n, d) \<Rightarrow> fromWide n d (overflowed l \<or> overflowed r))" for l r
    by (simp add: rat_mul_def mul_fraction_def)
qed (auto simp: mul_fraction_Some rat_ok_def rat_value_def field_simps)

interpretation quotient: rat_operator rat_div div_fraction "(/)" "\<lambda>r. numer r \<noteq> 0"
proof unfold_locales
  show "numer r \<noteq> 0 \<Longrightarrow> rat_div l r = (case div_fraction l r of None \<Rightarrow> fromWide 0 1 True
      | Some (n, d) \<Rightarrow> fromWide n d (overflowed l \<or> overflowed r))" for l r
    by (simp add: rat_div_def div_fraction_def)
qed (auto simp: div_fraction_Some rat_ok_def rat_value_def field_simps)

lemma mult_abs_le: "\<bar>a\<bar> \<le> x \<Longrightarrow> \<bar>b\<bar> \<le> y \<Longrightarrow> \<bar>a * b\<bar> \<le> x * y" for a b x y :: int
  by (simp add: abs_mult mult_mono)

lemma small_products:
  assumes "rat_ok l" "rat_ok r" "fits64 l" "fits64 r"
  shows "\<bar>numer l * denom r\<bar> \<le> 85070591730234615856620279821087277056"
    and "\<bar>numer r * denom l\<bar> \<le> 85070591730234615856620279821087277056"
    and "\<bar>denom l * denom r\<bar> \<le> 85070591730234615856620279821087277056"
    and "\<bar>numer l * numer r\<bar> \<le> 85070591730234615865843651857942052864"
    and "\<bar>denom l * numer r\<bar> \<le> 85070591730234615856620279821087277056"
proof -
  have n: "\<bar>numer l\<bar> \<le> 9223372036854775808" "\<bar>numer r\<bar> \<le> 9223372036854775808"
    and d: "\<bar>denom l\<bar> \<le> 9223372036854775807" "\<bar>denom r\<bar> \<le> 9223372036854775807"
    using assms by (auto simp: fits64_def int64_defs rat_ok_def)
  show "\<bar>numer l * denom r\<bar> \<le> 85070591730234615856620279821087277056"
    using mult_abs_le [OF n(1) d(2)] by simp
  show "\<bar>numer r * denom l\<bar> \<le> 85070591730234615856620279821087277056"
    using mult_abs_le [OF n(2) d(1)] by simp
  show "\<bar>denom l * denom r\<bar> \<le> 85070591730234615856620279821087277056"
    using mult_abs_le [OF d(1) d(2)] by simp
  show "\<bar>numer l * numer r\<bar> \<le> 85070591730234615865843651857942052864"
    using mult_abs_le [OF n(1) n(2)] by simp
  show "\<bar>denom l * numer r\<bar> \<le> 85070591730234615856620279821087277056"
    using mult_abs_le [OF d(1) n(2)] by simp
qed

lemma small_fits: "\<bar>x\<bar> \<le> int128_max \<Longrightarrow> i128 x"
  by (auto simp: i128_defs)

lemma small_fractions:
  assumes "rat_ok l" "rat_ok r" "fits64 l" "fits64 r"
  shows "\<exists>n d. add_fraction l r = Some (n, d) \<and> \<bar>n\<bar> \<le> int128_max \<and> \<bar>d\<bar> \<le> int128_max"
    and "\<exists>n d. sub_fraction l r = Some (n, d) \<and> \<bar>n\<bar> \<le> int128_max \<and> \<bar>d\<bar> \<le> int128_max"
    and "\<exists>n d. mul_fraction l r = Some (n, d) \<and> \<bar>n\<bar> \<le> int128_max \<and> \<bar>d\<bar> \<le> int128_max"
    and "\<exists>n d. div_fraction l r = Some (n, d) \<and> \<bar>n\<bar> \<le> int128_max \<and> \<bar>d\<bar> \<le> int128_max"
proof -
  note b = small_products [OF assms]
  have p: "\<bar>numer l * denom r\<bar> \<le> int128_max" "\<bar>numer r * denom l\<bar> \<le> int128_max"
    "\<bar>denom l * denom r\<bar> \<le> int128_max" "\<bar>numer l * numer r\<bar> \<le> int128_max"
    "\<bar>denom l * numer r\<bar> \<le> int128_max"
    "\<bar>numer l * denom r + numer r * denom l\<bar> \<le> int128_max"
    "\<bar>numer l * denom r - numer r * denom l\<bar> \<le> int128_max"
    using b unfolding int128_max_def by linarith+
  note f = p [THEN small_fits]
  show "\<exists>n d. add_fraction l r = Some (n, d) \<and> \<bar>n\<bar> \<le> int128_max \<and> \<bar>d\<bar> \<le> int128_max"
    using p f by (simp add: add_fraction_Some)
  show "\<exists>n d. sub_fraction l r = Some (n, d) \<and> \<bar>n\<bar> \<le> int128_max \<and> \<bar>d\<bar> \<le> int128_max"
    using p f by (simp add: sub_fraction_Some)
  show "\<exists>n d. mul_fraction l r = Some (n, d) \<and> \<bar>n\<bar> \<le> int128_max \<and> \<bar>d\<bar> \<le> int128_max"
    using p f by (simp add: mul_fraction_Some)
  show "\<exists>n d. div_fraction l r = Some (n, d) \<and> \<bar>n\<bar> \<le> int128_max \<and> \<bar>d\<bar> \<le> int128_max"
    using p f by (simp add: div_fraction_Some)
qed

lemma rat_numer_zero: "rat_ok r \<Longrightarrow> numer r = 0 \<longleftrightarrow> rat_value r = 0"
  by (auto simp: rat_ok_def rat_value_def)

subsection \<open>Comparison\<close>

lemma rat_eq_value: "rat_ok l \<Longrightarrow> rat_ok r \<Longrightarrow> rat_eq l r \<longleftrightarrow> rat_value l = rat_value r"
  by (simp add: rat_eq_def reduced_eq_iff)

definition comparable :: "rational \<Rightarrow> rational \<Rightarrow> bool" where
  "comparable l r \<longleftrightarrow> i128 (numer l * denom r) \<and> i128 (numer r * denom l)"

lemma comparable_sym: "comparable l r \<Longrightarrow> comparable r l"
  by (simp add: comparable_def)

lemma cross_less:
  assumes "rat_ok l" "rat_ok r"
  shows "numer l * denom r < numer r * denom l \<longleftrightarrow> rat_value l < rat_value r"
proof -
  have "rat_value l < rat_value r \<longleftrightarrow>
      rat_of_int (numer l * denom r) < of_int (numer r * denom l)"
    using assms by (simp add: rat_value_def rat_ok_def field_simps)
  then show ?thesis by (simp only: of_int_less_iff)
qed

lemma rat_less_value:
  assumes "rat_ok l" "rat_ok r" "comparable l r"
  shows "rat_less rnd l r \<longleftrightarrow> rat_value l < rat_value r"
  using assms cross_less [OF assms(1,2)]
  by (simp add: rat_less_def mul_overflow_def comparable_def)

lemma rat_leq_value:
  assumes "rat_ok l" "rat_ok r" "comparable l r"
  shows "rat_leq rnd l r \<longleftrightarrow> rat_value l \<le> rat_value r"
  using assms by (auto simp: rat_leq_def rat_less_value rat_eq_value)

lemma comparable_small:
  assumes "rat_ok l" "rat_ok r" "fits64 l" "fits64 r"
  shows "comparable l r"
  using small_products(1,2) [OF assms] by (auto simp: comparable_def i128_defs)

text \<open>Beyond the cross products the rounded comparison can tie on different values.\<close>

lemma wide_comparison_ties:
  assumes "rnd (of_int (numer l)) = rnd (of_int (numer r))" "denom l = denom r"
    "\<not> comparable l r"
  shows "\<not> rat_less rnd l r \<and> \<not> rat_less rnd r l"
  using assms by (auto simp: rat_less_def comparable_def mul_overflow_def split: option.splits)

subsection \<open>Decimal numerals\<close>

text \<open>Reading a numeral back, as the abstract meaning of the rendering.\<close>

definition digit_of :: "char \<Rightarrow> nat" where
  "digit_of c = of_char c - 48"

definition read_nat :: "string \<Rightarrow> nat" where
  "read_nat s = foldl (\<lambda>v c. 10 * v + digit_of c) 0 s"

definition read_int :: "string \<Rightarrow> int" where
  "read_int s = (case s of [] \<Rightarrow> 0
     | c # cs \<Rightarrow> if c = CHR ''-'' then - int (read_nat cs) else int (read_nat s))"

definition read_rational :: "string \<Rightarrow> int \<times> int" where
  "read_rational s =
     (let n = takeWhile (\<lambda>c. c \<noteq> CHR ''/'') s; d = drop (length n + 1) s
      in (read_int n, if d = [] then 1 else read_int d))"

definition digit_char :: "char \<Rightarrow> bool" where
  "digit_char c \<longleftrightarrow> 48 \<le> (of_char c :: nat) \<and> (of_char c :: nat) \<le> 57"

lemma of_char_digit [simp]: "n < 10 \<Longrightarrow> of_char (char_of (48 + n)) = 48 + n" for n :: nat
  by simp

lemma digit_loop_append: "digit_loop m ds = ds @ digit_loop m []"
proof (induction m arbitrary: ds rule: less_induct)
  case (less m)
  show ?case
  proof (cases "m > 0")
    case True
    let ?c = "char_of (48 + m mod 10) :: char"
    have "digit_loop (m div 10) (ds @ [?c]) = (ds @ [?c]) @ digit_loop (m div 10) []"
      "digit_loop (m div 10) [?c] = [?c] @ digit_loop (m div 10) []"
      using less True by (metis div_less_dividend one_less_numeral_iff semiring_norm(76))+
    then show ?thesis using True
      by (subst digit_loop.simps, subst (2) digit_loop.simps) simp
  qed (simp add: digit_loop.simps)
qed

lemma digit_loop_nil [simp]: "digit_loop 0 ds = ds"
  by (simp add: digit_loop.simps)

lemma digit_loop_pos:
  "m > 0 \<Longrightarrow> digit_loop m [] = char_of (48 + m mod 10) # digit_loop (m div 10) []"
  by (subst digit_loop.simps) (simp add: digit_loop_append [of "m div 10" "[_]"])

lemma read_nat_snoc: "read_nat (s @ [c]) = 10 * read_nat s + digit_of c"
  by (simp add: read_nat_def)

lemma digit_loop_reads:
  "read_nat (rev (digit_loop m [])) = m \<and> (\<forall>c\<in>set (digit_loop m []). digit_char c)"
proof (induction m rule: less_induct)
  case (less m)
  show ?case
  proof (cases "m > 0")
    case True
    then have "digit_char (char_of (48 + m mod 10))" "digit_of (char_of (48 + m mod 10)) = m mod 10"
      by (simp_all add: digit_char_def digit_of_def)
    then show ?thesis using True less [of "m div 10"]
      by (simp add: digit_loop_pos read_nat_snoc)
  qed (simp add: read_nat_def)
qed

lemma digit_loop_nonempty: "m > 0 \<Longrightarrow> digit_loop m [] \<noteq> []"
  by (simp add: digit_loop_pos)

lemma digit_not_sign: "digit_char c \<Longrightarrow> c \<noteq> CHR ''-'' \<and> c \<noteq> CHR ''/''"
  by (auto simp: digit_char_def)

lemma wideToString_shape:
  "wideToString v = (if v < 0 then ''-'' else []) @
     (if v = 0 then ''0'' else rev (digit_loop (nat \<bar>v\<bar>) []))"
proof -
  have "v < 0 \<Longrightarrow> nat (- (v + 1)) + 1 = nat \<bar>v\<bar>" by linarith
  then show ?thesis by (auto simp: wideToString_def Let_def)
qed

lemma wideToString_reads: "read_int (wideToString v) = v"
proof (cases "v = 0")
  case True
  then show ?thesis by (simp add: wideToString_shape read_int_def read_nat_def digit_of_def)
next
  case False
  let ?s = "rev (digit_loop (nat \<bar>v\<bar>) [])"
  have "?s \<noteq> []" using False digit_loop_nonempty by simp
  then obtain c cs where c: "?s = c # cs" by (meson list.exhaust)
  then have "c \<in> set (digit_loop (nat \<bar>v\<bar>) [])" by (metis list.set_intros(1) set_rev)
  then have "c \<noteq> CHR ''-''" using digit_loop_reads digit_not_sign by blast
  moreover have "read_nat ?s = nat \<bar>v\<bar>" using digit_loop_reads by blast
  ultimately show ?thesis using False c by (auto simp: wideToString_shape read_int_def)
qed

lemma wideToString_chars: "c \<in> set (wideToString v) \<Longrightarrow> c \<noteq> CHR ''/''"
  using digit_loop_reads [of "nat \<bar>v\<bar>"] digit_not_sign
  by (auto simp: wideToString_shape split: if_splits)

lemma wideToString_nonempty: "wideToString v \<noteq> []"
  by (auto simp: wideToString_shape digit_loop_nonempty)

lemma takeWhile_stop: "(\<And>c. c \<in> set s \<Longrightarrow> P c) \<Longrightarrow> \<not> P x \<Longrightarrow> takeWhile P (s @ x # t) = s"
  by (induction s) auto

lemma rat_str_reads: "read_rational (rat_str r) = (numer r, denom r)"
proof (cases "denom r = 1")
  case True
  have "takeWhile (\<lambda>c. c \<noteq> CHR ''/'') (wideToString (numer r)) = wideToString (numer r)"
    using wideToString_chars by (intro takeWhile_eq_all_conv [THEN iffD2]) blast
  then show ?thesis using True by (simp add: rat_str_def read_rational_def wideToString_reads Let_def
        del: takeWhile_eq_all_conv)
next
  case False
  have "takeWhile (\<lambda>c. c \<noteq> CHR ''/'') (wideToString (numer r) @ CHR ''/'' # wideToString (denom r))
      = wideToString (numer r)"
    using wideToString_chars by (intro takeWhile_stop) auto
  then show ?thesis using False
    by (simp add: rat_str_def read_rational_def wideToString_reads wideToString_nonempty)
qed

lemma operators_exact:
  assumes "rat_ok l" "rat_ok r"
  shows "operator_exact rat_add (+) l r" "operator_exact rat_sub (-) l r"
    "operator_exact rat_mul (*) l r" "rat_value r \<noteq> 0 \<Longrightarrow> operator_exact rat_div (/) l r"
proof -
  note small = small_fractions [OF assms]
  show "operator_exact rat_add (+) l r" using small by (intro plus.exact_operator assms TrueI) metis
  show "operator_exact rat_sub (-) l r" using small by (intro minus.exact_operator assms TrueI) metis
  show "operator_exact rat_mul (*) l r" using small by (intro times.exact_operator assms TrueI) metis
  assume "rat_value r \<noteq> 0"
  then have "numer r \<noteq> 0" using rat_numer_zero assms by blast
  then show "operator_exact rat_div (/) l r" using small by (intro quotient.exact_operator assms) metis+
qed

lemma undefined_operators:
  assumes "rat_ok l" "rat_ok r"
  shows "rat_mul l r = None \<longleftrightarrow> numer l * numer r = int128_min \<and> i128 (denom l * denom r)"
    and "rat_add l r = None \<longleftrightarrow> i128 (numer l * denom r) \<and> i128 (numer r * denom l) \<and>
      numer l * denom r + numer r * denom l = int128_min \<and> i128 (denom l * denom r)"
    and "rat_sub l r = None \<longleftrightarrow> i128 (numer l * denom r) \<and> i128 (numer r * denom l) \<and>
      numer l * denom r - numer r * denom l = int128_min \<and> i128 (denom l * denom r)"
    and "rat_div l r = None \<longleftrightarrow> numer r \<noteq> 0 \<and> i128 (numer l * denom r) \<and> i128 (denom l * numer r) \<and>
      (numer l * denom r = int128_min \<or> denom l * numer r = int128_min)"
proof -
  have p: "i128 int128_min" by (simp add: i128_defs)
  have "0 < denom l * denom r" using assms by (simp add: rat_ok_def)
  then have m: "denom l * denom r \<noteq> int128_min" by (auto simp: int128_min_def)
  show "rat_mul l r = None \<longleftrightarrow> numer l * numer r = int128_min \<and> i128 (denom l * denom r)"
    unfolding times.undefined_iff [OF assms TrueI] mul_fraction_Some using p m by metis
  show "rat_add l r = None \<longleftrightarrow> i128 (numer l * denom r) \<and> i128 (numer r * denom l) \<and>
      numer l * denom r + numer r * denom l = int128_min \<and> i128 (denom l * denom r)"
    unfolding plus.undefined_iff [OF assms TrueI] add_fraction_Some using p m by metis
  show "rat_sub l r = None \<longleftrightarrow> i128 (numer l * denom r) \<and> i128 (numer r * denom l) \<and>
      numer l * denom r - numer r * denom l = int128_min \<and> i128 (denom l * denom r)"
    unfolding minus.undefined_iff [OF assms TrueI] sub_fraction_Some using p m by metis
  have "numer r = 0 \<Longrightarrow> rat_div l r \<noteq> None"
    using rational_of_reduces [of 0 1] by (simp add: rat_div_def int128_max_def)
  then show "rat_div l r = None \<longleftrightarrow> numer r \<noteq> 0 \<and> i128 (numer l * denom r) \<and> i128 (denom l * numer r) \<and>
      (numer l * denom r = int128_min \<or> denom l * numer r = int128_min)"
    using quotient.undefined_iff [OF assms] unfolding div_fraction_Some by metis
qed

end
