(* ===== verification/NumericLiteral.thy ===== *)
theory NumericLiteral
  imports Prelude
begin

text \<open>
  The regular expressions of \<open>numericLiteralConforms\<close> in \<^verbatim>\<open>lib/Frontend/Lexer.cpp\<close>. The standard
  library's full match of a pattern without captures is membership in its language; the model
  matches by derivatives, which the first group of lemmas proves to decide the language, and the
  patterns are spelled as in the source. The second group relates them to a direct recogniser of
  digit runs in which single underscores separate digits.
\<close>

subsection \<open>Regular expressions\<close>

datatype regex =
    Never
  | Empty
  | Class "(char \<times> char) list"
  | Cat regex regex
  | Alt regex regex
  | Star regex

definition in_class :: "(char \<times> char) list \<Rightarrow> char \<Rightarrow> bool" where
  "in_class ranges c \<longleftrightarrow>
     list_ex (\<lambda>(lo, hi). of_char lo \<le> (of_char c :: nat) \<and> (of_char c :: nat) \<le> of_char hi) ranges"

fun cat_all :: "regex list \<Rightarrow> regex" where
  "cat_all [] = Empty"
| "cat_all [r] = r"
| "cat_all (r # rs) = Cat r (cat_all rs)"

definition optional :: "regex \<Rightarrow> regex" where
  "optional r = Alt r Empty"

definition one_or_more :: "regex \<Rightarrow> regex" where
  "one_or_more r = Cat r (Star r)"

definition lit :: "char \<Rightarrow> regex" where
  "lit c = Class [(c, c)]"

fun nullable :: "regex \<Rightarrow> bool" where
  "nullable Never = False"
| "nullable Empty = True"
| "nullable (Class cs) = False"
| "nullable (Cat r s) = (nullable r \<and> nullable s)"
| "nullable (Alt r s) = (nullable r \<or> nullable s)"
| "nullable (Star r) = True"

fun mk_cat :: "regex \<Rightarrow> regex \<Rightarrow> regex" where
  "mk_cat Never s = Never"
| "mk_cat Empty s = s"
| "mk_cat r s = Cat r s"

fun mk_alt :: "regex \<Rightarrow> regex \<Rightarrow> regex" where
  "mk_alt Never s = s"
| "mk_alt r Never = r"
| "mk_alt r s = Alt r s"

fun deriv :: "char \<Rightarrow> regex \<Rightarrow> regex" where
  "deriv c Never = Never"
| "deriv c Empty = Never"
| "deriv c (Class cs) = (if in_class cs c then Empty else Never)"
| "deriv c (Cat r s) =
     (if nullable r then mk_alt (mk_cat (deriv c r) s) (deriv c s) else mk_cat (deriv c r) s)"
| "deriv c (Alt r s) = mk_alt (deriv c r) (deriv c s)"
| "deriv c (Star r) = mk_cat (deriv c r) (Star r)"

definition regex_match :: "string \<Rightarrow> regex \<Rightarrow> bool" where
  "regex_match s r = nullable (fold deriv s r)"

subsection \<open>The patterns of the lexer\<close>

definition kDigits :: regex where
  "kDigits = Cat (Class [(CHR ''0'', CHR ''9'')])
     (Star (Cat (optional (lit CHR ''_'')) (Class [(CHR ''0'', CHR ''9'')])))"

definition kPoint :: regex where
  "kPoint = Alt (cat_all [optional kDigits, lit CHR ''.'', kDigits]) (Cat kDigits (lit CHR ''.''))"

definition kExponent :: regex where
  "kExponent = cat_all [Class [(CHR ''e'', CHR ''e''), (CHR ''E'', CHR ''E'')],
     optional (Class [(CHR ''+'', CHR ''+''), (CHR ''-'', CHR ''-'')]), kDigits]"

definition kBinary :: regex where
  "kBinary = cat_all [lit CHR ''0'', Class [(CHR ''b'', CHR ''b''), (CHR ''B'', CHR ''B'')],
     one_or_more (Cat (optional (lit CHR ''_'')) (Class [(CHR ''0'', CHR ''1'')]))]"

definition kOctal :: regex where
  "kOctal = cat_all [lit CHR ''0'', Class [(CHR ''o'', CHR ''o''), (CHR ''O'', CHR ''O'')],
     one_or_more (Cat (optional (lit CHR ''_'')) (Class [(CHR ''0'', CHR ''7'')]))]"

definition kHex :: regex where
  "kHex = cat_all [lit CHR ''0'', Class [(CHR ''x'', CHR ''x''), (CHR ''X'', CHR ''X'')],
     one_or_more (Cat (optional (lit CHR ''_''))
       (Class [(CHR ''0'', CHR ''9''), (CHR ''a'', CHR ''f''), (CHR ''A'', CHR ''F'')]))]"

definition kDecimal :: regex where
  "kDecimal = Alt
     (one_or_more (Cat (lit CHR ''0'') (Star (Cat (optional (lit CHR ''_'')) (lit CHR ''0'')))))
     (Cat (Class [(CHR ''1'', CHR ''9'')])
       (Star (Cat (optional (lit CHR ''_'')) (Class [(CHR ''0'', CHR ''9'')]))))"

definition kReal :: regex where
  "kReal = Alt (Cat (Alt kPoint kDigits) kExponent) kPoint"

definition numericLiteralConforms :: "string \<Rightarrow> bool \<Rightarrow> bool" where
  "numericLiteralConforms text isReal =
     (if isReal then regex_match text kReal
      else if length text \<ge> 2 \<and> text ! 0 = CHR ''0'' \<and> text ! 1 \<in> {CHR ''b'', CHR ''B''}
        then regex_match text kBinary
      else if length text \<ge> 2 \<and> text ! 0 = CHR ''0'' \<and> text ! 1 \<in> {CHR ''o'', CHR ''O''}
        then regex_match text kOctal
      else if length text \<ge> 2 \<and> text ! 0 = CHR ''0'' \<and> text ! 1 \<in> {CHR ''x'', CHR ''X''}
        then regex_match text kHex
      else regex_match text kDecimal)"

subsection \<open>Matching decides the language\<close>

inductive_set star :: "string set \<Rightarrow> string set" for A where
  star_Nil [simp, intro]: "[] \<in> star A"
| star_append [intro]: "u \<in> A \<Longrightarrow> v \<in> star A \<Longrightarrow> u @ v \<in> star A"

fun lang :: "regex \<Rightarrow> string set" where
  "lang Never = {}"
| "lang Empty = {[]}"
| "lang (Class cs) = {[c] |c. in_class cs c}"
| "lang (Cat r s) = {u @ v |u v. u \<in> lang r \<and> v \<in> lang s}"
| "lang (Alt r s) = lang r \<union> lang s"
| "lang (Star r) = star (lang r)"

lemma lang_mk_cat [simp]: "lang (mk_cat r s) = lang (Cat r s)"
  by (induction r s rule: mk_cat.induct) auto

lemma lang_mk_alt [simp]: "lang (mk_alt r s) = lang (Alt r s)"
  by (induction r s rule: mk_alt.induct) auto

lemma nullable_lang: "nullable r \<longleftrightarrow> [] \<in> lang r"
  by (induction r) auto

lemma star_Cons: "c # w \<in> star A \<longleftrightarrow> (\<exists>u v. w = u @ v \<and> c # u \<in> A \<and> v \<in> star A)"
proof
  assume "c # w \<in> star A"
  then show "\<exists>u v. w = u @ v \<and> c # u \<in> A \<and> v \<in> star A"
  proof (induction "c # w" arbitrary: w)
    case (star_append u v)
    then show ?case by (cases u) auto
  qed
next
  assume "\<exists>u v. w = u @ v \<and> c # u \<in> A \<and> v \<in> star A"
  then show "c # w \<in> star A" using star_append [of "c # _"] by fastforce
qed

lemma deriv_lang: "w \<in> lang (deriv c r) \<longleftrightarrow> c # w \<in> lang r"
proof (induction r arbitrary: w)
  case (Cat r s)
  have "c # w \<in> lang (Cat r s) \<longleftrightarrow>
      (\<exists>u v. w = u @ v \<and> c # u \<in> lang r \<and> v \<in> lang s) \<or> ([] \<in> lang r \<and> c # w \<in> lang s)"
    by (auto simp: Cons_eq_append_conv)
  then show ?case using Cat by (auto simp: nullable_lang)
next
  case (Star r)
  then show ?case by (auto simp: star_Cons)
qed auto

lemma fold_deriv_lang: "w \<in> lang (fold deriv s r) \<longleftrightarrow> s @ w \<in> lang r"
  by (induction s arbitrary: r) (auto simp: deriv_lang)

theorem regex_match_lang: "regex_match s r \<longleftrightarrow> s \<in> lang r"
  using fold_deriv_lang [of "[]" s r] by (simp add: regex_match_def nullable_lang)

lemma lang_optional [simp]: "lang (optional r) = insert [] (lang r)"
  by (auto simp: optional_def)

lemma in_class_single [simp]: "in_class [(d, d)] c \<longleftrightarrow> c = d"
  by (auto simp: in_class_def le_antisym)

lemma lang_lit [simp]: "lang (lit c) = {[c]}"
  by (auto simp: lit_def)

subsection \<open>Digit runs\<close>

text \<open>\<open>separated D s\<close>: \<open>s\<close> is a run of digits of the class \<open>D\<close> with single underscores between
  digits only.\<close>

fun separated :: "(char \<Rightarrow> bool) \<Rightarrow> string \<Rightarrow> bool" where
  "separated D [] = False"
| "separated D [c] = D c"
| "separated D (c # d # s) =
     (D c \<and> (if d = CHR ''_'' then separated D s else separated D (d # s)))"

text \<open>\<open>tail_digits D s\<close> is what may follow a digit.\<close>

definition tail_digits :: "(char \<Rightarrow> bool) \<Rightarrow> string \<Rightarrow> bool" where
  "tail_digits D s \<longleftrightarrow>
     (case s of [] \<Rightarrow> True | c # cs \<Rightarrow> if c = CHR ''_'' then separated D cs else separated D s)"

lemma separated_Cons: "separated D (c # s) \<longleftrightarrow> D c \<and> tail_digits D s"
  by (cases s) (auto simp: tail_digits_def)

lemma tail_digits_Nil [simp]: "tail_digits D []"
  by (simp add: tail_digits_def)

lemma tail_digits_Cons: "\<not> D CHR ''_'' \<Longrightarrow> tail_digits D (c # s) \<longleftrightarrow>
    (D c \<and> tail_digits D s) \<or> (c = CHR ''_'' \<and> separated D s)"
  by (auto simp: tail_digits_def separated_Cons split: list.splits)

lemma split_optional:
  "(\<exists>u v. w = u @ v \<and> (P \<and> u = [] \<or> U \<and> (\<exists>d. u = [d] \<and> Q d)) \<and> R v) \<longleftrightarrow>
    P \<and> R w \<or> U \<and> (\<exists>d v. w = d # v \<and> Q d \<and> R v)"
proof -
  have "\<exists>u v. d # v = u @ v \<and> (\<exists>e. u = [e] \<and> Q e) \<and> R v" if "Q d" "R v" for d v
    using that by (metis append_Cons append_Nil)
  then show ?thesis by auto (metis append_Cons append_Nil)+
qed

text \<open>A star of optionally separated digits is exactly such a tail.\<close>

lemma star_digits:
  assumes "\<not> in_class cs CHR ''_''"
  shows "w \<in> star {u @ v |u v. u \<in> {[], ''_''} \<and> v \<in> {[c] |c. in_class cs c}} \<longleftrightarrow>
    tail_digits (in_class cs) w"
proof -
  let ?A = "{u @ v |u v. u \<in> {[], ''_''} \<and> v \<in> {[c] |c. in_class cs c}}"
  have A: "c # u \<in> ?A \<longleftrightarrow> (in_class cs c \<and> u = []) \<or> (c = CHR ''_'' \<and> (\<exists>d. u = [d] \<and> in_class cs d))"
    for c u
    by (simp add: conj_disj_distribL conj_disj_distribR ex_disj_distrib) auto
  show ?thesis
  proof (induction w rule: length_induct)
    case (1 w)
    show ?case
    proof (cases w)
      case (Cons c cs')
      have ih: "v \<in> star ?A \<longleftrightarrow> tail_digits (in_class cs) v" if "length v < length w" for v
        using 1 that by blast
      have "w \<in> star ?A \<longleftrightarrow> (in_class cs c \<and> cs' \<in> star ?A) \<or>
          (c = CHR ''_'' \<and> (\<exists>d ds. cs' = d # ds \<and> in_class cs d \<and> ds \<in> star ?A))"
        unfolding Cons star_Cons A split_optional by simp
      also have "\<dots> \<longleftrightarrow> (in_class cs c \<and> tail_digits (in_class cs) cs') \<or>
          (c = CHR ''_'' \<and> separated (in_class cs) cs')"
        using Cons ih by (cases cs') (auto simp: separated_Cons)
      finally show ?thesis using Cons assms by (simp add: tail_digits_Cons)
    qed simp
  qed
qed

definition is_decimal_digit :: "char \<Rightarrow> bool" where
  "is_decimal_digit = in_class [(CHR ''0'', CHR ''9'')]"

lemma lang_digit_tail:
  assumes "\<not> in_class cs CHR ''_''"
  shows "w \<in> lang (Star (Cat (optional (lit CHR ''_'')) (Class cs))) \<longleftrightarrow> tail_digits (in_class cs) w"
  using star_digits [OF assms] by simp

lemma no_underscore [simp]:
  "\<not> in_class [(CHR ''0'', CHR ''9'')] CHR ''_''" "\<not> in_class [(CHR ''0'', CHR ''1'')] CHR ''_''"
  "\<not> in_class [(CHR ''0'', CHR ''7'')] CHR ''_''" "\<not> in_class [(CHR ''1'', CHR ''9'')] CHR ''_''"
  "\<not> in_class [(CHR ''0'', CHR ''9''), (CHR ''a'', CHR ''f''), (CHR ''A'', CHR ''F'')] CHR ''_''"
  by (simp_all add: in_class_def)

lemma lang_Class_Cat: "w \<in> lang (Cat (Class cs) r) \<longleftrightarrow>
    (case w of [] \<Rightarrow> False | c # s \<Rightarrow> in_class cs c \<and> s \<in> lang r)"
proof (cases w)
  case (Cons c s)
  have "c # s = [c] @ s" by simp
  then have "in_class cs c \<Longrightarrow> s \<in> lang r \<Longrightarrow> c # s \<in> lang (Cat (Class cs) r)"
    unfolding lang.simps by blast
  then show ?thesis using Cons by (auto simp del: lang.simps simp: lang.simps(3,4))
qed auto

lemma lang_kDigits: "w \<in> lang kDigits \<longleftrightarrow> separated is_decimal_digit w"
  unfolding kDigits_def lang_Class_Cat
  by (cases w) (simp_all only: list.case lang_digit_tail [OF no_underscore(1)] is_decimal_digit_def
      separated_Cons separated.simps)

lemma tail_digits_append: "separated D v \<Longrightarrow> tail_digits D u \<Longrightarrow> \<not> D CHR ''_'' \<Longrightarrow> tail_digits D (u @ v)"
proof (induction u rule: length_induct)
  case (1 u)
  show ?case
  proof (cases u)
    case Nil
    then show ?thesis using 1 by (cases v) (auto simp: tail_digits_Cons separated_Cons)
  next
    case (Cons c s)
    show ?thesis
    proof (cases "c = CHR ''_''")
      case True
      then obtain d t where "s = d # t" "D d" "tail_digits D t"
        using 1 Cons by (cases s) (auto simp: tail_digits_Cons separated_Cons)
      then show ?thesis using 1 Cons True by (auto simp: tail_digits_Cons separated_Cons)
    qed (use 1 Cons in \<open>auto simp: tail_digits_Cons\<close>)
  qed
qed

lemma separated_append:
  "separated D u \<Longrightarrow> separated D v \<Longrightarrow> \<not> D CHR ''_'' \<Longrightarrow> separated D (u @ v)"
  by (cases u) (auto simp: separated_Cons tail_digits_append)

lemma star_separated:
  assumes "\<not> D CHR ''_''"
  shows "(\<exists>u v. w = u @ v \<and> separated D u \<and> v \<in> star {w. separated D w}) \<longleftrightarrow> separated D w"
proof -
  have s: "v = [] \<or> separated D v" if "v \<in> star {w. separated D w}" for v
    using that by induction (auto simp: separated_append assms)
  show ?thesis using s separated_append [of D, OF _ _ assms] star_Nil [of "{w. separated D w}"]
    by (metis append_Nil2)
qed

lemma lang_one_or_more:
  assumes "[] \<notin> lang r"
  shows "w \<in> lang (one_or_more r) \<longleftrightarrow> w \<noteq> [] \<and> w \<in> star (lang r)"
proof -
  have "w \<noteq> [] \<and> w \<in> star (lang r) \<longleftrightarrow> (\<exists>u v. w = u @ v \<and> u \<in> lang r \<and> v \<in> star (lang r))"
    using assms by (subst star.simps) auto
  then show ?thesis by (simp add: one_or_more_def)
qed

lemma lang_separated:
  assumes "\<not> in_class cs CHR ''_''"
  shows "lang (Cat (Class cs) (Star (Cat (optional (lit CHR ''_'')) (Class cs)))) =
    {w. separated (in_class cs) w}"
proof -
  have "w \<in> lang (Cat (Class cs) (Star (Cat (optional (lit CHR ''_'')) (Class cs)))) \<longleftrightarrow>
      separated (in_class cs) w" for w
    unfolding lang_Class_Cat
    by (cases w) (simp_all only: list.case lang_digit_tail [OF assms] separated_Cons separated.simps)
  then show ?thesis by blast
qed

lemma lang_zeros:
  "w \<in> lang (one_or_more (Cat (lit CHR ''0'') (Star (Cat (optional (lit CHR ''_'')) (lit CHR ''0''))))) \<longleftrightarrow>
    separated (\<lambda>c. c = CHR ''0'') w"
proof -
  have u: "\<not> in_class [(CHR ''0'', CHR ''0'')] CHR ''_''" by simp
  have f: "in_class [(CHR ''0'', CHR ''0'')] = (\<lambda>c. c = CHR ''0'')" by (simp add: fun_eq_iff)
  show ?thesis
    using lang_separated [OF u] star_separated [of "\<lambda>c. c = CHR ''0''" w]
    by (simp add: one_or_more_def f lit_def [of "CHR ''0''"] del: lang.simps(3) lang.simps(6) lang_lit)
      (simp add: lit_def)
qed

subsection \<open>The literals accepted\<close>

abbreviation is_binary_digit :: "char \<Rightarrow> bool" where
  "is_binary_digit \<equiv> in_class [(CHR ''0'', CHR ''1'')]"

abbreviation is_octal_digit :: "char \<Rightarrow> bool" where
  "is_octal_digit \<equiv> in_class [(CHR ''0'', CHR ''7'')]"

abbreviation is_hex_digit :: "char \<Rightarrow> bool" where
  "is_hex_digit \<equiv> in_class [(CHR ''0'', CHR ''9''), (CHR ''a'', CHR ''f''), (CHR ''A'', CHR ''F'')]"

text \<open>A prefixed integer has at least one digit after its prefix; a decimal integer is a digit run
  that starts with a nonzero digit or is made of zeros only.\<close>

definition integer_literal :: "string \<Rightarrow> bool" where
  "integer_literal w =
     (if length w \<ge> 2 \<and> w ! 0 = CHR ''0'' \<and> w ! 1 \<in> {CHR ''b'', CHR ''B''}
        then drop 2 w \<noteq> [] \<and> tail_digits is_binary_digit (drop 2 w)
      else if length w \<ge> 2 \<and> w ! 0 = CHR ''0'' \<and> w ! 1 \<in> {CHR ''o'', CHR ''O''}
        then drop 2 w \<noteq> [] \<and> tail_digits is_octal_digit (drop 2 w)
      else if length w \<ge> 2 \<and> w ! 0 = CHR ''0'' \<and> w ! 1 \<in> {CHR ''x'', CHR ''X''}
        then drop 2 w \<noteq> [] \<and> tail_digits is_hex_digit (drop 2 w)
      else separated (\<lambda>c. c = CHR ''0'') w \<or> (separated is_decimal_digit w \<and> hd w \<noteq> CHR ''0''))"

definition point_literal :: "string \<Rightarrow> bool" where
  "point_literal w \<longleftrightarrow> (\<exists>a b. w = a @ CHR ''.'' # b \<and>
     ((a = [] \<or> separated is_decimal_digit a) \<and> separated is_decimal_digit b \<or>
      separated is_decimal_digit a \<and> b = []))"

definition exponent_part :: "string \<Rightarrow> bool" where
  "exponent_part w \<longleftrightarrow> (\<exists>e s d. w = e # s @ d \<and> e \<in> {CHR ''e'', CHR ''E''} \<and>
     s \<in> {[], ''+'', ''-''} \<and> separated is_decimal_digit d)"

definition real_literal :: "string \<Rightarrow> bool" where
  "real_literal w \<longleftrightarrow> point_literal w \<or>
     (\<exists>m x. w = m @ x \<and> (point_literal m \<or> separated is_decimal_digit m) \<and> exponent_part x)"

lemma lang_prefixed:
  assumes "\<not> in_class cs CHR ''_''"
  shows "w \<in> lang (cat_all [lit CHR ''0'', Class ps,
      one_or_more (Cat (optional (lit CHR ''_'')) (Class cs))]) \<longleftrightarrow>
    2 \<le> length w \<and> w ! 0 = CHR ''0'' \<and> in_class ps (w ! 1) \<and> drop 2 w \<noteq> [] \<and>
      tail_digits (in_class cs) (drop 2 w)"
proof -
  let ?d = "Cat (optional (lit CHR ''_'')) (Class cs)"
  have "[] \<notin> lang ?d" by (simp add: lit_def)
  then have o: "s \<in> lang (one_or_more ?d) \<longleftrightarrow> s \<noteq> [] \<and> tail_digits (in_class cs) s" for s
    using lang_one_or_more [of ?d s] lang_digit_tail [OF assms, of s] by (simp del: lang.simps(4))
  show ?thesis
    unfolding cat_all.simps lit_def [of "CHR ''0''"] lang_Class_Cat o
    by (cases w; cases "tl w") (auto split: list.splits)
qed

lemma conforms_integer: "numericLiteralConforms w False \<longleftrightarrow> integer_literal w"
proof -
  have c: "in_class [(a, a), (b, b)] x \<longleftrightarrow> x = a \<or> x = b" for a b x
    by (auto simp: in_class_def le_antisym)
  have z: "\<not> in_class [(CHR ''1'', CHR ''9'')] CHR ''_''" by simp
  have nz: "in_class [(CHR ''1'', CHR ''9'')] x \<longleftrightarrow> is_decimal_digit x \<and> x \<noteq> CHR ''0''" for x
  proof -
    have "x \<noteq> CHR ''0'' \<longleftrightarrow> (of_char x :: nat) \<noteq> of_char CHR ''0''" by (metis of_char_eq_iff)
    then show ?thesis by (auto simp: in_class_def is_decimal_digit_def)
  qed
  have d: "w \<in> lang kDecimal \<longleftrightarrow> separated (\<lambda>c. c = CHR ''0'') w \<or>
      (separated is_decimal_digit w \<and> hd w \<noteq> CHR ''0'')"
    unfolding kDecimal_def lang.simps(5) Un_iff lang_zeros lang_Class_Cat
    by (cases w) (simp_all only: list.case lang_digit_tail [OF no_underscore(1)] separated_Cons
        separated.simps nz is_decimal_digit_def [symmetric] list.sel, auto)
  show ?thesis
    unfolding numericLiteralConforms_def integer_literal_def regex_match_lang kBinary_def kOctal_def
      kHex_def lang_prefixed [OF no_underscore(2)] lang_prefixed [OF no_underscore(3)]
      lang_prefixed [OF no_underscore(5)] c d
    by auto
qed

lemma lang_Cat: "w \<in> lang (Cat r s) \<longleftrightarrow> (\<exists>u v. w = u @ v \<and> u \<in> lang r \<and> v \<in> lang s)"
  by auto

lemma lang_kPoint: "w \<in> lang kPoint \<longleftrightarrow> point_literal w"
proof -
  have "w \<in> lang kPoint \<longleftrightarrow>
    (\<exists>u v. w = u @ v \<and> (u = [] \<or> separated is_decimal_digit u) \<and>
       (\<exists>b. v = CHR ''.'' # b \<and> separated is_decimal_digit b)) \<or>
    (\<exists>u. w = u @ ''.'' \<and> separated is_decimal_digit u)"
    unfolding kPoint_def cat_all.simps lang.simps(5) Un_iff lang_Cat lang_optional
      insert_iff lang_kDigits lang_lit by simp
  then show ?thesis unfolding point_literal_def by auto
qed

lemma lang_kExponent: "w \<in> lang kExponent \<longleftrightarrow> exponent_part w"
proof -
  have c: "in_class [(a, a), (b, b)] x \<longleftrightarrow> x = a \<or> x = b" for a b x
    by (auto simp: in_class_def le_antisym)
  have "w \<in> lang kExponent \<longleftrightarrow> (\<exists>u v. w = u @ v \<and> (\<exists>e. u = [e] \<and> (e = CHR ''e'' \<or> e = CHR ''E'')) \<and>
      (\<exists>s d. v = s @ d \<and> (s = [] \<or> (\<exists>g. s = [g] \<and> (g = CHR ''+'' \<or> g = CHR ''-''))) \<and>
        separated is_decimal_digit d))"
    unfolding kExponent_def cat_all.simps lang_Cat lang_optional insert_iff
      lang_kDigits lang.simps(3) c by simp
  also have "\<dots> \<longleftrightarrow> (\<exists>e s d. w = e # s @ d \<and> (e = CHR ''e'' \<or> e = CHR ''E'') \<and>
      (s = [] \<or> s = ''+'' \<or> s = ''-'') \<and> separated is_decimal_digit d)"
    by (intro iffI; elim exE conjE disjE; simp) (metis append_Cons append_Nil)+
  finally show ?thesis unfolding exponent_part_def by simp
qed

lemma conforms_real: "numericLiteralConforms w True \<longleftrightarrow> real_literal w"
  unfolding numericLiteralConforms_def regex_match_lang kReal_def lang.simps(5) Un_iff lang_Cat
    lang_kPoint lang_kExponent lang_kDigits real_literal_def by auto
end
