(* ===== verification/Lexer.thy ===== *)
theory Lexer
  imports NumericLiteral "HOL-Library.Word"
begin

unbundle bit_operations_syntax

text \<open>
  The lexer of DSDL source text: \<^verbatim>\<open>lib/Frontend/Lexer.cpp\<close>, with the token and error types of
  \<^verbatim>\<open>include/llvmdsdl/Frontend/Lexer.h\<close> and the locations of
  \<^verbatim>\<open>include/llvmdsdl/Frontend/SourceLocation.h\<close>. A byte is a \<open>char\<close>, a line or column is a 32-bit
  word that wraps as in the source, and every member function is a function on the record
  \<open>lexer\<close> of the members. The character classes of the C library are those of the "C" locale. A
  loop of the code is a recursive function on that record with its own termination proof: each
  iteration consumes a byte.
\<close>

subsection \<open>Tokens, errors and the state\<close>

datatype TokenKind =
    TkEof
  | TkNewline
  | TkComment
  | TkIdentifier
  | TkInteger
  | TkReal
  | TkString
  | TkTrue
  | TkFalse
  | TkAt
  | TkServiceResponseMarker
  | TkLParen
  | TkRParen
  | TkLBracket
  | TkRBracket
  | TkLBrace
  | TkRBrace
  | TkComma
  | TkDot
  | TkEqual
  | TkPlus
  | TkMinus
  | TkStar
  | TkSlash
  | TkPercent
  | TkPipe
  | TkCaret
  | TkAmp
  | TkBang
  | TkLess
  | TkGreater
  | TkLessEqual
  | TkGreaterEqual
  | TkEqualEqual
  | TkBangEqual
  | TkPipePipe
  | TkAmpAmp
  | TkStarStar

record SourceLocation =
  loc_file :: string
  loc_line :: "32 word"
  loc_column :: "32 word"

record Token =
  tok_kind :: TokenKind
  tok_text :: string
  tok_location :: SourceLocation

record LexerError =
  err_location :: SourceLocation
  err_message :: string

record lexer =
  lx_file :: string
  lx_text :: string
  lx_index :: nat
  lx_line :: "32 word"
  lx_column :: "32 word"
  lx_tokens :: "Token list"
  lx_errors :: "LexerError list"

definition Lexer_init :: "string \<Rightarrow> string \<Rightarrow> lexer" where
  "Lexer_init file text = \<lparr>lx_file = file, lx_text = text, lx_index = 0, lx_line = 1, lx_column = 1,
     lx_tokens = [], lx_errors = []\<rparr>"

definition recordError :: "32 word \<Rightarrow> 32 word \<Rightarrow> string \<Rightarrow> lexer \<Rightarrow> lexer" where
  "recordError line column message lx = lx\<lparr>lx_errors := lx_errors lx @
     [\<lparr>err_location = \<lparr>loc_file = lx_file lx, loc_line = line, loc_column = column\<rparr>,
       err_message = message\<rparr>]\<rparr>"

definition isAtEnd :: "lexer \<Rightarrow> bool" where
  "isAtEnd lx \<longleftrightarrow> lx_index lx \<ge> length (lx_text lx)"

definition peek :: "lexer \<Rightarrow> nat \<Rightarrow> char" where
  "peek lx lookahead =
     (let i = lx_index lx + lookahead
      in if i < length (lx_text lx) then lx_text lx ! i else CHR 0x00)"

definition advance :: "lexer \<Rightarrow> char \<times> lexer" where
  "advance lx =
     (if isAtEnd lx then (CHR 0x00, lx)
      else let c = lx_text lx ! lx_index lx;
               lx = lx\<lparr>lx_index := lx_index lx + 1\<rparr>
           in if c = CHR 0x0A then (c, lx\<lparr>lx_line := lx_line lx + 1, lx_column := 1\<rparr>)
              else (c, lx\<lparr>lx_column := lx_column lx + 1\<rparr>))"

definition emit :: "TokenKind \<Rightarrow> string \<Rightarrow> 32 word \<Rightarrow> 32 word \<Rightarrow> lexer \<Rightarrow> lexer" where
  "emit kind text line column lx = lx\<lparr>lx_tokens := lx_tokens lx @
     [\<lparr>tok_kind = kind, tok_text = text,
       tok_location = \<lparr>loc_file = lx_file lx, loc_line = line, loc_column = column\<rparr>\<rparr>]\<rparr>"

subsection \<open>Character classes\<close>

definition isdigit :: "char \<Rightarrow> bool" where
  "isdigit c \<longleftrightarrow> 48 \<le> (of_char c :: nat) \<and> (of_char c :: nat) \<le> 57"

definition isalpha :: "char \<Rightarrow> bool" where
  "isalpha c \<longleftrightarrow> (65 \<le> (of_char c :: nat) \<and> (of_char c :: nat) \<le> 90) \<or>
     (97 \<le> (of_char c :: nat) \<and> (of_char c :: nat) \<le> 122)"

definition isalnum :: "char \<Rightarrow> bool" where
  "isalnum c \<longleftrightarrow> isalpha c \<or> isdigit c"

subsection \<open>Runs of characters\<close>

text \<open>Every loop measures the bytes left. The condition of the first three is false of the NUL
  that \<open>peek\<close> returns at the end.\<close>

definition remaining :: "lexer \<Rightarrow> nat" where
  "remaining lx = length (lx_text lx) - lx_index lx"

lemma peek_not_nul: "peek lx k \<noteq> CHR 0x00 \<Longrightarrow> lx_index lx + k < length (lx_text lx)"
  by (auto simp: peek_def Let_def split: if_splits)

lemma advance_remaining: "\<not> isAtEnd lx \<Longrightarrow> remaining (snd (advance lx)) < remaining lx"
  by (auto simp: advance_def isAtEnd_def remaining_def Let_def)

lemma peek_advance_remaining:
  "peek lx 0 \<noteq> CHR 0x00 \<Longrightarrow> remaining (snd (advance lx)) < remaining lx"
  using peek_not_nul [of lx 0] by (intro advance_remaining) (simp add: isAtEnd_def)

lemma class_not_nul [simp]:
  "\<not> isdigit CHR 0x00" "\<not> isalpha CHR 0x00" "\<not> isalnum CHR 0x00"
  by (simp_all add: isdigit_def isalpha_def isalnum_def)

function word_run :: "string \<Rightarrow> lexer \<Rightarrow> string \<times> lexer" where
  "word_run text lx =
     (if isalnum (peek lx 0) \<or> peek lx 0 = CHR ''_''
      then let (c, lx') = advance lx in word_run (text @ [c]) lx'
      else (text, lx))"
  by pat_completeness auto
termination
proof (relation "measure (remaining \<circ> snd)", goal_cases)
  case (2 t lx _ c lx')
  then have "peek lx 0 \<noteq> CHR 0x00" by (intro notI) simp
  then show ?case using peek_advance_remaining [of lx] 2 by (metis comp_apply in_measure snd_conv)
qed simp

function digit_run :: "string \<Rightarrow> lexer \<Rightarrow> string \<times> lexer" where
  "digit_run text lx =
     (if isdigit (peek lx 0) \<or> peek lx 0 = CHR ''_''
      then let (c, lx') = advance lx in digit_run (text @ [c]) lx'
      else (text, lx))"
  by pat_completeness auto
termination
proof (relation "measure (remaining \<circ> snd)", goal_cases)
  case (2 t lx _ c lx')
  then have "peek lx 0 \<noteq> CHR 0x00" by (intro notI) simp
  then show ?case using peek_advance_remaining [of lx] 2 by (metis comp_apply in_measure snd_conv)
qed simp

function dash_run :: "lexer \<Rightarrow> lexer" where
  "dash_run lx = (if peek lx 0 = CHR ''-'' then dash_run (snd (advance lx)) else lx)"
  by pat_completeness auto
termination
proof (relation "measure remaining", goal_cases)
  case (2 lx)
  then have "peek lx 0 \<noteq> CHR 0x00" by simp
  then show ?case using peek_advance_remaining [of lx] by simp
qed simp

function comment_run :: "string \<Rightarrow> lexer \<Rightarrow> string \<times> lexer" where
  "comment_run text lx =
     (if \<not> isAtEnd lx \<and> peek lx 0 \<noteq> CHR 0x0A \<and> peek lx 0 \<noteq> CHR 0x0D
      then let (c, lx') = advance lx in comment_run (text @ [c]) lx'
      else (text, lx))"
  by pat_completeness auto
termination
proof (relation "measure (remaining \<circ> snd)", goal_cases)
  case (2 t lx _ c lx')
  then show ?case using advance_remaining [of lx] by (metis comp_apply in_measure snd_conv)
qed simp

declare word_run.simps [simp del] digit_run.simps [simp del] dash_run.simps [simp del]
  comment_run.simps [simp del]

subsection \<open>Identifiers and numbers\<close>

definition lexIdentifierOrKeyword :: "32 word \<Rightarrow> 32 word \<Rightarrow> lexer \<Rightarrow> lexer" where
  "lexIdentifierOrKeyword line column lx =
     (let (text, lx) = word_run [] lx
      in if text = ''true'' then emit TkTrue text line column lx
         else if text = ''false'' then emit TkFalse text line column lx
         else emit TkIdentifier text line column lx)"

text \<open>The body of \<open>lexNumber\<close>, one definition per block of the source: the prefixed integers, the
  leading dot, the fraction, the trailing dot before an exponent, the exponent, and the verdict.
  The scanned text, the flag \<open>hasDot\<close> and the lexer are passed along.\<close>

definition prefixed_number :: "32 word \<Rightarrow> 32 word \<Rightarrow> lexer \<Rightarrow> lexer" where
  "prefixed_number line column lx =
     (let (c1, lx) = advance lx;
          (c2, lx) = advance lx;
          (text, lx) = word_run [c1, c2] lx;
          lx = (if \<not> numericLiteralConforms text False
                then recordError line column (''malformed integer literal '' @ [CHR 0x27] @ text @ [CHR 0x27]) lx
                else lx)
      in emit TkInteger text line column lx)"

definition leading_dot :: "lexer \<Rightarrow> string \<times> bool \<times> lexer" where
  "leading_dot lx =
     (if peek lx 0 = CHR ''.'' then let (c, lx) = advance lx in ([c], True, lx) else ([], False, lx))"

definition fraction_digits :: "string \<Rightarrow> bool \<Rightarrow> lexer \<Rightarrow> string \<times> bool \<times> lexer" where
  "fraction_digits text hasDot lx =
     (if \<not> hasDot \<and> peek lx 0 = CHR ''.'' \<and> isdigit (peek lx 1)
      then let (c, lx) = advance lx; (text, lx) = digit_run (text @ [c]) lx in (text, True, lx)
      else (text, hasDot, lx))"

definition trailing_dot :: "string \<Rightarrow> bool \<Rightarrow> lexer \<Rightarrow> string \<times> bool \<times> lexer" where
  "trailing_dot text hasDot lx =
     (if \<not> hasDot \<and> peek lx 0 = CHR ''.'' \<and> (peek lx 1 = CHR ''e'' \<or> peek lx 1 = CHR ''E'')
      then let (c, lx) = advance lx in (text @ [c], True, lx)
      else (text, hasDot, lx))"

definition exponent_digits :: "string \<Rightarrow> lexer \<Rightarrow> string \<times> bool \<times> lexer" where
  "exponent_digits text lx =
     (if peek lx 0 = CHR ''e'' \<or> peek lx 0 = CHR ''E''
      then let (c, lx) = advance lx;
               (text, lx) = (if peek lx 0 = CHR ''+'' \<or> peek lx 0 = CHR ''-''
                             then let (s, lx) = advance lx in (text @ [c, s], lx)
                             else (text @ [c], lx));
               (text, lx) = digit_run text lx
           in (text, True, lx)
      else (text, False, lx))"

definition preceded_by_dot :: "32 word \<Rightarrow> 32 word \<Rightarrow> lexer \<Rightarrow> bool" where
  "preceded_by_dot line column lx \<longleftrightarrow>
     lx_tokens lx \<noteq> [] \<and> tok_kind (last (lx_tokens lx)) = TkDot \<and>
     loc_line (tok_location (last (lx_tokens lx))) = line \<and>
     loc_column (tok_location (last (lx_tokens lx))) + 1 = column"

definition finish_number :: "string \<Rightarrow> bool \<Rightarrow> 32 word \<Rightarrow> 32 word \<Rightarrow> lexer \<Rightarrow> lexer" where
  "finish_number text isReal line column lx =
     (let conforms =
            (if isReal then numericLiteralConforms text True
             else if preceded_by_dot line column lx \<or> peek lx 0 = CHR ''.''
             then numericLiteralConforms (''.'' @ text) True
             else numericLiteralConforms text False);
          lx = (if \<not> conforms
                then recordError line column (''malformed '' @ (if isReal then ''real'' else ''integer'') @
                  '' literal '' @ [CHR 0x27] @ text @ [CHR 0x27]) lx
                else lx)
      in emit (if isReal then TkReal else TkInteger) text line column lx)"

definition lexNumber :: "32 word \<Rightarrow> 32 word \<Rightarrow> lexer \<Rightarrow> lexer" where
  "lexNumber line column lx =
     (if peek lx 0 = CHR ''0'' \<and>
        peek lx 1 \<in> {CHR ''x'', CHR ''X'', CHR ''b'', CHR ''B'', CHR ''o'', CHR ''O''}
      then prefixed_number line column lx
      else let (text, hasDot, lx) = leading_dot lx;
               (text, lx) = digit_run text lx;
               (text, hasDot, lx) = fraction_digits text hasDot lx;
               (text, hasDot, lx) = trailing_dot text hasDot lx;
               (text, hasExp, lx) = exponent_digits text lx
           in finish_number text (hasDot \<or> hasExp) line column lx)"

subsection \<open>Strings\<close>

definition appendUtf8 :: "string \<Rightarrow> 32 word \<Rightarrow> string" where
  "appendUtf8 out codePoint =
     (let byte = (\<lambda>w :: 32 word. char_of (unat w))
      in if codePoint \<le> 0x7F then out @ [byte codePoint]
         else if codePoint \<le> 0x7FF
         then out @ [byte (0xC0 OR drop_bit 6 codePoint), byte (0x80 OR (codePoint AND 0x3F))]
         else if codePoint \<le> 0xFFFF
         then out @ [byte (0xE0 OR drop_bit 12 codePoint),
                     byte (0x80 OR (drop_bit 6 codePoint AND 0x3F)),
                     byte (0x80 OR (codePoint AND 0x3F))]
         else out @ [byte (0xF0 OR drop_bit 18 codePoint),
                     byte (0x80 OR (drop_bit 12 codePoint AND 0x3F)),
                     byte (0x80 OR (drop_bit 6 codePoint AND 0x3F)),
                     byte (0x80 OR (codePoint AND 0x3F))])"

definition hex_nibble :: "char \<Rightarrow> nat option" where
  "hex_nibble digit =
     (let d = of_char digit :: nat
      in if 48 \<le> d \<and> d \<le> 57 then Some (d - 48)
         else if 97 \<le> d \<and> d \<le> 102 then Some (10 + (d - 97))
         else if 65 \<le> d \<and> d \<le> 70 then Some (10 + (d - 65))
         else None)"

fun unicode_digits :: "nat \<Rightarrow> 32 word \<Rightarrow> 32 word \<Rightarrow> 32 word \<Rightarrow> lexer \<Rightarrow> 32 word option \<times> lexer" where
  "unicode_digits 0 codePoint line column lx = (Some codePoint, lx)"
| "unicode_digits (Suc n) codePoint line column lx =
     (case hex_nibble (peek lx 0) of
        None \<Rightarrow> (None, recordError line column ''incomplete unicode escape sequence in string literal'' lx)
      | Some nibble \<Rightarrow>
          unicode_digits n (push_bit 4 codePoint OR of_nat nibble) line column (snd (advance lx)))"

definition decodeUnicodeEscape ::
  "string \<Rightarrow> nat \<Rightarrow> 32 word \<Rightarrow> 32 word \<Rightarrow> lexer \<Rightarrow> string \<times> lexer" where
  "decodeUnicodeEscape val hexDigits line column lx =
     (case unicode_digits hexDigits 0 line column lx of
        (None, lx) \<Rightarrow> (val, lx)
      | (Some codePoint, lx) \<Rightarrow>
          if codePoint > 0x10FFFF \<or> (codePoint \<ge> 0xD800 \<and> codePoint \<le> 0xDFFF)
          then (val, recordError line column ''invalid unicode code point in string literal'' lx)
          else (appendUtf8 val codePoint, lx))"

definition escape_char :: "char \<Rightarrow> string \<Rightarrow> 32 word \<Rightarrow> 32 word \<Rightarrow> lexer \<Rightarrow> string \<times> lexer" where
  "escape_char esc val line column lx =
     (if esc = CHR ''n'' then (val @ [CHR 0x0A], lx)
      else if esc = CHR ''r'' then (val @ [CHR 0x0D], lx)
      else if esc = CHR ''t'' then (val @ [CHR 0x09], lx)
      else if esc \<in> {CHR 0x5C, CHR 0x27, CHR 0x22} then (val @ [esc], lx)
      else if esc = CHR ''u'' then decodeUnicodeEscape val 4 line column lx
      else if esc = CHR ''U'' then decodeUnicodeEscape val 8 line column lx
      else (val @ [esc], recordError line column
        (''invalid escape sequence '' @ [CHR 0x27, CHR 0x5C, esc, CHR 0x27] @ '' in string literal'') lx))"

text \<open>No member function gives bytes back.\<close>

named_theorems consumes \<open>how many bytes are left after an operation\<close>

lemma remaining_recordError [consumes, simp]: "remaining (recordError l c m lx) = remaining lx"
  by (simp add: recordError_def remaining_def)

lemma remaining_emit [consumes, simp]: "remaining (emit k t l c lx) = remaining lx"
  by (simp add: emit_def remaining_def)

lemma remaining_advance [consumes]: "remaining (snd (advance lx)) \<le> remaining lx"
  by (auto simp: advance_def remaining_def Let_def)

text \<open>The three loops that collect text share a contract: they advance while a condition on the
  next character holds, which it never does at the end of the text.\<close>

locale character_run =
  fixes run :: "string \<Rightarrow> lexer \<Rightarrow> string \<times> lexer"
    and cond :: "lexer \<Rightarrow> bool"
    and P :: "char \<Rightarrow> bool"
  assumes iterate: "run t lx =
      (if cond lx then run (t @ [fst (advance lx)]) (snd (advance lx)) else (t, lx))"
    and cond_iff: "cond lx \<longleftrightarrow> \<not> isAtEnd lx \<and> P (peek lx 0)"
begin

lemma remaining_run: "remaining (snd (run t lx)) \<le> remaining lx"
proof (induction "remaining lx" arbitrary: t lx rule: less_induct)
  case less
  show ?case
  proof (cases "cond lx")
    case True
    then have "remaining (snd (advance lx)) < remaining lx"
      by (simp add: cond_iff advance_remaining)
    then show ?thesis using less True iterate [of t lx] by (metis less_imp_le order_trans)
  qed (simp add: iterate [of t lx])
qed

lemma remaining_run_strict: "cond lx \<Longrightarrow> remaining (snd (run t lx)) < remaining lx"
  using iterate [of t lx] remaining_run [of "t @ [fst (advance lx)]" "snd (advance lx)"]
    advance_remaining [of lx] by (simp add: cond_iff)

end

lemma class_at_end [simp]: "isAtEnd lx \<Longrightarrow> peek lx k = CHR 0x00"
  by (simp add: isAtEnd_def peek_def)

interpretation words: character_run word_run
  "\<lambda>lx. isalnum (peek lx 0) \<or> peek lx 0 = CHR ''_''" "\<lambda>c. isalnum c \<or> c = CHR ''_''"
  by unfold_locales (auto simp: word_run.simps [of _ lx for lx] split: prod.splits)

interpretation digits: character_run digit_run
  "\<lambda>lx. isdigit (peek lx 0) \<or> peek lx 0 = CHR ''_''" "\<lambda>c. isdigit c \<or> c = CHR ''_''"
  by unfold_locales (auto simp: digit_run.simps [of _ lx for lx] split: prod.splits)

interpretation comments: character_run comment_run
  "\<lambda>lx. \<not> isAtEnd lx \<and> peek lx 0 \<noteq> CHR 0x0A \<and> peek lx 0 \<noteq> CHR 0x0D"
  "\<lambda>c. c \<noteq> CHR 0x0A \<and> c \<noteq> CHR 0x0D"
  by unfold_locales (auto simp: comment_run.simps [of _ lx for lx] split: prod.splits)

lemma remaining_dash_run [consumes]: "remaining (dash_run lx) \<le> remaining lx"
proof (induction lx rule: dash_run.induct)
  case (1 lx)
  then show ?case using remaining_advance [of lx]
    by (subst dash_run.simps) (auto intro: order_trans)
qed

lemma remaining_unicode_digits [consumes]:
  "remaining (snd (unicode_digits n cp l c lx)) \<le> remaining lx"
proof (induction n arbitrary: cp lx)
  case (Suc n)
  show ?case using Suc remaining_advance [of lx]
    by (auto split: option.splits intro: order_trans)
qed simp

lemma remaining_escape_char [consumes]:
  "remaining (snd (escape_char e v l c lx)) \<le> remaining lx"
  using remaining_unicode_digits [of 4 0 l c lx] remaining_unicode_digits [of 8 0 l c lx]
  by (auto simp: escape_char_def decodeUnicodeEscape_def split: prod.splits option.splits)

function string_loop :: "char \<Rightarrow> string \<Rightarrow> lexer \<Rightarrow> string \<times> lexer" where
  "string_loop quote val lx =
     (if \<not> isAtEnd lx \<and> peek lx 0 \<noteq> quote
      then let charLine = lx_line lx; charColumn = lx_column lx; (c, lx1) = advance lx
           in if c \<noteq> CHR 0x5C then string_loop quote (val @ [c]) lx1
              else if isAtEnd lx1 \<or> peek lx1 0 = CHR 0x0A \<or> peek lx1 0 = CHR 0x0D
              then (val, recordError charLine charColumn
                     ''unterminated escape sequence in string literal'' lx1)
              else let (esc, lx2) = advance lx1;
                       (val', lx3) = escape_char esc val charLine charColumn lx2
                   in string_loop quote val' lx3
      else (val, lx))"
  by pat_completeness auto
termination
proof (relation "measure (\<lambda>(q, v, lx). remaining lx)", goal_cases)
  case (2 quote v lx line col _ c lx1)
  then show ?case using advance_remaining [of lx] by (metis case_prod_conv in_measure snd_conv)
next
  case (3 quote v lx line col _ c lx1 _ esc lx2 _ v' lx3)
  then have "remaining lx3 \<le> remaining lx2" "remaining lx2 \<le> remaining lx1" "remaining lx1 < remaining lx"
    using advance_remaining [of lx] remaining_advance [of lx1]
      remaining_escape_char [of esc v line col lx2] by (metis snd_conv)+
  then show ?case by simp
qed simp

declare string_loop.simps [simp del]

definition lexString :: "32 word \<Rightarrow> 32 word \<Rightarrow> char \<Rightarrow> lexer \<Rightarrow> lexer" where
  "lexString line column quote lx =
     (let lx = snd (advance lx);
          (val, lx) = string_loop quote [] lx;
          lx = (if peek lx 0 = quote then snd (advance lx)
                else recordError line column ''unterminated string literal'' lx)
      in emit TkString val line column lx)"

subsection \<open>The main loop\<close>

definition two_char_token :: "char \<Rightarrow> char \<Rightarrow> (TokenKind \<times> string) option" where
  "two_char_token c n =
     (if c = CHR ''<'' \<and> n = CHR ''='' then Some (TkLessEqual, ''<='')
      else if c = CHR ''>'' \<and> n = CHR ''='' then Some (TkGreaterEqual, ''>='')
      else if c = CHR ''='' \<and> n = CHR ''='' then Some (TkEqualEqual, ''=='')
      else if c = CHR ''!'' \<and> n = CHR ''='' then Some (TkBangEqual, ''!='')
      else if c = CHR ''|'' \<and> n = CHR ''|'' then Some (TkPipePipe, ''||'')
      else if c = CHR ''&'' \<and> n = CHR ''&'' then Some (TkAmpAmp, ''&&'')
      else if c = CHR ''*'' \<and> n = CHR ''*'' then Some (TkStarStar, ''**'')
      else None)"

definition single_char_token :: "char \<Rightarrow> TokenKind option" where
  "single_char_token c =
     (if c = CHR ''@'' then Some TkAt
      else if c = CHR ''('' then Some TkLParen
      else if c = CHR '')'' then Some TkRParen
      else if c = CHR ''['' then Some TkLBracket
      else if c = CHR '']'' then Some TkRBracket
      else if c = CHR ''{'' then Some TkLBrace
      else if c = CHR ''}'' then Some TkRBrace
      else if c = CHR '','' then Some TkComma
      else if c = CHR ''.'' then Some TkDot
      else if c = CHR ''='' then Some TkEqual
      else if c = CHR ''+'' then Some TkPlus
      else if c = CHR ''-'' then Some TkMinus
      else if c = CHR ''*'' then Some TkStar
      else if c = CHR ''/'' then Some TkSlash
      else if c = CHR ''%'' then Some TkPercent
      else if c = CHR ''|'' then Some TkPipe
      else if c = CHR ''^'' then Some TkCaret
      else if c = CHR ''&'' then Some TkAmp
      else if c = CHR ''!'' then Some TkBang
      else if c = CHR ''<'' then Some TkLess
      else if c = CHR ''>'' then Some TkGreater
      else None)"

definition describe_byte :: "char \<Rightarrow> string" where
  "describe_byte c =
     (let byte = of_char c :: nat; kHex = ''0123456789ABCDEF''
      in if byte \<ge> 0x20 \<and> byte < 0x7F then [CHR 0x27, c, CHR 0x27]
         else ''0x'' @ [kHex ! (byte div 16), kHex ! (byte mod 16)])"

text \<open>One iteration of the loop of \<open>lex\<close>.\<close>

definition lex_step :: "lexer \<Rightarrow> lexer" where
  "lex_step lx =
     (let tokLine = lx_line lx; tokCol = lx_column lx; c = peek lx 0
      in if c = CHR 0x0D
         then if peek lx 1 = CHR 0x0A then snd (advance lx)
              else snd (advance (recordError tokLine tokCol
                (''stray carriage return (line endings must be '' @
                 [CHR 0x27, CHR 0x5C, CHR ''n'', CHR 0x27] @ '' or '' @
                 [CHR 0x27, CHR 0x5C, CHR ''r'', CHR 0x5C, CHR ''n'', CHR 0x27] @ '')'') lx))
         else if c = CHR 0x0A
         then emit TkNewline [CHR 0x5C, CHR ''n''] tokLine tokCol (snd (advance lx))
         else if c = CHR '' '' \<or> c = CHR 0x09 then snd (advance lx)
         else if c = CHR ''#''
         then let (text, lx) = comment_run [] lx in emit TkComment text tokLine tokCol lx
         else if c = CHR ''-'' \<and> peek lx 1 = CHR ''-'' \<and> peek lx 2 = CHR ''-''
         then emit TkServiceResponseMarker ''---'' tokLine tokCol
                (dash_run (snd (advance (snd (advance (snd (advance lx)))))))
         else if isalpha c \<or> c = CHR ''_'' then lexIdentifierOrKeyword tokLine tokCol lx
         else if isdigit c then lexNumber tokLine tokCol lx
         else if c = CHR 0x27 \<or> c = CHR 0x22 then lexString tokLine tokCol c lx
         else (case two_char_token c (peek lx 1) of
             Some (kind, text) \<Rightarrow> emit kind text tokLine tokCol (snd (advance (snd (advance lx))))
           | None \<Rightarrow>
               (case single_char_token c of
                  Some kind \<Rightarrow> emit kind [c] tokLine tokCol (snd (advance lx))
                | None \<Rightarrow> recordError tokLine tokCol
                    (''unexpected character '' @ describe_byte c @ '' in source'') (snd (advance lx)))))"

lemma advance_strict:
  "\<not> isAtEnd lx \<Longrightarrow> remaining lx' \<le> remaining (snd (advance lx)) \<Longrightarrow> remaining lx' < remaining lx"
  using advance_remaining [of lx] by simp

lemma remaining_leading_dot: "leading_dot lx = (t, h, lx') \<Longrightarrow> remaining lx' \<le> remaining lx"
  using remaining_advance [of lx] by (auto simp: leading_dot_def split: if_splits prod.splits)

lemma remaining_fraction_digits:
  "fraction_digits t h lx = (t', h', lx') \<Longrightarrow> remaining lx' \<le> remaining lx"
  using remaining_advance [of lx] digits.remaining_run [of "t @ [fst (advance lx)]" "snd (advance lx)"]
  by (auto simp: fraction_digits_def split: if_splits prod.splits)

lemma remaining_trailing_dot:
  "trailing_dot t h lx = (t', h', lx') \<Longrightarrow> remaining lx' \<le> remaining lx"
  using remaining_advance [of lx] by (auto simp: trailing_dot_def split: if_splits prod.splits)

lemma remaining_exponent_digits:
  assumes "exponent_digits t lx = (t', h', lx')"
  shows "remaining lx' \<le> remaining lx"
proof -
  obtain c lx1 where a: "advance lx = (c, lx1)" by force
  obtain s lx2 where b: "advance lx1 = (s, lx2)" by force
  have "remaining lx1 \<le> remaining lx" "remaining lx2 \<le> remaining lx1"
    using remaining_advance [of lx] remaining_advance [of lx1] a b by simp_all
  moreover have "remaining (snd (digit_run u lx1)) \<le> remaining lx1"
    "remaining (snd (digit_run u lx2)) \<le> remaining lx2" for u
    by (rule digits.remaining_run)+
  ultimately show ?thesis using assms a b
    by (auto simp: exponent_digits_def Let_def split: if_splits prod.splits) (metis snd_conv order_trans)+
qed

lemma remaining_finish_number [simp]: "remaining (finish_number t r l c lx) = remaining lx"
  by (simp add: finish_number_def Let_def)

lemma remaining_prefixed_number:
  assumes "\<not> isAtEnd lx"
  shows "remaining (prefixed_number l c lx) < remaining lx"
proof -
  obtain c1 lx1 where a: "advance lx = (c1, lx1)" by force
  obtain c2 lx2 where b: "advance lx1 = (c2, lx2)" by force
  obtain t lx3 where r: "word_run [c1, c2] lx2 = (t, lx3)" by force
  have "remaining lx1 < remaining lx" "remaining lx2 \<le> remaining lx1" "remaining lx3 \<le> remaining lx2"
    using advance_remaining [OF assms] remaining_advance [of lx1] words.remaining_run [of "[c1, c2]" lx2]
      a b r by simp_all
  then show ?thesis by (simp add: prefixed_number_def a b r Let_def)
qed

lemma remaining_lexNumber:
  assumes "isdigit (peek lx 0)"
  shows "remaining (lexNumber l c lx) < remaining lx"
proof (cases "peek lx 0 = CHR ''0'' \<and>
    peek lx 1 \<in> {CHR ''x'', CHR ''X'', CHR ''b'', CHR ''B'', CHR ''o'', CHR ''O''}")
  case True
  have "\<not> isAtEnd lx" using assms by (intro notI) simp
  then show ?thesis using True remaining_prefixed_number [of lx l c] by (simp add: lexNumber_def)
next
  case False
  have d: "leading_dot lx = ([], False, lx)" using assms by (auto simp: leading_dot_def isdigit_def)
  obtain t1 lx1 where 1: "digit_run [] lx = (t1, lx1)" by force
  obtain t2 h2 lx2 where 2: "fraction_digits t1 False lx1 = (t2, h2, lx2)" by (metis prod_cases3)
  obtain t3 h3 lx3 where 3: "trailing_dot t2 h2 lx2 = (t3, h3, lx3)" by (metis prod_cases3)
  obtain t4 h4 lx4 where 4: "exponent_digits t3 lx3 = (t4, h4, lx4)" by (metis prod_cases3)
  have "remaining lx1 < remaining lx" using digits.remaining_run_strict [of lx "[]"] assms 1 by simp
  moreover have "remaining lx4 \<le> remaining lx1"
    using remaining_fraction_digits [OF 2] remaining_trailing_dot [OF 3]
      remaining_exponent_digits [OF 4] by simp
  ultimately show ?thesis using False by (auto simp: lexNumber_def d 1 2 3 4)
qed

lemma remaining_string_loop [consumes]: "remaining (snd (string_loop q v lx)) \<le> remaining lx"
proof (induction q v lx rule: string_loop.induct)
  case (1 q v lx)
  show ?case
  proof (cases "\<not> isAtEnd lx \<and> peek lx 0 \<noteq> q")
    case True
    obtain c lx1 where a: "advance lx = (c, lx1)" by force
    obtain e lx2 where b: "advance lx1 = (e, lx2)" by force
    obtain v' lx3 where d: "escape_char e v (lx_line lx) (lx_column lx) lx2 = (v', lx3)" by force
    have "remaining lx1 \<le> remaining lx" "remaining lx2 \<le> remaining lx1" "remaining lx3 \<le> remaining lx2"
      using remaining_advance [of lx] remaining_advance [of lx1]
        remaining_escape_char [of e v "lx_line lx" "lx_column lx" lx2] a b d by simp_all
    then show ?thesis
      using True 1(1) [OF True refl refl a [symmetric] refl]
        1(2) [OF True refl refl a [symmetric] refl _ _ b [symmetric] refl d [symmetric] refl]
      by (subst string_loop.simps) (auto simp: a b d Let_def)
  next
    case False
    then show ?thesis by (subst string_loop.simps) auto
  qed
qed

lemma remaining_lexString:
  assumes "\<not> isAtEnd lx"
  shows "remaining (lexString l c q lx) < remaining lx"
proof -
  obtain v lx1 where a: "string_loop q [] (snd (advance lx)) = (v, lx1)" by force
  have "remaining lx1 < remaining lx"
    using advance_remaining [OF assms] remaining_string_loop [of q "[]" "snd (advance lx)"] a by simp
  then show ?thesis using remaining_advance [of lx1] by (simp add: lexString_def a Let_def)
qed

lemma remaining_lexIdentifierOrKeyword:
  assumes "isalpha (peek lx 0) \<or> peek lx 0 = CHR ''_''"
  shows "remaining (lexIdentifierOrKeyword l c lx) < remaining lx"
proof -
  obtain t lx1 where a: "word_run [] lx = (t, lx1)" by force
  have "remaining lx1 < remaining lx"
    using words.remaining_run_strict [of lx "[]"] assms a by (auto simp: isalnum_def)
  then show ?thesis by (simp add: lexIdentifierOrKeyword_def a)
qed

lemma remaining_lex_step:
  assumes "\<not> isAtEnd lx"
  shows "remaining (lex_step lx) < remaining lx"
proof -
  let ?a = "\<lambda>lx. snd (advance lx)"
  have d: "remaining (?a lx) < remaining lx" using advance_remaining [OF assms] .
  have dd: "remaining (?a (?a lx)) < remaining lx" using d remaining_advance [of "?a lx"] by simp
  have r: "remaining (dash_run (?a (?a (?a lx)))) < remaining lx"
    using dd remaining_advance [of "?a (?a lx)"] remaining_dash_run [of "?a (?a (?a lx))"] by simp
  have e: "remaining (?a (recordError l c m lx)) < remaining lx" for l c m
    using assms advance_remaining [of "recordError l c m lx"]
    by (simp add: isAtEnd_def recordError_def remaining_def)
  have k: "peek lx 0 = CHR ''#'' \<Longrightarrow> remaining (snd (comment_run [] lx)) < remaining lx"
    using comments.remaining_run_strict [of lx "[]"] assms by simp
  show ?thesis
    using assms d dd r e k remaining_lexNumber [of lx] remaining_lexString [OF assms]
      remaining_lexIdentifierOrKeyword [of lx]
    by (auto simp: lex_step_def Let_def split: option.splits prod.splits)
qed

function lex_loop :: "lexer \<Rightarrow> lexer" where
  "lex_loop lx = (if \<not> isAtEnd lx then lex_loop (lex_step lx) else lx)"
  by pat_completeness auto
termination
  by (relation "measure remaining") (simp_all add: remaining_lex_step)

declare lex_loop.simps [simp del]

text \<open>\<open>lex\<close> returns the token buffer; the lexer it leaves holds the errors.\<close>

definition lex :: "lexer \<Rightarrow> Token list \<times> lexer" where
  "lex lx = (let lx = lex_loop lx; lx = emit TkEof [] (lx_line lx) (lx_column lx) lx
             in (lx_tokens lx, lx))"

definition errors :: "lexer \<Rightarrow> LexerError list" where
  "errors lx = lx_errors lx"

end
