(* ===== verification/LexerFacts.thy ===== *)
theory LexerFacts
  imports Lexer
begin

text \<open>
  What the lexer does, byte by byte. The state of a lexer that has read \<open>pre\<close> and still has \<open>rest\<close>
  to read is \<open>lx_at f pre rest ts es\<close>; every member function is computed on such states, the loops
  through \<open>takeWhile\<close> and \<open>dropWhile\<close>. The relation \<open>tokenizes\<close> is the abstract specification of a
  tokenised text; the lexer satisfies it on every input.
\<close>

subsection \<open>States\<close>

definition pos_line :: "string \<Rightarrow> 32 word" where
  "pos_line pre = of_nat (length (filter (\<lambda>c. c = CHR 0x0A) pre)) + 1"

definition pos_column :: "string \<Rightarrow> 32 word" where
  "pos_column pre = of_nat (length (takeWhile (\<lambda>c. c \<noteq> CHR 0x0A) (rev pre))) + 1"

definition loc_at :: "string \<Rightarrow> string \<Rightarrow> SourceLocation" where
  "loc_at f pre = \<lparr>loc_file = f, loc_line = pos_line pre, loc_column = pos_column pre\<rparr>"

definition tok_at :: "string \<Rightarrow> string \<Rightarrow> TokenKind \<Rightarrow> string \<Rightarrow> Token" where
  "tok_at f pre k t = \<lparr>tok_kind = k, tok_text = t, tok_location = loc_at f pre\<rparr>"

definition err_at :: "string \<Rightarrow> string \<Rightarrow> string \<Rightarrow> LexerError" where
  "err_at f pre m = \<lparr>err_location = loc_at f pre, err_message = m\<rparr>"

definition lx_at :: "string \<Rightarrow> string \<Rightarrow> string \<Rightarrow> Token list \<Rightarrow> LexerError list \<Rightarrow> lexer" where
  "lx_at f pre rest ts es = \<lparr>lx_file = f, lx_text = pre @ rest, lx_index = length pre,
     lx_line = pos_line pre, lx_column = pos_column pre, lx_tokens = ts, lx_errors = es\<rparr>"

lemma Lexer_init_at: "Lexer_init f s = lx_at f [] s [] []"
  by (simp add: Lexer_init_def lx_at_def pos_line_def pos_column_def)

lemma lx_at_fields [simp]:
  "lx_line (lx_at f pre rest ts es) = pos_line pre"
  "lx_column (lx_at f pre rest ts es) = pos_column pre"
  "lx_tokens (lx_at f pre rest ts es) = ts" "lx_errors (lx_at f pre rest ts es) = es"
  by (simp_all add: lx_at_def)

lemma isAtEnd_at [simp]: "isAtEnd (lx_at f pre rest ts es) \<longleftrightarrow> rest = []"
  by (auto simp: isAtEnd_def lx_at_def)

lemma peek_at: "peek (lx_at f pre rest ts es) k = (if k < length rest then rest ! k else CHR 0x00)"
  by (auto simp: peek_def lx_at_def Let_def nth_append)

lemma peek_at_simps [simp]:
  "peek (lx_at f pre [] ts es) k = CHR 0x00"
  "peek (lx_at f pre (c # rest) ts es) 0 = c"
  "peek (lx_at f pre (c # rest) ts es) (Suc k) = peek (lx_at f (pre @ [c]) rest ts es) k"
  by (auto simp: peek_at)

lemma advance_at [simp]: "advance (lx_at f pre (c # rest) ts es) = (c, lx_at f (pre @ [c]) rest ts es)"
  by (auto simp: advance_def isAtEnd_def lx_at_def Let_def nth_append pos_line_def pos_column_def)

lemma emit_at [simp]: "emit k t (pos_line p) (pos_column p) (lx_at f pre rest ts es) =
    lx_at f pre rest (ts @ [tok_at f p k t]) es"
  by (simp add: emit_def lx_at_def tok_at_def loc_at_def)

lemma recordError_at [simp]: "recordError (pos_line p) (pos_column p) m (lx_at f pre rest ts es) =
    lx_at f pre rest ts (es @ [err_at f p m])"
  by (simp add: recordError_def lx_at_def err_at_def loc_at_def)

subsection \<open>Runs\<close>

context character_run
begin

lemma run_at: "run t (lx_at f pre rest ts es) =
    (t @ takeWhile P rest, lx_at f (pre @ takeWhile P rest) (dropWhile P rest) ts es)"
proof (induction rest arbitrary: t pre)
  case (Cons c rest)
  show ?case using Cons iterate [of t "lx_at f pre (c # rest) ts es"] by (simp add: cond_iff)
next
  case Nil
  show ?case by (simp add: iterate [of t "lx_at f pre [] ts es"] cond_iff)
qed

end

abbreviation word_char :: "char \<Rightarrow> bool" where
  "word_char \<equiv> \<lambda>c. isalnum c \<or> c = CHR ''_''"

abbreviation digit_or_bar :: "char \<Rightarrow> bool" where
  "digit_or_bar \<equiv> \<lambda>c. isdigit c \<or> c = CHR ''_''"

abbreviation comment_char :: "char \<Rightarrow> bool" where
  "comment_char \<equiv> \<lambda>c. c \<noteq> CHR 0x0A \<and> c \<noteq> CHR 0x0D"

lemma dash_run_at: "dash_run (lx_at f pre rest ts es) =
    lx_at f (pre @ takeWhile (\<lambda>c. c = CHR ''-'') rest) (dropWhile (\<lambda>c. c = CHR ''-'') rest) ts es"
proof (induction rest arbitrary: pre)
  case (Cons c rest)
  then show ?case by (subst dash_run.simps) simp
qed (simp add: dash_run.simps)

lemmas runs_at = words.run_at digits.run_at comments.run_at dash_run_at

subsection \<open>Numbers\<close>

text \<open>The bytes a number takes and whether it is real, read off the text.\<close>

fun starts :: "(char \<Rightarrow> bool) \<Rightarrow> string \<Rightarrow> bool" where
  "starts P [] = False"
| "starts P (c # cs) = P c"

definition is_prefixed :: "string \<Rightarrow> bool" where
  "is_prefixed s \<longleftrightarrow> starts (\<lambda>c. c = CHR ''0'') s \<and>
     starts (\<lambda>c. c \<in> {CHR ''x'', CHR ''X'', CHR ''b'', CHR ''B'', CHR ''o'', CHR ''O''}) (tl s)"

definition fraction_span :: "string \<Rightarrow> string" where
  "fraction_span r =
     (if starts (\<lambda>c. c = CHR ''.'') r \<and> starts isdigit (tl r)
      then CHR ''.'' # takeWhile digit_or_bar (tl r)
      else if starts (\<lambda>c. c = CHR ''.'') r \<and> starts (\<lambda>c. c = CHR ''e'' \<or> c = CHR ''E'') (tl r)
      then ''.'' else [])"

definition exponent_span :: "string \<Rightarrow> string" where
  "exponent_span r =
     (if starts (\<lambda>c. c = CHR ''e'' \<or> c = CHR ''E'') r
      then let g = (if starts (\<lambda>c. c = CHR ''+'' \<or> c = CHR ''-'') (tl r) then take 2 r else take 1 r)
           in g @ takeWhile digit_or_bar (drop (length g) r)
      else [])"

definition number_span :: "string \<Rightarrow> string \<times> bool" where
  "number_span s =
     (if is_prefixed s then (take 2 s @ takeWhile word_char (drop 2 s), False)
      else let a = takeWhile digit_or_bar s;
               b = fraction_span (drop (length a) s);
               x = exponent_span (drop (length a + length b) s)
           in (a @ b @ x, b \<noteq> [] \<or> x \<noteq> []))"

lemma drop_takeWhile: "drop (length (takeWhile P s)) s = dropWhile P s"
  by (simp add: dropWhile_eq_drop)

lemma leading_dot_at: "\<not> starts (\<lambda>c. c = CHR ''.'') rest \<Longrightarrow>
    leading_dot (lx_at f pre rest ts es) = ([], False, lx_at f pre rest ts es)"
  by (cases rest) (auto simp: leading_dot_def)

lemma peek_starts: "P CHR 0x00 = False \<Longrightarrow> P (peek (lx_at f pre r ts es) 0) = starts P r"
  by (cases r) auto

lemma peek_starts_tl:
  "P CHR 0x00 = False \<Longrightarrow> r \<noteq> [] \<Longrightarrow> P (peek (lx_at f pre r ts es) 1) = starts P (tl r)"
  by (cases r; cases "tl r") auto

lemma trailing_after_fraction:
  "(case fraction_digits t False (lx_at f pre r ts es) of (t1, h1, lx1) \<Rightarrow> trailing_dot t1 h1 lx1) =
    (t @ fraction_span r, fraction_span r \<noteq> [],
     lx_at f (pre @ fraction_span r) (drop (length (fraction_span r)) r) ts es)"
proof (cases "starts (\<lambda>c. c = CHR ''.'') r")
  case True
  then obtain s where r: "r = CHR ''.'' # s" by (cases r) auto
  have p: "isdigit (peek (lx_at f pre r ts es) 1) = starts isdigit s"
    "(peek (lx_at f pre r ts es) 1 = CHR ''e'' \<or> peek (lx_at f pre r ts es) 1 = CHR ''E'') =
      starts (\<lambda>c. c = CHR ''e'' \<or> c = CHR ''E'') s"
    using peek_starts_tl [of isdigit r] peek_starts_tl [of "\<lambda>c. c = CHR ''e'' \<or> c = CHR ''E''" r]
    by (simp_all add: r)
  have q: "(peek (lx_at f (pre @ ''.'') s ts es) 0 = CHR ''e'' \<or>
      peek (lx_at f (pre @ ''.'') s ts es) 0 = CHR ''E'') =
      starts (\<lambda>c. c = CHR ''e'' \<or> c = CHR ''E'') s" by (rule peek_starts) simp
  have "peek (lx_at f pre r ts es) 0 = CHR ''.''" by (simp add: r)
  then show ?thesis using q
    unfolding fraction_digits_def trailing_dot_def fraction_span_def p
    by (auto simp: r digits.run_at drop_takeWhile)
next
  case False
  then have "fraction_span r = []" "peek (lx_at f pre r ts es) 0 \<noteq> CHR ''.''"
    by (cases r; auto simp: fraction_span_def)+
  then show ?thesis by (simp add: fraction_digits_def trailing_dot_def)
qed

lemma exponent_digits_at:
  "exponent_digits t (lx_at f pre r ts es) =
    (t @ exponent_span r, exponent_span r \<noteq> [],
     lx_at f (pre @ exponent_span r) (drop (length (exponent_span r)) r) ts es)"
proof (cases "starts (\<lambda>c. c = CHR ''e'' \<or> c = CHR ''E'') r")
  case True
  then obtain e s where r: "r = e # s" and e: "e = CHR ''e'' \<or> e = CHR ''E''" by (cases r) auto
  have p: "(peek (lx_at f pre r ts es) 0 = CHR ''e'' \<or> peek (lx_at f pre r ts es) 0 = CHR ''E'')"
    using e by (simp add: r)
  have q: "(peek (lx_at f (pre @ [e]) s ts es) 0 = CHR ''+'' \<or>
      peek (lx_at f (pre @ [e]) s ts es) 0 = CHR ''-'') = starts (\<lambda>c. c = CHR ''+'' \<or> c = CHR ''-'') s"
    by (rule peek_starts) simp
  show ?thesis
  proof (cases "starts (\<lambda>c. c = CHR ''+'' \<or> c = CHR ''-'') s")
    case sign: True
    then obtain g s' where s: "s = g # s'" by (cases s) auto
    show ?thesis using True sign q p
      by (simp add: exponent_digits_def exponent_span_def r s digits.run_at drop_takeWhile)
  next
    case False
    then show ?thesis using True q p
      by (simp add: exponent_digits_def exponent_span_def r digits.run_at drop_takeWhile)
  qed
next
  case False
  have "(peek (lx_at f pre r ts es) 0 = CHR ''e'' \<or> peek (lx_at f pre r ts es) 0 = CHR ''E'') =
      starts (\<lambda>c. c = CHR ''e'' \<or> c = CHR ''E'') r" by (rule peek_starts) simp
  then show ?thesis using False by (simp add: exponent_digits_def exponent_span_def)
qed

text \<open>Whether a number conforms: a bare digit run next to a dot is judged as a real.\<close>

definition after_dot :: "Token list \<Rightarrow> string \<Rightarrow> bool" where
  "after_dot ts pre \<longleftrightarrow> ts \<noteq> [] \<and> tok_kind (last ts) = TkDot \<and>
     loc_line (tok_location (last ts)) = pos_line pre \<and>
     loc_column (tok_location (last ts)) + 1 = pos_column pre"

definition number_conforms :: "Token list \<Rightarrow> string \<Rightarrow> string \<Rightarrow> bool" where
  "number_conforms ts pre s =
     (let (w, isReal) = number_span s
      in if is_prefixed s then numericLiteralConforms w False
         else if isReal then numericLiteralConforms w True
         else if after_dot ts pre \<or> starts (\<lambda>c. c = CHR ''.'') (drop (length w) s)
         then numericLiteralConforms (''.'' @ w) True
         else numericLiteralConforms w False)"

definition number_error :: "string \<Rightarrow> string \<Rightarrow> string \<Rightarrow> bool \<Rightarrow> LexerError" where
  "number_error f pre w isReal = err_at f pre (''malformed '' @ (if isReal then ''real'' else ''integer'') @
     '' literal '' @ [CHR 0x27] @ w @ [CHR 0x27])"

lemma span_append:
  "takeWhile P s @ drop (length (takeWhile P s)) s = s"
  by (simp add: drop_takeWhile)

lemma prefix_drop: "s = w @ r \<Longrightarrow> w @ drop (length w) s = s"
  by simp

lemma fraction_span_prefix: "fraction_span r @ drop (length (fraction_span r)) r = r"
proof (cases "starts (\<lambda>c. c = CHR ''.'') r")
  case True
  then obtain s where "r = CHR ''.'' # s" by (cases r) auto
  then show ?thesis by (simp add: fraction_span_def span_append)
qed (simp add: fraction_span_def)

lemma exponent_span_prefix: "exponent_span r @ drop (length (exponent_span r)) r = r"
proof -
  have "(g @ takeWhile P (drop (length g) r)) @ drop (length (g @ takeWhile P (drop (length g) r))) r = r"
    if "take (length g) r = g" for g and P :: "char \<Rightarrow> bool"
    using that by (metis append_assoc append_take_drop_id drop_drop add.commute length_append span_append)
  moreover have "take (length (take n r)) r = take n r" for n by (simp add: min_def)
  ultimately show ?thesis unfolding exponent_span_def Let_def by simp
qed

lemma number_span_prefix:
  assumes "number_span s = (w, isReal)"
  shows "w @ drop (length w) s = s"
proof (cases "is_prefixed s")
  case True
  then have "w = take 2 s @ takeWhile word_char (drop 2 s)"
    using assms by (simp add: number_span_def)
  moreover have "length (take 2 s) = 2" using True by (cases s; cases "tl s") (auto simp: is_prefixed_def)
  ultimately show ?thesis
    by (metis append_assoc append_take_drop_id drop_drop add.commute length_append span_append)
next
  case False
  let ?a = "takeWhile digit_or_bar s"
  let ?b = "fraction_span (drop (length ?a) s)"
  let ?x = "exponent_span (drop (length ?a + length ?b) s)"
  have w: "w = ?a @ ?b @ ?x" using assms False by (simp add: number_span_def Let_def)
  have "s = ?a @ drop (length ?a) s" by (simp add: span_append)
  also have "drop (length ?a) s = ?b @ drop (length ?b) (drop (length ?a) s)"
    by (simp only: fraction_span_prefix)
  also have "drop (length ?b) (drop (length ?a) s) = drop (length ?a + length ?b) s"
    by (simp add: add.commute)
  also have "\<dots> = ?x @ drop (length ?x) \<dots>" by (simp only: exponent_span_prefix)
  finally have "s = w @ drop (length ?x) (drop (length ?a + length ?b) s)" using w by simp
  then show ?thesis by (rule prefix_drop)
qed

lemma finish_number_at:
  "finish_number w r (pos_line pre) (pos_column pre) (lx_at f pre' s ts es) =
    lx_at f pre' s (ts @ [tok_at f pre (if r then TkReal else TkInteger) w])
      (es @ (if (if r then numericLiteralConforms w True
                 else if after_dot ts pre \<or> starts (\<lambda>c. c = CHR ''.'') s
                 then numericLiteralConforms (''.'' @ w) True
                 else numericLiteralConforms w False)
             then [] else [number_error f pre w r]))"
proof -
  have "(peek (lx_at f pre' s ts es) 0 = CHR ''.'') = starts (\<lambda>c. c = CHR ''.'') s"
    by (rule peek_starts) simp
  then show ?thesis
    by (simp add: finish_number_def preceded_by_dot_def after_dot_def number_error_def Let_def)
qed

lemma prefixed_number_at:
  assumes "is_prefixed s" "number_span s = (w, r)"
  shows "prefixed_number (pos_line pre) (pos_column pre) (lx_at f pre s ts es) =
    lx_at f (pre @ w) (drop (length w) s) (ts @ [tok_at f pre TkInteger w])
      (es @ (if numericLiteralConforms w False then [] else [number_error f pre w False]))"
proof -
  obtain p u where s: "s = CHR ''0'' # p # u"
    using assms by (cases s; cases "tl s") (auto simp: is_prefixed_def)
  have w: "w = CHR ''0'' # p # takeWhile word_char u" "r = False"
    using assms s by (auto simp: number_span_def)
  show ?thesis unfolding w s
    by (simp add: prefixed_number_def words.run_at drop_takeWhile number_error_def Let_def)
qed

lemma lexNumber_at:
  assumes "starts isdigit s" "number_span s = (w, r)"
  shows "lexNumber (pos_line pre) (pos_column pre) (lx_at f pre s ts es) =
    lx_at f (pre @ w) (drop (length w) s)
      (ts @ [tok_at f pre (if r then TkReal else TkInteger) w])
      (es @ (if number_conforms ts pre s then [] else [number_error f pre w r]))"
proof -
  let ?lx = "lx_at f pre s ts es"
  have "s \<noteq> []" using assms by auto
  then have g: "(peek ?lx 0 = CHR ''0'' \<and>
      peek ?lx 1 \<in> {CHR ''x'', CHR ''X'', CHR ''b'', CHR ''B'', CHR ''o'', CHR ''O''}) = is_prefixed s"
    using peek_starts_tl [of "\<lambda>c. c \<in> {CHR ''x'', CHR ''X'', CHR ''b'', CHR ''B'', CHR ''o'', CHR ''O''}" s]
    by (cases s) (simp_all add: is_prefixed_def)
  show ?thesis
  proof (cases "is_prefixed s")
    case True
    then have "r = False" using assms by (simp add: number_span_def)
    then show ?thesis using True prefixed_number_at [OF True assms(2)] assms(2)
      unfolding lexNumber_def g by (simp add: number_conforms_def)
  next
    case False
    define a where "a = takeWhile digit_or_bar s"
    define b where "b = fraction_span (drop (length a) s)"
    define x where "x = exponent_span (drop (length a + length b) s)"
    have w: "w = a @ b @ x" "r = (b \<noteq> [] \<or> x \<noteq> [])"
      using assms False by (auto simp: number_span_def Let_def a_def b_def x_def)
    have l: "leading_dot ?lx = ([], False, ?lx)"
      using assms by (intro leading_dot_at) (cases s, auto simp: isdigit_def)
    have d: "digit_run [] ?lx = (a, lx_at f (pre @ a) (drop (length a) s) ts es)"
      by (simp add: digits.run_at drop_takeWhile a_def)
    obtain t1 h1 lx1 where f: "fraction_digits a False (lx_at f (pre @ a) (drop (length a) s) ts es) =
        (t1, h1, lx1)" by (rule prod_cases3)
    have t: "trailing_dot t1 h1 lx1 = (a @ b, b \<noteq> [],
        lx_at f (pre @ a @ b) (drop (length a + length b) s) ts es)"
      using trailing_after_fraction [of a f "pre @ a" "drop (length a) s" ts es] f
      by (simp add: add.commute b_def)
    have e: "exponent_digits (a @ b) (lx_at f (pre @ a @ b) (drop (length a + length b) s) ts es) =
        (w, x \<noteq> [], lx_at f (pre @ w) (drop (length w) s) ts es)"
      by (simp add: exponent_digits_at w x_def ac_simps)
    have "lexNumber (pos_line pre) (pos_column pre) ?lx =
        finish_number w r (pos_line pre) (pos_column pre) (lx_at f (pre @ w) (drop (length w) s) ts es)"
      by (simp only: lexNumber_def g if_not_P [OF False] l d f t e Let_def prod.case w(2))
    then show ?thesis using False assms(2) by (simp add: finish_number_at number_conforms_def)
  qed
qed

subsection \<open>Strings\<close>

text \<open>The errors of a string lie inside it: \<open>errors_within f pre w es\<close>.\<close>

definition errors_within :: "string \<Rightarrow> string \<Rightarrow> string \<Rightarrow> LexerError list \<Rightarrow> bool" where
  "errors_within f pre w es \<longleftrightarrow>
     (\<forall>x\<in>set es. \<exists>u v m. w = u @ v \<and> v \<noteq> [] \<and> x = err_at f (pre @ u) m)"

lemma errors_within_Nil [simp]: "errors_within f pre w []"
  by (simp add: errors_within_def)

lemma errors_within_append [simp]:
  "errors_within f pre w (es @ es') \<longleftrightarrow> errors_within f pre w es \<and> errors_within f pre w es'"
  by (auto simp: errors_within_def)

lemma errors_within_first: "w \<noteq> [] \<Longrightarrow> errors_within f pre w [err_at f pre m]"
  unfolding errors_within_def by (metis append_Nil append_Nil2 empty_iff empty_set set_ConsD)

lemma errors_within_extend: "errors_within f pre w es \<Longrightarrow> errors_within f pre (w @ w') es"
  unfolding errors_within_def by (metis append_assoc append_is_Nil_conv)

lemma errors_within_later: "errors_within f (pre @ u) w es \<Longrightarrow> errors_within f pre (u @ w) es"
  unfolding errors_within_def by (metis append_assoc)

definition errors_at :: "string \<Rightarrow> string \<Rightarrow> LexerError list \<Rightarrow> bool" where
  "errors_at f p es \<longleftrightarrow> (\<forall>x\<in>set es. \<exists>m. x = err_at f p m)"

lemma errors_at_simps [simp]:
  "errors_at f p []" "errors_at f p (es @ es') \<longleftrightarrow> errors_at f p es \<and> errors_at f p es'"
  "errors_at f p [err_at f p m]"
  by (auto simp: errors_at_def)

lemma errors_at_within: "errors_at f pre es \<Longrightarrow> w \<noteq> [] \<Longrightarrow> errors_within f pre w es"
  unfolding errors_at_def errors_within_def by (metis append_Nil append_Nil2)

text \<open>\<open>moved f pre rest ts es E lx\<close>: from \<open>lx_at f pre rest ts es\<close> the lexer read some bytes and
  recorded some errors, related by \<open>E\<close>, to reach \<open>lx\<close>.\<close>

definition moved :: "string \<Rightarrow> string \<Rightarrow> string \<Rightarrow> Token list \<Rightarrow> LexerError list \<Rightarrow>
    (string \<Rightarrow> string \<Rightarrow> LexerError list \<Rightarrow> bool) \<Rightarrow> lexer \<Rightarrow> bool" where
  "moved f pre rest ts es E lx \<longleftrightarrow> (\<exists>w r es1. lx = lx_at f (pre @ w) r ts (es @ es1) \<and>
     rest = w @ r \<and> E w r es1)"

lemma moved_stay: "E [] rest [] \<Longrightarrow> moved f pre rest ts es E (lx_at f pre rest ts es)"
  unfolding moved_def by (metis append_Nil append_Nil2)

lemma moved_error:
  "moved f pre rest ts es (\<lambda>w r. errors_at f p) lx \<Longrightarrow>
    moved f pre rest ts es (\<lambda>w r. errors_at f p) (recordError (pos_line p) (pos_column p) m lx)"
  unfolding moved_def by clarsimp (metis append_assoc errors_at_simps(2,3))

lemma moved_step:
  assumes "moved f (pre @ u) rest ts (es @ new) E lx"
    and "\<And>w r es1. rest = w @ r \<Longrightarrow> E w r es1 \<Longrightarrow> E' (u @ w) r (new @ es1)"
  shows "moved f pre (u @ rest) ts es E' lx"
  using assms unfolding moved_def by (metis append_assoc)

lemma unicode_digits_at: "moved f pre rest ts es (\<lambda>w r. errors_at f p)
    (snd (unicode_digits n cp (pos_line p) (pos_column p) (lx_at f pre rest ts es)))"
proof (induction n arbitrary: cp pre rest)
  case (Suc n)
  show ?case
  proof (cases "hex_nibble (peek (lx_at f pre rest ts es) 0)")
    case None
    have "moved f pre rest ts es (\<lambda>w r. errors_at f p) (lx_at f pre rest ts es)"
      by (simp add: moved_stay)
    then show ?thesis using None
        moved_error [of f pre rest ts es p _ "''incomplete unicode escape sequence in string literal''"]
      by (simp del: recordError_at)
  next
    case (Some d)
    then obtain c s where rest: "rest = [c] @ s" by (cases rest) (auto simp: hex_nibble_def)
    have "moved f pre ([c] @ s) ts es (\<lambda>w r. errors_at f p) (snd (unicode_digits n
        (push_bit 4 cp OR of_nat d) (pos_line p) (pos_column p) (lx_at f (pre @ [c]) s ts es)))"
      by (rule moved_step [where new = "[]" and E = "\<lambda>w r. errors_at f p"]) (simp_all add: Suc)
    then show ?thesis using Some rest by simp
  qed
qed (simp add: moved_stay)

lemma decodeUnicodeEscape_at: "moved f pre rest ts es (\<lambda>w r. errors_at f p)
    (snd (decodeUnicodeEscape v n (pos_line p) (pos_column p) (lx_at f pre rest ts es)))"
  using unicode_digits_at [of f pre rest ts es p n 0] moved_error
  by (auto simp: decodeUnicodeEscape_def split: prod.splits option.splits)

lemma escape_char_at: "moved f pre rest ts es (\<lambda>w r. errors_at f p)
    (snd (escape_char e v (pos_line p) (pos_column p) (lx_at f pre rest ts es)))"
proof -
  have s: "moved f pre rest ts es (\<lambda>w r. errors_at f p) (lx_at f pre rest ts es)"
    by (simp add: moved_stay)
  then show ?thesis using moved_error [OF s] decodeUnicodeEscape_at
    by (auto simp: escape_char_def simp del: recordError_at)
qed

definition string_errors :: "string \<Rightarrow> string \<Rightarrow> char \<Rightarrow> string \<Rightarrow> string \<Rightarrow> LexerError list \<Rightarrow> bool" where
  "string_errors f pre q w r es \<longleftrightarrow>
     errors_within f pre w es \<and> (es = [] \<longrightarrow> r = [] \<or> starts (\<lambda>c. c = q) r)"

lemma string_errors_step:
  assumes "string_errors f (pre @ u) q w r es" "errors_at f pre es0" "u \<noteq> []"
  shows "string_errors f pre q (u @ w) r (es0 @ es)"
  using assms errors_at_within [of f pre es0 "u @ w"] errors_within_later [of f pre u w es]
  by (auto simp: string_errors_def)

lemma string_loop_at: "moved f pre rest ts es (string_errors f pre q)
    (snd (string_loop q v (lx_at f pre rest ts es)))"
proof (induction "length rest" arbitrary: v pre rest es rule: less_induct)
  case less
  show ?case
  proof (cases "rest = [] \<or> starts (\<lambda>c. c = q) rest")
    case True
    then have "string_loop q v (lx_at f pre rest ts es) = (v, lx_at f pre rest ts es)"
      by (subst string_loop.simps) (cases rest; simp)
    then show ?thesis using True by (simp add: moved_stay string_errors_def)
  next
    case False
    then obtain c s where rest: "rest = c # s" "c \<noteq> q" by (cases rest) auto
    have step: "moved f pre (u @ s') ts es (string_errors f pre q)
        (snd (string_loop q v' (lx_at f (pre @ u) s' ts (es @ es0))))"
      if "length s' < length rest" "errors_at f pre es0" "u \<noteq> []" for u s' v' es0
      using less [of s' "pre @ u" "es @ es0" v'] that
      by (auto intro: moved_step string_errors_step)
    show ?thesis
    proof (cases "c = CHR 0x5C")
      case False
      then have "string_loop q v (lx_at f pre rest ts es) = string_loop q (v @ [c]) (lx_at f (pre @ [c]) s ts es)"
        using rest by (subst string_loop.simps) simp
      then show ?thesis using step [of s "[]" "[c]" "v @ [c]"] rest by simp
    next
      case True
      show ?thesis
      proof (cases "s = [] \<or> starts (\<lambda>c. c = CHR 0x0A \<or> c = CHR 0x0D) s")
        case stop: True
        then have "string_loop q v (lx_at f pre rest ts es) = (v, lx_at f (pre @ [c]) s ts (es @
            [err_at f pre ''unterminated escape sequence in string literal'']))"
          using rest True by (subst string_loop.simps) (cases s; simp)
        then show ?thesis using rest unfolding moved_def
          by (intro exI [of _ "[c]"] exI [of _ s]) (auto simp: string_errors_def errors_within_first)
      next
        case False
        then obtain e s' where s: "s = e # s'" "e \<noteq> CHR 0x0A" "e \<noteq> CHR 0x0D" by (cases s) auto
        obtain v' lx' where x: "escape_char e v (pos_line pre) (pos_column pre)
            (lx_at f (pre @ [c, e]) s' ts es) = (v', lx')" by force
        have "string_loop q v (lx_at f pre rest ts es) = string_loop q v' lx'"
          using rest True s x by (subst string_loop.simps) simp
        moreover obtain w r es1 where "lx' = lx_at f ((pre @ [c, e]) @ w) r ts (es @ es1)"
            "s' = w @ r" "errors_at f pre es1"
          using escape_char_at [of f "pre @ [c, e]" s' ts es pre e v] x by (auto simp: moved_def)
        ultimately show ?thesis using step [of r es1 "[c, e] @ w" v'] rest s by simp
      qed
    qed
  qed
qed

lemma lexString_at:
  assumes "q \<noteq> CHR 0x00"
  shows "\<exists>w r v es1. lexString (pos_line pre) (pos_column pre) q (lx_at f pre (q # rest) ts es) =
      lx_at f (pre @ w) r (ts @ [tok_at f pre TkString v]) (es @ es1) \<and> q # rest = w @ r \<and>
      errors_within f pre w es1 \<and> w \<noteq> [] \<and> (es1 = [] \<longrightarrow> (\<exists>b. w = q # b @ [q]))"
proof -
  obtain v lx' where x: "string_loop q [] (lx_at f (pre @ [q]) rest ts es) = (v, lx')" by force
  obtain w r es1 where m: "lx' = lx_at f ((pre @ [q]) @ w) r ts (es @ es1)" "rest = w @ r"
      "string_errors f (pre @ [q]) q w r es1"
    using string_loop_at [of f "pre @ [q]" rest ts es q "[]"] x by (auto simp: moved_def)
  have e: "errors_within f pre ([q] @ w) es1"
    using m by (intro errors_within_later) (simp add: string_errors_def)
  show ?thesis
  proof (cases "starts (\<lambda>c. c = q) r")
    case True
    then obtain r' where "r = q # r'" by (cases r) auto
    then show ?thesis using x m e errors_within_extend [OF e, of "[q]"]
      by (intro exI [of _ "[q] @ w @ [q]"] exI [of _ r'] exI [of _ v] exI [of _ es1])
        (simp add: lexString_def)
  next
    case False
    then have "peek lx' 0 \<noteq> q" using m assms by (cases r) auto
    then show ?thesis using x m e errors_within_first [of "[q] @ w" f pre]
      by (intro exI [of _ "[q] @ w"] exI [of _ r] exI [of _ v]
          exI [of _ "es1 @ [err_at f pre ''unterminated string literal'']"])
        (simp add: lexString_def)
  qed
qed
end
