(* ===== verification/LexerSpec.thy ===== *)
theory LexerSpec
  imports LexerFacts
begin

text \<open>
  The abstract specification of tokenisation and the proof that the lexer implements it on every
  input: a text is cut into consecutive pieces, each of which is blank, a stray byte with one
  error, a number, a string, or another token in one of the documented shapes.
\<close>

subsection \<open>Shapes of tokens\<close>

definition blank :: "char \<Rightarrow> string \<Rightarrow> bool" where
  "blank c r \<longleftrightarrow> c = CHR '' '' \<or> c = CHR 0x09 \<or> (c = CHR 0x0D \<and> starts (\<lambda>d. d = CHR 0x0A) r)"

definition quote_char :: "char \<Rightarrow> bool" where
  "quote_char c \<longleftrightarrow> c = CHR 0x27 \<or> c = CHR 0x22"

definition word_start :: "char \<Rightarrow> bool" where
  "word_start c \<longleftrightarrow> isalpha c \<or> c = CHR ''_''"

definition stray :: "char \<Rightarrow> string \<Rightarrow> bool" where
  "stray c r \<longleftrightarrow> (c = CHR 0x0D \<and> \<not> starts (\<lambda>d. d = CHR 0x0A) r) \<or>
     (c \<notin> {CHR 0x0D, CHR 0x0A, CHR '' '', CHR 0x09, CHR ''#''} \<and> \<not> word_start c \<and> \<not> isdigit c \<and>
      \<not> quote_char c \<and> single_char_token c = None)"

text \<open>\<open>spells k t w r\<close>: the bytes \<open>w\<close>, followed by \<open>r\<close>, are a token of kind \<open>k\<close> with text \<open>t\<close>;
  words, comments and markers are as long as possible, and two-character operators win.\<close>

definition spells :: "TokenKind \<Rightarrow> string \<Rightarrow> string \<Rightarrow> string \<Rightarrow> bool" where
  "spells k t w r \<longleftrightarrow>
     (if k = TkNewline then w = [CHR 0x0A] \<and> t = [CHR 0x5C, CHR ''n'']
      else if k = TkComment
        then t = w \<and> starts (\<lambda>c. c = CHR ''#'') w \<and> list_all comment_char w \<and> \<not> starts comment_char r
      else if k = TkIdentifier
        then t = w \<and> starts word_start w \<and> list_all word_char w \<and> \<not> starts word_char r \<and>
          w \<noteq> ''true'' \<and> w \<noteq> ''false''
      else if k = TkTrue then t = w \<and> w = ''true'' \<and> \<not> starts word_char r
      else if k = TkFalse then t = w \<and> w = ''false'' \<and> \<not> starts word_char r
      else if k = TkServiceResponseMarker
        then t = ''---'' \<and> 3 \<le> length w \<and> list_all (\<lambda>c. c = CHR ''-'') w \<and> \<not> starts (\<lambda>c. c = CHR ''-'') r
      else t = w \<and>
        ((\<exists>c d. w = [c, d] \<and> two_char_token c d = Some (k, w)) \<or>
         (\<exists>c. w = [c] \<and> single_char_token c = Some k \<and> \<not> starts (\<lambda>d. two_char_token c d \<noteq> None) r)))"

inductive piece ::
  "string \<Rightarrow> Token list \<Rightarrow> string \<Rightarrow> string \<Rightarrow> string \<Rightarrow> Token list \<Rightarrow> LexerError list \<Rightarrow> bool"
  for f :: string and prev :: "Token list" and pre :: string where
  blank: "blank c r \<Longrightarrow> piece f prev pre [c] r [] []"
| stray: "stray c r \<Longrightarrow> piece f prev pre [c] r [] [err_at f pre m]"
| number: "starts isdigit w \<Longrightarrow> number_span (w @ r) = (w, real) \<Longrightarrow>
    piece f prev pre w r [tok_at f pre (if real then TkReal else TkInteger) w]
      (if number_conforms prev pre (w @ r) then [] else [number_error f pre w real])"
| quoted: "starts quote_char w \<Longrightarrow> errors_within f pre w es \<Longrightarrow>
    (es = [] \<longrightarrow> (\<exists>q b. w = q # b @ [q])) \<Longrightarrow> piece f prev pre w r [tok_at f pre TkString v] es"
| token: "spells k t w r \<Longrightarrow> piece f prev pre w r [tok_at f pre k t] []"

inductive tokenizes ::
  "string \<Rightarrow> Token list \<Rightarrow> string \<Rightarrow> string \<Rightarrow> Token list \<Rightarrow> LexerError list \<Rightarrow> bool"
  for f :: string where
  finished: "tokenizes f prev pre [] [] []"
| next_piece: "piece f prev pre w r ts1 es1 \<Longrightarrow> w \<noteq> [] \<Longrightarrow> tokenizes f (prev @ ts1) (pre @ w) r ts es \<Longrightarrow>
    tokenizes f prev pre (w @ r) (ts1 @ ts) (es1 @ es)"

subsection \<open>One step\<close>

lemma starts_hd: "s \<noteq> [] \<Longrightarrow> starts P s \<longleftrightarrow> P (hd s)"
  by (cases s) auto

lemma not_starts_dropWhile: "\<not> starts P (dropWhile P s)"
  by (induction s) auto

lemma list_all_takeWhile: "list_all P (takeWhile P s)"
  by (auto simp: list_all_iff dest: set_takeWhileD)

definition steps_to :: "string \<Rightarrow> Token list \<Rightarrow> string \<Rightarrow> string \<Rightarrow> LexerError list \<Rightarrow> lexer \<Rightarrow> bool" where
  "steps_to f prev pre s es lx \<longleftrightarrow> (\<exists>w r ts1 es1. s = w @ r \<and> w \<noteq> [] \<and> piece f prev pre w r ts1 es1 \<and>
     lx = lx_at f (pre @ w) r (prev @ ts1) (es @ es1))"

lemma steps_toI:
  "piece f prev pre w r ts1 es1 \<Longrightarrow> w \<noteq> [] \<Longrightarrow>
    steps_to f prev pre (w @ r) es (lx_at f (pre @ w) r (prev @ ts1) (es @ es1))"
  unfolding steps_to_def by blast

lemma steps_to_blank: "blank c r \<Longrightarrow> steps_to f prev pre (c # r) es (lx_at f (pre @ [c]) r prev es)"
  using steps_toI [OF piece.blank, of c r f prev pre es] by simp

lemma steps_to_stray: "stray c r \<Longrightarrow>
    steps_to f prev pre (c # r) es (lx_at f (pre @ [c]) r prev (es @ [err_at f pre m]))"
proof -
  assume "stray c r"
  then have "piece f prev pre [c] r [] [err_at f pre m]" by (rule piece.stray)
  from steps_toI [OF this, of es] show ?thesis by simp
qed

lemma steps_to_token: "spells k t w r \<Longrightarrow> w \<noteq> [] \<Longrightarrow>
    steps_to f prev pre (w @ r) es (lx_at f (pre @ w) r (prev @ [tok_at f pre k t]) es)"
  using steps_toI [OF piece.token, of k t w r f prev pre es] by simp

lemma word_step:
  assumes "word_start c"
  shows "steps_to f prev pre (c # s) es
    (lexIdentifierOrKeyword (pos_line pre) (pos_column pre) (lx_at f pre (c # s) prev es))"
proof -
  let ?w = "takeWhile word_char (c # s)" and ?r = "dropWhile word_char (c # s)"
  have c: "word_char c" using assms by (auto simp: word_start_def isalnum_def)
  have w: "starts word_start ?w" "list_all word_char ?w" "\<not> starts word_char ?r" "?w \<noteq> []"
    using c assms list_all_takeWhile not_starts_dropWhile by (simp, blast, blast, simp)
  let ?k = "if ?w = ''true'' then TkTrue else if ?w = ''false'' then TkFalse else TkIdentifier"
  have "spells ?k ?w ?w ?r" using w by (simp add: spells_def del: takeWhile.simps dropWhile.simps)
  then have "steps_to f prev pre (?w @ ?r) es (lx_at f (pre @ ?w) ?r (prev @ [tok_at f pre ?k ?w]) es)"
    using w(4) by (rule steps_to_token)
  moreover have "lexIdentifierOrKeyword (pos_line pre) (pos_column pre) (lx_at f pre (c # s) prev es) =
      lx_at f (pre @ ?w) ?r (prev @ [tok_at f pre ?k ?w]) es"
    by (simp add: lexIdentifierOrKeyword_def words.run_at del: takeWhile.simps dropWhile.simps)
  ultimately show ?thesis by (simp only: takeWhile_dropWhile_id)
qed

lemma number_step:
  assumes "isdigit c"
  shows "steps_to f prev pre (c # s) es
    (lexNumber (pos_line pre) (pos_column pre) (lx_at f pre (c # s) prev es))"
proof -
  obtain w real where n: "number_span (c # s) = (w, real)" by force
  let ?r = "drop (length w) (c # s)"
  have p: "w @ ?r = c # s" using number_span_prefix [OF n] .
  have "w \<noteq> []"
    using n assms by (auto simp: number_span_def is_prefixed_def Let_def split: if_splits)
  then have "starts isdigit w" using p assms by (cases w) auto
  then have "piece f prev pre w ?r [tok_at f pre (if real then TkReal else TkInteger) w]
      (if number_conforms prev pre (w @ ?r) then [] else [number_error f pre w real])"
    by (intro piece.number) (simp_all only: p n)
  from steps_toI [OF this \<open>w \<noteq> []\<close>, of es] show ?thesis
    using lexNumber_at [of "c # s" w real pre f prev es] n assms by (simp only: p starts.simps simp_thms)
qed

lemma string_step:
  assumes "quote_char c"
  shows "steps_to f prev pre (c # s) es
    (lexString (pos_line pre) (pos_column pre) c (lx_at f pre (c # s) prev es))"
proof -
  have "c \<noteq> CHR 0x00" using assms by (auto simp: quote_char_def)
  from lexString_at [OF this, of pre f s prev es] obtain w r v es1 where
    l: "lexString (pos_line pre) (pos_column pre) c (lx_at f pre (c # s) prev es) =
      lx_at f (pre @ w) r (prev @ [tok_at f pre TkString v]) (es @ es1)"
    and w: "c # s = w @ r" "errors_within f pre w es1" "w \<noteq> []" "es1 = [] \<longrightarrow> (\<exists>b. w = c # b @ [c])"
    by blast
  have "starts quote_char w" using w assms by (cases w) auto
  then have "piece f prev pre w r [tok_at f pre TkString v] es1"
    using w by (intro piece.quoted) auto
  from steps_toI [OF this w(3), of es] show ?thesis using l w by simp
qed

lemma marker_step:
  assumes "3 \<le> length (takeWhile (\<lambda>c. c = CHR ''-'') s)"
  shows "steps_to f prev pre s es (emit TkServiceResponseMarker ''---'' (pos_line pre) (pos_column pre)
    (dash_run (snd (advance (snd (advance (snd (advance (lx_at f pre s prev es)))))))))"
proof -
  let ?P = "\<lambda>c. c = CHR ''-''"
  let ?w = "takeWhile ?P s" and ?r = "dropWhile ?P s"
  obtain u where s: "s = ''---'' @ u"
    using assms by (cases s; cases "tl s"; cases "tl (tl s)") (auto split: if_splits)
  have "spells TkServiceResponseMarker ''---'' ?w ?r"
    using assms list_all_takeWhile not_starts_dropWhile by (auto simp: spells_def)
  moreover have "?w \<noteq> []" using assms by auto
  ultimately have "steps_to f prev pre (?w @ ?r) es
      (lx_at f (pre @ ?w) ?r (prev @ [tok_at f pre TkServiceResponseMarker ''---'']) es)"
    by (rule steps_to_token)
  then show ?thesis by (simp add: s dash_run_at)
qed


lemma comment_step:
  "steps_to f prev pre (CHR ''#'' # s) es (case comment_run [] (lx_at f pre (CHR ''#'' # s) prev es) of
    (t, lx) \<Rightarrow> emit TkComment t (pos_line pre) (pos_column pre) lx)"
proof -
  let ?s = "CHR ''#'' # s"
  let ?w = "takeWhile comment_char ?s" and ?r = "dropWhile comment_char ?s"
  have "spells TkComment ?w ?w ?r" "?w \<noteq> []"
    using list_all_takeWhile [of comment_char ?s] not_starts_dropWhile [of comment_char ?s]
    by (simp_all add: spells_def)
  then have "steps_to f prev pre (?w @ ?r) es (lx_at f (pre @ ?w) ?r (prev @ [tok_at f pre TkComment ?w]) es)"
    by (rule steps_to_token)
  then show ?thesis by (simp add: comments.run_at)
qed

lemma two_char_text:
  "two_char_token c d = Some (k, t) \<Longrightarrow> t = [c, d] \<and> d \<noteq> CHR 0x00 \<and>
    k \<in> {TkLessEqual, TkGreaterEqual, TkEqualEqual, TkBangEqual, TkPipePipe, TkAmpAmp, TkStarStar}"
  by (auto simp: two_char_token_def split: if_splits)

lemma single_char_kinds:
  "single_char_token c = Some k \<Longrightarrow>
    k \<notin> {TkNewline, TkComment, TkIdentifier, TkTrue, TkFalse, TkServiceResponseMarker}"
  by (auto simp: single_char_token_def split: if_splits)

lemma two_char_step:
  assumes "two_char_token c (peek (lx_at f pre (c # s) prev es) 1) = Some (k, t)"
  shows "steps_to f prev pre (c # s) es (emit k t (pos_line pre) (pos_column pre)
    (snd (advance (snd (advance (lx_at f pre (c # s) prev es))))))"
proof -
  obtain d s' where s: "s = d # s'" using assms two_char_text by (cases s) auto
  then have t: "two_char_token c d = Some (k, t)" using assms by simp
  then have "spells k [c, d] [c, d] s'"
    using two_char_text [OF t] by (auto simp: spells_def)
  then show ?thesis using steps_to_token [of k "[c, d]" "[c, d]" s' f prev pre es] two_char_text [OF t] s
    by simp
qed

lemma single_char_step:
  assumes "two_char_token c (peek (lx_at f pre (c # s) prev es) 1) = None" "single_char_token c = Some k"
  shows "steps_to f prev pre (c # s) es (emit k [c] (pos_line pre) (pos_column pre)
    (snd (advance (lx_at f pre (c # s) prev es))))"
proof -
  have "\<not> starts (\<lambda>d. two_char_token c d \<noteq> None) s" using assms by (cases s) auto
  then have "spells k [c] [c] s"
    using single_char_kinds [OF assms(2)] assms(2) by (auto simp: spells_def)
  then show ?thesis using steps_to_token [of k "[c]" "[c]" s f prev pre es] by simp
qed

lemma lex_step_word:
  assumes "word_start c"
  shows "lex_step (lx_at f pre (c # s) prev es) =
    lexIdentifierOrKeyword (pos_line pre) (pos_column pre) (lx_at f pre (c # s) prev es)"
proof -
  have "c \<notin> {CHR 0x0D, CHR 0x0A, CHR '' '', CHR 0x09, CHR ''#'', CHR ''-''}"
    using assms by (auto simp: word_start_def isalpha_def)
  then show ?thesis using assms by (simp add: lex_step_def word_start_def Let_def)
qed

lemma lex_step_digit:
  assumes "isdigit c"
  shows "lex_step (lx_at f pre (c # s) prev es) =
    lexNumber (pos_line pre) (pos_column pre) (lx_at f pre (c # s) prev es)"
proof -
  have "c \<notin> {CHR 0x0D, CHR 0x0A, CHR '' '', CHR 0x09, CHR ''#'', CHR ''-'', CHR ''_''}" "\<not> isalpha c"
    using assms by (auto simp: isdigit_def isalpha_def)
  then show ?thesis using assms by (simp add: lex_step_def Let_def)
qed

lemma lex_step_quote:
  assumes "quote_char c"
  shows "lex_step (lx_at f pre (c # s) prev es) =
    lexString (pos_line pre) (pos_column pre) c (lx_at f pre (c # s) prev es)"
proof -
  have "c \<notin> {CHR 0x0D, CHR 0x0A, CHR '' '', CHR 0x09, CHR ''#'', CHR ''-'', CHR ''_''}"
    "\<not> isalpha c" "\<not> isdigit c"
    using assms by (auto simp: isdigit_def isalpha_def quote_char_def)
  then show ?thesis using assms by (auto simp: lex_step_def quote_char_def Let_def)
qed

lemma lex_step_at: "steps_to f prev pre (c # s) es (lex_step (lx_at f pre (c # s) prev es))"
proof -
  let ?lx = "lx_at f pre (c # s) prev es"
  have lf: "(peek ?lx 1 = CHR 0x0A) = starts (\<lambda>d. d = CHR 0x0A) s" by (cases s) auto
  consider (cr) "c = CHR 0x0D" | (lf) "c = CHR 0x0A" | (space) "c = CHR '' '' \<or> c = CHR 0x09"
    | (comment) "c = CHR ''#''"
    | (marker) "c = CHR ''-''" "peek ?lx 1 = CHR ''-''" "peek ?lx 2 = CHR ''-''"
    | (word) "word_start c" | (number) "isdigit c" | (quoted) "quote_char c"
    | (other) "c \<notin> {CHR 0x0D, CHR 0x0A, CHR '' '', CHR 0x09, CHR ''#''}" "\<not> word_start c" "\<not> isdigit c"
      "\<not> quote_char c" "\<not> (c = CHR ''-'' \<and> peek ?lx 1 = CHR ''-'' \<and> peek ?lx 2 = CHR ''-'')"
    by blast
  then show ?thesis
  proof cases
    case cr
    then show ?thesis using lf steps_to_blank [of c s f prev pre es] steps_to_stray [of c s f prev pre es]
      by (simp add: lex_step_def blank_def stray_def Let_def)
  next
    case lf
    have "spells TkNewline [CHR 0x5C, CHR ''n''] [c] s" using lf by (simp add: spells_def)
    from steps_to_token [OF this, of f prev pre es] show ?thesis using lf by (simp add: lex_step_def Let_def)
  next
    case space
    then show ?thesis using steps_to_blank [of c s f prev pre es]
      by (auto simp: lex_step_def blank_def Let_def)
  next
    case comment
    then show ?thesis using comment_step [of f prev pre s es] by (simp add: lex_step_def Let_def)
  next
    case marker
    obtain s' where "s = CHR ''-'' # CHR ''-'' # s'"
      using marker by (cases s; cases "tl s") (auto simp: numeral_2_eq_2)
    then have "3 \<le> length (takeWhile (\<lambda>c. c = CHR ''-'') (c # s))" using marker by simp
    from marker_step [OF this, of f prev pre es] show ?thesis using marker by (simp add: lex_step_def Let_def)
  next
    case word
    then show ?thesis using word_step [OF word] by (simp add: lex_step_word)
  next
    case number
    then show ?thesis using number_step [OF number] by (simp add: lex_step_digit)
  next
    case quoted
    then show ?thesis using string_step [OF quoted] by (simp add: lex_step_quote)
  next
    case other
    let ?two = "two_char_token c (peek ?lx 1)" and ?one = "single_char_token c"
    have "lex_step ?lx = (case ?two of
          Some (k, t) \<Rightarrow> emit k t (pos_line pre) (pos_column pre) (snd (advance (snd (advance ?lx))))
        | None \<Rightarrow> (case ?one of
            Some k \<Rightarrow> emit k [c] (pos_line pre) (pos_column pre) (snd (advance ?lx))
          | None \<Rightarrow> recordError (pos_line pre) (pos_column pre)
              (''unexpected character '' @ describe_byte c @ '' in source'') (snd (advance ?lx))))"
      using other unfolding lex_step_def Let_def word_start_def quote_char_def peek_at_simps(2) lx_at_fields
      by (auto simp del: peek_at_simps(3) advance_at)
    moreover have "stray c s" if "?one = None" using other that by (auto simp: stray_def)
    ultimately show ?thesis
      using two_char_step [of c f pre s prev es] single_char_step [of c f pre s prev es]
        steps_to_stray [of c s f prev pre es]
      by (cases ?two; cases ?one) (auto simp del: peek_at_simps(3))
  qed
qed

subsection \<open>The whole text\<close>

theorem lex_loop_tokenizes: "\<exists>ts es. tokenizes f prev pre s ts es \<and>
    lex_loop (lx_at f pre s prev es0) = lx_at f (pre @ s) [] (prev @ ts) (es0 @ es)"
proof (induction "length s" arbitrary: prev pre s es0 rule: less_induct)
  case less
  show ?case
  proof (cases s)
    case Nil
    then show ?thesis
      by (intro exI [of _ "[]"]) (simp add: tokenizes.finished lex_loop.simps)
  next
    case (Cons c s')
    obtain w r ts1 es1 where p: "s = w @ r" "w \<noteq> []" "piece f prev pre w r ts1 es1"
      "lex_step (lx_at f pre s prev es0) = lx_at f (pre @ w) r (prev @ ts1) (es0 @ es1)"
      using lex_step_at [of f prev pre c s' es0] Cons unfolding steps_to_def by blast
    obtain ts es where t: "tokenizes f (prev @ ts1) (pre @ w) r ts es"
      "lex_loop (lx_at f (pre @ w) r (prev @ ts1) (es0 @ es1)) =
        lx_at f ((pre @ w) @ r) [] ((prev @ ts1) @ ts) ((es0 @ es1) @ es)"
      using less [of r "prev @ ts1" "pre @ w" "es0 @ es1"] p by auto
    have "tokenizes f prev pre s (ts1 @ ts) (es1 @ es)"
      using tokenizes.next_piece [OF p(3,2) t(1)] p(1) by simp
    moreover have "lex_loop (lx_at f pre s prev es0) = lex_loop (lex_step (lx_at f pre s prev es0))"
      using Cons by (subst lex_loop.simps) simp
    ultimately show ?thesis using t(2) p by (intro exI [of _ "ts1 @ ts"] exI [of _ "es1 @ es"]) simp
  qed
qed

lemma lex_tokenizes: "\<exists>ts es. tokenizes f [] [] s ts es \<and>
    lex (Lexer_init f s) = (ts @ [tok_at f s TkEof []], lx_at f s [] (ts @ [tok_at f s TkEof []]) es)"
  using lex_loop_tokenizes [of f "[]" "[]" s "[]"] by (auto simp: lex_def Lexer_init_at)

end
