(* ===== verification/LexerRoundtrip.thy ===== *)
theory LexerRoundtrip
  imports LexerSpec
begin

unbundle bit_operations_syntax

text \<open>
  Consequences of the tokenisation: where the tokens lie in the text, what a text without errors
  looks like, and the round trips: a quoted string, a Unicode escape and a printed token stream are
  lexed back to what was printed.
\<close>

subsection \<open>Where the tokens lie\<close>

inductive_cases piece_cases: "piece f prev pre w r ts es"

text \<open>A located token starts at an offset of the text, and its spelling is the text there except
  for line breaks, markers and strings, whose text is normalised.\<close>

definition located :: "string \<Rightarrow> string \<Rightarrow> string \<Rightarrow> nat \<Rightarrow> Token \<Rightarrow> bool" where
  "located f pre s n t \<longleftrightarrow> n < length s \<and> tok_location t = loc_at f (pre @ take n s) \<and>
     tok_kind t \<noteq> TkEof \<and>
     (tok_kind t \<notin> {TkNewline, TkServiceResponseMarker, TkString} \<longrightarrow>
       tok_text t = take (length (tok_text t)) (drop n s) \<and> tok_text t \<noteq> [])"

lemma located_shift: "located f (pre @ w) r n t \<Longrightarrow> located f pre (w @ r) (length w + n) t"
  by (auto simp: located_def)

lemma operator_kinds:
  "two_char_token c d = Some (k, t) \<Longrightarrow> k \<notin> {TkEof, TkInteger, TkReal, TkString}"
  "single_char_token c = Some k \<Longrightarrow> k \<notin> {TkEof, TkInteger, TkReal, TkString}"
  by (auto simp: two_char_token_def single_char_token_def split: if_splits)

lemma spells_kind: "spells k t w r \<Longrightarrow> k \<notin> {TkEof, TkInteger, TkReal, TkString}"
  by (auto simp: spells_def split: if_splits dest: operator_kinds)

lemma spells_text: "spells k t w r \<Longrightarrow> k \<notin> {TkNewline, TkServiceResponseMarker} \<Longrightarrow> t = w"
  by (simp add: spells_def split: if_splits)

lemma piece_located:
  assumes "piece f prev pre w r ts1 es1" "w \<noteq> []"
  shows "ts1 = [] \<or> (\<exists>t. ts1 = [t] \<and> located f pre (w @ r) 0 t)"
  using assms(1)
  by (rule piece_cases) (use assms(2) in \<open>auto simp: located_def tok_at_def dest: spells_text spells_kind\<close>)

theorem tokens_located:
  "tokenizes f prev pre s ts es \<Longrightarrow>
    \<exists>ns. sorted_wrt (<) ns \<and> list_all2 (located f pre s) ns ts"
proof (induction rule: tokenizes.induct)
  case (next_piece prev pre w r ts1 es1 ts es)
  then obtain ns where ns: "sorted_wrt (<) ns" "list_all2 (located f (pre @ w) r) ns ts" by blast
  let ?ns = "map ((+) (length w)) ns"
  have t: "sorted_wrt (<) ?ns" "list_all2 (located f pre (w @ r)) ?ns ts"
    using ns by (auto simp: sorted_wrt_map list_all2_map1 intro: list_all2_mono located_shift)
  from piece_located [OF next_piece(1,2)] show ?case
  proof
    assume "ts1 = []"
    then show ?thesis using t by auto
  next
    assume "\<exists>t. ts1 = [t] \<and> located f pre (w @ r) 0 t"
    then obtain tk where "ts1 = [tk]" "located f pre (w @ r) 0 tk" by blast
    moreover have "\<forall>n\<in>set ?ns. 0 < n" using next_piece(2) by auto
    ultimately show ?thesis using t by (intro exI [of _ "0 # ?ns"]) auto
  qed
qed auto

subsection \<open>Texts without errors\<close>

definition well_formed_token :: "Token \<Rightarrow> bool" where
  "well_formed_token t \<longleftrightarrow>
     (tok_kind t = TkInteger \<longrightarrow> integer_literal (tok_text t) \<or> real_literal (''.'' @ tok_text t)) \<and>
     (tok_kind t = TkReal \<longrightarrow> real_literal (tok_text t))"

lemma clean_piece:
  assumes "piece f prev pre w r ts1 []"
  shows "\<forall>t\<in>set ts1. well_formed_token t"
  using assms
proof (rule piece_cases)
  fix real
  assume n: "ts1 = [tok_at f pre (if real then TkReal else TkInteger) w]"
    "[] = (if number_conforms prev pre (w @ r) then [] else [number_error f pre w real])"
    "number_span (w @ r) = (w, real)"
  then have "number_conforms prev pre (w @ r)" by (auto split: if_splits)
  then show ?thesis using n
    by (auto simp: well_formed_token_def tok_at_def number_conforms_def conforms_integer conforms_real
        number_span_def split: if_splits)
qed (auto simp: well_formed_token_def tok_at_def dest: spells_kind)

theorem clean_tokens:
  "tokenizes f prev pre s ts es \<Longrightarrow> es = [] \<Longrightarrow> \<forall>t\<in>set ts. well_formed_token t"
  by (induction rule: tokenizes.induct) (auto dest: clean_piece)

text \<open>Every error is located in the text.\<close>

lemma piece_errors: "piece f prev pre w r ts1 es1 \<Longrightarrow> w \<noteq> [] \<Longrightarrow> errors_within f pre (w @ r) es1"
  by (erule piece_cases)
    (auto intro: errors_within_first errors_within_extend simp: number_error_def)

theorem errors_located: "tokenizes f prev pre s ts es \<Longrightarrow> errors_within f pre s es"
  by (induction rule: tokenizes.induct) (auto intro: piece_errors errors_within_later)

subsection \<open>Quoted strings\<close>

definition escape_for :: "char \<Rightarrow> char \<Rightarrow> string" where
  "escape_for q c = (if c = CHR 0x5C \<or> c = q then [CHR 0x5C, c] else [c])"

definition quote_string :: "char \<Rightarrow> string \<Rightarrow> string" where
  "quote_string q s = q # concat (map (escape_for q) s) @ [q]"

lemma string_loop_stop: "string_loop q v (lx_at f pre (q # r) ts es) = (v, lx_at f pre (q # r) ts es)"
  by (subst string_loop.simps) simp

lemma string_loop_plain: "c \<noteq> q \<Longrightarrow> c \<noteq> CHR 0x5C \<Longrightarrow>
    string_loop q v (lx_at f pre (c # r) ts es) = string_loop q (v @ [c]) (lx_at f (pre @ [c]) r ts es)"
  by (subst string_loop.simps) simp

lemma string_loop_escape: "q \<noteq> CHR 0x5C \<Longrightarrow> e \<noteq> CHR 0x0A \<Longrightarrow> e \<noteq> CHR 0x0D \<Longrightarrow>
    string_loop q v (lx_at f pre (CHR 0x5C # e # r) ts es) =
      (case escape_char e v (pos_line pre) (pos_column pre) (lx_at f (pre @ [CHR 0x5C, e]) r ts es) of
         (v', lx) \<Rightarrow> string_loop q v' lx)"
  by (subst string_loop.simps) simp

lemma string_loop_quoted:
  assumes "quote_char q"
  shows "string_loop q v (lx_at f pre (concat (map (escape_for q) s) @ q # r) ts es) =
    (v @ s, lx_at f (pre @ concat (map (escape_for q) s)) (q # r) ts es)"
proof (induction s arbitrary: v pre)
  case (Cons c s)
  have q: "q \<noteq> CHR 0x5C" "q \<noteq> CHR 0x0A" "q \<noteq> CHR 0x0D" using assms by (auto simp: quote_char_def)
  show ?case
  proof (cases "c = CHR 0x5C \<or> c = q")
    case True
    then have "c \<in> {CHR 0x5C, CHR 0x27, CHR 0x22}" using assms by (auto simp: quote_char_def)
    then have e: "escape_char c v l k lx = (v @ [c], lx)" for l k lx
      by (auto simp: escape_char_def)
    have "c \<noteq> CHR 0x0A" "c \<noteq> CHR 0x0D" using True q by auto
    then show ?thesis using True q Cons by (simp add: escape_for_def string_loop_escape e)
  qed (use Cons in \<open>simp add: escape_for_def string_loop_plain\<close>)
qed (simp add: string_loop_stop)

lemma lexString_quoted:
  assumes "quote_char q"
  shows "lexString (pos_line pre) (pos_column pre) q (lx_at f pre (quote_string q s @ r) ts es) =
    lx_at f (pre @ quote_string q s) r (ts @ [tok_at f pre TkString s]) es"
  using string_loop_quoted [OF assms, of "[]" f "pre @ [q]" s r ts es]
  by (simp add: lexString_def quote_string_def)

subsection \<open>Unicode escapes\<close>

text \<open>Decoding one scalar value from UTF-8, as the abstract meaning of its encoding.\<close>

definition utf8_decode :: "string \<Rightarrow> nat option" where
  "utf8_decode s = (case map of_char s of
     [a] \<Rightarrow> if a < 128 then Some a else None
   | [a, b] \<Rightarrow> if 192 \<le> a \<and> a < 224 then Some ((a - 192) * 64 + (b - 128)) else None
   | [a, b, c] \<Rightarrow> if 224 \<le> a \<and> a < 240 then Some ((a - 224) * 4096 + (b - 128) * 64 + (c - 128)) else None
   | [a, b, c, d] \<Rightarrow> if 240 \<le> a \<and> a < 248
       then Some ((a - 240) * 262144 + (b - 128) * 4096 + (c - 128) * 64 + (d - 128)) else None
   | _ \<Rightarrow> None)"

definition scalar_value :: "nat \<Rightarrow> bool" where
  "scalar_value n \<longleftrightarrow> n \<le> 1114111 \<and> \<not> (55296 \<le> n \<and> n \<le> 57343)"

lemma or_high_low: "x < 2 ^ n \<Longrightarrow> (2 ^ n * k) OR x = 2 ^ n * k + x" for x k :: nat
proof -
  assume "x < 2 ^ n"
  then have x: "x = take_bit n x" by (simp add: take_bit_nat_eq_self)
  have "2 ^ n * k + x = push_bit n k + take_bit n x" using x by (simp add: push_bit_eq_mult ac_simps)
  also have "\<dots> = push_bit n k OR take_bit n x"
    by (rule disjunctive_add) (auto simp: bit_push_bit_iff bit_take_bit_iff)
  finally show ?thesis using x by (simp add: push_bit_eq_mult ac_simps)
qed

lemma unat_or_word: "unat (a OR b) = unat a OR unat b" for a b :: "32 word"
  by (simp add: unsigned_or_eq)

lemma unat_drop: "unat (drop_bit n w) = unat w div 2 ^ n" for w :: "32 word"
proof -
  have "take_bit 32 (unat w) = unat w"
    using unsigned_less [of w, where 'a = nat] by (intro take_bit_nat_eq_self) simp
  then show ?thesis unfolding unsigned_drop_bit_eq by (simp add: drop_bit_eq_div [where 'a = nat])
qed

lemma unat_low6: "unat (w AND 63) = unat w mod 64" for w :: "32 word"
proof -
  have "unat w AND 63 = unat w AND mask 6" by (simp add: mask_eq_exp_minus_1)
  also have "\<dots> = unat w mod 64" by (simp only: take_bit_eq_mask [symmetric] take_bit_eq_mod) simp
  finally show ?thesis by (simp add: unsigned_and_eq)
qed

lemma continuation: "unat (128 OR (w AND 63)) = 128 + unat w mod 64" for w :: "32 word"
  using or_high_low [of "unat w mod 64" 6 2] by (simp add: unat_or_word unat_low6)

lemma lead2: "unat w < 2048 \<Longrightarrow> unat (192 OR drop_bit 6 w) = 192 + unat w div 64" for w :: "32 word"
  using or_high_low [of "unat w div 64" 5 6] by (simp add: unat_or_word unat_drop)

lemma lead3: "unat w < 65536 \<Longrightarrow> unat (224 OR drop_bit 12 w) = 224 + unat w div 4096" for w :: "32 word"
  using or_high_low [of "unat w div 4096" 4 14] by (simp add: unat_or_word unat_drop)

lemma lead4: "unat w < 2097152 \<Longrightarrow> unat (240 OR drop_bit 18 w) = 240 + unat w div 262144" for w :: "32 word"
  using or_high_low [of "unat w div 262144" 3 30] by (simp add: unat_or_word unat_drop)

lemma split6: "n = n div 64 * 64 + n mod 64" for n :: nat
  by simp

lemma utf8_roundtrip:
  assumes "unat w < 2097152"
  shows "\<exists>u. appendUtf8 v w = v @ u \<and> utf8_decode u = Some (unat w)"
proof -
  let ?n = "unat w"
  have le: "w \<le> 127 \<longleftrightarrow> ?n \<le> 127" "w \<le> 2047 \<longleftrightarrow> ?n \<le> 2047" "w \<le> 65535 \<longleftrightarrow> ?n \<le> 65535"
    by (simp_all add: word_le_nat_alt)
  have d12: "?n div 64 div 64 = ?n div 4096" "?n div 4096 div 64 = ?n div 262144"
    by (simp_all add: div_mult2_eq [symmetric])
  consider "?n \<le> 127" | "127 < ?n" "?n \<le> 2047" | "2047 < ?n" "?n \<le> 65535" | "65535 < ?n" by linarith
  then show ?thesis
  proof cases
    case 1
    then show ?thesis by (simp add: appendUtf8_def le utf8_decode_def)
  next
    case 2
    then have "?n div 64 < 32" "?n div 64 * 64 + ?n mod 64 = ?n" by auto
    then show ?thesis using 2 by (simp add: appendUtf8_def Let_def le utf8_decode_def continuation lead2)
  next
    case 3
    have "?n div 4096 < 16" using 3 by auto
    moreover have "?n div 4096 * 4096 + ?n div 64 mod 64 * 64 + ?n mod 64 = ?n"
      using split6 [of ?n] split6 [of "?n div 64"] d12 by linarith
    ultimately show ?thesis using 3
      by (simp add: appendUtf8_def Let_def le utf8_decode_def continuation lead3 unat_drop)
  next
    case 4
    have "?n div 262144 < 8" using assms by auto
    moreover have "?n div 262144 * 262144 + ?n div 4096 mod 64 * 4096 + ?n div 64 mod 64 * 64 + ?n mod 64 = ?n"
      using split6 [of ?n] split6 [of "?n div 64"] split6 [of "?n div 4096"] d12 by linarith
    ultimately show ?thesis using 4
      by (simp add: appendUtf8_def Let_def le utf8_decode_def continuation lead4 unat_drop)
  qed
qed

fun hex_digits :: "nat \<Rightarrow> nat \<Rightarrow> string" where
  "hex_digits 0 n = []"
| "hex_digits (Suc k) n = hex_digits k (n div 16) @ [''0123456789ABCDEF'' ! (n mod 16)]"

lemma hex_nibble_digit: "d < 16 \<Longrightarrow> hex_nibble (''0123456789ABCDEF'' ! d) = Some d"
  by (auto simp: hex_nibble_def less_Suc_eq numeral_eq_Suc)

lemma shift_nibble: "d < 16 \<Longrightarrow> push_bit 4 (of_nat n) OR of_nat d = (of_nat (16 * n + d) :: 32 word)"
proof -
  assume d: "d < 16"
  have "(of_nat d :: 32 word) = take_bit 4 (of_nat d)"
    using d by (simp add: take_bit_of_nat take_bit_nat_eq_self)
  moreover have "push_bit 4 (of_nat n) OR take_bit 4 (of_nat d) = push_bit 4 (of_nat n) + (take_bit 4 (of_nat d) :: 32 word)"
    by (rule disjunctive_add [symmetric]) (auto simp: bit_push_bit_iff bit_take_bit_iff)
  ultimately show ?thesis by (simp add: push_bit_eq_mult)
qed

lemma unicode_digits_append:
  "unicode_digits (length ds + n) cp l c (lx_at f pre (ds @ r) ts es) =
    (case unicode_digits (length ds) cp l c (lx_at f pre (ds @ r) ts es) of
       (None, lx) \<Rightarrow> (None, lx) | (Some cp', lx) \<Rightarrow> unicode_digits n cp' l c lx)"
  by (induction ds arbitrary: cp pre) (auto split: option.splits)

lemma unicode_digits_hex: "n < 16 ^ k \<Longrightarrow>
    unicode_digits k (of_nat m) l c (lx_at f pre (hex_digits k n @ r) ts es) =
      (Some (of_nat (16 ^ k * m + n)), lx_at f (pre @ hex_digits k n) r ts es)"
proof (induction k arbitrary: n r)
  case (Suc k)
  have l: "length (hex_digits k x) = k" for x by (induction k arbitrary: x) auto
  let ?d = "''0123456789ABCDEF'' ! (n mod 16)"
  have "n div 16 < 16 ^ k" using Suc by (simp add: less_mult_imp_div_less mult.commute)
  with Suc have "unicode_digits k (of_nat m) l c (lx_at f pre (hex_digits k (n div 16) @ ?d # r) ts es) =
      (Some (of_nat (16 ^ k * m + n div 16)), lx_at f (pre @ hex_digits k (n div 16)) (?d # r) ts es)"
    by blast
  then have "unicode_digits (k + 1) (of_nat m) l c (lx_at f pre (hex_digits k (n div 16) @ ?d # r) ts es) =
      unicode_digits 1 (of_nat (16 ^ k * m + n div 16)) l c (lx_at f (pre @ hex_digits k (n div 16)) (?d # r) ts es)"
    using unicode_digits_append [of "hex_digits k (n div 16)" 1] l by simp
  also have "\<dots> = (Some (of_nat (16 * (16 ^ k * m + n div 16) + n mod 16)),
      lx_at f (pre @ hex_digits k (n div 16) @ [?d]) r ts es)"
    by (simp add: hex_nibble_digit shift_nibble del: of_nat_add of_nat_mult)
  also have "16 * (16 ^ k * m + n div 16) + n mod 16 = 16 ^ Suc k * m + n" by simp
  finally show ?case by simp
qed simp

lemma decode_escape:
  assumes "scalar_value n" "n < 16 ^ k"
  shows "\<exists>u. utf8_decode u = Some n \<and>
    decodeUnicodeEscape v k (pos_line p) (pos_column p) (lx_at f pre (hex_digits k n @ r) ts es) =
      (v @ u, lx_at f (pre @ hex_digits k n) r ts es)"
proof -
  let ?w = "of_nat n :: 32 word"
  have n: "unat ?w = n" using assms by (simp add: scalar_value_def unat_of_nat)
  then have "\<not> (?w > 0x10FFFF \<or> (?w \<ge> 0xD800 \<and> ?w \<le> 0xDFFF))"
    using assms by (simp add: scalar_value_def word_le_nat_alt word_less_nat_alt)
  moreover obtain u where "appendUtf8 v ?w = v @ u" "utf8_decode u = Some n"
    using utf8_roundtrip [of ?w v] n assms by (auto simp: scalar_value_def)
  ultimately show ?thesis
    using unicode_digits_hex [OF assms(2), of 0 "pos_line p" "pos_column p" f pre r ts es]
    by (auto simp: decodeUnicodeEscape_def)
qed


lemma lex_single:
  assumes "s \<noteq> []" "lex_step (lx_at f [] s [] []) = lx_at f s [] ts es"
  shows "lex (Lexer_init f s) = (ts @ [tok_at f s TkEof []], lx_at f s [] (ts @ [tok_at f s TkEof []]) es)"
proof -
  have "lex_loop (lx_at f [] s [] []) = lex_loop (lex_step (lx_at f [] s [] []))"
    using assms by (subst lex_loop.simps) simp
  also have "\<dots> = lx_at f s [] ts es"
    unfolding assms(2) by (subst lex_loop.simps) simp
  finally show ?thesis by (simp add: lex_def Lexer_init_at)
qed

lemma lex_quoted:
  assumes "quote_char q"
  shows "lex (Lexer_init f (quote_string q s)) =
    ([tok_at f [] TkString s, tok_at f (quote_string q s) TkEof []],
     lx_at f (quote_string q s) [] [tok_at f [] TkString s, tok_at f (quote_string q s) TkEof []] [])"
proof -
  have e: "lex_step (lx_at f [] (quote_string q s) [] []) = lx_at f (quote_string q s) [] [tok_at f [] TkString s] []"
    using lexString_quoted [OF assms, of "[]" f s "[]" "[]" "[]"]
      lex_step_quote [OF assms, of f "[]" "concat (map (escape_for q) s) @ [q]" "[]" "[]"]
    by (simp add: quote_string_def)
  have "quote_string q s \<noteq> []" by (simp add: quote_string_def)
  from lex_single [OF this e] show ?thesis by simp
qed

definition unicode_literal :: "char \<Rightarrow> nat \<Rightarrow> string" where
  "unicode_literal q n = [q, CHR 0x5C, CHR ''U''] @ hex_digits 8 n @ [q]"

lemma lex_unicode:
  assumes "quote_char q" "scalar_value n"
  shows "\<exists>u. utf8_decode u = Some n \<and> lex (Lexer_init f (unicode_literal q n)) =
    ([tok_at f [] TkString u, tok_at f (unicode_literal q n) TkEof []],
     lx_at f (unicode_literal q n) [] [tok_at f [] TkString u, tok_at f (unicode_literal q n) TkEof []] [])"
proof -
  let ?h = "hex_digits 8 n"
  have n: "n < 16 ^ 8" and q: "q \<noteq> CHR 0x5C" using assms by (auto simp: scalar_value_def quote_char_def)
  from decode_escape [OF assms(2) n, of "[]" "[q]" f "[q, CHR 0x5C, CHR ''U'']" "[q]" "[]" "[]"]
  obtain u where u: "utf8_decode u = Some n"
    "decodeUnicodeEscape [] 8 (pos_line [q]) (pos_column [q])
      (lx_at f [q, CHR 0x5C, CHR ''U''] (?h @ [q]) [] []) = (u, lx_at f ([q, CHR 0x5C, CHR ''U''] @ ?h) [q] [] [])"
    by auto
  have "string_loop q [] (lx_at f [q] (CHR 0x5C # CHR ''U'' # ?h @ [q]) [] []) =
      (u, lx_at f ([q, CHR 0x5C, CHR ''U''] @ ?h) [q] [] [])"
    using u(2) q by (simp add: string_loop_escape escape_char_def string_loop_stop)
  then have "lex_step (lx_at f [] (unicode_literal q n) [] []) =
      lx_at f (unicode_literal q n) [] [tok_at f [] TkString u] []"
    using lex_step_quote [OF assms(1), of f "[]" "CHR 0x5C # CHR ''U'' # ?h @ [q]" "[]" "[]"]
    by (simp add: lexString_def unicode_literal_def del: hex_digits.simps)
  moreover have "unicode_literal q n \<noteq> []" by (simp add: unicode_literal_def)
  ultimately show ?thesis using lex_single u(1) by fastforce
qed

subsection \<open>Printing tokens\<close>

text \<open>The token streams that can be printed with one space after each token: words, literals,
  strings, line breaks, markers and operators.\<close>

fun printable :: "TokenKind \<times> string \<Rightarrow> bool" where
  "printable (k, t) =
     (if k = TkIdentifier
        then starts word_start t \<and> list_all word_char t \<and> t \<noteq> ''true'' \<and> t \<noteq> ''false''
      else if k = TkTrue then t = ''true''
      else if k = TkFalse then t = ''false''
      else if k = TkInteger then integer_literal t
      else if k = TkReal then real_literal t \<and> starts isdigit t \<and> last t \<noteq> CHR ''.''
      else if k = TkString then True
      else if k = TkNewline then t = [CHR 0x5C, CHR ''n'']
      else if k = TkServiceResponseMarker then t = ''---''
      else if k = TkComment \<or> k = TkEof then False
      else (case t of [c] \<Rightarrow> single_char_token c = Some k
            | [c, d] \<Rightarrow> two_char_token c d = Some (k, t) | _ \<Rightarrow> False))"

fun print_token :: "TokenKind \<times> string \<Rightarrow> string" where
  "print_token (k, t) =
     (if k = TkString then quote_string CHR 0x22 t else if k = TkNewline then [CHR 0x0A] else t)"

definition print_tokens :: "(TokenKind \<times> string) list \<Rightarrow> string" where
  "print_tokens ps = concat (map (\<lambda>p. print_token p @ '' '') ps)"

lemma takeWhile_all: "list_all P w \<Longrightarrow> \<not> P c \<Longrightarrow>
    takeWhile P (w @ c # r) = w \<and> dropWhile P (w @ c # r) = c # r"
  by (induction w) auto

lemma isdigit_decimal: "isdigit = is_decimal_digit"
  by (auto simp: isdigit_def is_decimal_digit_def in_class_def)

lemma separated_bars: "separated D w \<Longrightarrow> list_all (\<lambda>c. D c \<or> c = CHR ''_'') w"
  by (induction D w rule: separated.induct) (auto split: if_splits)

lemma separated_starts: "separated D w \<Longrightarrow> starts D w"
  by (cases w) (auto simp: separated_Cons)

lemma separated_nonempty: "separated D w \<Longrightarrow> w \<noteq> []"
  by (cases w) auto

lemma separated_last: "separated D w \<Longrightarrow> D (last w)"
  by (induction D w rule: separated.induct) (auto split: if_splits simp: separated_nonempty)

lemma separated_mono: "separated D w \<Longrightarrow> (\<And>c. D c \<Longrightarrow> E c) \<Longrightarrow> separated E w"
  by (induction D w rule: separated.induct) (auto split: if_splits)

lemma tail_digits_bars: "tail_digits D w \<Longrightarrow> list_all (\<lambda>c. D c \<or> c = CHR ''_'') w"
  by (cases w) (auto simp: tail_digits_def dest: separated_bars split: if_splits)

lemma digit_run_take:
  assumes "separated is_decimal_digit a" "\<not> digit_or_bar c"
  shows "takeWhile digit_or_bar (a @ c # r) = a"
  using takeWhile_all [of digit_or_bar a c r] separated_bars [OF assms(1)] assms(2)
  by (simp add: isdigit_decimal)

lemma prefix_digits_word:
  assumes "\<And>c. D c \<Longrightarrow> isalnum c" "tail_digits D w"
  shows "list_all word_char w"
  using tail_digits_bars [OF assms(2)] assms(1) by (auto simp: list_all_iff)

lemma digit_classes_word:
  "is_binary_digit c \<Longrightarrow> isalnum c" "is_octal_digit c \<Longrightarrow> isalnum c" "is_hex_digit c \<Longrightarrow> isalnum c"
  by (auto simp: in_class_def isalnum_def isdigit_def isalpha_def)

lemma integer_span:
  assumes "integer_literal t"
  shows "number_span (t @ CHR '' '' # r) = (t, False) \<and> starts isdigit t"
proof (cases "2 \<le> length t \<and> t ! 0 = CHR ''0'' \<and>
    t ! 1 \<in> {CHR ''x'', CHR ''X'', CHR ''b'', CHR ''B'', CHR ''o'', CHR ''O''}")
  case True
  then obtain p w where t: "t = CHR ''0'' # p # w"
      "p \<in> {CHR ''x'', CHR ''X'', CHR ''b'', CHR ''B'', CHR ''o'', CHR ''O''}"
    by (cases t; cases "tl t") auto
  then have "tail_digits is_binary_digit w \<or> tail_digits is_octal_digit w \<or> tail_digits is_hex_digit w"
    using assms by (auto simp: integer_literal_def)
  then have "list_all word_char w"
    using prefix_digits_word [of is_binary_digit w] prefix_digits_word [of is_octal_digit w]
      prefix_digits_word [of is_hex_digit w] digit_classes_word by blast
  moreover have "\<not> word_char CHR '' ''" by (simp add: isalnum_def isalpha_def isdigit_def)
  ultimately have "takeWhile word_char (w @ CHR '' '' # r) = w"
    using takeWhile_all [of word_char w "CHR '' ''" r] by simp
  then show ?thesis using t by (simp add: number_span_def is_prefixed_def isdigit_def)
next
  case False
  then have s: "separated is_decimal_digit t"
    using assms separated_mono [of "\<lambda>c. c = CHR ''0''" t is_decimal_digit]
    by (auto simp: integer_literal_def is_decimal_digit_def in_class_def split: if_splits)
  have n: "\<not> digit_or_bar CHR '' ''" by (simp add: isdigit_def)
  obtain c w where t: "t = c # w" "isdigit c"
    using s by (cases t) (auto simp: separated_Cons isdigit_decimal)
  have "\<not> is_prefixed (t @ CHR '' '' # r)"
    using False t by (cases w) (auto simp: is_prefixed_def)
  then show ?thesis using digit_run_take [OF s n, of r] t
    by (simp add: number_span_def fraction_span_def exponent_span_def)
qed

lemma exponent_span_take:
  assumes "exponent_part x"
  shows "exponent_span (x @ CHR '' '' # r) = x"
proof -
  obtain e s d where x: "x = e # s @ d" "e \<in> {CHR ''e'', CHR ''E''}" "s \<in> {[], ''+'', ''-''}"
      "separated is_decimal_digit d" using assms by (auto simp: exponent_part_def)
  have n: "\<not> digit_or_bar CHR '' ''" by (simp add: isdigit_def)
  obtain c w where d: "d = c # w" "isdigit c"
    using x by (cases d) (auto simp: separated_Cons isdigit_decimal)
  then have "c \<noteq> CHR ''+''" "c \<noteq> CHR ''-''" by (auto simp: isdigit_def)
  then show ?thesis using x d digit_run_take [OF x(4) n, of r]
    by (auto simp: exponent_span_def numeral_2_eq_2 simp del: takeWhile.simps)
qed

lemma point_shape:
  assumes "point_literal m" "starts isdigit m"
  shows "\<exists>a d. m = a @ CHR ''.'' # d \<and> separated is_decimal_digit a \<and> (d = [] \<or> separated is_decimal_digit d)"
proof -
  obtain a d where m: "m = a @ CHR ''.'' # d" "(a = [] \<or> separated is_decimal_digit a) \<and>
      separated is_decimal_digit d \<or> separated is_decimal_digit a \<and> d = []"
    using assms(1) by (auto simp: point_literal_def)
  have "a \<noteq> []" using m(1) assms(2) by (cases a) (auto simp: isdigit_def)
  then show ?thesis using m by blast
qed

lemma exponent_part_starts: "exponent_part x \<Longrightarrow> starts (\<lambda>c. c = CHR ''e'' \<or> c = CHR ''E'') x"
  by (auto simp: exponent_part_def)

text \<open>A real that starts with a digit is digits, an optional point with optional digits, and an
  optional exponent.\<close>

lemma real_shape:
  assumes "real_literal t" "starts isdigit t" "last t \<noteq> CHR ''.''"
  shows "\<exists>a b x. t = a @ b @ x \<and> separated is_decimal_digit a \<and>
    (b = [] \<or> (\<exists>d. b = CHR ''.'' # d \<and> (separated is_decimal_digit d \<or> d = [] \<and> x \<noteq> []))) \<and>
    (x = [] \<or> exponent_part x) \<and> (b \<noteq> [] \<or> x \<noteq> [])"
proof -
  consider "point_literal t" | m x where "t = m @ x" "exponent_part x" "point_literal m"
    | m x where "t = m @ x" "exponent_part x" "separated is_decimal_digit m"
    using assms(1) by (auto simp: real_literal_def)
  then show ?thesis
  proof cases
    case 1
    from point_shape [OF this assms(2)] obtain a d where t: "t = a @ CHR ''.'' # d"
      "separated is_decimal_digit a" "d = [] \<or> separated is_decimal_digit d" by blast
    then have "separated is_decimal_digit d" using assms(3) by auto
    then show ?thesis using t by (intro exI [of _ a] exI [of _ "CHR ''.'' # d"] exI [of _ "[]"]) simp
  next
    case 2
    have x: "x \<noteq> []" using exponent_part_starts [OF 2(2)] by auto
    have "m \<noteq> []" using 2(3) by (auto simp: point_literal_def)
    then have "starts isdigit m" using 2(1) assms(2) by (cases m) auto
    from point_shape [OF 2(3) this] obtain a d where "m = a @ CHR ''.'' # d"
      "separated is_decimal_digit a" "d = [] \<or> separated is_decimal_digit d" by blast
    then show ?thesis using 2 x by (intro exI [of _ a] exI [of _ "CHR ''.'' # d"] exI [of _ x]) auto
  next
    case 3
    have x: "x \<noteq> []" using exponent_part_starts [OF 3(2)] by auto
    then show ?thesis using 3 by (intro exI [of _ m] exI [of _ "[]"] exI [of _ x]) simp
  qed
qed

lemma fraction_span_take:
  assumes "separated is_decimal_digit d \<or> d = [] \<and> x \<noteq> []" "x = [] \<or> exponent_part x"
  shows "fraction_span (CHR ''.'' # d @ x @ CHR '' '' # r) = CHR ''.'' # d"
proof -
  obtain c u where c: "x @ CHR '' '' # r = c # u" by (cases x) auto
  have e: "c = CHR '' '' \<or> c = CHR ''e'' \<or> c = CHR ''E''"
    using assms(2) c exponent_part_starts [of x] by (cases x) auto
  then have n: "\<not> digit_or_bar c" by (auto simp: isdigit_def)
  show ?thesis
  proof (cases "d = []")
    case True
    then have "c = CHR ''e'' \<or> c = CHR ''E''"
      using assms c exponent_part_starts [of x] by (cases x) auto
    then show ?thesis using True c n by (auto simp: fraction_span_def)
  next
    case False
    then have d: "separated is_decimal_digit d" using assms by auto
    then have "starts isdigit (d @ c # u)"
      using separated_starts [OF d] by (cases d) (auto simp: isdigit_decimal)
    then show ?thesis using digit_run_take [OF d n, of u] by (simp add: fraction_span_def c)
  qed
qed

lemma prefixed_run: "is_prefixed s \<Longrightarrow>
    takeWhile digit_or_bar s = ''0'' \<and> \<not> starts (\<lambda>c. c \<in> {CHR ''.'', CHR '' '', CHR ''e'', CHR ''E''}) (tl s)"
  by (cases s; cases "tl s") (auto simp: is_prefixed_def isdigit_def)

lemma real_span:
  assumes "real_literal t" "starts isdigit t" "last t \<noteq> CHR ''.''"
  shows "number_span (t @ CHR '' '' # r) = (t, True)"
proof -
  obtain a b x where t: "t = a @ b @ x" "separated is_decimal_digit a"
    "b = [] \<or> (\<exists>d. b = CHR ''.'' # d \<and> (separated is_decimal_digit d \<or> d = [] \<and> x \<noteq> []))"
    "x = [] \<or> exponent_part x" "b \<noteq> [] \<or> x \<noteq> []"
    using real_shape [OF assms] by blast
  obtain c u where c: "b @ x @ CHR '' '' # r = c # u"
    by (cases "b @ x @ CHR '' '' # r") auto
  have e: "c \<in> {CHR ''.'', CHR ''e'', CHR ''E''}"
    using t c exponent_part_starts [of x] by (cases b; cases x) auto
  then have n: "\<not> digit_or_bar c" by (auto simp: isdigit_def)
  have run: "takeWhile digit_or_bar (t @ CHR '' '' # r) = a"
    using digit_run_take [OF t(2) n, of u] t(1) c by simp
  have p: "\<not> is_prefixed (t @ CHR '' '' # r)"
  proof
    assume "is_prefixed (t @ CHR '' '' # r)"
    then have "a = ''0''" "\<not> starts (\<lambda>c. c \<in> {CHR ''.'', CHR '' '', CHR ''e'', CHR ''E''}) (tl (t @ CHR '' '' # r))"
      using prefixed_run run by auto
    then show False using e c t(1) by auto
  qed
  have "fraction_span (b @ x @ CHR '' '' # r) = b"
  proof (cases "b = []")
    case True
    then have "c = CHR ''e'' \<or> c = CHR ''E''" using t c exponent_part_starts [of x] by (cases x) auto
    then show ?thesis using True c by (auto simp: fraction_span_def)
  next
    case False
    then obtain d where "b = CHR ''.'' # d" "separated is_decimal_digit d \<or> d = [] \<and> x \<noteq> []"
      using t(3) by blast
    then show ?thesis using fraction_span_take [of d x r] t(4) by simp
  qed
  moreover have "exponent_span (x @ CHR '' '' # r) = x"
  proof (cases "x = []")
    case True
    then show ?thesis by (simp add: exponent_span_def)
  next
    case False
    then show ?thesis using t(4) exponent_span_take by blast
  qed
  ultimately show ?thesis using p run t(1,5) by (simp add: number_span_def)
qed


lemma space_not_class: "\<not> word_char CHR '' ''" "\<not> isdigit CHR '' ''"
  by (simp_all add: isalnum_def isalpha_def isdigit_def)

lemma word_token_step:
  assumes "starts word_start t" "list_all word_char t"
  shows "lex_step (lx_at f pre (t @ CHR '' '' # r) prev es) =
    lx_at f (pre @ t) (CHR '' '' # r) (prev @ [tok_at f pre
      (if t = ''true'' then TkTrue else if t = ''false'' then TkFalse else TkIdentifier) t]) es"
proof -
  obtain c w where t: "t = c # w" "word_start c" using assms(1) by (cases t) auto
  have "takeWhile word_char (t @ CHR '' '' # r) = t" "dropWhile word_char (t @ CHR '' '' # r) = CHR '' '' # r"
    using takeWhile_all [OF assms(2) space_not_class(1)] by auto
  then show ?thesis
    using lex_step_word [OF t(2), of f pre "w @ CHR '' '' # r" prev es] t(1)
    by (simp add: lexIdentifierOrKeyword_def words.run_at del: takeWhile.simps dropWhile.simps)
qed

lemma number_token_step:
  assumes "number_span (t @ CHR '' '' # r) = (t, real)" "starts isdigit t" "\<not> after_dot prev pre"
    "numericLiteralConforms t real"
  shows "lex_step (lx_at f pre (t @ CHR '' '' # r) prev es) =
    lx_at f (pre @ t) (CHR '' '' # r) (prev @ [tok_at f pre (if real then TkReal else TkInteger) t]) es"
proof -
  obtain c w where t: "t = c # w" "isdigit c" using assms(2) by (cases t) auto
  have "is_prefixed (t @ CHR '' '' # r) \<Longrightarrow> \<not> real"
    using assms(1) by (simp add: number_span_def)
  then have "number_conforms prev pre (t @ CHR '' '' # r)"
    using assms by (cases real) (auto simp: number_conforms_def)
  then show ?thesis
    using lexNumber_at [of "t @ CHR '' '' # r" t real pre f prev es] assms(1) t
      lex_step_digit [OF t(2), of f pre "w @ CHR '' '' # r" prev es] by simp
qed

lemma operator_token_step:
  assumes "(\<exists>c. t = [c] \<and> single_char_token c = Some k) \<or> (\<exists>c d. t = [c, d] \<and> two_char_token c d = Some (k, t))"
  shows "lex_step (lx_at f pre (t @ CHR '' '' # r) prev es) =
    lx_at f (pre @ t) (CHR '' '' # r) (prev @ [tok_at f pre k t]) es"
  using assms
proof (elim disjE exE conjE)
  fix c
  assume t: "t = [c]" "single_char_token c = Some k"
  then have "c \<notin> {CHR 0x0D, CHR 0x0A, CHR '' '', CHR 0x09, CHR ''#'', CHR ''_'', CHR 0x27, CHR 0x22}"
    "\<not> isalpha c" "\<not> isdigit c" "two_char_token c CHR '' '' = None"
    by (auto simp: single_char_token_def two_char_token_def isalpha_def isdigit_def split: if_splits)
  then show ?thesis using t by (auto simp: lex_step_def Let_def)
next
  fix c d
  assume t: "t = [c, d]" "two_char_token c d = Some (k, t)"
  then have "c \<notin> {CHR 0x0D, CHR 0x0A, CHR '' '', CHR 0x09, CHR ''#'', CHR ''_'', CHR 0x27, CHR 0x22, CHR ''-''}"
    "\<not> isalpha c" "\<not> isdigit c"
    by (auto simp: two_char_token_def isalpha_def isdigit_def split: if_splits)
  then show ?thesis using t by (auto simp: lex_step_def Let_def)
qed

lemma printed_token_step:
  assumes "printable (k, t)" "\<not> after_dot prev pre"
  shows "lex_step (lx_at f pre (print_token (k, t) @ CHR '' '' # r) prev es) =
    lx_at f (pre @ print_token (k, t)) (CHR '' '' # r) (prev @ [tok_at f pre k t]) es"
proof -
  have w: "starts word_start ''true''" "list_all word_char ''true''"
    "starts word_start ''false''" "list_all word_char ''false''"
    by (simp_all add: word_start_def isalpha_def isalnum_def)
  consider "k \<in> {TkIdentifier, TkTrue, TkFalse}" | "k = TkInteger" | "k = TkReal" | "k = TkString"
    | "k = TkNewline" | "k = TkServiceResponseMarker"
    | "k \<notin> {TkIdentifier, TkTrue, TkFalse, TkInteger, TkReal, TkString, TkNewline, TkServiceResponseMarker}"
    by blast
  then show ?thesis
  proof cases
    case 1
    then show ?thesis using assms(1) w word_token_step [of t f pre r prev es] by auto
  next
    case 2
    then have "integer_literal t" using assms(1) by simp
    then show ?thesis
      using integer_span [of t r] number_token_step [of t r False prev pre f es] assms(2) conforms_integer 2
      by simp
  next
    case 3
    then have "real_literal t" "starts isdigit t" "last t \<noteq> CHR ''.''" using assms(1) by simp_all
    then show ?thesis
      using real_span [of t r] number_token_step [of t r True prev pre f es] assms(2) conforms_real 3
      by simp
  next
    case 4
    have q: "quote_char CHR 0x22" by (simp add: quote_char_def)
    show ?thesis
      using lexString_quoted [OF q, of pre f t "CHR '' '' # r" prev es]
        lex_step_quote [OF q, of f pre "concat (map (escape_for CHR 0x22) t) @ [CHR 0x22] @ CHR '' '' # r" prev es] 4
      by (simp add: quote_string_def)
  next
    case 5
    then show ?thesis using assms(1) by (simp add: lex_step_def Let_def)
  next
    case 6
    then show ?thesis using assms(1) by (simp add: lex_step_def Let_def numeral_2_eq_2 dash_run_at)
  next
    case 7
    then have "(\<exists>c. t = [c] \<and> single_char_token c = Some k) \<or> (\<exists>c d. t = [c, d] \<and> two_char_token c d = Some (k, t))"
      using assms(1) by (auto split: if_splits list.splits)
    from operator_token_step [OF this] show ?thesis using 7 by simp
  qed
qed

lemma space_step: "lex_step (lx_at f pre (CHR '' '' # r) prev es) = lx_at f (pre @ '' '') r prev es"
  by (simp add: lex_step_def Let_def)

lemma after_dot_printed:
  assumes "printable (k, t)"
  shows "\<not> after_dot (prev @ [tok_at f pre k t]) (pre @ print_token (k, t) @ '' '')"
proof (cases "k = TkDot")
  case True
  then have "t = ''.''"
    using assms by (auto simp: single_char_token_def two_char_token_def split: if_splits list.splits)
  then have "pos_column (pre @ print_token (k, t) @ '' '') = pos_column pre + 2"
    using True by (simp add: pos_column_def)
  then show ?thesis by (simp add: after_dot_def tok_at_def loc_at_def)
qed (simp add: after_dot_def tok_at_def)

lemma lex_loop_printed:
  assumes "list_all printable ps" "\<not> after_dot prev pre"
  shows "\<exists>ts. lex_loop (lx_at f pre (print_tokens ps) prev es) = lx_at f (pre @ print_tokens ps) [] (prev @ ts) es \<and>
    map (\<lambda>t. (tok_kind t, tok_text t)) ts = ps"
  using assms
proof (induction ps arbitrary: pre prev)
  case Nil
  then show ?case by (subst lex_loop.simps) (simp add: print_tokens_def)
next
  case (Cons p ps)
  obtain k t where p: "p = (k, t)" by force
  let ?w = "print_token (k, t)" and ?tok = "tok_at f pre k t"
  have ok: "printable (k, t)" using Cons.prems(1) p by (simp only: list.pred_inject(2))
  have w: "print_tokens (p # ps) = ?w @ CHR '' '' # print_tokens ps" by (simp add: print_tokens_def p)
  obtain ts where ts: "lex_loop (lx_at f (pre @ ?w @ '' '') (print_tokens ps) (prev @ [?tok]) es) =
      lx_at f ((pre @ ?w @ '' '') @ print_tokens ps) [] ((prev @ [?tok]) @ ts) es"
    "map (\<lambda>t. (tok_kind t, tok_text t)) ts = ps"
    using Cons.IH [of "prev @ [?tok]" "pre @ ?w @ '' ''"] Cons.prems(1) after_dot_printed [OF ok, of prev f pre]
    by (auto simp only: list.pred_inject(2))
  have "lex_loop (lx_at f pre (print_tokens (p # ps)) prev es) =
      lex_loop (lx_at f (pre @ ?w) (CHR '' '' # print_tokens ps) (prev @ [?tok]) es)"
    unfolding w using printed_token_step [OF ok Cons.prems(2)] by (subst lex_loop.simps) simp
  also have "\<dots> = lex_loop (lx_at f (pre @ ?w @ '' '') (print_tokens ps) (prev @ [?tok]) es)"
    by (subst lex_loop.simps) (simp add: space_step)
  finally show ?case using ts p w by (intro exI [of _ "?tok # ts"]) (simp add: tok_at_def)
qed

lemma lex_printed:
  assumes "list_all printable ps"
  shows "map (\<lambda>t. (tok_kind t, tok_text t)) (fst (lex (Lexer_init f (print_tokens ps)))) = ps @ [(TkEof, [])] \<and>
    errors (snd (lex (Lexer_init f (print_tokens ps)))) = []"
proof -
  have "\<not> after_dot [] []" by (simp add: after_dot_def)
  from lex_loop_printed [OF assms this, of f "[]"] show ?thesis
    by (auto simp: lex_def Lexer_init_at errors_def tok_at_def)
qed

end
