(* ===== verification/FlatSet.thy ===== *)
theory FlatSet
  imports Prelude
begin

text \<open>
  The sorted-vector set of \<^verbatim>\<open>include/llvmdsdl/Support/FlatSet.h\<close>: the vector is a list, the
  iterators are positions in it. \<open>flat_ok\<close> is the class invariant (strictly increasing, hence no
  duplicates), \<open>set\<close> the abstraction. The interface that the other components use is the locale
  \<open>sorted_set\<close>, interpreted here on the operations of the class.
\<close>

subsection \<open>Algorithms of the standard library on vectors\<close>

definition lower_bound :: "'a::linorder list \<Rightarrow> 'a \<Rightarrow> nat" where
  "lower_bound xs v = length (takeWhile (\<lambda>x. x < v) xs)"

fun inplace_merge :: "'a::linorder list \<Rightarrow> 'a list \<Rightarrow> 'a list" where
  "inplace_merge [] ys = ys"
| "inplace_merge xs [] = xs"
| "inplace_merge (x # xs) (y # ys) =
     (if y < x then y # inplace_merge (x # xs) ys else x # inplace_merge xs (y # ys))"

text \<open>\<open>std::unique\<close> with the equivalence of the comparator: the first of each run stays.\<close>

fun eraseAdjacentDuplicates :: "'a::linorder list \<Rightarrow> 'a list" where
  "eraseAdjacentDuplicates (x # y # xs) =
     (if \<not> x < y \<and> \<not> y < x then eraseAdjacentDuplicates (x # xs)
      else x # eraseAdjacentDuplicates (y # xs))"
| "eraseAdjacentDuplicates xs = xs"

subsection \<open>Operations of the class\<close>

definition sortAndUnique :: "'a::linorder list \<Rightarrow> 'a list" where
  "sortAndUnique xs = eraseAdjacentDuplicates (sort xs)"

definition flat_of_list :: "'a::linorder list \<Rightarrow> 'a list" where
  "flat_of_list init = sortAndUnique init"

definition flat_insert :: "'a::linorder list \<Rightarrow> 'a \<Rightarrow> 'a list \<times> bool" where
  "flat_insert xs v =
     (let pos = lower_bound xs v
      in if pos < length xs \<and> \<not> v < xs ! pos then (xs, False)
         else (take pos xs @ v # drop pos xs, True))"

abbreviation flat_add :: "'a::linorder \<Rightarrow> 'a list \<Rightarrow> 'a list" where
  "flat_add v xs \<equiv> fst (flat_insert xs v)"

definition flat_insert_range :: "'a::linorder list \<Rightarrow> 'a list \<Rightarrow> 'a list" where
  "flat_insert_range xs ys =
     (if ys = [] then xs else eraseAdjacentDuplicates (inplace_merge xs (sort ys)))"

definition flat_erase :: "'a list \<Rightarrow> nat \<Rightarrow> 'a list" where
  "flat_erase xs pos = take pos xs @ drop (Suc pos) xs"

definition flat_erase_last :: "'a list \<Rightarrow> 'a list" where
  "flat_erase_last xs = flat_erase xs (length xs - 1)"

definition flat_find :: "'a::linorder list \<Rightarrow> 'a \<Rightarrow> nat" where
  "flat_find xs v =
     (let pos = lower_bound xs v
      in if pos < length xs \<and> \<not> v < xs ! pos then pos else length xs)"

definition flat_contains :: "'a::linorder list \<Rightarrow> 'a \<Rightarrow> bool" where
  "flat_contains xs v \<longleftrightarrow> flat_find xs v \<noteq> length xs"

definition flat_count :: "'a::linorder list \<Rightarrow> 'a \<Rightarrow> nat" where
  "flat_count xs v = (if flat_contains xs v then 1 else 0)"

definition flat_eq :: "'a list \<Rightarrow> 'a list \<Rightarrow> bool" where
  "flat_eq lhs rhs \<longleftrightarrow> lhs = rhs"

subsection \<open>The class invariant and what each operation keeps of it\<close>

abbreviation flat_ok :: "'a::linorder list \<Rightarrow> bool" where
  "flat_ok xs \<equiv> sorted_wrt (<) xs"

lemma flat_ok_distinct: "flat_ok xs \<Longrightarrow> distinct xs"
  by (simp add: strict_sorted_iff)

lemma flat_ok_sorted: "flat_ok xs \<Longrightarrow> sorted xs"
  by (simp add: strict_sorted_iff)

lemma flat_ok_unique: "flat_ok xs \<Longrightarrow> flat_ok ys \<Longrightarrow> set xs = set ys \<Longrightarrow> xs = ys"
  by (rule strict_sorted_equal)

lemma flat_ok_length: "flat_ok xs \<Longrightarrow> length xs = card (set xs)"
  by (simp add: flat_ok_distinct distinct_card)

lemma flat_ok_list: "flat_ok xs \<Longrightarrow> sorted_list_of_set (set xs) = xs"
  by (intro sorted_list_of_set.idem_if_sorted_distinct flat_ok_sorted flat_ok_distinct)

lemma flat_ok_hd: "flat_ok xs \<Longrightarrow> xs \<noteq> [] \<Longrightarrow> hd xs = Min (set xs)"
  by (cases xs) (auto intro!: Min_eqI [symmetric] dest: less_imp_le)

lemma flat_ok_last: "flat_ok xs \<Longrightarrow> xs \<noteq> [] \<Longrightarrow> last xs = Max (set xs)"
  by (cases xs rule: rev_cases) (auto intro!: Max_eqI [symmetric] simp: sorted_wrt_append dest: less_imp_le)

lemma set_unique [simp]: "set (eraseAdjacentDuplicates xs) = set xs"
proof (induction xs rule: eraseAdjacentDuplicates.induct)
  case (1 x y xs)
  show ?case
  proof (cases "\<not> x < y \<and> \<not> y < x")
    case True
    then have "y = x" by (auto simp: not_less)
    then show ?thesis using 1(1) [OF True] by simp
  next
    case False
    then show ?thesis using 1(2) [OF False] by auto
  qed
qed simp_all

lemma hd_unique: "eraseAdjacentDuplicates (x # xs) = x # tl (eraseAdjacentDuplicates (x # xs))"
  by (induction xs arbitrary: x) auto

lemma sorted_unique: "sorted xs \<Longrightarrow> flat_ok (eraseAdjacentDuplicates xs)"
proof (induction xs rule: eraseAdjacentDuplicates.induct)
  case (1 x y xs)
  show ?case
  proof (cases "\<not> x < y \<and> \<not> y < x")
    case True
    then show ?thesis using 1 by auto
  next
    case False
    then have "x < y" using "1.prems" by auto
    moreover have "\<forall>z \<in> set (y # xs). y \<le> z" using "1.prems" by auto
    ultimately have "\<forall>z \<in> set (eraseAdjacentDuplicates (y # xs)). x < z" by auto
    then show ?thesis using False 1 by simp
  qed
qed auto

lemma sortAndUnique_ok: "flat_ok (sortAndUnique xs)"
  by (simp add: sortAndUnique_def sorted_unique)

lemma set_sortAndUnique [simp]: "set (sortAndUnique xs) = set xs"
  by (simp add: sortAndUnique_def)

lemma flat_of_list_ok [simp]: "flat_ok (flat_of_list xs)"
  by (simp add: flat_of_list_def sortAndUnique_ok)

lemma set_flat_of_list [simp]: "set (flat_of_list xs) = set xs"
  by (simp add: flat_of_list_def)

lemma set_inplace_merge [simp]: "set (inplace_merge xs ys) = set xs \<union> set ys"
  by (induction xs ys rule: inplace_merge.induct) auto

lemma sorted_inplace_merge: "sorted xs \<Longrightarrow> sorted ys \<Longrightarrow> sorted (inplace_merge xs ys)"
  by (induction xs ys rule: inplace_merge.induct) auto

lemma flat_insert_range_ok: "flat_ok xs \<Longrightarrow> flat_ok (flat_insert_range xs ys)"
  by (simp add: flat_insert_range_def sorted_unique sorted_inplace_merge flat_ok_sorted)

lemma set_flat_insert_range [simp]: "set (flat_insert_range xs ys) = set xs \<union> set ys"
  by (simp add: flat_insert_range_def)

text \<open>The position found by the binary search splits a sorted vector at the value.\<close>

lemma lower_bound_split:
  assumes "sorted xs"
  shows "\<forall>x \<in> set (take (lower_bound xs v) xs). x < v"
    and "\<forall>x \<in> set (drop (lower_bound xs v) xs). v \<le> x"
proof -
  have t: "take (lower_bound xs v) xs = takeWhile (\<lambda>x. x < v) xs"
    using takeWhile_eq_take [of "\<lambda>x. x < v" xs] by (simp add: lower_bound_def)
  have d: "drop (lower_bound xs v) xs = dropWhile (\<lambda>x. x < v) xs"
    using dropWhile_eq_drop [of "\<lambda>x. x < v" xs] by (simp add: lower_bound_def)
  show "\<forall>x \<in> set (take (lower_bound xs v) xs). x < v"
    unfolding t by (auto dest: set_takeWhileD)
  show "\<forall>x \<in> set (drop (lower_bound xs v) xs). v \<le> x"
  proof (cases "dropWhile (\<lambda>x. x < v) xs")
    case Nil
    show ?thesis unfolding d Nil by simp
  next
    case (Cons a as)
    then have "\<not> a < v" using hd_dropWhile [of "\<lambda>x. x < v" xs] by auto
    moreover have "sorted (a # as)"
      using assms sorted_wrt_drop [of "(\<le>)" xs "lower_bound xs v"] by (simp add: d Cons)
    ultimately show ?thesis by (auto simp: d Cons)
  qed
qed

lemma lower_bound_hit:
  assumes "flat_ok xs"
  shows "(lower_bound xs v < length xs \<and> \<not> v < xs ! lower_bound xs v) \<longleftrightarrow> v \<in> set xs"
proof -
  let ?p = "lower_bound xs v"
  note s = lower_bound_split [OF flat_ok_sorted [OF assms], of v]
  show ?thesis
  proof
    assume h: "?p < length xs \<and> \<not> v < xs ! ?p"
    then have "xs ! ?p \<in> set (drop ?p xs)" by (metis Cons_nth_drop_Suc list.set_intros(1))
    then have "v = xs ! ?p" using s(2) h by auto
    then show "v \<in> set xs" using h nth_mem by metis
  next
    assume "v \<in> set xs"
    then have "v \<in> set (drop ?p xs)" using s(1) append_take_drop_id [of ?p xs] set_append by (metis UnE less_irrefl)
    then obtain a as where d: "drop ?p xs = a # as" by (cases "drop ?p xs") auto
    then have p: "?p < length xs" by (metis drop_eq_Nil list.distinct(1) not_le)
    then have "xs ! ?p = a" using d by (metis Cons_nth_drop_Suc list.inject)
    moreover have "a \<le> v"
    proof -
      have "flat_ok (a # as)" using assms sorted_wrt_drop [of "(<)" xs ?p] by (simp add: d)
      then show ?thesis using \<open>v \<in> set (drop ?p xs)\<close> d by auto
    qed
    ultimately show "?p < length xs \<and> \<not> v < xs ! ?p" using p by auto
  qed
qed

lemma set_flat_insert: "flat_ok xs \<Longrightarrow> set (flat_add v xs) = insert v (set xs)"
proof -
  assume ok: "flat_ok xs"
  have "set xs = set (take (lower_bound xs v) xs) \<union> set (drop (lower_bound xs v) xs)"
    by (metis append_take_drop_id set_append)
  then show ?thesis
    using lower_bound_hit [OF ok, of v] by (auto simp: flat_insert_def Let_def)
qed

lemma flat_insert_ok: "flat_ok xs \<Longrightarrow> flat_ok (flat_add v xs)"
proof -
  assume ok: "flat_ok xs"
  let ?p = "lower_bound xs v"
  show ?thesis
  proof (cases "v \<in> set xs")
    case True
    then show ?thesis using ok lower_bound_hit [OF ok, of v] by (simp add: flat_insert_def Let_def)
  next
    case False
    note s = lower_bound_split [OF flat_ok_sorted [OF ok], of v]
    have "v \<notin> set (drop ?p xs)" using False by (meson in_set_dropD)
    then have "\<forall>x \<in> set (drop ?p xs). v < x" using s(2) by (metis le_neq_trans)
    then have "flat_ok (take ?p xs @ v # drop ?p xs)"
      using ok s(1) by (fastforce simp: sorted_wrt_append intro: sorted_wrt_take sorted_wrt_drop)
    then show ?thesis using False lower_bound_hit [OF ok, of v] by (auto simp: flat_insert_def Let_def)
  qed
qed

lemma flat_insert_new: "flat_ok xs \<Longrightarrow> snd (flat_insert xs v) \<longleftrightarrow> v \<notin> set xs"
  using lower_bound_hit [of xs v] by (auto simp: flat_insert_def Let_def)

lemma flat_contains_set: "flat_ok xs \<Longrightarrow> flat_contains xs v \<longleftrightarrow> v \<in> set xs"
  using lower_bound_hit [of xs v] by (auto simp: flat_contains_def flat_find_def Let_def)

lemma flat_erase_last_butlast: "xs \<noteq> [] \<Longrightarrow> flat_erase_last xs = butlast xs"
  by (simp add: flat_erase_last_def flat_erase_def butlast_conv_take)

lemma flat_erase_last_ok: "flat_ok xs \<Longrightarrow> xs \<noteq> [] \<Longrightarrow> flat_ok (flat_erase_last xs)"
  by (simp add: flat_erase_last_butlast butlast_conv_take sorted_wrt_take)

lemma set_flat_erase_last:
  "flat_ok xs \<Longrightarrow> xs \<noteq> [] \<Longrightarrow> set (flat_erase_last xs) = set xs - {last xs}"
  by (cases xs rule: rev_cases) (auto simp: flat_erase_last_butlast sorted_wrt_append)

subsection \<open>The interface that other components rely on\<close>

locale sorted_set =
  fixes ok :: "'s \<Rightarrow> bool"
    and elems :: "'s \<Rightarrow> 'a::linorder set"
    and add :: "'a \<Rightarrow> 's \<Rightarrow> 's"
    and add_all :: "'s \<Rightarrow> 'a list \<Rightarrow> 's"
    and has :: "'s \<Rightarrow> 'a \<Rightarrow> bool"
  assumes ok_add: "ok s \<Longrightarrow> ok (add v s)"
    and elems_add: "ok s \<Longrightarrow> elems (add v s) = insert v (elems s)"
    and ok_add_all: "ok s \<Longrightarrow> ok (add_all s vs)"
    and elems_add_all: "ok s \<Longrightarrow> elems (add_all s vs) = elems s \<union> set vs"
    and has_elems: "ok s \<Longrightarrow> has s v \<longleftrightarrow> v \<in> elems s"
    and extensional: "ok s \<Longrightarrow> ok t \<Longrightarrow> elems s = elems t \<Longrightarrow> s = t"
begin

lemma ok_fold_add: "ok s \<Longrightarrow> ok (fold add vs s)"
  by (induction vs arbitrary: s) (auto simp: ok_add)

lemma elems_fold_add: "ok s \<Longrightarrow> elems (fold add vs s) = elems s \<union> set vs"
  by (induction vs arbitrary: s) (auto simp: ok_add elems_add)

lemma fold_add_range: "ok s \<Longrightarrow> fold add vs s = add_all s vs"
  by (rule extensional) (simp_all add: ok_fold_add elems_fold_add ok_add_all elems_add_all)

lemma add_present: "ok s \<Longrightarrow> v \<in> elems s \<Longrightarrow> add v s = s"
  by (rule extensional) (auto simp: ok_add elems_add)

lemma add_commute: "ok s \<Longrightarrow> add v (add w s) = add w (add v s)"
  by (rule extensional) (auto simp: ok_add elems_add)

end

interpretation flat: sorted_set flat_ok set flat_add flat_insert_range flat_contains
  by unfold_locales
    (auto simp: flat_insert_ok set_flat_insert flat_insert_range_ok flat_contains_set
      intro: flat_ok_unique)

end
