(* ===== verification/RationalSet.thy ===== *)
theory RationalSet
  imports Rational FlatSet
begin

text \<open>
  The ordered set \<^verbatim>\<open>std::set<Rational>\<close> that the evaluator calls \<^verbatim>\<open>Value::Set\<close>: the list of its
  elements in ascending order of \<^verbatim>\<open>operator<\<close>. An element is inserted before the first one that is
  not less, unless that one is equivalent to it. Where the comparison of the class is exact, which it
  is on parts of 64 bits, the operations are those of the mathematical set of values.
\<close>

subsection \<open>Operations\<close>

fun rset_insert :: "(rat \<Rightarrow> rat) \<Rightarrow> rational \<Rightarrow> rational list \<Rightarrow> rational list" where
  "rset_insert rnd x [] = [x]"
| "rset_insert rnd x (y # ys) =
     (if rat_less rnd y x then y # rset_insert rnd x ys
      else if rat_less rnd x y then x # y # ys else y # ys)"

definition rset_insert_all :: "(rat \<Rightarrow> rat) \<Rightarrow> rational list \<Rightarrow> rational list \<Rightarrow> rational list" where
  "rset_insert_all rnd xs s = fold (rset_insert rnd) xs s"

fun rset_contains :: "(rat \<Rightarrow> rat) \<Rightarrow> rational list \<Rightarrow> rational \<Rightarrow> bool" where
  "rset_contains rnd [] x \<longleftrightarrow> False"
| "rset_contains rnd (y # ys) x \<longleftrightarrow> (if rat_less rnd y x then rset_contains rnd ys x else \<not> rat_less rnd x y)"

definition rset_eq :: "rational list \<Rightarrow> rational list \<Rightarrow> bool" where
  "rset_eq xs ys \<longleftrightarrow> list_all2 rat_eq xs ys"

subsection \<open>The set of values\<close>

definition small_rational :: "rational \<Rightarrow> bool" where
  "small_rational r \<longleftrightarrow> rat_ok r \<and> fits64 r \<and> \<not> overflowed r"

definition rset_ok :: "rational list \<Rightarrow> bool" where
  "rset_ok xs \<longleftrightarrow> (\<forall>x\<in>set xs. small_rational x) \<and> sorted_wrt (\<lambda>x y. rat_value x < rat_value y) xs"

abbreviation rset_values :: "rational list \<Rightarrow> rat set" where
  "rset_values xs \<equiv> rat_value ` set xs"

lemma rset_ok_simps [simp]:
  "rset_ok []"
  "rset_ok (x # xs) \<longleftrightarrow> small_rational x \<and> (\<forall>y\<in>set xs. rat_value x < rat_value y) \<and> rset_ok xs"
  by (auto simp: rset_ok_def)

lemma rset_okD: "rset_ok xs \<Longrightarrow> x \<in> set xs \<Longrightarrow> small_rational x"
  by (simp add: rset_ok_def)

lemma small_less [simp]:
  "small_rational x \<Longrightarrow> small_rational y \<Longrightarrow> rat_less rnd x y \<longleftrightarrow> rat_value x < rat_value y"
  by (simp add: small_rational_def rat_less_value comparable_small)

lemma small_eq: "small_rational x \<Longrightarrow> small_rational y \<Longrightarrow> rat_value x = rat_value y \<longleftrightarrow> x = y"
  using reduced_eq_iff [of x y] by (auto simp: small_rational_def intro: rational.equality)

lemma small_rat_eq: "small_rational x \<Longrightarrow> small_rational y \<Longrightarrow> rat_eq x y \<longleftrightarrow> x = y"
  by (auto simp: small_rational_def rat_eq_def intro: rational.equality)

lemma rset_insert_ok:
  assumes "small_rational x" "rset_ok xs"
  shows "rset_ok (rset_insert rnd x xs) \<and> rset_values (rset_insert rnd x xs) = insert (rat_value x) (rset_values xs)"
  using assms(2)
proof (induction xs)
  case (Cons y ys)
  then have y: "small_rational y" and IH: "rset_ok (rset_insert rnd x ys)"
    "rset_values (rset_insert rnd x ys) = insert (rat_value x) (rset_values ys)" by auto
  consider "rat_value y < rat_value x" | "rat_value x < rat_value y" | "rat_value x = rat_value y" by linarith
  then show ?case
  proof cases
    case 1
    have "rat_value y < v" if "v \<in> rset_values (rset_insert rnd x ys)" for v
      using that 1 Cons.prems unfolding IH(2) by auto
    then show ?thesis using 1 y IH assms(1) by auto
  next
    case 2
    then have "\<forall>z\<in>set (y # ys). rat_value x < rat_value z" using Cons.prems by fastforce
    then show ?thesis using 2 y assms(1) Cons.prems by auto
  next
    case 3
    then show ?thesis using y assms(1) Cons.prems by auto
  qed
qed (use assms(1) in simp)

lemma rset_insert_all_ok:
  "\<forall>x\<in>set xs. small_rational x \<Longrightarrow> rset_ok s \<Longrightarrow>
    rset_ok (rset_insert_all rnd xs s) \<and> rset_values (rset_insert_all rnd xs s) = rset_values xs \<union> rset_values s"
proof (induction xs arbitrary: s)
  case (Cons x xs)
  note I = rset_insert_ok [of x s rnd]
  show ?case using Cons.IH [of "rset_insert rnd x s"] I Cons.prems by (auto simp: rset_insert_all_def)
qed (simp add: rset_insert_all_def)

lemma rset_contains_iff:
  assumes "small_rational x" "rset_ok xs"
  shows "rset_contains rnd xs x \<longleftrightarrow> rat_value x \<in> rset_values xs"
  using assms(2)
proof (induction xs)
  case (Cons y ys)
  consider "rat_value y < rat_value x" | "rat_value x < rat_value y" | "rat_value x = rat_value y" by linarith
  then show ?case
  proof cases
    case 2
    then have "rat_value x < rat_value z" if "z \<in> set ys" for z using that Cons.prems by fastforce
    then have "rat_value x \<notin> rset_values ys" by fastforce
    then show ?thesis using 2 assms(1) Cons.prems by simp
  qed (use assms(1) Cons in auto)
qed simp

lemma rset_unique: "rset_ok xs \<Longrightarrow> rset_ok ys \<Longrightarrow> rset_values xs = rset_values ys \<Longrightarrow> xs = ys"
proof -
  assume o: "rset_ok xs" "rset_ok ys" and v: "rset_values xs = rset_values ys"
  have s: "sorted_wrt (<) (map rat_value zs)" if "rset_ok zs" for zs
    using that by (simp add: rset_ok_def sorted_wrt_map)
  have "map rat_value xs = map rat_value ys"
    using strict_sorted_equal [OF s [OF o(1)] s [OF o(2)]] v by simp
  moreover have "inj_on rat_value (set xs \<union> set ys)"
    using o small_eq rset_okD by (intro inj_onI) (metis Un_iff)
  ultimately show "xs = ys" by (rule map_inj_on)
qed

lemma list_all2_eq_on: "(\<And>x y. x \<in> set xs \<Longrightarrow> y \<in> set ys \<Longrightarrow> P x y \<longleftrightarrow> x = y) \<Longrightarrow> list_all2 P xs ys \<longleftrightarrow> xs = ys"
proof (induction xs arbitrary: ys)
  case (Cons x xs)
  then show ?case by (cases ys) auto
qed auto

lemma rset_eq_iff: "rset_ok xs \<Longrightarrow> rset_ok ys \<Longrightarrow> rset_eq xs ys \<longleftrightarrow> rset_values xs = rset_values ys"
  using list_all2_eq_on [of xs ys rat_eq] small_rat_eq rset_okD rset_unique [of xs ys]
  by (auto simp: rset_eq_def)

lemma rset_length: "rset_ok xs \<Longrightarrow> length xs = card (rset_values xs)"
proof -
  assume "rset_ok xs"
  then have "distinct (map rat_value xs)"
    using flat_ok_distinct [of "map rat_value xs"] by (simp add: rset_ok_def sorted_wrt_map)
  then show ?thesis using distinct_card [of "map rat_value xs"] by simp
qed

lemma rset_hd: "rset_ok xs \<Longrightarrow> xs \<noteq> [] \<Longrightarrow> rat_value (hd xs) = Min (rset_values xs)"
  by (cases xs) (auto intro!: Min_eqI [symmetric] dest: less_imp_le)

lemma rset_last: "rset_ok xs \<Longrightarrow> xs \<noteq> [] \<Longrightarrow> rat_value (last xs) = Max (rset_values xs)"
  by (cases xs rule: rev_cases)
    (auto simp: rset_ok_def sorted_wrt_append intro!: Max_eqI [symmetric] dest: less_imp_le)

end
