(* ===== verification/Diagnostics.thy ===== *)
theory Diagnostics
  imports Lexer
begin

text \<open>
  The diagnostic engine of \<^verbatim>\<open>lib/Support/Diagnostics.cpp\<close> and
  \<^verbatim>\<open>include/llvmdsdl/Support/Diagnostics.h\<close>: an append-only list of findings. The two overloads of
  each member differ in the suggested integer, which the shorter one leaves empty, so one
  definition with that argument stands for both.
\<close>

datatype DiagnosticLevel = LevelNote | LevelWarning | LevelError

record diagnostic =
  diag_level :: DiagnosticLevel
  diag_location :: SourceLocation
  diag_message :: string
  diag_length :: "32 word"
  suggestedInteger :: "int option"

type_synonym diagnostics = "diagnostic list"

definition report ::
  "DiagnosticLevel \<Rightarrow> SourceLocation \<Rightarrow> string \<Rightarrow> 32 word \<Rightarrow> int option \<Rightarrow> diagnostics \<Rightarrow> diagnostics" where
  "report level location message len suggestion ds =
     ds @ [\<lparr>diag_level = level, diag_location = location, diag_message = message,
            diag_length = max 1 len, suggestedInteger = suggestion\<rparr>]"

definition note_at :: "SourceLocation \<Rightarrow> string \<Rightarrow> 32 word \<Rightarrow> int option \<Rightarrow> diagnostics \<Rightarrow> diagnostics" where
  "note_at location message len suggestion = report LevelNote location message len suggestion"

definition warning_at :: "SourceLocation \<Rightarrow> string \<Rightarrow> 32 word \<Rightarrow> int option \<Rightarrow> diagnostics \<Rightarrow> diagnostics" where
  "warning_at location message len suggestion = report LevelWarning location message len suggestion"

definition error_at :: "SourceLocation \<Rightarrow> string \<Rightarrow> 32 word \<Rightarrow> int option \<Rightarrow> diagnostics \<Rightarrow> diagnostics" where
  "error_at location message len suggestion = report LevelError location message len suggestion"

text \<open>The call \<^verbatim>\<open>diagnostics.error(location, message)\<close> with the default length of one.\<close>

definition error :: "SourceLocation \<Rightarrow> string \<Rightarrow> diagnostics \<Rightarrow> diagnostics" where
  "error location message = error_at location message 1 None"

definition hasErrors :: "diagnostics \<Rightarrow> bool" where
  "hasErrors ds \<longleftrightarrow> list_ex (\<lambda>d. diag_level d = LevelError) ds"

subsection \<open>The log only grows\<close>

text \<open>\<open>reported ds ds'\<close>: at least one error, and nothing but errors, was appended.\<close>

definition reported :: "diagnostics \<Rightarrow> diagnostics \<Rightarrow> bool" where
  "reported ds ds' \<longleftrightarrow> (\<exists>es. ds' = ds @ es \<and> es \<noteq> [] \<and> list_all (\<lambda>d. diag_level d = LevelError) es)"

lemma reported_error [simp, intro]: "reported ds (error location message ds)"
  by (auto simp: reported_def error_def error_at_def report_def)

lemma reported_trans: "reported ds ds1 \<Longrightarrow> reported ds1 ds2 \<Longrightarrow> reported ds ds2"
  by (fastforce simp: reported_def)

lemma reported_hasErrors: "reported ds ds' \<Longrightarrow> hasErrors ds'"
  by (auto simp: reported_def hasErrors_def list_ex_iff list_all_iff neq_Nil_conv)

lemma reported_length: "reported ds ds' \<Longrightarrow> length ds < length ds'"
  by (auto simp: reported_def)

lemma reported_prefix: "reported ds ds' \<Longrightarrow> take (length ds) ds' = ds"
  by (auto simp: reported_def)

end
