(* ===== verification/Runs.thy ===== *)
theory Runs
  imports IntegerMath
begin

text \<open>
  One arithmetic-progression run, the struct \<^verbatim>\<open>Run\<close> of
  \<^verbatim>\<open>include/llvmdsdl/Semantics/RunSet.h\<close>, and the file-local helpers of
  \<^verbatim>\<open>lib/Semantics/RunSet.cpp\<close>: the single validation point \<open>makeRun\<close>, the extended Euclid
  loop, the intersection of two runs by the Chinese remainder theorem, and the exact difference
  of a run and one of its sub-progressions. \<open>run_set\<close> is the denoted set, \<open>run_ok\<close> the invariant
  stated in the header; every operation is shown exact with respect to them.
\<close>

subsection \<open>Data\<close>

record run =
  start :: int
  stride :: int
  count :: int

definition run_last :: "run \<Rightarrow> int" where
  "run_last r = start r + (count r - 1) * stride r"

definition run_set :: "run \<Rightarrow> int set" where
  "run_set r = aprog (start r) (stride r) (count r)"

definition run_ok :: "run \<Rightarrow> bool" where
  "run_ok r \<longleftrightarrow> 1 \<le> count r \<and> 1 \<le> stride r \<and> (count r = 1 \<longrightarrow> stride r = 1)
     \<and> i64 (start r) \<and> i64 (count r)
     \<and> (count r - 1) * stride r \<le> int64_max \<and> run_last r \<le> int64_max"

subsection \<open>Construction\<close>

definition makeRun :: "int \<Rightarrow> int \<Rightarrow> int \<Rightarrow> run option" where
  "makeRun st sd n =
     (if n < 1 \<or> sd < 1 then None
      else if n = 1 then Some \<lparr>start = st, stride = 1, count = 1\<rparr>
      else let span = (n - 1) * sd
           in if int64_max < span \<or> int64_max < st + span then None
              else Some \<lparr>start = st, stride = sd, count = n\<rparr>)"

definition makeRunThrough :: "int \<Rightarrow> int \<Rightarrow> int \<Rightarrow> run option" where
  "makeRunThrough st sd lst =
     (if sd < 1 \<or> lst < st then None
      else let distance = lst - st
           in if distance smod sd \<noteq> 0 then None
              else let n = distance sdiv sd + 1
                   in if int64_max < n then None else makeRun st sd n)"

subsection \<open>Extended Euclid\<close>

function egcd_loop :: "int \<Rightarrow> int \<Rightarrow> int \<Rightarrow> int \<Rightarrow> int \<times> int" where
  "egcd_loop x0 x1 r0 r1 =
     (if r1 = 0 then (r0, x0)
      else let q = r0 sdiv r1 in egcd_loop x1 (x0 - q * x1) r1 (r0 - q * r1))"
  by pat_completeness auto
termination
  by (relation "measure (\<lambda>(x0, x1, r0, r1). nat \<bar>r1\<bar>)") (auto simp: minus_sdiv_mult_eq_smod smod_abs_less)

declare egcd_loop.simps [simp del]

definition extendedGcd :: "int \<Rightarrow> int \<Rightarrow> int \<times> int" where
  "extendedGcd a b = egcd_loop 1 0 a b"

subsection \<open>Intersection\<close>

definition intersectRuns :: "run \<Rightarrow> run \<Rightarrow> run option \<times> bool" where
  "intersectRuns a b =
     (let lo = max (start a) (start b); hi = min (run_last a) (run_last b)
      in if hi < lo then (None, False)
      else let da = stride a; db = stride b; (g, bez) = extendedGcd da db;
               diff = start b - start a
      in if diff smod g \<noteq> 0 then (None, False)
      else let lcm128 = (da sdiv g) * db
      in if int64_max < lcm128 then
           (let m = db sdiv g;
                t0 = ((diff sdiv g) smod m * ((bez smod m + m) smod m)) smod m;
                t0 = (t0 smod m + m) smod m;
                x0 = start a + da * t0
            in if x0 < lo \<or> hi < x0 then (None, False) else (makeRun x0 1 1, False))
         else
           (let m = db sdiv g;
                t0 = ((diff sdiv g) smod m * ((bez smod m + m) smod m)) smod m;
                t0 = (t0 smod m + m) smod m;
                x0 = start a + da * t0;
                x0 = (if x0 < lo then x0 + ((lo - x0 + lcm128 - 1) sdiv lcm128) * lcm128 else x0)
            in if hi < x0 then (None, False)
            else let n = (hi - x0) sdiv lcm128 + 1
            in if n = 1 then (makeRun x0 1 1, False)
            else case makeRun x0 lcm128 n of
                   None \<Rightarrow> (None, True)
                 | Some r \<Rightarrow> (Some r, False)))"

subsection \<open>Difference\<close>

definition emit_run :: "run \<Rightarrow> run list \<times> nat \<Rightarrow> (run list \<times> nat) option" where
  "emit_run piece st =
     (let (out, budget) = st
      in if budget = 0 then None
         else case makeRun (start piece) (stride piece) (count piece) of
                None \<Rightarrow> None
              | Some checked \<Rightarrow> Some (out @ [checked], budget - 1))"

function subtract_classes ::
  "run \<Rightarrow> run \<Rightarrow> int \<Rightarrow> int \<Rightarrow> run list \<times> nat \<Rightarrow> (run list \<times> nat) option" where
  "subtract_classes r ct q j st =
     (if q \<le> j then Some st
      else case checkedMultiply j (stride r) of
             None \<Rightarrow> Some st
           | Some classOffset \<Rightarrow>
               (case checkedAdd (start ct) classOffset of
                  None \<Rightarrow> Some st
                | Some classStart \<Rightarrow>
                    if run_last r < classStart then Some st
                    else let n = min (count ct - 1) ((run_last r - classStart) sdiv stride ct + 1)
                         in if 1 \<le> n
                            then (case emit_run \<lparr>start = classStart, stride = stride ct, count = n\<rparr> st of
                                    None \<Rightarrow> None
                                  | Some st' \<Rightarrow> subtract_classes r ct q (j + 1) st')
                            else subtract_classes r ct q (j + 1) st))"
  by pat_completeness auto
termination
  by (relation "measure (\<lambda>(r, ct, q, j, st). nat (q - j))") auto

declare subtract_classes.simps [simp del]

definition subtractSubProgression :: "run \<Rightarrow> run \<Rightarrow> nat \<Rightarrow> (run list \<times> nat) option" where
  "subtractSubProgression r ct budget =
     (case (if start r < start ct
            then emit_run \<lparr>start = start r, stride = stride r,
                           count = (start ct - start r) sdiv stride r\<rparr> ([], budget)
            else Some ([], budget)) of
        None \<Rightarrow> None
      | Some st \<Rightarrow>
          (let q = stride ct sdiv stride r
           in case (if 1 < q \<and> 1 \<le> count ct then subtract_classes r ct q 1 st else Some st) of
                None \<Rightarrow> None
              | Some st \<Rightarrow>
                  (case checkedAdd (run_last ct) (stride r) of
                     None \<Rightarrow> Some st
                   | Some afterCut \<Rightarrow>
                       if afterCut \<le> run_last r
                       then emit_run \<lparr>start = afterCut, stride = stride r,
                                      count = (run_last r - afterCut) sdiv stride r + 1\<rparr> st
                       else Some st)))"

subsection \<open>Facts about a single run\<close>

lemma run_okD:
  assumes "run_ok r"
  shows "1 \<le> count r" "0 < count r" "1 \<le> stride r" "0 < stride r" "i64 (start r)" "i64 (count r)"
    "run_last r \<le> int64_max" "(count r - 1) * stride r \<le> int64_max" "start r \<le> run_last r"
    "i64 (run_last r)"
proof -
  show *: "1 \<le> count r" "0 < count r" "1 \<le> stride r" "0 < stride r" "i64 (start r)" "i64 (count r)"
    "run_last r \<le> int64_max" "(count r - 1) * stride r \<le> int64_max"
    using assms by (auto simp: run_ok_def)
  then show "start r \<le> run_last r" by (simp add: run_last_def)
  then show "i64 (run_last r)" using * by (simp add: i64_def)
qed

lemma mem_run_set: "run_ok r \<Longrightarrow>
  x \<in> run_set r \<longleftrightarrow> start r \<le> x \<and> x \<le> run_last r \<and> stride r dvd (x - start r)"
  by (simp add: run_set_def mem_aprog run_okD run_last_def)

lemma run_set_index: "run_ok r \<Longrightarrow>
  x \<in> run_set r \<longleftrightarrow> (\<exists>i. 0 \<le> i \<and> i < count r \<and> x = start r + i * stride r)"
  by (auto simp: run_set_def aprog_def)

lemma finite_run_set [simp]: "finite (run_set r)"
  by (simp add: run_set_def)

lemma card_run_set: "run_ok r \<Longrightarrow> card (run_set r) = nat (count r)"
  by (simp add: run_set_def card_aprog run_okD)

lemma start_in_run_set: "run_ok r \<Longrightarrow> start r \<in> run_set r"
  by (simp add: mem_run_set run_okD)

lemma last_in_run_set: "run_ok r \<Longrightarrow> run_last r \<in> run_set r"
  by (simp add: mem_run_set run_okD) (simp add: run_last_def)

lemma run_set_nonempty: "run_ok r \<Longrightarrow> run_set r \<noteq> {}"
  using start_in_run_set by blast

lemma run_set_i64: "run_ok r \<Longrightarrow> x \<in> run_set r \<Longrightarrow> i64 x"
  using i64_between [of "start r" "run_last r" x] by (auto simp: mem_run_set run_okD)

lemma singleton_run: "i64 v \<Longrightarrow> run_ok \<lparr>start = v, stride = 1, count = 1\<rparr>"
  "run_set \<lparr>start = v, stride = 1, count = 1\<rparr> = {v}"
  by (simp_all add: run_ok_def run_last_def run_set_def i64_def)
    (simp_all add: int64_defs)

text \<open>
  A run made by \<open>makeRun\<close> satisfies the invariant and denotes the progression asked for; the only
  refusals are an empty or descending progression and one that leaves the 64-bit range.
\<close>

lemma makeRun_Some:
  assumes "makeRun st sd n = Some r" "i64 st" "n \<le> int64_max"
  shows "run_ok r" "run_set r = aprog st sd n" "start r = st" "count r = n" "1 \<le> n" "1 \<le> sd"
    "run_last r = st + (n - 1) * sd" "n \<noteq> 1 \<Longrightarrow> stride r = sd"
proof -
  show n: "1 \<le> n" "1 \<le> sd"
    using assms by (auto simp: makeRun_def Let_def split: if_splits)
  have "run_ok r \<and> run_set r = aprog st sd n \<and> start r = st \<and> count r = n
    \<and> run_last r = st + (n - 1) * sd \<and> (n \<noteq> 1 \<longrightarrow> stride r = sd)"
  proof (cases "n = 1")
    case True
    then have "r = \<lparr>start = st, stride = 1, count = 1\<rparr>"
      using assms n by (auto simp: makeRun_def)
    then show ?thesis
      using True assms(2) singleton_run [of st] by (simp add: run_last_def)
  next
    case False
    then have r: "r = \<lparr>start = st, stride = sd, count = n\<rparr>"
      and sp: "(n - 1) * sd \<le> int64_max" "st + (n - 1) * sd \<le> int64_max"
      using assms n by (auto simp: makeRun_def Let_def split: if_splits)
    have "i64 n" using n assms(3) by (simp add: i64_def int64_min_def)
    then show ?thesis
      using n sp assms(2) False by (auto simp: r run_set_def run_last_def run_ok_def)
  qed
  then show "run_ok r" "run_set r = aprog st sd n" "start r = st" "count r = n"
    "run_last r = st + (n - 1) * sd" "n \<noteq> 1 \<Longrightarrow> stride r = sd"
    by auto
qed

lemma makeRun_exists:
  assumes "1 \<le> n" "1 \<le> sd" "(n - 1) * sd \<le> int64_max" "st + (n - 1) * sd \<le> int64_max"
  shows "\<exists>r. makeRun st sd n = Some r"
  using assms by (auto simp: makeRun_def Let_def)

lemma makeRun_of_ok: "run_ok r \<Longrightarrow> makeRun (start r) (stride r) (count r) = Some r"
  by (auto simp: makeRun_def run_ok_def run_last_def Let_def)

lemma makeRunThrough_Some:
  assumes "makeRunThrough st sd lst = Some r" "i64 st"
  shows "run_ok r" "start r = st" "run_last r = lst" "st \<le> lst" "sd dvd lst - st" "1 \<le> sd"
    "run_set r = aprog st sd ((lst - st) div sd + 1)"
    "x \<in> run_set r \<longleftrightarrow> st \<le> x \<and> x \<le> lst \<and> sd dvd x - st"
    "count r \<noteq> 1 \<Longrightarrow> stride r = sd"
proof -
  define n where "n = (lst - st) sdiv sd + 1"
  have c: "1 \<le> sd" "st \<le> lst" "(lst - st) smod sd = 0" "n \<le> int64_max" "makeRun st sd n = Some r"
    using assms by (auto simp: makeRunThrough_def Let_def n_def split: if_splits)
  then have d: "sd dvd lst - st" by (simp add: smod_eq_mod dvd_eq_mod_eq_0)
  have n: "n = (lst - st) div sd + 1" using c by (simp add: n_def sdiv_eq_div)
  then have l: "(n - 1) * sd = lst - st" using d by simp
  note m = makeRun_Some [OF c(5) assms(2) c(4)]
  show "run_ok r" "start r = st" "run_last r = lst" "st \<le> lst" "sd dvd lst - st" "1 \<le> sd"
    "run_set r = aprog st sd ((lst - st) div sd + 1)" "count r \<noteq> 1 \<Longrightarrow> stride r = sd"
    using m c d l n by auto
  show "x \<in> run_set r \<longleftrightarrow> st \<le> x \<and> x \<le> lst \<and> sd dvd x - st"
    using m(2,5) c(1) l by (simp add: mem_aprog)
qed

subsection \<open>Extended Euclid computes a Bezout coefficient\<close>

lemma egcd_loop_correct:
  assumes "egcd_loop x0 x1 r0 r1 = (g, x)" "0 < r0" "0 \<le> r1"
    "b dvd (a * x0 - r0)" "b dvd (a * x1 - r1)"
  shows "g = gcd r0 r1 \<and> b dvd (a * x - g)"
  using assms
proof (induction x0 x1 r0 r1 rule: egcd_loop.induct)
  case (1 x0 x1 r0 r1)
  show ?case
  proof (cases "r1 = 0")
    case True
    then have "g = r0" "x = x0" using "1.prems"(1) by (simp_all add: egcd_loop.simps [of x0 x1 r0 0])
    then show ?thesis using "1.prems" True by simp
  next
    case False
    let ?q = "r0 div r1"
    have q: "r0 sdiv r1 = ?q" using "1.prems" False by (simp add: sdiv_eq_div)
    have r: "r0 - ?q * r1 = r0 mod r1" by (simp add: minus_div_mult_eq_mod)
    have "egcd_loop x1 (x0 - ?q * x1) r1 (r0 - ?q * r1) = (g, x)"
      using "1.prems"(1) False by (simp add: egcd_loop.simps [of x0 x1 r0 r1] q Let_def)
    moreover have "0 < r1" using "1.prems" False by simp
    moreover have "0 \<le> r0 - ?q * r1" using \<open>0 < r1\<close> by (simp add: r)
    moreover have "b dvd (a * (x0 - ?q * x1) - (r0 - ?q * r1))"
    proof -
      have "a * (x0 - ?q * x1) - (r0 - ?q * r1) = (a * x0 - r0) - ?q * (a * x1 - r1)"
        by (simp add: algebra_simps)
      also have "b dvd \<dots>" by (rule dvd_diff [OF "1.prems"(4) dvd_mult [OF "1.prems"(5)]])
      finally show ?thesis .
    qed
    ultimately have "g = gcd r1 (r0 - ?q * r1) \<and> b dvd (a * x - g)"
      using "1.IH" [OF False q [symmetric]] "1.prems"(5) by blast
    then show ?thesis by (metis r gcd_red_int)
  qed
qed

lemma extendedGcd_correct:
  assumes "extendedGcd a b = (g, x)" "0 < a" "0 < b"
  shows "g = gcd a b" "b dvd (a * x - g)"
  using egcd_loop_correct [of 1 0 a b g x b a] assms by (auto simp: extendedGcd_def)

subsection \<open>The intersection of two runs is exact and never overflows\<close>

definition crt_offset :: "int \<Rightarrow> int \<Rightarrow> int \<Rightarrow> int \<Rightarrow> int" where
  "crt_offset diff g bez m =
     ((((diff sdiv g) smod m * ((bez smod m + m) smod m)) smod m) smod m + m) smod m"

lemma crt_offset_correct:
  assumes e: "extendedGcd da db = (g, bez)" and pos: "0 < da" "0 < db" and d: "g dvd diff"
  defines "t \<equiv> crt_offset diff g bez (db sdiv g)"
  shows "0 \<le> t" "db dvd (da * t - diff)" "da * t < lcm da db"
proof -
  note g = extendedGcd_correct [OF e pos]
  have gp: "0 < g" using g(1) pos by simp
  define m where "m = db div g"
  have m: "db sdiv g = m" using pos gp by (simp add: sdiv_eq_div m_def)
  have dbm: "db = g * m" using g(1) by (simp add: m_def)
  then have mp: "0 < m" using pos gp zero_less_mult_pos [of g m] by simp
  obtain k where k: "diff = g * k" using d by (auto simp: dvd_def)
  have dk: "diff sdiv g = k" using gp by (simp add: k mult_sdiv_cancel)
  have "t = ((k smod m * (bez mod m)) smod m) mod m"
    unfolding t_def crt_offset_def m dk by (simp add: smod_norm mp)
  also have "\<dots> = (k smod m * (bez mod m)) mod m" by (rule smod_mod)
  also have "\<dots> = ((k smod m) mod m * (bez mod m)) mod m" by (rule mod_mult_left_eq [symmetric])
  also have "\<dots> = (k * bez) mod m" by (simp only: smod_mod mod_mult_eq)
  finally have t: "t = (k * bez) mod m" .
  then show "0 \<le> t" using mp by simp
  have "t < m" using t mp by simp
  then have "da * t < da * m" using pos by simp
  also have "\<dots> = lcm da db"
    using pos g(1) by (simp add: lcm_altdef_int m_def div_mult_swap)
  finally show "da * t < lcm da db" .
  have "m dvd (t - k * bez)" by (simp add: t mod_eq_dvd_iff [symmetric])
  then have "db dvd g * (t - k * bez)" unfolding dbm by (rule mult_dvd_mono [OF dvd_refl])
  moreover have "g dvd da" using g(1) by simp
  then have "g * (t - k * bez) dvd da * (t - k * bez)" by (rule mult_dvd_mono) simp
  ultimately have "db dvd da * (t - k * bez)" by (rule dvd_trans)
  moreover have "db dvd k * (da * bez - g)" using g(2) by simp
  ultimately have "db dvd da * (t - k * bez) + k * (da * bez - g)" by (rule dvd_add)
  then show "db dvd (da * t - diff)" by (simp add: k algebra_simps)
qed

text \<open>The common members of two progressions are one residue class of the least common multiple.\<close>

lemma crt_members:
  assumes "da dvd (x0 - sa)" "db dvd (x0 - sb)"
  shows "da dvd (x - sa) \<and> db dvd (x - sb) \<longleftrightarrow> lcm da db dvd (x - (x0::int))"
proof -
  have "x - sa = (x - x0) + (x0 - sa)" "x - sb = (x - x0) + (x0 - sb)" by simp_all
  then show ?thesis using assms by (metis dvd_add_left_iff lcm_least_iff)
qed

lemma crt_incompatible:
  "g dvd da \<Longrightarrow> g dvd db \<Longrightarrow> da dvd (x - sa) \<Longrightarrow> db dvd (x - sb) \<Longrightarrow> g dvd (sb - (sa::int))"
proof -
  assume "g dvd da" "g dvd db" "da dvd (x - sa)" "db dvd (x - sb)"
  then have "g dvd (x - sa) - (x - sb)" by (meson dvd_diff dvd_trans)
  then show ?thesis by simp
qed

text \<open>The first member of a residue class at or after a bound.\<close>

lemma advance_into:
  assumes "0 < (l::int)" "x0 < lo"
  shows "lo \<le> x0 + ((lo - x0 + l - 1) sdiv l) * l"
    "x0 + ((lo - x0 + l - 1) sdiv l) * l < lo + l"
    "l dvd (x0 + ((lo - x0 + l - 1) sdiv l) * l - x0)"
proof -
  let ?e = "lo - x0 + l - 1"
  have "?e sdiv l = ?e div l" using assms by (simp add: sdiv_eq_div)
  then have d: "?e sdiv l * l = ?e - ?e mod l" by (simp add: minus_mod_eq_div_mult)
  have m: "0 \<le> ?e mod l" "?e mod l < l" using assms by simp_all
  show "lo \<le> x0 + (?e sdiv l) * l" using d m by linarith
  show "x0 + (?e sdiv l) * l < lo + l" using d m by linarith
  show "l dvd (x0 + (?e sdiv l) * l - x0)" by simp
qed

lemma residue_first:
  assumes "0 < (l::int)" "l dvd (x0 - y0)" "lo \<le> x0" "x0 < lo + l" "lo \<le> x" "l dvd (x - y0)"
  shows "x0 \<le> x"
proof (rule ccontr)
  assume "\<not> x0 \<le> x"
  have "l dvd (x0 - y0) - (x - y0)" using assms(2,6) by (rule dvd_diff)
  then have "l dvd (x0 - x)" by simp
  then have "l \<le> x0 - x" using \<open>\<not> x0 \<le> x\<close> by (intro zdvd_imp_le) auto
  then show False using assms by linarith
qed

lemma intersectRuns_exact:
  assumes a: "run_ok a" and b: "run_ok b"
  shows "case intersectRuns a b of
      (None, ov) \<Rightarrow> \<not> ov \<and> run_set a \<inter> run_set b = {}
    | (Some c, ov) \<Rightarrow> \<not> ov \<and> run_ok c \<and> run_set c = run_set a \<inter> run_set b
        \<and> (count c = 1 \<or> stride c = lcm (stride a) (stride b))"
proof -
  define lo where "lo = max (start a) (start b)"
  define hi where "hi = min (run_last a) (run_last b)"
  define l where "l = lcm (stride a) (stride b)"
  note A = run_okD [OF a] and B = run_okD [OF b]
  obtain g bez where e: "extendedGcd (stride a) (stride b) = (g, bez)" by (cases "extendedGcd (stride a) (stride b)")
  have g: "g = gcd (stride a) (stride b)" using extendedGcd_correct [OF e] A B by simp
  then have gp: "0 < g" using A by simp
  have mem: "x \<in> run_set a \<inter> run_set b \<longleftrightarrow>
      lo \<le> x \<and> x \<le> hi \<and> stride a dvd (x - start a) \<and> stride b dvd (x - start b)" for x
    by (auto simp: mem_run_set a b lo_def hi_def)
  have lcm128: "stride a sdiv g * stride b = l"
    using A B gp g by (simp add: sdiv_eq_div l_def lcm_altdef_int div_mult_swap mult.commute)
  define t where "t = crt_offset (start b - start a) g bez (stride b sdiv g)"
  define x0 where "x0 = start a + stride a * t"
  have lp: "0 < l" using A B by (simp add: l_def lcm_pos_int)
  show ?thesis
  proof (cases "hi < lo")
    case True
    then have "run_set a \<inter> run_set b = {}" using mem by fastforce
    then show ?thesis using True by (simp add: intersectRuns_def lo_def hi_def)
  next
    case range: False
    show ?thesis
    proof (cases "g dvd start b - start a")
      case False
      then have "(start b - start a) smod g \<noteq> 0" by (simp add: smod_eq_0_iff gp)
      then have "intersectRuns a b = (None, False)"
        using range by (simp add: intersectRuns_def Let_def lo_def hi_def e)
      moreover have "run_set a \<inter> run_set b = {}"
        using False mem crt_incompatible [of g "stride a" "stride b"] g by fastforce
      ultimately show ?thesis by simp
    next
      case compat: True
      note t = crt_offset_correct [OF e A(4) B(4) compat, folded t_def]
      have "x0 - start b = stride a * t - (start b - start a)" by (simp add: x0_def)
      then have x0b: "stride b dvd (x0 - start b)" using t(2) by (simp only:)
      have x0a: "stride a dvd (x0 - start a)" by (simp add: x0_def)
      have x0ge: "start a \<le> x0" using t(1) A(4) by (simp add: x0_def)
      have x0lt: "x0 < start a + l" using t(3) by (simp add: x0_def l_def)
      have mem': "x \<in> run_set a \<inter> run_set b \<longleftrightarrow> lo \<le> x \<and> x \<le> hi \<and> l dvd (x - x0)" for x
        unfolding mem l_def crt_members [OF x0a x0b, of x] ..
      have z: "(start b - start a) smod g = 0" by (simp add: smod_eq_0_iff gp compat)
      define x1 where "x1 = (if x0 < lo then x0 + ((lo - x0 + l - 1) sdiv l) * l else x0)"
      have eq: "intersectRuns a b =
        (if int64_max < l
         then (if x0 < lo \<or> hi < x0 then (None, False) else (makeRun x0 1 1, False))
         else if hi < x1 then (None, False)
         else let n = (hi - x1) sdiv l + 1
              in if n = 1 then (makeRun x1 1 1, False)
                 else case makeRun x1 l n of None \<Rightarrow> (None, True) | Some r \<Rightarrow> (Some r, False))"
        using range z
        unfolding intersectRuns_def Let_def e prod.case lcm128 x1_def x0_def t_def crt_offset_def
          lo_def hi_def
        by (simp only: if_False simp_thms)
      show ?thesis
      proof (cases "int64_max < l")
        case big: True
        have span: "x \<le> run_last a \<Longrightarrow> x < start a + l" for x
          using A(8) big by (simp add: run_last_def)
        have one: "x \<in> run_set a \<inter> run_set b \<longleftrightarrow> x = x0 \<and> lo \<le> x0 \<and> x0 \<le> hi" for x
        proof
          assume "x \<in> run_set a \<inter> run_set b"
          then have x: "lo \<le> x" "x \<le> hi" "l dvd (x - x0)" using mem' [of x] by auto
          then have "start a \<le> x" "x < start a + l" using span [of x] by (simp_all add: lo_def hi_def)
          then have "\<bar>x - x0\<bar> < l" using x0ge x0lt by linarith
          then have "x - x0 = 0" using x(3) lp dvd_imp_le_int [of "x - x0" l] by fastforce
          then show "x = x0 \<and> lo \<le> x0 \<and> x0 \<le> hi" using x by simp
        next
          assume "x = x0 \<and> lo \<le> x0 \<and> x0 \<le> hi"
          then show "x \<in> run_set a \<inter> run_set b" using mem' [of x] by auto
        qed
        show ?thesis
        proof (cases "x0 < lo \<or> hi < x0")
          case True
          then show ?thesis using one big by (auto simp: eq)
        next
          case False
          then have "x0 \<le> run_last a" by (auto simp: hi_def)
          then have "i64 x0" using A(5,10) x0ge i64_between by blast
          moreover have "run_set a \<inter> run_set b = {x0}" using one False by auto
          ultimately show ?thesis using False big by (simp add: eq makeRun_def singleton_run)
        qed
      next
        case small: False
        have x1: "lo \<le> x1" "x1 < lo + l" "l dvd (x1 - x0)"
          using advance_into [OF lp, of x0 lo] x0lt by (auto simp: x1_def lo_def)
        have mem1: "x \<in> run_set a \<inter> run_set b \<longleftrightarrow> x1 \<le> x \<and> x \<le> hi \<and> l dvd (x - x1)" for x
        proof -
          have "l dvd (x - x0) \<longleftrightarrow> l dvd (x - x1)"
            using dvd_diff_shift [OF x1(3)] by simp
          then show ?thesis
            using mem' [of x] x1 residue_first [OF lp x1(3) x1(1,2), of x] by auto
        qed
        show ?thesis
        proof (cases "hi < x1")
          case True
          then have "run_set a \<inter> run_set b = {}" using mem1 by fastforce
          then show ?thesis using True small by (simp add: eq)
        next
          case False
          have lohi: "start a \<le> lo" "hi \<le> run_last a" by (simp_all add: lo_def hi_def)
          have hx: "0 \<le> hi - x1" and hx2: "hi - x1 \<le> run_last a - start a"
            using False x1 lohi by linarith+
          have "start a \<le> x1" "x1 \<le> run_last a" using False x1 by (auto simp: lo_def hi_def)
          then have i1: "i64 x1" using A(5,10) i64_between by blast
          define n where "n = (hi - x1) div l + 1"
          have n: "(hi - x1) sdiv l + 1 = n" using hx lp by (simp add: n_def sdiv_eq_div)
          have nl: "(n - 1) * l \<le> hi - x1" "hi - x1 < (n - 1) * l + l"
            using lp by (simp_all add: n_def minus_mod_eq_div_mult [symmetric])
          have n1: "1 \<le> n" using hx lp by (simp add: n_def pos_imp_zdiv_nonneg_iff)
          have "stride a \<le> l" using A B lp by (auto simp: l_def intro: zdvd_imp_le)
          then have "(count a - 1) * stride a \<le> (count a - 1) * l"
            using A(1) by (intro mult_left_mono) auto
          moreover have "(n - 1) * l \<le> (count a - 1) * stride a"
            using nl(1) hx2 by (simp add: run_last_def)
          ultimately have "(n - 1) * l \<le> (count a - 1) * l" by linarith
          then have "n - 1 \<le> count a - 1" using lp by (simp only: mult_le_cancel_right_pos)
          then have nc: "n \<le> count a" by simp
          have ap: "run_set a \<inter> run_set b = aprog x1 l n"
          proof (rule set_eqI)
            fix x
            have "x \<le> hi \<longleftrightarrow> x \<le> x1 + (n - 1) * l" if "x1 \<le> x" "l dvd (x - x1)"
            proof -
              obtain k where k: "x - x1 = k * l" using \<open>l dvd (x - x1)\<close> by (auto simp: dvd_def mult.commute)
              have "k * l \<le> hi - x1 \<longleftrightarrow> k \<le> n - 1"
              proof (cases "k \<le> n - 1")
                case True
                then have "k * l \<le> (n - 1) * l" using lp by (intro mult_right_mono) auto
                then show ?thesis using True nl by linarith
              next
                case False
                then have "n * l \<le> k * l" using lp by (intro mult_right_mono) auto
                moreover have "hi - x1 < n * l" using nl(2) by (simp add: left_diff_distrib)
                ultimately show ?thesis using False by linarith
              qed
              moreover have "k * l \<le> (n - 1) * l \<longleftrightarrow> k \<le> n - 1"
                using lp by (rule mult_le_cancel_right_pos)
              moreover have "x \<le> hi \<longleftrightarrow> k * l \<le> hi - x1"
                "x \<le> x1 + (n - 1) * l \<longleftrightarrow> k * l \<le> (n - 1) * l"
                using k by linarith+
              ultimately show ?thesis by blast
            qed
            then show "x \<in> run_set a \<inter> run_set b \<longleftrightarrow> x \<in> aprog x1 l n"
              using n1 lp mem_aprog [of l n x x1] mem1 [of x] by auto
          qed
          show ?thesis
          proof (cases "n = 1")
            case True
            then show ?thesis
              using False small ap i1 n by (simp add: eq makeRun_def singleton_run)
          next
            case ne: False
            have "(n - 1) * l \<le> int64_max" "x1 + (n - 1) * l \<le> int64_max"
              using nl(1) hx2 lohi A(7,8) by (simp_all add: run_last_def)
            then obtain c where c: "makeRun x1 l n = Some c"
              using makeRun_exists [of n l x1] n1 lp by auto
            have "n \<le> int64_max" using nc A by (simp add: i64_def)
            note m = makeRun_Some [OF c i1 this]
            show ?thesis
              using False small ne c n m ap by (simp add: eq l_def [symmetric])
          qed
        qed
      qed
    qed
  qed
qed

subsection \<open>The difference of a run and a sub-progression is exact\<close>

definition runs_set :: "run list \<Rightarrow> int set" where
  "runs_set rs = (\<Union>r\<in>set rs. run_set r)"

lemma runs_set_simps [simp]:
  "runs_set [] = {}" "runs_set (r # rs) = run_set r \<union> runs_set rs"
  "runs_set (rs @ ss) = runs_set rs \<union> runs_set ss" "runs_set (rev rs) = runs_set rs"
  by (auto simp: runs_set_def)

definition sub_progression :: "run \<Rightarrow> run \<Rightarrow> bool" where
  "sub_progression ct r \<longleftrightarrow> start r \<le> start ct \<and> run_last ct \<le> run_last r
     \<and> stride r dvd (start ct - start r) \<and> (count ct = 1 \<or> stride r dvd stride ct)"

lemma emit_run_Some:
  assumes "emit_run \<lparr>start = st, stride = sd, count = n\<rparr> (out, b) = Some (out', b')"
    "i64 st" "n \<le> int64_max"
  shows "\<exists>c. out' = out @ [c] \<and> run_ok c \<and> run_set c = aprog st sd n \<and> b = Suc b'"
  using assms makeRun_Some [of st sd n]
  by (auto simp: emit_run_def split: if_splits option.splits)

lemma subtract_classes_Some:
  assumes "subtract_classes r ct q j (out, b) = Some (out', b')"
    and ok: "run_ok r" "run_ok ct" "\<forall>c \<in> set out. run_ok c"
    and sub: "sub_progression ct r" "2 \<le> count ct" "q * stride r = stride ct" "1 \<le> j"
  shows "(\<forall>c \<in> set out'. run_ok c) \<and> b' \<le> b \<and>
    runs_set out' = runs_set out \<union> (\<Union>k\<in>{j..<q}. aprog (start ct + k * stride r) (stride ct) (count ct - 1))"
  using assms
proof (induction r ct q j "(out, b)" arbitrary: out b rule: subtract_classes.induct)
  case (1 r ct q j out b)
  note R = run_okD [OF "1.prems"(2)] and C = run_okD [OF "1.prems"(3)]
  show ?case
  proof (cases "q \<le> j")
    case True
    then show ?thesis using "1.prems"(1,4) by (simp add: subtract_classes.simps [of r ct q j])
  next
    case False
    define cs where "cs = start ct + j * stride r"
    define m where "m = count ct - 1"
    have "(j + 1) * stride r \<le> q * stride r" using False R(3) by (intro mult_right_mono) auto
    then have js: "j * stride r \<le> stride ct - stride r" using "1.prems"(7) by (simp add: distrib_right)
    have j0: "0 \<le> j * stride r" using "1.prems"(8) R(3) by simp
    have m1: "1 \<le> m" using "1.prems"(6) by (simp add: m_def)
    have lastc: "run_last ct = start ct + m * stride ct" by (simp add: run_last_def m_def)
    have mc: "m * stride ct = (m - 1) * stride ct + stride ct" by (simp add: left_diff_distrib)
    have m0: "0 \<le> (m - 1) * stride ct" using m1 C(3) by simp
    have csl: "cs + (m - 1) * stride ct \<le> run_last ct - stride r"
      using js lastc mc by (simp add: cs_def)
    have lr: "run_last ct \<le> run_last r" using "1.prems"(5) by (simp add: sub_progression_def)
    have i1: "i64 (j * stride r)"
      using j0 js R(3) C(8) mc m0 int64_max_pos(3) unfolding i64_def m_def
      by (intro conjI) linarith+
    have i2: "i64 cs" using j0 csl m0 R(3) C(5,10) i64_between [of "start ct" "run_last ct" cs]
      by (simp add: cs_def)
    have nl: "\<not> run_last r < cs" using csl m0 lr R(3) by linarith
    have dc: "0 \<le> run_last r - cs" "(m - 1) * stride ct \<le> run_last r - cs"
      using nl csl lr R(3) by linarith+
    have "m - 1 = (m - 1) * stride ct div stride ct" using C(3) by simp
    also have "\<dots> \<le> (run_last r - cs) div stride ct" using dc C(3) by (intro zdiv_mono1) auto
    finally have n: "min (count ct - 1) ((run_last r - cs) sdiv stride ct + 1) = m"
      using dc C(3) by (simp add: m_def sdiv_eq_div)
    obtain out1 b1 where e: "emit_run \<lparr>start = cs, stride = stride ct, count = m\<rparr> (out, b) = Some (out1, b1)"
      and rest: "subtract_classes r ct q (j + 1) (out1, b1) = Some (out', b')"
      using "1.prems"(1) False i1 i2 nl n m1
      by (auto simp: subtract_classes.simps [of r ct q j] cs_def checkedAdd_def checkedMultiply_def
          Let_def split: option.splits)
    have "m \<le> int64_max" using C(6) by (simp add: m_def i64_def)
    from emit_run_Some [OF e i2 this] obtain c where
      c: "out1 = out @ [c]" "run_ok c" "run_set c = aprog cs (stride ct) m" "b = Suc b1" by blast
    have IH: "(\<forall>c \<in> set out'. run_ok c) \<and> b' \<le> b1 \<and>
      runs_set out' = runs_set out1 \<union>
        (\<Union>k\<in>{j + 1..<q}. aprog (start ct + k * stride r) (stride ct) (count ct - 1))"
      by (rule "1.hyps"(1) [OF False _ _ _ _ _ _ rest])
        (use "1.prems" i1 i2 nl n m1 c e in
          \<open>auto simp: cs_def checkedAdd_def checkedMultiply_def\<close>)
    have "{j..<q} = insert j {j + 1..<q}" using False by auto
    then show ?thesis using IH c by (auto simp: cs_def m_def)
  qed
qed

text \<open>The part of a run before a member and the part after one are progressions of its stride.\<close>

lemma aprog_before:
  assumes "run_ok r" "start r < v" "stride r dvd (v - start r)" "v \<le> run_last r"
  shows "aprog (start r) (stride r) ((v - start r) sdiv stride r) =
      {x. start r \<le> x \<and> x < v \<and> stride r dvd (x - start r)}"
    "(v - start r) sdiv stride r \<le> int64_max"
proof -
  note R = run_okD [OF assms(1)]
  obtain k where k: "v - start r = k * stride r" using assms(3) by (auto simp: dvd_def mult.commute)
  then have kk: "(v - start r) sdiv stride r = k"
    using R(4) by (simp add: mult_sdiv_cancel_right)
  have k0: "0 < k" using k assms(2) R(4) zero_less_mult_pos2 [of k "stride r"] by simp
  have "x \<le> start r + (k - 1) * stride r \<longleftrightarrow> x < v" if "stride r dvd (x - start r)" for x
  proof -
    obtain i where i: "x - start r = i * stride r"
      using \<open>stride r dvd (x - start r)\<close> by (auto simp: dvd_def mult.commute)
    have "x < v \<longleftrightarrow> i * stride r < k * stride r" using i k by linarith
    moreover have "x \<le> start r + (k - 1) * stride r \<longleftrightarrow> i * stride r \<le> (k - 1) * stride r"
      using i by linarith
    ultimately show ?thesis using R(4) by simp
  qed
  then show "aprog (start r) (stride r) ((v - start r) sdiv stride r) =
      {x. start r \<le> x \<and> x < v \<and> stride r dvd (x - start r)}"
    using R(4) k0 by (auto simp: kk mem_aprog)
  have "k * stride r \<le> (count r - 1) * stride r" using k assms(4) by (simp add: run_last_def)
  then have "k \<le> count r - 1" using R(4) by simp
  then show "(v - start r) sdiv stride r \<le> int64_max" using R(6) by (simp add: kk i64_def)
qed

lemma aprog_after:
  assumes "run_ok r" "start r \<le> v" "stride r dvd (v - start r)" "v \<le> run_last r"
  shows "aprog v (stride r) ((run_last r - v) sdiv stride r + 1) =
      {x. v \<le> x \<and> x \<le> run_last r \<and> stride r dvd (x - start r)}"
    "(run_last r - v) sdiv stride r + 1 \<le> int64_max"
proof -
  note R = run_okD [OF assms(1)]
  have "stride r dvd run_last r - start r" by (simp add: run_last_def)
  then have "stride r dvd (run_last r - start r) - (v - start r)" using assms(3) by (rule dvd_diff)
  then obtain k where k: "run_last r - v = k * stride r" by (auto simp: dvd_def mult.commute)
  then have kk: "(run_last r - v) sdiv stride r = k"
    using R(4) by (simp add: mult_sdiv_cancel_right)
  have "0 \<le> k * stride r" using k assms(4) by linarith
  then have k0: "0 \<le> k" using R(4) by (simp add: zero_le_mult_iff)
  have d: "stride r dvd (x - v) \<longleftrightarrow> stride r dvd (x - start r)" for x
    using assms(3) by (rule dvd_diff_shift)
  show "aprog v (stride r) ((run_last r - v) sdiv stride r + 1) =
      {x. v \<le> x \<and> x \<le> run_last r \<and> stride r dvd (x - start r)}"
  proof (rule set_eqI)
    fix x
    have "v + k * stride r = run_last r" using k by linarith
    then show "x \<in> aprog v (stride r) ((run_last r - v) sdiv stride r + 1) \<longleftrightarrow>
      x \<in> {x. v \<le> x \<and> x \<le> run_last r \<and> stride r dvd (x - start r)}"
      using k0 R(4) mem_aprog [of "stride r" "k + 1" x v] d [of x] by (simp add: kk)
  qed
  have "k * stride r \<le> (count r - 1) * stride r" using k assms(2) by (simp add: run_last_def)
  then have "k \<le> count r - 1" using R(4) by simp
  then show "(run_last r - v) sdiv stride r + 1 \<le> int64_max" using R(6) by (simp add: kk i64_def)
qed

text \<open>Between its first and last member, a progression splits into its residue classes.\<close>

lemma classes_partition:
  fixes s d q n :: int
  assumes "0 < d" "1 \<le> q" "1 \<le> n"
  shows "(\<Union>k\<in>{1..<q}. aprog (s + k * d) (q * d) (n - 1)) =
    {x. s \<le> x \<and> x \<le> s + (n - 1) * (q * d) \<and> d dvd (x - s)} - aprog s (q * d) n"
    (is "?U = ?S - ?C")
proof (rule set_eqI)
  fix x
  have qd: "0 < q * d" using assms by simp
  show "x \<in> ?U \<longleftrightarrow> x \<in> ?S - ?C"
  proof (cases "d dvd (x - s)")
    case False
    have "x \<notin> ?U"
    proof
      assume "x \<in> ?U"
      then obtain k i where "x = s + k * d + i * (q * d)" by (auto simp: aprog_def)
      then have "x - s = d * (k + i * q)" by (simp add: algebra_simps)
      then show False using False by simp
    qed
    then show ?thesis using False by simp
  next
    case True
    then obtain i where i: "x = s + i * d" by (auto simp: dvd_def algebra_simps)
    define j k where "j = i div q" and "k = i mod q"
    have ij: "i = j * q + k" "0 \<le> k" "k < q" using assms by (simp_all add: j_def k_def)
    have C: "x \<in> ?C \<longleftrightarrow> k = 0 \<and> 0 \<le> j \<and> j < n"
    proof
      assume "x \<in> ?C"
      then obtain m where m: "i * d = m * (q * d)" "0 \<le> m" "m < n" by (auto simp: aprog_def i)
      then have "i = m * q" using assms(1) by (simp add: algebra_simps)
      then show "k = 0 \<and> 0 \<le> j \<and> j < n" using m assms by (simp add: j_def k_def)
    next
      assume "k = 0 \<and> 0 \<le> j \<and> j < n"
      then show "x \<in> ?C" using ij by (auto simp: aprog_def i intro!: exI [of _ j])
    qed
    have U: "x \<in> ?U \<longleftrightarrow> k \<noteq> 0 \<and> 0 \<le> j \<and> j < n - 1"
    proof
      assume "x \<in> ?U"
      then obtain l m where m: "i * d = l * d + m * (q * d)" "0 \<le> m" "m < n - 1" "1 \<le> l" "l < q"
        by (auto simp: aprog_def i)
      then have "i * d = (l + m * q) * d" by (simp add: algebra_simps)
      then have "i = l + m * q" using assms(1) by simp
      then show "k \<noteq> 0 \<and> 0 \<le> j \<and> j < n - 1" using m by (simp add: j_def k_def)
    next
      assume "k \<noteq> 0 \<and> 0 \<le> j \<and> j < n - 1"
      then show "x \<in> ?U"
        using ij by (auto simp: aprog_def i algebra_simps intro!: bexI [of _ k] exI [of _ j])
    qed
    have "s \<le> x \<longleftrightarrow> 0 \<le> j"
    proof -
      have "s \<le> x \<longleftrightarrow> 0 \<le> i" using assms(1) by (simp add: i zero_le_mult_iff)
      then show ?thesis using assms(2) by (simp add: j_def pos_imp_zdiv_nonneg_iff)
    qed
    moreover have "x \<le> s + (n - 1) * (q * d) \<longleftrightarrow> j < n - 1 \<or> j = n - 1 \<and> k = 0"
    proof -
      have "x \<le> s + (n - 1) * (q * d) \<longleftrightarrow> i * d \<le> (n - 1) * q * d" by (simp add: i mult.assoc)
      also have "\<dots> \<longleftrightarrow> i \<le> (n - 1) * q" using assms(1) by (rule mult_le_cancel_right_pos)
      also have "\<dots> \<longleftrightarrow> j < n - 1 \<or> j = n - 1 \<and> k = 0"
      proof (cases "j < n - 1")
        case True
        then have "(j + 1) * q \<le> (n - 1) * q" using assms(2) by (intro mult_right_mono) auto
        then have "i \<le> (n - 1) * q" using ij by (simp add: distrib_right)
        then show ?thesis using True by blast
      next
        case False
        then have "(n - 1) * q \<le> j * q" using assms(2) by (intro mult_right_mono) auto
        moreover have "(n - 1) * q < j * q" if "j \<noteq> n - 1"
          using that False assms(2) by (intro mult_strict_right_mono) auto
        ultimately show ?thesis using ij False by (cases "j = n - 1") fastforce+
      qed
      finally show ?thesis .
    qed
    ultimately show ?thesis using True C U by auto
  qed
qed

lemma subtract_exact:
  assumes "subtractSubProgression r ct b = Some (out, b')"
    and ok: "run_ok r" "run_ok ct" and sub: "sub_progression ct r"
  shows "(\<forall>c \<in> set out. run_ok c) \<and> b' \<le> b \<and> runs_set out = run_set r - run_set ct"
proof -
  note R = run_okD [OF ok(1)] and C = run_okD [OF ok(2)]
  define q where "q = stride ct sdiv stride r"
  define m where "m = count ct - 1"
  define hd_set where "hd_set = {x. start r \<le> x \<and> x < start ct \<and> stride r dvd (x - start r)}"
  define tl_set where "tl_set = {x. run_last ct < x \<and> x \<le> run_last r \<and> stride r dvd (x - start r)}"
  define mid_set where "mid_set = (\<Union>k\<in>{1..<q}. aprog (start ct + k * stride r) (stride ct) m)"
  have sb: "start r \<le> start ct" "run_last ct \<le> run_last r" "stride r dvd (start ct - start r)"
    "count ct = 1 \<or> stride r dvd stride ct"
    using sub by (auto simp: sub_progression_def)
  have ct_r: "start ct \<le> run_last r" "start r \<le> run_last ct" using sb C(9) by linarith+
  obtain out1 b1 where h: "runs_set out1 = hd_set" "\<forall>c \<in> set out1. run_ok c" "b1 \<le> b"
    and s1: "(if start r < start ct
            then emit_run \<lparr>start = start r, stride = stride r,
                           count = (start ct - start r) sdiv stride r\<rparr> ([], b)
            else Some ([], b)) = Some (out1, b1)"
  proof (cases "start r < start ct")
    case True
    then obtain out1 b1 where e: "emit_run \<lparr>start = start r, stride = stride r,
        count = (start ct - start r) sdiv stride r\<rparr> ([], b) = Some (out1, b1)"
      using assms(1) by (auto simp: subtractSubProgression_def split: option.splits)
    note ap = aprog_before [OF ok(1) True sb(3) ct_r(1)]
    from emit_run_Some [OF e R(5) ap(2)] obtain c where
      "out1 = [c]" "run_ok c" "run_set c = hd_set" "b = Suc b1"
      using ap(1) by (auto simp: hd_set_def)
    then show ?thesis using e True by (intro that [of out1 b1]) simp_all
  next
    case False
    then show ?thesis by (intro that [of "[]" b]) (auto simp: hd_set_def)
  qed
  obtain out2 b2 where c: "runs_set out2 = hd_set \<union> mid_set" "\<forall>c \<in> set out2. run_ok c" "b2 \<le> b"
    and s2: "(if 1 < q \<and> 1 \<le> count ct then subtract_classes r ct q 1 (out1, b1)
          else Some (out1, b1)) = Some (out2, b2)"
  proof (cases "1 < q \<and> 1 \<le> count ct")
    case True
    have "count ct \<noteq> 1"
    proof
      assume "count ct = 1"
      then have "stride ct = 1" using ok(2) by (simp add: run_ok_def)
      then have "q = 1 div stride r" using R(4) by (simp add: q_def sdiv_eq_div)
      then show False using True R(3) by (cases "stride r = 1") (simp_all add: div_pos_pos_trivial)
    qed
    then have c2: "2 \<le> count ct" and "stride r dvd stride ct" using C(1) sb(4) by auto
    then have qs: "q * stride r = stride ct" using R C by (simp add: q_def sdiv_eq_div)
    obtain out2 b2 where e: "subtract_classes r ct q 1 (out1, b1) = Some (out2, b2)"
      using assms(1) s1 True by (auto simp: subtractSubProgression_def q_def Let_def split: option.splits)
    from subtract_classes_Some [OF e ok h(2) sub c2 qs] h show ?thesis
      by (intro that [of out2 b2]) (use e True in \<open>auto simp: mid_set_def m_def\<close>)
  next
    case False
    then have "mid_set = {}" using C(1) by (simp add: mid_set_def)
    then show ?thesis using h False by (intro that [of out1 b1]) auto
  qed
  have tail: "runs_set out = hd_set \<union> mid_set \<union> tl_set \<and> (\<forall>c \<in> set out. run_ok c) \<and> b' \<le> b"
  proof (cases "run_last ct < run_last r")
    case True
    have d: "stride r dvd (run_last ct - start r)"
    proof -
      have "stride r dvd (run_last ct - start ct)" using sb(4) by (auto simp: run_last_def)
      then show ?thesis using dvd_diff_shift [OF sb(3)] by blast
    qed
    have next_le: "x \<in> run_set r \<Longrightarrow> run_last ct < x \<Longrightarrow> run_last ct + stride r \<le> x" for x
    proof -
      assume "x \<in> run_set r" "run_last ct < x"
      then have "stride r dvd (x - start r)" by (simp add: mem_run_set ok)
      then have "stride r dvd (x - start r) - (run_last ct - start r)" using d by (rule dvd_diff)
      then have "stride r dvd (x - run_last ct)" by simp
      then show "run_last ct + stride r \<le> x" using \<open>run_last ct < x\<close> zdvd_imp_le by fastforce
    qed
    let ?v = "run_last ct + stride r"
    have v: "?v \<le> run_last r" using next_le [OF last_in_run_set [OF ok(1)] True] .
    have "i64 ?v" using v R(3,10) C(10) i64_between [of "run_last ct" "run_last r" ?v] by simp
    moreover have dv: "stride r dvd (?v - start r)" using d by (metis add_diff_eq diff_add_eq dvd_add_triv_right_iff)
    have v0: "start r \<le> ?v" using ct_r R(3) by linarith
    note ap = aprog_after [OF ok(1) v0 dv v]
    have tl: "{x. ?v \<le> x \<and> x \<le> run_last r \<and> stride r dvd (x - start r)} = tl_set"
      using next_le R(3) ct_r by (auto simp: tl_set_def mem_run_set ok)
    obtain "emit_run \<lparr>start = ?v, stride = stride r,
          count = (run_last r - ?v) sdiv stride r + 1\<rparr> (out2, b2) = Some (out, b')"
      using assms(1) s1 s2 \<open>i64 ?v\<close> v
      by (simp add: subtractSubProgression_def q_def [symmetric] checkedAdd_def Let_def)
    from emit_run_Some [OF this \<open>i64 ?v\<close> ap(2)] show ?thesis
      using c ap(1) tl by auto
  next
    case False
    then have eq: "run_last ct = run_last r" using sb(2) by simp
    then have "\<not> run_last ct + stride r \<le> run_last r" using R(3) by simp
    then have "out = out2 \<and> b' = b2"
      using assms(1) s1 s2
      by (auto simp: subtractSubProgression_def q_def [symmetric] checkedAdd_def Let_def split: if_splits)
    moreover have "tl_set = {}" using eq by (auto simp: tl_set_def)
    ultimately show ?thesis using c by auto
  qed
  moreover have "hd_set \<union> mid_set \<union> tl_set = run_set r - run_set ct"
  proof -
    define body where "body = {x. start ct \<le> x \<and> x \<le> run_last ct \<and> stride r dvd (x - start ct)}"
    have mb: "mid_set = body - run_set ct"
    proof (cases "count ct = 1")
      case True
      then have "mid_set = {}" by (auto simp: mid_set_def m_def)
      moreover have "body = {start ct}" using True by (auto simp: body_def run_last_def)
      ultimately show ?thesis using start_in_run_set [OF ok(2)] by auto
    next
      case False
      then have dv: "stride r dvd stride ct" using sb(4) by simp
      have qs: "q * stride r = stride ct" using R C dv by (simp add: q_def sdiv_eq_div)
      then have "0 < q * stride r" using C(4) by (simp only:)
      then have "1 \<le> q" using R(4) zero_less_mult_pos2 [of q "stride r"] by simp
      from classes_partition [OF R(4) this C(1), of "start ct"] show ?thesis
        by (simp add: qs mid_set_def m_def body_def run_last_def run_set_def)
    qed
    have rs: "run_set r = hd_set \<union> body \<union> tl_set"
    proof (rule set_eqI)
      fix x
      have "stride r dvd (x - start ct) \<longleftrightarrow> stride r dvd (x - start r)"
        using sb(3) by (rule dvd_diff_shift)
      moreover have "start r \<le> x \<and> x \<le> run_last r \<longleftrightarrow>
        start r \<le> x \<and> x < start ct \<or> start ct \<le> x \<and> x \<le> run_last ct \<or>
        run_last ct < x \<and> x \<le> run_last r"
        using sb(1,2) C(9) by linarith
      ultimately show "x \<in> run_set r \<longleftrightarrow> x \<in> hd_set \<union> body \<union> tl_set"
        using mem_run_set [OF ok(1), of x]
        unfolding hd_set_def body_def tl_set_def Un_iff mem_Collect_eq by blast
    qed
    have "run_set ct \<inter> hd_set = {}" "run_set ct \<inter> tl_set = {}"
      by (auto simp: mem_run_set ok hd_set_def tl_set_def)
    then show ?thesis unfolding mb rs by blast
  qed
  ultimately show ?thesis by simp
qed

end
