(* ===== verification/RunSet.thy ===== *)
theory RunSet
  imports Runs FlatSet
begin

text \<open>
  The class \<^verbatim>\<open>RunSet\<close> of \<^verbatim>\<open>lib/Semantics/RunSet.cpp\<close>: a finite set of 64-bit integers held as
  a list of runs, sorted by start and pairwise disjoint. Construction from values, the exact
  queries, insertion with overlap resolution and compaction. Every operation either returns a
  list that satisfies the representation invariant \<open>rs_ok\<close> and denotes exactly the documented
  set, or it is refused (\<open>None\<close>).
\<close>

type_synonym run_set = "run list"

definition kOpBudget :: nat where
  "kOpBudget = 65536"

subsection \<open>Construction and queries\<close>

definition rs_single :: "int \<Rightarrow> run_set" where
  "rs_single v = [\<lparr>start = v, stride = 1, count = 1\<rparr>]"

definition extend_run :: "run \<Rightarrow> run option" where
  "extend_run cur =
     (case checkedAdd (count cur) 1 of
        None \<Rightarrow> None
      | Some nextCount \<Rightarrow> makeRun (start cur) (stride cur) nextCount)"

fun fromValues_loop :: "run \<Rightarrow> int list \<Rightarrow> run list" where
  "fromValues_loop cur [] = [cur]"
| "fromValues_loop cur (v # vs) =
     (let gap = v - run_last cur
      in if count cur = 1 \<and> gap \<le> int64_max
         then fromValues_loop (cur\<lparr>stride := gap, count := 2\<rparr>) vs
         else if 1 < count cur \<and> gap = stride cur
         then (case extend_run cur of
                 Some r \<Rightarrow> fromValues_loop r vs
               | None \<Rightarrow> cur # fromValues_loop \<lparr>start = v, stride = 1, count = 1\<rparr> vs)
         else cur # fromValues_loop \<lparr>start = v, stride = 1, count = 1\<rparr> vs)"

definition fromValues :: "int list \<Rightarrow> run_set" where
  "fromValues values =
     (case values of
        [] \<Rightarrow> [\<lparr>start = 0, stride = 1, count = 1\<rparr>]
      | v # vs \<Rightarrow> fromValues_loop \<lparr>start = v, stride = 1, count = 1\<rparr> vs)"

fun rs_count_loop :: "int \<Rightarrow> run_set \<Rightarrow> int option" where
  "rs_count_loop acc [] = Some acc"
| "rs_count_loop acc (r # rs) =
     (case checkedAdd acc (count r) of None \<Rightarrow> None | Some t \<Rightarrow> rs_count_loop t rs)"

definition rs_count :: "run_set \<Rightarrow> int option" where
  "rs_count rs = rs_count_loop 0 rs"

definition rs_min :: "run_set \<Rightarrow> int" where
  "rs_min rs = start (hd rs)"

definition rs_max :: "run_set \<Rightarrow> int" where
  "rs_max rs = fold (\<lambda>r m. max m (run_last r)) rs (run_last (hd rs))"

definition rs_contains :: "run_set \<Rightarrow> int \<Rightarrow> bool" where
  "rs_contains rs v =
     list_ex (\<lambda>r. start r \<le> v \<and> v \<le> run_last r \<and> (v - start r) smod stride r = 0) rs"

fun covered_count :: "run \<Rightarrow> int \<Rightarrow> run_set \<Rightarrow> int option" where
  "covered_count r covered [] = Some covered"
| "covered_count r covered (s # ss) =
     (case intersectRuns r s of
        (_, True) \<Rightarrow> None
      | (None, False) \<Rightarrow> covered_count r covered ss
      | (Some isect, False) \<Rightarrow>
          (case checkedAdd covered (count isect) of
             None \<Rightarrow> None
           | Some c \<Rightarrow> covered_count r c ss))"

definition rs_isSubsetOf :: "run_set \<Rightarrow> run_set \<Rightarrow> bool" where
  "rs_isSubsetOf rs other =
     list_all (\<lambda>r. case covered_count r 0 other of
                     None \<Rightarrow> False
                   | Some covered \<Rightarrow> covered = count r) rs"

definition rs_equals :: "run_set \<Rightarrow> run_set \<Rightarrow> bool" where
  "rs_equals rs other =
     (case (rs_count rs, rs_count other) of
        (Some ca, Some cb) \<Rightarrow>
          if ca \<noteq> cb then False else rs_isSubsetOf rs other \<and> rs_isSubsetOf other rs
      | _ \<Rightarrow> rs_isSubsetOf rs other \<and> rs_isSubsetOf other rs)"

definition run_values :: "run \<Rightarrow> int list" where
  "run_values r = map (\<lambda>i. start r + i * stride r) [0..count r - 1]"

definition rs_materialize :: "run_set \<Rightarrow> nat \<Rightarrow> int list option" where
  "rs_materialize rs limit =
     (case rs_count rs of
        None \<Rightarrow> None
      | Some n \<Rightarrow>
          if int limit < n then None else Some (sort (concat (map run_values rs))))"

fun rs_shifted :: "run_set \<Rightarrow> int \<Rightarrow> run_set option" where
  "rs_shifted [] delta = Some []"
| "rs_shifted (r # rs) delta =
     (case checkedAdd (start r) delta of
        None \<Rightarrow> None
      | Some s \<Rightarrow>
          (case checkedMultiply (count r - 1) (stride r) of
             None \<Rightarrow> None
           | Some span \<Rightarrow>
               (case checkedAdd s span of
                  None \<Rightarrow> None
                | Some lastCheck \<Rightarrow>
                    (case rs_shifted rs delta of
                       None \<Rightarrow> None
                     | Some out \<Rightarrow> Some (r\<lparr>start := s\<rparr> # out)))))"

definition rs_valid :: "run_set \<Rightarrow> bool" where
  "rs_valid rs \<longleftrightarrow> rs \<noteq> [] \<and>
     (\<forall>i\<in>set [0..<length rs]. let r = rs ! i in
        \<not> (count r < 1 \<or> stride r < 1 \<or> count r = 1 \<and> stride r \<noteq> 1) \<and>
        (let span = (count r - 1) * stride r
         in \<not> (int64_max < span \<or> int64_max < start r + span)) \<and>
        (0 < i \<longrightarrow> start (rs ! (i - 1)) < start r) \<and>
        (\<forall>j\<in>set [Suc i..<length rs].
           case intersectRuns r (rs ! j) of (isect, overflowed) \<Rightarrow> \<not> overflowed \<and> isect = None))"

subsection \<open>Insertion and compaction\<close>

text \<open>What scanning the existing runs for one piece decides.\<close>

datatype scan = Refused | Place nat | Consumed "run list" nat

fun scan_existing :: "run \<Rightarrow> run_set \<Rightarrow> nat \<Rightarrow> scan" where
  "scan_existing piece [] budget = Place budget"
| "scan_existing piece (e # es) budget =
     (if budget = 0 then Refused
      else if run_last piece < start e \<or> run_last e < start piece
      then scan_existing piece es (budget - 1)
      else case intersectRuns piece e of
             (_, True) \<Rightarrow> Refused
           | (None, False) \<Rightarrow> scan_existing piece es (budget - 1)
           | (Some isect, False) \<Rightarrow>
               if count isect = count piece then Consumed [] (budget - 1)
               else case subtractSubProgression piece isect (budget - 1) of
                      None \<Rightarrow> Refused
                    | Some (fragments, b) \<Rightarrow> Consumed fragments b)"

definition place_run :: "run_set \<Rightarrow> run \<Rightarrow> run_set" where
  "place_run rs piece =
     (let pos = length (takeWhile (\<lambda>r. start r < start piece) rs)
      in take pos rs @ piece # drop pos rs)"

lemma emit_run_budget: "emit_run p (out, b) = Some (out', b') \<Longrightarrow> b' < b"
  by (auto simp: emit_run_def split: if_splits option.splits)

lemma subtract_classes_budget:
  "subtract_classes r ct q j st = Some st' \<Longrightarrow> snd st' \<le> snd st"
proof (induction r ct q j st rule: subtract_classes.induct)
  case (1 r ct q j st)
  show ?case
  proof (rule ccontr)
    assume n: "\<not> snd st' \<le> snd st"
    note u = "1.prems" [unfolded subtract_classes.simps [of r ct q j st]]
    from n u obtain off cs where *: "\<not> q \<le> j" "checkedMultiply j (stride r) = Some off"
      "checkedAdd (start ct) off = Some cs" "\<not> run_last r < cs"
      by (auto split: if_splits option.splits)
    define m where "m = min (count ct - 1) ((run_last r - cs) sdiv stride ct + 1)"
    show False
    proof (cases "1 \<le> m")
      case True
      then obtain st1 where e: "emit_run \<lparr>start = cs, stride = stride ct, count = m\<rparr> st = Some st1"
        and r: "subtract_classes r ct q (j + 1) st1 = Some st'"
        using u * by (auto simp: m_def Let_def split: option.splits)
      have "snd st' \<le> snd st1" using "1.IH"(1) [OF * m_def True e r] .
      moreover have "snd st1 < snd st" using emit_run_budget e by (cases st, cases st1) auto
      ultimately show False using n by simp
    next
      case False
      then have "subtract_classes r ct q (j + 1) st = Some st'"
        using u * by (auto simp: m_def Let_def)
      then show False using "1.IH"(2) [OF * m_def False] n by simp
    qed
  qed
qed

lemma subtract_budget:
  assumes "subtractSubProgression r ct b = Some (out, b')"
  shows "b' \<le> b"
proof -
  define q where "q = stride ct sdiv stride r"
  obtain st1 where 1: "(if start r < start ct
            then emit_run \<lparr>start = start r, stride = stride r,
                           count = (start ct - start r) sdiv stride r\<rparr> ([], b)
            else Some ([], b)) = Some st1"
    using assms by (auto simp: subtractSubProgression_def split: option.splits)
  obtain st2 where 2: "(if 1 < q \<and> 1 \<le> count ct then subtract_classes r ct q 1 st1 else Some st1) = Some st2"
    using assms 1 by (auto simp: subtractSubProgression_def q_def [symmetric] Let_def split: option.splits)
  have "snd st1 \<le> b" using 1 emit_run_budget [of _ "[]" b] by (cases st1) (fastforce split: if_splits)
  moreover have "snd st2 \<le> snd st1" using 2 subtract_classes_budget by (auto split: if_splits)
  moreover have "b' \<le> snd st2"
  proof -
    have e: "emit_run p st2 = Some (out, b') \<Longrightarrow> b' \<le> snd st2" for p
      using emit_run_budget [of p "fst st2" "snd st2" out b'] by simp
    show ?thesis
      using assms 1 2
      by (auto simp: subtractSubProgression_def q_def [symmetric] Let_def dest: e emit_run_budget
          split: option.splits if_splits)
  qed
  ultimately show ?thesis by simp
qed

lemma scan_existing_budget:
  "scan_existing piece es budget = Place b \<Longrightarrow> b \<le> budget"
  "scan_existing piece es budget = Consumed fr b \<Longrightarrow> b \<le> budget"
proof (induction piece es budget rule: scan_existing.induct)
  case (2 piece e es budget)
  {
    case 1
    with "2.IH" show ?case
      by (fastforce split: if_splits option.splits prod.splits bool.splits)
  next
    case 2
    with "2.IH" show ?case
      by (fastforce split: if_splits option.splits prod.splits bool.splits dest!: subtract_budget)
  }
qed simp_all

text \<open>
  The work queue of \<open>insertRun\<close>, its top first (the code pops the back of the vector, so the
  fragments of a split piece are pushed in reverse). Every round spends budget, hence it ends.
\<close>

function insert_pending :: "run list \<Rightarrow> run_set \<Rightarrow> nat \<Rightarrow> (run_set \<times> nat) option" where
  "insert_pending pending rs budget =
     (case pending of
        [] \<Rightarrow> Some (rs, budget)
      | piece # rest \<Rightarrow>
          if budget = 0 then None
          else case scan_existing piece rs (budget - 1) of
                 Refused \<Rightarrow> None
               | Consumed fragments b \<Rightarrow> insert_pending (rev fragments @ rest) rs b
               | Place b \<Rightarrow> insert_pending rest (place_run rs piece) b)"
  by pat_completeness auto
termination
  by (relation "measure (\<lambda>(pending, rs, budget). budget)") (auto dest: scan_existing_budget)

declare insert_pending.simps [simp del]

definition insertRun :: "run_set \<Rightarrow> run \<Rightarrow> nat \<Rightarrow> (run_set \<times> nat) option" where
  "insertRun rs r budget =
     (case makeRun (start r) (stride r) (count r) of
        None \<Rightarrow> None
      | Some checked \<Rightarrow> insert_pending [checked] rs budget)"

text \<open>Merging a run with its successor, the guards in the order of the code.\<close>

definition merge_runs :: "run \<Rightarrow> run \<Rightarrow> run option" where
  "merge_runs cur nxt =
     (case (if count cur = 1 \<and> count nxt = 1 \<and> start cur < start nxt \<and> start cur \<noteq> int64_min
            then checkedAdd (start nxt) (- start cur) else None) of
        Some gap \<Rightarrow> Some (cur\<lparr>stride := gap, count := 2\<rparr>)
      | None \<Rightarrow>
     (case (if 2 \<le> count cur \<and> count nxt = 1
            then (case checkedAdd (run_last cur) (stride cur) of
                    Some adjacent \<Rightarrow>
                      if start nxt = adjacent
                      then (case checkedAdd (count cur) 1 of
                              Some n \<Rightarrow> makeRun (start cur) (stride cur) n
                            | None \<Rightarrow> None)
                      else None
                  | None \<Rightarrow> None)
            else None) of
        Some r \<Rightarrow> Some r
      | None \<Rightarrow>
     (case (if count cur = 1 \<and> 2 \<le> count nxt
            then (case checkedAdd (start cur) (stride nxt) of
                    Some adjacent \<Rightarrow>
                      if start nxt = adjacent
                      then (case checkedAdd (count nxt) 1 of
                              Some n \<Rightarrow> makeRun (start cur) (stride nxt) n
                            | None \<Rightarrow> None)
                      else None
                  | None \<Rightarrow> None)
            else None) of
        Some r \<Rightarrow> Some r
      | None \<Rightarrow>
     (if 2 \<le> count cur \<and> 2 \<le> count nxt \<and> stride nxt = stride cur
      then (case checkedAdd (run_last cur) (stride cur) of
              Some adjacent \<Rightarrow>
                if start nxt = adjacent
                then (case checkedAdd (count cur) (count nxt) of
                        Some n \<Rightarrow> makeRun (start cur) (stride cur) n
                      | None \<Rightarrow> None)
                else None
            | None \<Rightarrow> None)
      else None))))"

fun coalesce_loop :: "run \<Rightarrow> run_set \<Rightarrow> run_set" where
  "coalesce_loop cur [] = [cur]"
| "coalesce_loop cur (nxt # rest) =
     (case merge_runs cur nxt of
        Some r \<Rightarrow> coalesce_loop r rest
      | None \<Rightarrow> cur # coalesce_loop nxt rest)"

definition coalesce :: "run_set \<Rightarrow> run_set" where
  "coalesce rs = (case rs of [] \<Rightarrow> [] | r # rest \<Rightarrow> coalesce_loop r rest)"

subsection \<open>The representation invariant\<close>

definition before_run :: "run \<Rightarrow> run \<Rightarrow> bool" where
  "before_run a b \<longleftrightarrow> start a < start b \<and> run_set a \<inter> run_set b = {}"

definition rs_ok :: "run_set \<Rightarrow> bool" where
  "rs_ok rs \<longleftrightarrow> rs \<noteq> [] \<and> (\<forall>r\<in>set rs. run_ok r) \<and> sorted_wrt before_run rs"

lemma rs_okD:
  assumes "rs_ok rs"
  shows "rs \<noteq> []" "r \<in> set rs \<Longrightarrow> run_ok r" "sorted_wrt before_run rs"
  using assms by (auto simp: rs_ok_def)

lemma finite_runs_set [simp]: "finite (runs_set rs)"
  by (simp add: runs_set_def)

lemma runs_set_nonempty: "rs_ok rs \<Longrightarrow> runs_set rs \<noteq> {}"
  using run_set_nonempty by (cases rs) (auto simp: rs_ok_def)

lemma runs_set_i64: "rs_ok rs \<Longrightarrow> x \<in> runs_set rs \<Longrightarrow> i64 x"
  by (auto simp: runs_set_def rs_ok_def dest: run_set_i64)

lemma mem_runs_set: "x \<in> runs_set rs \<longleftrightarrow> (\<exists>r\<in>set rs. x \<in> run_set r)"
  by (auto simp: runs_set_def)

lemma single_rs_ok: "run_ok r \<Longrightarrow> rs_ok [r]"
  by (simp add: rs_ok_def)

text \<open>Runs whose ranges do not overlap are disjoint.\<close>

lemma ranges_disjoint: "run_ok a \<Longrightarrow> run_ok b \<Longrightarrow> run_last a < start b \<Longrightarrow> before_run a b"
  by (auto simp: before_run_def mem_run_set dest: run_okD(9))

lemma ordered_ranges_ok:
  "rs \<noteq> [] \<Longrightarrow> \<forall>r\<in>set rs. run_ok r \<Longrightarrow> sorted_wrt (\<lambda>a b. run_last a < start b) rs \<Longrightarrow> rs_ok rs"
  by (auto simp: rs_ok_def intro: sorted_wrt_mono_rel [rotated] ranges_disjoint)

subsection \<open>Construction from values\<close>

lemma extend_run_Some:
  assumes "run_ok cur" "1 < count cur" "extend_run cur = Some r"
  shows "run_ok r" "start r = start cur" "run_last r = run_last cur + stride cur"
    "run_set r = insert (run_last cur + stride cur) (run_set cur)" "1 < count r"
    "stride r = stride cur"
proof -
  note C = run_okD [OF assms(1)]
  have m: "makeRun (start cur) (stride cur) (count cur + 1) = Some r" "i64 (count cur + 1)"
    using assms(3) by (auto simp: extend_run_def split: option.splits)
  have "count cur + 1 \<le> int64_max" using m(2) by (simp add: i64_def)
  note M = makeRun_Some [OF m(1) C(5) this]
  show "run_ok r" "start r = start cur" "1 < count r" "stride r = stride cur" using M assms(2) by auto
  show l: "run_last r = run_last cur + stride cur" using M(7) by (simp add: run_last_def left_diff_distrib)
  have "{0..<count cur + 1} = insert (count cur) {0..<count cur}" using C(1) by auto
  then have "aprog (start cur) (stride cur) (count cur + 1) = insert (start cur + count cur * stride cur) (run_set cur)"
    by (simp add: run_set_def aprog_image)
  then show "run_set r = insert (run_last cur + stride cur) (run_set cur)"
    unfolding M(2) by (simp add: run_last_def left_diff_distrib)
qed

lemma pair_run:
  assumes "run_ok cur" "count cur = 1" "run_last cur < v" "i64 v" "v - run_last cur \<le> int64_max"
  defines "r \<equiv> cur\<lparr>stride := v - run_last cur, count := 2\<rparr>"
  shows "run_ok r" "run_last r = v" "run_set r = insert v (run_set cur)" "start r = start cur"
proof -
  have l: "run_last cur = start cur" using assms(2) by (simp add: run_last_def)
  have "{0..<2} = {0, 1::int}" by auto
  moreover have "{0..<1} = {0::int}" by auto
  ultimately show "run_ok r" "run_last r = v" "run_set r = insert v (run_set cur)" "start r = start cur"
    using assms(1-5) l
    by (auto simp: r_def run_ok_def run_last_def run_set_def aprog_image i64_def int64_defs)
qed

lemma fromValues_loop_correct:
  assumes "run_ok cur" "\<forall>v\<in>set vs. run_last cur < v" "flat_ok vs" "\<forall>v\<in>set vs. i64 v"
  shows "(\<forall>r\<in>set (fromValues_loop cur vs). run_ok r)
    \<and> sorted_wrt (\<lambda>a b. run_last a < start b) (fromValues_loop cur vs)
    \<and> runs_set (fromValues_loop cur vs) = run_set cur \<union> set vs
    \<and> fromValues_loop cur vs \<noteq> []
    \<and> (\<forall>r\<in>set (fromValues_loop cur vs). start cur \<le> start r)"
  using assms
proof (induction cur vs rule: fromValues_loop.induct)
  case (1 cur)
  then show ?case by simp
next
  case (2 cur v vs)
  let ?gap = "v - run_last cur"
  let ?new = "\<lparr>start = v, stride = 1, count = 1\<rparr>"
  have v: "run_last cur < v" "i64 v" "\<forall>w\<in>set vs. v < w" "flat_ok vs" "\<forall>w\<in>set vs. i64 w"
    using "2.prems" by auto
  note C = run_okD [OF "2.prems"(1)]
  have new: "run_ok ?new" "run_set ?new = {v}" "run_last ?new = v"
    using v singleton_run [of v] by (auto simp: run_last_def)
  have fresh: "?case" if eq: "fromValues_loop cur (v # vs) = cur # fromValues_loop ?new vs"
    and IH: "(\<forall>r\<in>set (fromValues_loop ?new vs). run_ok r)
    \<and> sorted_wrt (\<lambda>a b. run_last a < start b) (fromValues_loop ?new vs)
    \<and> runs_set (fromValues_loop ?new vs) = run_set ?new \<union> set vs
    \<and> fromValues_loop ?new vs \<noteq> []
    \<and> (\<forall>r\<in>set (fromValues_loop ?new vs). start ?new \<le> start r)"
    unfolding eq using IH v(1) new(2) C(9) "2.prems"(1) by fastforce
  show ?case
  proof (cases "count cur = 1 \<and> ?gap \<le> int64_max")
    case True
    have p: "run_ok (cur\<lparr>stride := ?gap, count := 2\<rparr>)"
      "run_last (cur\<lparr>stride := ?gap, count := 2\<rparr>) = v"
      "run_set (cur\<lparr>stride := ?gap, count := 2\<rparr>) = insert v (run_set cur)"
      using pair_run [OF "2.prems"(1) _ v(1,2)] True by auto
    have "\<forall>w\<in>set vs. run_last (cur\<lparr>stride := ?gap, count := 2\<rparr>) < w" using p v by simp
    from "2.IH"(1) [OF refl True p(1) this v(4,5)] show ?thesis
      using True p(3) by (simp add: Let_def)
  next
    case F: False
    show ?thesis
    proof (cases "1 < count cur \<and> ?gap = stride cur")
      case True
      show ?thesis
      proof (cases "extend_run cur")
        case None
        then show ?thesis
          using fresh "2.IH"(2) [OF refl F True None new(1) _ v(4,5)] F True v(3) new(3)
          by (simp add: Let_def)
      next
        case (Some r)
        note E = extend_run_Some [OF "2.prems"(1) conjunct1 [OF True] Some]
        have veq: "run_last cur + stride cur = v" using True by simp
        have "\<forall>w\<in>set vs. run_last r < w" using E(3) veq v(3) by simp
        from "2.IH"(3) [OF refl F True Some E(1) this v(4,5)] show ?thesis
          using E(3,4) E(2) True F Some by (simp add: Let_def veq)
      qed
    next
      case False
      then show ?thesis
        using fresh "2.IH"(4) [OF refl F False new(1) _ v(4,5)] F v(3) new(3) by (auto simp: Let_def)
    qed
  qed
qed

lemma fromValues_correct:
  assumes "flat_ok vs" "\<forall>v\<in>set vs. i64 v"
  shows "rs_ok (fromValues vs)" "runs_set (fromValues vs) = (if vs = [] then {0} else set vs)"
proof -
  have "rs_ok (fromValues vs) \<and> runs_set (fromValues vs) = (if vs = [] then {0} else set vs)"
  proof (cases vs)
    case Nil
    then show ?thesis using singleton_run [of 0] by (simp add: fromValues_def single_rs_ok)
  next
    case (Cons v ws)
    let ?new = "\<lparr>start = v, stride = 1, count = 1\<rparr>"
    have "run_ok ?new" "run_set ?new = {v}" "run_last ?new = v"
      using assms(2) Cons singleton_run [of v] by (auto simp: run_last_def)
    then show ?thesis
      using fromValues_loop_correct [of ?new ws] assms Cons
      by (auto simp: fromValues_def intro: ordered_ranges_ok)
  qed
  then show "rs_ok (fromValues vs)" "runs_set (fromValues vs) = (if vs = [] then {0} else set vs)"
    by auto
qed

lemma rs_single_correct: "i64 v \<Longrightarrow> rs_ok (rs_single v)" "runs_set (rs_single v) = {v}"
  using singleton_run [of v] by (auto simp: rs_single_def single_rs_ok singleton_run)

subsection \<open>Queries are exact\<close>

text \<open>\<open>runs_ok\<close> is the invariant of a possibly empty tail of the run list.\<close>

definition runs_ok :: "run list \<Rightarrow> bool" where
  "runs_ok rs \<longleftrightarrow> (\<forall>r\<in>set rs. run_ok r) \<and> sorted_wrt before_run rs"

lemma rs_ok_iff: "rs_ok rs \<longleftrightarrow> rs \<noteq> [] \<and> runs_ok rs"
  by (simp add: rs_ok_def runs_ok_def)

lemma runs_ok_simps [simp]:
  "runs_ok []" "runs_ok (r # rs) \<longleftrightarrow> run_ok r \<and> (\<forall>s\<in>set rs. before_run r s) \<and> runs_ok rs"
  by (auto simp: runs_ok_def)

lemma run_disjoint_rest: "\<forall>s\<in>set rs. before_run r s \<Longrightarrow> run_set r \<inter> runs_set rs = {}"
  by (auto simp: before_run_def runs_set_def)

lemma card_runs_set: "runs_ok rs \<Longrightarrow> int (card (runs_set rs)) = sum_list (map count rs)"
proof (induction rs)
  case (Cons r rs)
  then have "card (runs_set (r # rs)) = card (run_set r) + card (runs_set rs)"
    using run_disjoint_rest by (simp add: card_Un_disjoint)
  then show ?case using Cons run_okD(1) [of r] by (simp add: card_run_set)
qed simp

lemma rs_count_loop_Some:
  "rs_count_loop acc rs = Some n \<Longrightarrow> n = acc + sum_list (map count rs)"
proof (induction rs arbitrary: acc)
  case (Cons r rs)
  then have "rs_count_loop (acc + count r) rs = Some n" by (auto split: option.splits)
  from Cons.IH [OF this] show ?case by simp
qed simp

lemma rs_count_loop_None:
  assumes "rs_count_loop acc rs = None" "runs_ok rs" "0 \<le> acc"
  shows "int64_max < acc + sum_list (map count rs)"
  using assms
proof (induction rs arbitrary: acc)
  case (Cons r rs)
  have s: "0 \<le> sum_list (map count rs)" using card_runs_set [of rs] Cons.prems by simp
  have c: "1 \<le> count r" using Cons.prems run_okD(1) by simp
  show ?case
  proof (cases "checkedAdd acc (count r)")
    case None
    then show ?thesis using s c Cons.prems by (simp add: i64_def int64_defs)
  next
    case (Some t)
    then have "rs_count_loop (acc + count r) rs = None" "runs_ok rs" "0 \<le> acc + count r"
      using Cons.prems c by (auto simp: checkedAdd_def split: if_splits)
    from Cons.IH [OF this] show ?thesis by simp
  qed
qed simp

lemma rs_count_exact:
  assumes "runs_ok rs"
  shows "rs_count rs = (if int (card (runs_set rs)) \<le> int64_max
                        then Some (int (card (runs_set rs))) else None)"
proof (cases "rs_count_loop 0 rs")
  case None
  then show ?thesis using rs_count_loop_None [OF None assms] card_runs_set [OF assms]
    by (simp add: rs_count_def)
next
  case (Some n)
  have "rs_count_loop acc rs = Some n \<Longrightarrow> acc \<le> int64_max \<Longrightarrow> n \<le> int64_max" for acc
    by (induction rs arbitrary: acc) (auto split: option.splits simp: i64_def)
  then show ?thesis
    using rs_count_loop_Some [OF Some] card_runs_set [OF assms] Some
    by (simp add: rs_count_def int64_defs)
qed

lemma rs_min_exact: "rs_ok rs \<Longrightarrow> rs_min rs = Min (runs_set rs)"
proof (rule Min_eqI [symmetric])
  assume ok: "rs_ok rs"
  then obtain r ss where rs: "rs = r # ss" by (cases rs) (auto simp: rs_ok_def)
  show "rs_min rs \<in> runs_set rs" using ok rs start_in_run_set by (simp add: rs_min_def rs_ok_iff)
  show "rs_min rs \<le> x" if "x \<in> runs_set rs" for x
    using that ok rs by (auto simp: rs_min_def rs_ok_iff mem_runs_set runs_ok_def mem_run_set before_run_def)
qed simp

lemma fold_max_last: "fold (\<lambda>r m. max m (run_last r)) rs m = Max (insert m (run_last ` set rs))"
proof (induction rs arbitrary: m)
  case (Cons r rs)
  have "Max (insert (max m (run_last r)) (run_last ` set rs)) =
        Max (insert m (insert (run_last r) (run_last ` set rs)))"
    by (cases "rs = []") (auto simp: max.assoc)
  then show ?case using Cons by simp
qed simp

lemma rs_max_exact: "rs_ok rs \<Longrightarrow> rs_max rs = Max (runs_set rs)"
proof -
  assume ok: "rs_ok rs"
  have m: "rs_max rs = Max (run_last ` set rs)"
    using ok by (cases rs) (auto simp: rs_max_def fold_max_last rs_ok_def)
  have "Max (runs_set rs) = Max (run_last ` set rs)"
  proof (rule Max_eqI)
    show "Max (run_last ` set rs) \<in> runs_set rs"
    proof -
      have "Max (run_last ` set rs) \<in> run_last ` set rs"
        using ok by (intro Max_in) (auto simp: rs_ok_def)
      then obtain r where "r \<in> set rs" "Max (run_last ` set rs) = run_last r" by blast
      then show ?thesis using ok last_in_run_set [of r] by (auto simp: mem_runs_set rs_ok_def)
    qed
    show "y \<le> Max (run_last ` set rs)" if y: "y \<in> runs_set rs" for y
    proof -
      obtain r where r: "r \<in> set rs" "y \<in> run_set r" using y by (auto simp: mem_runs_set)
      then have "y \<le> run_last r" using ok by (auto simp: rs_ok_def mem_run_set)
      also have "\<dots> \<le> Max (run_last ` set rs)" using r by simp
      finally show ?thesis .
    qed
  qed simp
  then show ?thesis using m by simp
qed

lemma rs_contains_exact: "runs_ok rs \<Longrightarrow> rs_contains rs v \<longleftrightarrow> v \<in> runs_set rs"
  by (auto simp: rs_contains_def list_ex_iff mem_runs_set runs_ok_def mem_run_set run_okD smod_eq_0_iff)

lemma covered_count_exact:
  assumes "run_ok r" "runs_ok other" "0 \<le> c" "c + int (card (run_set r \<inter> runs_set other)) \<le> int64_max"
  shows "covered_count r c other = Some (c + int (card (run_set r \<inter> runs_set other)))"
  using assms
proof (induction other arbitrary: c)
  case (Cons s ss)
  have d: "run_set r \<inter> runs_set (s # ss) = (run_set r \<inter> run_set s) \<union> (run_set r \<inter> runs_set ss)"
    by auto
  have dj: "(run_set r \<inter> run_set s) \<inter> (run_set r \<inter> runs_set ss) = {}"
    using run_disjoint_rest [of ss s] Cons.prems by auto
  have card: "card (run_set r \<inter> runs_set (s # ss)) =
      card (run_set r \<inter> run_set s) + card (run_set r \<inter> runs_set ss)"
    unfolding d by (rule card_Un_disjoint [OF _ _ dj]) auto
  obtain isect ov where i: "intersectRuns r s = (isect, ov)" by force
  note X = intersectRuns_exact [OF Cons.prems(1), of s, unfolded i]
  show ?case
  proof (cases isect)
    case None
    then show ?thesis using X Cons card i by simp
  next
    case (Some k)
    have k: "\<not> ov" "run_ok k" "run_set k = run_set r \<inter> run_set s" using X Some Cons.prems by auto
    have n: "int (card (run_set r \<inter> run_set s)) = count k"
      using card_run_set [OF k(2)] k(3) run_okD(1) [OF k(2)] by simp
    have i6: "i64 (c + count k)" using Cons.prems(3,4) card n by (simp add: i64_def int64_defs)
    show ?thesis
      using Some Cons i k(1) card n i6 run_okD(1) [OF k(2)] by (simp add: checkedAdd_def add.assoc)
  qed
qed simp

lemma rs_isSubsetOf_exact:
  assumes "runs_ok rs" "runs_ok other"
  shows "rs_isSubsetOf rs other \<longleftrightarrow> runs_set rs \<subseteq> runs_set other"
proof -
  have *: "(case covered_count r 0 other of None \<Rightarrow> False | Some covered \<Rightarrow> covered = count r)
      \<longleftrightarrow> run_set r \<subseteq> runs_set other" if r: "r \<in> set rs" for r
  proof -
    have ok: "run_ok r" using r assms by (simp add: runs_ok_def)
    have c: "count r = int (card (run_set r))" using card_run_set [OF ok] run_okD(1) [OF ok] by simp
    have le: "card (run_set r \<inter> runs_set other) \<le> card (run_set r)" by (intro card_mono) auto
    have "count r \<le> int64_max" using run_okD(6) [OF ok] by (simp add: i64_def)
    then have "covered_count r 0 other = Some (int (card (run_set r \<inter> runs_set other)))"
      using covered_count_exact [OF ok assms(2), of 0] le c by simp
    moreover have "card (run_set r \<inter> runs_set other) = card (run_set r) \<longleftrightarrow>
        run_set r \<inter> runs_set other = run_set r"
      using card_subset_eq [of "run_set r" "run_set r \<inter> runs_set other"] by auto
    ultimately show ?thesis using c by auto
  qed
  show ?thesis
    by (simp add: rs_isSubsetOf_def list_all_iff *) (simp add: runs_set_def [of rs] UN_subset_iff)
qed

lemma rs_equals_exact:
  assumes "runs_ok rs" "runs_ok other"
  shows "rs_equals rs other \<longleftrightarrow> runs_set rs = runs_set other"
proof -
  have "rs_count rs = Some ca \<Longrightarrow> rs_count other = Some cb \<Longrightarrow> ca \<noteq> cb \<Longrightarrow>
      runs_set rs \<noteq> runs_set other" for ca cb
    using assms by (auto simp: rs_count_exact split: if_splits)
  then show ?thesis
    using assms by (auto simp: rs_equals_def rs_isSubsetOf_exact split: option.splits)
qed

lemma set_run_values: "set (run_values r) = run_set r"
  by (auto simp: run_values_def run_set_def aprog_image)

lemma length_run_values: "run_ok r \<Longrightarrow> length (run_values r) = nat (count r)"
  by (simp add: run_values_def run_okD)

lemma distinct_run_values: "run_ok r \<Longrightarrow> distinct (run_values r)"
  by (rule card_distinct) (simp add: set_run_values card_run_set length_run_values)

text \<open>A materialised set is the sorted, duplicate free list of the members.\<close>

lemma rs_materialize_exact:
  assumes "runs_ok rs"
  shows "rs_materialize rs limit =
    (if int (card (runs_set rs)) \<le> int64_max \<and> card (runs_set rs) \<le> limit
     then Some (sorted_list_of_set (runs_set rs)) else None)"
proof -
  have "distinct (concat (map run_values rs))" using assms
    by (induction rs) (auto simp: distinct_run_values set_run_values before_run_def)
  moreover have "set (concat (map run_values rs)) = runs_set rs"
    by (auto simp: set_run_values runs_set_def)
  ultimately have "sort (concat (map run_values rs)) = sorted_list_of_set (runs_set rs)"
    by (metis sorted_list_of_set.idem_if_sorted_distinct sorted_sort distinct_sort set_sort)
  then show ?thesis using assms by (auto simp: rs_materialize_def rs_count_exact)
qed

subsection \<open>Shifting\<close>

lemma before_run_shift:
  assumes "before_run a b"
  shows "before_run (a\<lparr>start := start a + d\<rparr>) (b\<lparr>start := start b + d\<rparr>)"
proof -
  have "run_set (c\<lparr>start := start c + d\<rparr>) = (\<lambda>x. x + d) ` run_set c" for c
    by (auto simp: run_set_def aprog_image image_image algebra_simps)
  then show ?thesis using assms by (auto simp: before_run_def)
qed

lemma rs_shifted_Some:
  assumes "rs_shifted rs d = Some out" "runs_ok rs"
  shows "out = map (\<lambda>r. r\<lparr>start := start r + d\<rparr>) rs \<and> runs_ok out
    \<and> runs_set out = (\<lambda>x. x + d) ` runs_set rs"
  using assms
proof (induction rs arbitrary: out)
  case (Cons r rs)
  obtain out' where s: "checkedAdd (start r) d = Some (start r + d)"
    "i64 (start r + d + (count r - 1) * stride r)"
    "rs_shifted rs d = Some out'" and out: "out = r\<lparr>start := start r + d\<rparr> # out'"
    using Cons.prems(1) by (auto split: option.splits)
  let ?r = "r\<lparr>start := start r + d\<rparr>"
  have IH: "out' = map (\<lambda>r. r\<lparr>start := start r + d\<rparr>) rs" "runs_ok out'"
    "runs_set out' = (\<lambda>x. x + d) ` runs_set rs"
    using Cons.IH [OF s(3)] Cons.prems(2) by auto
  have "run_ok ?r" using Cons.prems(2) s by (auto simp: run_ok_def run_last_def i64_def)
  moreover have "run_set ?r = (\<lambda>x. x + d) ` run_set r"
    by (auto simp: run_set_def aprog_image image_image algebra_simps)
  ultimately show ?case using out IH Cons.prems(2) by (auto simp: before_run_shift image_Un)
qed simp

lemma rs_shifted_None:
  assumes "rs_shifted rs d = None" "runs_ok rs" "i64 d"
  shows "\<exists>x\<in>runs_set rs. \<not> i64 (x + d)"
  using assms
proof (induction rs)
  case (Cons r rs)
  have ok: "run_ok r" "runs_ok rs" using Cons.prems by auto
  have m: "checkedMultiply (count r - 1) (stride r) = Some ((count r - 1) * stride r)"
  proof -
    have "0 \<le> (count r - 1) * stride r" using run_okD [OF ok(1)] by (intro mult_nonneg_nonneg) auto
    then show ?thesis using run_okD(8) [OF ok(1)] by (simp add: i64_def int64_min_def)
  qed
  have l: "start r + d + (count r - 1) * stride r = run_last r + d" by (simp add: run_last_def)
  consider "\<not> i64 (start r + d)" | "\<not> i64 (run_last r + d)" | "rs_shifted rs d = None"
    using Cons.prems(1) by (auto simp: m l split: option.splits if_splits)
  then show ?case
  proof cases
    case 3
    then show ?thesis using Cons ok by auto
  qed (use ok start_in_run_set last_in_run_set in auto)
qed simp

subsection \<open>The validity check decides the invariant\<close>

lemma run_fields_valid:
  assumes "i64 (start r)" "i64 (count r)"
  shows "run_ok r \<longleftrightarrow> \<not> (count r < 1 \<or> stride r < 1 \<or> count r = 1 \<and> stride r \<noteq> 1) \<and>
      (let span = (count r - 1) * stride r
       in \<not> (int64_max < span \<or> int64_max < start r + span))"
  using assms by (auto simp: run_ok_def run_last_def Let_def)

lemma disjoint_check:
  assumes "run_ok a" "run_ok b"
  shows "(case intersectRuns a b of (isect, overflowed) \<Rightarrow> \<not> overflowed \<and> isect = None)
     \<longleftrightarrow> run_set a \<inter> run_set b = {}"
proof -
  obtain isect ov where i: "intersectRuns a b = (isect, ov)" by force
  show ?thesis
    using intersectRuns_exact [OF assms] run_set_nonempty
    by (cases isect) (auto simp: i)
qed

lemma rs_valid_iff:
  assumes "\<forall>r\<in>set rs. i64 (start r) \<and> i64 (count r)"
  shows "rs_valid rs \<longleftrightarrow> rs_ok rs"
proof
  assume v: "rs_valid rs"
  have ok: "run_ok (rs ! i)" if "i < length rs" for i
    using v that assms run_fields_valid [of "rs ! i"] by (auto simp: rs_valid_def Let_def)
  have step: "start (rs ! (i - 1)) < start (rs ! i)" if "i < length rs" "0 < i" for i
    using v that by (auto simp: rs_valid_def Let_def)
  have asc: "start (rs ! i) < start (rs ! j)" if "i < j" "j < length rs" for i j
    using that
  proof (induction j)
    case (Suc j)
    then show ?case using step [of "Suc j"] by (cases "i = j") auto
  qed simp
  have "run_set (rs ! i) \<inter> run_set (rs ! j) = {}" if "i < j" "j < length rs" for i j
    using v that ok disjoint_check [of "rs ! i" "rs ! j"] by (auto simp: rs_valid_def Let_def)
  then have "sorted_wrt before_run rs"
    using asc by (simp add: sorted_wrt_iff_nth_less before_run_def)
  then show "rs_ok rs" using v ok by (auto simp: rs_ok_def rs_valid_def in_set_conv_nth)
next
  assume ok: "rs_ok rs"
  then have "run_ok (rs ! i)" if "i < length rs" for i using that by (simp add: rs_ok_def)
  moreover have "before_run (rs ! i) (rs ! j)" if "i < j" "j < length rs" for i j
    using ok that by (simp add: rs_ok_def sorted_wrt_iff_nth_less)
  ultimately show "rs_valid rs"
    using ok run_fields_valid assms disjoint_check
    unfolding rs_valid_def Let_def by (auto simp: before_run_def rs_ok_def)
qed

subsection \<open>Insertion adds exactly the inserted run\<close>

lemma intersect_sub_progression:
  assumes ok: "run_ok a" "run_ok b" and i: "intersectRuns a b = (Some c, ov)"
  shows "\<not> ov" "run_ok c" "run_set c = run_set a \<inter> run_set b" "sub_progression c a"
proof -
  note X = intersectRuns_exact [OF ok, unfolded i, simplified]
  show *: "\<not> ov" "run_ok c" "run_set c = run_set a \<inter> run_set b" using X by auto
  have "start c \<in> run_set a" "run_last c \<in> run_set a"
    using * start_in_run_set last_in_run_set by blast+
  then show "sub_progression c a"
    using X by (auto simp: sub_progression_def mem_run_set ok)
qed

lemma scan_existing_correct:
  assumes "run_ok piece" "\<forall>e\<in>set es. run_ok e"
  shows "scan_existing piece es budget = Place b \<Longrightarrow> run_set piece \<inter> runs_set es = {}"
    and "scan_existing piece es budget = Consumed fr b \<Longrightarrow>
      (\<forall>c\<in>set fr. run_ok c) \<and> runs_set fr \<subseteq> run_set piece \<and> run_set piece \<subseteq> runs_set fr \<union> runs_set es"
  using assms
proof (induction piece es budget rule: scan_existing.induct)
  case (2 piece e es budget)
  have ok: "run_ok piece" "run_ok e" if "run_ok piece" "\<forall>x\<in>set (e # es). run_ok x"
    using that by auto
  have apart: "run_set piece \<inter> run_set e = {}"
    if "run_ok piece" "run_ok e" "run_last piece < start e \<or> run_last e < start piece"
    using that by (auto simp: mem_run_set)
  have none: "run_set piece \<inter> run_set e = {}"
    if "run_ok piece" "run_ok e" "intersectRuns piece e = (None, ov)" for ov
    using intersectRuns_exact [OF that(1,2)] that(3) by simp
  {
    case 1
    then have "budget \<noteq> 0" "scan_existing piece es (budget - 1) = Place b"
      "run_set piece \<inter> run_set e = {}"
      using apart [OF ok [OF 1(2,3)]] none [OF ok [OF 1(2,3)]]
      by (auto split: if_splits prod.splits option.splits bool.splits)
    with "2.IH" 1 show ?case by (auto split: prod.splits option.splits bool.splits if_splits)
  next
    case 2
    note ok = ok [OF 2(2,3)]
    obtain isect ov where i: "intersectRuns piece e = (isect, ov)" by force
    show ?case
    proof (cases "run_last piece < start e \<or> run_last e < start piece")
      case True
      then show ?thesis using "2.IH"(2) 2 by (auto split: if_splits)
    next
      case F: False
      show ?thesis
      proof (cases isect)
        case None
        then show ?thesis using "2.IH"(4) 2 i F by (auto split: if_splits bool.splits)
      next
        case (Some c)
        note I = intersect_sub_progression [OF ok i [unfolded Some]]
        show ?thesis
        proof (cases "count c = count piece")
          case True
          then have "card (run_set c) = card (run_set piece)" using card_run_set I(2) ok by simp
          then have "run_set c = run_set piece" using I(3) card_subset_eq by (metis finite_run_set inf_le1)
          then show ?thesis using I 2(1) True F i Some by (auto split: if_splits)
        next
          case False
          then have "subtractSubProgression piece c (budget - 1) = Some (fr, b)"
            using I(1) 2(1) F i Some by (auto split: if_splits option.splits)
          then have "(\<forall>c\<in>set fr. run_ok c) \<and> runs_set fr = run_set piece - run_set c"
            using subtract_exact ok(1) I(2,4) by blast
          then show ?thesis using I(3) by auto
        qed
      qed
    qed
  }
qed auto

lemma place_run_split:
  "place_run rs p = takeWhile (\<lambda>r. start r < start p) rs @ p # dropWhile (\<lambda>r. start r < start p) rs"
  by (simp add: place_run_def takeWhile_eq_take [symmetric] dropWhile_eq_drop [symmetric])

lemma before_runI: "run_ok a \<Longrightarrow> run_ok b \<Longrightarrow> start a \<le> start b \<Longrightarrow> run_set a \<inter> run_set b = {} \<Longrightarrow> before_run a b"
  using start_in_run_set [of a] start_in_run_set [of b] by (auto simp: before_run_def order_le_less)

lemma place_run_correct:
  assumes rs: "runs_ok rs" and p: "run_ok p" and d: "run_set p \<inter> runs_set rs = {}"
  shows "runs_ok (place_run rs p)" "runs_set (place_run rs p) = run_set p \<union> runs_set rs"
proof -
  let ?P = "\<lambda>r. start r < start p"
  let ?T = "takeWhile ?P rs" and ?D = "dropWhile ?P rs"
  have split: "?T @ ?D = rs" by simp
  have sets: "set ?T \<union> set ?D = set rs" using split by (metis set_append)
  have ok: "\<forall>r\<in>set rs. run_ok r" "sorted_wrt before_run (?T @ ?D)"
    using rs unfolding split by (simp_all add: runs_ok_def)
  have dj: "run_set p \<inter> run_set r = {}" if "r \<in> set rs" for r
    using d that by (auto simp: runs_set_def)
  have t: "before_run r p" if "r \<in> set ?T" for r
    using that dj [of r] sets set_takeWhileD [OF that] by (auto simp: before_run_def)
  have dd: "before_run p r" if r: "r \<in> set ?D" for r
  proof (rule before_runI [OF p])
    show "run_ok r" "run_set p \<inter> run_set r = {}" using r ok dj sets by auto
    obtain x xs where x: "?D = x # xs" using r by (cases ?D) auto
    then have "\<not> ?P x" using hd_dropWhile [of ?P rs] by simp
    moreover have "start x \<le> start r"
      using ok(2) r x by (auto simp: sorted_wrt_append before_run_def less_imp_le)
    ultimately show "start p \<le> start r" by simp
  qed
  have "sorted_wrt before_run (place_run rs p)"
    using ok(2) [unfolded sorted_wrt_append] t dd by (simp add: place_run_split sorted_wrt_append)
  then show "runs_ok (place_run rs p)"
    using p ok(1) sets by (auto simp: runs_ok_def place_run_split)
  show "runs_set (place_run rs p) = run_set p \<union> runs_set rs"
    using sets by (auto simp: place_run_split runs_set_def)
qed

lemma insert_pending_correct:
  assumes "insert_pending pending rs budget = Some (rs', b')" "\<forall>p\<in>set pending. run_ok p" "runs_ok rs"
  shows "runs_ok rs' \<and> runs_set rs' = runs_set rs \<union> runs_set pending \<and> b' \<le> budget"
  using assms
proof (induction pending rs budget rule: insert_pending.induct)
  case (1 pending rs budget)
  show ?case
  proof (cases pending)
    case Nil
    then show ?thesis using "1.prems" by (simp add: insert_pending.simps)
  next
    case (Cons piece rest)
    have ok: "run_ok piece" "\<forall>p\<in>set rest. run_ok p" "\<forall>e\<in>set rs. run_ok e"
      using "1.prems" Cons by (auto simp: runs_ok_def)
    have n: "budget \<noteq> 0"
      using "1.prems"(1) Cons by (auto simp: insert_pending.simps [of _ _ budget] split: if_splits)
    note u = "1.prems"(1) [unfolded Cons, unfolded insert_pending.simps [of "piece # rest"], simplified n]
    note S = scan_existing_correct [OF ok(1,3)]
    show ?thesis
    proof (cases "scan_existing piece rs (budget - 1)")
      case Refused
      then show ?thesis using u n by simp
    next
      case (Place b)
      note P = place_run_correct [OF "1.prems"(3) ok(1) S(1) [OF Place]]
      have "insert_pending rest (place_run rs piece) b = Some (rs', b')" using u Place n by simp
      from "1.IH"(1) [OF Cons n Place this ok(2) P(1)] show ?thesis
        using P(2) Cons scan_existing_budget(1) [OF Place] by auto
    next
      case (Consumed fr b)
      note C = S(2) [OF Consumed]
      have "insert_pending (rev fr @ rest) rs b = Some (rs', b')" using u Consumed n by simp
      moreover have "\<forall>a\<in>set (rev fr @ rest). run_ok a" using C ok by auto
      ultimately have "runs_ok rs' \<and> runs_set rs' = runs_set rs \<union> (runs_set fr \<union> runs_set rest) \<and> b' \<le> b"
        using "1.IH"(2) [OF Cons n Consumed _ _ "1.prems"(3)] by simp
      then show ?thesis
        using C Cons scan_existing_budget(2) [OF Consumed] by auto
    qed
  qed
qed

lemma insertRun_correct:
  assumes "insertRun rs r b = Some (rs', b')" "runs_ok rs" "i64 (start r)" "i64 (count r)"
  shows "rs_ok rs'" "runs_set rs' = runs_set rs \<union> aprog (start r) (stride r) (count r)" "b' \<le> b"
proof -
  obtain c where c: "makeRun (start r) (stride r) (count r) = Some c"
    "insert_pending [c] rs b = Some (rs', b')"
    using assms(1) by (auto simp: insertRun_def split: option.splits)
  have M: "run_ok c" "run_set c = aprog (start r) (stride r) (count r)"
    using makeRun_Some [OF c(1) assms(3)] assms(4) by (auto simp: i64_def)
  note I = insert_pending_correct [OF c(2) _ assms(2)]
  show "runs_set rs' = runs_set rs \<union> aprog (start r) (stride r) (count r)" "b' \<le> b"
    using I M by auto
  have "rs' \<noteq> []" using I M run_set_nonempty [OF M(1)] by auto
  then show "rs_ok rs'" using I M by (simp add: rs_ok_iff)
qed

subsection \<open>Compaction keeps the set\<close>

lemma aprog_append: "0 \<le> n \<Longrightarrow> 0 \<le> m \<Longrightarrow> aprog a d n \<union> aprog (a + n * d) d m = aprog a d (n + m)"
proof -
  assume "0 \<le> n" "0 \<le> m"
  then have s: "{0..<n + m} = {0..<n} \<union> (\<lambda>i. n + i) ` {0..<m}"
    using image_add_atLeastLessThan [of n 0 m] by auto
  show ?thesis unfolding aprog_image s image_Un image_image by (simp add: algebra_simps)
qed

lemma join_runs:
  assumes "run_ok a" "run_ok b" "run_last a + d = start b" "makeRun (start a) d (count a + count b) = Some r"
    "i64 (count a + count b)" "count a = 1 \<or> d = stride a" "count b = 1 \<or> d = stride b"
  shows "run_ok r \<and> start r = start a \<and> run_set r = run_set a \<union> run_set b"
proof -
  note A = run_okD [OF assms(1)] and B = run_okD [OF assms(2)]
  have M: "run_ok r" "start r = start a" "run_set r = aprog (start a) d (count a + count b)"
    using makeRun_Some [OF assms(4) A(5)] assms(5) by (auto simp: i64_def)
  have sa: "run_set a = aprog (start a) d (count a)" and sb: "run_set b = aprog (start b) d (count b)"
    using assms(6,7) by (auto simp: run_set_def)
  have "start b = start a + count a * d"
    using assms(3,6) by (auto simp: run_last_def algebra_simps)
  then show ?thesis using M sa sb aprog_append [of "count a" "count b" "start a" d] A B by simp
qed

lemma merge_runs_correct:
  assumes ok: "run_ok cur" "run_ok nxt" and m: "merge_runs cur nxt = Some r"
  shows "run_ok r \<and> start r = start cur \<and> run_set r = run_set cur \<union> run_set nxt"
proof -
  note C = run_okD [OF ok(1)] and N = run_okD [OF ok(2)]
  consider
    (pair) "count cur = 1" "count nxt = 1" "start cur < start nxt" "i64 (start nxt - start cur)"
      "r = cur\<lparr>stride := start nxt - start cur, count := 2\<rparr>"
  | (grow) d where "run_last cur + d = start nxt" "makeRun (start cur) d (count cur + count nxt) = Some r"
      "i64 (count cur + count nxt)" "count cur = 1 \<or> d = stride cur" "count nxt = 1 \<or> d = stride nxt"
    using m C(1) N(1)
    by (auto simp: merge_runs_def run_last_def add.commute
        split: option.splits if_splits)
  then show ?thesis
  proof cases
    case pair
    have "run_last cur = start cur" "run_set nxt = {start nxt}" "i64 (start nxt)"
      using pair N by (auto simp: run_last_def run_set_def)
    then show ?thesis using pair_run [of cur "start nxt"] pair ok(1) by (auto simp: i64_def)
  next
    case grow
    then show ?thesis using join_runs ok by blast
  qed
qed

lemma coalesce_loop_correct:
  assumes "runs_ok (cur # rest)"
  shows "runs_ok (coalesce_loop cur rest) \<and> coalesce_loop cur rest \<noteq> []
    \<and> runs_set (coalesce_loop cur rest) = run_set cur \<union> runs_set rest
    \<and> (\<forall>r\<in>set (coalesce_loop cur rest). start cur \<le> start r)"
  using assms
proof (induction cur rest rule: coalesce_loop.induct)
  case (2 cur nxt rest)
  have ok: "run_ok cur" "run_ok nxt" "runs_ok (nxt # rest)" "before_run cur nxt"
    "\<forall>s\<in>set rest. before_run cur s" "\<forall>s\<in>set rest. before_run nxt s"
    using "2.prems" by auto
  show ?case
  proof (cases "merge_runs cur nxt")
    case None
    note IH = "2.IH"(1) [OF None ok(3)]
    have "before_run cur r" if r: "r \<in> set (coalesce_loop nxt rest)" for r
    proof -
      have "start cur < start nxt" "start nxt \<le> start r" using ok(4) IH r by (auto simp: before_run_def)
      moreover have "run_set r \<subseteq> run_set nxt \<union> runs_set rest" using IH r by (auto simp: runs_set_def)
      ultimately show ?thesis using ok(4,5) by (fastforce simp: before_run_def runs_set_def)
    qed
    then show ?thesis using None IH ok by (auto simp: before_run_def)
  next
    case (Some r)
    note M = merge_runs_correct [OF ok(1,2) Some]
    have "runs_ok (r # rest)" using M ok by (auto simp: before_run_def)
    from "2.IH"(2) [OF Some this] show ?thesis using M Some by auto
  qed
qed simp

lemma coalesce_correct: "rs_ok rs \<Longrightarrow> rs_ok (coalesce rs) \<and> runs_set (coalesce rs) = runs_set rs"
  using coalesce_loop_correct by (cases rs) (auto simp: coalesce_def rs_ok_iff simp del: runs_ok_simps)

lemma coalesce_loop_length: "length (coalesce_loop r rs) \<le> Suc (length rs)"
proof (induction rs arbitrary: r)
  case (Cons n rs)
  show ?case
  proof (cases "merge_runs r n")
    case None
    then show ?thesis using Cons.IH [of n] by simp
  next
    case (Some m)
    then show ?thesis using Cons.IH [of m] by simp
  qed
qed simp

lemma coalesce_length: "length (coalesce rs) \<le> length rs"
  using coalesce_loop_length by (cases rs) (auto simp: coalesce_def)

text \<open>A concrete run set is checked by running the audit of the code.\<close>

lemma rs_ok_audit: "\<forall>r\<in>set rs. i64 (start r) \<and> i64 (count r) \<Longrightarrow> rs_valid rs \<Longrightarrow> rs_ok rs"
  using rs_valid_iff by blast

end
