(* ===== verification/SpanBitmap.thy ===== *)
theory SpanBitmap
  imports RunSet "HOL-Library.Word"
begin

text \<open>
  The span bitmap that \<^verbatim>\<open>RunSet::sum\<close> of \<^verbatim>\<open>lib/Semantics/RunSet.cpp\<close> uses when the sums fit a
  modest interval: occupancy bits packed in 64-bit words, the word-parallel shifted OR and the
  loop that reads the set bits back. The words are \<open>64 word\<close> and every index is the code's.
\<close>

unbundle bit_operations_syntax

subsection \<open>Operations\<close>

definition or_at :: "64 word list \<Rightarrow> nat \<Rightarrow> 64 word \<Rightarrow> 64 word list" where
  "or_at ws i w = ws[i := ws ! i OR w]"

definition mark_value :: "int \<Rightarrow> int \<Rightarrow> 64 word list \<Rightarrow> 64 word list" where
  "mark_value base v ws =
     (let rel = nat (v - base) in or_at ws (rel div 64) (push_bit (rel mod 64) 1))"

definition occupancy :: "int \<Rightarrow> nat \<Rightarrow> int list \<Rightarrow> 64 word list" where
  "occupancy base words vs = fold (mark_value base) vs (replicate words 0)"

definition or_shifted_word ::
  "64 word list \<Rightarrow> nat \<Rightarrow> nat \<Rightarrow> nat \<Rightarrow> 64 word list \<Rightarrow> 64 word list" where
  "or_shifted_word smallBits wordShift bitShift w result =
     (let result1 = or_at result (wordShift + w) (push_bit bitShift (smallBits ! w))
      in if bitShift \<noteq> 0
         then or_at result1 (wordShift + w + 1) (drop_bit (64 - bitShift) (smallBits ! w))
         else result1)"

definition or_shifted :: "64 word list \<Rightarrow> nat \<Rightarrow> 64 word list \<Rightarrow> 64 word list" where
  "or_shifted smallBits offset result =
     fold (or_shifted_word smallBits (offset div 64) (offset mod 64)) [0..<length smallBits] result"

definition countr_zero :: "64 word \<Rightarrow> nat" where
  "countr_zero w = length (takeWhile (\<lambda>i. \<not> bit w i) [0..<64])"

subsection \<open>Reading the set bits back\<close>

lemma countr_zero_bit:
  assumes "w \<noteq> (0 :: 64 word)"
  shows "countr_zero w < 64" "bit w (countr_zero w)" "i < countr_zero w \<Longrightarrow> \<not> bit w i"
proof -
  let ?t = "takeWhile (\<lambda>i. \<not> bit w i) [0..<64]"
  obtain k where k: "bit w k" using assms by (auto simp: bit_eq_iff)
  then have "k < 64" using bit_imp_le_length [of w k] by simp
  have "length ?t < 64"
  proof (rule ccontr)
    assume "\<not> length ?t < 64"
    then have "?t = [0..<64]" using takeWhile_eq_all_conv length_takeWhile_le [of _ "[0..<64]"]
      by (metis diff_zero length_upt linorder_not_less nat_less_le take_all takeWhile_eq_take)
    then show False using k \<open>k < 64\<close> by (simp add: takeWhile_eq_all_conv)
  qed
  then show l: "countr_zero w < 64" by (simp add: countr_zero_def)
  then show "bit w (countr_zero w)"
    using nth_length_takeWhile [of "\<lambda>i. \<not> bit w i" "[0..<64]"] by (simp add: countr_zero_def)
  show "i < countr_zero w \<Longrightarrow> \<not> bit w i"
    using l nth_mem [of i ?t] takeWhile_nth [of i "\<lambda>i. \<not> bit w i" "[0..<64]"]
    by (auto simp: countr_zero_def dest: set_takeWhileD)
qed

text \<open>\<open>bits AND (bits - 1)\<close> clears exactly the lowest set bit.\<close>

lemma clear_lowest_bit:
  assumes "w \<noteq> (0 :: 64 word)"
  shows "bit (w AND (w - 1)) i \<longleftrightarrow> bit w i \<and> i \<noteq> countr_zero w"
proof -
  define k where "k = countr_zero w"
  define v where "v = drop_bit k w"
  note K = countr_zero_bit [OF assms, folded k_def]
  have v: "odd v" using K(2) by (simp add: v_def bit_iff_odd_drop_bit)
  have w: "w = push_bit k v"
  proof (rule bit_eqI)
    fix n assume "possible_bit TYPE(64 word) n"
    then show "bit w n \<longleftrightarrow> bit (push_bit k v) n"
      using K(3) [of n] by (cases "n < k") (auto simp: v_def bit_push_bit_iff bit_drop_bit_eq)
  qed
  have v1: "bit (v - 1) i \<longleftrightarrow> bit v i \<and> i \<noteq> 0" for i
  proof -
    have e: "even (v - 1)" using v by simp
    then have "v = (v - 1) OR 1" by (simp add: or_one_eq)
    then have "bit v i \<longleftrightarrow> bit (v - 1) i \<or> i = 0" by (metis bit_or_iff bit_1_iff)
    moreover have "\<not> bit (v - 1) 0" using e by (simp add: bit_0)
    ultimately show ?thesis by (cases "i = 0") auto
  qed
  have "w - 1 = push_bit k (v - 1) + mask k"
    by (simp add: w push_bit_eq_mult mask_eq_decr_exp algebra_simps)
  also have "\<dots> = push_bit k (v - 1) OR mask k"
    by (rule disjunctive_add) (auto simp: bit_push_bit_iff bit_mask_iff)
  finally have w1: "w - 1 = push_bit k (v - 1) OR mask k" .
  have "bit (w AND (w - 1)) i \<longleftrightarrow> bit w i \<and> i \<noteq> k"
    unfolding w1 bit_and_iff
    using K(3) [of i] v1 [of "i - k"] bit_imp_le_length [of w i]
    by (auto simp: bit_or_iff bit_push_bit_iff bit_mask_iff v_def bit_drop_bit_eq)
  then show ?thesis by (simp add: k_def)
qed

lemma clear_lowest_less: "w \<noteq> 0 \<Longrightarrow> unat (w AND (w - 1)) < unat (w :: 64 word)"
proof -
  assume w: "w \<noteq> 0"
  then have "bit w (countr_zero w)" "\<not> bit (w AND (w - 1)) (countr_zero w)"
    using countr_zero_bit clear_lowest_bit by auto
  then have "w AND (w - 1) \<noteq> w" by auto
  moreover have "w AND (w - 1) \<le> w" by (rule word_and_le2)
  ultimately show ?thesis by (simp add: word_less_nat_alt [symmetric])
qed

function set_bits_of :: "64 word \<Rightarrow> nat list" where
  "set_bits_of bits =
     (if bits = 0 then [] else countr_zero bits # set_bits_of (bits AND (bits - 1)))"
  by pat_completeness auto
termination by (relation "measure unat") (auto simp: clear_lowest_less)

declare set_bits_of.simps [simp del]

definition bitmap_values :: "int \<Rightarrow> 64 word list \<Rightarrow> int list" where
  "bitmap_values lo result =
     concat (map (\<lambda>w. map (\<lambda>b. lo + int (w * 64 + b)) (set_bits_of (result ! w))) [0..<length result])"

subsection \<open>What a bitmap denotes\<close>

definition bits_set :: "64 word list \<Rightarrow> nat set" where
  "bits_set ws = {n. n < 64 * length ws \<and> bit (ws ! (n div 64)) (n mod 64)}"

lemma length_or_at [simp]: "length (or_at ws i w) = length ws"
  by (simp add: or_at_def)

lemma bits_set_zero [simp]: "bits_set (replicate n 0) = {}"
  by (auto simp: bits_set_def)

lemma bits_or_at:
  assumes "i < length ws"
  shows "bits_set (or_at ws i w) = bits_set ws \<union> {64 * i + b |b. bit w b}"
proof (rule set_eqI)
  fix n :: nat
  have lt: "b < 64" if "bit w b" for b using bit_imp_le_length [OF that] by simp
  have m: "(\<exists>b. n = 64 * i + b \<and> bit w b) \<longleftrightarrow> n div 64 = i \<and> bit w (n mod 64)"
  proof
    assume "\<exists>b. n = 64 * i + b \<and> bit w b"
    then obtain b where "n = 64 * i + b" "bit w b" by blast
    then show "n div 64 = i \<and> bit w (n mod 64)" using lt [of b] by simp
  next
    assume "n div 64 = i \<and> bit w (n mod 64)"
    then show "\<exists>b. n = 64 * i + b \<and> bit w b" by (metis mult_div_mod_eq)
  qed
  have "n < 64 * length ws" if "n div 64 = i" using that assms by linarith
  then show "n \<in> bits_set (or_at ws i w) \<longleftrightarrow> n \<in> bits_set ws \<union> {64 * i + b |b. bit w b}"
    using assms by (auto simp: bits_set_def m or_at_def nth_list_update bit_or_iff)
qed

lemma bits_mark_value:
  assumes "base \<le> v" "v - base < 64 * int (length ws)"
  shows "bits_set (mark_value base v ws) = insert (nat (v - base)) (bits_set ws)"
proof -
  let ?r = "nat (v - base)"
  have i: "?r div 64 < length ws" using assms by linarith
  have b: "bit (push_bit (?r mod 64) (1 :: 64 word)) b \<longleftrightarrow> b = ?r mod 64" for b
    using bit_exp_iff [of "?r mod 64" b, where ?'a="64 word"] by (auto simp: push_bit_eq_mult)
  show ?thesis unfolding mark_value_def Let_def bits_or_at [OF i] b by auto
qed

lemma length_mark_value [simp]: "length (mark_value base v ws) = length ws"
  by (simp add: mark_value_def Let_def)

lemma length_occupancy [simp]: "length (occupancy base words vs) = words"
proof -
  have "length (fold (mark_value base) vs ws) = length ws" for ws
    by (induction vs arbitrary: ws) auto
  then show ?thesis by (simp add: occupancy_def)
qed

lemma bits_occupancy:
  assumes "\<forall>v\<in>set vs. base \<le> v \<and> v - base < 64 * int words"
  shows "bits_set (occupancy base words vs) = (\<lambda>v. nat (v - base)) ` set vs"
proof -
  have "length ws = words \<Longrightarrow> bits_set (fold (mark_value base) vs ws) =
      (\<lambda>v. nat (v - base)) ` set vs \<union> bits_set ws" for ws
    using assms by (induction vs arbitrary: ws) (auto simp: bits_mark_value)
  then show ?thesis by (simp add: occupancy_def)
qed

lemma length_or_shifted_word [simp]: "length (or_shifted_word sb ws bs w r) = length r"
  by (simp add: or_shifted_word_def Let_def)

text \<open>One word of the shifted OR adds its bits, moved by the offset.\<close>

lemma bits_or_shifted_word:
  assumes "bs < 64" "ws + w + 1 < length r"
  shows "bits_set (or_shifted_word sb ws bs w r) =
    bits_set r \<union> {64 * (ws + w) + bs + b |b. bit (sb ! w) b}"
proof -
  let ?v = "sb ! w"
  have lt: "b < 64" if "bit ?v b" for b using bit_imp_le_length [OF that] by simp
  have lo: "{64 * (ws + w) + b |b. bit (push_bit bs ?v) b} =
      {64 * (ws + w) + bs + b |b. bit ?v b \<and> b + bs < 64}" (is "?L = ?R")
  proof
    show "?L \<subseteq> ?R"
    proof
      fix x assume "x \<in> ?L"
      then obtain b where "x = 64 * (ws + w) + b" "bs \<le> b" "b < 64" "bit ?v (b - bs)"
        by (auto simp: bit_push_bit_iff)
      then have "x = 64 * (ws + w) + bs + (b - bs) \<and> bit ?v (b - bs) \<and> b - bs + bs < 64" by simp
      then show "x \<in> ?R" by blast
    qed
    show "?R \<subseteq> ?L"
    proof
      fix x assume "x \<in> ?R"
      then obtain b where "x = 64 * (ws + w) + bs + b" "bit ?v b" "b + bs < 64" by blast
      then have "x = 64 * (ws + w) + (bs + b) \<and> bit (push_bit bs ?v) (bs + b)"
        by (simp add: bit_push_bit_iff)
      then show "x \<in> ?L" by blast
    qed
  qed
  have hi: "{64 * (ws + w + 1) + b |b. bit (drop_bit (64 - bs) ?v) b} =
      {64 * (ws + w) + bs + b |b. bit ?v b \<and> 64 \<le> b + bs}" (is "?L = ?R")
  proof
    show "?L \<subseteq> ?R"
    proof
      fix x assume "x \<in> ?L"
      then obtain b where "x = 64 * (ws + w + 1) + b" "bit ?v (64 - bs + b)"
        by (auto simp: bit_drop_bit_eq)
      then have "x = 64 * (ws + w) + bs + (64 - bs + b) \<and> bit ?v (64 - bs + b) \<and> 64 \<le> 64 - bs + b + bs"
        using assms(1) by simp
      then show "x \<in> ?R" by blast
    qed
    show "?R \<subseteq> ?L"
    proof
      fix x assume "x \<in> ?R"
      then obtain b where b: "x = 64 * (ws + w) + bs + b" "bit ?v b" "64 \<le> b + bs" by blast
      then have "64 - bs + (b + bs - 64) = b" "x = 64 * (ws + w + 1) + (b + bs - 64)"
        using assms(1) by auto
      then have "x = 64 * (ws + w + 1) + (b + bs - 64) \<and> bit (drop_bit (64 - bs) ?v) (b + bs - 64)"
        using b(2) by (simp add: bit_drop_bit_eq)
      then show "x \<in> ?L" by blast
    qed
  qed
  show ?thesis
  proof (cases "bs = 0")
    case True
    then show ?thesis using lo lt assms by (auto simp: or_shifted_word_def bits_or_at)
  next
    case False
    have "bits_set (or_at (or_at r (ws + w) (push_bit bs ?v)) (ws + w + 1) (drop_bit (64 - bs) ?v)) =
        bits_set (or_at r (ws + w) (push_bit bs ?v)) \<union>
        {64 * (ws + w) + bs + b |b. bit ?v b \<and> 64 \<le> b + bs}"
      unfolding hi [symmetric] by (rule bits_or_at) (use assms in simp)
    moreover have "bits_set (or_at r (ws + w) (push_bit bs ?v)) =
        bits_set r \<union> {64 * (ws + w) + bs + b |b. bit ?v b \<and> b + bs < 64}"
      unfolding lo [symmetric] by (rule bits_or_at) (use assms in simp)
    ultimately have "bits_set (or_shifted_word sb ws bs w r) = bits_set r \<union>
        {64 * (ws + w) + bs + b |b. bit ?v b \<and> b + bs < 64} \<union>
        {64 * (ws + w) + bs + b |b. bit ?v b \<and> 64 \<le> b + bs}"
      using False by (simp add: or_shifted_word_def)
    moreover have "{64 * (ws + w) + bs + b |b. bit ?v b} =
        {64 * (ws + w) + bs + b |b. bit ?v b \<and> b + bs < 64} \<union>
        {64 * (ws + w) + bs + b |b. bit ?v b \<and> 64 \<le> b + bs}"
      using not_less by blast
    ultimately show ?thesis by (simp only: Un_assoc)
  qed
qed

text \<open>The positions by word and bit.\<close>

lemma bits_set_words: "bits_set ws = {64 * w + b |w b. w < length ws \<and> bit (ws ! w) b}"
proof (intro set_eqI iffI)
  have lt: "b < 64" if "bit (ws ! w) b" for w b using bit_imp_le_length [OF that] by simp
  fix n assume "n \<in> {64 * w + b |w b. w < length ws \<and> bit (ws ! w) b}"
  then obtain w b where n: "n = 64 * w + b" "w < length ws" "bit (ws ! w) b" by blast
  then have "n div 64 = w" "n mod 64 = b" using lt [of w b] by auto
  then show "n \<in> bits_set ws" using n lt [of w b] by (simp add: bits_set_def)
next
  fix n assume "n \<in> bits_set ws"
  then have "n div 64 < length ws" "bit (ws ! (n div 64)) (n mod 64)"
    by (auto simp: bits_set_def)
  moreover have "n = 64 * (n div 64) + n mod 64" by simp
  ultimately show "n \<in> {64 * w + b |w b. w < length ws \<and> bit (ws ! w) b}" by blast
qed

lemma bits_or_shifted:
  assumes "offset div 64 + length sb < length r"
  shows "length (or_shifted sb offset r) = length r"
    "bits_set (or_shifted sb offset r) = bits_set r \<union> (\<lambda>b. offset + b) ` bits_set sb"
proof -
  let ?W = "offset div 64" and ?B = "offset mod 64"
  have *: "length (fold (or_shifted_word sb ?W ?B) [0..<n] r) = length r \<and>
      bits_set (fold (or_shifted_word sb ?W ?B) [0..<n] r) =
      bits_set r \<union> {offset + (64 * w + b) |w b. w < n \<and> bit (sb ! w) b}" if "n \<le> length sb" for n
    using that
  proof (induction n)
    case (Suc n)
    have o: "64 * (?W + n) + ?B + b = offset + (64 * n + b)" for b by (simp add: algebra_simps)
    have "{offset + (64 * w + b) |w b. w < Suc n \<and> bit (sb ! w) b} =
        {offset + (64 * w + b) |w b. w < n \<and> bit (sb ! w) b} \<union> {offset + (64 * n + b) |b. bit (sb ! n) b}"
      by (simp only: less_Suc_eq) blast
    then show ?case
      using Suc assms by (simp add: bits_or_shifted_word o Un_assoc add.assoc)
  qed simp
  have "{offset + (64 * w + b) |w b. w < length sb \<and> bit (sb ! w) b} = (\<lambda>b. offset + b) ` bits_set sb"
    unfolding bits_set_words by blast
  then show "length (or_shifted sb offset r) = length r"
    "bits_set (or_shifted sb offset r) = bits_set r \<union> (\<lambda>b. offset + b) ` bits_set sb"
    using * [of "length sb"] by (auto simp: or_shifted_def)
qed

lemma set_bits_of_correct:
  "flat_ok (set_bits_of bits) \<and> set (set_bits_of bits) = {b. bit bits b}"
proof (induction bits rule: set_bits_of.induct)
  case (1 bits)
  show ?case
  proof (cases "bits = 0")
    case True
    then show ?thesis by (simp add: set_bits_of.simps)
  next
    case False
    note IH = "1.IH" [OF False]
    have s: "set_bits_of bits = countr_zero bits # set_bits_of (bits AND (bits - 1))"
      using False by (simp add: set_bits_of.simps [of bits])
    have c: "bit (bits AND (bits - 1)) b \<longleftrightarrow> bit bits b \<and> b \<noteq> countr_zero bits" for b
      by (rule clear_lowest_bit [OF False])
    have "countr_zero bits < b" if "bit bits b" "b \<noteq> countr_zero bits" for b
      using countr_zero_bit(3) [OF False, of b] that by (meson nat_neq_iff)
    then show ?thesis using IH countr_zero_bit(2) [OF False] unfolding s
      by (auto simp: c)
  qed
qed

lemma bitmap_values_correct:
  "flat_ok (bitmap_values lo ws)" "set (bitmap_values lo ws) = (\<lambda>n. lo + int n) ` bits_set ws"
proof -
  let ?f = "\<lambda>w. map (\<lambda>b. lo + int (w * 64 + b)) (set_bits_of (ws ! w))"
  have lt: "b < 64" if "b \<in> set (set_bits_of (ws ! w))" for w b
    using that set_bits_of_correct [of "ws ! w"] bit_imp_le_length [of "ws ! w" b] by simp
  have asc: "flat_ok (?f w)" for w
    using set_bits_of_correct [of "ws ! w"] by (auto simp: sorted_wrt_map intro: sorted_wrt_mono_rel [rotated])
  have "flat_ok (concat (map ?f [0..<n])) \<and> (\<forall>x\<in>set (concat (map ?f [0..<n])). x < lo + 64 * int n)" for n
  proof (induction n)
    case (Suc n)
    have "\<forall>x\<in>set (?f n). lo + 64 * int n \<le> x \<and> x < lo + 64 * int (Suc n)" using lt [of _ n] by auto
    then show ?case using Suc asc [of n] by (fastforce simp: sorted_wrt_append)
  qed simp
  then show "flat_ok (bitmap_values lo ws)" by (simp add: bitmap_values_def)
  have v: "set (?f w) = {lo + int (64 * w + b) |b. bit (ws ! w) b}" for w
    using set_bits_of_correct [of "ws ! w"] by (auto simp: mult.commute)
  have "set (bitmap_values lo ws) = (\<Union>w<length ws. set (?f w))"
    by (simp add: bitmap_values_def lessThan_atLeast0)
  also have "\<dots> = (\<lambda>n. lo + int n) ` bits_set ws"
    unfolding v bits_set_words by blast
  finally show "set (bitmap_values lo ws) = (\<lambda>n. lo + int n) ` bits_set ws" .
qed

end
