(* ===== verification/RunOps.thy ===== *)
theory RunOps
  imports SpanBitmap
begin

text \<open>
  The set operations of \<^verbatim>\<open>RunSet\<close> in \<^verbatim>\<open>lib/Semantics/RunSet.cpp\<close>: union, Minkowski sum (by span
  bitmap, by enumeration or structurally), padding to an alignment, repetition and repeated
  ranges, and residues. \<open>None\<close> is the refusal \<^verbatim>\<open>std::nullopt\<close>: a budget or a range check tripped.
\<close>

definition kEnumUnionLimit :: int where "kEnumUnionLimit = 131072"
definition kEnumSumLimit :: int where "kEnumSumLimit = 65536"
definition kSumSpanLimit :: int where "kSumSpanLimit = 1048576"
definition kWordOpsCap :: nat where "kWordOpsCap = 67108864"
definition kMaxIterations :: int where "kMaxIterations = 4096"

subsection \<open>Union\<close>

fun insert_all :: "run list \<Rightarrow> run_set \<times> nat \<Rightarrow> (run_set \<times> nat) option" where
  "insert_all [] st = Some st"
| "insert_all (r # rs) (out, budget) =
     (case insertRun out r budget of None \<Rightarrow> None | Some st \<Rightarrow> insert_all rs st)"

definition unite :: "run_set \<Rightarrow> run_set \<Rightarrow> run_set option" where
  "unite a b =
     (let structural = (case insert_all b (a, kOpBudget) of
                          None \<Rightarrow> None
                        | Some (out, _) \<Rightarrow> Some (coalesce out))
      in case (rs_count a, rs_count b) of
           (Some ca, Some cb) \<Rightarrow>
             (case checkedAdd ca cb of
                Some combined \<Rightarrow>
                  if combined \<le> kEnumUnionLimit
                  then (case (rs_materialize a (nat kEnumUnionLimit),
                              rs_materialize b (nat kEnumUnionLimit)) of
                          (Some ma, Some mb) \<Rightarrow> Some (fromValues (flat_insert_range ma mb))
                        | _ \<Rightarrow> structural)
                  else structural
              | None \<Rightarrow> structural)
         | _ \<Rightarrow> structural)"

subsection \<open>Minkowski sum\<close>

text \<open>The span bitmap; \<open>None\<close> means that the code falls through to the next strategy.\<close>

definition bitmap_sums :: "int \<Rightarrow> int \<Rightarrow> nat \<Rightarrow> nat \<Rightarrow> int list \<Rightarrow> int list \<Rightarrow> int list" where
  "bitmap_sums lo minSmall smallWords span mSmall mLarge =
     (let smallBits = occupancy minSmall smallWords mSmall;
          resultWords = (span + 63) div 64
      in bitmap_values lo
           (fold (\<lambda>x result. or_shifted smallBits (nat ((x + minSmall) - lo)) result) mLarge
              (replicate (resultWords + 1) 0)))"

definition sum_by_bitmap :: "run_set \<Rightarrow> run_set \<Rightarrow> run_set option" where
  "sum_by_bitmap a b =
     (let lo = rs_min a + rs_min b;
          hi = rs_max a + rs_max b;
          span = hi - lo + 1
      in if int64_min \<le> lo \<and> hi \<le> int64_max \<and> span \<le> kSumSpanLimit
         then let (small, large) = (if rs_max a - rs_min a \<le> rs_max b - rs_min b then (a, b) else (b, a));
                  spanSmall = rs_max small - rs_min small + 1;
                  smallWords = (nat spanSmall + 63) div 64
              in case (rs_count small, rs_count large) of
                   (Some cSmall, Some cLarge) \<Rightarrow>
                     if cSmall \<le> kSumSpanLimit \<and> cLarge \<le> kSumSpanLimit \<and>
                        nat cLarge * (smallWords + 1) \<le> kWordOpsCap
                     then (case (rs_materialize small (nat kSumSpanLimit),
                                 rs_materialize large (nat kSumSpanLimit)) of
                             (Some mSmall, Some mLarge) \<Rightarrow>
                               Some (fromValues
                                 (bitmap_sums lo (rs_min small) smallWords (nat span) mSmall mLarge))
                           | _ \<Rightarrow> None)
                     else None
                 | _ \<Rightarrow> None
         else None)"

text \<open>
  Enumeration of the pairs. The outer option tells whether the strategy applies, the inner one is
  the refusal on an overflowing sum.
\<close>

definition sum_by_enumeration :: "run_set \<Rightarrow> run_set \<Rightarrow> run_set option option" where
  "sum_by_enumeration a b =
     (case (rs_count a, rs_count b) of
        (Some ca, Some cb) \<Rightarrow>
          if ca \<le> kEnumSumLimit \<and> cb \<le> kEnumSumLimit \<and> ca * cb \<le> kEnumSumLimit
          then (case (rs_materialize a (nat kEnumSumLimit), rs_materialize b (nat kEnumSumLimit)) of
                  (Some ma, Some mb) \<Rightarrow>
                    Some (case those (concat (map (\<lambda>x. map (checkedAdd x) mb) ma)) of
                            None \<Rightarrow> None
                          | Some values \<Rightarrow> Some (fromValues (sortAndUnique values)))
                | _ \<Rightarrow> None)
          else None
      | _ \<Rightarrow> None)"

text \<open>One shifted copy of the bigger run for each element of the smaller one.\<close>

definition expand_piece :: "int \<Rightarrow> run \<Rightarrow> run \<Rightarrow> int \<Rightarrow> run option" where
  "expand_piece s small big i =
     (case checkedMultiply i (stride small) of
        None \<Rightarrow> None
      | Some off \<Rightarrow>
          (case checkedAdd s off of
             None \<Rightarrow> None
           | Some sh \<Rightarrow> makeRun sh (stride big) (count big)))"

definition single_piece :: "int \<Rightarrow> int \<Rightarrow> int \<Rightarrow> run list option" where
  "single_piece st sd n = (case makeRun st sd n of None \<Rightarrow> None | Some r \<Rightarrow> Some [r])"

definition pair_pieces :: "run \<Rightarrow> run \<Rightarrow> nat \<Rightarrow> run list option" where
  "pair_pieces ra rb budget =
     (case checkedAdd (start ra) (start rb) of
        None \<Rightarrow> None
      | Some s \<Rightarrow>
     (case checkedAdd (run_last ra) (run_last rb) of
        None \<Rightarrow> None
      | Some lastSum \<Rightarrow>
          if count ra = 1 \<and> count rb = 1 then single_piece s 1 1
          else if count ra = 1 then single_piece s (stride rb) (count rb)
          else if count rb = 1 then single_piece s (stride ra) (count ra)
          else if stride ra = stride rb
          then (case checkedAdd (count ra) (count rb) of
                  None \<Rightarrow> None
                | Some joined \<Rightarrow>
                    (case checkedAdd joined (- 1) of
                       None \<Rightarrow> None
                     | Some joinedCount \<Rightarrow> single_piece s (stride ra) joinedCount))
          else let (big, small) = (if count rb \<le> count ra then (ra, rb) else (rb, ra))
               in if int budget < count small then None
                  else those (map (expand_piece s small big) [0..count small - 1])))"

text \<open>The first piece of all is pushed as it is, every later one is inserted.\<close>

fun add_pieces :: "run list \<Rightarrow> run_set \<times> nat \<Rightarrow> (run_set \<times> nat) option" where
  "add_pieces [] st = Some st"
| "add_pieces (p # ps) (out, budget) =
     (if out = [] then add_pieces ps ([p], budget)
      else case insertRun out p budget of None \<Rightarrow> None | Some st \<Rightarrow> add_pieces ps st)"

fun sum_pairs :: "(run \<times> run) list \<Rightarrow> run_set \<times> nat \<Rightarrow> (run_set \<times> nat) option" where
  "sum_pairs [] st = Some st"
| "sum_pairs ((ra, rb) # prs) st =
     (case pair_pieces ra rb (snd st) of
        None \<Rightarrow> None
      | Some pieces \<Rightarrow>
          (case add_pieces pieces st of None \<Rightarrow> None | Some st' \<Rightarrow> sum_pairs prs st'))"

definition rs_sum :: "run_set \<Rightarrow> run_set \<Rightarrow> run_set option" where
  "rs_sum a b =
     (case sum_by_bitmap a b of
        Some out \<Rightarrow> Some out
      | None \<Rightarrow>
     (case sum_by_enumeration a b of
        Some res \<Rightarrow> res
      | None \<Rightarrow>
     (case sum_pairs (List.product a b) ([], kOpBudget) of
        None \<Rightarrow> None
      | Some (out, _) \<Rightarrow> Some (coalesce out))))"

subsection \<open>Padding\<close>

definition padUp :: "int \<Rightarrow> int \<Rightarrow> int option" where
  "padUp alignment v =
     (let rem = v smod alignment
      in if rem = 0 then Some v
         else if 0 < v then checkedAdd v (alignment - rem)
         else Some (v - rem))"

text \<open>The phase classes of a run, from class \<open>j\<close> on.\<close>

function pad_classes :: "run \<Rightarrow> int \<Rightarrow> int \<Rightarrow> int \<Rightarrow> int \<Rightarrow> run list option" where
  "pad_classes r alignment period classes j =
     (if classes \<le> j then Some []
      else case checkedMultiply j (stride r) of
             None \<Rightarrow> None
           | Some off \<Rightarrow>
               (case checkedAdd (start r) off of
                  None \<Rightarrow> None
                | Some classStart \<Rightarrow>
                    if run_last r < classStart then Some []
                    else let n = (run_last r - classStart) sdiv period + 1
                         in case padUp alignment classStart of
                              None \<Rightarrow> None
                            | Some s \<Rightarrow>
                                (case makeRun s period n of
                                   None \<Rightarrow> None
                                 | Some p \<Rightarrow>
                                     (case pad_classes r alignment period classes (j + 1) of
                                        None \<Rightarrow> None
                                      | Some ps \<Rightarrow> Some (p # ps)))))"
  by pat_completeness auto
termination by (relation "measure (\<lambda>(r, a, p, c, j). nat (c - j))") auto

declare pad_classes.simps [simp del]

definition pad_pieces :: "int \<Rightarrow> run \<Rightarrow> nat \<Rightarrow> run list option" where
  "pad_pieces alignment r budget =
     (if stride r smod alignment = 0
      then (case padUp alignment (start r) of
              None \<Rightarrow> None
            | Some s \<Rightarrow> single_piece s (stride r) (count r))
      else let g = gcd (stride r) alignment
           in case checkedMultiply (stride r sdiv g) alignment of
                None \<Rightarrow> None
              | Some period \<Rightarrow>
                  let classes = period sdiv stride r
                  in if int budget < classes then None
                     else pad_classes r alignment period classes 0)"

fun pad_runs :: "int \<Rightarrow> run list \<Rightarrow> run_set \<times> nat \<Rightarrow> (run_set \<times> nat) option" where
  "pad_runs alignment [] st = Some st"
| "pad_runs alignment (r # rs) st =
     (case pad_pieces alignment r (snd st) of
        None \<Rightarrow> None
      | Some pieces \<Rightarrow>
          (case add_pieces pieces st of None \<Rightarrow> None | Some st' \<Rightarrow> pad_runs alignment rs st'))"

definition paddedTo :: "run_set \<Rightarrow> int \<Rightarrow> run_set option" where
  "paddedTo rs alignment =
     (if alignment \<le> 1 then Some rs
      else case pad_runs alignment rs ([], kOpBudget) of
             None \<Rightarrow> None
           | Some (out, _) \<Rightarrow> Some (coalesce out))"

section \<open>Exactness of union, sum and padding\<close>

lemma insert_all_correct:
  "insert_all rs (out, b) = Some (out', b') \<Longrightarrow> rs_ok out \<Longrightarrow> \<forall>r\<in>set rs. run_ok r \<Longrightarrow>
    rs_ok out' \<and> runs_set out' = runs_set out \<union> runs_set rs"
proof (induction rs arbitrary: out b)
  case (Cons r rs)
  then obtain o1 b1 where i: "insertRun out r b = Some (o1, b1)" "insert_all rs (o1, b1) = Some (out', b')"
    by (auto split: option.splits)
  have ok: "runs_ok out" "i64 (start r)" "i64 (count r)"
    using Cons.prems run_okD(5,6) [of r] by (auto simp: rs_ok_iff)
  note I = insertRun_correct [OF i(1) ok]
  from Cons.IH [OF i(2) I(1)] show ?case using I(2) Cons.prems(3)
    by (auto simp: run_set_def)
qed simp

lemma materialize_Some:
  assumes "rs_materialize rs limit = Some vs" "rs_ok rs"
  shows "flat_ok vs" "set vs = runs_set rs" "vs \<noteq> []" "\<forall>v\<in>set vs. i64 v"
proof -
  have v: "vs = sorted_list_of_set (runs_set rs)"
    using assms by (auto simp: rs_materialize_exact rs_ok_iff split: if_splits)
  show "flat_ok vs" by (simp add: v)
  show s: "set vs = runs_set rs" by (simp add: v)
  show "vs \<noteq> []" "\<forall>v\<in>set vs. i64 v"
    using runs_set_nonempty [OF assms(2)] runs_set_i64 [OF assms(2)] s by auto
qed

lemma unite_exact:
  assumes u: "unite a b = Some c" and ok: "rs_ok a" "rs_ok b"
  shows "rs_ok c \<and> runs_set c = runs_set a \<union> runs_set b"
proof -
  consider (small) ma mb where "rs_materialize a (nat kEnumUnionLimit) = Some ma"
      "rs_materialize b (nat kEnumUnionLimit) = Some mb" "c = fromValues (flat_insert_range ma mb)"
    | (structural) out budget where "insert_all b (a, kOpBudget) = Some (out, budget)" "c = coalesce out"
    using u unfolding unite_def Let_def by (auto split: option.splits if_splits)
  then show ?thesis
  proof cases
    case small
    note A = materialize_Some [OF small(1) ok(1)] and B = materialize_Some [OF small(2) ok(2)]
    have s: "set (flat_insert_range ma mb) = runs_set a \<union> runs_set b" using A(2) B(2) by simp
    have "flat_insert_range ma mb \<noteq> []" using A(3) set_flat_insert_range [of ma mb] by force
    moreover have "\<forall>x\<in>runs_set a \<union> runs_set b. i64 x" using A B by auto
    ultimately show ?thesis
      using fromValues_correct [OF flat_insert_range_ok [OF A(1)], of mb] small(3)
      unfolding s by simp
  next
    case structural
    have "\<forall>r\<in>set b. run_ok r" using ok by (simp add: rs_ok_def)
    then show ?thesis using insert_all_correct [OF structural(1) ok(1)] coalesce_correct structural(2) by auto
  qed
qed

subsection \<open>The sum by bitmap\<close>

lemma bitmap_sums_correct:
  assumes S: "\<forall>v\<in>set ms. minS \<le> v \<and> v \<le> maxS" and L: "\<forall>v\<in>set ml. minL \<le> v \<and> v \<le> maxL"
    and le: "minS \<le> maxS" "minL \<le> maxL"
    and w: "words = (nat (maxS - minS + 1) + 63) div 64"
    and span: "span = nat (maxS + maxL - (minS + minL) + 1)"
  shows "flat_ok (bitmap_sums (minS + minL) minS words span ms ml)"
    "set (bitmap_sums (minS + minL) minS words span ms ml) = msum (set ms) (set ml)"
proof -
  let ?sb = "occupancy minS words ms"
  let ?lo = "minS + minL"
  define rw where "rw = (span + 63) div 64"
  have words: "maxS - minS < 64 * int words" unfolding w using le by linarith
  have sb: "bits_set ?sb = (\<lambda>v. nat (v - minS)) ` set ms"
    using S words by (intro bits_occupancy) fastforce
  have fit: "nat ((x + minS) - ?lo) div 64 + words < rw + 1" if "x \<in> set ml" for x
  proof -
    have x: "minL \<le> x" "x \<le> maxL" using that L by auto
    have "nat ((x + minS) - ?lo) + nat (maxS - minS + 1) \<le> span"
      unfolding span using x le by simp
    then show ?thesis unfolding rw_def w by linarith
  qed
  have *: "length (fold (\<lambda>x. or_shifted ?sb (nat ((x + minS) - ?lo))) xs r) = rw + 1 \<and>
      bits_set (fold (\<lambda>x. or_shifted ?sb (nat ((x + minS) - ?lo))) xs r) =
      bits_set r \<union> {nat ((x + minS) - ?lo) + b |x b. x \<in> set xs \<and> b \<in> bits_set ?sb}"
    if "set xs \<subseteq> set ml" "length r = rw + 1" for xs r
    using that
  proof (induction xs arbitrary: r)
    case (Cons x xs)
    have o: "nat ((x + minS) - ?lo) div 64 + length ?sb < length r" using fit [of x] Cons.prems by simp
    note O = bits_or_shifted [OF o]
    show ?case using Cons.IH [of "or_shifted ?sb (nat ((x + minS) - ?lo)) r"] Cons.prems O
      by auto
  qed simp
  have "nat ((x + minS) - ?lo) + nat (v - minS) = nat (v + x - ?lo)" if "x \<in> set ml" "v \<in> set ms" for x v
    using that L S by (simp add: nat_add_distrib [symmetric] algebra_simps)
  then have "{nat ((x + minS) - ?lo) + nat (v - minS) |x v. x \<in> set ml \<and> v \<in> set ms} =
      {nat (v + x - ?lo) |x v. x \<in> set ml \<and> v \<in> set ms}"
    by (intro Collect_cong) (metis (no_types, opaque_lifting))
  moreover have "{nat ((x + minS) - ?lo) + b |x b. x \<in> set ml \<and> b \<in> bits_set ?sb} =
      {nat ((x + minS) - ?lo) + nat (v - minS) |x v. x \<in> set ml \<and> v \<in> set ms}"
    unfolding sb by blast
  moreover have "(\<lambda>z. nat (z - ?lo)) ` msum (set ms) (set ml) = {nat (v + x - ?lo) |x v. x \<in> set ml \<and> v \<in> set ms}"
    unfolding msum_def by blast
  ultimately have "{nat ((x + minS) - ?lo) + b |x b. x \<in> set ml \<and> b \<in> bits_set ?sb} =
      (\<lambda>z. nat (z - ?lo)) ` msum (set ms) (set ml)" by metis
  then have b: "bits_set (fold (\<lambda>x. or_shifted ?sb (nat ((x + minS) - ?lo))) ml (replicate (rw + 1) 0)) =
      (\<lambda>z. nat (z - ?lo)) ` msum (set ms) (set ml)"
    using conjunct2 [OF * [OF subset_refl length_replicate]] by (simp only: bits_set_zero Un_empty_left)
  have "?lo \<le> z" if "z \<in> msum (set ms) (set ml)" for z using that S L by (fastforce simp: msum_def)
  then have "(\<lambda>n. ?lo + int n) ` (\<lambda>z. nat (z - ?lo)) ` msum (set ms) (set ml) = msum (set ms) (set ml)"
    by (force simp: image_image)
  then show "flat_ok (bitmap_sums (minS + minL) minS words span ms ml)"
    "set (bitmap_sums (minS + minL) minS words span ms ml) = msum (set ms) (set ml)"
    unfolding bitmap_sums_def Let_def rw_def [symmetric] using b bitmap_values_correct by auto
qed

lemma min_max_bounds:
  assumes "rs_ok rs"
  shows "\<forall>v\<in>runs_set rs. rs_min rs \<le> v \<and> v \<le> rs_max rs" "rs_min rs \<le> rs_max rs"
    "rs_min rs \<in> runs_set rs" "rs_max rs \<in> runs_set rs"
  using runs_set_nonempty [OF assms] Min_in [of "runs_set rs"] Max_in [of "runs_set rs"]
  by (auto simp: rs_min_exact rs_max_exact assms)

lemma msum_i64:
  assumes "rs_ok a" "rs_ok b" "i64 (rs_min a + rs_min b)" "i64 (rs_max a + rs_max b)"
    "z \<in> msum (runs_set a) (runs_set b)"
  shows "i64 z"
proof -
  obtain x y where "z = x + y" "x \<in> runs_set a" "y \<in> runs_set b" using assms(5) by blast
  then have "rs_min a + rs_min b \<le> z" "z \<le> rs_max a + rs_max b"
    using min_max_bounds(1) [OF assms(1)] min_max_bounds(1) [OF assms(2)] by (auto intro: add_mono)
  then show ?thesis using i64_between assms(3,4) by blast
qed

lemma bitmap_branch:
  assumes ok: "rs_ok s" "rs_ok l"
    and m: "rs_materialize s n = Some ms" "rs_materialize l n = Some ml"
    and i: "i64 (rs_min s + rs_min l)" "i64 (rs_max s + rs_max l)"
    and c: "c = fromValues (bitmap_sums (rs_min s + rs_min l) (rs_min s)
         ((nat (rs_max s - rs_min s + 1) + 63) div 64)
         (nat (rs_max s + rs_max l - (rs_min s + rs_min l) + 1)) ms ml)"
  shows "rs_ok c \<and> runs_set c = msum (runs_set s) (runs_set l)"
proof -
  note M = materialize_Some [OF m(1) ok(1)] and N = materialize_Some [OF m(2) ok(2)]
  have mm: "\<forall>v\<in>set ms. rs_min s \<le> v \<and> v \<le> rs_max s" "\<forall>v\<in>set ml. rs_min l \<le> v \<and> v \<le> rs_max l"
    unfolding M(2) N(2) using min_max_bounds(1) ok by blast+
  note B = bitmap_sums_correct [OF mm min_max_bounds(2) [OF ok(1)] min_max_bounds(2) [OF ok(2)] refl refl,
      unfolded M(2) N(2)]
  note F = fromValues_correct [OF B(1), folded c, unfolded B(2)]
  have "\<forall>z\<in>msum (runs_set s) (runs_set l). i64 z" using msum_i64 ok i by blast
  moreover have "msum (runs_set s) (runs_set l) \<noteq> {}" by (simp add: msum_nonempty runs_set_nonempty ok)
  then have "bitmap_sums (rs_min s + rs_min l) (rs_min s) ((nat (rs_max s - rs_min s + 1) + 63) div 64)
         (nat (rs_max s + rs_max l - (rs_min s + rs_min l) + 1)) ms ml \<noteq> []"
    using B(2) by force
  ultimately show ?thesis using F by simp
qed

lemma sum_by_bitmap_exact:
  assumes s: "sum_by_bitmap a b = Some c" and ok: "rs_ok a" "rs_ok b"
  shows "rs_ok c \<and> runs_set c = msum (runs_set a) (runs_set b)"
proof -
  have ord: "rs_min a + rs_min b \<le> rs_max a + rs_max b"
    using min_max_bounds(2) [OF ok(1)] min_max_bounds(2) [OF ok(2)] by linarith
  have r: "int64_min \<le> rs_min a + rs_min b" "rs_max a + rs_max b \<le> int64_max"
    using s by (auto simp: sum_by_bitmap_def Let_def split: if_splits)
  then have i: "i64 (rs_min a + rs_min b)" "i64 (rs_max a + rs_max b)"
    using ord by (auto simp: i64_def)
  show ?thesis
  proof (cases "rs_max a - rs_min a \<le> rs_max b - rs_min b")
    case True
    then show ?thesis using s bitmap_branch [OF ok _ _ i]
      by (auto simp: sum_by_bitmap_def Let_def split: if_splits option.splits)
  next
    case False
    then show ?thesis using s bitmap_branch [OF ok(2,1)] i
      by (auto simp: sum_by_bitmap_def Let_def add.commute msum_commute [of "runs_set a"] split: if_splits option.splits)
  qed
qed

subsection \<open>The sum by enumeration\<close>

lemma those_Some: "those xs = Some ys \<longleftrightarrow> xs = map Some ys"
proof (induction xs arbitrary: ys)
  case (Cons x xs)
  then show ?case by (cases ys) (auto split: option.splits)
qed auto

lemma sum_by_enumeration_exact:
  assumes s: "sum_by_enumeration a b = Some (Some c)" and ok: "rs_ok a" "rs_ok b"
  shows "rs_ok c \<and> runs_set c = msum (runs_set a) (runs_set b)"
proof -
  obtain ma mb vs where m: "rs_materialize a (nat kEnumSumLimit) = Some ma"
    "rs_materialize b (nat kEnumSumLimit) = Some mb"
    "those (concat (map (\<lambda>x. map (checkedAdd x) mb) ma)) = Some vs" "c = fromValues (sortAndUnique vs)"
    using s by (auto simp: sum_by_enumeration_def split: option.splits if_splits)
  note A = materialize_Some [OF m(1) ok(1)] and B = materialize_Some [OF m(2) ok(2)]
  have "Some ` set vs = set (concat (map (\<lambda>x. map (checkedAdd x) mb) ma))"
    using m(3) by (simp add: those_Some)
  also have "\<dots> = (\<lambda>(x, y). checkedAdd x y) ` (set ma \<times> set mb)" by force
  finally have e: "Some ` set vs = (\<lambda>(x, y). checkedAdd x y) ` (set ma \<times> set mb)" .
  have "set vs = msum (set ma) (set mb)" "\<forall>v\<in>set vs. i64 v"
  proof -
    have 1: "\<exists>x\<in>set ma. \<exists>y\<in>set mb. v = x + y \<and> i64 v" if "v \<in> set vs" for v
    proof -
      have "Some v \<in> (\<lambda>(x, y). checkedAdd x y) ` (set ma \<times> set mb)" using that e by blast
      then show ?thesis by (force simp: checkedAdd_def split: if_splits)
    qed
    have 2: "x + y \<in> set vs" if "x \<in> set ma" "y \<in> set mb" for x y
    proof -
      have "checkedAdd x y \<in> Some ` set vs" using that e by blast
      then show ?thesis by (auto simp: checkedAdd_def split: if_splits)
    qed
    show "set vs = msum (set ma) (set mb)" "\<forall>v\<in>set vs. i64 v" using 1 2 by (auto simp: msum_def) blast+
  qed
  moreover from this have "sortAndUnique vs \<noteq> []"
    using set_sortAndUnique [of vs] msum_nonempty [of "set ma" "set mb"] A(3) B(3) by fastforce
  ultimately show ?thesis
    using fromValues_correct [OF sortAndUnique_ok, of vs] m(4) A(2) B(2) by simp
qed

subsection \<open>The structural sum\<close>

lemma aprog_sum_same:
  assumes "1 \<le> n" "1 \<le> m"
  shows "msum (aprog a d n) (aprog b d m) = aprog (a + b) d (n + m - 1)"
proof
  show "msum (aprog a d n) (aprog b d m) \<subseteq> aprog (a + b) d (n + m - 1)"
  proof
    fix z assume "z \<in> msum (aprog a d n) (aprog b d m)"
    then obtain i j where "z = (a + i * d) + (b + j * d)" "0 \<le> i" "i < n" "0 \<le> j" "j < m"
      by (auto simp: aprog_def)
    then have "z = a + b + (i + j) * d \<and> 0 \<le> i + j \<and> i + j < n + m - 1" by (simp add: algebra_simps)
    then show "z \<in> aprog (a + b) d (n + m - 1)" unfolding aprog_def by blast
  qed
  show "aprog (a + b) d (n + m - 1) \<subseteq> msum (aprog a d n) (aprog b d m)"
  proof
    fix z assume "z \<in> aprog (a + b) d (n + m - 1)"
    then obtain k where k: "z = a + b + k * d" "0 \<le> k" "k < n + m - 1" by (auto simp: aprog_def)
    let ?i = "min k (n - 1)"
    have "a + ?i * d \<in> aprog a d n" using k assms by (auto simp: aprog_def)
    moreover have "b + (k - ?i) * d \<in> aprog b d m" using k assms by (auto simp: aprog_def)
    moreover have "z = (a + ?i * d) + (b + (k - ?i) * d)" using k by (simp add: algebra_simps)
    ultimately show "z \<in> msum (aprog a d n) (aprog b d m)" by blast
  qed
qed

lemma aprog_sum_shifts:
  "msum (aprog a d n) (aprog b e m) = (\<Union>i\<in>{0..<m}. aprog (a + b + i * e) d n)"
proof
  show "msum (aprog a d n) (aprog b e m) \<subseteq> (\<Union>i\<in>{0..<m}. aprog (a + b + i * e) d n)"
  proof
    fix z assume "z \<in> msum (aprog a d n) (aprog b e m)"
    then obtain x y where "z = x + y" "x \<in> aprog a d n" "y \<in> aprog b e m" by (rule msumE)
    then obtain i j where "z = (a + i * d) + (b + j * e)" "0 \<le> i" "i < n" "0 \<le> j" "j < m"
      by (auto simp: aprog_def)
    moreover from this have "z = (a + b + j * e) + i * d" by simp
    ultimately show "z \<in> (\<Union>i\<in>{0..<m}. aprog (a + b + i * e) d n)" unfolding aprog_def by auto
  qed
  show "(\<Union>i\<in>{0..<m}. aprog (a + b + i * e) d n) \<subseteq> msum (aprog a d n) (aprog b e m)"
  proof
    fix z assume "z \<in> (\<Union>i\<in>{0..<m}. aprog (a + b + i * e) d n)"
    then obtain i j where z: "z = (a + b + j * e) + i * d" "0 \<le> i" "i < n" "0 \<le> j" "j < m"
      by (auto simp: aprog_def)
    then have "a + i * d \<in> aprog a d n" "b + j * e \<in> aprog b e m" unfolding aprog_def by blast+
    moreover have "z = (a + i * d) + (b + j * e)" using z by simp
    ultimately show "z \<in> msum (aprog a d n) (aprog b e m)" by blast
  qed
qed

lemma single_piece_Some:
  assumes "single_piece st sd n = Some ps" "i64 st" "n \<le> int64_max"
  shows "ps \<noteq> [] \<and> (\<forall>p\<in>set ps. run_ok p) \<and> runs_set ps = aprog st sd n"
  using assms makeRun_Some [OF _ assms(2,3)] by (auto simp: single_piece_def split: option.splits)

lemma expand_piece_Some:
  assumes "expand_piece s small big i = Some p" "run_ok big"
  shows "run_ok p \<and> run_set p = aprog (s + i * stride small) (stride big) (count big)"
  using assms makeRun_Some [of "s + i * stride small" "stride big" "count big" p] run_okD(6) [OF assms(2)]
  by (auto simp: expand_piece_def i64_def split: option.splits)

lemma expand_pieces:
  assumes "those (map (expand_piece s small big) [0..count small - 1]) = Some ps"
    "run_ok big" "run_ok small" "s = start big + start small"
  shows "ps \<noteq> [] \<and> (\<forall>p\<in>set ps. run_ok p) \<and> runs_set ps = msum (run_set big) (run_set small)"
proof -
  have m: "map (expand_piece s small big) [0..count small - 1] = map Some ps"
    using assms(1) by (simp add: those_Some)
  have 1: "\<exists>i\<in>{0..<count small}. run_ok p \<and> run_set p = aprog (s + i * stride small) (stride big) (count big)"
    if "p \<in> set ps" for p
  proof -
    have "Some p \<in> set (map (expand_piece s small big) [0..count small - 1])" using that m by simp
    then obtain i where "i \<in> {0..<count small}" "expand_piece s small big i = Some p" by auto
    then show ?thesis using expand_piece_Some assms(2) by blast
  qed
  have 2: "\<exists>p\<in>set ps. run_set p = aprog (s + i * stride small) (stride big) (count big)"
    if "i \<in> {0..<count small}" for i
  proof -
    have "expand_piece s small big i \<in> set (map Some ps)" using that unfolding m [symmetric] by auto
    then show ?thesis using expand_piece_Some assms(2) by force
  qed
  have "runs_set ps = (\<Union>i\<in>{0..<count small}. aprog (s + i * stride small) (stride big) (count big))"
    using 1 2 unfolding runs_set_def by blast
  moreover have "ps \<noteq> []" using 2 [of 0] run_okD(1) [OF assms(3)] by auto
  ultimately show ?thesis using 1 unfolding run_set_def aprog_sum_shifts assms(4) by auto
qed

lemma pair_pieces_exact:
  assumes p: "pair_pieces ra rb budget = Some ps" and ok: "run_ok ra" "run_ok rb"
  shows "ps \<noteq> [] \<and> (\<forall>p\<in>set ps. run_ok p) \<and> runs_set ps = msum (run_set ra) (run_set rb)"
proof -
  let ?s = "start ra + start rb"
  note A = run_okD [OF ok(1)] and B = run_okD [OF ok(2)]
  have s: "i64 ?s" using p by (auto simp: pair_pieces_def split: option.splits)
  have cm: "count ra \<le> int64_max" "count rb \<le> int64_max" using A(6) B(6) by (auto simp: i64_def)
  have one: "run_set r = {start r}" if "count r = 1" for r using that by (simp add: run_set_def)
  consider (a) "count ra = 1" "count rb = 1" "single_piece ?s 1 1 = Some ps"
    | (b) "count ra = 1" "single_piece ?s (stride rb) (count rb) = Some ps"
    | (c) "count rb = 1" "single_piece ?s (stride ra) (count ra) = Some ps"
    | (d) "stride ra = stride rb" "i64 (count ra + count rb - 1)"
        "single_piece ?s (stride ra) (count ra + count rb - 1) = Some ps"
    | (e) "those (map (expand_piece ?s rb ra) [0..count rb - 1]) = Some ps"
    | (f) "those (map (expand_piece ?s ra rb) [0..count ra - 1]) = Some ps"
    using p unfolding pair_pieces_def Let_def
    by (auto split: option.splits if_splits)
  then show ?thesis
  proof cases
    case a
    then show ?thesis
      using single_piece_Some [OF a(3) s] one by (simp add: msum_singleton int64_max_def)
  next
    case b
    have "msum (run_set ra) (run_set rb) = aprog ?s (stride rb) (count rb)"
      unfolding one [OF b(1)] msum_singleton by (simp add: run_set_def aprog_image image_image algebra_simps)
    then show ?thesis using single_piece_Some [OF b(2) s cm(2)] by simp
  next
    case c
    have "msum (run_set ra) (run_set rb) = aprog ?s (stride ra) (count ra)"
      unfolding one [OF c(1)] msum_singleton by (simp add: run_set_def aprog_image image_image algebra_simps)
    then show ?thesis using single_piece_Some [OF c(2) s cm(1)] by simp
  next
    case d
    have "count ra + count rb - 1 \<le> int64_max" using d(2) by (simp add: i64_def)
    then show ?thesis
      using single_piece_Some [OF d(3) s] d(1) A(1) B(1) by (simp add: run_set_def aprog_sum_same)
  next
    case e
    then show ?thesis using expand_pieces [OF e ok] by simp
  next
    case f
    then show ?thesis using expand_pieces [OF f ok(2,1)] by (simp add: add.commute msum_commute)
  qed
qed

lemma add_pieces_correct:
  assumes "add_pieces ps (out, b) = Some (out', b')" "out = [] \<or> rs_ok out" "\<forall>p\<in>set ps. run_ok p"
  shows "(out' = [] \<longleftrightarrow> out = [] \<and> ps = []) \<and> (out' = [] \<or> rs_ok out')
    \<and> runs_set out' = runs_set out \<union> runs_set ps"
  using assms
proof (induction ps arbitrary: out b)
  case (Cons p ps)
  show ?case
  proof (cases "out = []")
    case True
    then have "add_pieces ps ([p], b) = Some (out', b')" using Cons.prems by simp
    from Cons.IH [OF this] show ?thesis using True Cons.prems(3) by (auto simp: single_rs_ok)
  next
    case False
    then obtain o1 b1 where i: "insertRun out p b = Some (o1, b1)" "add_pieces ps (o1, b1) = Some (out', b')"
      using Cons.prems(1) by (auto split: option.splits)
    have "runs_ok out" "i64 (start p)" "i64 (count p)"
      using Cons.prems False run_okD(5,6) [of p] by (auto simp: rs_ok_iff)
    note I = insertRun_correct [OF i(1) this]
    have "o1 \<noteq> []" using I(1) by (simp add: rs_ok_iff)
    moreover have "\<forall>p\<in>set ps. run_ok p" using Cons.prems by simp
    ultimately show ?thesis using Cons.IH [OF i(2)] I False by (auto simp: run_set_def)
  qed
qed simp

lemma sum_pairs_correct:
  assumes "sum_pairs prs st = Some st'" "fst st = [] \<or> rs_ok (fst st)"
    "\<forall>(a, b)\<in>set prs. run_ok a \<and> run_ok b"
  shows "(fst st' = [] \<longrightarrow> prs = []) \<and> (fst st' = [] \<or> rs_ok (fst st'))
    \<and> runs_set (fst st') = runs_set (fst st) \<union> (\<Union>(a, b)\<in>set prs. msum (run_set a) (run_set b))"
  using assms
proof (induction prs st rule: sum_pairs.induct)
  case (2 ra rb prs st)
  obtain ps st1 where p: "pair_pieces ra rb (snd st) = Some ps" "add_pieces ps st = Some st1"
    "sum_pairs prs st1 = Some st'"
    using "2.prems"(1) by (auto split: option.splits)
  have ok: "run_ok ra" "run_ok rb" using "2.prems" by auto
  note P = pair_pieces_exact [OF p(1) ok]
  note A = add_pieces_correct [of ps "fst st" "snd st" "fst st1" "snd st1"]
  have A: "fst st1 \<noteq> []" "rs_ok (fst st1)"
    "runs_set (fst st1) = runs_set (fst st) \<union> msum (run_set ra) (run_set rb)"
    using A p(2) P "2.prems"(2) by auto
  have rest: "\<forall>(a, b)\<in>set prs. run_ok a \<and> run_ok b" using "2.prems" by simp
  have "fst st' \<noteq> []"
    using "2.IH" [OF p(1,2,3) _ rest] A runs_set_nonempty [OF A(2)] by (metis Un_empty runs_set_simps(1))
  then show ?case using "2.IH" [OF p(1,2,3) _ rest] A by auto
qed auto

lemma rs_sum_exact:
  assumes s: "rs_sum a b = Some c" and ok: "rs_ok a" "rs_ok b"
  shows "rs_ok c \<and> runs_set c = msum (runs_set a) (runs_set b)"
proof -
  consider "sum_by_bitmap a b = Some c" | "sum_by_enumeration a b = Some (Some c)"
    | (pairs) st where "sum_pairs (List.product a b) ([], kOpBudget) = Some st" "c = coalesce (fst st)"
    using s by (auto simp: rs_sum_def split: option.splits)
  then show ?thesis
  proof cases
    case pairs
    have "\<forall>(x, y)\<in>set (List.product a b). run_ok x \<and> run_ok y" using ok by (auto simp: rs_ok_def)
    note S = sum_pairs_correct [OF pairs(1) _ this]
    have "List.product a b \<noteq> []" using ok by (cases a; cases b) (auto simp: rs_ok_def)
    then have "rs_ok (fst st)" using S by auto
    moreover have "runs_set (fst st) = msum (runs_set a) (runs_set b)"
      using S unfolding runs_set_def msum_UN by auto
    ultimately show ?thesis using coalesce_correct pairs(2) by simp
  qed (use sum_by_bitmap_exact sum_by_enumeration_exact ok in blast)+
qed

subsection \<open>Padding\<close>

lemma padUp_exact: "1 < alignment \<Longrightarrow> padUp alignment v = Some w \<Longrightarrow> i64 v \<Longrightarrow>
  w = round_up v alignment \<and> i64 w"
proof -
  assume a: "1 < alignment" and p: "padUp alignment v = Some w" and v: "i64 v"
  show ?thesis
  proof (cases "v smod alignment = 0")
    case True
    then have "alignment dvd v" using smod_eq_0_iff a by simp
    then show ?thesis using p True v by (simp add: padUp_def round_up_id)
  next
    case F: False
    show ?thesis
    proof (cases "0 < v")
      case True
      then have "v smod alignment = v mod alignment" using a by (simp add: smod_eq_mod)
      then show ?thesis using p F True a by (auto simp: padUp_def round_up_eq_if Let_def)
    next
      case False
      have "v smod alignment = - ((- v) mod alignment)"
        using False a by (cases "v = 0") (auto simp: signed_modulo_int_def)
      then have w: "w = round_up v alignment" using p F False by (simp add: padUp_def round_up_def)
      have "v \<le> w" using w round_up_ge a by simp
      moreover have "w \<le> 0" using round_up_mono [of alignment v 0] a False w by (simp add: round_up_id)
      ultimately show ?thesis using w v i64_between [OF v i64_0] by blast
    qed
  qed
qed

lemma round_up_aprog:
  assumes "0 < a" "a dvd d"
  shows "(\<lambda>v. round_up v a) ` aprog s d n = aprog (round_up s a) d n"
proof -
  have "round_up (s + i * d) a = round_up s a + i * d" for i
    using assms by (simp add: round_up_add)
  then show ?thesis by (simp add: aprog_image image_image)
qed

text \<open>The members of one phase class, as a progression.\<close>

lemma phase_class:
  assumes ok: "run_ok r" and cs: "cs \<in> run_set r" and P: "0 < P" "stride r dvd P"
  shows "aprog cs P ((run_last r - cs) sdiv P + 1) = {x \<in> run_set r. P dvd (x - cs) \<and> cs \<le> x}"
proof -
  note C = cs [unfolded mem_run_set [OF ok]]
  have n: "(run_last r - cs) sdiv P = (run_last r - cs) div P" using C P by (simp add: sdiv_eq_div)
  have d: "0 \<le> (run_last r - cs) div P" using C P by (simp add: pos_imp_zdiv_nonneg_iff)
  have "x \<in> run_set r \<longleftrightarrow> x \<le> run_last r" if "P dvd (x - cs)" "cs \<le> x" for x
  proof -
    have "stride r dvd (x - cs) + (cs - start r)" using that(1) P(2) C by (intro dvd_add) (auto intro: dvd_trans)
    then show ?thesis using that C by (simp add: mem_run_set [OF ok])
  qed
  moreover have "x \<le> cs + (run_last r - cs) div P * P \<longleftrightarrow> x \<le> run_last r" if "P dvd (x - cs)" for x
  proof -
    from that obtain k where k: "x - cs = P * k" by (rule dvdE)
    have "x \<le> run_last r \<longleftrightarrow> k * P \<le> run_last r - cs" using k by (auto simp: mult.commute)
    also have "\<dots> \<longleftrightarrow> k \<le> (run_last r - cs) div P" 
      using int_div_less_iff [OF P(1), of "run_last r - cs" k] by (auto simp: mult.commute)
    also have "\<dots> \<longleftrightarrow> k * P \<le> (run_last r - cs) div P * P" using P(1) by simp
    finally show ?thesis using k by (auto simp: mult.commute)
  qed
  ultimately show ?thesis using P d by (auto simp: n mem_aprog)
qed

text \<open>The phase classes from \<open>j\<close> on, each padded as a whole.\<close>

lemma pad_classes_exact:
  assumes "pad_classes r alignment period classes j = Some ps" "run_ok r" "1 < alignment"
    "alignment dvd period" "period = classes * stride r" "0 \<le> j" "0 < classes"
  shows "(\<forall>p\<in>set ps. run_ok p) \<and>
    runs_set ps = (\<lambda>v. round_up v alignment) `
      (\<Union>i\<in>{j..<classes}. {x \<in> run_set r. period dvd (x - (start r + i * stride r)) \<and> start r + i * stride r \<le> x})
    \<and> (ps = [] \<longrightarrow> classes \<le> j \<or> run_last r < start r + j * stride r)"
  using assms
proof (induction r alignment period classes j arbitrary: ps rule: pad_classes.induct)
  case (1 r a period classes j)
  note R = run_okD [OF "1.prems"(2)]
  show ?case
  proof (cases "classes \<le> j")
    case True
    then show ?thesis using "1.prems" by (simp add: pad_classes.simps [of r])
  next
    case F: False
    note u = "1.prems"(1) [unfolded pad_classes.simps [of r a period classes j] if_not_P [OF F]]
    define cs where "cs = start r + j * stride r"
    have cs: "i64 (j * stride r)" "i64 cs"
      using u by (auto simp: cs_def split: option.splits)
    show ?thesis
    proof (cases "run_last r < cs")
      case True
      have "ps = []" using u True cs by (auto simp: cs_def checkedAdd_def checkedMultiply_def)
      moreover have "\<not> start r + i * stride r \<le> x" if "j \<le> i" "x \<in> run_set r" for i x
      proof -
        have "j * stride r \<le> i * stride r" using that(1) R by (simp add: mult_right_mono)
        then show ?thesis using True that(2) "1.prems"(2) by (auto simp: cs_def mem_run_set)
      qed
      ultimately show ?thesis using True by (auto simp: cs_def)
    next
      case le: False
      define n where "n = (run_last r - cs) sdiv period + 1"
      obtain s p ps' where s: "padUp a cs = Some s" and p: "makeRun s period n = Some p"
        and ps': "pad_classes r a period classes (j + 1) = Some ps'" and ps: "ps = p # ps'"
        using u cs le by (auto simp: cs_def [symmetric] n_def [symmetric] checkedAdd_def checkedMultiply_def Let_def
            split: option.splits)
      have csr: "cs \<in> run_set r" using le R "1.prems"(6) by (simp add: cs_def mem_run_set [OF "1.prems"(2)])
      have per: "0 < period" "stride r dvd period" using "1.prems"(5,7) R by auto
      have "a \<le> period" using "1.prems"(4) per by (simp add: zdvd_imp_le)
      note S = padUp_exact [OF "1.prems"(3) s cs(2)]
      have n: "n \<le> int64_max"
      proof -
        have "0 \<le> j * stride r" using R "1.prems"(6) by simp
        moreover have "run_last r - cs = (count r - 1) * stride r - j * stride r"
          by (simp add: cs_def run_last_def)
        ultimately have d: "0 \<le> run_last r - cs" "run_last r - cs \<le> int64_max"
          using R(8) le by linarith+
        have "(run_last r - cs) div period \<le> (run_last r - cs) div 2"
          using d \<open>a \<le> period\<close> "1.prems"(3) by (intro zdiv_mono2) auto
        then show ?thesis using d per by (simp add: n_def sdiv_eq_div int64_max_def)
      qed
      note M = makeRun_Some [OF p conjunct2 [OF S] n]
      have one: "run_set p = (\<lambda>v. round_up v a) ` {x \<in> run_set r. period dvd (x - cs) \<and> cs \<le> x}"
        using M(2) S round_up_aprog [of a period cs n] "1.prems"(3,4)
          phase_class [OF "1.prems"(2) csr per, folded n_def] by simp
      have IH: "(\<forall>p\<in>set ps'. run_ok p) \<and> runs_set ps' = (\<lambda>v. round_up v a) `
          (\<Union>i\<in>{j + 1..<classes}. {x \<in> run_set r. period dvd (x - (start r + i * stride r)) \<and> start r + i * stride r \<le> x})"
      proof -
        have "checkedMultiply j (stride r) = Some (j * stride r)"
          "checkedAdd (start r) (j * stride r) = Some cs"
          using cs by (simp_all add: cs_def)
        from "1.IH" [OF F this le n_def s p ps' "1.prems"(2-5) _ "1.prems"(7)]
        show ?thesis using "1.prems"(6) by auto
      qed
      have "{j..<classes} = insert j {j + 1..<classes}" using F by auto
      then show ?thesis using IH M(1) one by (auto simp: ps cs_def)
    qed
  qed
qed

lemma pad_pieces_exact:
  assumes p: "pad_pieces a r budget = Some ps" and ok: "run_ok r" and a: "1 < a"
  shows "ps \<noteq> [] \<and> (\<forall>p\<in>set ps. run_ok p) \<and> runs_set ps = (\<lambda>v. round_up v a) ` run_set r"
proof (cases "stride r smod a = 0")
  case True
  then have d: "a dvd stride r" using a by (simp add: smod_eq_0_iff)
  obtain s where s: "padUp a (start r) = Some s" "single_piece s (stride r) (count r) = Some ps"
    using p True by (auto simp: pad_pieces_def split: option.splits)
  have S: "i64 s" "s = round_up (start r) a" using padUp_exact [OF a s(1) run_okD(5) [OF ok]] by auto
  have "count r \<le> int64_max" using run_okD(6) [OF ok] by (simp add: i64_def)
  then show ?thesis
    using single_piece_Some [OF s(2) S(1)] S(2) d a by (simp add: run_set_def round_up_aprog)
next
  case False
  define g where "g = gcd (stride r) a"
  define period where "period = (stride r sdiv g) * a"
  define classes where "classes = period sdiv stride r"
  note R = run_okD [OF ok]
  have g: "0 < g" "g dvd stride r" "g dvd a" using R a by (auto simp: g_def)
  have c: "pad_classes r a period classes 0 = Some ps"
    using p False by (auto simp: pad_pieces_def g_def [symmetric] period_def [symmetric]
        classes_def [symmetric] checkedMultiply_def Let_def split: option.splits if_splits)
  have "period = stride r * (a div g)"
    using g R by (simp add: period_def sdiv_eq_div) (metis dvd_div_mult div_mult_swap)
  then have per: "classes = a div g" "period = classes * stride r" "a dvd period"
    using R g a by (auto simp: classes_def sdiv_eq_div period_def pos_imp_zdiv_nonneg_iff)
  have pos: "0 < classes" using per(1) g a by (simp add: pos_imp_zdiv_pos_iff zdvd_imp_le)
  note C = pad_classes_exact [OF c ok a per(3,2) order_refl pos]
  have "(\<Union>i\<in>{0..<classes}. {x \<in> run_set r. period dvd (x - (start r + i * stride r)) \<and> start r + i * stride r \<le> x}) = run_set r"
  proof (intro equalityI subsetI)
    fix x assume x: "x \<in> run_set r"
    then obtain k where k: "x = start r + k * stride r" "0 \<le> k" using ok by (auto simp: run_set_index)
    have "(k div classes) * (classes * stride r) + (k mod classes) * stride r = k * stride r"
      by (simp add: mult.assoc [symmetric] distrib_right [symmetric])
    then have "x - (start r + (k mod classes) * stride r) = (k div classes) * period"
      unfolding k(1) per(2) by simp
    moreover have "(k mod classes) * stride r \<le> k * stride r" using R pos k by (intro mult_right_mono) (auto simp: zmod_le_nonneg_dividend)
    moreover have "k mod classes \<in> {0..<classes}" using pos by simp
    ultimately show "x \<in> (\<Union>i\<in>{0..<classes}. {x \<in> run_set r. period dvd (x - (start r + i * stride r)) \<and> start r + i * stride r \<le> x})"
      using x k(1) by force
  qed auto
  then show ?thesis using C R pos by auto
qed

lemma pad_runs_correct:
  assumes "pad_runs a rs st = Some st'" "fst st = [] \<or> rs_ok (fst st)" "\<forall>r\<in>set rs. run_ok r" "1 < a"
  shows "(fst st' = [] \<longrightarrow> rs = []) \<and> (fst st' = [] \<or> rs_ok (fst st'))
    \<and> runs_set (fst st') = runs_set (fst st) \<union> (\<lambda>v. round_up v a) ` runs_set rs"
  using assms
proof (induction a rs st rule: pad_runs.induct)
  case (2 a r rs st)
  obtain ps st1 where p: "pad_pieces a r (snd st) = Some ps" "add_pieces ps st = Some st1"
    "pad_runs a rs st1 = Some st'"
    using "2.prems"(1) by (auto split: option.splits)
  note P = pad_pieces_exact [OF p(1) _ "2.prems"(4)]
  note A = add_pieces_correct [of ps "fst st" "snd st" "fst st1" "snd st1"]
  have A: "fst st1 \<noteq> []" "rs_ok (fst st1)"
    "runs_set (fst st1) = runs_set (fst st) \<union> (\<lambda>v. round_up v a) ` run_set r"
    using A p(2) P "2.prems"(2,3) by auto
  have rest: "\<forall>r\<in>set rs. run_ok r" using "2.prems" by simp
  note IH = "2.IH" [OF p(1,2,3) _ rest "2.prems"(4)]
  have "fst st' \<noteq> []"
    using IH A runs_set_nonempty [OF A(2)] by (metis Un_empty runs_set_simps(1))
  then show ?case using IH A by (auto simp: image_Un)
qed auto

lemma paddedTo_exact:
  assumes p: "paddedTo rs a = Some out" and ok: "rs_ok rs"
  shows "rs_ok out \<and> runs_set out = (\<lambda>v. round_up v (max 1 a)) ` runs_set rs"
proof (cases "a \<le> 1")
  case True
  then show ?thesis using p ok by (simp add: paddedTo_def)
next
  case False
  then obtain st where st: "pad_runs a rs ([], kOpBudget) = Some st" "out = coalesce (fst st)"
    using p by (auto simp: paddedTo_def split: option.splits)
  note P = pad_runs_correct [OF st(1)]
  have "rs_ok (fst st)" "runs_set (fst st) = (\<lambda>v. round_up v a) ` runs_set rs"
    using P ok False by (auto simp: rs_ok_def)
  then show ?thesis using coalesce_correct st(2) False by (simp add: max_def)
qed

subsection \<open>Small operands are never refused\<close>

lemma materialize_small:
  assumes "rs_ok rs" "int (card (runs_set rs)) \<le> l" "l \<le> int64_max"
  shows "rs_count rs = Some (int (card (runs_set rs)))"
    and "rs_materialize rs (nat l) = Some (sorted_list_of_set (runs_set rs))"
proof -
  have ok: "runs_ok rs" using assms(1) by (simp add: rs_ok_iff)
  show "rs_count rs = Some (int (card (runs_set rs)))"
    using rs_count_exact [OF ok] assms(2,3) by simp
  show "rs_materialize rs (nat l) = Some (sorted_list_of_set (runs_set rs))"
    using rs_materialize_exact [OF ok, of "nat l"] assms(2,3) by (simp add: le_nat_iff)
qed

lemma limits_i64: "kEnumUnionLimit \<le> int64_max" "kEnumSumLimit \<le> int64_max" "kSumSpanLimit \<le> int64_max"
  by (simp_all add: kEnumUnionLimit_def kEnumSumLimit_def kSumSpanLimit_def int64_max_def)

lemma unite_small:
  assumes ok: "rs_ok a" "rs_ok b"
    and small: "int (card (runs_set a)) + int (card (runs_set b)) \<le> kEnumUnionLimit"
  shows "\<exists>c. unite a b = Some c"
proof -
  note A = materialize_small [OF ok(1) _ limits_i64(1)] and B = materialize_small [OF ok(2) _ limits_i64(1)]
  have "checkedAdd (int (card (runs_set a))) (int (card (runs_set b))) =
      Some (int (card (runs_set a)) + int (card (runs_set b)))"
    using small limits_i64(1) by (auto simp: i64_def int64_min_def)
  then show ?thesis using A B small by (simp add: unite_def Let_def del: checkedAdd_eq_Some)
qed

lemma those_total: "(\<forall>x\<in>set xs. x \<noteq> None) \<Longrightarrow> \<exists>ys. those xs = Some ys"
  by (induction xs) auto

lemma rs_sum_small:
  assumes ok: "rs_ok a" "rs_ok b"
    and small: "int (card (runs_set a)) * int (card (runs_set b)) \<le> kEnumSumLimit"
    and fits: "\<forall>x\<in>runs_set a. \<forall>y\<in>runs_set b. i64 (x + y)"
  shows "\<exists>c. rs_sum a b = Some c"
proof -
  let ?A = "int (card (runs_set a))" and ?B = "int (card (runs_set b))"
  have pos: "0 < ?A" "0 < ?B" using runs_set_nonempty ok by (simp_all add: card_gt_0_iff)
  have "?A * 1 \<le> ?A * ?B" "1 * ?B \<le> ?A * ?B" using pos by (intro mult_left_mono mult_right_mono; simp)+
  then have le: "?A \<le> kEnumSumLimit" "?B \<le> kEnumSumLimit" using small by auto
  note A = materialize_small [OF ok(1) le(1) limits_i64(2)] and B = materialize_small [OF ok(2) le(2) limits_i64(2)]
  have "\<exists>vs. those (concat (map (\<lambda>x. map (checkedAdd x) (sorted_list_of_set (runs_set b))) (sorted_list_of_set (runs_set a)))) = Some vs"
    using fits by (intro those_total) auto
  then have "\<exists>c. sum_by_enumeration a b = Some (Some c)"
    using A B le small by (auto simp: sum_by_enumeration_def)
  then show ?thesis by (auto simp: rs_sum_def split: option.splits)
qed

end
