(* ===== verification/RunRepeat.thy ===== *)
theory RunRepeat
  imports RunOps
begin

text \<open>
  \<^verbatim>\<open>RunSet::repeated\<close>, \<^verbatim>\<open>RunSet::repeatRange\<close> and \<^verbatim>\<open>RunSet::residues\<close> of
  \<^verbatim>\<open>lib/Semantics/RunSet.cpp\<close>. The first two iterate the Minkowski sum until the iterates become
  one dense run, after which the remaining iterations are done in closed form; the theorems show
  that the closed forms are exact.
\<close>

subsection \<open>Repetition\<close>

definition dense_fixpoint :: "run \<Rightarrow> run \<Rightarrow> int \<Rightarrow> int \<Rightarrow> bool" where
  "dense_fixpoint prev cur m M \<longleftrightarrow>
     stride cur = stride prev \<and>
     checkedAdd (start prev) m = Some (start cur) \<and>
     checkedAdd (run_last prev) M = Some (run_last cur)"

definition dense_jump :: "run \<Rightarrow> int \<Rightarrow> int \<Rightarrow> int \<Rightarrow> run_set option" where
  "dense_jump cur remaining m M =
     (case checkedMultiply remaining m of
        None \<Rightarrow> None
      | Some startShift \<Rightarrow>
     (case checkedAdd (start cur) startShift of
        None \<Rightarrow> None
      | Some st \<Rightarrow>
     (case checkedMultiply remaining M of
        None \<Rightarrow> None
      | Some endShift \<Rightarrow>
     (case checkedAdd (run_last cur) endShift of
        None \<Rightarrow> None
      | Some en \<Rightarrow>
     (case makeRunThrough st (stride cur) en of
        None \<Rightarrow> None
      | Some r \<Rightarrow> Some [r])))))"

function repeated_loop :: "run_set \<Rightarrow> int \<Rightarrow> int \<Rightarrow> run_set \<Rightarrow> run_set option" where
  "repeated_loop rs cnt j term =
     (if cnt < j then Some term
      else case rs_sum term rs of
             None \<Rightarrow> None
           | Some next \<Rightarrow>
               if length term = 1 \<and> length next = 1 \<and>
                  dense_fixpoint (hd term) (hd next) (rs_min rs) (rs_max rs)
               then if cnt - j = 0 then Some next
                    else dense_jump (hd next) (cnt - j) (rs_min rs) (rs_max rs)
               else if kMaxIterations \<le> j then None
               else repeated_loop rs cnt (j + 1) next)"
  by pat_completeness auto
termination by (relation "measure (\<lambda>(rs, cnt, j, term). nat (kMaxIterations - j))") auto

declare repeated_loop.simps [simp del]

definition repeated :: "run_set \<Rightarrow> int \<Rightarrow> run_set option" where
  "repeated rs cnt =
     (if cnt \<le> 0 then Some (rs_single 0)
      else if cnt = 1 then Some rs
      else repeated_loop rs cnt 2 rs)"

subsection \<open>Repeated ranges\<close>

text \<open>The range of a singleton \<open>{c}\<close>.\<close>

definition singleton_range :: "int \<Rightarrow> int \<Rightarrow> run_set option" where
  "singleton_range c countMax =
     (if c = 0 then Some (rs_single 0)
      else case checkedAdd countMax 1 of
             None \<Rightarrow> None
           | Some runCount \<Rightarrow>
               let span = countMax * c
               in if span < int64_min \<or> int64_max < span then None
                  else let sd = (if c < 0 then - c else c)
                       in if int64_max < sd
                          then if countMax = 1 then Some (fromValues (flat_of_list [span, 0])) else None
                          else case makeRun (if c < 0 then span else 0) sd runCount of
                                 None \<Rightarrow> None
                               | Some r \<Rightarrow> Some [r])"

function signed_range_loop :: "run_set \<Rightarrow> int \<Rightarrow> int \<Rightarrow> run_set \<Rightarrow> run_set \<Rightarrow> run_set option" where
  "signed_range_loop rs countMax k acc term =
     (case unite acc term of
        None \<Rightarrow> None
      | Some acc' \<Rightarrow>
          if k = countMax then Some acc'
          else if kMaxIterations \<le> k then None
          else case rs_sum term rs of
                 None \<Rightarrow> None
               | Some next \<Rightarrow> signed_range_loop rs countMax (k + 1) acc' next)"
  by pat_completeness auto
termination by (relation "measure (\<lambda>(rs, c, k, acc, term). nat (kMaxIterations - k))") auto

declare signed_range_loop.simps [simp del]

fun diff_gcd :: "int \<Rightarrow> run list \<Rightarrow> int \<Rightarrow> int option" where
  "diff_gcd m [] g = Some g"
| "diff_gcd m (r # rs) g =
     (let g' = (if 1 < count r then gcd g (stride r) else g);
          startGap = start r - m
      in if startGap < 0 \<or> int64_max < startGap then None
         else diff_gcd m rs (gcd g' startGap))"

text \<open>
  The iteration up to a dense term and the emission of single terms either return the
  accumulated union (\<open>Inl\<close>) or break out with the state the next phase continues from (\<open>Inr\<close>).
\<close>

function dense_loop ::
  "run_set \<Rightarrow> int \<Rightarrow> int \<Rightarrow> int \<Rightarrow> run_set \<Rightarrow> run_set \<Rightarrow> (run_set + run_set \<times> int) option" where
  "dense_loop rs countMax g k acc term =
     (case unite acc term of
        None \<Rightarrow> None
      | Some acc' \<Rightarrow>
          if k = countMax then Some (Inl acc')
          else case (checkedMultiply k (rs_min rs), checkedMultiply k (rs_max rs)) of
                 (Some km, Some kM) \<Rightarrow>
                   if length term = 1 \<and> start (hd term) = km \<and> run_last (hd term) = kM \<and>
                      (stride (hd term) = g \<or> count (hd term) = 1)
                   then Some (Inr (acc', k))
                   else if kMaxIterations \<le> k then None
                   else (case rs_sum term rs of
                           None \<Rightarrow> None
                         | Some next \<Rightarrow> dense_loop rs countMax g (k + 1) acc' next)
               | _ \<Rightarrow> None)"
  by pat_completeness auto
termination by (relation "measure (\<lambda>(rs, c, g, k, acc, term). nat (kMaxIterations - k))") auto

declare dense_loop.simps [simp del]

definition chains_at :: "int \<Rightarrow> int \<Rightarrow> int \<Rightarrow> int \<Rightarrow> int \<Rightarrow> bool" where
  "chains_at m jM g P j =
     (case checkedAdd j P of
        None \<Rightarrow> False
      | Some nextSameFamily \<Rightarrow>
          (case checkedMultiply nextSameFamily m of
             None \<Rightarrow> False
           | Some nextSameFamilyStart \<Rightarrow>
               (case checkedAdd jM g of
                  None \<Rightarrow> False
                | Some reach \<Rightarrow> nextSameFamilyStart \<le> reach)))"

function tail_loop ::
  "int \<Rightarrow> int \<Rightarrow> int \<Rightarrow> int \<Rightarrow> int \<Rightarrow> int \<Rightarrow> int \<Rightarrow> run_set \<Rightarrow> (run_set + run_set \<times> int) option" where
  "tail_loop m M g P k countMax j acc =
     (if countMax < j then Some (Inr (acc, j))
      else case (checkedMultiply j m, checkedMultiply j M) of
             (Some jm, Some jM) \<Rightarrow>
               if chains_at m jM g P j then Some (Inr (acc, j))
               else if kMaxIterations < j - k then None
               else (case makeRunThrough jm g jM of
                       None \<Rightarrow> None
                     | Some r \<Rightarrow>
                         (case unite acc [r] of
                            None \<Rightarrow> None
                          | Some acc' \<Rightarrow>
                              if j = countMax then Some (Inl acc')
                              else tail_loop m M g P k countMax (j + 1) acc'))
           | _ \<Rightarrow> None)"
  by pat_completeness auto
termination by (relation "measure (\<lambda>(m, M, g, P, k, c, j, acc). nat (c - j))") auto

declare tail_loop.simps [simp del]

function family_loop ::
  "int \<Rightarrow> int \<Rightarrow> int \<Rightarrow> int \<Rightarrow> int \<Rightarrow> int \<Rightarrow> int \<Rightarrow> nat \<Rightarrow> run_set \<Rightarrow> run_set option" where
  "family_loop m M g P countMax j f budget acc =
     (if P \<le> f then Some acc
      else case checkedAdd j f of
             None \<Rightarrow> Some acc
           | Some j0 \<Rightarrow>
               if countMax < j0 then Some acc
               else let jEnd = j0 + (countMax - j0) sdiv P * P
                    in case (checkedMultiply j0 m, checkedMultiply jEnd M) of
                         (Some lo, Some hi) \<Rightarrow>
                           (case makeRunThrough lo g hi of
                              None \<Rightarrow> None
                            | Some r \<Rightarrow>
                                (case unite acc [r] of
                                   None \<Rightarrow> None
                                 | Some acc' \<Rightarrow>
                                     if budget = 0 then None
                                     else family_loop m M g P countMax j (f + 1) (budget - 1) acc'))
                       | _ \<Rightarrow> None)"
  by pat_completeness auto
termination by (relation "measure (\<lambda>(m, M, g, P, c, j, f, b, acc). nat (P - f))") auto

declare family_loop.simps [simp del]

definition repeatRange :: "run_set \<Rightarrow> int \<Rightarrow> run_set option" where
  "repeatRange rs countMax =
     (if countMax \<le> 0 then Some (rs_single 0)
      else if rs_count rs = Some 1 then singleton_range (rs_min rs) countMax
      else let m = rs_min rs; M = rs_max rs
           in if m < 0 then signed_range_loop rs countMax 1 (rs_single 0) rs
              else if rs_contains rs 0 then repeated rs countMax
              else case diff_gcd m rs 0 of
                     None \<Rightarrow> None
                   | Some g0 \<Rightarrow>
                       let g = (if g0 = 0 then 1 else g0)
                       in case dense_loop rs countMax g 1 (rs_single 0) rs of
                            None \<Rightarrow> None
                          | Some (Inl acc) \<Rightarrow> Some acc
                          | Some (Inr (acc, k)) \<Rightarrow>
                              let mModG = euclideanModulo m g;
                                  P = (if mModG = 0 then 1 else g sdiv gcd g mModG)
                              in case tail_loop m M g P k countMax (k + 1) acc of
                                   None \<Rightarrow> None
                                 | Some (Inl acc') \<Rightarrow> Some acc'
                                 | Some (Inr (acc', j)) \<Rightarrow>
                                     family_loop m M g P countMax j 0 kOpBudget acc')"

subsection \<open>Residues\<close>

definition kResidueBudget :: int where "kResidueBudget = 65536"
definition kResidueWalkBudget :: int where "kResidueWalkBudget = 4194304"

fun residue_batch :: "int \<Rightarrow> int \<Rightarrow> nat \<Rightarrow> int \<Rightarrow> int list" where
  "residue_batch divisor step 0 cur = []"
| "residue_batch divisor step (Suc k) cur =
     (let next = cur + step
      in cur # residue_batch divisor step k (if divisor \<le> next then next - divisor else next))"

fun residues_loop :: "int \<Rightarrow> run list \<Rightarrow> int \<Rightarrow> int list \<Rightarrow> int list option" where
  "residues_loop divisor [] walked unique = Some unique"
| "residues_loop divisor (r # rs) walked unique =
     (let step = stride r smod divisor;
          period = divisor sdiv gcd step divisor;
          k = min (count r) period
      in if kResidueBudget < k then None
         else if kResidueWalkBudget < walked + k then None
         else let batch = residue_batch divisor step (nat k) (euclideanModulo (start r) divisor);
                  unique' = flat_insert_range unique batch
              in if kResidueBudget < int (length unique') then None
                 else residues_loop divisor rs (walked + k) unique')"

definition rs_residues :: "run_set \<Rightarrow> int \<Rightarrow> int list option" where
  "rs_residues rs divisor = (if divisor < 1 then None else residues_loop divisor rs 0 [])"

section \<open>Exactness\<close>

subsection \<open>Dense runs\<close>

definition dense :: "int \<Rightarrow> int \<Rightarrow> int \<Rightarrow> int set" where
  "dense c d s = {x. c \<le> x \<and> x \<le> d \<and> s dvd (x - c)}"

lemma run_set_dense: "run_ok r \<Longrightarrow> run_set r = dense (start r) (run_last r) (stride r)"
  by (auto simp: dense_def mem_run_set)

lemma makeRunThrough_dense:
  assumes "makeRunThrough st sd lst = Some r" "i64 st"
  shows "run_ok r" "rs_ok [r]" "run_set r = dense st lst sd" "runs_set [r] = dense st lst sd"
proof -
  note M = makeRunThrough_Some [OF assms]
  have "sd * ((lst - st) div sd) = lst - st" using M(5) by simp
  moreover have "0 \<le> (lst - st) div sd" using M(4,6) by (simp add: pos_imp_zdiv_nonneg_iff)
  ultimately have "run_set r = dense st lst sd"
    unfolding M(7) dense_def using M(6) by (auto simp: mem_aprog mult.commute)
  then show "run_ok r" "rs_ok [r]" "run_set r = dense st lst sd" "runs_set [r] = dense st lst sd"
    using M(1) by (auto simp: single_rs_ok)
qed

text \<open>What the closed forms need to know about the summed set.\<close>

definition spread :: "int set \<Rightarrow> int \<Rightarrow> int \<Rightarrow> int \<Rightarrow> bool" where
  "spread S m M s \<longleftrightarrow> 0 < s \<and> m \<in> S \<and> M \<in> S \<and> (\<forall>x\<in>S. m \<le> x \<and> x \<le> M \<and> s dvd (x - m))"

lemma spreadD:
  assumes "spread S m M s"
  shows "0 < s" "m \<in> S" "M \<in> S" "x \<in> S \<Longrightarrow> m \<le> x" "x \<in> S \<Longrightarrow> x \<le> M" "x \<in> S \<Longrightarrow> s dvd (x - m)"
    "s dvd (M - m)" "m \<le> M"
  using assms by (auto simp: spread_def)

lemma dense_sum:
  assumes S: "spread S m M s" and d: "s dvd (d - c)" "M - m \<le> d - c"
  shows "msum (dense c d s) S = dense (c + m) (d + M) s"
proof
  note S = spreadD [OF S]
  show "msum (dense c d s) S \<subseteq> dense (c + m) (d + M) s"
  proof
    fix z assume "z \<in> msum (dense c d s) S"
    then obtain x y where z: "z = x + y" "x \<in> dense c d s" "y \<in> S" by (rule msumE)
    then have "s dvd (x - c) + (y - m)" using S(6) by (intro dvd_add) (auto simp: dense_def)
    then show "z \<in> dense (c + m) (d + M) s"
      using z S(4,5) [of y] by (auto simp: dense_def algebra_simps)
  qed
  show "dense (c + m) (d + M) s \<subseteq> msum (dense c d s) S"
  proof
    fix z assume "z \<in> dense (c + m) (d + M) s"
    then have z: "c + m \<le> z" "z \<le> d + M" "s dvd (z - (c + m))" by (auto simp: dense_def)
    show "z \<in> msum (dense c d s) S"
    proof (cases "z - m \<le> d")
      case True
      then have "z - m \<in> dense c d s" using z by (auto simp: dense_def algebra_simps)
      then show ?thesis using S(2) msumI [of "z - m" _ m] by simp
    next
      case False
      have "s dvd (z - (c + m)) - (M - m)" using z(3) S(7) by (rule dvd_diff)
      then have "z - M \<in> dense c d s" using False z d(2) by (auto simp: dense_def algebra_simps)
      then show ?thesis using S(3) msumI [of "z - M" _ M] by simp
    qed
  qed
qed

lemma dense_ksum:
  assumes S: "spread S m M s" and d: "s dvd (d - c)" "M - m \<le> d - c"
  shows "msum (dense c d s) (ksum R S) = dense (c + int R * m) (d + int R * M) s"
proof (induction R)
  case (Suc R)
  note S' = spreadD [OF S]
  have "msum (dense c d s) (ksum (Suc R) S) = msum (dense (c + int R * m) (d + int R * M) s) S"
    unfolding ksum.simps msum_assoc [symmetric] Suc ..
  also have "\<dots> = dense (c + int R * m + m) (d + int R * M + M) s"
  proof (rule dense_sum [OF S])
    have "s dvd (d - c) + int R * (M - m)" using d S' by (intro dvd_add) auto
    then show "s dvd (d + int R * M - (c + int R * m))" by (simp add: algebra_simps)
    have "0 \<le> int R * (M - m)" using S'(8) by simp
    then show "M - m \<le> d + int R * M - (c + int R * m)" using d(2) by (simp add: algebra_simps)
  qed
  finally show ?case by (simp add: algebra_simps)
qed simp

subsection \<open>Repetition\<close>

lemma nat_pred_Suc: "2 \<le> j \<Longrightarrow> nat j = Suc (nat (j - 1))"
  by simp

lemma dense_jump_exact:
  assumes f: "dense_fixpoint p c m M" and j: "dense_jump c rem m M = Some out"
    and ok: "run_ok p" "run_ok c" and sum: "run_set c = msum (run_set p) S"
    and S: "m \<in> S" "M \<in> S" "\<forall>x\<in>S. m \<le> x \<and> x \<le> M" and rem: "0 \<le> rem"
  shows "rs_ok out \<and> runs_set out = msum (run_set c) (ksum (nat rem) S)"
proof -
  have e: "stride c = stride p" "start c = start p + m" "run_last c = run_last p + M"
    using f by (auto simp: dense_fixpoint_def)
  note C = run_okD [OF ok(2)] and P = run_okD [OF ok(1)]
  have sp: "spread S m M (stride c)"
  proof -
    have "stride c dvd (x - m)" if "x \<in> S" for x
    proof -
      have "start p + x \<in> run_set c" using sum start_in_run_set [OF ok(1)] that by blast
      then have "stride c dvd (start p + x - start c)" using ok(2) by (simp add: mem_run_set)
      then show ?thesis by (simp add: e)
    qed
    then show ?thesis using S C(4) by (auto simp: spread_def)
  qed
  have l: "stride c dvd (run_last c - start c)" using last_in_run_set [OF ok(2)] ok(2) by (simp add: mem_run_set)
  have w: "M - m \<le> run_last c - start c" using P(9) by (simp add: e)
  obtain r where r: "makeRunThrough (start c + rem * m) (stride c) (run_last c + rem * M) = Some r"
    "i64 (start c + rem * m)" "out = [r]"
    using j by (auto simp: dense_jump_def split: option.splits)
  show ?thesis
    using dense_ksum [OF sp l w, of "nat rem"] rem makeRunThrough_dense [OF r(1,2)] r(3)
    by (simp add: run_set_dense [OF ok(2)])
qed

lemma single_run: "length rs = 1 \<Longrightarrow> rs = [hd rs]"
  by (cases rs) auto

lemma repeated_loop_exact:
  assumes "repeated_loop rs cnt j term = Some out" "rs_ok rs" "rs_ok term"
    "runs_set term = ksum (nat (j - 1)) (runs_set rs)" "2 \<le> j" "j \<le> cnt + 1"
  shows "rs_ok out \<and> runs_set out = ksum (nat cnt) (runs_set rs)"
  using assms
proof (induction rs cnt j "term" rule: repeated_loop.induct)
  case (1 rs cnt j t)
  note u = "1.prems"(1) [unfolded repeated_loop.simps [of rs cnt j t]]
  let ?S = "runs_set rs"
  show ?case
  proof (cases "cnt < j")
    case True
    then have "nat cnt = nat (j - 1)" using "1.prems" by simp
    then show ?thesis using u True "1.prems" by simp
  next
    case F: False
    then obtain nx where nx: "rs_sum t rs = Some nx" using u by (auto split: option.splits)
    note N = rs_sum_exact [OF nx "1.prems"(3,2)]
    have k: "runs_set nx = ksum (nat j) ?S"
      using N "1.prems"(4) nat_pred_Suc [OF "1.prems"(5)] by simp
    let ?D = "length t = 1 \<and> length nx = 1 \<and> dense_fixpoint (hd t) (hd nx) (rs_min rs) (rs_max rs)"
    show ?thesis
    proof (cases ?D)
      case D: True
      show ?thesis
      proof (cases "cnt - j = 0")
        case True
        then have "out = nx" "cnt = j" using u F nx D by simp_all
        then show ?thesis using N k by simp
      next
        case False
        have j: "dense_jump (hd nx) (cnt - j) (rs_min rs) (rs_max rs) = Some out"
          using u F nx D False by simp
        have ok: "run_ok (hd t)" "run_ok (hd nx)"
          using "1.prems"(3) N by (auto simp: rs_ok_def)
        have s: "run_set (hd t) = runs_set t" "run_set (hd nx) = runs_set nx"
          using single_run [of t] single_run [of nx] D by (metis runs_set_simps(1,2) sup_bot_right)+
        have "rs_ok out \<and> runs_set out = msum (run_set (hd nx)) (ksum (nat (cnt - j)) ?S)"
          using D N F by (intro dense_jump_exact [OF _ j ok]) (auto simp: s min_max_bounds "1.prems"(2))
        moreover have "nat cnt = nat j + nat (cnt - j)" using F "1.prems"(5) by simp
        ultimately show ?thesis by (simp add: s k ksum_add)
      qed
    next
      case False
      have l: "\<not> kMaxIterations \<le> j" "repeated_loop rs cnt (j + 1) nx = Some out"
        using u F nx False by (auto split: if_splits)
      show ?thesis
        using "1.IH" [OF F nx False l(1) l(2) "1.prems"(2)] N k F "1.prems"(5) by simp
    qed
  qed
qed

lemma repeated_exact:
  assumes "repeated rs cnt = Some out" "rs_ok rs"
  shows "rs_ok out \<and> runs_set out = ksum (nat cnt) (runs_set rs)"
proof -
  consider "cnt \<le> 0" | "cnt = 1" | "2 \<le> cnt" by linarith
  then show ?thesis
  proof cases
    case 1
    then show ?thesis using assms rs_single_correct [of 0] by (auto simp: repeated_def)
  next
    case 3
    then show ?thesis using assms repeated_loop_exact [of rs cnt 2 rs out] by (simp add: repeated_def)
  qed (use assms in \<open>simp add: repeated_def\<close>)
qed

subsection \<open>Repeated ranges\<close>

lemma ksum_upto_msum: "ksum_upto n A \<union> ksum (Suc n) A = ksum_upto (Suc n) A"
  by (simp add: ksum_upto_Suc)

lemma ksum_upto_singleton: "ksum_upto n {c} = {int k * c |k. k \<le> n}"
  by (auto simp: ksum_upto_def ksum_singleton)

lemma aprog_multiples: "aprog 0 d (int n + 1) = {int k * d |k. k \<le> n}"
proof (intro set_eqI iffI)
  fix x assume "x \<in> aprog 0 d (int n + 1)"
  then obtain i where "x = i * d" "0 \<le> i" "i < int n + 1" by (auto simp: aprog_def)
  then have "x = int (nat i) * d \<and> nat i \<le> n" by simp
  then show "x \<in> {int k * d |k. k \<le> n}" by blast
next
  fix x assume "x \<in> {int k * d |k. k \<le> n}"
  then show "x \<in> aprog 0 d (int n + 1)" by (auto simp: aprog_def)
qed

lemma aprog_multiples_down: "aprog (int n * - d) d (int n + 1) = {int k * - d |k. k \<le> n}"
proof (intro set_eqI iffI)
  fix x assume "x \<in> aprog (int n * - d) d (int n + 1)"
  then obtain i where "x = int n * - d + i * d" "0 \<le> i" "i < int n + 1" by (auto simp: aprog_def)
  then have "x = int (n - nat i) * - d \<and> n - nat i \<le> n" by (simp add: algebra_simps of_nat_diff)
  then show "x \<in> {int k * - d |k. k \<le> n}" by blast
next
  fix x assume "x \<in> {int k * - d |k. k \<le> n}"
  then obtain k where "x = int k * - d" "k \<le> n" by blast
  then have "x = int n * - d + (int n - int k) * d \<and> 0 \<le> int n - int k \<and> int n - int k < int n + 1"
    by (simp add: algebra_simps)
  then show "x \<in> aprog (int n * - d) d (int n + 1)" unfolding aprog_def by blast
qed

lemma singleton_range_exact:
  assumes s: "singleton_range c n = Some out" and c: "i64 c" and n: "0 < n"
  shows "rs_ok out \<and> runs_set out = ksum_upto (nat n) {c}"
proof (cases "c = 0")
  case True
  then have "out = rs_single 0" using s by (simp add: singleton_range_def)
  moreover have "ksum_upto (nat n) {0} = {0}" by (auto simp: ksum_upto_singleton)
  ultimately show ?thesis using rs_single_correct [of 0] True by simp
next
  case False
  let ?sd = "if c < 0 then - c else c"
  have sp: "i64 (n + 1)" "int64_min \<le> n * c" "n * c \<le> int64_max"
    using s False by (auto simp: singleton_range_def Let_def split: option.splits if_splits)
  show ?thesis
  proof (cases "int64_max < ?sd")
    case True
    then have *: "n = 1" "out = fromValues (flat_of_list [c, 0])"
      using s False by (auto simp: singleton_range_def Let_def split: option.splits if_splits)
    have "flat_of_list [c, 0] \<noteq> []" using set_flat_of_list [of "[c, 0]"] by fastforce
    then have "rs_ok out \<and> runs_set out = {c, 0}"
      using fromValues_correct [of "flat_of_list [c, 0]"] c *(2) by simp
    then show ?thesis using *(1) by (auto simp: ksum_upto_def atMost_Suc)
  next
    case le: False
    then obtain r where r: "makeRun (if c < 0 then n * c else 0) ?sd (n + 1) = Some r" "out = [r]"
      using s False sp by (auto simp: singleton_range_def Let_def checkedAdd_def split: option.splits if_splits)
    have i: "i64 (if c < 0 then n * c else 0)" "n + 1 \<le> int64_max" using sp by (auto simp: i64_def int64_min_def)
    note M = makeRun_Some [OF r(1) i]
    have "run_set r = ksum_upto (nat n) {c}"
      using M(2) aprog_multiples [of c "nat n"] aprog_multiples_down [of "nat n" "- c"] n
      by (auto simp: ksum_upto_singleton split: if_splits)
    then show ?thesis using M(1) r(2) by (simp add: single_rs_ok)
  qed
qed

lemma signed_range_loop_exact:
  assumes "signed_range_loop rs n k acc term = Some out" "rs_ok rs" "rs_ok acc" "rs_ok term"
    "runs_set acc = ksum_upto (nat (k - 1)) (runs_set rs)" "runs_set term = ksum (nat k) (runs_set rs)"
    "1 \<le> k" "k \<le> n"
  shows "rs_ok out \<and> runs_set out = ksum_upto (nat n) (runs_set rs)"
  using assms
proof (induction rs n k acc "term" rule: signed_range_loop.induct)
  case (1 rs n k acc t)
  note u = "1.prems"(1) [unfolded signed_range_loop.simps [of rs n k acc t]]
  obtain a where a: "unite acc t = Some a" using u by (auto split: option.splits)
  note A = unite_exact [OF a "1.prems"(3,4)]
  have "nat k = Suc (nat (k - 1))" using "1.prems"(7) by simp
  then have up: "runs_set a = ksum_upto (nat k) (runs_set rs)"
    using A "1.prems"(5,6) ksum_upto_msum by metis
  show ?case
  proof (cases "k = n")
    case True
    then show ?thesis using u a A up by simp
  next
    case F: False
    then obtain nx where nx: "\<not> kMaxIterations \<le> k" "rs_sum t rs = Some nx"
      "signed_range_loop rs n (k + 1) a nx = Some out"
      using u a by (auto split: option.splits if_splits)
    note N = rs_sum_exact [OF nx(2) "1.prems"(4,2)]
    have "nat (k + 1) = Suc (nat k)" using "1.prems"(7) by simp
    then have "runs_set nx = ksum (nat (k + 1)) (runs_set rs)" using N "1.prems"(6) by simp
    from "1.IH" [OF a F nx(1,2,3) "1.prems"(2) _ _ _ this] show ?thesis
      using A N up F "1.prems"(7,8) by simp
  qed
qed

text \<open>The gcd of the differences: every member is congruent to the minimum.\<close>

lemma diff_gcd_Some:
  assumes "diff_gcd m rs g = Some g'" "\<forall>r\<in>set rs. run_ok r" "0 \<le> g"
  shows "0 \<le> g' \<and> g' dvd g \<and> (\<forall>x\<in>runs_set rs. m \<le> x \<and> g' dvd (x - m))"
  using assms
proof (induction rs arbitrary: g)
  case (Cons r rs)
  define g1 where "g1 = (if 1 < count r then gcd g (stride r) else g)"
  have rest: "diff_gcd m rs (gcd g1 (start r - m)) = Some g'" "0 \<le> start r - m"
    using Cons.prems(1) by (auto simp: g1_def Let_def split: if_splits)
  have IH: "0 \<le> g'" "g' dvd gcd g1 (start r - m)" "\<forall>x\<in>runs_set rs. m \<le> x \<and> g' dvd (x - m)"
    using Cons.IH [OF rest(1)] Cons.prems(2) by auto
  have d: "g' dvd g" "g' dvd (start r - m)" "1 < count r \<Longrightarrow> g' dvd stride r"
    using IH(2) by (auto simp: g1_def split: if_splits)
  have "m \<le> x \<and> g' dvd (x - m)" if x: "x \<in> run_set r" for x
  proof -
    obtain i where i: "x = start r + i * stride r" "0 \<le> i" "i < count r"
      using x Cons.prems(2) by (auto simp: run_set_index)
    have "g' dvd i * stride r"
    proof (cases "1 < count r")
      case False
      then have "i = 0" using i by simp
      then show ?thesis by simp
    qed (use d(3) in simp)
    then have "g' dvd (start r - m) + i * stride r" using d(2) by (rule dvd_add [rotated])
    moreover have "start r \<le> x" using x Cons.prems(2) by (simp add: mem_run_set)
    ultimately show ?thesis using rest(2) i by (auto simp: algebra_simps)
  qed
  then show ?case using IH d by auto
qed simp

lemma spread_gcd:
  assumes "diff_gcd (rs_min rs) rs 0 = Some g0" "rs_ok rs"
  shows "spread (runs_set rs) (rs_min rs) (rs_max rs) (if g0 = 0 then 1 else g0)"
  using diff_gcd_Some [OF assms(1)] assms(2) min_max_bounds [OF assms(2)]
  by (auto simp: spread_def rs_ok_def)

lemma dense_loop_exact:
  assumes "dense_loop rs n g k acc term = Some res" "rs_ok rs" "rs_ok acc" "rs_ok term"
    "runs_set acc = ksum_upto (nat (k - 1)) (runs_set rs)" "runs_set term = ksum (nat k) (runs_set rs)"
    "1 \<le> k" "k \<le> n" "rs_min rs < rs_max rs"
  shows "(\<forall>out. res = Inl out \<longrightarrow> rs_ok out \<and> runs_set out = ksum_upto (nat n) (runs_set rs))
    \<and> (\<forall>out k'. res = Inr (out, k') \<longrightarrow> k \<le> k' \<and> k' < n \<and> rs_ok out
        \<and> runs_set out = ksum_upto (nat k') (runs_set rs)
        \<and> ksum (nat k') (runs_set rs) = dense (k' * rs_min rs) (k' * rs_max rs) g)"
  using assms
proof (induction rs n g k acc "term" rule: dense_loop.induct)
  case (1 rs n g k acc t)
  note u = "1.prems"(1) [unfolded dense_loop.simps [of rs n g k acc t]]
  let ?m = "rs_min rs" and ?M = "rs_max rs"
  obtain a where a: "unite acc t = Some a" using u by (auto split: option.splits)
  note A = unite_exact [OF a "1.prems"(3,4)]
  have "nat k = Suc (nat (k - 1))" using "1.prems"(7) by simp
  then have up: "runs_set a = ksum_upto (nat k) (runs_set rs)"
    using A "1.prems"(5,6) ksum_upto_msum by metis
  show ?case
  proof (cases "k = n")
    case True
    then show ?thesis using u a A up by auto
  next
    case F: False
    have km: "checkedMultiply k ?m = Some (k * ?m)" "checkedMultiply k ?M = Some (k * ?M)"
      using u a F by (auto split: option.splits)
    let ?D = "length t = 1 \<and> start (hd t) = k * ?m \<and> run_last (hd t) = k * ?M \<and>
        (stride (hd t) = g \<or> count (hd t) = 1)"
    show ?thesis
    proof (cases ?D)
      case D: True
      then have r: "res = Inr (a, k)" using u a F km by auto
      have ok: "run_ok (hd t)" using "1.prems"(4) by (auto simp: rs_ok_def)
      have "runs_set t = run_set (hd t)" using single_run [of t] D by (metis runs_set_simps(1,2) sup_bot_right)
      moreover have "count (hd t) \<noteq> 1"
      proof
        assume "count (hd t) = 1"
        then have "run_last (hd t) = start (hd t)" by (simp add: run_last_def)
        then have "k * ?m = k * ?M" using D by metis
        then show False using "1.prems"(7,9) by simp
      qed
      ultimately have "ksum (nat k) (runs_set rs) = dense (k * ?m) (k * ?M) g"
        using run_set_dense [OF ok] "1.prems"(6) D by auto
      then show ?thesis using r A up F "1.prems"(8) by simp
    next
      case D: False
      then obtain nx where nx: "\<not> kMaxIterations \<le> k" "rs_sum t rs = Some nx"
        "dense_loop rs n g (k + 1) a nx = Some res"
        using u a F km by (auto split: option.splits if_splits)
      note N = rs_sum_exact [OF nx(2) "1.prems"(4,2)]
      have "nat (k + 1) = Suc (nat k)" using "1.prems"(7) by simp
      then have t: "runs_set nx = ksum (nat (k + 1)) (runs_set rs)" using N "1.prems"(6) by simp
      have b: "runs_set a = ksum_upto (nat (k + 1 - 1)) (runs_set rs)" "1 \<le> k + 1" "k + 1 \<le> n"
        using up F "1.prems"(7,8) by auto
      note IH = "1.IH" [OF a F refl km D nx(1,2,3) "1.prems"(2) conjunct1 [OF A] conjunct1 [OF N]
          b(1) t b(2,3) "1.prems"(9)]
      have "k \<le> k'" if "k + 1 \<le> k'" for k' using that by simp
      then show ?thesis using IH by blast
    qed
  qed
qed

lemma dense_tail:
  assumes S: "spread S m M g" and k: "1 \<le> k" "ksum (nat k) S = dense (k * m) (k * M) g" and j: "k \<le> j"
  shows "ksum (nat j) S = dense (j * m) (j * M) g"
proof -
  have "nat j = nat k + nat (j - k)" using k(1) j by simp
  then have "ksum (nat j) S = msum (dense (k * m) (k * M) g) (ksum (nat (j - k)) S)"
    by (simp add: ksum_add k(2))
  also have "\<dots> = dense (k * m + int (nat (j - k)) * m) (k * M + int (nat (j - k)) * M) g"
  proof (rule dense_ksum [OF S])
    have "g dvd k * (M - m)" using spreadD(7) [OF S] by simp
    then show "g dvd (k * M - k * m)" by (simp add: right_diff_distrib)
    have "1 * (M - m) \<le> k * (M - m)" using spreadD(8) [OF S] k(1) by (intro mult_right_mono) auto
    then show "M - m \<le> k * M - k * m" by (simp add: right_diff_distrib)
  qed
  also have "\<dots> = dense (j * m) (j * M) g" using j by (simp add: algebra_simps)
  finally show ?thesis .
qed

lemma tail_loop_exact:
  assumes "tail_loop m M g P k n j acc = Some res" "rs_ok acc" "runs_set acc = ksum_upto (nat (j - 1)) S"
    "\<forall>i\<ge>j. ksum (nat i) S = dense (i * m) (i * M) g" "1 \<le> j" "j \<le> n + 1"
  shows "(\<forall>out. res = Inl out \<longrightarrow> rs_ok out \<and> runs_set out = ksum_upto (nat n) S)
    \<and> (\<forall>out j'. res = Inr (out, j') \<longrightarrow> j \<le> j' \<and> j' \<le> n + 1 \<and> rs_ok out
        \<and> runs_set out = ksum_upto (nat (j' - 1)) S
        \<and> (j' \<le> n \<longrightarrow> (j' + P) * m \<le> j' * M + g))"
  using assms
proof (induction m M g P k n j acc rule: tail_loop.induct)
  case (1 m M g P k n j acc)
  note u = "1.prems"(1) [unfolded tail_loop.simps [of m M g P k n j acc]]
  show ?case
  proof (cases "n < j")
    case True
    then show ?thesis using u "1.prems" by auto
  next
    case F: False
    have km: "checkedMultiply j m = Some (j * m)" "checkedMultiply j M = Some (j * M)"
      using u F by (auto split: option.splits)
    show ?thesis
    proof (cases "chains_at m (j * M) g P j")
      case True
      then have "res = Inr (acc, j)" using u F km by auto
      moreover have "(j + P) * m \<le> j * M + g"
        using True by (auto simp: chains_at_def split: option.splits)
      ultimately show ?thesis using "1.prems" F by auto
    next
      case C: False
      obtain r a where r: "\<not> kMaxIterations < j - k" "makeRunThrough (j * m) g (j * M) = Some r"
        "unite acc [r] = Some a"
        using u F km C by (auto split: option.splits if_splits)
      have "i64 (j * m)" using km by simp
      note R = makeRunThrough_dense [OF r(2) this]
      note A = unite_exact [OF r(3) "1.prems"(2) R(2)]
      have "nat j = Suc (nat (j - 1))" using "1.prems"(5) by simp
      then have up: "runs_set a = ksum_upto (nat j) S"
        using A "1.prems"(3,4) R(4) by (metis ksum_upto_msum order_refl)
      show ?thesis
      proof (cases "j = n")
        case True
        then have "res = Inl a" using u F C r unfolding km by simp
        then show ?thesis using A up True by simp
      next
        case False
        then have "tail_loop m M g P k n (j + 1) a = Some res" using u F km C r by simp
        from "1.IH" [OF F refl km C r(1,2,3) False this] show ?thesis
          using A up "1.prems"(4,5,6) F by force
      qed
    qed
  qed
qed

subsection \<open>The chained families\<close>

lemma dense_join:
  assumes "g dvd (a' - a)" "g dvd (b - a)" "a \<le> a'" "a' \<le> b + g" "b \<le> b'" "0 < g"
  shows "dense a b g \<union> dense a' b' g = dense a b' g"
proof (intro equalityI subsetI)
  fix x assume "x \<in> dense a b' g"
  then have x: "a \<le> x" "x \<le> b'" "g dvd (x - a)" by (auto simp: dense_def)
  show "x \<in> dense a b g \<union> dense a' b' g"
  proof (cases "x \<le> b")
    case False
    have "g dvd (x - a) - (b - a)" using x(3) assms(2) by (rule dvd_diff)
    then have "g \<le> x - b" using False by (intro zdvd_imp_le) auto
    moreover have "g dvd (x - a) - (a' - a)" using x(3) assms(1) by (rule dvd_diff)
    ultimately show ?thesis using x assms(4) by (auto simp: dense_def)
  qed (use x in \<open>simp add: dense_def\<close>)
next
  fix x assume "x \<in> dense a b g \<union> dense a' b' g"
  then show "x \<in> dense a b' g"
  proof
    assume "x \<in> dense a' b' g"
    then have x: "g dvd (x - a')" "a' \<le> x" "x \<le> b'" by (auto simp: dense_def)
    have "g dvd (x - a') + (a' - a)" using x(1) assms(1) by (rule dvd_add)
    then show ?thesis using x(2,3) assms(3) by (simp add: dense_def)
  qed (use assms(5) in \<open>auto simp: dense_def\<close>)
qed

lemma family_chain:
  assumes S: "0 < g" "g dvd (M - m)" "0 \<le> m" "m \<le> M" and P: "0 \<le> P" "g dvd P * m"
    and j: "0 \<le> j" "(j + P) * m \<le> j * M + g"
  shows "(\<Union>t\<le>T. dense ((j + int t * P) * m) ((j + int t * P) * M) g) =
      dense (j * m) ((j + int T * P) * M) g"
proof (induction T)
  case (Suc T)
  let ?i = "j + int T * P"
  have ij: "?i + P = j + int (Suc T) * P" by (simp add: algebra_simps)
  have TP: "0 \<le> int T * P" using P by simp
  have "dense (j * m) (?i * M) g \<union> dense ((?i + P) * m) ((?i + P) * M) g = dense (j * m) ((?i + P) * M) g"
  proof (rule dense_join)
    have "g dvd int (Suc T) * (P * m)" using P(2) by simp
    then show "g dvd ((?i + P) * m - j * m)" by (simp add: algebra_simps)
    have "g dvd int T * (P * m) + ?i * (M - m)" using P(2) S(2) by simp
    then show "g dvd (?i * M - j * m)" by (simp add: algebra_simps)
    show "j * m \<le> (?i + P) * m" using S(3) P TP by (intro mult_right_mono) auto
    have "int T * P * m \<le> int T * P * M" using S(4) TP by (intro mult_left_mono) auto
    then show "(?i + P) * m \<le> ?i * M + g" using j(2) by (simp add: algebra_simps)
    show "?i * M \<le> (?i + P) * M" using S P by (intro mult_right_mono) auto
  qed (use S in simp)
  then show ?case unfolding atMost_Suc UN_insert Suc by (simp add: ij Un_commute)
qed simp

text \<open>The multiples of one residue class up to a bound.\<close>

lemma family_indices:
  assumes "0 < P" "0 \<le> f" "f < P" "j + f \<le> n"
  shows "{i. j \<le> i \<and> i \<le> n \<and> (i - j) mod P = f} = {j + f + int t * P |t. t \<le> nat ((n - (j + f)) div P)}"
proof (intro set_eqI iffI)
  fix i assume "i \<in> {i. j \<le> i \<and> i \<le> n \<and> (i - j) mod P = f}"
  then have i: "j \<le> i" "i \<le> n" "(i - j) mod P = f" by auto
  have e: "i = j + f + (i - j) div P * P" using i(3) div_mult_mod_eq [of "i - j" P] by linarith
  have p: "0 \<le> (i - j) div P" using i assms by (simp add: pos_imp_zdiv_nonneg_iff)
  have "(i - j) div P * P \<le> n - (j + f)" using e i(2) by linarith
  then have "(i - j) div P \<le> (n - (j + f)) div P"
    using int_div_less_iff [OF assms(1), of "n - (j + f)" "(i - j) div P"] by linarith
  then have "i = j + f + int (nat ((i - j) div P)) * P \<and> nat ((i - j) div P) \<le> nat ((n - (j + f)) div P)"
    using e p by simp
  then show "i \<in> {j + f + int t * P |t. t \<le> nat ((n - (j + f)) div P)}" by blast
next
  fix i assume "i \<in> {j + f + int t * P |t. t \<le> nat ((n - (j + f)) div P)}"
  then obtain t where t: "i = j + f + int t * P" "t \<le> nat ((n - (j + f)) div P)" by blast
  have "0 \<le> (n - (j + f)) div P" using assms by (simp add: pos_imp_zdiv_nonneg_iff)
  then have "int t \<le> (n - (j + f)) div P" using t(2) by (simp add: le_nat_iff)
  then have "int t * P \<le> n - (j + f)"
    using int_div_less_iff [OF assms(1), of "n - (j + f)" "int t"] by linarith
  moreover have "0 \<le> int t * P" using assms by simp
  moreover have "(i - j) mod P = f" using t(1) assms by simp
  ultimately show "i \<in> {i. j \<le> i \<and> i \<le> n \<and> (i - j) mod P = f}" using t(1) assms by simp
qed

lemma family_union:
  assumes S: "0 < g" "g dvd (M - m)" "0 \<le> m" "m \<le> M" and P: "0 < P" "g dvd P * m"
    and j: "0 \<le> j" "(j + P) * m \<le> j * M + g" and f: "0 \<le> f" "f < P" "j + f \<le> n"
  shows "(\<Union>i\<in>{i. j \<le> i \<and> i \<le> n \<and> (i - j) mod P = f}. dense (i * m) (i * M) g) =
      dense ((j + f) * m) ((j + f + (n - (j + f)) sdiv P * P) * M) g"
proof -
  let ?T = "nat ((n - (j + f)) div P)"
  have T: "int ?T = (n - (j + f)) sdiv P" using f P by (simp add: sdiv_eq_div pos_imp_zdiv_nonneg_iff)
  have "f * m \<le> f * M" using f S by (intro mult_left_mono) auto
  then have c: "(j + f + P) * m \<le> (j + f) * M + g" using j(2) by (simp add: algebra_simps)
  have "(\<Union>i\<in>{i. j \<le> i \<and> i \<le> n \<and> (i - j) mod P = f}. dense (i * m) (i * M) g) =
      (\<Union>t\<le>?T. dense ((j + f + int t * P) * m) ((j + f + int t * P) * M) g)"
    unfolding family_indices [OF P(1) f] by blast
  also have "\<dots> = dense ((j + f) * m) ((j + f + int ?T * P) * M) g"
    using family_chain [OF S _ P(2) _ c, of ?T] P j f by simp
  finally show ?thesis unfolding T .
qed

lemma family_loop_exact:
  assumes "family_loop m M g P n j f b acc = Some out" "rs_ok acc"
    and S: "0 < g" "g dvd (M - m)" "0 \<le> m" "m \<le> M" and P: "0 < P" "g dvd P * m"
    and j: "0 \<le> j" "j \<le> n \<Longrightarrow> (j + P) * m \<le> j * M + g" and n: "n \<le> int64_max" and f: "0 \<le> f"
  shows "rs_ok out \<and> runs_set out = runs_set acc \<union>
    (\<Union>i\<in>{i. j \<le> i \<and> i \<le> n \<and> f \<le> (i - j) mod P}. dense (i * m) (i * M) g)"
  using assms(1,2) f
proof (induction "nat (P - f)" arbitrary: f b acc rule: less_induct)
  case less
  let ?G = "\<lambda>i. dense (i * m) (i * M) g"
  note u = less.prems(1) [unfolded family_loop.simps [of m M g P n j f b acc]]
  show ?case
  proof (cases "f < P \<and> j + f \<le> n")
    case False
    have "out = acc"
      using u False n by (auto simp: checkedAdd_def split: if_splits)
    moreover have "\<not> f \<le> (i - j) mod P" if "j \<le> i" "i \<le> n" for i
    proof
      assume "f \<le> (i - j) mod P"
      moreover have "(i - j) mod P < P" "(i - j) mod P \<le> i - j"
        using P that by (simp_all add: zmod_le_nonneg_dividend)
      ultimately show False using False that by linarith
    qed
    ultimately show ?thesis using less.prems by auto
  next
    case True
    have i6: "i64 (j + f)" using True n j less.prems(3) by (simp add: i64_def int64_min_def)
    let ?hi = "(j + f + (n - (j + f)) sdiv P * P) * M"
    obtain r a where r: "makeRunThrough ((j + f) * m) g ?hi = Some r" "i64 ((j + f) * m)"
      "unite acc [r] = Some a" "family_loop m M g P n j (f + 1) (b - 1) a = Some out"
      using u True i6 by (auto simp: checkedAdd_def Let_def split: option.splits if_splits)
    note R = makeRunThrough_dense [OF r(1,2)]
    note A = unite_exact [OF r(3) less.prems(2) R(2)]
    have "runs_set [r] = (\<Union>i\<in>{i. j \<le> i \<and> i \<le> n \<and> (i - j) mod P = f}. ?G i)"
      unfolding R(4) using family_union [OF S P j(1) j(2)] True less.prems(3) by simp
    moreover have "rs_ok out \<and> runs_set out = runs_set a \<union>
        (\<Union>i\<in>{i. j \<le> i \<and> i \<le> n \<and> f + 1 \<le> (i - j) mod P}. ?G i)"
      using less.hyps [OF _ r(4)] A True less.prems(3) by simp
    moreover have "{i. j \<le> i \<and> i \<le> n \<and> f \<le> (i - j) mod P} =
        {i. j \<le> i \<and> i \<le> n \<and> (i - j) mod P = f} \<union> {i. j \<le> i \<and> i \<le> n \<and> f + 1 \<le> (i - j) mod P}"
      by auto
    ultimately show ?thesis using A by (simp add: UN_Un Un_assoc)
  qed
qed

lemma not_singleton_spread:
  assumes "rs_ok rs" "rs_count rs \<noteq> Some 1"
  shows "rs_min rs < rs_max rs"
proof (rule ccontr)
  assume "\<not> rs_min rs < rs_max rs"
  then have "runs_set rs = {rs_min rs}" using min_max_bounds [OF assms(1)] by (auto intro: antisym)
  then have "card (runs_set rs) = 1" by (metis card_1_singleton_iff One_nat_def)
  then have "rs_count rs = Some 1" using assms(1) by (simp add: rs_count_exact rs_ok_iff int64_max_def)
  then show False using assms(2) by simp
qed

lemma singleton_count:
  assumes "rs_ok rs" "rs_count rs = Some 1"
  shows "runs_set rs = {rs_min rs}"
proof -
  have "card (runs_set rs) = 1" using assms by (simp add: rs_count_exact rs_ok_iff split: if_splits)
  then show ?thesis using min_max_bounds(3) [OF assms(1)] by (auto simp: card_1_singleton_iff)
qed

lemma period_multiple:
  fixes m g :: int
  assumes "0 < g"
  defines "P \<equiv> if euclideanModulo m g = 0 then 1 else g sdiv gcd g (euclideanModulo m g)"
  shows "0 < P" "g dvd P * m"
proof -
  have e: "euclideanModulo m g = m mod g" using assms by (simp add: euclideanModulo_mod)
  have "0 < P \<and> g dvd P * m"
  proof (cases "m mod g = 0")
    case True
    then show ?thesis by (auto simp: P_def e dvd_eq_mod_eq_0)
  next
    case False
    let ?d = "gcd g (m mod g)"
    have d: "0 < ?d" "?d dvd g" using assms by auto
    have dm: "?d dvd m" by (metis gcd_dvd1 gcd_red_int)
    have P: "P = g div ?d" using False assms d by (simp add: P_def e sdiv_eq_div)
    have "P * m = g * (m div ?d)" using d dm by (metis P div_mult_swap dvd_div_mult mult.commute)
    moreover have "0 < P" unfolding P using d assms(1) by (simp add: pos_imp_zdiv_pos_iff zdvd_imp_le)
    ultimately show ?thesis by simp
  qed
  then show "0 < P" "g dvd P * m" by auto
qed

lemma ksum_upto_split:
  assumes "1 \<le> j" "j \<le> n + 1"
  shows "ksum_upto (nat n) A = ksum_upto (nat (j - 1)) A \<union> (\<Union>i\<in>{j..n}. ksum (nat i) A)"
proof -
  have "{..nat n} = {..nat (j - 1)} \<union> nat ` {j..n}"
  proof (intro equalityI subsetI)
    fix k assume k: "k \<in> {..nat n}"
    show "k \<in> {..nat (j - 1)} \<union> nat ` {j..n}"
    proof (cases "k \<le> nat (j - 1)")
      case False
      then have "int k \<in> {j..n}" using k assms by auto
      then show ?thesis by (metis UnI2 image_eqI nat_int)
    qed simp
  qed (use assms in auto)
  then show ?thesis by (simp add: ksum_upto_def UN_Un)
qed

lemma repeatRange_exact:
  assumes r: "repeatRange rs n = Some out" and ok: "rs_ok rs" and n: "n \<le> int64_max"
  shows "rs_ok out \<and> runs_set out = ksum_upto (nat n) (runs_set rs)"
proof -
  let ?m = "rs_min rs" and ?M = "rs_max rs" and ?S = "runs_set rs"
  have z: "rs_ok (rs_single 0)" "runs_set (rs_single 0) = {0}" using rs_single_correct [of 0] by auto
  consider (zero) "n \<le> 0" | (one) "0 < n" "rs_count rs = Some 1"
    | (signed) "0 < n" "rs_count rs \<noteq> Some 1" "?m < 0"
    | (with_zero) "0 < n" "rs_count rs \<noteq> Some 1" "\<not> ?m < 0" "rs_contains rs 0"
    | (positive) "0 < n" "rs_count rs \<noteq> Some 1" "\<not> ?m < 0" "\<not> rs_contains rs 0"
    by linarith
  then show ?thesis
  proof cases
    case zero
    then show ?thesis using r z by (simp add: repeatRange_def)
  next
    case one
    have "i64 ?m" using runs_set_i64 [OF ok min_max_bounds(3) [OF ok]] .
    then show ?thesis
      using singleton_range_exact [of ?m n out] r one singleton_count [OF ok one(2)]
      by (simp add: repeatRange_def)
  next
    case signed
    then show ?thesis
      using signed_range_loop_exact [of rs n 1 "rs_single 0" rs out] r ok z
      by (simp add: repeatRange_def)
  next
    case with_zero
    have "repeated rs n = Some out" using r with_zero by (simp add: repeatRange_def)
    moreover have "0 \<in> ?S" using with_zero(4) ok by (simp add: rs_contains_exact rs_ok_iff)
    ultimately show ?thesis using repeated_exact ok by (simp add: ksum_upto_zero_mem)
  next
    case positive
    obtain g0 where g0: "diff_gcd ?m rs 0 = Some g0"
      using r positive by (auto simp: repeatRange_def Let_def split: option.splits)
    define g where "g = (if g0 = 0 then 1 else g0)"
    note sp = spread_gcd [OF g0 ok, folded g_def]
    note S = spreadD [OF sp]
    define P where "P = (if euclideanModulo ?m g = 0 then 1 else g sdiv gcd g (euclideanModulo ?m g))"
    note P = period_multiple [OF S(1), of ?m, folded P_def]
    have rr: "repeatRange rs n = (case dense_loop rs n g 1 (rs_single 0) rs of
        None \<Rightarrow> None
      | Some (Inl acc) \<Rightarrow> Some acc
      | Some (Inr (acc, k)) \<Rightarrow>
          (case tail_loop ?m ?M g P k n (k + 1) acc of
             None \<Rightarrow> None
           | Some (Inl acc') \<Rightarrow> Some acc'
           | Some (Inr (acc', j)) \<Rightarrow> family_loop ?m ?M g P n j 0 kOpBudget acc'))"
      using positive g0 unfolding repeatRange_def Let_def g_def P_def by simp
    obtain res where d: "dense_loop rs n g 1 (rs_single 0) rs = Some res"
      using r unfolding rr by (auto split: option.splits)
    note D = dense_loop_exact [OF d ok z(1) ok _ _ _ _ not_singleton_spread [OF ok positive(2)]]
    note D = D [simplified, unfolded z(2), simplified]
    show ?thesis
    proof (cases res)
      case (Inl a)
      then have "out = a" using r d unfolding rr by simp
      then show ?thesis using D Inl positive by simp
    next
      case (Inr ak)
      obtain a k where ak: "res = Inr (a, k)" using Inr by (cases ak) auto
      have A: "1 \<le> k" "k < n" "rs_ok a" "runs_set a = ksum_upto (nat k) ?S"
        "ksum (nat k) ?S = dense (k * ?m) (k * ?M) g"
        using D ak positive by auto
      have G: "\<forall>i\<ge>k + 1. ksum (nat i) ?S = dense (i * ?m) (i * ?M) g"
        using dense_tail [OF sp A(1,5)] by simp
      obtain res' where t: "tail_loop ?m ?M g P k n (k + 1) a = Some res'"
        using r d ak unfolding rr by (auto split: option.splits)
      note T0 = tail_loop_exact [OF t A(3) _ G]
      have T: "(\<forall>out. res' = Inl out \<longrightarrow> rs_ok out \<and> runs_set out = ksum_upto (nat n) ?S)
        \<and> (\<forall>a' j. res' = Inr (a', j) \<longrightarrow> k + 1 \<le> j \<and> j \<le> n + 1 \<and> rs_ok a'
            \<and> runs_set a' = ksum_upto (nat (j - 1)) ?S \<and> (j \<le> n \<longrightarrow> (j + P) * ?m \<le> j * ?M + g))"
        using T0 A(1,2,4) by simp
      show ?thesis
      proof (cases res')
        case (Inl a')
        then have "out = a'" using r d ak t unfolding rr by simp
        then show ?thesis using T Inl by simp
      next
        case (Inr aj)
        obtain a' j where aj: "res' = Inr (a', j)" using Inr by (cases aj) auto
        then have J: "k + 1 \<le> j" "j \<le> n + 1" "rs_ok a'" "runs_set a' = ksum_upto (nat (j - 1)) ?S"
          "j \<le> n \<Longrightarrow> (j + P) * ?m \<le> j * ?M + g"
          using T by auto
        have "family_loop ?m ?M g P n j 0 kOpBudget a' = Some out"
          using r d ak t aj unfolding rr by simp
        note F = family_loop_exact [OF this J(3) S(1,7) _ S(8) P _ J(5) n order_refl]
        have "runs_set out = runs_set a' \<union> (\<Union>i\<in>{j..n}. ksum (nat i) ?S)"
        proof -
          have "{i. j \<le> i \<and> i \<le> n \<and> 0 \<le> (i - j) mod P} = {j..n}" using P by auto
          moreover have "(\<Union>i\<in>{j..n}. dense (i * ?m) (i * ?M) g) = (\<Union>i\<in>{j..n}. ksum (nat i) ?S)"
            using G J(1) by auto
          ultimately show ?thesis using F positive J A P by simp
        qed
        then show ?thesis using F positive J A ksum_upto_split [of j n ?S] by simp
      qed
    qed
  qed
qed

subsection \<open>Residues\<close>

lemma residue_batch_set:
  assumes "0 \<le> step" "step < d"
  shows "set (residue_batch d step k (c mod d)) = (\<lambda>i. (c + int i * step) mod d) ` {..<k}"
proof (induction k arbitrary: c)
  case (Suc k)
  have d: "0 < d" using assms by simp
  have cd: "0 \<le> c mod d" "c mod d < d" using d by simp_all
  have "(c mod d + step - d) mod d = (c mod d + step) mod d" by (rule minus_mod_self2)
  moreover have "d \<le> c mod d + step \<Longrightarrow> (c mod d + step - d) mod d = c mod d + step - d"
    using cd assms by (intro mod_pos_pos_trivial) linarith+
  moreover have "\<not> d \<le> c mod d + step \<Longrightarrow> (c mod d + step) mod d = c mod d + step"
    using cd assms by (intro mod_pos_pos_trivial) linarith+
  ultimately have "(if d \<le> c mod d + step then c mod d + step - d else c mod d + step) = (c mod d + step) mod d"
    by presburger
  then have n: "(if d \<le> c mod d + step then c mod d + step - d else c mod d + step) = (c + step) mod d"
    by (simp add: mod_add_left_eq)
  have "{..<Suc k} = insert 0 (Suc ` {..<k})" by (auto simp: image_iff less_Suc_eq_0_disj)
  then show ?case unfolding residue_batch.simps Let_def n
    by (simp add: Suc image_image algebra_simps)
qed simp

lemma mod_set_periodic:
  assumes d: "0 < d" and r: "run_ok r"
  defines "period \<equiv> d div gcd (stride r mod d) d"
  shows "(\<lambda>i. (start r + int i * (stride r mod d)) mod d) ` {..<nat (min (count r) period)}
    = (\<lambda>v. v mod d) ` run_set r"
proof -
  let ?g = "gcd (stride r mod d) d"
  let ?f = "\<lambda>i. (start r + int i * (stride r mod d)) mod d"
  have g: "0 < ?g" "?g dvd d" "?g dvd stride r" using d by (auto, metis gcd.commute gcd_dvd1 gcd_red_int)
  have pos: "0 < period" unfolding period_def using g d by (simp add: pos_imp_zdiv_pos_iff zdvd_imp_le)
  have "period * stride r = d * (stride r div ?g)"
    using g unfolding period_def by (metis div_mult_swap dvd_div_mult mult.commute)
  then have per: "d dvd period * stride r" by simp
  have f: "?f i = (start r + int i * stride r) mod d" for i
    by (metis mod_add_right_eq mod_mult_right_eq)
  have c: "0 < count r" using run_okD [OF r] by simp
  show ?thesis
  proof (intro equalityI subsetI)
    fix y assume "y \<in> ?f ` {..<nat (min (count r) period)}"
    then obtain i where i: "i < nat (min (count r) period)" "y = (start r + int i * stride r) mod d"
      using f by auto
    then have "0 \<le> int i \<and> int i < count r" by auto
    then have "start r + int i * stride r \<in> run_set r" unfolding run_set_index [OF r] by blast
    then show "y \<in> (\<lambda>v. v mod d) ` run_set r" using i by blast
  next
    fix y assume "y \<in> (\<lambda>v. v mod d) ` run_set r"
    then obtain i where i: "0 \<le> i" "i < count r" "y = (start r + i * stride r) mod d"
      using run_set_index [OF r] by auto
    let ?k = "nat (i mod period)"
    have k: "int ?k = i mod period" using pos by simp
    have "i mod period \<le> i" using i pos by (simp add: zmod_le_nonneg_dividend)
    then have "?k < nat (min (count r) period)" using i pos k c by (auto simp: nat_less_iff)
    moreover have "d dvd (i div period) * (period * stride r)" using per by simp
    then have "(start r + i mod period * stride r + (i div period) * (period * stride r)) mod d = (start r + i mod period * stride r) mod d"
      by (metis dvd_imp_mod_0 mod_add_right_eq add.right_neutral)
    moreover have "i mod period * stride r + (i div period) * (period * stride r) = i * stride r"
      by (simp add: mult.assoc [symmetric] distrib_right [symmetric])
    ultimately show "y \<in> ?f ` {..<nat (min (count r) period)}"
      using i f [of ?k] k by (auto intro!: image_eqI [of _ _ ?k] simp: add.assoc)
  qed
qed

lemma residues_loop_exact:
  assumes "residues_loop d rs w u = Some out" "0 < d" "\<forall>r\<in>set rs. run_ok r" "flat_ok u"
  shows "flat_ok out \<and> set out = set u \<union> (\<lambda>v. v mod d) ` runs_set rs"
  using assms
proof (induction d rs w u rule: residues_loop.induct)
  case (2 d r rs w u)
  have ok: "run_ok r" using "2.prems" by simp
  have st: "stride r smod d = stride r mod d" "0 \<le> stride r mod d" "stride r mod d < d"
    using run_okD [OF ok] "2.prems"(2) by (auto simp: smod_eq_mod)
  have p: "d sdiv gcd (stride r mod d) d = d div gcd (stride r mod d) d"
    using "2.prems"(2) by (simp add: sdiv_eq_div)
  define k where "k = min (count r) (d div gcd (stride r mod d) d)"
  define u' where "u' = flat_insert_range u (residue_batch d (stride r mod d) (nat k) (start r mod d))"
  have e: "euclideanModulo (start r) d = start r mod d" using "2.prems"(2) by (simp add: euclideanModulo_mod)
  have step: "\<not> kResidueBudget < k" "\<not> kResidueWalkBudget < w + k" "\<not> kResidueBudget < int (length u')"
    "residues_loop d rs (w + k) u' = Some out"
    using "2.prems"(1) by (auto simp: Let_def st(1) p e k_def u'_def split: if_splits)
  have s: "set u' = set u \<union> (\<lambda>v. v mod d) ` run_set r"
    using residue_batch_set [OF st(2,3)] mod_set_periodic [OF "2.prems"(2) ok] by (simp add: u'_def k_def)
  have inserted: "u' = flat_insert_range u (residue_batch d (stride r mod d) (nat k) (euclideanModulo (start r) d))"
    by (simp add: u'_def e)
  have u': "flat_ok u'" using "2.prems"(4) by (simp add: u'_def flat_insert_range_ok)
  have rest: "\<forall>r\<in>set rs. run_ok r" using "2.prems"(3) by simp
  have "flat_ok out \<and> set out = set u' \<union> (\<lambda>v. v mod d) ` runs_set rs"
    by (rule "2.IH" [OF st(1) [symmetric] p [symmetric] k_def step(1,2) refl inserted step(3,4) "2.prems"(2) rest u'])
  then show ?case using s by (auto simp: image_Un)
qed simp

lemma rs_residues_exact:
  assumes "rs_residues rs d = Some out" "rs_ok rs"
  shows "flat_ok out \<and> set out = (\<lambda>v. v mod d) ` runs_set rs"
  using assms residues_loop_exact [of d rs 0 "[]" out]
  by (auto simp: rs_residues_def rs_ok_def split: if_splits)

end
