(* ===== verification/BitLengthDag.thy ===== *)
theory BitLengthDag
  imports IntegerMath FlatSet
begin

text \<open>
  The expression graph behind \<^verbatim>\<open>BitLengthSet\<close> (\<^verbatim>\<open>lib/Semantics/BitLengthSet.cpp\<close>): nodes shared by
  pointers, the iterative post-order walk \<^verbatim>\<open>Node::collectPostOrder\<close> and the memoised evaluation
  that every query performs over it. The heap is the list of the nodes in the order of their
  creation; a pointer is an index. A node is immutable and its children exist before it, which is
  what \<open>heap_ok\<close> states. The relation \<open>denotes\<close> unfolds the graph below a pointer into the
  expression it stands for, and the locale \<open>memo_contract\<close> gives the correctness of the memoised
  walk once for all evaluators.
\<close>

subsection \<open>Nodes and expressions\<close>

datatype node_kind = KLeaf | KAdd | KUnion | KPad | KRepeat | KRepeatRange

record node =
  kind :: node_kind
  vals :: "int list"
  lhs :: "nat option"
  rhs :: "nat option"
  param :: int

type_synonym heap = "node list"

definition children :: "node \<Rightarrow> nat list" where
  "children n = (case rhs n of None \<Rightarrow> [] | Some r \<Rightarrow> [r]) @ (case lhs n of None \<Rightarrow> [] | Some l \<Rightarrow> [l])"

datatype bl_expr =
    Leaf "int list"
  | Add bl_expr bl_expr
  | Unite bl_expr bl_expr
  | Pad bl_expr int
  | Repeat bl_expr int
  | RepeatRange bl_expr int

inductive denotes :: "heap \<Rightarrow> nat \<Rightarrow> bl_expr \<Rightarrow> bool" for h where
  Leaf: "p < length h \<Longrightarrow> kind (h ! p) = KLeaf \<Longrightarrow> denotes h p (Leaf (vals (h ! p)))"
| Add: "p < length h \<Longrightarrow> kind (h ! p) = KAdd \<Longrightarrow> lhs (h ! p) = Some l \<Longrightarrow> rhs (h ! p) = Some r \<Longrightarrow>
    denotes h l a \<Longrightarrow> denotes h r b \<Longrightarrow> denotes h p (Add a b)"
| Unite: "p < length h \<Longrightarrow> kind (h ! p) = KUnion \<Longrightarrow> lhs (h ! p) = Some l \<Longrightarrow> rhs (h ! p) = Some r \<Longrightarrow>
    denotes h l a \<Longrightarrow> denotes h r b \<Longrightarrow> denotes h p (Unite a b)"
| Pad: "p < length h \<Longrightarrow> kind (h ! p) = KPad \<Longrightarrow> lhs (h ! p) = Some l \<Longrightarrow>
    denotes h l a \<Longrightarrow> denotes h p (Pad a (param (h ! p)))"
| Repeat: "p < length h \<Longrightarrow> kind (h ! p) = KRepeat \<Longrightarrow> lhs (h ! p) = Some l \<Longrightarrow>
    denotes h l a \<Longrightarrow> denotes h p (Repeat a (param (h ! p)))"
| RepeatRange: "p < length h \<Longrightarrow> kind (h ! p) = KRepeatRange \<Longrightarrow> lhs (h ! p) = Some l \<Longrightarrow>
    denotes h l a \<Longrightarrow> denotes h p (RepeatRange a (param (h ! p)))"

inductive_cases denotes_LeafE: "denotes h p (Leaf vs)"
inductive_cases denotes_AddE: "denotes h p (Add a b)"
inductive_cases denotes_UniteE: "denotes h p (Unite a b)"
inductive_cases denotes_PadE: "denotes h p (Pad a k)"
inductive_cases denotes_RepeatE: "denotes h p (Repeat a k)"
inductive_cases denotes_RepeatRangeE: "denotes h p (RepeatRange a k)"

lemmas denotes_elims = denotes_LeafE denotes_AddE denotes_UniteE denotes_PadE denotes_RepeatE denotes_RepeatRangeE

text \<open>Well-formed nodes: the arity of the kind, children created before, and the clamped data.\<close>

definition node_ok :: "nat \<Rightarrow> node \<Rightarrow> bool" where
  "node_ok p n \<longleftrightarrow>
     (\<forall>c\<in>set (children n). c < p) \<and>
     (kind n = KLeaf \<longrightarrow> vals n \<noteq> [] \<and> flat_ok (vals n) \<and> (\<forall>v\<in>set (vals n). 0 \<le> v \<and> i64 v)
        \<and> lhs n = None \<and> rhs n = None) \<and>
     (kind n = KAdd \<or> kind n = KUnion \<longrightarrow> lhs n \<noteq> None \<and> rhs n \<noteq> None) \<and>
     (kind n = KPad \<or> kind n = KRepeat \<or> kind n = KRepeatRange \<longrightarrow> lhs n \<noteq> None \<and> rhs n = None) \<and>
     (kind n = KPad \<longrightarrow> 1 \<le> param n) \<and>
     (kind n = KRepeat \<or> kind n = KRepeatRange \<longrightarrow> 0 \<le> param n) \<and> i64 (param n)"

definition heap_ok :: "heap \<Rightarrow> bool" where
  "heap_ok h \<longleftrightarrow> (\<forall>p<length h. node_ok p (h ! p))"

fun wf_expr :: "bl_expr \<Rightarrow> bool" where
  "wf_expr (Leaf vs) \<longleftrightarrow> vs \<noteq> [] \<and> flat_ok vs \<and> (\<forall>v\<in>set vs. 0 \<le> v \<and> i64 v)"
| "wf_expr (Add a b) \<longleftrightarrow> wf_expr a \<and> wf_expr b"
| "wf_expr (Unite a b) \<longleftrightarrow> wf_expr a \<and> wf_expr b"
| "wf_expr (Pad a k) \<longleftrightarrow> wf_expr a \<and> 1 \<le> k \<and> i64 k"
| "wf_expr (Repeat a k) \<longleftrightarrow> wf_expr a \<and> 0 \<le> k \<and> i64 k"
| "wf_expr (RepeatRange a k) \<longleftrightarrow> wf_expr a \<and> 0 \<le> k \<and> i64 k"

lemma denotes_in_heap: "denotes h p e \<Longrightarrow> p < length h"
  by (erule denotes.cases) auto

lemma denotes_wf: "denotes h p e \<Longrightarrow> heap_ok h \<Longrightarrow> wf_expr e"
  by (induction rule: denotes.induct) (auto simp: heap_ok_def node_ok_def)

lemma denotes_unique: "denotes h p e \<Longrightarrow> denotes h p e' \<Longrightarrow> e = e'"
proof (induction arbitrary: e' rule: denotes.induct)
  case (Leaf p)
  then show ?case by (auto elim: denotes.cases)
next
  case (Add p l r a b)
  from Add.prems Add.hyps show ?case by (cases rule: denotes.cases) (auto dest: Add.IH)
next
  case (Unite p l r a b)
  from Unite.prems Unite.hyps show ?case by (cases rule: denotes.cases) (auto dest: Unite.IH)
next
  case (Pad p l a)
  from Pad.prems Pad.hyps show ?case by (cases rule: denotes.cases) (auto dest: Pad.IH)
next
  case (Repeat p l a)
  from Repeat.prems Repeat.hyps show ?case by (cases rule: denotes.cases) (auto dest: Repeat.IH)
next
  case (RepeatRange p l a)
  from RepeatRange.prems RepeatRange.hyps show ?case by (cases rule: denotes.cases) (auto dest: RepeatRange.IH)
qed

lemma denotes_exists: "heap_ok h \<Longrightarrow> p < length h \<Longrightarrow> \<exists>e. denotes h p e"
proof (induction p rule: less_induct)
  case (less p)
  have ok: "node_ok p (h ! p)" using less.prems by (simp add: heap_ok_def)
  have sub: "\<exists>e. denotes h c e" if "c \<in> set (children (h ! p))" for c
    using less.IH [of c] ok that less.prems by (auto simp: node_ok_def)
  have l: "\<exists>e. denotes h c e" if "lhs (h ! p) = Some c" for c
    using sub [of c] that by (simp add: children_def)
  have r: "\<exists>e. denotes h c e" if "rhs (h ! p) = Some c" for c
    using sub [of c] that by (simp add: children_def)
  show ?case
  proof (cases "kind (h ! p)")
    case KLeaf
    then show ?thesis using denotes.Leaf less.prems(2) by blast
  next
    case KAdd
    then obtain lc rc where "lhs (h ! p) = Some lc" "rhs (h ! p) = Some rc"
      using ok by (auto simp: node_ok_def)
    then show ?thesis using l r denotes.Add [OF less.prems(2) KAdd] by blast
  next
    case KUnion
    then obtain lc rc where "lhs (h ! p) = Some lc" "rhs (h ! p) = Some rc"
      using ok by (auto simp: node_ok_def)
    then show ?thesis using l r denotes.Unite [OF less.prems(2) KUnion] by blast
  next
    case KPad
    then obtain lc where "lhs (h ! p) = Some lc" using ok by (auto simp: node_ok_def)
    then show ?thesis using l denotes.Pad [OF less.prems(2) KPad] by blast
  next
    case KRepeat
    then obtain lc where "lhs (h ! p) = Some lc" using ok by (auto simp: node_ok_def)
    then show ?thesis using l denotes.Repeat [OF less.prems(2) KRepeat] by blast
  next
    case KRepeatRange
    then obtain lc where "lhs (h ! p) = Some lc" using ok by (auto simp: node_ok_def)
    then show ?thesis using l denotes.RepeatRange [OF less.prems(2) KRepeatRange] by blast
  qed
qed

text \<open>New nodes do not change what the old pointers stand for.\<close>

lemma denotes_append: "denotes h p e \<Longrightarrow> denotes (h @ ns) p e"
proof (induction rule: denotes.induct)
  case (Leaf p)
  then show ?case using denotes.Leaf [of p "h @ ns"] by (simp add: nth_append)
next
  case (Add p l r a b)
  then show ?case using denotes.Add [of p "h @ ns"] by (simp add: nth_append)
next
  case (Unite p l r a b)
  then show ?case using denotes.Unite [of p "h @ ns"] by (simp add: nth_append)
next
  case (Pad p l a)
  then show ?case using denotes.Pad [of p "h @ ns"] by (simp add: nth_append)
next
  case (Repeat p l a)
  then show ?case using denotes.Repeat [of p "h @ ns"] by (simp add: nth_append)
next
  case (RepeatRange p l a)
  then show ?case using denotes.RepeatRange [of p "h @ ns"] by (simp add: nth_append)
qed

subsection \<open>The post-order walk\<close>

function post_order_loop :: "heap \<Rightarrow> (nat \<times> bool) list \<Rightarrow> nat set \<Rightarrow> nat list \<Rightarrow> nat list" where
  "post_order_loop h [] seen order = order"
| "post_order_loop h ((p, children_done) # stack) seen order =
     (if children_done then post_order_loop h stack seen (order @ [p])
      else if \<not> p < length h \<or> p \<in> seen then post_order_loop h stack seen order
      else post_order_loop h
             (map (\<lambda>c. (c, False)) (children (h ! p)) @ (p, True) # stack) (insert p seen) order)"
  by pat_completeness auto
termination
proof (relation "measure (\<lambda>(h, stack, seen, order). 4 * card ({..<length h} - seen) + length stack)", goal_cases)
  case (4 h p d stack seen order)
  have "card ({..<length h} - insert p seen) < card ({..<length h} - seen)"
    using 4 by (intro psubset_card_mono) auto
  moreover have "length (children (h ! p)) \<le> 2" by (simp add: children_def split: option.splits)
  ultimately show ?case by simp
qed auto

definition collectPostOrder :: "heap \<Rightarrow> nat \<Rightarrow> nat list" where
  "collectPostOrder h root = post_order_loop h [(root, False)] {} []"

subsection \<open>The walk visits children before parents\<close>

text \<open>
  The invariant of the walk, over any successor function that decreases a rank: what is finished
  is closed under successors, and the successors of an open vertex are finished or above it on the
  stack.
\<close>

fun closed_from :: "('v \<Rightarrow> 'v list) \<Rightarrow> 'v set \<Rightarrow> 'v list \<Rightarrow> bool" where
  "closed_from succ A [] \<longleftrightarrow> True"
| "closed_from succ A (v # vs) \<longleftrightarrow> set (succ v) \<subseteq> A \<and> closed_from succ (insert v A) vs"

fun covered :: "('v \<Rightarrow> 'v list) \<Rightarrow> 'v set \<Rightarrow> ('v \<times> bool) list \<Rightarrow> bool" where
  "covered succ A [] \<longleftrightarrow> True"
| "covered succ A ((v, d) # st) \<longleftrightarrow> (d \<longrightarrow> set (succ v) \<subseteq> A) \<and> covered succ (insert v A) st"

lemma closed_from_append:
  "closed_from succ A (xs @ ys) \<longleftrightarrow> closed_from succ A xs \<and> closed_from succ (A \<union> set xs) ys"
  by (induction xs arbitrary: A) auto

lemma closed_from_nth: "closed_from succ A vs \<Longrightarrow> i < length vs \<Longrightarrow> set (succ (vs ! i)) \<subseteq> A \<union> set (take i vs)"
proof (induction vs arbitrary: A i)
  case (Cons v vs)
  show ?case
  proof (cases i)
    case (Suc j)
    then show ?thesis using Cons.IH [of "insert v A" j] Cons.prems by auto
  qed (use Cons.prems in auto)
qed simp

lemma covered_mono: "covered succ A st \<Longrightarrow> A \<subseteq> B \<Longrightarrow> covered succ B st"
proof (induction succ A st arbitrary: B rule: covered.induct)
  case (2 succ A v d st)
  then show ?case by (auto intro: "2.IH" insert_mono)
qed simp

lemma covered_pushed:
  "covered succ A (map (\<lambda>c. (c, False)) cs @ st) \<longleftrightarrow> covered succ (A \<union> set cs) st"
  by (induction cs arbitrary: A) auto

definition dfs_inv :: "('v \<Rightarrow> 'v list) \<Rightarrow> ('v \<Rightarrow> nat) \<Rightarrow> 'v \<Rightarrow> ('v \<times> bool) list \<Rightarrow> 'v set \<Rightarrow> 'v list \<Rightarrow> bool" where
  "dfs_inv succ rank root stack seen order \<longleftrightarrow>
     seen = set order \<union> {v. (v, True) \<in> set stack} \<and>
     distinct order \<and> (\<forall>v\<in>set order. (v, True) \<notin> set stack) \<and>
     sorted_wrt (\<lambda>(x, _) (m, b). b \<longrightarrow> rank x < rank m) stack \<and>
     covered succ (set order) stack \<and> closed_from succ {} order \<and>
     root \<in> seen \<union> fst ` set stack \<and>
     (\<forall>v\<in>set order \<union> fst ` set stack. (\<lambda>a b. b \<in> set (succ a))\<^sup>*\<^sup>* root v)"

lemma dfs_inv_start: "dfs_inv succ rank root [(root, False)] {} []"
  by (auto simp: dfs_inv_def)

lemma dfs_inv_done:
  assumes "dfs_inv succ rank root ((p, True) # stack) seen order"
  shows "dfs_inv succ rank root stack seen (order @ [p])"
proof -
  have "(p, True) \<notin> set stack" using assms by (auto simp: dfs_inv_def)
  then show ?thesis using assms by (auto simp: dfs_inv_def closed_from_append insert_absorb)
qed

lemma dfs_inv_seen:
  assumes "dfs_inv succ rank root ((p, False) # stack) seen order" "p \<in> seen"
  shows "dfs_inv succ rank root stack seen order"
proof -
  have "(p, True) \<notin> set stack" using assms(1) by (auto simp: dfs_inv_def)
  then have p: "p \<in> set order" using assms by (auto simp: dfs_inv_def)
  then show ?thesis using assms by (auto simp: dfs_inv_def insert_absorb)
qed

lemma dfs_inv_new:
  assumes i: "dfs_inv succ rank root ((p, False) # stack) seen order" and p: "p \<notin> seen"
    and r: "\<forall>c\<in>set (succ p). rank c < rank p"
  shows "dfs_inv succ rank root (map (\<lambda>c. (c, False)) (succ p) @ (p, True) # stack) (insert p seen) order"
proof -
  let ?R = "\<lambda>(x, _) (m, b). b \<longrightarrow> rank x < rank m"
  let ?new = "map (\<lambda>c. (c, False)) (succ p)"
  have seen: "seen = set order \<union> {v. (v, True) \<in> set stack}" and top: "\<forall>(m, b)\<in>set stack. b \<longrightarrow> rank p < rank m"
    and st: "sorted_wrt ?R stack" and d: "distinct order" "\<forall>v\<in>set order. (v, True) \<notin> set stack"
    and c: "covered succ (insert p (set order)) stack" "closed_from succ {} order"
    and reach: "\<forall>v\<in>insert p (set order \<union> fst ` set stack). (\<lambda>a b. b \<in> set (succ a))\<^sup>*\<^sup>* root v"
    using i unfolding dfs_inv_def by simp_all
  have root: "root \<in> insert p (seen \<union> fst ` set stack)" using i unfolding dfs_inv_def by auto
  have "sorted_wrt ?R (map (\<lambda>c. (c, False)) cs)" for cs by (induction cs) auto
  moreover have "\<forall>x\<in>set ?new. \<forall>y\<in>set ((p, True) # stack). ?R x y"
    using r top by (fastforce dest: order.strict_trans)
  moreover have "sorted_wrt ?R ((p, True) # stack)" using st top by (simp add: case_prod_beta)
  ultimately have ord: "sorted_wrt ?R (?new @ (p, True) # stack)" unfolding sorted_wrt_append by blast
  have cov: "covered succ (set order) (?new @ (p, True) # stack)"
    unfolding covered_pushed covered.simps using covered_mono [OF c(1)] by auto
  have "(\<lambda>a b. b \<in> set (succ a))\<^sup>*\<^sup>* root c" if "c \<in> set (succ p)" for c
  proof (rule rtranclp.rtrancl_into_rtrancl)
    show "(\<lambda>a b. b \<in> set (succ a))\<^sup>*\<^sup>* root p" using reach by blast
    show "c \<in> set (succ p)" by (rule that)
  qed
  then have reach': "\<forall>v\<in>set order \<union> fst ` set (?new @ (p, True) # stack). (\<lambda>a b. b \<in> set (succ a))\<^sup>*\<^sup>* root v"
    using reach unfolding set_append image_Un by (auto simp: image_image)
  have seen': "insert p seen = set order \<union> {v. (v, True) \<in> set (?new @ (p, True) # stack)}"
    unfolding seen by auto
  have d': "\<forall>v\<in>set order. (v, True) \<notin> set (?new @ (p, True) # stack)" using d(2) p seen by auto
  have root': "root \<in> insert p seen \<union> fst ` set (?new @ (p, True) # stack)" using root by auto
  show ?thesis unfolding dfs_inv_def
    using seen' d(1) d' ord cov c(2) root' reach' by (intro conjI)
qed

lemma dfs_inv_end:
  assumes "dfs_inv succ rank root [] seen order"
  shows "distinct order" "closed_from succ {} order" "root \<in> set order"
    "\<forall>v\<in>set order. (\<lambda>a b. b \<in> set (succ a))\<^sup>*\<^sup>* root v"
  using assms by (auto simp: dfs_inv_def)

lemma closed_from_reach:
  assumes "closed_from succ {} order" "v \<in> set order" "(\<lambda>a b. b \<in> set (succ a))\<^sup>*\<^sup>* v w"
  shows "w \<in> set order"
proof -
  have c: "set (succ x) \<subseteq> set order" if x: "x \<in> set order" for x
  proof -
    obtain xs ys where o: "order = xs @ x # ys" using split_list [OF x] by blast
    then have "set (succ x) \<subseteq> set xs" using assms(1) by (simp add: closed_from_append)
    then show ?thesis using o by auto
  qed
  from assms(3,2) show ?thesis by (induction rule: rtranclp_induct) (use c in auto)
qed

lemma heap_reach_in_range:
  assumes "heap_ok h" "root < length h" "(\<lambda>a b. b \<in> set (children (h ! a)))\<^sup>*\<^sup>* root v"
  shows "v < length h"
  using assms(3)
proof (induction rule: rtranclp_induct)
  case base
  then show ?case using assms(2) .
next
  case (step a b)
  have "node_ok a (h ! a)" using assms(1) step.IH by (simp add: heap_ok_def)
  then have "b < a" using step.hyps(2) by (simp add: node_ok_def)
  then show ?case using step.IH by simp
qed

lemma post_order_loop_inv:
  assumes "heap_ok h" "root < length h"
  shows "dfs_inv (\<lambda>p. children (h ! p)) (\<lambda>p. p) root stack seen order \<Longrightarrow>
    \<exists>seen'. dfs_inv (\<lambda>p. children (h ! p)) (\<lambda>p. p) root [] seen' (post_order_loop h stack seen order)"
  using assms
proof (induction h stack seen order rule: post_order_loop.induct)
  case (1 h seen order)
  then show ?case by auto
next
  case (2 h p d stack seen order)
  have p: "p < length h"
    using heap_reach_in_range [OF "2.prems"(2,3)] "2.prems"(1) by (auto simp: dfs_inv_def)
  show ?case
  proof (cases d)
    case True
    then have "dfs_inv (\<lambda>p. children (h ! p)) (\<lambda>p. p) root stack seen (order @ [p])"
      using dfs_inv_done "2.prems"(1) unfolding eqTrueI [OF True] by fast
    from "2.IH"(1) [OF True this "2.prems"(2,3)] show ?thesis using True by simp
  next
    case F: False
    show ?thesis
    proof (cases "p \<in> seen")
      case True
      then have "dfs_inv (\<lambda>p. children (h ! p)) (\<lambda>p. p) root stack seen order"
        using dfs_inv_seen "2.prems"(1) F by (cases d) auto
      from "2.IH"(2) [OF F _ this "2.prems"(2,3)] show ?thesis using True F by simp
    next
      case False
      have "\<forall>c\<in>set (children (h ! p)). c < p"
        using "2.prems"(2) p by (auto simp: heap_ok_def node_ok_def)
      from dfs_inv_new [where succ = "\<lambda>p. children (h ! p)" and rank = "\<lambda>p. p", OF _ False this]
      show ?thesis
        using "2.IH"(3) [OF F _] "2.prems" F False p by simp
    qed
  qed
qed

lemma collectPostOrder_correct:
  assumes "heap_ok h" "root < length h"
  shows "distinct (collectPostOrder h root)"
    "closed_from (\<lambda>p. children (h ! p)) {} (collectPostOrder h root)"
    "set (collectPostOrder h root) = {p. (\<lambda>a b. b \<in> set (children (h ! a)))\<^sup>*\<^sup>* root p}"
    "\<forall>p\<in>set (collectPostOrder h root). p < length h"
proof -
  obtain seen where "dfs_inv (\<lambda>p. children (h ! p)) (\<lambda>p. p) root [] seen (collectPostOrder h root)"
    using post_order_loop_inv [OF assms dfs_inv_start] by (auto simp: collectPostOrder_def)
  note D = dfs_inv_end [OF this]
  show "distinct (collectPostOrder h root)"
    "closed_from (\<lambda>p. children (h ! p)) {} (collectPostOrder h root)"
    by (rule D)+
  show "set (collectPostOrder h root) = {p. (\<lambda>a b. b \<in> set (children (h ! a)))\<^sup>*\<^sup>* root p}"
    using D(4) closed_from_reach [OF D(2,3)] by auto
  then show "\<forall>p\<in>set (collectPostOrder h root). p < length h"
    using heap_reach_in_range [OF assms] by auto
qed

subsection \<open>Memoised evaluation\<close>

text \<open>
  \<^verbatim>\<open>memo.at(child)\<close>; \<open>None\<close> is the exception \<^verbatim>\<open>std::out_of_range\<close>, and \<open>eval_order\<close> runs the loop
  over the post-order with a step that may raise it.
\<close>

definition memo_at :: "(nat \<rightharpoonup> 'v) \<Rightarrow> nat option \<Rightarrow> 'v option" where
  "memo_at memo p = (case p of None \<Rightarrow> None | Some q \<Rightarrow> memo q)"

fun eval_order :: "(node \<Rightarrow> (nat \<rightharpoonup> 'v) \<Rightarrow> 'v option) \<Rightarrow> heap \<Rightarrow> nat list \<Rightarrow> (nat \<rightharpoonup> 'v) \<Rightarrow> (nat \<rightharpoonup> 'v) option" where
  "eval_order step h [] memo = Some memo"
| "eval_order step h (p # ps) memo =
     (case step (h ! p) memo of None \<Rightarrow> None | Some v \<Rightarrow> eval_order step h ps (memo(p \<mapsto> v)))"

definition evaluate :: "(node \<Rightarrow> (nat \<rightharpoonup> 'v) \<Rightarrow> 'v option) \<Rightarrow> heap \<Rightarrow> nat \<Rightarrow> 'v option" where
  "evaluate step h root =
     (case eval_order step h (collectPostOrder h root) Map.empty of
        None \<Rightarrow> None
      | Some memo \<Rightarrow> memo root)"

text \<open>
  What an evaluator promises for one node: from good values of the children it computes, without
  an exception, a good value of the node.
\<close>

locale memo_contract =
  fixes step :: "node \<Rightarrow> (nat \<rightharpoonup> 'v) \<Rightarrow> 'v option"
    and good :: "bl_expr \<Rightarrow> 'v \<Rightarrow> bool"
  assumes leaf: "kind n = KLeaf \<Longrightarrow> wf_expr (Leaf (vals n)) \<Longrightarrow> \<exists>v. step n m = Some v \<and> good (Leaf (vals n)) v"
    and add: "kind n = KAdd \<Longrightarrow> wf_expr (Add a b) \<Longrightarrow> memo_at m (lhs n) = Some x \<Longrightarrow> memo_at m (rhs n) = Some y \<Longrightarrow>
      good a x \<Longrightarrow> good b y \<Longrightarrow> \<exists>v. step n m = Some v \<and> good (Add a b) v"
    and unite: "kind n = KUnion \<Longrightarrow> wf_expr (Unite a b) \<Longrightarrow> memo_at m (lhs n) = Some x \<Longrightarrow> memo_at m (rhs n) = Some y \<Longrightarrow>
      good a x \<Longrightarrow> good b y \<Longrightarrow> \<exists>v. step n m = Some v \<and> good (Unite a b) v"
    and pad: "kind n = KPad \<Longrightarrow> wf_expr (Pad a (param n)) \<Longrightarrow> memo_at m (lhs n) = Some x \<Longrightarrow>
      good a x \<Longrightarrow> \<exists>v. step n m = Some v \<and> good (Pad a (param n)) v"
    and repeat: "kind n = KRepeat \<Longrightarrow> wf_expr (Repeat a (param n)) \<Longrightarrow> memo_at m (lhs n) = Some x \<Longrightarrow>
      good a x \<Longrightarrow> \<exists>v. step n m = Some v \<and> good (Repeat a (param n)) v"
    and repeat_range: "kind n = KRepeatRange \<Longrightarrow> wf_expr (RepeatRange a (param n)) \<Longrightarrow> memo_at m (lhs n) = Some x \<Longrightarrow>
      good a x \<Longrightarrow> \<exists>v. step n m = Some v \<and> good (RepeatRange a (param n)) v"
begin

lemma step_good:
  assumes d: "denotes h p e" and ok: "heap_ok h"
    and m: "\<forall>c\<in>set (children (h ! p)). \<exists>v e'. m c = Some v \<and> denotes h c e' \<and> good e' v"
  shows "\<exists>v. step (h ! p) m = Some v \<and> good e v"
proof -
  have w: "wf_expr e" by (rule denotes_wf [OF d ok])
  have l: "\<exists>x. memo_at m (lhs (h ! p)) = Some x \<and> good a x" if "lhs (h ! p) = Some c" "denotes h c a" for c a
    using m that denotes_unique by (auto simp: memo_at_def children_def split: option.splits) blast+
  have r: "\<exists>x. memo_at m (rhs (h ! p)) = Some x \<and> good a x" if "rhs (h ! p) = Some c" "denotes h c a" for c a
    using m that denotes_unique by (auto simp: memo_at_def children_def split: option.splits) blast+
  from d show ?thesis
  proof (cases rule: denotes.cases)
    case Leaf
    then show ?thesis using leaf w by simp
  next
    case (Add lc rc a b)
    then show ?thesis using add w l [of lc a] r [of rc b] by blast
  next
    case (Unite lc rc a b)
    then show ?thesis using unite w l [of lc a] r [of rc b] by blast
  next
    case (Pad lc a)
    then show ?thesis using pad w l [of lc a] by blast
  next
    case (Repeat lc a)
    then show ?thesis using repeat w l [of lc a] by blast
  next
    case (RepeatRange lc a)
    then show ?thesis using repeat_range w l [of lc a] by blast
  qed
qed

lemma eval_order_good:
  assumes "heap_ok h" "closed_from (\<lambda>p. children (h ! p)) A ps" "\<forall>p\<in>set ps. p < length h"
    "\<forall>p\<in>A. \<exists>v e. m p = Some v \<and> denotes h p e \<and> good e v"
  shows "\<exists>m'. eval_order step h ps m = Some m' \<and>
    (\<forall>p\<in>A \<union> set ps. \<exists>v e. m' p = Some v \<and> denotes h p e \<and> good e v)"
  using assms(2-4)
proof (induction ps arbitrary: A m)
  case (Cons p ps)
  obtain e where e: "denotes h p e" using denotes_exists [OF assms(1)] Cons.prems(2) by auto
  have kids: "\<forall>c\<in>set (children (h ! p)). \<exists>v e'. m c = Some v \<and> denotes h c e' \<and> good e' v"
    using Cons.prems by auto
  obtain v where v: "step (h ! p) m = Some v" "good e v" using step_good [OF e assms(1) kids] by blast
  have "\<forall>q\<in>insert p A. \<exists>w e. (m(p \<mapsto> v)) q = Some w \<and> denotes h q e \<and> good e w"
    using Cons.prems(3) v(2) e by auto
  moreover have "closed_from (\<lambda>p. children (h ! p)) (insert p A) ps" "\<forall>p\<in>set ps. p < length h"
    using Cons.prems(1,2) by auto
  ultimately obtain m' where "eval_order step h ps (m(p \<mapsto> v)) = Some m'"
    "\<forall>q\<in>insert p A \<union> set ps. \<exists>v e. m' q = Some v \<and> denotes h q e \<and> good e v"
    using Cons.IH [of "insert p A" "m(p \<mapsto> v)"] by blast
  then show ?case using v(1) by (simp del: fun_upd_apply)
qed auto

theorem evaluate_good:
  assumes "heap_ok h" "denotes h p e"
  shows "\<exists>v. evaluate step h p = Some v \<and> good e v"
proof -
  note C = collectPostOrder_correct [OF assms(1) denotes_in_heap [OF assms(2)]]
  obtain m where m: "eval_order step h (collectPostOrder h p) Map.empty = Some m"
    "\<forall>q\<in>{} \<union> set (collectPostOrder h p). \<exists>v e. m q = Some v \<and> denotes h q e \<and> good e v"
    using eval_order_good [OF assms(1) C(2,4)] by blast
  have "p \<in> set (collectPostOrder h p)" using C(3) by simp
  then obtain v e' where "m p = Some v" "denotes h p e'" "good e' v" using m(2) by blast
  then show ?thesis using m(1) denotes_unique [OF assms(2)] by (auto simp: evaluate_def)
qed

end

end
