(* ===== verification/BitLengthEval.thy ===== *)
theory BitLengthEval
  imports BitLengthDag
begin

text \<open>
  The symbolic bounds of a bit-length expression: \<^verbatim>\<open>Node::min\<close>, \<^verbatim>\<open>Node::max\<close>,
  \<^verbatim>\<open>Node::saturationReachable\<close> and \<^verbatim>\<open>Node::summary\<close> of \<^verbatim>\<open>lib/Semantics/BitLengthSet.cpp\<close>, each a
  memoised walk over the graph. The abstract meaning of an expression is the set \<open>lengths\<close> over
  the unbounded integers; the documented set \<open>clamped\<close> is its image under saturation at
  \<open>INT64_MAX\<close>.
\<close>

subsection \<open>The denoted set\<close>

fun lengths :: "bl_expr \<Rightarrow> int set" where
  "lengths (Leaf vs) = set vs"
| "lengths (Add a b) = msum (lengths a) (lengths b)"
| "lengths (Unite a b) = lengths a \<union> lengths b"
| "lengths (Pad a k) = (\<lambda>v. round_up v k) ` lengths a"
| "lengths (Repeat a k) = ksum (nat k) (lengths a)"
| "lengths (RepeatRange a k) = ksum_upto (nat k) (lengths a)"

definition clamp :: "int \<Rightarrow> int" where
  "clamp x = min x int64_max"

definition clamped :: "bl_expr \<Rightarrow> int set" where
  "clamped e = clamp ` lengths e"

lemma clamp_mono: "x \<le> y \<Longrightarrow> clamp x \<le> clamp y"
  by (simp add: clamp_def)

lemma clamp_le [simp]: "clamp x \<le> int64_max"
  by (simp add: clamp_def)

lemma clamp_id: "x \<le> int64_max \<Longrightarrow> clamp x = x"
  by (simp add: clamp_def)

lemma clamp_clamp [simp]: "clamp (clamp x) = clamp x"
  by (simp add: clamp_def)

lemma clamp_add: "0 \<le> x \<Longrightarrow> 0 \<le> y \<Longrightarrow> clamp (clamp x + clamp y) = clamp (x + y)"
  by (cases "x \<le> int64_max"; cases "y \<le> int64_max") (auto simp: clamp_def min_def)

lemma clamp_round_up: "0 < a \<Longrightarrow> clamp (round_up (clamp x) a) = clamp (round_up x a)"
proof (cases "x \<le> int64_max")
  case False
  assume a: "0 < a"
  have "int64_max \<le> round_up int64_max a" "int64_max \<le> round_up x a"
    using round_up_ge [OF a, of int64_max] round_up_ge [OF a, of x] False by auto
  then show ?thesis using False by (simp add: clamp_def)
qed (simp add: clamp_def)

lemma finite_lengths [simp]: "finite (lengths e)"
  by (induction e) auto

lemma lengths_nonempty: "wf_expr e \<Longrightarrow> lengths e \<noteq> {}"
proof (induction e)
  case (RepeatRange a k)
  then show ?case using zero_in_ksum_upto by auto
qed (auto simp: msum_nonempty ksum_nonempty)

lemma ksum_upto_nonneg: "(\<And>x. x \<in> A \<Longrightarrow> 0 \<le> x) \<Longrightarrow> z \<in> ksum_upto n A \<Longrightarrow> 0 \<le> z"
  using ksum_nonneg by (auto simp: ksum_upto_def)

lemma lengths_nonneg: "wf_expr e \<Longrightarrow> x \<in> lengths e \<Longrightarrow> 0 \<le> x"
proof (induction e arbitrary: x)
  case (Pad a k)
  then obtain v where v: "x = round_up v k" "v \<in> lengths a" "0 < k" by auto
  have "0 \<le> v" using Pad.IH [OF _ v(2)] Pad.prems(1) by simp
  then show ?case using round_up_ge [OF v(3), of v] v(1) by simp
next
  case (Repeat a k)
  then show ?case using ksum_nonneg [of "lengths a" x "nat k"] by auto
next
  case (RepeatRange a k)
  then show ?case using ksum_upto_nonneg [of "lengths a" x "nat k"] by auto
qed (auto simp: msum_def)

lemma clamped_i64: "wf_expr e \<Longrightarrow> x \<in> clamped e \<Longrightarrow> 0 \<le> x \<and> i64 x"
proof -
  assume "wf_expr e" "x \<in> clamped e"
  then obtain y where "x = clamp y" "0 \<le> y" using lengths_nonneg by (auto simp: clamped_def)
  then show ?thesis by (simp add: clamp_def i64_def int64_min_def min_def int64_max_def)
qed

lemma clamped_nonempty: "wf_expr e \<Longrightarrow> clamped e \<noteq> {}"
  by (simp add: clamped_def lengths_nonempty)

lemma finite_clamped [simp]: "finite (clamped e)"
  by (simp add: clamped_def)

text \<open>The extreme lengths.\<close>

definition least :: "bl_expr \<Rightarrow> int" where
  "least e = Min (lengths e)"

definition greatest :: "bl_expr \<Rightarrow> int" where
  "greatest e = Max (lengths e)"

lemma leastI: "m \<in> lengths e \<Longrightarrow> (\<And>x. x \<in> lengths e \<Longrightarrow> m \<le> x) \<Longrightarrow> least e = m"
  by (simp add: least_def Min_eqI)

lemma greatestI: "m \<in> lengths e \<Longrightarrow> (\<And>x. x \<in> lengths e \<Longrightarrow> x \<le> m) \<Longrightarrow> greatest e = m"
  by (simp add: greatest_def Max_eqI)

lemma least_mem: "wf_expr e \<Longrightarrow> least e \<in> lengths e"
  and least_le: "x \<in> lengths e \<Longrightarrow> least e \<le> x"
  and greatest_mem: "wf_expr e \<Longrightarrow> greatest e \<in> lengths e"
  and greatest_ge: "x \<in> lengths e \<Longrightarrow> x \<le> greatest e"
  by (simp_all add: least_def greatest_def lengths_nonempty)

lemma least_nonneg: "wf_expr e \<Longrightarrow> 0 \<le> least e"
  using least_mem lengths_nonneg by blast

lemma greatest_nonneg: "wf_expr e \<Longrightarrow> 0 \<le> greatest e"
  using greatest_mem lengths_nonneg by blast

lemma least_simps:
  "wf_expr (Leaf vs) \<Longrightarrow> least (Leaf vs) = hd vs"
  "wf_expr (Add a b) \<Longrightarrow> least (Add a b) = least a + least b"
  "wf_expr (Unite a b) \<Longrightarrow> least (Unite a b) = min (least a) (least b)"
  "wf_expr (Pad a k) \<Longrightarrow> least (Pad a k) = round_up (least a) k"
  "wf_expr (Repeat a k) \<Longrightarrow> least (Repeat a k) = k * least a"
  "wf_expr (RepeatRange a k) \<Longrightarrow> least (RepeatRange a k) = 0"
proof -
  show "wf_expr (Leaf vs) \<Longrightarrow> least (Leaf vs) = hd vs" by (simp add: least_def flat_ok_hd)
  show "wf_expr (Add a b) \<Longrightarrow> least (Add a b) = least a + least b"
    by (rule leastI) (auto simp: least_mem intro: add_mono least_le)
  show "wf_expr (Unite a b) \<Longrightarrow> least (Unite a b) = min (least a) (least b)"
    by (simp add: least_def Min_Un lengths_nonempty)
  show "wf_expr (Pad a k) \<Longrightarrow> least (Pad a k) = round_up (least a) k"
    by (rule leastI) (auto simp: least_mem least_le intro: round_up_mono)
  show "wf_expr (Repeat a k) \<Longrightarrow> least (Repeat a k) = k * least a"
    using ksum_extreme [of "least a" "lengths a" "nat k"] ksum_lower [of "lengths a" "least a" _ "nat k"]
    by (intro leastI) (auto simp: least_mem least_le)
  show "wf_expr (RepeatRange a k) \<Longrightarrow> least (RepeatRange a k) = 0"
    using ksum_upto_nonneg [of "lengths a" _ "nat k"] lengths_nonneg [of a]
    by (intro leastI) (auto simp: zero_in_ksum_upto)
qed

lemma greatest_simps:
  "wf_expr (Leaf vs) \<Longrightarrow> greatest (Leaf vs) = last vs"
  "wf_expr (Add a b) \<Longrightarrow> greatest (Add a b) = greatest a + greatest b"
  "wf_expr (Unite a b) \<Longrightarrow> greatest (Unite a b) = max (greatest a) (greatest b)"
  "wf_expr (Pad a k) \<Longrightarrow> greatest (Pad a k) = round_up (greatest a) k"
  "wf_expr (Repeat a k) \<Longrightarrow> greatest (Repeat a k) = k * greatest a"
  "wf_expr (RepeatRange a k) \<Longrightarrow> greatest (RepeatRange a k) = k * greatest a"
proof -
  show "wf_expr (Leaf vs) \<Longrightarrow> greatest (Leaf vs) = last vs" by (simp add: greatest_def flat_ok_last)
  show "wf_expr (Add a b) \<Longrightarrow> greatest (Add a b) = greatest a + greatest b"
    by (rule greatestI) (auto simp: greatest_mem intro: add_mono greatest_ge)
  show "wf_expr (Unite a b) \<Longrightarrow> greatest (Unite a b) = max (greatest a) (greatest b)"
    by (simp add: greatest_def Max_Un lengths_nonempty)
  show "wf_expr (Pad a k) \<Longrightarrow> greatest (Pad a k) = round_up (greatest a) k"
    by (rule greatestI) (auto simp: greatest_mem greatest_ge intro: round_up_mono)
  show "wf_expr (Repeat a k) \<Longrightarrow> greatest (Repeat a k) = k * greatest a"
    using ksum_extreme [of "greatest a" "lengths a" "nat k"] ksum_upper [of "lengths a" "greatest a" _ "nat k"]
    by (intro greatestI) (auto simp: greatest_mem greatest_ge)
  assume w: "wf_expr (RepeatRange a k)"
  show "greatest (RepeatRange a k) = k * greatest a"
  proof (rule greatestI)
    show "k * greatest a \<in> lengths (RepeatRange a k)"
      using ksum_extreme [of "greatest a" "lengths a" "nat k"] w
      by (auto simp: ksum_upto_def greatest_mem intro!: bexI [of _ "nat k"])
    fix x assume "x \<in> lengths (RepeatRange a k)"
    then obtain j where j: "j \<le> nat k" "x \<in> ksum j (lengths a)" by (auto simp: ksum_upto_def)
    have "x \<le> int j * greatest a" using ksum_upper [OF greatest_ge j(2)] .
    also have "\<dots> \<le> k * greatest a" using j(1) w greatest_nonneg [of a] by (intro mult_right_mono) auto
    finally show "x \<le> k * greatest a" .
  qed
qed

lemma Min_clamped: "wf_expr e \<Longrightarrow> Min (clamped e) = clamp (least e)"
  unfolding clamped_def least_def
  by (rule mono_Min_commute [symmetric]) (auto simp: lengths_nonempty mono_def clamp_mono)

lemma Max_clamped: "wf_expr e \<Longrightarrow> Max (clamped e) = clamp (greatest e)"
  unfolding clamped_def greatest_def
  by (rule mono_Max_commute [symmetric]) (auto simp: lengths_nonempty mono_def clamp_mono)

subsection \<open>Minimum\<close>

definition min_step :: "node \<Rightarrow> (nat \<rightharpoonup> int) \<Rightarrow> int option" where
  "min_step n memo =
     (case kind n of
        KLeaf \<Rightarrow> Some (if vals n = [] then 0 else hd (vals n))
      | KAdd \<Rightarrow>
          (case (memo_at memo (lhs n), memo_at memo (rhs n)) of
             (Some l, Some r) \<Rightarrow> Some (saturatingAddNonNegative l r)
           | _ \<Rightarrow> None)
      | KUnion \<Rightarrow>
          (case (memo_at memo (lhs n), memo_at memo (rhs n)) of
             (Some l, Some r) \<Rightarrow> Some (min l r)
           | _ \<Rightarrow> None)
      | KPad \<Rightarrow>
          (case memo_at memo (lhs n) of
             Some l \<Rightarrow> Some (saturatingRoundUpToMultipleNonNegative l (max 1 (param n)))
           | None \<Rightarrow> None)
      | KRepeat \<Rightarrow>
          (case memo_at memo (lhs n) of
             Some l \<Rightarrow> Some (saturatingMultiplyNonNegative l (max 0 (param n)))
           | None \<Rightarrow> None)
      | KRepeatRange \<Rightarrow> Some 0)"

definition node_min :: "heap \<Rightarrow> nat \<Rightarrow> int option" where
  "node_min h p = evaluate min_step h p"

definition min_good :: "bl_expr \<Rightarrow> int \<Rightarrow> bool" where
  "min_good e v \<longleftrightarrow> v = clamp (least e)"

subsection \<open>Maximum and saturation\<close>

record summary =
  maximum :: int
  saturates :: bool

definition summary_step :: "node \<Rightarrow> (nat \<rightharpoonup> summary) \<Rightarrow> summary option" where
  "summary_step n memo =
     (case kind n of
        KLeaf \<Rightarrow> Some \<lparr>maximum = (if vals n = [] then 0 else last (vals n)), saturates = False\<rparr>
      | KUnion \<Rightarrow>
          (case (memo_at memo (lhs n), memo_at memo (rhs n)) of
             (Some l, Some r) \<Rightarrow>
               Some \<lparr>maximum = max (maximum l) (maximum r), saturates = saturates l \<or> saturates r\<rparr>
           | _ \<Rightarrow> None)
      | KAdd \<Rightarrow>
          (case (memo_at memo (lhs n), memo_at memo (rhs n)) of
             (Some l, Some r) \<Rightarrow>
               Some (case checkedAdd (maximum l) (maximum r) of
                       Some m \<Rightarrow> \<lparr>maximum = m, saturates = saturates l \<or> saturates r\<rparr>
                     | None \<Rightarrow> \<lparr>maximum = int64_max, saturates = True\<rparr>)
           | _ \<Rightarrow> None)
      | KPad \<Rightarrow>
          (case memo_at memo (lhs n) of
             Some child \<Rightarrow>
               let a = max 1 (param n); rem = maximum child smod a
               in Some (if rem = 0 then \<lparr>maximum = maximum child, saturates = saturates child\<rparr>
                        else case checkedAdd (maximum child) (a - rem) of
                               Some m \<Rightarrow> \<lparr>maximum = m, saturates = saturates child\<rparr>
                             | None \<Rightarrow> \<lparr>maximum = int64_max, saturates = True\<rparr>)
           | None \<Rightarrow> None)
      | _ \<Rightarrow>
          (let cnt = max 0 (param n)
           in if cnt = 0 then Some \<lparr>maximum = 0, saturates = False\<rparr>
              else case memo_at memo (lhs n) of
                     Some child \<Rightarrow>
                       Some (case checkedMultiply (maximum child) cnt of
                               Some m \<Rightarrow> \<lparr>maximum = m, saturates = saturates child\<rparr>
                             | None \<Rightarrow> \<lparr>maximum = int64_max, saturates = True\<rparr>)
                   | None \<Rightarrow> None))"

definition node_summary :: "heap \<Rightarrow> nat \<Rightarrow> summary option" where
  "node_summary h p = evaluate summary_step h p"

definition node_max :: "heap \<Rightarrow> nat \<Rightarrow> int option" where
  "node_max h p = map_option maximum (node_summary h p)"

definition saturationReachable :: "heap \<Rightarrow> nat \<Rightarrow> bool option" where
  "saturationReachable h p = map_option saturates (node_summary h p)"

definition summary_good :: "bl_expr \<Rightarrow> summary \<Rightarrow> bool" where
  "summary_good e s \<longleftrightarrow> maximum s = clamp (greatest e) \<and> (saturates s \<longleftrightarrow> int64_max < greatest e)"

subsection \<open>The bounds are exact\<close>

lemma int64_max_not_neg [simp]: "\<not> int64_max < 0" "\<not> int64_max \<le> 0"
  by (simp_all add: int64_max_def)

lemma clamp_min: "clamp x = min int64_max x"
  by (simp add: clamp_def min.commute)

lemma saturatingAdd_clamp:
  "0 \<le> x \<Longrightarrow> 0 \<le> y \<Longrightarrow> saturatingAddNonNegative (clamp x) (clamp y) = clamp (x + y)"
  using clamp_add [of x y] saturatingAdd_min [of "clamp x" "clamp y"] by (simp add: clamp_min)

lemma clamp_mult:
  assumes "0 \<le> x" "0 \<le> k"
  shows "clamp (clamp x * k) = clamp (x * k)"
proof (cases "x \<le> int64_max \<or> k = 0")
  case True
  then show ?thesis by (auto simp: clamp_id)
next
  case False
  then have c: "clamp x = int64_max" "1 \<le> k" "int64_max \<le> x" using assms by (auto simp: clamp_def)
  have "int64_max * 1 \<le> int64_max * k" using c by (intro mult_left_mono) auto
  moreover have "x * 1 \<le> x * k" using c assms by (intro mult_left_mono) auto
  ultimately show ?thesis using c by (simp add: clamp_def)
qed

lemma saturatingMultiply_clamp:
  "0 \<le> x \<Longrightarrow> 0 \<le> k \<Longrightarrow> saturatingMultiplyNonNegative (clamp x) k = clamp (x * k)"
proof -
  assume x: "0 \<le> x" "0 \<le> k"
  then have "0 \<le> clamp x" by (simp add: clamp_def)
  then show ?thesis using x clamp_mult saturatingMultiply_min [of "clamp x" k] by (simp add: clamp_min)
qed

lemma roundUp_clamp:
  "0 \<le> x \<Longrightarrow> 0 < a \<Longrightarrow> saturatingRoundUpToMultipleNonNegative (clamp x) a = clamp (round_up x a)"
proof -
  assume x: "0 \<le> x" "0 < a"
  have c: "0 \<le> clamp x" using x by (simp add: clamp_def)
  have "saturatingRoundUpToMultipleNonNegative (clamp x) a = clamp (round_up (clamp x) a)"
  proof (cases "a dvd clamp x")
    case True
    then show ?thesis using c x by (simp add: roundUp_eq round_up_id)
  next
    case False
    then show ?thesis using c x by (simp add: roundUp_eq clamp_min)
  qed
  then show ?thesis using clamp_round_up [OF x(2)] by simp
qed

lemma clamp_min_max: "clamp (min x y) = min (clamp x) (clamp y)" "clamp (max x y) = max (clamp x) (clamp y)"
  by (auto simp: clamp_def min_def max_def)

interpretation min_eval: memo_contract min_step min_good
proof
  fix n :: node and m
  assume "kind n = KLeaf" "wf_expr (Leaf (vals n))"
  then show "\<exists>v. min_step n m = Some v \<and> min_good (Leaf (vals n)) v"
    by (auto simp: min_step_def min_good_def least_simps i64_def clamp_id)
next
  fix n :: node and a b m x y
  assume "kind n = KAdd" "wf_expr (Add a b)" "memo_at m (lhs n) = Some x" "memo_at m (rhs n) = Some y"
    "min_good a x" "min_good b y"
  then show "\<exists>v. min_step n m = Some v \<and> min_good (Add a b) v"
    by (simp add: min_step_def min_good_def least_simps least_nonneg saturatingAdd_clamp)
next
  fix n :: node and a b m x y
  assume "kind n = KUnion" "wf_expr (Unite a b)" "memo_at m (lhs n) = Some x" "memo_at m (rhs n) = Some y"
    "min_good a x" "min_good b y"
  then show "\<exists>v. min_step n m = Some v \<and> min_good (Unite a b) v"
    by (simp add: min_step_def min_good_def least_simps clamp_min_max)
next
  fix n :: node and a m x
  assume "kind n = KPad" "wf_expr (Pad a (param n))" "memo_at m (lhs n) = Some x" "min_good a x"
  then show "\<exists>v. min_step n m = Some v \<and> min_good (Pad a (param n)) v"
    by (simp add: min_step_def min_good_def least_simps least_nonneg roundUp_clamp max_def)
next
  fix n :: node and a m x
  assume "kind n = KRepeat" "wf_expr (Repeat a (param n))" "memo_at m (lhs n) = Some x" "min_good a x"
  then show "\<exists>v. min_step n m = Some v \<and> min_good (Repeat a (param n)) v"
    by (simp add: min_step_def min_good_def least_simps least_nonneg saturatingMultiply_clamp max_def mult.commute)
next
  fix n :: node and a m x
  assume "kind n = KRepeatRange" "wf_expr (RepeatRange a (param n))" "memo_at m (lhs n) = Some x" "min_good a x"
  then show "\<exists>v. min_step n m = Some v \<and> min_good (RepeatRange a (param n)) v"
    by (simp add: min_step_def min_good_def least_simps clamp_def)
qed

text \<open>When an operand saturates, so does the result; the checked operation fails exactly then.\<close>

lemma summary_checkedAdd:
  assumes "0 \<le> x" "0 \<le> y" "maximum l = clamp x" "saturates l \<longleftrightarrow> int64_max < x"
    "maximum r = clamp y" "saturates r \<longleftrightarrow> int64_max < y"
  defines "s \<equiv> (case checkedAdd (maximum l) (maximum r) of
      Some m \<Rightarrow> \<lparr>maximum = m, saturates = saturates l \<or> saturates r\<rparr>
    | None \<Rightarrow> \<lparr>maximum = int64_max, saturates = True\<rparr>)"
  shows "maximum s = clamp (x + y) \<and> (saturates s \<longleftrightarrow> int64_max < x + y)"
proof -
  have "int64_min \<le> clamp x + clamp y" using assms(1,2) by (simp add: clamp_def int64_min_def int64_max_def)
  moreover have "\<not> int64_max \<le> 0" by (simp add: int64_max_def)
  ultimately show ?thesis unfolding s_def using assms(1-6)
    by (auto simp: checkedAdd_def i64_def clamp_def min_def simp del: int64_max_pos)
qed

lemma summary_checkedMultiply:
  assumes "0 \<le> x" "0 < k" "maximum c = clamp x" "saturates c \<longleftrightarrow> int64_max < x"
  defines "s \<equiv> (case checkedMultiply (maximum c) k of
      Some m \<Rightarrow> \<lparr>maximum = m, saturates = saturates c\<rparr>
    | None \<Rightarrow> \<lparr>maximum = int64_max, saturates = True\<rparr>)"
  shows "maximum s = clamp (k * x) \<and> (saturates s \<longleftrightarrow> int64_max < k * x)"
proof (cases "x \<le> int64_max")
  case True
  have "0 \<le> k * x" using assms by simp
  then have "int64_min \<le> k * x" by (simp add: int64_min_def)
  then show ?thesis unfolding s_def using True assms(1-4)
    by (auto simp: checkedMultiply_def i64_def clamp_def min_def mult.commute)
next
  case False
  have x: "x * 1 \<le> x * k" using assms(1,2) by (intro mult_left_mono) auto
  have "int64_max * 1 \<le> int64_max * k" using assms(2) by (intro mult_left_mono) auto
  then show ?thesis unfolding s_def using False assms(1-4) x
    by (auto simp: checkedMultiply_def i64_def clamp_def min_def mult.commute)
qed

lemma summary_pad:
  assumes "0 \<le> x" "0 < a" "maximum c = clamp x" "saturates c \<longleftrightarrow> int64_max < x"
  defines "s \<equiv> (if maximum c smod a = 0 then \<lparr>maximum = maximum c, saturates = saturates c\<rparr>
      else case checkedAdd (maximum c) (a - maximum c smod a) of
             Some m \<Rightarrow> \<lparr>maximum = m, saturates = saturates c\<rparr>
           | None \<Rightarrow> \<lparr>maximum = int64_max, saturates = True\<rparr>)"
  shows "maximum s = clamp (round_up x a) \<and> (saturates s \<longleftrightarrow> int64_max < round_up x a)"
proof (cases "x \<le> int64_max")
  case True
  then have c: "maximum c = x" "\<not> saturates c" using assms by (auto simp: clamp_def)
  have "x smod a = x mod a" "0 \<le> x mod a" "x mod a < a" using assms by (auto simp: smod_eq_mod)
  moreover from this have "int64_min \<le> x + (a - x mod a)" using assms(1) by (simp add: int64_min_def)
  ultimately show ?thesis unfolding s_def using True c assms(1,2)
    by (auto simp: checkedAdd_def round_up_eq_if i64_def clamp_def min_def)
next
  case False
  then have c: "maximum c = int64_max" "saturates c" using assms by (auto simp: clamp_def)
  have u: "int64_max < round_up x a" using round_up_ge [of a x] assms False by simp
  have "int64_max smod a = int64_max mod a" "0 \<le> int64_max mod a" "int64_max mod a < a"
    using assms by (auto simp: smod_eq_mod)
  then show ?thesis unfolding s_def using c u
    by (auto simp: checkedAdd_def i64_def clamp_def)
qed

interpretation summary_eval: memo_contract summary_step summary_good
proof
  fix n :: node and m
  assume "kind n = KLeaf" "wf_expr (Leaf (vals n))"
  moreover from this have "last (vals n) \<le> int64_max" by (auto simp: i64_def)
  ultimately show "\<exists>v. summary_step n m = Some v \<and> summary_good (Leaf (vals n)) v"
    by (auto simp: summary_step_def summary_good_def greatest_simps clamp_id)
next
  fix n :: node and a b m x y
  assume "kind n = KAdd" "wf_expr (Add a b)" "memo_at m (lhs n) = Some x" "memo_at m (rhs n) = Some y"
    "summary_good a x" "summary_good b y"
  then show "\<exists>v. summary_step n m = Some v \<and> summary_good (Add a b) v"
    using summary_checkedAdd [of "greatest a" "greatest b" x y] greatest_nonneg
    by (simp add: summary_step_def summary_good_def greatest_simps)
next
  fix n :: node and a b m x y
  assume "kind n = KUnion" "wf_expr (Unite a b)" "memo_at m (lhs n) = Some x" "memo_at m (rhs n) = Some y"
    "summary_good a x" "summary_good b y"
  then show "\<exists>v. summary_step n m = Some v \<and> summary_good (Unite a b) v"
    by (auto simp: summary_step_def summary_good_def greatest_simps clamp_min_max)
next
  fix n :: node and a m x
  assume "kind n = KPad" "wf_expr (Pad a (param n))" "memo_at m (lhs n) = Some x" "summary_good a x"
  then have "maximum x = clamp (greatest a)" "saturates x \<longleftrightarrow> int64_max < greatest a" "1 \<le> param n"
    "0 \<le> greatest a" "wf_expr (Pad a (param n))" "kind n = KPad" "memo_at m (lhs n) = Some x"
    using greatest_nonneg [of a] by (auto simp: summary_good_def)
  then show "\<exists>v. summary_step n m = Some v \<and> summary_good (Pad a (param n)) v"
    using summary_pad [of "greatest a" "param n" x]
    by (cases "clamp (greatest a) smod param n = 0")
      (simp_all add: summary_step_def summary_good_def greatest_simps Let_def max_def del: wf_expr.simps)
next
  fix n :: node and a m x
  assume "kind n = KRepeat" "wf_expr (Repeat a (param n))" "memo_at m (lhs n) = Some x" "summary_good a x"
  then show "\<exists>v. summary_step n m = Some v \<and> summary_good (Repeat a (param n)) v"
    using summary_checkedMultiply [of "greatest a" "param n" x] greatest_nonneg [of a]
    by (auto simp: summary_step_def summary_good_def greatest_simps Let_def max_def clamp_def)
next
  fix n :: node and a m x
  assume "kind n = KRepeatRange" "wf_expr (RepeatRange a (param n))" "memo_at m (lhs n) = Some x" "summary_good a x"
  then show "\<exists>v. summary_step n m = Some v \<and> summary_good (RepeatRange a (param n)) v"
    using summary_checkedMultiply [of "greatest a" "param n" x] greatest_nonneg [of a]
    by (auto simp: summary_step_def summary_good_def greatest_simps Let_def max_def clamp_def)
qed

lemma node_min_exact: "heap_ok h \<Longrightarrow> denotes h p e \<Longrightarrow> node_min h p = Some (clamp (least e))"
  using min_eval.evaluate_good [of h p e] by (auto simp: node_min_def min_good_def)

lemma node_summary_exact:
  "heap_ok h \<Longrightarrow> denotes h p e \<Longrightarrow>
    node_summary h p = Some \<lparr>maximum = clamp (greatest e), saturates = (int64_max < greatest e)\<rparr>"
proof -
  assume "heap_ok h" "denotes h p e"
  then obtain s where "node_summary h p = Some s" "summary_good e s"
    using summary_eval.evaluate_good [of h p e] unfolding node_summary_def by blast
  then show ?thesis by (cases s) (simp add: summary_good_def)
qed

lemma node_max_exact: "heap_ok h \<Longrightarrow> denotes h p e \<Longrightarrow> node_max h p = Some (clamp (greatest e))"
  by (simp add: node_max_def node_summary_exact)

lemma saturationReachable_exact:
  "heap_ok h \<Longrightarrow> denotes h p e \<Longrightarrow> saturationReachable h p = Some (int64_max < greatest e)"
  by (simp add: saturationReachable_def node_summary_exact)

text \<open>Without saturation the documented set is the unbounded one.\<close>

lemma unsaturated_lengths: "\<not> int64_max < greatest e \<Longrightarrow> clamped e = lengths e"
proof -
  assume "\<not> int64_max < greatest e"
  then have "clamp x = x" if "x \<in> lengths e" for x using greatest_ge [OF that] by (simp add: clamp_def)
  then show ?thesis by (force simp: clamped_def)
qed

end
