(* ===== verification/BitLengthWindow.thy ===== *)
theory BitLengthWindow
  imports BitLengthExpand
begin

text \<open>
  Correctness of the bounded expansion of \<^verbatim>\<open>lib/Semantics/BitLengthSet.cpp\<close>. A window invariant
  covers the loops of sums and unions, a monotone chain of saturated repeated sums covers
  \<^verbatim>\<open>Repeat\<close> and \<^verbatim>\<open>RepeatRange\<close> with their fixpoint exits. Each case keeps: ascending, non-empty, at
  most \<open>limit\<close> members of the documented set, and all of them when the flag says exact. The flag is
  set whenever no intermediate set passes the limit and no repeated operand saturates.
\<close>

subsection \<open>A window of at most \<open>limit\<close> values\<close>

text \<open>
  \<open>win limit S (out, overflow)\<close>: the values offered so far are \<open>S\<close>; the window holds all of them
  or, flagged, it holds some and they are more than the limit.
\<close>

definition win :: "nat \<Rightarrow> int set \<Rightarrow> int list \<times> bool \<Rightarrow> bool" where
  "win limit S st \<longleftrightarrow> finite S \<and> flat_ok (fst st) \<and> length (fst st) \<le> limit \<and> set (fst st) \<subseteq> S \<and>
     (S \<noteq> {} \<longrightarrow> fst st \<noteq> []) \<and> (if snd st then limit < card S else set (fst st) = S)"

lemma winD:
  assumes "win limit S (out, ov)"
  shows "finite S" "flat_ok out" "length out \<le> limit" "set out \<subseteq> S" "S \<noteq> {} \<Longrightarrow> out \<noteq> []"
    "ov \<Longrightarrow> limit < card S" "\<not> ov \<Longrightarrow> set out = S"
  using assms by (auto simp: win_def)

lemma win_empty [simp]: "win limit {} ([], False)"
  by (simp add: win_def)

text \<open>Offering one more value, the keep-the-smallest way of the code.\<close>

definition offer :: "nat \<Rightarrow> int \<Rightarrow> int list \<times> bool \<Rightarrow> int list \<times> bool" where
  "offer limit v st =
     (let out' = flat_add v (fst st)
      in if limit < length out' then (flat_erase_last out', True) else (out', snd st))"

lemma win_offer:
  assumes w: "win limit S (out, ov)" and l: "1 \<le> limit"
  shows "win limit (insert v S) (offer limit v (out, ov))"
proof -
  note W = winD [OF w]
  let ?o = "flat_add v out"
  have ok: "flat_ok ?o" "set ?o = insert v (set out)" using W(2) by (simp_all add: flat_insert_ok set_flat_insert)
  have card: "length ?o = card (set ?o)" by (rule flat_ok_length [OF ok(1)])
  have sub: "card (set ?o) \<le> card (insert v S)" using ok(2) W(1,4) by (intro card_mono) auto
  show ?thesis
  proof (cases "limit < length ?o")
    case True
    then have ne: "?o \<noteq> []" "butlast ?o \<noteq> []" using l by (auto simp flip: length_0_conv)
    have "length ?o \<le> Suc limit"
      using card ok(2) W(3) flat_ok_length [OF W(2)] card_insert_le_m1 by (simp add: card_insert_if)
    moreover have "set (flat_erase_last ?o) \<subseteq> set ?o" using ne by (auto simp: flat_erase_last_butlast in_set_butlastD)
    ultimately show ?thesis
      using True ne ok card sub W flat_erase_last_ok [OF ok(1)]
      by (auto simp: win_def offer_def flat_erase_last_butlast)
  next
    case False
    have "limit < card (insert v S)" if "ov"
      using W(1) W(6) [OF that] by (simp add: card_insert_if)
    then show ?thesis using False ok W
      by (auto simp: win_def offer_def)
  qed
qed

text \<open>An exit with values left over, one of which is not in the full window.\<close>

lemma win_exit:
  assumes w: "win limit S (out, ov)" and T: "finite T" "S \<subseteq> T" "s \<in> T"
    and full: "limit \<le> length out" "last out < s" "1 \<le> limit"
  shows "win limit T (out, True)"
proof -
  note W = winD [OF w]
  have ne: "out \<noteq> []" using full by auto
  have "s \<notin> set out" using flat_ok_last [OF W(2) ne] full(2) Max_ge [of "set out" s] by fastforce
  then have "card (insert s (set out)) = Suc (length out)" using flat_ok_length [OF W(2)] by simp
  moreover have "card (insert s (set out)) \<le> card T" using T W(4) by (intro card_mono) auto
  ultimately show ?thesis using W ne T full by (auto simp: win_def)
qed

lemma win_overflow:
  assumes "win limit S (out, True)" "finite T" "S \<subseteq> T"
  shows "win limit T (out, True)"
proof -
  note W = winD [OF assms(1)]
  have "limit < card T" using W(6) card_mono [OF assms(2,3)] by simp
  moreover have "S \<noteq> {}" using W(6) by auto
  ultimately show ?thesis using W assms by (auto simp: win_def)
qed

subsection \<open>The loops fill a window\<close>

lemma add_row_win:
  assumes "win limit S st" "1 \<le> limit"
  shows "win limit (S \<union> saturatingAddNonNegative lv ` set rvs) (add_row limit lv rvs st)"
  using assms
proof (induction limit lv rvs st arbitrary: S rule: add_row.induct)
  case (2 limit lv rv rvs out ov)
  let ?s = "saturatingAddNonNegative lv rv"
  let ?T = "S \<union> saturatingAddNonNegative lv ` set (rv # rvs)"
  show ?case
  proof (cases "limit \<le> length out \<and> last out < ?s")
    case True
    have e: "add_row limit lv (rv # rvs) (out, ov) = (out, True)" using True by (simp add: Let_def)
    have "finite ?T" using winD(1) [OF "2.prems"(1)] by simp
    moreover have "S \<subseteq> ?T" "?s \<in> ?T" by auto
    ultimately show ?thesis unfolding e using True "2.prems"(2) by (intro win_exit [OF "2.prems"(1)]) auto
  next
    case False
    have o: "win limit (insert ?s S) (offer limit ?s (out, ov))" by (rule win_offer [OF "2.prems"])
    have T: "?T = insert ?s S \<union> saturatingAddNonNegative lv ` set rvs" by auto
    have e: "add_row limit lv (rv # rvs) (out, ov) = add_row limit lv rvs (offer limit ?s (out, ov))"
      using False by (auto simp: offer_def Let_def)
    show ?thesis
    proof (cases "limit < length (flat_add ?s out)")
      case l: True
      then show ?thesis unfolding T e
        using "2.IH"(1) [OF refl False refl l, of "insert ?s S"] o "2.prems"(2)
        by (simp add: offer_def Let_def)
    next
      case l: False
      then show ?thesis unfolding T e
        using "2.IH"(2) [OF refl False refl l, of "insert ?s S"] o "2.prems"(2)
        by (simp add: offer_def Let_def)
    qed
  qed
qed simp

lemma add_rows_win:
  assumes "win limit S st" "1 \<le> limit" "rvs \<noteq> []" "rmin = hd rvs"
  shows "win limit (S \<union> (\<Union>lv\<in>set lvs. saturatingAddNonNegative lv ` set rvs)) (add_rows limit rmin rvs lvs st)"
  using assms
proof (induction limit rmin rvs lvs st arbitrary: S rule: add_rows.induct)
  case (2 limit rmin rvs lv lvs st)
  let ?s = "saturatingAddNonNegative lv rmin"
  let ?T = "S \<union> (\<Union>lv\<in>set (lv # lvs). saturatingAddNonNegative lv ` set rvs)"
  show ?case
  proof (cases "limit \<le> length (fst st) \<and> last (fst st) < ?s")
    case True
    have "finite ?T" "?s \<in> ?T" using "2.prems" by (auto simp: win_def)
    then show ?thesis
      using True win_exit [of limit S "fst st" "snd st" ?T ?s] "2.prems" by simp
  next
    case False
    have T: "?T = (S \<union> saturatingAddNonNegative lv ` set rvs) \<union>
        (\<Union>lv\<in>set lvs. saturatingAddNonNegative lv ` set rvs)" by auto
    have e: "add_rows limit rmin rvs (lv # lvs) st = add_rows limit rmin rvs lvs (add_row limit lv rvs st)"
      using False by auto
    show ?thesis unfolding T e by (rule "2.IH" [OF False add_row_win [OF "2.prems"(1,2)] "2.prems"(2-4)])
  qed
qed simp

lemma trim_last_win:
  assumes "flat_ok out" "out \<noteq> []" "set out \<subseteq> S" "finite S" "1 \<le> limit"
    "if ov then limit < card S else set out = S"
  shows "win limit S (trim_last limit out ov)"
  using assms
proof (induction limit out ov rule: trim_last.induct)
  case (1 limit out ov)
  show ?case
  proof (cases "limit < length out")
    case True
    have ne: "butlast out \<noteq> []" using True "1.prems"(5) by (auto simp flip: length_0_conv)
    have "limit < card S"
      using True flat_ok_length [OF "1.prems"(1)] card_mono [OF "1.prems"(4,3)] by simp
    then show ?thesis
      using "1.IH" [OF True] "1.prems" True ne flat_erase_last_ok [OF "1.prems"(1,2)]
      by (auto simp: trim_last.simps [of limit out] flat_erase_last_butlast dest: in_set_butlastD)
  next
    case False
    then show ?thesis using "1.prems" by (simp add: trim_last.simps [of limit out] win_def)
  qed
qed

lemma window_row_win:
  assumes "win limit S (out, False)" "1 \<le> limit"
  shows "win limit (S \<union> saturatingAddNonNegative a ` set bs) (window_row limit a bs out)"
  using assms
proof (induction limit a bs out arbitrary: S rule: window_row.induct)
  case (2 limit a b bs out)
  let ?s = "saturatingAddNonNegative a b"
  let ?T = "S \<union> saturatingAddNonNegative a ` set (b # bs)"
  have o: "win limit (insert ?s S) (offer limit ?s (out, False))" by (rule win_offer [OF "2.prems"])
  have T: "?T = insert ?s S \<union> saturatingAddNonNegative a ` set bs" by auto
  have fin: "finite ?T" using winD(1) [OF "2.prems"(1)] by simp
  show ?case
  proof (cases "limit < length (flat_add ?s out)")
    case True
    then have "win limit (insert ?s S) (flat_erase_last (flat_add ?s out), True)" using o by (simp add: offer_def)
    from win_overflow [OF this fin] show ?thesis using True by (auto simp: Let_def)
  next
    case False
    then show ?thesis unfolding T
      using "2.IH" [OF refl False, of "insert ?s S"] o "2.prems"(2) by (simp add: offer_def Let_def)
  qed
qed simp

lemma window_rows_win:
  assumes "win limit S (out, False)" "1 \<le> limit"
  shows "win limit (S \<union> (\<Union>a\<in>set as. saturatingAddNonNegative a ` set bs)) (window_rows limit as bs out)"
  using assms
proof (induction limit as bs out arbitrary: S rule: window_rows.induct)
  case (2 limit a as bs out)
  let ?T = "S \<union> (\<Union>a\<in>set (a # as). saturatingAddNonNegative a ` set bs)"
  obtain o1 ov where r: "window_row limit a bs out = (o1, ov)" by force
  have w: "win limit (S \<union> saturatingAddNonNegative a ` set bs) (o1, ov)"
    using window_row_win [OF "2.prems", of a bs] r by simp
  have fin: "finite ?T" using winD(1) [OF "2.prems"(1)] by simp
  have T: "?T = (S \<union> saturatingAddNonNegative a ` set bs) \<union> (\<Union>a\<in>set as. saturatingAddNonNegative a ` set bs)"
    by auto
  show ?case
  proof (cases ov)
    case True
    have w': "win limit (S \<union> saturatingAddNonNegative a ` set bs) (o1, True)" using w True by simp
    have sub: "S \<union> saturatingAddNonNegative a ` set bs \<subseteq> ?T" by auto
    have o1: "win limit ?T (o1, True)" by (rule win_overflow [OF w' fin sub])
    have e: "window_rows limit (a # as) bs out = (o1, True)" using r True by simp
    show ?thesis unfolding e by (rule o1)
  next
    case False
    then have e: "window_rows limit (a # as) bs out = window_rows limit as bs o1" using r by simp
    have w': "win limit (S \<union> saturatingAddNonNegative a ` set bs) (o1, False)" using w False by simp
    show ?thesis unfolding T e by (rule "2.IH" [OF refl r [symmetric] False w' "2.prems"(2)])
  qed
qed simp

lemma add_term_win:
  assumes "win limit S st" "1 \<le> limit"
  shows "win limit (S \<union> saturatingAddNonNegative shift ` set xs) (add_term limit shift xs st)"
  using assms
proof (induction limit shift xs st arbitrary: S rule: add_term.induct)
  case (2 limit shift x xs out ov)
  let ?s = "saturatingAddNonNegative shift x"
  have o: "win limit (insert ?s S) (offer limit ?s (out, ov))" by (rule win_offer [OF "2.prems"])
  have T: "S \<union> saturatingAddNonNegative shift ` set (x # xs) = insert ?s S \<union> saturatingAddNonNegative shift ` set xs"
    by auto
  show ?case unfolding T
    using "2.IH" [OF refl, of "insert ?s S"] o "2.prems"(2)
    by (cases "limit < length (flat_add ?s out)") (simp_all add: offer_def Let_def)
qed simp


lemma add_term_flag:
  "add_term limit shift xs (out, ov) =
    (fst (add_term limit shift xs (out, False)), snd (add_term limit shift xs (out, False)) \<or> ov)"
proof (induction xs arbitrary: out ov)
  case (Cons x xs)
  let ?o = "flat_add (saturatingAddNonNegative shift x) out"
  show ?case
  proof (cases "limit < length ?o")
    case True
    then show ?thesis using Cons.IH [of "flat_erase_last ?o" True] by (simp add: Let_def)
  next
    case False
    then show ?thesis using Cons.IH [of ?o ov] by (simp add: Let_def)
  qed
qed simp

subsection \<open>Iterated sums under saturation\<close>

definition sat_ksum :: "nat \<Rightarrow> int set \<Rightarrow> int set" where
  "sat_ksum k A = clamp ` ksum k A"

lemma finite_sat_ksum [simp]: "finite A \<Longrightarrow> finite (sat_ksum k A)"
  by (simp add: sat_ksum_def)

lemma sat_ksum_0 [simp]: "sat_ksum 0 A = {0}"
  by (simp add: sat_ksum_def clamp_def)

lemma sat_ksum_nonneg: "(\<And>x. x \<in> A \<Longrightarrow> 0 \<le> x) \<Longrightarrow> z \<in> sat_ksum k A \<Longrightarrow> 0 \<le> z"
proof -
  assume nn: "\<And>x. x \<in> A \<Longrightarrow> 0 \<le> x" and "z \<in> sat_ksum k A"
  then obtain x where "z = clamp x" "x \<in> ksum k A" by (auto simp: sat_ksum_def)
  then show ?thesis using ksum_nonneg [OF nn] by (simp add: clamp_def)
qed

lemma sat_ksum_Suc:
  assumes "\<And>x. x \<in> A \<Longrightarrow> 0 \<le> x"
  shows "clamp ` msum (sat_ksum k A) A = sat_ksum (Suc k) A"
proof -
  have nn: "0 \<le> x" if "x \<in> ksum k A" for x by (rule ksum_nonneg [OF assms that])
  have nc: "0 \<le> x" if "x \<in> sat_ksum k A" for x by (rule sat_ksum_nonneg [OF assms that])
  have idem: "clamp ` sat_ksum k A = sat_ksum k A" by (simp add: sat_ksum_def image_image)
  have "clamp ` msum (sat_ksum k A) A = clamp ` msum (clamp ` sat_ksum k A) (clamp ` A)"
    by (rule clamp_msum [OF nc assms, symmetric])
  also have "\<dots> = clamp ` msum (clamp ` ksum k A) (clamp ` A)" unfolding idem by (simp add: sat_ksum_def)
  also have "\<dots> = clamp ` msum (ksum k A) A"
    by (rule clamp_msum [OF nn assms])
  finally show ?thesis by (simp add: sat_ksum_def)
qed

lemma sat_ksum_mono: "0 \<in> A \<Longrightarrow> j \<le> k \<Longrightarrow> sat_ksum j A \<subseteq> sat_ksum k A"
  unfolding sat_ksum_def by (intro image_mono ksum_mono_count)

lemma sat_ksum_stable:
  assumes "\<And>x. x \<in> A \<Longrightarrow> 0 \<le> x" "sat_ksum (Suc k) A = sat_ksum k A" "k \<le> n"
  shows "sat_ksum n A = sat_ksum k A"
  using assms(3)
proof (induction n rule: dec_induct)
  case (step n)
  have "sat_ksum (Suc n) A = clamp ` msum (sat_ksum n A) A" using sat_ksum_Suc [OF assms(1)] by simp
  also have "\<dots> = sat_ksum (Suc k) A" unfolding step.IH by (rule sat_ksum_Suc [OF assms(1)])
  finally show ?case using assms(2) by simp
qed simp

text \<open>The shift by the minimum and back.\<close>

lemma msum_shift: "msum ((\<lambda>x. x - a) ` A) ((\<lambda>x. x - b) ` B) = (\<lambda>x. x - (a + b)) ` msum A B"
proof -
  have "msum ((\<lambda>x. x - a) ` A) ((\<lambda>x. x - b) ` B) = {(x - a) + (y - b) |x y. x \<in> A \<and> y \<in> B}"
    unfolding msum_def by blast
  also have "\<dots> = {x + y - (a + b) |x y. x \<in> A \<and> y \<in> B}" by (simp add: algebra_simps)
  also have "\<dots> = (\<lambda>x. x - (a + b)) ` msum A B" unfolding msum_def by blast
  finally show ?thesis .
qed

lemma ksum_shift: "ksum n ((\<lambda>v. v - b) ` A) = (\<lambda>x. x - int n * b) ` ksum n A"
  by (induction n) (simp_all add: msum_shift distrib_right add.commute)

lemma sat_ksum_unshift:
  assumes "0 \<le> b" "\<And>v. v \<in> A \<Longrightarrow> b \<le> v"
  shows "(\<lambda>x. saturatingAddNonNegative (saturatingMultiplyNonNegative (int n) b) x) ` sat_ksum n ((\<lambda>v. v - b) ` A) =
    sat_ksum n A"
proof -
  have nn: "0 \<le> x" if "x \<in> ksum n ((\<lambda>v. v - b) ` A)" for x
    by (rule ksum_nonneg [OF _ that]) (use assms(2) in auto)
  have eq: "saturatingAddNonNegative (saturatingMultiplyNonNegative (int n) b) (clamp x) = clamp (int n * b + x)"
    if "0 \<le> x" for x
  proof -
    have "0 \<le> int n * b" using assms(1) by simp
    then show ?thesis using that assms(1) clamp_add [of "int n * b" x]
      by (simp add: saturatingMultiply_min saturatingAdd_min clamp_def min.commute)
  qed
  have "(\<lambda>x. saturatingAddNonNegative (saturatingMultiplyNonNegative (int n) b) x) ` sat_ksum n ((\<lambda>v. v - b) ` A) =
      (\<lambda>x. clamp (int n * b + x)) ` ksum n ((\<lambda>v. v - b) ` A)"
    unfolding sat_ksum_def image_image by (intro image_cong refl eq nn)
  also have "\<dots> = sat_ksum n A" unfolding sat_ksum_def ksum_shift image_image by simp
  finally show ?thesis .
qed

lemma card_sat_ksum_shift: "finite A \<Longrightarrow> card (sat_ksum n ((\<lambda>v. v - b) ` A)) \<le> card (ksum n A)"
  unfolding sat_ksum_def ksum_shift by (rule order_trans [OF card_image_le card_image_le]) auto

subsection \<open>One round of the repetition\<close>

definition kept :: "nat \<Rightarrow> int set \<Rightarrow> int list \<Rightarrow> bool \<Rightarrow> bool" where
  "kept limit S acc ex \<longleftrightarrow>
     flat_ok acc \<and> acc \<noteq> [] \<and> length acc \<le> limit \<and> set acc \<subseteq> S \<and> (ex \<longrightarrow> set acc = S)"

lemma keptD:
  assumes "kept limit S acc ex"
  shows "flat_ok acc" "acc \<noteq> []" "length acc \<le> limit" "set acc \<subseteq> S" "ex \<Longrightarrow> set acc = S"
  using assms by (auto simp: kept_def)

lemma row_sums:
  assumes "\<And>x. x \<in> A \<Longrightarrow> 0 \<le> x" "\<And>x. x \<in> B \<Longrightarrow> 0 \<le> x"
  shows "(\<Union>a\<in>A. saturatingAddNonNegative a ` B) = clamp ` msum A B"
proof -
  have "saturatingAddNonNegative a ` B = (\<lambda>b. clamp (a + b)) ` B" if "a \<in> A" for a
    using that assms by (intro image_cong) (auto simp: saturatingAdd_min clamp_def min.commute)
  then show ?thesis by (auto simp: msum_def image_def)
qed

lemma round_kept:
  assumes k: "kept limit (sat_ksum k V) acc ex" and V: "V = set vs" "0 \<in> V" "\<And>x. x \<in> V \<Longrightarrow> 0 \<le> x"
    and l: "1 \<le> limit" and w: "window_rows limit acc vs [] = (nxt, ov)"
  shows "kept limit (sat_ksum (Suc k) V) nxt (ex \<and> \<not> ov) \<and> (card (sat_ksum (Suc k) V) \<le> limit \<longrightarrow> \<not> ov)"
proof -
  note K = keptD [OF k]
  let ?U = "clamp ` msum (set acc) V"
  have nn: "0 \<le> x" if "x \<in> set acc" for x using K(4) that sat_ksum_nonneg [OF V(3)] by blast
  have rows: "{} \<union> (\<Union>a\<in>set acc. saturatingAddNonNegative a ` set vs) = ?U"
    using row_sums [of "set acc" V] nn V by simp
  have "win limit ?U (nxt, ov)" using window_rows_win [OF win_empty l, where as = acc and bs = vs] w unfolding rows by simp
  note W = winD [OF this]
  have "?U \<subseteq> clamp ` msum (sat_ksum k V) V" by (intro image_mono msum_mono K(4) order_refl)
  then have sub: "?U \<subseteq> sat_ksum (Suc k) V" by (simp add: sat_ksum_Suc [OF V(3)])
  have ne: "?U \<noteq> {}" using K(2) V(2) msum_nonempty [of "set acc" V] by auto
  have full: "?U = sat_ksum (Suc k) V" if "ex"
    using sat_ksum_Suc [where k = k, OF V(3)] K(5) [OF that] by simp
  have "card ?U \<le> card (sat_ksum (Suc k) V)" using sub V(1) by (intro card_mono) auto
  then show ?thesis using W sub ne full by (auto simp: kept_def)
qed

lemma repeat_loop_kept:
  assumes "repeat_loop limit vs p i acc ex = (acc', ex')" "0 \<le> i" "i \<le> p"
    and k: "kept limit (sat_ksum (nat i) V) acc ex" and V: "V = set vs" "0 \<in> V" "\<And>x. x \<in> V \<Longrightarrow> 0 \<le> x"
    and l: "1 \<le> limit"
  shows "kept limit (sat_ksum (nat p) V) acc' ex' \<and> (ex' \<longrightarrow> ex) \<and>
    ((\<forall>k\<le>nat p. card (sat_ksum k V) \<le> limit) \<longrightarrow> ex' = ex)"
  using assms
proof (induction limit vs p i acc ex arbitrary: acc' ex' rule: repeat_loop.induct)
  case (1 limit vs p i acc ex)
  show ?case
  proof (cases "p \<le> i")
    case True
    then have "repeat_loop limit vs p i acc ex = (acc, ex)" by (simp add: repeat_loop.simps [of limit vs p i])
    then have "acc' = acc" "ex' = ex" "p = i" using "1.prems"(1,3) True by simp_all
    then show ?thesis using "1.prems"(4) by simp
  next
    case False
    obtain nxt ov where w: "window_rows limit acc vs [] = (nxt, ov)" by force
    note R = round_kept [OF "1.prems"(4) "1.prems"(5-7) "1.prems"(8) w]
    have n: "nat (i + 1) = Suc (nat i)" "Suc (nat i) \<le> nat p" using "1.prems"(2) False by auto
    show ?thesis
    proof (cases "nxt = acc")
      case conv: True
      then have r: "acc' = nxt" "ex' = (ex \<and> \<not> ov)"
        using "1.prems"(1) False w by (auto simp: repeat_loop.simps [of limit vs p i] flat_eq_def)
      have sub: "sat_ksum (Suc (nat i)) V \<subseteq> sat_ksum (nat p) V" by (rule sat_ksum_mono [OF "1.prems"(6) n(2)])
      have "sat_ksum (nat p) V = sat_ksum (Suc (nat i)) V" if "ex \<and> \<not> ov"
      proof -
        have eq: "sat_ksum (Suc (nat i)) V = sat_ksum (nat i) V"
          using R "1.prems"(4) that conv by (auto simp: kept_def)
        show ?thesis using sat_ksum_stable [OF "1.prems"(7) eq, of "nat p"] eq n(2) by simp
      qed
      then show ?thesis using R sub n(2) r by (auto simp: kept_def)
    next
      case go: False
      then have r: "repeat_loop limit vs p (i + 1) nxt (ex \<and> \<not> ov) = (acc', ex')"
        using "1.prems"(1) False w by (simp add: repeat_loop.simps [of limit vs p i] flat_eq_def)
      have k: "kept limit (sat_ksum (nat (i + 1)) V) nxt (ex \<and> \<not> ov)" using R n(1) by simp
      have f: "\<not> flat_eq nxt acc" using go by (simp add: flat_eq_def)
      have "kept limit (sat_ksum (nat p) V) acc' ex' \<and> (ex' \<longrightarrow> ex \<and> \<not> ov) \<and>
          ((\<forall>k\<le>nat p. card (sat_ksum k V) \<le> limit) \<longrightarrow> ex' = (ex \<and> \<not> ov))"
        by (rule "1.IH" [OF False w [symmetric] refl refl f r _ _ k "1.prems"(5-8)]) (use "1.prems"(2) False in auto)
      then show ?thesis using R n(2) by auto
    qed
  qed
qed

subsection \<open>The cases of the expansion\<close>

lemma fold_add_image:
  "flat_ok (fold (\<lambda>v. flat_add (f v)) vs []) \<and> set (fold (\<lambda>v. flat_add (f v)) vs []) = f ` set vs"
proof -
  have "fold (\<lambda>v. flat_add (f v)) vs [] = fold flat_add (map f vs) []" by (simp add: fold_map comp_def)
  then show ?thesis using flat.ok_fold_add [of "[]" "map f vs"] flat.elems_fold_add [of "[]" "map f vs"] by simp
qed

lemma kept_image:
  assumes k: "kept limit S acc ex" and T: "f ` S \<subseteq> T" "ex' \<Longrightarrow> ex \<and> f ` S = T"
  shows "kept limit T (fold (\<lambda>x. flat_add (f x)) acc []) ex'"
proof -
  note K = keptD [OF k]
  let ?o = "fold (\<lambda>x. flat_add (f x)) acc []"
  have o: "flat_ok ?o" "set ?o = f ` set acc" using fold_add_image [of f acc] by auto
  have "length ?o \<le> length acc" using flat_ok_length [OF o(1)] o(2) flat_ok_length [OF K(1)] card_image_le [of "set acc" f] by simp
  moreover have "?o \<noteq> []" using o(2) K(2) by auto
  ultimately show ?thesis using o K T by (fastforce simp: kept_def)
qed

text \<open>The operand of a repetition, shifted to contain zero.\<close>

lemma shifted_operand:
  assumes k: "kept limit (clamped a) vs ex" and w: "wf_expr a"
  defines "V \<equiv> (\<lambda>v. v - hd vs) ` set vs"
  shows "0 \<le> hd vs" "\<And>v. v \<in> set vs \<Longrightarrow> hd vs \<le> v" "set (shifted_values (hd vs) vs) = V" "0 \<in> V"
    "\<And>x. x \<in> V \<Longrightarrow> 0 \<le> x"
proof -
  note K = keptD [OF k]
  have h: "hd vs \<in> set vs" using K(2) by simp
  show low: "hd vs \<le> v" if "v \<in> set vs" for v using flat_ok_hd [OF K(1,2)] that by simp
  show "0 \<le> hd vs" using clamped_i64 [OF w] K(4) h by blast
  show "set (shifted_values (hd vs) vs) = V" using fold_add_image [of "\<lambda>v. v - hd vs" vs] by (simp add: shifted_values_def V_def)
  show "0 \<in> V" using h by (force simp: V_def)
  show "0 \<le> x" if "x \<in> V" for x using that low by (auto simp: V_def)
qed

lemma card_ksum_mono:
  assumes "finite A" "A \<noteq> {}" "j \<le> k"
  shows "card (ksum j A) \<le> card (ksum k A)"
  using assms(3)
proof (induction k rule: dec_induct)
  case (step k)
  obtain a where a: "a \<in> A" using assms(2) by blast
  have "(\<lambda>x. x + a) ` ksum k A \<subseteq> ksum (Suc k) A" using a by auto
  then have "card ((\<lambda>x. x + a) ` ksum k A) \<le> card (ksum (Suc k) A)" using assms(1) by (intro card_mono) auto
  then show ?case using step by (simp add: card_image inj_on_def)
qed simp

lemma expand_repeat_kept:
  assumes k: "kept limit (clamped a) (exp_values x) (exact x)" and w: "wf_expr (Repeat a p)" and l: "1 \<le> limit"
  shows "kept limit (clamped (Repeat a p)) (exp_values (expand_repeat limit p x)) (exact (expand_repeat limit p x))"
    and "exact x \<Longrightarrow> greatest a \<le> int64_max \<Longrightarrow> card (lengths (Repeat a p)) \<le> limit \<Longrightarrow>
      exact (expand_repeat limit p x)"
proof -
  let ?vs = "exp_values x" and ?b = "hd (exp_values x)"
  let ?V = "(\<lambda>v. v - ?b) ` set ?vs"
  have wa: "wf_expr a" "0 \<le> p" using w by auto
  note K = keptD [OF k] and O = shifted_operand [OF k wa(1)]
  obtain acc ex where r: "repeat_loop limit (shifted_values ?b ?vs) p 0 [0] (exact x) = (acc, ex)" by force
  have z: "kept limit (sat_ksum (nat 0) ?V) [0] (exact x)" using l by (simp add: kept_def)
  note R = repeat_loop_kept [OF r order_refl wa(2) z O(3) [symmetric] O(4,5) l]
  let ?f = "saturatingAddNonNegative (saturatingMultiplyNonNegative p ?b)"
  have f: "?f ` sat_ksum (nat p) ?V = sat_ksum (nat p) (set ?vs)"
    using sat_ksum_unshift [of ?b "set ?vs" "nat p"] O(1,2) wa(2) by simp
  have c: "clamped (Repeat a p) = sat_ksum (nat p) (clamped a)" using clamped_Repeat [OF w] by (simp add: sat_ksum_def)
  have sub: "sat_ksum (nat p) (set ?vs) \<subseteq> clamped (Repeat a p)"
    unfolding c sat_ksum_def by (intro image_mono ksum_mono K(4))
  have e: "expand_repeat limit p x = (if p \<le> 0 then \<lparr>exp_values = [0], exact = True\<rparr>
      else \<lparr>exp_values = fold (\<lambda>y. flat_add (?f y)) acc [], exact = ex\<rparr>)"
    using r by (simp add: expand_repeat_def)
  show "kept limit (clamped (Repeat a p)) (exp_values (expand_repeat limit p x)) (exact (expand_repeat limit p x))"
  proof (cases "p = 0")
    case True
    then show ?thesis using l unfolding e c by (simp add: kept_def)
  next
    case False
    have i: "?f ` sat_ksum (nat p) ?V \<subseteq> clamped (Repeat a p)" unfolding f by (rule sub)
    have ii: "ex \<and> ?f ` sat_ksum (nat p) ?V = clamped (Repeat a p)" if "ex"
    proof -
      have "set ?vs = clamped a" using R that K(5) by blast
      then show ?thesis using that unfolding f c by simp
    qed
    have "kept limit (clamped (Repeat a p)) (fold (\<lambda>y. flat_add (?f y)) acc []) ex"
      by (rule kept_image [OF conjunct1 [OF R] i ii])
    then show ?thesis using False wa(2) unfolding e by simp
  qed
  assume ex: "exact x" and g: "greatest a \<le> int64_max" and lim: "card (lengths (Repeat a p)) \<le> limit"
  have eq: "set ?vs = lengths a" using K(5) [OF ex] unsaturated_lengths [of a] g by simp
  have "card (sat_ksum k ?V) \<le> limit" if "k \<le> nat p" for k
    using card_sat_ksum_shift [of "set ?vs" k ?b] card_ksum_mono [of "lengths a" k "nat p"] that lim
      lengths_nonempty [OF wa(1)] unfolding eq by simp
  then have "ex" using R ex by blast
  then show "exact (expand_repeat limit p x)" by (simp add: e)
qed

subsection \<open>The repeat range\<close>

definition sat_upto :: "nat \<Rightarrow> int set \<Rightarrow> int set" where
  "sat_upto n A = clamp ` ksum_upto n A"

lemma sat_upto_0 [simp]: "sat_upto 0 A = {0}"
  by (simp add: sat_upto_def clamp_def)

lemma sat_upto_Suc: "sat_upto (Suc n) A = sat_upto n A \<union> sat_ksum (Suc n) A"
  by (simp add: sat_upto_def sat_ksum_def ksum_upto_Suc image_Un)

lemma sat_upto_mono: "j \<le> k \<Longrightarrow> sat_upto j A \<subseteq> sat_upto k A"
  unfolding sat_upto_def ksum_upto_def by (intro image_mono UN_mono) auto

lemma finite_sat_upto [simp]: "finite A \<Longrightarrow> finite (sat_upto n A)"
  by (simp add: sat_upto_def)

lemma sat_ksum_upto: "k \<le> n \<Longrightarrow> sat_ksum k A \<subseteq> sat_upto n A"
  by (auto simp: sat_upto_def sat_ksum_def ksum_upto_def)

lemma sat_upto_stable:
  assumes "\<And>x. x \<in> A \<Longrightarrow> 0 \<le> x" "sat_ksum (Suc k) A = sat_ksum k A" "k \<le> n"
  shows "sat_upto n A = sat_upto k A"
  using assms(3)
proof (induction n rule: dec_induct)
  case (step n)
  have "sat_ksum (Suc n) A = sat_ksum k A"
    using sat_ksum_stable [OF assms(1,2), of "Suc n"] step.hyps by simp
  then have "sat_ksum (Suc n) A \<subseteq> sat_upto k A" using sat_ksum_upto [of k k A] by simp
  then show ?case using step.IH sat_upto_Suc [of n A] by blast
qed simp

text \<open>A term that starts past the full window is a member that the window lacks.\<close>

lemma past_window:
  assumes "flat_ok out" "limit \<le> length out" "1 \<le> limit" "last out < s" "set out \<subseteq> S" "s \<in> S" "finite S"
  shows "limit < card S"
proof -
  have ne: "out \<noteq> []" using assms by auto
  then have "s \<notin> set out" using flat_ok_last [OF assms(1)] assms(4) Max_ge [of "set out" s] by fastforce
  then have "card (insert s (set out)) = Suc (length out)" using flat_ok_length [OF assms(1)] by simp
  moreover have "card (insert s (set out)) \<le> card S" using assms by (intro card_mono) auto
  ultimately show ?thesis using assms(2) by simp
qed

text \<open>One term of the union.\<close>

lemma range_round:
  assumes o: "kept limit (sat_upto n A) out ex" and a: "kept limit (sat_ksum n V) acc ex"
    and V: "V = set vs" "V = (\<lambda>v. v - base) ` A" "0 \<le> base" "\<And>v. v \<in> A \<Longrightarrow> base \<le> v" "base \<in> A" "finite A"
    and l: "1 \<le> limit" and w: "window_rows limit acc vs [] = (nxt, ov)"
    and t: "add_term limit (saturatingMultiplyNonNegative (int (Suc n)) base) nxt (out, ov) = (out', ov')"
  shows "kept limit (sat_upto (Suc n) A) out' (ex \<and> \<not> ov') \<and> kept limit (sat_ksum (Suc n) V) nxt (ex \<and> \<not> ov')
     \<and> (card (sat_ksum (Suc n) V) \<le> limit \<longrightarrow> card (sat_upto (Suc n) A) \<le> limit \<longrightarrow> \<not> ov')"
proof -
  let ?f = "saturatingAddNonNegative (saturatingMultiplyNonNegative (int (Suc n)) base)"
  have nn: "0 \<le> x" if "x \<in> V" for x using that V(2,4) by auto
  have z: "0 \<in> V" using V(2,5) by force
  note R = round_kept [OF a V(1) z nn l w] and O = keptD [OF o]
  obtain ov2 where t2: "add_term limit (saturatingMultiplyNonNegative (int (Suc n)) base) nxt (out, False) = (out', ov2)"
    and ov': "ov' = (ov2 \<or> ov)"
    using t add_term_flag [of limit "saturatingMultiplyNonNegative (int (Suc n)) base" nxt out ov] by (metis fst_conv snd_conv surj_pair)
  have "win limit (set out) (out, False)" using O by (simp add: win_def)
  from add_term_win [OF this l, of "saturatingMultiplyNonNegative (int (Suc n)) base" nxt]
  have W: "win limit (set out \<union> ?f ` set nxt) (out', ov2)" unfolding t2 .
  note W = winD [OF this]
  have f: "?f ` sat_ksum (Suc n) V = sat_ksum (Suc n) A"
    using sat_ksum_unshift [of base A "Suc n"] V by simp
  have N: "set nxt \<subseteq> sat_ksum (Suc n) V" "ex \<and> \<not> ov \<Longrightarrow> set nxt = sat_ksum (Suc n) V"
    using R by (auto simp: kept_def)
  have "?f ` set nxt \<subseteq> sat_ksum (Suc n) A" using image_mono [OF N(1), of ?f] f by simp
  then have sub: "set out \<union> ?f ` set nxt \<subseteq> sat_upto (Suc n) A" using O(4) sat_upto_Suc [of n A] by blast
  have full: "set out \<union> ?f ` set nxt = sat_upto (Suc n) A" if "ex \<and> \<not> ov'"
    using that N(2) O(5) f ov' by (simp add: sat_upto_Suc)
  have "card (set out \<union> ?f ` set nxt) \<le> card (sat_upto (Suc n) A)" using sub V(6) by (intro card_mono) auto
  then have small: "\<not> ov2" if "card (sat_upto (Suc n) A) \<le> limit" using W(6) that by fastforce
  have ne: "out' \<noteq> []" using W(5) O(2) by auto
  have "set out' \<subseteq> sat_upto (Suc n) A" by (rule order_trans [OF W(4) sub])
  moreover have "set out' = sat_upto (Suc n) A" if "ex \<and> \<not> ov'" using full [OF that] W(7) that ov' by simp
  ultimately have "kept limit (sat_upto (Suc n) A) out' (ex \<and> \<not> ov')" using W(2,3) ne unfolding kept_def by blast
  moreover have "kept limit (sat_ksum (Suc n) V) nxt (ex \<and> \<not> ov')" using R ov' unfolding kept_def by blast
  ultimately show ?thesis using R small ov' by blast
qed

lemma range_loop_kept:
  assumes "range_loop limit base vs m i out acc ex = (out', ex')" "1 \<le> i" "i \<le> m + 1"
    and "kept limit (sat_upto (nat (i - 1)) A) out ex" "kept limit (sat_ksum (nat (i - 1)) V) acc ex"
    and "V = set vs" "V = (\<lambda>v. v - base) ` A" "0 \<le> base" "\<And>v. v \<in> A \<Longrightarrow> base \<le> v" "base \<in> A" "finite A"
    and "1 \<le> limit"
  shows "kept limit (sat_upto (nat m) A) out' ex' \<and> (ex' \<longrightarrow> ex) \<and>
    ((\<forall>k\<le>nat m. card (sat_ksum k V) \<le> limit) \<longrightarrow> card (sat_upto (nat m) A) \<le> limit \<longrightarrow> ex' = ex)"
  using assms
proof (induction limit base vs m i out acc ex arbitrary: out' ex' rule: range_loop.induct)
  case (1 limit base vs m i out acc ex)
  note P = "1.prems"
  let ?shift = "saturatingMultiplyNonNegative i base"
  show ?case
  proof (cases "m < i")
    case True
    then have "range_loop limit base vs m i out acc ex = (out, ex)" by (simp add: range_loop.simps [of limit base vs m i])
    moreover have "i - 1 = m" using True P(3) by simp
    ultimately show ?thesis using P(1,4) by simp
  next
    case go: False
    then have n: "nat i = Suc (nat (i - 1))" "nat i \<le> nat m" "int (Suc (nat (i - 1))) = i" "nat (i + 1 - 1) = nat i" using P(2) by auto
    show ?thesis
    proof (cases "0 < base \<and> limit \<le> length out \<and> last out < ?shift")
      case True
      then have "range_loop limit base vs m i out acc ex = (out, False)"
        using go by (simp add: range_loop.simps [of limit base vs m i])
      then have r: "out' = out" "\<not> ex'" using P(1) by simp_all
      have sub: "sat_upto (nat (i - 1)) A \<subseteq> sat_upto (nat m) A" using n(1,2) by (intro sat_upto_mono) simp
      have "int (nat i) * base \<in> ksum (nat i) A" by (rule ksum_extreme [OF P(10)])
      then have "?shift \<in> sat_ksum (nat i) A"
        using P(2,8) by (auto simp: sat_ksum_def saturatingMultiply_min clamp_def min.commute intro!: image_eqI [where x = "i * base"])
      then have s: "?shift \<in> sat_upto (nat m) A" using sat_ksum_upto [OF n(2), of A] by blast
      note O = keptD [OF P(4)]
      have "limit < card (sat_upto (nat m) A)"
        by (rule past_window [OF O(1) _ P(12) _ _ s]) (use True O(4) sub P(11) in auto)
      then show ?thesis using P(4) sub r by (auto simp: kept_def)
    next
      case nx: False
      obtain nxt ov where w: "window_rows limit acc vs [] = (nxt, ov)" by force
      obtain o2 ov2 where t: "add_term limit ?shift nxt (out, ov) = (o2, ov2)" by force
      have t': "add_term limit (saturatingMultiplyNonNegative (int (Suc (nat (i - 1)))) base) nxt (out, ov) = (o2, ov2)"
        using t n(3) by simp
      note R = range_round [OF P(4,5,6-11) P(12) w t', folded n(1)]
      have step: "range_loop limit base vs m i out acc ex =
          (if base = 0 \<and> nxt = acc then (o2, ex \<and> \<not> ov2) else range_loop limit base vs m (i + 1) o2 nxt (ex \<and> \<not> ov2))"
        using go nx w t by (simp add: range_loop.simps [of limit base vs m i] flat_eq_def Let_def split del: if_split) (auto simp: Let_def flat_eq_def)
      show ?thesis
      proof (cases "base = 0 \<and> nxt = acc")
        case conv: True
        then have r: "out' = o2" "ex' = (ex \<and> \<not> ov2)" using P(1) step by simp_all
        have VA: "V = A" using P(7) conv by simp
        have nn: "0 \<le> x" if "x \<in> A" for x using P(9) [OF that] conv by simp
        have "sat_upto (nat m) A = sat_upto (nat i) A" if "ex \<and> \<not> ov2"
        proof -
          have eq: "sat_ksum (nat i) A = sat_ksum (nat (i - 1)) A"
            using R P(5) that conv VA by (auto simp: kept_def)
          then have "sat_upto (nat m) A = sat_upto (nat (i - 1)) A" "sat_upto (nat i) A = sat_upto (nat (i - 1)) A"
            using n by (intro sat_upto_stable nn; simp)+
          then show ?thesis by simp
        qed
        moreover have "sat_upto (nat i) A \<subseteq> sat_upto (nat m) A" by (rule sat_upto_mono [OF n(2)])
        moreover have "card (sat_upto (nat i) A) \<le> card (sat_upto (nat m) A)"
          using sat_upto_mono [OF n(2)] P(11) by (intro card_mono) auto
        ultimately show ?thesis using R n(2) r by (auto simp: kept_def)
      next
        case more: False
        have r: "range_loop limit base vs m (i + 1) o2 nxt (ex \<and> \<not> ov2) = (out', ex')" using P(1) unfolding step if_not_P [OF more] .
        have "kept limit (sat_upto (nat m) A) out' ex' \<and> (ex' \<longrightarrow> ex \<and> \<not> ov2) \<and>
          ((\<forall>k\<le>nat m. card (sat_ksum k V) \<le> limit) \<longrightarrow> card (sat_upto (nat m) A) \<le> limit \<longrightarrow> ex' = (ex \<and> \<not> ov2))"
          by (rule "1.IH" [OF go refl _ w [symmetric] refl t [symmetric] refl refl _ r _ _ _ _ P(6-12)])
            (use nx more R n P(2) go in \<open>auto simp: flat_eq_def\<close>)
        moreover have "card (sat_upto (nat i) A) \<le> card (sat_upto (nat m) A)"
          using sat_upto_mono [OF n(2)] P(11) by (intro card_mono) auto
        ultimately show ?thesis using R n(2) by auto
      qed
    qed
  qed
qed

lemma expand_range_kept:
  assumes k: "kept limit (clamped a) (exp_values x) (exact x)" and w: "wf_expr (RepeatRange a p)" and l: "1 \<le> limit"
  shows "kept limit (clamped (RepeatRange a p)) (exp_values (expand_range limit p x)) (exact (expand_range limit p x))"
    and "exact x \<Longrightarrow> greatest a \<le> int64_max \<Longrightarrow> card (lengths (RepeatRange a p)) \<le> limit \<Longrightarrow>
      exact (expand_range limit p x)"
proof -
  let ?vs = "exp_values x" and ?b = "hd (exp_values x)"
  let ?V = "(\<lambda>v. v - ?b) ` set ?vs"
  have wa: "wf_expr a" "0 \<le> p" using w by auto
  note K = keptD [OF k] and O = shifted_operand [OF k wa(1)]
  have b: "?b \<in> set ?vs" using K(2) by simp
  obtain out ex where r: "range_loop limit ?b (shifted_values ?b ?vs) p 1 [0] [0] (exact x) = (out, ex)" by force
  have z: "kept limit (sat_upto (nat (1 - 1)) (set ?vs)) [0] (exact x)" "kept limit (sat_ksum (nat (1 - 1)) ?V) [0] (exact x)"
    using l by (simp_all add: kept_def)
  have one: "1 \<le> p + 1" using wa(2) by simp
  note R = range_loop_kept [OF r order_refl one z O(3) [symmetric] refl O(1,2) b finite_set l]
  have c: "clamped (RepeatRange a p) = sat_upto (nat p) (clamped a)"
    using clamped_RepeatRange [OF w] by (simp add: sat_upto_def)
  have sub: "sat_upto (nat p) (set ?vs) \<subseteq> clamped (RepeatRange a p)"
    unfolding c sat_upto_def ksum_upto_def by (intro image_mono UN_mono ksum_mono K(4) order_refl)
  have e: "expand_range limit p x = (if p = 0 then \<lparr>exp_values = [0], exact = True\<rparr> else \<lparr>exp_values = out, exact = ex\<rparr>)"
    using r wa(2) by (simp add: expand_range_def Let_def max_def)
  show "kept limit (clamped (RepeatRange a p)) (exp_values (expand_range limit p x)) (exact (expand_range limit p x))"
  proof (cases "p = 0")
    case True
    then show ?thesis using l unfolding e c by (simp add: kept_def)
  next
    case False
    have "set out = clamped (RepeatRange a p)" if ex
      using R K(5) that unfolding c by (auto simp: kept_def)
    then show ?thesis using False R sub unfolding e by (auto simp: kept_def)
  qed
  assume ex: "exact x" and g: "greatest a \<le> int64_max" and lim: "card (lengths (RepeatRange a p)) \<le> limit"
  have eq: "set ?vs = lengths a" using K(5) [OF ex] unsaturated_lengths [of a] g by simp
  have u: "card (sat_upto (nat p) (set ?vs)) \<le> limit"
    using card_image_le [of "ksum_upto (nat p) (lengths a)" clamp] lim unfolding eq sat_upto_def by simp
  have "card (sat_ksum k ?V) \<le> limit" if "k \<le> nat p" for k
  proof -
    have "card (ksum k (lengths a)) \<le> card (ksum_upto (nat p) (lengths a))"
      using that by (intro card_mono) (auto simp: ksum_upto_def)
    then show ?thesis using card_sat_ksum_shift [of "set ?vs" k ?b] lim unfolding eq by simp
  qed
  then have "ex" using R ex u by blast
  then show "exact (expand_range limit p x)" by (simp add: e)
qed

subsection \<open>Leaf, sum, union and padding\<close>

lemma card_clamped: "card (clamped e) \<le> card (lengths e)"
  by (simp add: clamped_def card_image_le)

lemma expand_leaf_kept:
  assumes w: "wf_expr (Leaf vs)" and l: "1 \<le> limit"
  shows "kept limit (clamped (Leaf vs)) (exp_values (expand_leaf limit vs)) (exact (expand_leaf limit vs))"
proof -
  have "clamped (Leaf vs) = set vs" using w by (auto simp: clamped_def clamp_def i64_def)
  then show ?thesis using w l
    by (auto simp: expand_leaf_def kept_def sorted_wrt_take dest: in_set_takeD)
qed

lemma window_kept:
  assumes "win limit U (out, ov)" "U \<noteq> {}" "U \<subseteq> S" "finite S" "ex \<Longrightarrow> U = S"
  shows "kept limit S out (ex \<and> \<not> ov)" "ex \<Longrightarrow> card S \<le> limit \<Longrightarrow> \<not> ov"
  using winD [OF assms(1)] assms(2-) by (auto simp: kept_def)

lemma clamped_nn: "wf_expr e \<Longrightarrow> set xs \<subseteq> clamped e \<Longrightarrow> x \<in> set xs \<Longrightarrow> 0 \<le> x"
  using clamped_i64 by blast

lemma expand_add_kept:
  assumes x: "kept limit (clamped a) (exp_values x) (exact x)" and y: "kept limit (clamped b) (exp_values y) (exact y)"
    and w: "wf_expr (Add a b)" and l: "1 \<le> limit"
  shows "kept limit (clamped (Add a b)) (exp_values (expand_add limit x y)) (exact (expand_add limit x y))"
    and "exact x \<Longrightarrow> exact y \<Longrightarrow> card (lengths (Add a b)) \<le> limit \<Longrightarrow> exact (expand_add limit x y)"
proof -
  let ?U = "clamp ` msum (set (exp_values x)) (set (exp_values y))"
  obtain out ov where r: "add_rows limit (hd (exp_values y)) (exp_values y) (exp_values x) ([], False) = (out, ov)" by force
  note X = keptD [OF x] and Y = keptD [OF y]
  have nx: "0 \<le> v" if "v \<in> set (exp_values x)" for v using clamped_nn [OF _ X(4) that] w by simp
  have ny: "0 \<le> v" if "v \<in> set (exp_values y)" for v using clamped_nn [OF _ Y(4) that] w by simp
  have rows: "{} \<union> (\<Union>lv\<in>set (exp_values x). saturatingAddNonNegative lv ` set (exp_values y)) = ?U"
    using row_sums [OF nx ny] by simp
  have W: "win limit ?U (out, ov)"
    using add_rows_win [OF win_empty l Y(2) refl, of "exp_values x"] unfolding rows r .
  have ne: "?U \<noteq> {}" using X(2) Y(2) by (simp add: msum_nonempty)
  have sub: "?U \<subseteq> clamped (Add a b)" unfolding clamped_Add [OF w] by (intro image_mono msum_mono X(4) Y(4))
  have full: "?U = clamped (Add a b)" if "exact x \<and> exact y"
    using X(5) Y(5) that clamped_Add [OF w] by simp
  note F = window_kept [OF W ne sub finite_clamped full]
  have e: "expand_add limit x y = \<lparr>exp_values = out, exact = (exact x \<and> exact y \<and> \<not> ov)\<rparr>"
    using r by (simp add: expand_add_def)
  show "kept limit (clamped (Add a b)) (exp_values (expand_add limit x y)) (exact (expand_add limit x y))"
    using F(1) [of "exact x \<and> exact y"] unfolding e by simp
  show "exact x \<Longrightarrow> exact y \<Longrightarrow> card (lengths (Add a b)) \<le> limit \<Longrightarrow> exact (expand_add limit x y)"
    using F(2) card_clamped [of "Add a b"] unfolding e by (simp del: lengths.simps)
qed

lemma expand_union_kept:
  assumes x: "kept limit (clamped a) (exp_values x) (exact x)" and y: "kept limit (clamped b) (exp_values y) (exact y)"
    and w: "wf_expr (Unite a b)" and l: "1 \<le> limit"
  shows "kept limit (clamped (Unite a b)) (exp_values (expand_union limit x y)) (exact (expand_union limit x y))"
    and "exact x \<Longrightarrow> exact y \<Longrightarrow> card (lengths (Unite a b)) \<le> limit \<Longrightarrow> exact (expand_union limit x y)"
proof -
  let ?m = "flat_insert_range (exp_values x) (exp_values y)"
  let ?U = "set (exp_values x) \<union> set (exp_values y)"
  obtain out ov where r: "trim_last limit ?m False = (out, ov)" by force
  note X = keptD [OF x] and Y = keptD [OF y]
  have m: "set ?m = ?U" "?m \<noteq> []"
  proof -
    show "set ?m = ?U" by simp
    then show "?m \<noteq> []" using X(2) by (metis Un_empty set_empty)
  qed
  have W: "win limit ?U (out, ov)" unfolding r [symmetric]
    by (rule trim_last_win [OF flat_insert_range_ok [OF X(1)] m(2) _ _ l]) (use m(1) in auto)
  have ne: "?U \<noteq> {}" using X(2) by simp
  have sub: "?U \<subseteq> clamped (Unite a b)" unfolding clamped_Unite by (intro Un_mono X(4) Y(4))
  have full: "?U = clamped (Unite a b)" if "exact x \<and> exact y"
    using X(5) Y(5) that by (simp add: clamped_Unite)
  note F = window_kept [OF W ne sub finite_clamped full]
  have e: "expand_union limit x y = \<lparr>exp_values = out, exact = (exact x \<and> exact y \<and> \<not> ov)\<rparr>"
    using r by (simp add: expand_union_def)
  show "kept limit (clamped (Unite a b)) (exp_values (expand_union limit x y)) (exact (expand_union limit x y))"
    using F(1) [of "exact x \<and> exact y"] unfolding e by simp
  show "exact x \<Longrightarrow> exact y \<Longrightarrow> card (lengths (Unite a b)) \<le> limit \<Longrightarrow> exact (expand_union limit x y)"
    using F(2) card_clamped [of "Unite a b"] unfolding e by (simp del: lengths.simps)
qed

lemma expand_pad_kept:
  assumes x: "kept limit (clamped a) (exp_values x) (exact x)" and w: "wf_expr (Pad a p)"
  shows "kept limit (clamped (Pad a p)) (exp_values (expand_pad p x)) (exact (expand_pad p x))"
proof -
  note X = keptD [OF x]
  have p: "max 1 p = p" "0 < p" "wf_expr a" using w by auto
  have f: "saturatingRoundUpToMultipleNonNegative v p = clamp (round_up v p)" if v: "v \<in> clamped a" for v
  proof -
    have "0 \<le> v" "v \<le> int64_max" using clamped_i64 [OF p(3) v] by (auto simp: i64_def)
    then show ?thesis using roundUp_eq [of v p] p(2) by (auto simp: clamp_def min.commute round_up_eq_if)
  qed
  have "(\<lambda>v. saturatingRoundUpToMultipleNonNegative v p) ` clamped a = clamped (Pad a p)"
    unfolding clamped_Pad [OF w] by (intro image_cong refl f)
  then show ?thesis
    using kept_image [OF x, of "\<lambda>v. saturatingRoundUpToMultipleNonNegative v p" "clamped (Pad a p)" "exact x"] p(1)
    by (simp add: expand_pad_def Let_def)
qed

subsection \<open>The memoised expansion\<close>

text \<open>
  Every intermediate set is within the limit, and the operands of the repetitions do not saturate
  (the shift by the minimum would separate values that saturation merges).
\<close>

fun fits :: "nat \<Rightarrow> bl_expr \<Rightarrow> bool" where
  "fits l (Leaf vs) \<longleftrightarrow> length vs \<le> l"
| "fits l (Add a b) \<longleftrightarrow> fits l a \<and> fits l b \<and> card (lengths (Add a b)) \<le> l"
| "fits l (Unite a b) \<longleftrightarrow> fits l a \<and> fits l b \<and> card (lengths (Unite a b)) \<le> l"
| "fits l (Pad a k) \<longleftrightarrow> fits l a"
| "fits l (Repeat a k) \<longleftrightarrow> fits l a \<and> greatest a \<le> int64_max \<and> card (lengths (Repeat a k)) \<le> l"
| "fits l (RepeatRange a k) \<longleftrightarrow> fits l a \<and> greatest a \<le> int64_max \<and> card (lengths (RepeatRange a k)) \<le> l"

definition expand_good :: "nat \<Rightarrow> bl_expr \<Rightarrow> expansion \<Rightarrow> bool" where
  "expand_good limit e x \<longleftrightarrow> kept limit (clamped e) (exp_values x) (exact x) \<and> (fits limit e \<longrightarrow> exact x)"

interpretation expand_eval: memo_contract "expand_step (max 1 limit)" "expand_good (max 1 limit)" for limit
proof unfold_locales
  have l: "1 \<le> max 1 limit" by simp
  fix n :: node and m a b x y
  show "kind n = KLeaf \<Longrightarrow> wf_expr (Leaf (vals n)) \<Longrightarrow>
      \<exists>v. expand_step (max 1 limit) n m = Some v \<and> expand_good (max 1 limit) (Leaf (vals n)) v"
    using expand_leaf_kept [OF _ l, of "vals n"]
    by (auto simp: expand_step_def expand_good_def expand_leaf_def)
  show "kind n = KAdd \<Longrightarrow> wf_expr (Add a b) \<Longrightarrow> memo_at m (lhs n) = Some x \<Longrightarrow> memo_at m (rhs n) = Some y \<Longrightarrow>
      expand_good (max 1 limit) a x \<Longrightarrow> expand_good (max 1 limit) b y \<Longrightarrow>
      \<exists>v. expand_step (max 1 limit) n m = Some v \<and> expand_good (max 1 limit) (Add a b) v"
    using expand_add_kept [OF _ _ _ l, of a x b y]
    by (auto simp: expand_step_def expand_good_def simp del: lengths.simps wf_expr.simps)
  show "kind n = KUnion \<Longrightarrow> wf_expr (Unite a b) \<Longrightarrow> memo_at m (lhs n) = Some x \<Longrightarrow> memo_at m (rhs n) = Some y \<Longrightarrow>
      expand_good (max 1 limit) a x \<Longrightarrow> expand_good (max 1 limit) b y \<Longrightarrow>
      \<exists>v. expand_step (max 1 limit) n m = Some v \<and> expand_good (max 1 limit) (Unite a b) v"
    using expand_union_kept [OF _ _ _ l, of a x b y]
    by (auto simp: expand_step_def expand_good_def simp del: lengths.simps wf_expr.simps)
  show "kind n = KPad \<Longrightarrow> wf_expr (Pad a (param n)) \<Longrightarrow> memo_at m (lhs n) = Some x \<Longrightarrow>
      expand_good (max 1 limit) a x \<Longrightarrow>
      \<exists>v. expand_step (max 1 limit) n m = Some v \<and> expand_good (max 1 limit) (Pad a (param n)) v"
    using expand_pad_kept [of "max 1 limit" a x "param n"]
    by (auto simp: expand_step_def expand_good_def expand_pad_def Let_def simp del: lengths.simps wf_expr.simps)
  show "kind n = KRepeat \<Longrightarrow> wf_expr (Repeat a (param n)) \<Longrightarrow> memo_at m (lhs n) = Some x \<Longrightarrow>
      expand_good (max 1 limit) a x \<Longrightarrow>
      \<exists>v. expand_step (max 1 limit) n m = Some v \<and> expand_good (max 1 limit) (Repeat a (param n)) v"
    using expand_repeat_kept [OF _ _ l, of a x "param n"]
    by (auto simp: expand_step_def expand_good_def expand_repeat_def simp del: lengths.simps wf_expr.simps split: if_splits)
  show "kind n = KRepeatRange \<Longrightarrow> wf_expr (RepeatRange a (param n)) \<Longrightarrow> memo_at m (lhs n) = Some x \<Longrightarrow>
      expand_good (max 1 limit) a x \<Longrightarrow>
      \<exists>v. expand_step (max 1 limit) n m = Some v \<and> expand_good (max 1 limit) (RepeatRange a (param n)) v"
    using expand_range_kept [OF _ _ l, of a x "param n"]
    by (auto simp: expand_step_def expand_good_def expand_range_def Let_def simp del: lengths.simps wf_expr.simps split: if_splits)
qed

lemma node_expandChecked_good:
  "heap_ok h \<Longrightarrow> denotes h p e \<Longrightarrow> \<exists>x. node_expandChecked h p limit = Some x \<and> expand_good (max 1 limit) e x"
  unfolding node_expandChecked_def by (rule expand_eval.evaluate_good)

end
