(* ===== verification/ResidueSet.thy ===== *)
theory ResidueSet
  imports SpanBitmap
begin

text \<open>
  The dense residue mask \<^verbatim>\<open>ResidueSet\<close> of \<^verbatim>\<open>lib/Semantics/BitLengthSet.cpp\<close> and the modular sums
  over it: Minkowski sum, exactly-\<open>k\<close> sums with cycle detection and the union of all sums up to
  \<open>k\<close>. The first 64 residues are the word \<open>low\<close>, the others are packed in \<open>high\<close>.
\<close>

unbundle bit_operations_syntax

definition kResidueModulusCap :: int where "kResidueModulusCap = 65536"

datatype residue_set = ResidueSet (modulus: int) (low: "64 word") (high: "64 word list")

definition new_residue_set :: "int \<Rightarrow> residue_set" where
  "new_residue_set m =
     (let words = nat ((m + 63) sdiv 64)
      in ResidueSet m 0 (if 1 < words then replicate (words - 1) 0 else []))"

definition wordCount :: "residue_set \<Rightarrow> nat" where
  "wordCount s = 1 + length (high s)"

definition residue_word :: "residue_set \<Rightarrow> nat \<Rightarrow> 64 word" where
  "residue_word s i = (if i = 0 then low s else high s ! (i - 1))"

definition add_residue :: "int \<Rightarrow> residue_set \<Rightarrow> residue_set" where
  "add_residue residue s =
     (let wi = nat residue div 64;
          b = push_bit (nat residue mod 64) (1 :: 64 word)
      in if wi = 0 then ResidueSet (modulus s) (low s OR b) (high s)
         else ResidueSet (modulus s) (low s) ((high s)[wi - 1 := high s ! (wi - 1) OR b]))"

definition unionWith :: "residue_set \<Rightarrow> residue_set \<Rightarrow> residue_set" where
  "unionWith s other =
     ResidueSet (modulus s) (low s OR low other)
       (map (\<lambda>i. high s ! i OR high other ! i) [0..<length (high s)])"

text \<open>\<open>forEach\<close> visits the residues in this order.\<close>

definition residue_list :: "residue_set \<Rightarrow> int list" where
  "residue_list s =
     concat (map (\<lambda>wi. map (\<lambda>b. int (wi * 64 + b)) (set_bits_of (residue_word s wi))) [0..<wordCount s])"

definition residueSetToFlatSet :: "residue_set \<Rightarrow> int list" where
  "residueSetToFlatSet s = fold flat_add (residue_list s) []"

definition zeroResidue :: "int \<Rightarrow> residue_set" where
  "zeroResidue m = add_residue 0 (new_residue_set m)"

definition minkowskiSumMod :: "residue_set \<Rightarrow> residue_set \<Rightarrow> residue_set" where
  "minkowskiSumMod a b =
     fold (\<lambda>x. fold (\<lambda>y.
         let s = x + y in add_residue (if modulus a \<le> s then s - modulus a else s)) (residue_list b))
       (residue_list a) (new_residue_set (modulus a))"

text \<open>Equality and order look at the words only, as every key has the same modulus.\<close>

definition residue_key :: "residue_set \<Rightarrow> 64 word \<times> 64 word list" where
  "residue_key s = (low s, high s)"

fun words_less :: "64 word list \<Rightarrow> 64 word list \<Rightarrow> bool" where
  "words_less [] [] = False"
| "words_less [] (w # ws) = True"
| "words_less (v # vs) [] = False"
| "words_less (v # vs) (w # ws) \<longleftrightarrow> v < w \<or> \<not> w < v \<and> words_less vs ws"

instantiation residue_set :: preorder
begin

definition less_residue_set :: "residue_set \<Rightarrow> residue_set \<Rightarrow> bool" where
  "less_residue_set s t \<longleftrightarrow> (if low s \<noteq> low t then low s < low t else words_less (high s) (high t))"

definition less_eq_residue_set :: "residue_set \<Rightarrow> residue_set \<Rightarrow> bool" where
  "less_eq_residue_set s t \<longleftrightarrow> s < t \<or> residue_key s = residue_key t"

lemma words_less_irrefl: "\<not> words_less v v"
  by (induction v) auto

lemma words_less_trans: "words_less u v \<Longrightarrow> words_less v w \<Longrightarrow> words_less u w"
proof (induction u v arbitrary: w rule: words_less.induct)
  case (2 x xs)
  then show ?case by (cases w) auto
next
  case (4 x xs y ys)
  have eq: "words_less (a # as) (b # bs) \<longleftrightarrow> a < b \<or> a = b \<and> words_less as bs" for a b as bs
    by auto
  obtain z zs where w: "w = z # zs" using "4.prems"(2) by (cases w) auto
  have 1: "x < y \<or> x = y \<and> words_less xs ys" using "4.prems"(1) unfolding eq .
  have 2: "y < z \<or> y = z \<and> words_less ys zs" using "4.prems"(2) unfolding w eq .
  show ?case unfolding w eq
  proof (cases "x = y \<and> y = z")
    case True
    then show "x < z \<or> x = z \<and> words_less xs zs" using 1 2 "4.IH" by auto
  next
    case False
    then have "x < z" using 1 2 order.strict_trans [of x y z] by blast
    then show "x < z \<or> x = z \<and> words_less xs zs" ..
  qed
qed auto

lemma words_less_asym: "words_less u v \<Longrightarrow> \<not> words_less v u"
  using words_less_irrefl words_less_trans by blast

lemma words_less_le: "words_less u v \<longleftrightarrow> (words_less u v \<or> u = v) \<and> \<not> (words_less v u \<or> v = u)"
  using words_less_irrefl [of u] words_less_asym [of u v] by blast

lemma words_le_trans:
  "words_less u v \<or> u = v \<Longrightarrow> words_less v w \<or> v = w \<Longrightarrow> words_less u w \<or> u = w"
  using words_less_trans [of u v w] by blast

lemma less_residue_words: "s < t \<longleftrightarrow> words_less (low s # high s) (low t # high (t :: residue_set))"
  by (auto simp: less_residue_set_def)

lemma residue_key_words: "residue_key s = residue_key t \<longleftrightarrow> low s # high s = low t # high t"
  by (simp add: residue_key_def)

instance
proof
  fix s t u :: residue_set
  show "s < t \<longleftrightarrow> s \<le> t \<and> \<not> t \<le> s"
    unfolding less_eq_residue_set_def less_residue_words residue_key_words by (rule words_less_le)
  show "s \<le> s" by (simp add: less_eq_residue_set_def)
  show "s \<le> t \<Longrightarrow> t \<le> u \<Longrightarrow> s \<le> u"
    unfolding less_eq_residue_set_def less_residue_words residue_key_words by (rule words_le_trans)
qed

end

lemma words_less_connex: "u = v \<or> words_less u v \<or> words_less v u"
  by (induction u v rule: words_less.induct) auto

lemma words_less_key: "\<not> words_less u v \<and> \<not> words_less v u \<longleftrightarrow> u = v"
  using words_less_connex [of u v] words_less_irrefl [of u] by blast

text \<open>The order identifies exactly the masks that \<^verbatim>\<open>operator==\<close> equates, as a map key must.\<close>

lemma residue_order_key: "\<not> s < t \<and> \<not> t < s \<longleftrightarrow> residue_key s = residue_key (t :: residue_set)"
  unfolding less_residue_words residue_key_words by (rule words_less_key)

subsection \<open>Repeated sums modulo\<close>

function exactly_loop ::
  "residue_set \<Rightarrow> int \<Rightarrow> int \<Rightarrow> residue_set \<Rightarrow> residue_set list \<Rightarrow>
   (64 word \<times> 64 word list \<rightharpoonup> int) \<Rightarrow> residue_set" where
  "exactly_loop r cnt i cur sq seen =
     (if cnt < i then cur
      else let cur' = minkowskiSumMod cur r
           in case seen (residue_key cur') of
                Some j \<Rightarrow>
                  let period = i - j; idx = j + (cnt - j) smod period in sq ! nat idx
              | None \<Rightarrow>
                  exactly_loop r cnt (i + 1) cur' (sq @ [cur']) (seen(residue_key cur' \<mapsto> i)))"
  by pat_completeness auto
termination by (relation "measure (\<lambda>(r, cnt, i, cur, sq, seen). nat (cnt + 1 - i))") auto

declare exactly_loop.simps [simp del]

definition exactlyKSumMod :: "residue_set \<Rightarrow> int \<Rightarrow> int \<Rightarrow> residue_set" where
  "exactlyKSumMod r cnt m =
     (let cur = zeroResidue m
      in if cnt \<le> 0 then cur
         else exactly_loop r cnt 1 cur [cur] (Map.empty(residue_key cur \<mapsto> 0)))"

function union_loop ::
  "residue_set \<Rightarrow> int \<Rightarrow> int \<Rightarrow> residue_set \<Rightarrow> residue_set \<Rightarrow> (64 word \<times> 64 word list) set \<Rightarrow> residue_set" where
  "union_loop r cnt i u cur seen =
     (if cnt < i then u
      else let cur' = minkowskiSumMod cur r;
               u' = unionWith u cur'
           in if residue_key cur' \<in> seen then u'
              else union_loop r cnt (i + 1) u' cur' (insert (residue_key cur') seen))"
  by pat_completeness auto
termination by (relation "measure (\<lambda>(r, cnt, i, u, cur, seen). nat (cnt + 1 - i))") auto

declare union_loop.simps [simp del]

definition unionUpToKSumMod :: "residue_set \<Rightarrow> int \<Rightarrow> int \<Rightarrow> residue_set" where
  "unionUpToKSumMod r cnt m =
     (let u = zeroResidue m
      in if cnt \<le> 0 then u
         else union_loop r cnt 1 u (zeroResidue m) {residue_key (zeroResidue m)})"

subsection \<open>What a mask denotes\<close>

definition residue_words :: "residue_set \<Rightarrow> 64 word list" where
  "residue_words s = low s # high s"

definition residues :: "residue_set \<Rightarrow> int set" where
  "residues s = int ` bits_set (residue_words s)"

definition mask_ok :: "residue_set \<Rightarrow> bool" where
  "mask_ok s \<longleftrightarrow> 0 < modulus s \<and> length (residue_words s) = nat ((modulus s + 63) div 64)
     \<and> residues s \<subseteq> {0..<modulus s}"

lemma mask_okD:
  assumes "mask_ok s"
  shows "0 < modulus s" "length (residue_words s) = nat ((modulus s + 63) div 64)"
    "r \<in> residues s \<Longrightarrow> 0 \<le> r" "r \<in> residues s \<Longrightarrow> r < modulus s"
  using assms by (auto simp: mask_ok_def)

lemma residue_word_nth: "residue_word s i = residue_words s ! i"
  by (cases i) (auto simp: residue_word_def residue_words_def)

lemma wordCount_length: "wordCount s = length (residue_words s)"
  by (simp add: wordCount_def residue_words_def)

lemma new_residue_set_ok:
  assumes "0 < m"
  shows "mask_ok (new_residue_set m)" "residues (new_residue_set m) = {}" "modulus (new_residue_set m) = m"
proof -
  have w: "(m + 63) sdiv 64 = (m + 63) div 64" "1 \<le> (m + 63) div 64"
    using assms by (simp_all add: sdiv_eq_div)
  then have r: "residue_words (new_residue_set m) = replicate (nat ((m + 63) div 64)) 0"
    using w by (cases "nat ((m + 63) div 64)") (auto simp: new_residue_set_def residue_words_def Let_def)
  show "residues (new_residue_set m) = {}" by (simp add: residues_def r)
  then show "mask_ok (new_residue_set m)" using assms by (simp add: mask_ok_def r) (simp add: new_residue_set_def)
  show "modulus (new_residue_set m) = m" by (simp add: new_residue_set_def)
qed

subsection \<open>Mask operations\<close>

lemma residue_words_add:
  "residue_words (add_residue r s) = mark_value 0 r (residue_words s)"
proof -
  have "residue_words (add_residue r s) = or_at (residue_words s) (nat r div 64) (push_bit (nat r mod 64) 1)"
  proof (cases "nat r div 64")
    case 0
    then show ?thesis by (simp add: add_residue_def residue_words_def or_at_def Let_def del: push_bit_of_1)
  next
    case (Suc k)
    then show ?thesis by (simp add: add_residue_def residue_words_def or_at_def Let_def del: push_bit_of_1)
  qed
  then show ?thesis by (simp add: mark_value_def Let_def del: push_bit_of_1)
qed

lemma add_residue_ok:
  assumes "mask_ok s" "0 \<le> r" "r < modulus s"
  shows "mask_ok (add_residue r s)" "residues (add_residue r s) = insert r (residues s)"
    "modulus (add_residue r s) = modulus s"
proof -
  have "r < 64 * int (length (residue_words s))" using mask_okD [OF assms(1)] assms(3) by linarith
  then have b: "bits_set (residue_words (add_residue r s)) = insert (nat r) (bits_set (residue_words s))"
    unfolding residue_words_add using bits_mark_value [of 0 r "residue_words s"] assms(2) by simp
  show r: "residues (add_residue r s) = insert r (residues s)" using b assms(2) by (simp add: residues_def)
  show m: "modulus (add_residue r s) = modulus s" by (simp add: add_residue_def Let_def)
  show "mask_ok (add_residue r s)"
    using assms r m unfolding mask_ok_def residue_words_add by simp
qed

lemma fold_add_residue:
  assumes "mask_ok s" "\<forall>v\<in>set vs. 0 \<le> f v \<and> f v < modulus s"
  shows "mask_ok (fold (\<lambda>v. add_residue (f v)) vs s)
    \<and> residues (fold (\<lambda>v. add_residue (f v)) vs s) = f ` set vs \<union> residues s
    \<and> modulus (fold (\<lambda>v. add_residue (f v)) vs s) = modulus s"
  using assms by (induction vs arbitrary: s) (auto simp: add_residue_ok)

lemma bits_or_lists:
  assumes "length vs = length ws"
  shows "bits_set (map (\<lambda>i. vs ! i OR ws ! i) [0..<length vs]) = bits_set vs \<union> bits_set ws"
  using assms by (auto simp: bits_set_def bit_or_iff less_mult_imp_div_less mult.commute)

lemma unionWith_ok:
  assumes "mask_ok s" "mask_ok t" "modulus s = modulus t"
  shows "mask_ok (unionWith s t)" "residues (unionWith s t) = residues s \<union> residues t"
    "modulus (unionWith s t) = modulus s"
proof -
  have l: "length (residue_words s) = length (residue_words t)" using assms by (simp add: mask_ok_def)
  have w: "residue_words (unionWith s t) =
      map (\<lambda>i. residue_words s ! i OR residue_words t ! i) [0..<length (residue_words s)]"
    by (rule nth_equalityI) (auto simp: residue_words_def unionWith_def nth_Cons' simp del: upt_Suc)
  show r: "residues (unionWith s t) = residues s \<union> residues t"
    unfolding residues_def w bits_or_lists [OF l] by auto
  show m: "modulus (unionWith s t) = modulus s" by (simp add: unionWith_def)
  show "mask_ok (unionWith s t)" using assms r m w by (auto simp: mask_ok_def)
qed

lemma residue_list_bitmap: "residue_list s = bitmap_values 0 (residue_words s)"
  by (simp add: residue_list_def bitmap_values_def residue_word_nth wordCount_length)

lemma residue_list_ok: "flat_ok (residue_list s)" "set (residue_list s) = residues s"
  unfolding residue_list_bitmap residues_def using bitmap_values_correct [of 0 "residue_words s"] by auto

lemma residueSetToFlatSet_ok: "flat_ok (residueSetToFlatSet s)" "set (residueSetToFlatSet s) = residues s"
  using flat.ok_fold_add [of "[]" "residue_list s"] flat.elems_fold_add [of "[]" "residue_list s"]
  by (simp_all add: residueSetToFlatSet_def residue_list_ok(2))

lemma zeroResidue_ok: "0 < m \<Longrightarrow> mask_ok (zeroResidue m) \<and> residues (zeroResidue m) = {0} \<and> modulus (zeroResidue m) = m"
  using new_residue_set_ok [of m] add_residue_ok [of "new_residue_set m" 0] by (simp add: zeroResidue_def)

lemma wrap_sum:
  assumes "0 \<le> x" "x < m" "0 \<le> y" "y < (m::int)"
  shows "(if m \<le> x + y then x + y - m else x + y) = (x + y) mod m"
proof (cases "m \<le> x + y")
  case True
  have "(x + y) mod m = (x + y - m) mod m" by simp
  also have "\<dots> = x + y - m" using True assms by (intro mod_pos_pos_trivial) linarith+
  finally show ?thesis using True by simp
next
  case False
  then show ?thesis using assms by simp
qed

lemma minkowskiSumMod_ok:
  assumes a: "mask_ok a" and b: "mask_ok b" and m: "modulus a = modulus b"
  shows "mask_ok (minkowskiSumMod a b) \<and> modulus (minkowskiSumMod a b) = modulus a \<and>
    residues (minkowskiSumMod a b) = (\<lambda>z. z mod modulus a) ` msum (residues a) (residues b)"
proof -
  let ?f = "\<lambda>x y. if modulus a \<le> x + y then x + y - modulus a else x + y"
  have f: "?f x y = (x + y) mod modulus a" if "x \<in> residues a" "y \<in> residues b" for x y
    using wrap_sum mask_okD [OF a] mask_okD [OF b] that m by metis
  have "mask_ok s \<Longrightarrow> modulus s = modulus a \<Longrightarrow> set xs \<subseteq> residues a \<Longrightarrow>
      mask_ok (fold (\<lambda>x. fold (\<lambda>y. add_residue (?f x y)) (residue_list b)) xs s) \<and>
      modulus (fold (\<lambda>x. fold (\<lambda>y. add_residue (?f x y)) (residue_list b)) xs s) = modulus a \<and>
      residues (fold (\<lambda>x. fold (\<lambda>y. add_residue (?f x y)) (residue_list b)) xs s) =
        (\<lambda>z. z mod modulus a) ` msum (set xs) (residues b) \<union> residues s" for xs s
  proof (induction xs arbitrary: s)
    case (Cons x xs)
    have x: "x \<in> residues a" using Cons.prems by simp
    have r: "\<forall>y\<in>set (residue_list b). 0 \<le> ?f x y \<and> ?f x y < modulus s"
      using f [OF x] mask_okD(1) [OF a] Cons.prems(2) by (simp add: residue_list_ok)
    note F = fold_add_residue [OF Cons.prems(1) r]
    have im: "?f x ` set (residue_list b) = (\<lambda>z. z mod modulus a) ` msum {x} (residues b)"
      using f [OF x] by (simp add: residue_list_ok msum_singleton image_image)
    have ms: "msum (set (x # xs)) (residues b) = msum (set xs) (residues b) \<union> msum {x} (residues b)"
      using msum_Un(2) [of "set xs" "{x}" "residues b"] by simp
    show ?case unfolding ms image_Un
      using Cons.IH [of "fold (\<lambda>y. add_residue (?f x y)) (residue_list b) s"] F [unfolded im] Cons.prems
      by (simp add: Un_assoc)
  qed simp
  from this [of "new_residue_set (modulus a)" "residue_list a"] show ?thesis
    using new_residue_set_ok [OF mask_okD(1) [OF a]]
    by (simp add: minkowskiSumMod_def Let_def residue_list_ok)
qed

text \<open>Masks are canonical: the words are determined by the residues.\<close>

lemma residue_key_iff:
  assumes "mask_ok s" "mask_ok t" "modulus s = modulus t"
  shows "residue_key s = residue_key t \<longleftrightarrow> residues s = residues t"
proof
  assume r: "residues s = residues t"
  then have b: "bits_set (residue_words s) = bits_set (residue_words t)"
    by (simp add: residues_def inj_image_eq_iff)
  have l: "length (residue_words s) = length (residue_words t)" using assms by (simp add: mask_ok_def)
  have "residue_words s = residue_words t"
  proof (rule nth_equalityI [OF l])
    fix i assume i: "i < length (residue_words s)"
    show "residue_words s ! i = residue_words t ! i"
    proof (rule bit_eqI)
      fix n assume "possible_bit TYPE(64 word) n"
      then have n: "n < 64" by simp
      have "64 * i + n \<in> bits_set (residue_words s) \<longleftrightarrow> bit (residue_words s ! i) n"
        "64 * i + n \<in> bits_set (residue_words t) \<longleftrightarrow> bit (residue_words t ! i) n"
        using n i l by (auto simp: bits_set_def)
      then show "bit (residue_words s ! i) n = bit (residue_words t ! i) n" using b by simp
    qed
  qed
  then show "residue_key s = residue_key t" by (simp add: residue_words_def residue_key_def)
qed (auto simp: residue_key_def residues_def residue_words_def)

subsection \<open>Repeated sums\<close>

lemma mod_msum: "(\<lambda>z. z mod m) ` msum ((\<lambda>z. z mod m) ` A) ((\<lambda>z. z mod m) ` B) = (\<lambda>z. z mod m) ` msum A (B :: int set)"
proof (intro equalityI subsetI)
  fix w assume "w \<in> (\<lambda>z. z mod m) ` msum ((\<lambda>z. z mod m) ` A) ((\<lambda>z. z mod m) ` B)"
  then obtain x y where "w = (x mod m + y mod m) mod m" "x \<in> A" "y \<in> B" by blast
  then have "w = (x + y) mod m" by (simp add: mod_add_eq)
  then show "w \<in> (\<lambda>z. z mod m) ` msum A B" using \<open>x \<in> A\<close> \<open>y \<in> B\<close> by blast
next
  fix w assume "w \<in> (\<lambda>z. z mod m) ` msum A B"
  then obtain x y where "w = (x + y) mod m" "x \<in> A" "y \<in> B" by blast
  then have "w = (x mod m + y mod m) mod m" by (simp add: mod_add_eq)
  then show "w \<in> (\<lambda>z. z mod m) ` msum ((\<lambda>z. z mod m) ` A) ((\<lambda>z. z mod m) ` B)"
    using \<open>x \<in> A\<close> \<open>y \<in> B\<close> by blast
qed

text \<open>The \<open>k\<close>-th term of the walk, and its periodicity once a term repeats.\<close>

definition ksum_mod :: "int \<Rightarrow> int set \<Rightarrow> nat \<Rightarrow> int set" where
  "ksum_mod m A k = (\<lambda>z. z mod m) ` ksum k A"

lemma ksum_mod_Suc:
  assumes "\<forall>r\<in>A. r mod m = r"
  shows "ksum_mod m A (Suc k) = (\<lambda>z. z mod m) ` msum (ksum_mod m A k) A"
proof -
  have "(\<lambda>z. z mod m) ` A = A" using assms by force
  then show ?thesis using mod_msum [of m "ksum k A" A] by (simp add: ksum_mod_def)
qed

lemma walk_periodic:
  assumes step: "\<And>k. f (Suc k) = g (f k)" and rep: "f i = f j" "j < i" and n: "j \<le> n"
  shows "f n = f (j + (n - j) mod (i - j))"
proof -
  have shift: "f (i + k) = f (j + k)" for k by (induction k) (simp_all add: step rep(1))
  show ?thesis using n
  proof (induction n rule: less_induct)
    case (less n)
    show ?case
    proof (cases "n < i")
      case True
      then show ?thesis using less.prems rep(2) by simp
    next
      case False
      then have "f n = f (j + (n - i))" using shift [of "n - i"] by simp
      also have "\<dots> = f (j + (n - i) mod (i - j))"
        using less.IH [of "j + (n - i)"] False rep(2) by simp
      also have "(n - i) mod (i - j) = (n - j) mod (i - j)"
        using False rep(2) mod_add_self2 [of "n - i" "i - j"] by (simp add: Nat.diff_diff_eq)
      finally show ?thesis .
    qed
  qed
qed

text \<open>The terms the loops compute.\<close>

definition is_term :: "residue_set \<Rightarrow> nat \<Rightarrow> residue_set \<Rightarrow> bool" where
  "is_term r k s \<longleftrightarrow> mask_ok s \<and> modulus s = modulus r \<and> residues s = ksum_mod (modulus r) (residues r) k"

lemma is_term_zero: "mask_ok r \<Longrightarrow> is_term r 0 (zeroResidue (modulus r))"
  using zeroResidue_ok [of "modulus r"] mask_okD(1) [of r] by (simp add: is_term_def ksum_mod_def)

lemma is_term_next:
  assumes "mask_ok r" "is_term r k s"
  shows "is_term r (Suc k) (minkowskiSumMod s r)"
  using minkowskiSumMod_ok [of s r] assms ksum_mod_Suc [of "residues r" "modulus r" k] mask_okD(3,4) [OF assms(1)]
  by (auto simp: is_term_def mod_pos_pos_trivial)

lemma is_term_key:
  "is_term r i s \<Longrightarrow> is_term r j t \<Longrightarrow>
    residue_key s = residue_key t \<longleftrightarrow> ksum_mod (modulus r) (residues r) i = ksum_mod (modulus r) (residues r) j"
  using residue_key_iff [of s t] by (auto simp: is_term_def)

lemma ksum_mod_periodic:
  assumes "mask_ok r" "ksum_mod (modulus r) (residues r) i = ksum_mod (modulus r) (residues r) j" "j < i" "j \<le> n"
  shows "ksum_mod (modulus r) (residues r) n = ksum_mod (modulus r) (residues r) (j + (n - j) mod (i - j))"
proof -
  have "\<forall>x\<in>residues r. x mod modulus r = x" using mask_okD(3,4) [OF assms(1)] by (auto simp: mod_pos_pos_trivial)
  note walk_periodic [where f = "ksum_mod (modulus r) (residues r)", OF ksum_mod_Suc [OF this]]
  from this [OF assms(2-4)] show ?thesis .
qed

lemma exactly_loop_exact:
  assumes "mask_ok r" "is_term r (nat (i - 1)) cur" "1 \<le> i" "i \<le> cnt + 1" "int (length sq) = i"
    "\<forall>k<length sq. is_term r k (sq ! k)"
    "\<forall>key j. seen key = Some j \<longrightarrow> 0 \<le> j \<and> j < i \<and> residue_key (sq ! nat j) = key"
  shows "is_term r (nat cnt) (exactly_loop r cnt i cur sq seen)"
  using assms
proof (induction r cnt i cur sq seen rule: exactly_loop.induct)
  case (1 r cnt i cur sq seen)
  show ?case
  proof (cases "cnt < i")
    case True
    then have "nat cnt = nat (i - 1)" using "1.prems" by simp
    then show ?thesis using True "1.prems"(2) by (simp add: exactly_loop.simps [of r cnt])
  next
    case F: False
    define c where "c = minkowskiSumMod cur r"
    have "nat i = Suc (nat (i - 1))" using "1.prems"(3) by simp
    then have c: "is_term r (nat i) c"
      using is_term_next [OF "1.prems"(1,2)] by (simp add: c_def)
    show ?thesis
    proof (cases "seen (residue_key c)")
      case None
      have e: "exactly_loop r cnt i cur sq seen =
          exactly_loop r cnt (i + 1) c (sq @ [c]) (seen(residue_key c \<mapsto> i))"
        using F None by (simp add: exactly_loop.simps [of r cnt i] c_def Let_def)
      have l: "length sq = nat i" using "1.prems"(5) by simp
      have terms: "\<forall>k<length (sq @ [c]). is_term r k ((sq @ [c]) ! k)"
        using "1.prems"(6) c l by (simp add: nth_append less_Suc_eq)
      have keys: "\<forall>key j. (seen(residue_key c \<mapsto> i)) key = Some j \<longrightarrow>
          0 \<le> j \<and> j < i + 1 \<and> residue_key ((sq @ [c]) ! nat j) = key"
        using "1.prems"(3,7) l by (fastforce simp: nth_append nat_less_iff split: if_splits)
      have "is_term r (nat (i + 1 - 1)) c" "1 \<le> i + 1" "i + 1 \<le> cnt + 1" "int (length (sq @ [c])) = i + 1"
        using c F "1.prems"(3,5) by simp_all
      from "1.IH" [OF F c_def None "1.prems"(1) this terms keys] show ?thesis unfolding e .
    next
      case (Some j)
      have j: "0 \<le> j" "j < i" "residue_key (sq ! nat j) = residue_key c" using "1.prems"(7) Some by blast+
      have tj: "is_term r (nat j) (sq ! nat j)" using "1.prems"(5,6) j by (simp add: nat_less_iff)
      have rep: "ksum_mod (modulus r) (residues r) (nat i) = ksum_mod (modulus r) (residues r) (nat j)"
        using is_term_key [OF tj c] j(3) by simp
      have per: "nat j < nat i" "nat j \<le> nat cnt" using j F by simp_all
      have idx: "nat (j + (cnt - j) smod (i - j)) = nat j + (nat cnt - nat j) mod (nat i - nat j)"
      proof -
        have "(cnt - j) smod (i - j) = (cnt - j) mod (i - j)" using j F by (simp add: smod_eq_mod)
        moreover have "nat ((cnt - j) mod (i - j)) = nat (cnt - j) mod nat (i - j)"
          using j F by (simp add: nat_mod_distrib)
        moreover have "0 \<le> (cnt - j) mod (i - j)" using j by simp
        ultimately show ?thesis using j F by (simp add: nat_add_distrib nat_diff_distrib)
      qed
      have lt: "nat j + (nat cnt - nat j) mod (nat i - nat j) < length sq"
        using per "1.prems"(5) mod_less_divisor [of "nat i - nat j" "nat cnt - nat j"] by linarith
      have e: "exactly_loop r cnt i cur sq seen = sq ! (nat j + (nat cnt - nat j) mod (nat i - nat j))"
        using F Some idx by (simp add: exactly_loop.simps [of r cnt i] c_def Let_def)
      show ?thesis
        using "1.prems"(6) lt ksum_mod_periodic [OF "1.prems"(1) rep per] unfolding e is_term_def by simp
    qed
  qed
qed

lemma exactlyKSumMod_ok:
  assumes r: "mask_ok r"
  shows "mask_ok (exactlyKSumMod r cnt (modulus r)) \<and> modulus (exactlyKSumMod r cnt (modulus r)) = modulus r \<and>
    residues (exactlyKSumMod r cnt (modulus r)) = (\<lambda>z. z mod modulus r) ` ksum (nat cnt) (residues r)"
proof -
  note z = is_term_zero [OF r]
  have "is_term r (nat cnt) (exactlyKSumMod r cnt (modulus r))"
  proof (cases "cnt \<le> 0")
    case True
    then show ?thesis using z by (simp add: exactlyKSumMod_def Let_def)
  next
    case False
    then show ?thesis
      using exactly_loop_exact [OF r, of 1 "zeroResidue (modulus r)" cnt "[zeroResidue (modulus r)]"
          "Map.empty(residue_key (zeroResidue (modulus r)) \<mapsto> 0)"] z
      by (simp add: exactlyKSumMod_def Let_def)
  qed
  then show ?thesis by (simp add: is_term_def ksum_mod_def)
qed

text \<open>The union over all terms, stopped at the first repetition.\<close>

definition is_union :: "residue_set \<Rightarrow> nat \<Rightarrow> residue_set \<Rightarrow> bool" where
  "is_union r n u \<longleftrightarrow> mask_ok u \<and> modulus u = modulus r \<and>
     residues u = (\<Union>k\<le>n. ksum_mod (modulus r) (residues r) k)"

lemma union_saturated:
  assumes r: "mask_ok r" and rep: "ksum_mod (modulus r) (residues r) i = ksum_mod (modulus r) (residues r) j"
    and "j < i" "i \<le> n"
  shows "(\<Union>k\<le>n. ksum_mod (modulus r) (residues r) k) = (\<Union>k\<le>i. ksum_mod (modulus r) (residues r) k)"
proof
  let ?f = "ksum_mod (modulus r) (residues r)"
  show "(\<Union>k\<le>n. ?f k) \<subseteq> (\<Union>k\<le>i. ?f k)"
  proof
    fix x assume "x \<in> (\<Union>k\<le>n. ?f k)"
    then obtain k where k: "x \<in> ?f k" by auto
    show "x \<in> (\<Union>k\<le>i. ?f k)"
    proof (cases "j \<le> k")
      case True
      have "j + (k - j) mod (i - j) \<le> i"
        using assms(3) mod_less_divisor [of "i - j" "k - j"] by linarith
      then show ?thesis using k ksum_mod_periodic [OF r rep assms(3) True] by auto
    qed (use k assms(3) in auto)
  qed
  show "(\<Union>k\<le>i. ?f k) \<subseteq> (\<Union>k\<le>n. ?f k)" using assms(4) by (intro UN_mono) auto
qed

lemma union_loop_exact:
  assumes "mask_ok r" "is_term r (nat (i - 1)) cur" "is_union r (nat (i - 1)) u" "1 \<le> i" "i \<le> cnt + 1"
    "\<forall>key\<in>seen. \<exists>k t. k < nat i \<and> is_term r k t \<and> key = residue_key t"
  shows "is_union r (nat cnt) (union_loop r cnt i u cur seen)"
  using assms
proof (induction r cnt i u cur seen rule: union_loop.induct)
  case (1 r cnt i u cur seen)
  let ?f = "ksum_mod (modulus r) (residues r)"
  show ?case
  proof (cases "cnt < i")
    case True
    then have "nat cnt = nat (i - 1)" using "1.prems" by simp
    then show ?thesis using True "1.prems"(3) by (simp add: union_loop.simps [of r cnt])
  next
    case F: False
    define c where "c = minkowskiSumMod cur r"
    have ni: "nat i = Suc (nat (i - 1))" using "1.prems"(4) by simp
    then have c: "is_term r (nat i) c"
      using is_term_next [OF "1.prems"(1,2)] by (simp add: c_def)
    have u: "is_union r (nat i) (unionWith u c)"
    proof -
      have "(\<Union>k\<le>nat i. ?f k) = (\<Union>k\<le>nat (i - 1). ?f k) \<union> ?f (nat i)"
        using atMost_Suc [of "nat (i - 1)"] unfolding ni [symmetric] by (simp add: Un_commute)
      moreover have "mask_ok u" "mask_ok c" "modulus u = modulus c" "modulus u = modulus r"
        "residues u = (\<Union>k\<le>nat (i - 1). ?f k)" "residues c = ?f (nat i)"
        using "1.prems"(3) c by (auto simp: is_union_def is_term_def)
      ultimately show ?thesis using unionWith_ok [of u c] by (simp add: is_union_def)
    qed
    show ?thesis
    proof (cases "residue_key c \<in> seen")
      case True
      then obtain k t where k: "k < nat i" "is_term r k t" "residue_key c = residue_key t"
        using "1.prems"(6) by blast
      have rep: "?f (nat i) = ?f k" using is_term_key [OF c k(2)] k(3) by simp
      have e: "union_loop r cnt i u cur seen = unionWith u c"
        using F True by (simp add: union_loop.simps [of r cnt i] c_def Let_def)
      have "nat i \<le> nat cnt" using F by simp
      note S = union_saturated [OF "1.prems"(1) rep k(1) this]
      show ?thesis using u unfolding e is_union_def S .
    next
      case False
      have e: "union_loop r cnt i u cur seen = union_loop r cnt (i + 1) (unionWith u c) c (insert (residue_key c) seen)"
        using F False by (simp add: union_loop.simps [of r cnt i] c_def Let_def)
      have keys: "\<forall>key\<in>insert (residue_key c) seen. \<exists>k t. k < nat (i + 1) \<and> is_term r k t \<and> key = residue_key t"
      proof
        fix key assume "key \<in> insert (residue_key c) seen"
        then show "\<exists>k t. k < nat (i + 1) \<and> is_term r k t \<and> key = residue_key t"
        proof
          assume "key = residue_key c"
          moreover have "nat i < nat (i + 1)" using "1.prems"(4) by simp
          ultimately show ?thesis using c by blast
        next
          assume "key \<in> seen"
          then obtain k t where "k < nat i" "is_term r k t" "key = residue_key t" using "1.prems"(6) by blast
          moreover from this have "k < nat (i + 1)" by simp
          ultimately show ?thesis by blast
        qed
      qed
      have "is_term r (nat (i + 1 - 1)) c" "is_union r (nat (i + 1 - 1)) (unionWith u c)" "1 \<le> i + 1" "i + 1 \<le> cnt + 1"
        using c u F "1.prems"(4) by simp_all
      from "1.IH" [OF F c_def refl False "1.prems"(1) this keys] show ?thesis unfolding e .
    qed
  qed
qed

lemma unionUpToKSumMod_ok:
  assumes r: "mask_ok r"
  shows "mask_ok (unionUpToKSumMod r cnt (modulus r)) \<and> modulus (unionUpToKSumMod r cnt (modulus r)) = modulus r \<and>
    residues (unionUpToKSumMod r cnt (modulus r)) = (\<lambda>z. z mod modulus r) ` ksum_upto (nat cnt) (residues r)"
proof -
  note z = is_term_zero [OF r]
  then have u0: "is_union r 0 (zeroResidue (modulus r))" by (simp add: is_union_def is_term_def)
  have "is_union r (nat cnt) (unionUpToKSumMod r cnt (modulus r))"
  proof (cases "cnt \<le> 0")
    case True
    then show ?thesis using u0 by (simp add: unionUpToKSumMod_def Let_def)
  next
    case False
    have "\<exists>k t. k < nat 1 \<and> is_term r k t \<and> residue_key (zeroResidue (modulus r)) = residue_key t"
      using z by (intro exI [of _ 0]) auto
    then show ?thesis
      using union_loop_exact [OF r, of 1 "zeroResidue (modulus r)" "zeroResidue (modulus r)" cnt
          "{residue_key (zeroResidue (modulus r))}"] z u0 False
      by (simp add: unionUpToKSumMod_def Let_def)
  qed
  then show ?thesis by (simp add: is_union_def ksum_mod_def ksum_upto_def image_UN)
qed

end
