(* ===== verification/BitLengthResidues.thy ===== *)
theory BitLengthResidues
  imports ResidueSet BitLengthEval
begin

text \<open>
  The symbolic residues of an expression, \<^verbatim>\<open>Node::residues\<close> of
  \<^verbatim>\<open>lib/Semantics/BitLengthSet.cpp\<close>: contexts of a node and a working modulus are discovered in
  post-order, where a padding widens the modulus of its operand to the least common multiple with
  the alignment, and each context is evaluated once from the contexts below it. The theorems show
  that a success gives exactly the remainders of the documented set, and that the walk succeeds
  whenever nothing saturates and no widened modulus passes the cap.
\<close>

subsection \<open>Discovery of the contexts\<close>

type_synonym res_ctx = "nat \<times> int"

text \<open>The contexts below a context; \<open>None\<close> is the early return on a modulus above the cap.\<close>

definition ctx_at :: "nat option \<Rightarrow> int \<Rightarrow> res_ctx list" where
  "ctx_at p m = (case p of None \<Rightarrow> [] | Some c \<Rightarrow> [(c, m)])"

definition ctx_next :: "heap \<Rightarrow> res_ctx \<Rightarrow> res_ctx list option" where
  "ctx_next h c =
     (let n = h ! fst c; m = snd c
      in case kind n of
           KLeaf \<Rightarrow> Some []
         | KAdd \<Rightarrow> Some (ctx_at (rhs n) m @ ctx_at (lhs n) m)
         | KUnion \<Rightarrow> Some (ctx_at (rhs n) m @ ctx_at (lhs n) m)
         | KPad \<Rightarrow>
             (case lcmAtMost (max 1 (param n)) m kResidueModulusCap of
                None \<Rightarrow> None
              | Some widened \<Rightarrow> Some (ctx_at (lhs n) widened))
         | KRepeat \<Rightarrow> Some (ctx_at (lhs n) m)
         | KRepeatRange \<Rightarrow> Some (ctx_at (lhs n) m))"

lemma ctx_at_set [simp]: "set (ctx_at p m) = (case p of None \<Rightarrow> {} | Some c \<Rightarrow> {(c, m)})"
  by (simp add: ctx_at_def split: option.split)

lemma ctx_next_length: "ctx_next h c = Some cs \<Longrightarrow> length cs \<le> 2"
  by (auto simp: ctx_next_def ctx_at_def Let_def split: node_kind.splits option.splits)

lemma ctx_next_moduli:
  assumes "ctx_next h c = Some cs" "x \<in> set cs"
  shows "snd x = snd c \<or> 1 \<le> snd x \<and> snd x \<le> kResidueModulusCap"
proof -
  have "1 \<le> w" if "lcmAtMost a b l = Some w" for a b l w
  proof -
    have "0 < lcm a b" "w = lcm a b" using that by (auto simp: lcmAtMost_Some intro: lcm_pos_int)
    then show ?thesis by simp
  qed
  then show ?thesis using assms
    by (auto simp: ctx_next_def Let_def split: node_kind.splits option.splits) (auto simp: lcmAtMost_Some)
qed

function discover :: "heap \<Rightarrow> (res_ctx \<times> bool) list \<Rightarrow> res_ctx set \<Rightarrow> res_ctx list \<Rightarrow> res_ctx list option" where
  "discover h [] seen order = Some order"
| "discover h ((c, finished) # stack) seen order =
     (if kResidueModulusCap < snd c then None
      else if finished then discover h stack seen (order @ [c])
      else if \<not> fst c < length h \<or> c \<in> seen then discover h stack seen order
      else case ctx_next h c of
             None \<Rightarrow> None
           | Some cs \<Rightarrow> discover h (map (\<lambda>d. (d, False)) cs @ (c, True) # stack) (insert c seen) order)"
  by pat_completeness auto
termination
proof (relation "measure (\<lambda>(h, stack, seen, order).
    4 * card ({..<length h} \<times> ({1..kResidueModulusCap} \<union> snd ` fst ` set stack) - seen) + length stack)", goal_cases)
  case (2 h c fin stack seen order)
  have "card ({..<length h} \<times> ({1..kResidueModulusCap} \<union> snd ` fst ` set stack) - seen)
      \<le> card ({..<length h} \<times> ({1..kResidueModulusCap} \<union> snd ` fst ` set ((c, fin) # stack)) - seen)"
    by (intro card_mono) auto
  then show ?case by simp
next
  case (3 h c fin stack seen order)
  have "card ({..<length h} \<times> ({1..kResidueModulusCap} \<union> snd ` fst ` set stack) - seen)
      \<le> card ({..<length h} \<times> ({1..kResidueModulusCap} \<union> snd ` fst ` set ((c, fin) # stack)) - seen)"
    by (intro card_mono) auto
  then show ?case by simp
next
  case (4 h c fin stack seen order cs)
  let ?old = "{..<length h} \<times> ({1..kResidueModulusCap} \<union> snd ` fst ` set ((c, fin) # stack)) - seen"
  let ?st = "map (\<lambda>d. (d, False)) cs @ (c, True) # stack"
  have "snd ` fst ` set ?st \<subseteq> {1..kResidueModulusCap} \<union> snd ` fst ` set ((c, fin) # stack)"
    using ctx_next_moduli [OF 4(4)] by (force simp: image_Un image_image)
  then have "{..<length h} \<times> ({1..kResidueModulusCap} \<union> snd ` fst ` set ?st) - insert c seen \<subseteq> ?old - {c}"
    by auto
  then have "card ({..<length h} \<times> ({1..kResidueModulusCap} \<union> snd ` fst ` set ?st) - insert c seen) \<le> card (?old - {c})"
    by (intro card_mono) auto
  moreover have "c \<in> ?old" using 4(3) by (cases c) auto
  then have "card (?old - {c}) < card ?old" by (intro psubset_card_mono) auto
  ultimately show ?case using ctx_next_length [OF 4(4)] by simp
qed auto

subsection \<open>Evaluation of the contexts\<close>

definition ctx_memo :: "(res_ctx \<rightharpoonup> residue_set) \<Rightarrow> nat option \<Rightarrow> int \<Rightarrow> residue_set option" where
  "ctx_memo memo p m = (case p of None \<Rightarrow> None | Some c \<Rightarrow> memo (c, m))"

definition pad_residue :: "int \<Rightarrow> int \<Rightarrow> int \<Rightarrow> int" where
  "pad_residue a m r =
     (let rem = r smod a; padded = (if rem = 0 then r else r + (a - rem)) in padded smod m)"

definition residue_step :: "node \<Rightarrow> int \<Rightarrow> (res_ctx \<rightharpoonup> residue_set) \<Rightarrow> residue_set option" where
  "residue_step n m memo =
     (let rs = new_residue_set m
      in case kind n of
           KLeaf \<Rightarrow>
             (let rs' = fold (\<lambda>v. add_residue (euclideanModulo v m)) (vals n) rs
              in Some (if vals n = [] then add_residue 0 rs' else rs'))
         | KAdd \<Rightarrow>
             (case (ctx_memo memo (lhs n) m, ctx_memo memo (rhs n) m) of
                (Some l, Some r) \<Rightarrow> Some (minkowskiSumMod l r)
              | _ \<Rightarrow> None)
         | KUnion \<Rightarrow>
             (case (ctx_memo memo (lhs n) m, ctx_memo memo (rhs n) m) of
                (Some l, Some r) \<Rightarrow> Some (unionWith (unionWith rs l) r)
              | _ \<Rightarrow> None)
         | KPad \<Rightarrow>
             (let a = max 1 (param n);
                  widened = (case lcmAtMost a m kResidueModulusCap of None \<Rightarrow> 0 | Some w \<Rightarrow> w)
              in map_option (\<lambda>s. fold (\<lambda>r. add_residue (pad_residue a m r)) (residue_list s) rs)
                   (ctx_memo memo (lhs n) widened))
         | KRepeat \<Rightarrow>
             map_option (\<lambda>s. unionWith rs (exactlyKSumMod s (max 0 (param n)) m)) (ctx_memo memo (lhs n) m)
         | KRepeatRange \<Rightarrow>
             map_option (\<lambda>s. unionWith rs (unionUpToKSumMod s (max 0 (param n)) m)) (ctx_memo memo (lhs n) m))"

fun eval_contexts :: "heap \<Rightarrow> res_ctx list \<Rightarrow> (res_ctx \<rightharpoonup> residue_set) \<Rightarrow> (res_ctx \<rightharpoonup> residue_set) option" where
  "eval_contexts h [] memo = Some memo"
| "eval_contexts h (c # cs) memo =
     (case residue_step (h ! fst c) (snd c) memo of
        None \<Rightarrow> None
      | Some rs \<Rightarrow> eval_contexts h cs (memo(c \<mapsto> rs)))"

text \<open>
  The outcome is the returned flag and the mask \<open>out\<close> as the call leaves it; \<open>None\<close> is an exception
  of \<^verbatim>\<open>memo.at\<close>, which the theorem below excludes.
\<close>

definition node_residues :: "heap \<Rightarrow> nat \<Rightarrow> int \<Rightarrow> residue_set \<Rightarrow> (bool \<times> residue_set) option" where
  "node_residues h p m out =
     (case saturationReachable h p of
        None \<Rightarrow> None
      | Some True \<Rightarrow> Some (False, out)
      | Some False \<Rightarrow>
          (case discover h [((p, m), False)] {} [] of
             None \<Rightarrow> Some (False, out)
           | Some order \<Rightarrow>
               (case eval_contexts h order Map.empty of
                  None \<Rightarrow> None
                | Some memo \<Rightarrow> map_option (\<lambda>rs. (True, unionWith out rs)) (memo (p, m)))))"

subsection \<open>The discovery is a depth-first walk\<close>

definition ctx_succ :: "heap \<Rightarrow> res_ctx \<Rightarrow> res_ctx list" where
  "ctx_succ h c = (case ctx_next h c of None \<Rightarrow> [] | Some cs \<Rightarrow> cs)"

abbreviation ctx_reach :: "heap \<Rightarrow> res_ctx \<Rightarrow> res_ctx \<Rightarrow> bool" where
  "ctx_reach h \<equiv> (\<lambda>a b. b \<in> set (ctx_succ h a))\<^sup>*\<^sup>*"

lemma ctx_succ_below:
  assumes "heap_ok h" "fst c < length h" "d \<in> set (ctx_succ h c)"
  shows "fst d < fst c" "0 < snd c \<Longrightarrow> 0 < snd d"
proof -
  have ok: "node_ok (fst c) (h ! fst c)" using assms by (simp add: heap_ok_def)
  have "l < fst c" if "lhs (h ! fst c) = Some l \<or> rhs (h ! fst c) = Some l" for l
  proof -
    have "l \<in> set (children (h ! fst c))" using that by (auto simp: children_def)
    then show ?thesis using ok by (simp add: node_ok_def)
  qed
  then show "fst d < fst c" using assms(3)
    by (auto simp: ctx_succ_def ctx_next_def Let_def split: node_kind.splits option.splits)
  obtain cs where "ctx_next h c = Some cs" "d \<in> set cs" using assms(3) by (cases "ctx_next h c") (auto simp: ctx_succ_def)
  then show "0 < snd c \<Longrightarrow> 0 < snd d" using ctx_next_moduli [of h c cs d] by auto
qed

lemma ctx_reach_in_range:
  assumes "heap_ok h" "fst root < length h" "0 < snd root" "ctx_reach h root c"
  shows "fst c < length h \<and> 0 < snd c"
  using assms(4)
proof (induction rule: rtranclp_induct)
  case (step b c)
  have b: "fst b < length h" "0 < snd b" using step.IH by simp_all
  show ?case using ctx_succ_below [OF assms(1) b(1) step.hyps(2)] b by simp
qed (simp add: assms(2,3))

lemma discover_inv:
  assumes ok: "heap_ok h" "fst root < length h" "0 < snd root"
    and d: "dfs_inv (ctx_succ h) fst root stack seen order"
    and n: "\<forall>c\<in>set order \<union> {c. (c, True) \<in> set stack}. ctx_next h c \<noteq> None"
    and r: "discover h stack seen order = Some order'"
  shows "\<exists>seen'. dfs_inv (ctx_succ h) fst root [] seen' order' \<and> (\<forall>c\<in>set order'. ctx_next h c \<noteq> None)"
  using assms
proof (induction h stack seen order rule: discover.induct)
  case (1 h seen order)
  then show ?case by auto
next
  case (2 h c fin stack seen order)
  have cap: "\<not> kResidueModulusCap < snd c" using "2.prems"(6) by (auto split: if_splits)
  have rng: "fst c < length h" using ctx_reach_in_range [OF "2.prems"(1-3)] "2.prems"(4) by (auto simp: dfs_inv_def)
  show ?case
  proof (cases fin)
    case True
    have inv: "dfs_inv (ctx_succ h) fst root stack seen (order @ [c])"
      using dfs_inv_done "2.prems"(4) unfolding eqTrueI [OF True] by fast
    have r: "discover h stack seen (order @ [c]) = Some order'" using "2.prems"(6) True cap by simp
    have n: "\<forall>d\<in>set (order @ [c]) \<union> {d. (d, True) \<in> set stack}. ctx_next h d \<noteq> None"
      using "2.prems"(5) True by auto
    show ?thesis by (rule "2.IH"(1) [OF cap True "2.prems"(1-3) inv n r])
  next
    case F: False
    show ?thesis
    proof (cases "c \<in> seen")
      case True
      have inv: "dfs_inv (ctx_succ h) fst root stack seen order"
        using dfs_inv_seen "2.prems"(4) F True by (cases fin) auto
      have r: "discover h stack seen order = Some order'" using "2.prems"(6) F cap True by simp
      have n: "\<forall>d\<in>set order \<union> {d. (d, True) \<in> set stack}. ctx_next h d \<noteq> None"
        using "2.prems"(5) by auto
      have s: "\<not> fst c < length h \<or> c \<in> seen" using True ..
      show ?thesis by (rule "2.IH"(2) [OF cap F s "2.prems"(1-3) inv n r])
    next
      case new: False
      then obtain cs where cs: "ctx_next h c = Some cs" using "2.prems"(6) F cap rng by (auto split: option.splits)
      have succ: "ctx_succ h c = cs" by (simp add: ctx_succ_def cs)
      have "\<forall>d\<in>set (ctx_succ h c). fst d < fst c" using ctx_succ_below(1) [OF "2.prems"(1) rng] by blast
      moreover have "dfs_inv (ctx_succ h) fst root ((c, False) # stack) seen order" using "2.prems"(4) F by simp
      ultimately have inv: "dfs_inv (ctx_succ h) fst root (map (\<lambda>d. (d, False)) cs @ (c, True) # stack) (insert c seen) order"
        using dfs_inv_new [of "ctx_succ h" fst root c stack seen order] new by (simp add: succ)
      have g: "\<not> (\<not> fst c < length h \<or> c \<in> seen)" using rng new by simp
      let ?st = "map (\<lambda>d. (d, False)) cs @ (c, True) # stack"
      have r: "discover h ?st (insert c seen) order = Some order'" using "2.prems"(6) F cap g cs by simp
      have n: "\<forall>d\<in>set order \<union> {d. (d, True) \<in> set ?st}. ctx_next h d \<noteq> None"
        using "2.prems"(5) cs by auto
      show ?thesis by (rule "2.IH"(3) [OF cap F g cs "2.prems"(1-3) inv n r])
    qed
  qed
qed

lemma discover_succeeds:
  assumes ok: "heap_ok h" "fst root < length h" "0 < snd root"
    and d: "dfs_inv (ctx_succ h) fst root stack seen order"
    and n: "\<forall>c. ctx_reach h root c \<longrightarrow> snd c \<le> kResidueModulusCap \<and> ctx_next h c \<noteq> None"
  shows "discover h stack seen order \<noteq> None"
  using assms
proof (induction h stack seen order rule: discover.induct)
  case (2 h c fin stack seen order)
  have rc: "ctx_reach h root c" using "2.prems"(4) by (auto simp: dfs_inv_def)
  have cap: "\<not> kResidueModulusCap < snd c" using "2.prems"(5) rc by (metis not_le)
  have rng: "fst c < length h" using ctx_reach_in_range [OF "2.prems"(1-3) rc] by simp
  show ?case
  proof (cases fin)
    case True
    have inv: "dfs_inv (ctx_succ h) fst root stack seen (order @ [c])"
      using dfs_inv_done "2.prems"(4) unfolding eqTrueI [OF True] by fast
    show ?thesis using "2.IH"(1) [OF cap True "2.prems"(1-3) inv "2.prems"(5)] True cap by auto
  next
    case F: False
    show ?thesis
    proof (cases "c \<in> seen")
      case True
      have inv: "dfs_inv (ctx_succ h) fst root stack seen order"
        using dfs_inv_seen "2.prems"(4) F True by (cases fin) auto
      show ?thesis using "2.IH"(2) [OF cap F _ "2.prems"(1-3) inv "2.prems"(5)] F cap True by auto
    next
      case new: False
      have "ctx_next h c \<noteq> None" using "2.prems"(5) rc by blast
      then obtain cs where cs: "ctx_next h c = Some cs" by blast
      have succ: "ctx_succ h c = cs" by (simp add: ctx_succ_def cs)
      have "\<forall>d\<in>set (ctx_succ h c). fst d < fst c" using ctx_succ_below(1) [OF "2.prems"(1) rng] by blast
      moreover have "dfs_inv (ctx_succ h) fst root ((c, False) # stack) seen order" using "2.prems"(4) F by simp
      ultimately have inv: "dfs_inv (ctx_succ h) fst root (map (\<lambda>d. (d, False)) cs @ (c, True) # stack) (insert c seen) order"
        using dfs_inv_new [of "ctx_succ h" fst root c stack seen order] new by (simp add: succ)
      have g: "\<not> (\<not> fst c < length h \<or> c \<in> seen)" using rng new by simp
      show ?thesis
        using "2.IH"(3) [OF cap F g cs "2.prems"(1-3) inv "2.prems"(5)] F cap rng new cs by auto
    qed
  qed
qed simp

text \<open>The moduli that the paddings of an expression ask for stay within the cap.\<close>

fun res_fits :: "bl_expr \<Rightarrow> int \<Rightarrow> bool" where
  "res_fits (Leaf vs) m \<longleftrightarrow> m \<le> kResidueModulusCap"
| "res_fits (Add a b) m \<longleftrightarrow> res_fits a m \<and> res_fits b m"
| "res_fits (Unite a b) m \<longleftrightarrow> res_fits a m \<and> res_fits b m"
| "res_fits (Pad a k) m \<longleftrightarrow> res_fits a (lcm k m)"
| "res_fits (Repeat a k) m \<longleftrightarrow> res_fits a m"
| "res_fits (RepeatRange a k) m \<longleftrightarrow> res_fits a m"

lemma res_fits_cap: "wf_expr e \<Longrightarrow> 0 < m \<Longrightarrow> res_fits e m \<Longrightarrow> m \<le> kResidueModulusCap"
proof (induction e arbitrary: m)
  case (Pad a k)
  have "0 < lcm k m" using Pad.prems by (auto intro: lcm_pos_int)
  moreover have "m \<le> lcm k m" using calculation by (intro zdvd_imp_le) auto
  ultimately show ?case using Pad.IH [of "lcm k m"] Pad.prems by simp
qed auto

definition ctx_fits :: "heap \<Rightarrow> res_ctx \<Rightarrow> bool" where
  "ctx_fits h c \<longleftrightarrow> 0 < snd c \<and> (\<exists>e. denotes h (fst c) e \<and> res_fits e (snd c))"

lemma ctx_fits_step:
  assumes ok: "heap_ok h" and f: "ctx_fits h c"
  shows "snd c \<le> kResidueModulusCap" "ctx_next h c \<noteq> None" "\<And>d. d \<in> set (ctx_succ h c) \<Longrightarrow> ctx_fits h d"
proof -
  obtain e where e: "denotes h (fst c) e" "res_fits e (snd c)" "0 < snd c" using f by (auto simp: ctx_fits_def)
  have w: "wf_expr e" by (rule denotes_wf [OF e(1) ok])
  show "snd c \<le> kResidueModulusCap" by (rule res_fits_cap [OF w e(3,2)])
  have all: "ctx_next h c \<noteq> None \<and> (\<forall>d\<in>set (ctx_succ h c). ctx_fits h d)"
    using e(1)
  proof (cases rule: denotes.cases)
    case (Pad l a)
    let ?w = "lcm (param (h ! fst c)) (snd c)"
    have p: "wf_expr a" "0 < param (h ! fst c)" "max 1 (param (h ! fst c)) = param (h ! fst c)" using w Pad by auto
    have pos: "0 < ?w" using p(2) e(3) by (intro lcm_pos_int) auto
    have l: "0 < ?w" "?w \<le> kResidueModulusCap"
      using e(2) Pad(1) res_fits_cap [OF p(1) pos] pos by simp_all
    then have "lcmAtMost (param (h ! fst c)) (snd c) kResidueModulusCap = Some ?w"
      using p(2) e(3) by (simp add: lcmAtMost_Some kResidueModulusCap_def)
    then show ?thesis using Pad p e l by (auto simp: ctx_succ_def ctx_next_def ctx_fits_def Let_def)
  qed (use e in \<open>auto simp: ctx_succ_def ctx_next_def ctx_fits_def Let_def\<close>)
  show "ctx_next h c \<noteq> None" "\<And>d. d \<in> set (ctx_succ h c) \<Longrightarrow> ctx_fits h d" using all by auto
qed

lemma ctx_fits_reach:
  assumes "heap_ok h" "ctx_fits h root" "ctx_reach h root c"
  shows "ctx_fits h c"
  using assms(3)
proof (induction rule: rtranclp_induct)
  case (step b c)
  then show ?case using ctx_fits_step(3) [OF assms(1)] by blast
qed (rule assms(2))

subsection \<open>The evaluation computes the remainders\<close>

lemma mod_ksum: "(\<lambda>z. z mod m) ` ksum k ((\<lambda>z. z mod m) ` A) = (\<lambda>z. z mod (m::int)) ` ksum k A"
proof (induction k)
  case (Suc k)
  let ?f = "\<lambda>z. z mod m"
  have idem: "?f ` ?f ` A = ?f ` A" by (simp add: image_image)
  have "?f ` msum (ksum k (?f ` A)) (?f ` A) = ?f ` msum (?f ` ksum k (?f ` A)) (?f ` ?f ` A)" by (rule mod_msum [symmetric])
  also have "\<dots> = ?f ` msum (?f ` ksum k A) (?f ` A)" unfolding Suc idem ..
  also have "\<dots> = ?f ` msum (ksum k A) A" by (rule mod_msum)
  finally show ?case by simp
qed simp

lemma mod_ksum_upto: "(\<lambda>z. z mod m) ` ksum_upto k ((\<lambda>z. z mod m) ` A) = (\<lambda>z. z mod (m::int)) ` ksum_upto k A"
  by (simp add: ksum_upto_def image_UN mod_ksum)

lemma pad_residue_round_up:
  assumes "0 < a" "0 < m" "a dvd w" "m dvd w"
  shows "0 < w \<Longrightarrow> pad_residue a m (v mod w) = round_up v a mod m"
proof -
  assume w: "0 < w"
  have r: "0 \<le> v mod w" using w by simp
  have am: "(v mod w) mod a = v mod a" "(v mod w) mod m = v mod m" using assms(3,4) by (simp_all add: mod_mod_cancel)
  have "pad_residue a m (v mod w) = round_up (v mod w) a smod m"
    using r assms(1) by (simp add: pad_residue_def smod_eq_mod round_up_eq_if)
  also have "\<dots> = round_up (v mod w) a mod m"
    using r round_up_ge [OF assms(1), of "v mod w"] assms(2) by (intro smod_eq_mod) auto
  also have "\<dots> = (v mod w + (- (v mod w)) mod a) mod m" by (simp add: round_up_def)
  also have "(- (v mod w)) mod a = (- v) mod a" using am(1) by (metis mod_minus_eq)
  also have "(v mod w + (- v) mod a) mod m = (v + (- v) mod a) mod m" using am(2) by (metis mod_add_left_eq)
  finally show ?thesis by (simp add: round_up_def)
qed

definition mask_of :: "residue_set \<Rightarrow> int \<Rightarrow> int set \<Rightarrow> bool" where
  "mask_of s m A \<longleftrightarrow> mask_ok s \<and> modulus s = m \<and> residues s = (\<lambda>v. v mod m) ` A"

definition ctx_good :: "heap \<Rightarrow> res_ctx \<Rightarrow> residue_set \<Rightarrow> bool" where
  "ctx_good h c rs \<longleftrightarrow> (\<exists>e. denotes h (fst c) e \<and> mask_of rs (snd c) (lengths e))"

lemma mask_of_union_new: "mask_of s m A \<Longrightarrow> 0 < m \<Longrightarrow> mask_of (unionWith (new_residue_set m) s) m A"
  using unionWith_ok [of "new_residue_set m" s] new_residue_set_ok [of m] by (simp add: mask_of_def)

lemma mask_of_union: "mask_of s m A \<Longrightarrow> mask_of t m B \<Longrightarrow> mask_of (unionWith s t) m (A \<union> B)"
  using unionWith_ok [of s t] by (auto simp: mask_of_def image_Un)

lemma mask_of_sum: "mask_of s m A \<Longrightarrow> mask_of t m B \<Longrightarrow> mask_of (minkowskiSumMod s t) m (msum A B)"
  using minkowskiSumMod_ok [of s t] mod_msum [of m A B] by (simp add: mask_of_def)

lemma mask_of_exactly: "mask_of s m A \<Longrightarrow> mask_of (exactlyKSumMod s k m) m (ksum (nat k) A)"
  using exactlyKSumMod_ok [of s k] mod_ksum [of m "nat k" A] by (auto simp: mask_of_def)

lemma mask_of_upto: "mask_of s m A \<Longrightarrow> mask_of (unionUpToKSumMod s k m) m (ksum_upto (nat k) A)"
  using unionUpToKSumMod_ok [of s k] mod_ksum_upto [of m "nat k" A] by (auto simp: mask_of_def)

lemma mask_of_leaf: "0 < m \<Longrightarrow> mask_of (fold (\<lambda>v. add_residue (euclideanModulo v m)) vs (new_residue_set m)) m (set vs)"
  using fold_add_residue [of "new_residue_set m" vs "\<lambda>v. euclideanModulo v m"] new_residue_set_ok [of m]
  by (simp add: mask_of_def euclideanModulo_mod)

lemma mask_of_pad:
  assumes s: "mask_of s (lcm a m) A" and pos: "0 < a" "0 < m"
  shows "mask_of (fold (\<lambda>r. add_residue (pad_residue a m r)) (residue_list s) (new_residue_set m)) m ((\<lambda>v. round_up v a) ` A)"
proof -
  have w: "0 < lcm a m" using pos by (auto intro: lcm_pos_int)
  have p: "pad_residue a m (v mod lcm a m) = round_up v a mod m" for v
    using pad_residue_round_up [OF pos, of "lcm a m" v] w by simp
  have set: "set (residue_list s) = (\<lambda>v. v mod lcm a m) ` A" using s residue_list_ok(2) [of s] by (simp add: mask_of_def)
  have "pad_residue a m ` set (residue_list s) = (\<lambda>v. v mod m) ` (\<lambda>v. round_up v a) ` A"
    unfolding set image_image p ..
  moreover have "\<forall>r\<in>set (residue_list s). 0 \<le> pad_residue a m r \<and> pad_residue a m r < m"
    unfolding set using p pos(2) by auto
  ultimately show ?thesis
    using fold_add_residue [of "new_residue_set m" "residue_list s" "pad_residue a m"] new_residue_set_ok [OF pos(2)]
    by (simp add: mask_of_def)
qed

lemma residue_step_good:
  assumes ok: "heap_ok h" and rng: "fst c < length h" and m: "0 < snd c" and n: "ctx_next h c \<noteq> None"
    and kids: "\<forall>d\<in>set (ctx_succ h c). \<exists>rs. memo d = Some rs \<and> ctx_good h d rs"
  shows "\<exists>rs. residue_step (h ! fst c) (snd c) memo = Some rs \<and> ctx_good h c rs"
proof -
  obtain e where e: "denotes h (fst c) e" using denotes_exists [OF ok rng] by blast
  have w: "wf_expr e" by (rule denotes_wf [OF e ok])
  have kid: "\<exists>rs. memo (l, k) = Some rs \<and> mask_of rs k (lengths a)" if "(l, k) \<in> set (ctx_succ h c)" "denotes h l a" for l k a
  proof -
    note l = that(2) and kid = bspec [OF kids that(1)]
    obtain rs where rs: "memo (l, k) = Some rs" "ctx_good h (l, k) rs" using kid by auto
    then obtain e' where "denotes h l e'" "mask_of rs k (lengths e')" by (auto simp: ctx_good_def)
    then show ?thesis using denotes_unique [OF l, of e'] rs(1) by simp
  qed
  from e have "\<exists>rs. residue_step (h ! fst c) (snd c) memo = Some rs \<and> mask_of rs (snd c) (lengths e)"
  proof (cases rule: denotes.cases)
    case Leaf
    then show ?thesis using w mask_of_leaf [OF m, of "vals (h ! fst c)"] by (simp add: residue_step_def Let_def)
  next
    case (Add l r a b)
    obtain x y where "memo (l, snd c) = Some x" "mask_of x (snd c) (lengths a)"
      "memo (r, snd c) = Some y" "mask_of y (snd c) (lengths b)"
      using kid [of l "snd c" a] kid [of r "snd c" b] Add by (auto simp: ctx_succ_def ctx_next_def Let_def)
    then show ?thesis using Add mask_of_sum by (simp add: residue_step_def ctx_memo_def Let_def)
  next
    case (Unite l r a b)
    obtain x y where "memo (l, snd c) = Some x" "mask_of x (snd c) (lengths a)"
      "memo (r, snd c) = Some y" "mask_of y (snd c) (lengths b)"
      using kid [of l "snd c" a] kid [of r "snd c" b] Unite by (auto simp: ctx_succ_def ctx_next_def Let_def)
    then show ?thesis using Unite mask_of_union mask_of_union_new [OF _ m] by (simp add: residue_step_def ctx_memo_def Let_def)
  next
    case (Pad l a)
    have p: "0 < param (h ! fst c)" "max 1 (param (h ! fst c)) = param (h ! fst c)" using w Pad by auto
    obtain wd where l: "lcmAtMost (param (h ! fst c)) (snd c) kResidueModulusCap = Some wd"
      using n Pad p by (auto simp: ctx_next_def Let_def split: option.splits)
    then have wd: "wd = lcm (param (h ! fst c)) (snd c)" by (simp add: lcmAtMost_Some)
    obtain x where "memo (l, wd) = Some x" "mask_of x wd (lengths a)"
      using kid [of l wd a] Pad p l by (auto simp: ctx_succ_def ctx_next_def Let_def)
    then show ?thesis using Pad p l mask_of_pad [OF _ p(1) m, of x "lengths a"]
      by (simp add: residue_step_def ctx_memo_def Let_def wd)
  next
    case (Repeat l a)
    obtain x where "memo (l, snd c) = Some x" "mask_of x (snd c) (lengths a)"
      using kid [of l "snd c" a] Repeat by (auto simp: ctx_succ_def ctx_next_def Let_def)
    moreover have "max 0 (param (h ! fst c)) = param (h ! fst c)" using w Repeat by simp
    ultimately show ?thesis using Repeat mask_of_union_new [OF mask_of_exactly m] by (simp add: residue_step_def ctx_memo_def Let_def)
  next
    case (RepeatRange l a)
    obtain x where "memo (l, snd c) = Some x" "mask_of x (snd c) (lengths a)"
      using kid [of l "snd c" a] RepeatRange by (auto simp: ctx_succ_def ctx_next_def Let_def)
    moreover have "max 0 (param (h ! fst c)) = param (h ! fst c)" using w RepeatRange by simp
    ultimately show ?thesis using RepeatRange mask_of_union_new [OF mask_of_upto m] by (simp add: residue_step_def ctx_memo_def Let_def)
  qed
  then show ?thesis using e by (auto simp: ctx_good_def)
qed

lemma eval_contexts_good:
  assumes ok: "heap_ok h" and "closed_from (ctx_succ h) A cs"
    and "\<forall>c\<in>set cs. fst c < length h \<and> 0 < snd c \<and> ctx_next h c \<noteq> None"
    and "\<forall>c\<in>A. \<exists>rs. memo c = Some rs \<and> ctx_good h c rs"
  shows "\<exists>memo'. eval_contexts h cs memo = Some memo' \<and> (\<forall>c\<in>A \<union> set cs. \<exists>rs. memo' c = Some rs \<and> ctx_good h c rs)"
  using assms(2-4)
proof (induction cs arbitrary: A memo)
  case (Cons c cs)
  have "\<forall>d\<in>set (ctx_succ h c). \<exists>rs. memo d = Some rs \<and> ctx_good h d rs" using Cons.prems(1,3) by auto
  then obtain rs where rs: "residue_step (h ! fst c) (snd c) memo = Some rs" "ctx_good h c rs"
    using residue_step_good [OF ok, of c memo] Cons.prems(2) by auto
  have "\<forall>d\<in>insert c A. \<exists>rs'. (memo(c \<mapsto> rs)) d = Some rs' \<and> ctx_good h d rs'" using Cons.prems(3) rs(2) by simp
  moreover have "closed_from (ctx_succ h) (insert c A) cs"
    "\<forall>c\<in>set cs. fst c < length h \<and> 0 < snd c \<and> ctx_next h c \<noteq> None" using Cons.prems(1,2) by simp_all
  ultimately obtain memo' where "eval_contexts h cs (memo(c \<mapsto> rs)) = Some memo'"
    "\<forall>d\<in>insert c A \<union> set cs. \<exists>rs. memo' d = Some rs \<and> ctx_good h d rs"
    using Cons.IH [of "insert c A" "memo(c \<mapsto> rs)"] by blast
  then show ?case using rs(1) by (simp del: fun_upd_apply)
qed auto

theorem node_residues_good:
  assumes ok: "heap_ok h" and d: "denotes h p e" and m: "0 < m" and out: "mask_of out m B"
  shows "\<exists>b out'. node_residues h p m out = Some (b, out') \<and> (\<not> b \<longrightarrow> out' = out) \<and>
    (b \<longrightarrow> \<not> int64_max < greatest e \<and> mask_of out' m (B \<union> lengths e)) \<and>
    (\<not> int64_max < greatest e \<and> res_fits e m \<longrightarrow> b)"
proof (cases "int64_max < greatest e")
  case True
  then show ?thesis using saturationReachable_exact [OF ok d] by (auto simp: node_residues_def)
next
  case False
  note sat = saturationReachable_exact [OF ok d]
  have root: "fst (p, m) < length h" "0 < snd (p, m)" using denotes_in_heap [OF d] m by simp_all
  show ?thesis
  proof (cases "discover h [((p, m), False)] {} []")
    case None
    have "\<not> res_fits e m"
    proof
      assume "res_fits e m"
      then have f: "ctx_fits h (p, m)" using d m by (auto simp: ctx_fits_def)
      have "discover h [((p, m), False)] {} [] \<noteq> None"
        using ctx_fits_step(1,2) [OF ok ctx_fits_reach [OF ok f]]
        by (intro discover_succeeds [OF ok root dfs_inv_start]) blast
      then show False using None by simp
    qed
    moreover have "node_residues h p m out = Some (False, out)"
      using None sat False by (simp add: node_residues_def del: discover.simps)
    ultimately show ?thesis using False by auto
  next
    case (Some order)
    obtain seen where D: "dfs_inv (ctx_succ h) fst (p, m) [] seen order" "\<forall>c\<in>set order. ctx_next h c \<noteq> None"
      using discover_inv [OF ok root dfs_inv_start _ Some] by auto
    note E = dfs_inv_end [OF D(1)]
    have "\<forall>c\<in>set order. fst c < length h \<and> 0 < snd c \<and> ctx_next h c \<noteq> None"
      using D(2) E(4) ctx_reach_in_range [OF ok root] by blast
    then obtain memo where memo: "eval_contexts h order Map.empty = Some memo"
      "\<forall>c\<in>{} \<union> set order. \<exists>rs. memo c = Some rs \<and> ctx_good h c rs"
      using eval_contexts_good [OF ok E(2), of Map.empty] by blast
    then obtain rs where rs: "memo (p, m) = Some rs" "ctx_good h (p, m) rs" using E(3) by blast
    then have "mask_of rs m (lengths e)" using denotes_unique [OF d] by (auto simp: ctx_good_def)
    then have "mask_of (unionWith out rs) m (B \<union> lengths e)" by (rule mask_of_union [OF out])
    moreover have "node_residues h p m out = Some (True, unionWith out rs)"
      using Some memo(1) rs(1) sat False by (simp add: node_residues_def del: discover.simps)
    ultimately show ?thesis using False by auto
  qed
qed

end
