(* ===== verification/BitLengthSet.thy ===== *)
theory BitLengthSet
  imports RunRepeat BitLengthWindow BitLengthResidues
begin

text \<open>
  The class \<^verbatim>\<open>BitLengthSet\<close> of \<^verbatim>\<open>lib/Semantics/BitLengthSet.cpp\<close>: objects that point into the shared
  node graph and cache their run set, the constructors and operators that allocate nodes, and the
  queries that combine the symbolic residues, the run sets and the bounded expansion. The store
  holds the nodes and the lazily created shared leaf. The theorems show that every operation builds
  the documented set and keeps the store and all other objects, that the cache is never observable,
  and that \<^verbatim>\<open>modulo\<close>, \<^verbatim>\<open>is_aligned_at\<close>, \<^verbatim>\<open>equalsExact\<close> and \<^verbatim>\<open>isSubsetOfExact\<close> answer exactly or
  refuse.
\<close>

subsection \<open>Store and objects\<close>

record store =
  nodes :: heap
  zero_leaf :: "nat option"

record bit_length_set =
  root :: nat
  runSetCache :: "run_set option option"

definition leaf_node :: "int list \<Rightarrow> node" where
  "leaf_node vs = \<lparr>kind = KLeaf, vals = vs, lhs = None, rhs = None, param = 0\<rparr>"

definition make_node :: "node \<Rightarrow> store \<Rightarrow> bit_length_set \<times> store" where
  "make_node n s = (\<lparr>root = length (nodes s), runSetCache = None\<rparr>, s\<lparr>nodes := nodes s @ [n]\<rparr>)"

definition zeroLeaf :: "store \<Rightarrow> nat \<times> store" where
  "zeroLeaf s =
     (case zero_leaf s of
        Some p \<Rightarrow> (p, s)
      | None \<Rightarrow> (length (nodes s), s\<lparr>nodes := nodes s @ [leaf_node [0]], zero_leaf := Some (length (nodes s))\<rparr>))"

subsection \<open>Constructors and operators\<close>

definition bls_default :: "store \<Rightarrow> bit_length_set \<times> store" where
  "bls_default s = (let (p, s') = zeroLeaf s in (\<lparr>root = p, runSetCache = None\<rparr>, s'))"

text \<open>The argument is the ascending sequence of the \<^verbatim>\<open>std::set\<close>.\<close>

definition bls_of_values :: "int list \<Rightarrow> store \<Rightarrow> bit_length_set \<times> store" where
  "bls_of_values vs s =
     (let values = flat_of_list (map (\<lambda>v. if v < 0 then 0 else v) vs)
      in make_node (leaf_node (if values = [] then flat_add 0 values else values)) s)"

definition bls_of_value :: "int \<Rightarrow> store \<Rightarrow> bit_length_set \<times> store" where
  "bls_of_value v s = bls_of_values [v] s"

text \<open>The new object, the source as the move leaves it, and the store.\<close>

definition bls_move :: "bit_length_set \<Rightarrow> store \<Rightarrow> bit_length_set \<times> bit_length_set \<times> store" where
  "bls_move other s = (let (p, s') = zeroLeaf s in (other, \<lparr>root = p, runSetCache = None\<rparr>, s'))"

text \<open>Assignment of a moved object; \<open>self\<close> tells whether source and target are the same object.\<close>

definition bls_move_assign :: "bool \<Rightarrow> bit_length_set \<Rightarrow> bit_length_set \<Rightarrow> store \<Rightarrow> bit_length_set \<times> bit_length_set \<times> store" where
  "bls_move_assign self this other s = (if self then (this, this, s) else bls_move other s)"

definition padToAlignment :: "bit_length_set \<Rightarrow> int \<Rightarrow> store \<Rightarrow> bit_length_set \<times> store" where
  "padToAlignment b alignment s =
     make_node \<lparr>kind = KPad, vals = [], lhs = Some (root b), rhs = None, param = max 1 alignment\<rparr> s"

definition bls_repeat :: "bit_length_set \<Rightarrow> int \<Rightarrow> store \<Rightarrow> bit_length_set \<times> store" where
  "bls_repeat b cnt s =
     make_node \<lparr>kind = KRepeat, vals = [], lhs = Some (root b), rhs = None, param = max 0 cnt\<rparr> s"

definition bls_repeatRange :: "bit_length_set \<Rightarrow> int \<Rightarrow> store \<Rightarrow> bit_length_set \<times> store" where
  "bls_repeatRange b countMax s =
     make_node \<lparr>kind = KRepeatRange, vals = [], lhs = Some (root b), rhs = None, param = max 0 countMax\<rparr> s"

definition bls_plus :: "bit_length_set \<Rightarrow> bit_length_set \<Rightarrow> store \<Rightarrow> bit_length_set \<times> store" where
  "bls_plus a b s = make_node \<lparr>kind = KAdd, vals = [], lhs = Some (root a), rhs = Some (root b), param = 0\<rparr> s"

definition bls_or :: "bit_length_set \<Rightarrow> bit_length_set \<Rightarrow> store \<Rightarrow> bit_length_set \<times> store" where
  "bls_or a b s = make_node \<lparr>kind = KUnion, vals = [], lhs = Some (root a), rhs = Some (root b), param = 0\<rparr> s"

subsection \<open>Bounds, run sets and expansion\<close>

definition bls_min :: "store \<Rightarrow> bit_length_set \<Rightarrow> int option" where
  "bls_min s b = node_min (nodes s) (root b)"

definition bls_max :: "store \<Rightarrow> bit_length_set \<Rightarrow> int option" where
  "bls_max s b = node_max (nodes s) (root b)"

definition bls_fixed :: "store \<Rightarrow> bit_length_set \<Rightarrow> bool option" where
  "bls_fixed s b =
     (case (bls_min s b, bls_max s b) of (Some lo, Some hi) \<Rightarrow> Some (lo = hi) | _ \<Rightarrow> None)"

definition runset_step :: "node \<Rightarrow> (nat \<rightharpoonup> run_set option) \<Rightarrow> run_set option option" where
  "runset_step n memo =
     (case kind n of
        KLeaf \<Rightarrow> Some (Some (fromValues (vals n)))
      | KAdd \<Rightarrow>
          (case (memo_at memo (lhs n), memo_at memo (rhs n)) of
             (Some l, Some r) \<Rightarrow> Some (case (l, r) of (Some a, Some b) \<Rightarrow> rs_sum a b | _ \<Rightarrow> None)
           | _ \<Rightarrow> None)
      | KUnion \<Rightarrow>
          (case (memo_at memo (lhs n), memo_at memo (rhs n)) of
             (Some l, Some r) \<Rightarrow> Some (case (l, r) of (Some a, Some b) \<Rightarrow> unite a b | _ \<Rightarrow> None)
           | _ \<Rightarrow> None)
      | KPad \<Rightarrow>
          map_option (\<lambda>l. case l of None \<Rightarrow> None | Some a \<Rightarrow> paddedTo a (max 1 (param n))) (memo_at memo (lhs n))
      | KRepeat \<Rightarrow>
          map_option (\<lambda>l. case l of None \<Rightarrow> None | Some a \<Rightarrow> repeated a (max 0 (param n))) (memo_at memo (lhs n))
      | KRepeatRange \<Rightarrow>
          map_option (\<lambda>l. case l of None \<Rightarrow> None | Some a \<Rightarrow> repeatRange a (max 0 (param n))) (memo_at memo (lhs n)))"

text \<open>The answer and the object with its cache as the call leaves it; the outer option is an exception.\<close>

definition bls_runSet :: "store \<Rightarrow> bit_length_set \<Rightarrow> (run_set option \<times> bit_length_set) option" where
  "bls_runSet s b =
     (case runSetCache b of
        Some v \<Rightarrow> Some (v, b)
      | None \<Rightarrow> map_option (\<lambda>v. (v, b\<lparr>runSetCache := Some v\<rparr>)) (evaluate runset_step (nodes s) (root b)))"

definition kExpandLimit :: nat where "kExpandLimit = 16384"

definition bls_expandChecked :: "store \<Rightarrow> bit_length_set \<Rightarrow> nat \<Rightarrow> expansion option" where
  "bls_expandChecked s b limit = node_expandChecked (nodes s) (root b) limit"

definition bls_expand :: "store \<Rightarrow> bit_length_set \<Rightarrow> nat \<Rightarrow> int list option" where
  "bls_expand s b limit = map_option exp_values (bls_expandChecked s b limit)"

subsection \<open>Exact queries\<close>

text \<open>The residues of an exact expansion, the last strategy of \<^verbatim>\<open>modulo\<close>.\<close>

definition modulo_by_expansion :: "store \<Rightarrow> bit_length_set \<Rightarrow> int \<Rightarrow> (int list option \<times> bit_length_set) option" where
  "modulo_by_expansion s b divisor =
     map_option (\<lambda>x. (if exact x then Some (fold (\<lambda>v. flat_add (v smod divisor)) (exp_values x) []) else None, b))
       (bls_expandChecked s b kExpandLimit)"

definition modulo_by_runs :: "store \<Rightarrow> bit_length_set \<Rightarrow> int \<Rightarrow> (int list option \<times> bit_length_set) option" where
  "modulo_by_runs s b divisor =
     (case bls_runSet s b of
        None \<Rightarrow> None
      | Some (Some rs, b') \<Rightarrow>
          (case rs_residues rs divisor of
             Some res \<Rightarrow> Some (Some res, b')
           | None \<Rightarrow> modulo_by_expansion s b' divisor)
      | Some (None, b') \<Rightarrow> modulo_by_expansion s b' divisor)"

definition bls_modulo :: "store \<Rightarrow> bit_length_set \<Rightarrow> int \<Rightarrow> (int list option \<times> bit_length_set) option" where
  "bls_modulo s b divisor =
     (if divisor \<le> 0 then Some (Some [0], b)
      else if divisor = 1 then Some (Some [0], b)
      else if divisor \<le> kResidueModulusCap
      then (case node_residues (nodes s) (root b) divisor (new_residue_set divisor) of
              None \<Rightarrow> None
            | Some (True, msk) \<Rightarrow> Some (Some (residueSetToFlatSet msk), b)
            | Some (False, msk) \<Rightarrow> modulo_by_runs s b divisor)
      else modulo_by_runs s b divisor)"

definition is_aligned_at :: "store \<Rightarrow> bit_length_set \<Rightarrow> int \<Rightarrow> (bool option \<times> bit_length_set) option" where
  "is_aligned_at s b alignment =
     (if alignment < 1 then Some (Some True, b)
      else map_option (\<lambda>(r, b'). (map_option (\<lambda>res. length res = 1 \<and> hd res = 0) r, b')) (bls_modulo s b alignment))"

text \<open>
  The comparisons: \<open>on_runs\<close> compares two run sets and \<open>on_values\<close> two exact expansions. The result
  carries both objects, whose caches the call may fill.
\<close>

definition compare_exact ::
  "(run_set \<Rightarrow> run_set \<Rightarrow> bool) \<Rightarrow> (int list \<Rightarrow> int list \<Rightarrow> bool) \<Rightarrow> store \<Rightarrow> bit_length_set \<Rightarrow> bit_length_set \<Rightarrow>
    (bool option \<times> bit_length_set \<times> bit_length_set) option" where
  "compare_exact on_runs on_values s a b =
     (case bls_runSet s a of
        None \<Rightarrow> None
      | Some (ra, a') \<Rightarrow>
     (case bls_runSet s b of
        None \<Rightarrow> None
      | Some (rb, b') \<Rightarrow>
          (case (ra, rb) of
             (Some x, Some y) \<Rightarrow> Some (Some (on_runs x y), a', b')
           | _ \<Rightarrow>
               (case (bls_expandChecked s a' kExpandLimit, bls_expandChecked s b' kExpandLimit) of
                  (Some xa, Some xb) \<Rightarrow>
                    Some (if exact xa \<and> exact xb then Some (on_values (exp_values xa) (exp_values xb)) else None, a', b')
                | _ \<Rightarrow> None))))"

definition equalsExact :: "store \<Rightarrow> bit_length_set \<Rightarrow> bit_length_set \<Rightarrow> (bool option \<times> bit_length_set \<times> bit_length_set) option" where
  "equalsExact s a b =
     (if root a = root b then Some (Some True, a, b)
      else case (bls_min s a, bls_min s b, bls_max s a, bls_max s b) of
             (Some la, Some lb, Some ha, Some hb) \<Rightarrow>
               if la \<noteq> lb \<or> ha \<noteq> hb then Some (Some False, a, b)
               else compare_exact rs_equals flat_eq s a b
           | _ \<Rightarrow> None)"

text \<open>\<^verbatim>\<open>std::ranges::includes\<close> on ascending sequences.\<close>

fun ranges_includes :: "int list \<Rightarrow> int list \<Rightarrow> bool" where
  "ranges_includes xs [] \<longleftrightarrow> True"
| "ranges_includes [] (y # ys) \<longleftrightarrow> False"
| "ranges_includes (x # xs) (y # ys) \<longleftrightarrow>
     (if y < x then False else if x < y then ranges_includes xs (y # ys) else ranges_includes xs ys)"

definition isSubsetOfExact :: "store \<Rightarrow> bit_length_set \<Rightarrow> bit_length_set \<Rightarrow> (bool option \<times> bit_length_set \<times> bit_length_set) option" where
  "isSubsetOfExact s a b =
     (if root a = root b then Some (Some True, a, b)
      else case (bls_min s a, bls_min s b, bls_max s a, bls_max s b) of
             (Some la, Some lb, Some ha, Some hb) \<Rightarrow>
               if la < lb \<or> hb < ha then Some (Some False, a, b)
               else compare_exact rs_isSubsetOf (\<lambda>xs ys. ranges_includes ys xs) s a b
           | _ \<Rightarrow> None)"

subsection \<open>Invariants of the store and of the objects\<close>

definition store_ok :: "store \<Rightarrow> bool" where
  "store_ok s \<longleftrightarrow> heap_ok (nodes s) \<and>
     (\<forall>z. zero_leaf s = Some z \<longrightarrow> z < length (nodes s) \<and> nodes s ! z = leaf_node [0])"

definition run_good :: "bl_expr \<Rightarrow> run_set option \<Rightarrow> bool" where
  "run_good e v \<longleftrightarrow> (\<forall>rs. v = Some rs \<longrightarrow> rs_ok rs \<and> runs_set rs = lengths e)"

abbreviation bls_denotes :: "store \<Rightarrow> bit_length_set \<Rightarrow> bl_expr \<Rightarrow> bool" where
  "bls_denotes s b e \<equiv> denotes (nodes s) (root b) e"

text \<open>A filled cache is what the evaluation of the current root may return.\<close>

definition obj_ok :: "store \<Rightarrow> bit_length_set \<Rightarrow> bool" where
  "obj_ok s b \<longleftrightarrow> (\<exists>e. bls_denotes s b e \<and> (\<forall>v. runSetCache b = Some v \<longrightarrow> run_good e v))"

text \<open>The set that an object stands for.\<close>

definition bls_set :: "store \<Rightarrow> bit_length_set \<Rightarrow> int set \<Rightarrow> bool" where
  "bls_set s b A \<longleftrightarrow> (\<exists>e. bls_denotes s b e \<and> A = clamped e)"

definition extends :: "store \<Rightarrow> store \<Rightarrow> bool" where
  "extends s s' \<longleftrightarrow> (\<exists>ns. nodes s' = nodes s @ ns)"

lemma extends_denotes: "extends s s' \<Longrightarrow> bls_denotes s b e \<Longrightarrow> bls_denotes s' b e"
  using denotes_append by (auto simp: extends_def)

lemma extends_obj: "extends s s' \<Longrightarrow> obj_ok s b \<Longrightarrow> obj_ok s' b"
  unfolding obj_ok_def by (blast intro: extends_denotes)

lemma extends_set: "extends s s' \<Longrightarrow> bls_set s b A \<Longrightarrow> bls_set s' b A"
  unfolding bls_set_def by (blast intro: extends_denotes)

lemma obj_denotes:
  assumes "obj_ok s b"
  obtains e where "bls_denotes s b e" "\<And>v. runSetCache b = Some v \<Longrightarrow> run_good e v"
  using assms by (auto simp: obj_ok_def)

lemma bls_set_denotes: "bls_set s b A \<Longrightarrow> bls_denotes s b e \<Longrightarrow> A = clamped e"
  using denotes_unique by (auto simp: bls_set_def)

lemma fresh_obj: "bls_denotes s b e \<Longrightarrow> runSetCache b = None \<Longrightarrow> obj_ok s b"
  by (auto simp: obj_ok_def)

text \<open>Allocation keeps the store.\<close>

lemma append_node_ok:
  assumes "heap_ok h" "node_ok (length h) n"
  shows "heap_ok (h @ [n])"
  using assms by (auto simp: heap_ok_def nth_append less_Suc_eq)

lemma make_node_ok:
  assumes "make_node n s = (c, s')" "store_ok s" "node_ok (length (nodes s)) n"
  shows "store_ok s'" "extends s s'" "root c < length (nodes s')" "nodes s' ! root c = n" "runSetCache c = None"
  using assms append_node_ok [of "nodes s" n] by (auto simp: make_node_def store_ok_def extends_def nth_append)

lemma leaf_node_ok: "wf_expr (Leaf vs) \<Longrightarrow> node_ok p (leaf_node vs)"
  by (auto simp: node_ok_def leaf_node_def children_def)

lemma denotes_leaf_node: "p < length h \<Longrightarrow> h ! p = leaf_node vs \<Longrightarrow> denotes h p (Leaf vs)"
  using denotes.Leaf [of p h] by (simp add: leaf_node_def)

lemma zeroLeaf_ok:
  assumes "zeroLeaf s = (p, s')" "store_ok s"
  shows "store_ok s' \<and> extends s s' \<and> denotes (nodes s') p (Leaf [0])"
proof (cases "zero_leaf s")
  case (Some z)
  then show ?thesis using assms denotes_leaf_node by (auto simp: zeroLeaf_def store_ok_def extends_def)
next
  case None
  have w: "wf_expr (Leaf [0])" by simp
  have "heap_ok (nodes s @ [leaf_node [0]])" using assms(2) leaf_node_ok [OF w] by (intro append_node_ok) (auto simp: store_ok_def)
  then show ?thesis using None assms by (auto simp: zeroLeaf_def store_ok_def extends_def intro!: denotes_leaf_node)
qed

subsection \<open>Every operation builds the documented set\<close>

text \<open>
  What an operation promises: the store stays well-formed, old objects keep their meaning because
  nodes are only added, and the new object stands for the documented set.
\<close>

definition builds :: "store \<Rightarrow> store \<Rightarrow> bit_length_set \<Rightarrow> int set \<Rightarrow> bool" where
  "builds s s' c A \<longleftrightarrow> store_ok s' \<and> extends s s' \<and> obj_ok s' c \<and> bls_set s' c A"

lemma buildsI:
  "store_ok s' \<Longrightarrow> extends s s' \<Longrightarrow> bls_denotes s' c e \<Longrightarrow> runSetCache c = None \<Longrightarrow> A = clamped e \<Longrightarrow> builds s s' c A"
  by (auto simp: builds_def bls_set_def intro: fresh_obj)

lemma leaf_clamped: "wf_expr (Leaf vs) \<Longrightarrow> clamped (Leaf vs) = set vs"
  by (auto simp: clamped_def clamp_def i64_def)

lemma default_builds: "bls_default s = (c, s') \<Longrightarrow> store_ok s \<Longrightarrow> builds s s' c {0}"
  using zeroLeaf_ok [of s] leaf_clamped [of "[0]"]
  by (auto simp: bls_default_def intro!: buildsI [where e = "Leaf [0]"] split: prod.splits)

lemma flat_of_list_Nil: "flat_of_list xs = [] \<longleftrightarrow> xs = []"
proof -
  have "flat_of_list xs = [] \<longleftrightarrow> set (flat_of_list xs) = {}" by (simp del: set_flat_of_list)
  then show ?thesis by simp
qed

lemma of_values_builds:
  assumes "bls_of_values vs s = (c, s')" "store_ok s" "\<forall>v\<in>set vs. i64 v"
  shows "builds s s' c (if vs = [] then {0} else max 0 ` set vs)"
proof -
  let ?m = "map (\<lambda>v. if v < 0 then 0 else v) vs"
  let ?vs = "if flat_of_list ?m = [] then flat_add 0 (flat_of_list ?m) else flat_of_list ?m"
  have e: "?m = [] \<longleftrightarrow> vs = []" by simp
  have m: "set ?m = max 0 ` set vs" unfolding set_map by (intro image_cong) auto
  have set: "set ?vs = (if vs = [] then {0} else max 0 ` set vs)"
  proof (cases "vs = []")
    case True
    then show ?thesis using set_flat_insert [of "[]" "0 :: int"] by (simp add: flat_of_list_Nil flat_of_list_def sortAndUnique_def)
  next
    case False
    then show ?thesis unfolding flat_of_list_Nil e using m by simp
  qed
  have "\<forall>v\<in>set ?vs. 0 \<le> v \<and> i64 v" unfolding set using assms(3) by (auto simp: max_def)
  moreover have "flat_ok ?vs" using flat_insert_ok [of "flat_of_list ?m" 0] flat_insert_ok [of "[]" "0 :: int"] by simp
  moreover have "?vs \<noteq> []"
  proof -
    have "set ?vs \<noteq> {}" unfolding set by simp
    then show ?thesis by (simp only: set_empty simp_thms)
  qed
  ultimately have w: "wf_expr (Leaf ?vs)" by simp
  have mk: "make_node (leaf_node ?vs) s = (c, s')" using assms(1) by (simp add: bls_of_values_def Let_def)
  note M = make_node_ok [OF mk assms(2) leaf_node_ok [OF w]]
  show ?thesis
    using leaf_clamped [OF w] set by (intro buildsI [OF M(1,2) denotes_leaf_node [OF M(3,4)] M(5)]) simp
qed

lemma unary_builds:
  assumes mk: "make_node \<lparr>kind = k, vals = [], lhs = Some (root b), rhs = None, param = p\<rparr> s = (c, s')"
    and s: "store_ok s" and b: "bls_denotes s b a"
    and n: "node_ok (length (nodes s)) \<lparr>kind = k, vals = [], lhs = Some (root b), rhs = None, param = p\<rparr>"
  shows "store_ok s'" "extends s s'" "runSetCache c = None"
    "k = KPad \<Longrightarrow> bls_denotes s' c (Pad a p)" "k = KRepeat \<Longrightarrow> bls_denotes s' c (Repeat a p)"
    "k = KRepeatRange \<Longrightarrow> bls_denotes s' c (RepeatRange a p)"
proof -
  note M = make_node_ok [OF mk s n]
  note B = extends_denotes [OF M(2) b]
  show "store_ok s'" "extends s s'" "runSetCache c = None" by (rule M)+
  show "k = KPad \<Longrightarrow> bls_denotes s' c (Pad a p)" using denotes.Pad [OF M(3) _ _ B] M(4) by simp
  show "k = KRepeat \<Longrightarrow> bls_denotes s' c (Repeat a p)" using denotes.Repeat [OF M(3) _ _ B] M(4) by simp
  show "k = KRepeatRange \<Longrightarrow> bls_denotes s' c (RepeatRange a p)" using denotes.RepeatRange [OF M(3) _ _ B] M(4) by simp
qed

lemma child_in_store: "bls_denotes s b a \<Longrightarrow> root b < length (nodes s)"
  by (rule denotes_in_heap)

lemma node_wf: "store_ok s \<Longrightarrow> bls_denotes s b a \<Longrightarrow> wf_expr a"
  using denotes_wf by (auto simp: store_ok_def)

lemma pad_builds:
  assumes "padToAlignment b k s = (c, s')" "store_ok s" "bls_set s b A" "i64 k"
  shows "builds s s' c ((\<lambda>v. clamp (round_up v (max 1 k))) ` A)"
proof -
  obtain a where a: "bls_denotes s b a" "A = clamped a" using assms(3) by (auto simp: bls_set_def)
  have n: "node_ok (length (nodes s)) \<lparr>kind = KPad, vals = [], lhs = Some (root b), rhs = None, param = max 1 k\<rparr>"
    using child_in_store [OF a(1)] assms(4) by (auto simp: node_ok_def children_def max_def)
  note U = unary_builds [OF assms(1) [unfolded padToAlignment_def] assms(2) a(1) n]
  have "wf_expr (Pad a (max 1 k))" using node_wf [OF assms(2) a(1)] assms(4) by (auto simp: max_def)
  then show ?thesis using a(2) clamped_Pad by (intro buildsI [OF U(1,2) U(4) U(3)]) auto
qed

lemma repeat_builds:
  assumes "bls_repeat b k s = (c, s')" "store_ok s" "bls_set s b A" "i64 k"
  shows "builds s s' c (clamp ` ksum (nat k) A)"
proof -
  obtain a where a: "bls_denotes s b a" "A = clamped a" using assms(3) by (auto simp: bls_set_def)
  have n: "node_ok (length (nodes s)) \<lparr>kind = KRepeat, vals = [], lhs = Some (root b), rhs = None, param = max 0 k\<rparr>"
    using child_in_store [OF a(1)] assms(4) by (auto simp: node_ok_def children_def max_def)
  note U = unary_builds [OF assms(1) [unfolded bls_repeat_def] assms(2) a(1) n]
  have "wf_expr (Repeat a (max 0 k))" using node_wf [OF assms(2) a(1)] assms(4) by (auto simp: max_def)
  moreover have "nat (max 0 k) = nat k" by simp
  ultimately show ?thesis using a(2) clamped_Repeat [of a "max 0 k"] by (intro buildsI [OF U(1,2) U(5) U(3)]) auto
qed

lemma repeatRange_builds:
  assumes "bls_repeatRange b k s = (c, s')" "store_ok s" "bls_set s b A" "i64 k"
  shows "builds s s' c (clamp ` ksum_upto (nat k) A)"
proof -
  obtain a where a: "bls_denotes s b a" "A = clamped a" using assms(3) by (auto simp: bls_set_def)
  have n: "node_ok (length (nodes s)) \<lparr>kind = KRepeatRange, vals = [], lhs = Some (root b), rhs = None, param = max 0 k\<rparr>"
    using child_in_store [OF a(1)] assms(4) by (auto simp: node_ok_def children_def max_def)
  note U = unary_builds [OF assms(1) [unfolded bls_repeatRange_def] assms(2) a(1) n]
  have "wf_expr (RepeatRange a (max 0 k))" using node_wf [OF assms(2) a(1)] assms(4) by (auto simp: max_def)
  moreover have "nat (max 0 k) = nat k" by simp
  ultimately show ?thesis using a(2) clamped_RepeatRange [of a "max 0 k"] by (intro buildsI [OF U(1,2) U(6) U(3)]) auto
qed

lemma binary_builds:
  assumes mk: "make_node \<lparr>kind = k, vals = [], lhs = Some (root x), rhs = Some (root y), param = 0\<rparr> s = (c, s')"
    and s: "store_ok s" and d: "bls_denotes s x a" "bls_denotes s y b" and k: "k = KAdd \<or> k = KUnion"
  shows "store_ok s'" "extends s s'" "runSetCache c = None"
    "k = KAdd \<Longrightarrow> bls_denotes s' c (Add a b)" "k = KUnion \<Longrightarrow> bls_denotes s' c (Unite a b)"
proof -
  have n: "node_ok (length (nodes s)) \<lparr>kind = k, vals = [], lhs = Some (root x), rhs = Some (root y), param = 0\<rparr>"
    using child_in_store [OF d(1)] child_in_store [OF d(2)] k by (auto simp: node_ok_def children_def)
  note M = make_node_ok [OF mk s n]
  note X = extends_denotes [OF M(2) d(1)] and Y = extends_denotes [OF M(2) d(2)]
  show "store_ok s'" "extends s s'" "runSetCache c = None" by (rule M)+
  show "k = KAdd \<Longrightarrow> bls_denotes s' c (Add a b)" using denotes.Add [OF M(3) _ _ _ X Y] M(4) by simp
  show "k = KUnion \<Longrightarrow> bls_denotes s' c (Unite a b)" using denotes.Unite [OF M(3) _ _ _ X Y] M(4) by simp
qed

lemma plus_builds:
  assumes "bls_plus x y s = (c, s')" "store_ok s" "bls_set s x A" "bls_set s y B"
  shows "builds s s' c (clamp ` msum A B)"
proof -
  obtain a b where d: "bls_denotes s x a" "A = clamped a" "bls_denotes s y b" "B = clamped b"
    using assms(3,4) by (auto simp: bls_set_def)
  note U = binary_builds [OF assms(1) [unfolded bls_plus_def] assms(2) d(1,3)]
  have "wf_expr (Add a b)" using node_wf [OF assms(2)] d by auto
  then show ?thesis using d clamped_Add by (intro buildsI [OF U(1,2) U(4) U(3)]) auto
qed

lemma or_builds:
  assumes "bls_or x y s = (c, s')" "store_ok s" "bls_set s x A" "bls_set s y B"
  shows "builds s s' c (A \<union> B)"
proof -
  obtain a b where d: "bls_denotes s x a" "A = clamped a" "bls_denotes s y b" "B = clamped b"
    using assms(3,4) by (auto simp: bls_set_def)
  note U = binary_builds [OF assms(1) [unfolded bls_or_def] assms(2) d(1,3)]
  show ?thesis using d clamped_Unite by (intro buildsI [OF U(1,2) U(5) U(3)]) auto
qed

lemma move_builds:
  assumes "bls_move other s = (c, other', s')" "store_ok s" "obj_ok s other" "bls_set s other A"
  shows "builds s s' c A" "builds s s' other' {0}"
proof -
  obtain p where z: "zeroLeaf s = (p, s')" "c = other" "other' = \<lparr>root = p, runSetCache = None\<rparr>"
    using assms(1) by (auto simp: bls_move_def split: prod.splits)
  note Z = zeroLeaf_ok [OF z(1) assms(2)]
  show "builds s s' c A" using Z z(2) extends_obj extends_set assms(3,4) by (auto simp: builds_def)
  show "builds s s' other' {0}"
    using Z z(3) leaf_clamped [of "[0]"] by (intro buildsI [where e = "Leaf [0]"]) auto
qed

subsection \<open>Run sets of objects\<close>

interpretation run_eval: memo_contract runset_step run_good
proof unfold_locales
  fix n :: node and m a b x y
  show "kind n = KLeaf \<Longrightarrow> wf_expr (Leaf (vals n)) \<Longrightarrow> \<exists>v. runset_step n m = Some v \<and> run_good (Leaf (vals n)) v"
    using fromValues_correct [of "vals n"] by (auto simp: runset_step_def run_good_def)
  show "kind n = KAdd \<Longrightarrow> wf_expr (Add a b) \<Longrightarrow> memo_at m (lhs n) = Some x \<Longrightarrow> memo_at m (rhs n) = Some y \<Longrightarrow>
      run_good a x \<Longrightarrow> run_good b y \<Longrightarrow> \<exists>v. runset_step n m = Some v \<and> run_good (Add a b) v"
    using rs_sum_exact by (auto simp: runset_step_def run_good_def split: option.splits)
  show "kind n = KUnion \<Longrightarrow> wf_expr (Unite a b) \<Longrightarrow> memo_at m (lhs n) = Some x \<Longrightarrow> memo_at m (rhs n) = Some y \<Longrightarrow>
      run_good a x \<Longrightarrow> run_good b y \<Longrightarrow> \<exists>v. runset_step n m = Some v \<and> run_good (Unite a b) v"
    using unite_exact by (auto simp: runset_step_def run_good_def split: option.splits)
  show "kind n = KPad \<Longrightarrow> wf_expr (Pad a (param n)) \<Longrightarrow> memo_at m (lhs n) = Some x \<Longrightarrow>
      run_good a x \<Longrightarrow> \<exists>v. runset_step n m = Some v \<and> run_good (Pad a (param n)) v"
    using paddedTo_exact by (fastforce simp: runset_step_def run_good_def split: option.splits)
  show "kind n = KRepeat \<Longrightarrow> wf_expr (Repeat a (param n)) \<Longrightarrow> memo_at m (lhs n) = Some x \<Longrightarrow>
      run_good a x \<Longrightarrow> \<exists>v. runset_step n m = Some v \<and> run_good (Repeat a (param n)) v"
    using repeated_exact by (fastforce simp: runset_step_def run_good_def split: option.splits)
  show "kind n = KRepeatRange \<Longrightarrow> wf_expr (RepeatRange a (param n)) \<Longrightarrow> memo_at m (lhs n) = Some x \<Longrightarrow>
      run_good a x \<Longrightarrow> \<exists>v. runset_step n m = Some v \<and> run_good (RepeatRange a (param n)) v"
    using repeatRange_exact by (fastforce simp: runset_step_def run_good_def i64_def split: option.splits)
qed

text \<open>A run set that is not refused has no element beyond \<^verbatim>\<open>INT64_MAX\<close>, so nothing was clamped.\<close>

lemma run_good_clamped:
  assumes "run_good e (Some rs)"
  shows "rs_ok rs" "runs_set rs = clamped e" "clamped e = lengths e"
proof -
  have r: "rs_ok rs" "runs_set rs = lengths e" using assms by (auto simp: run_good_def)
  have "clamp x = x" if "x \<in> lengths e" for x
    using runs_set_i64 [OF r(1)] r(2) that by (auto simp: clamp_def i64_def)
  then show "clamped e = lengths e" by (simp add: clamped_def)
  then show "rs_ok rs" "runs_set rs = clamped e" using r by simp_all
qed

definition same_obj :: "store \<Rightarrow> bit_length_set \<Rightarrow> bit_length_set \<Rightarrow> bool" where
  "same_obj s b b' \<longleftrightarrow> root b' = root b \<and> obj_ok s b'"

lemma bls_runSet_good:
  assumes "store_ok s" "obj_ok s b" "bls_denotes s b e"
  shows "\<exists>v b'. bls_runSet s b = Some (v, b') \<and> run_good e v \<and> same_obj s b b'"
proof (cases "runSetCache b")
  case None
  obtain v where v: "evaluate runset_step (nodes s) (root b) = Some v" "run_good e v"
    using run_eval.evaluate_good [OF _ assms(3)] assms(1) by (auto simp: store_ok_def)
  then have "obj_ok s (b\<lparr>runSetCache := Some v\<rparr>)" using assms(3) by (auto simp: obj_ok_def)
  then show ?thesis using None v by (auto simp: bls_runSet_def same_obj_def)
next
  case (Some v)
  obtain e' where "bls_denotes s b e'" "run_good e' v" using assms(2) Some by (auto simp: obj_ok_def)
  then have "run_good e v" using denotes_unique [OF assms(3)] by simp
  then show ?thesis using Some assms(2) by (auto simp: bls_runSet_def same_obj_def)
qed

lemma bls_expandChecked_good:
  "store_ok s \<Longrightarrow> bls_denotes s b e \<Longrightarrow>
    \<exists>x. bls_expandChecked s b limit = Some x \<and> expand_good (max 1 limit) e x"
  unfolding bls_expandChecked_def store_ok_def by (rule node_expandChecked_good) auto

subsection \<open>Residues are exact or refused\<close>

definition residues_answer :: "int list option \<Rightarrow> int \<Rightarrow> int set \<Rightarrow> bool" where
  "residues_answer r d A \<longleftrightarrow> (\<forall>res. r = Some res \<longrightarrow> flat_ok res \<and> set res = (\<lambda>v. v mod d) ` A)"

lemma modulo_by_expansion_good:
  assumes "store_ok s" "obj_ok s b" "bls_denotes s b e" "1 < d"
  shows "\<exists>r b'. modulo_by_expansion s b d = Some (r, b') \<and> residues_answer r d (clamped e) \<and> same_obj s b b' \<and>
    (fits kExpandLimit e \<longrightarrow> r \<noteq> None)"
proof -
  obtain x where x: "bls_expandChecked s b kExpandLimit = Some x" "expand_good kExpandLimit e x"
    using bls_expandChecked_good [OF assms(1,3), of kExpandLimit] by (auto simp: kExpandLimit_def)
  have w: "wf_expr e" by (rule node_wf [OF assms(1,3)])
  let ?o = "fold (\<lambda>v. flat_add (v smod d)) (exp_values x) []"
  have o: "flat_ok ?o" "set ?o = (\<lambda>v. v smod d) ` set (exp_values x)"
    using fold_add_image [of "\<lambda>v. v smod d" "exp_values x"] by auto
  have "set ?o = (\<lambda>v. v mod d) ` clamped e" if "exact x"
  proof -
    have "set (exp_values x) = clamped e" using x(2) that by (auto simp: expand_good_def kept_def)
    moreover have "v smod d = v mod d" if "v \<in> clamped e" for v
      using clamped_i64 [OF w that] assms(4) by (simp add: smod_eq_mod)
    ultimately show ?thesis unfolding o by (intro image_cong) auto
  qed
  then show ?thesis using x o assms(2)
    by (auto simp: modulo_by_expansion_def residues_answer_def same_obj_def expand_good_def)
qed

lemma modulo_by_runs_good:
  assumes "store_ok s" "obj_ok s b" "bls_denotes s b e" "1 < d"
  shows "\<exists>r b'. modulo_by_runs s b d = Some (r, b') \<and> residues_answer r d (clamped e) \<and> same_obj s b b' \<and>
    (fits kExpandLimit e \<longrightarrow> r \<noteq> None)"
proof -
  obtain v b1 where v: "bls_runSet s b = Some (v, b1)" "run_good e v" "same_obj s b b1"
    using bls_runSet_good [OF assms(1-3)] by blast
  have d1: "bls_denotes s b1 e" "obj_ok s b1" using v(3) assms(3) by (auto simp: same_obj_def)
  obtain r b2 where E: "modulo_by_expansion s b1 d = Some (r, b2)" "residues_answer r d (clamped e)" "same_obj s b1 b2"
    "fits kExpandLimit e \<longrightarrow> r \<noteq> None"
    using modulo_by_expansion_good [OF assms(1) d1(2,1) assms(4)] by blast
  have b2: "same_obj s b b2" using E(3) v(3) by (simp add: same_obj_def)
  show ?thesis
  proof (cases "\<exists>rs res. v = Some rs \<and> rs_residues rs d = Some res")
    case True
    then obtain rs res where rr: "v = Some rs" "rs_residues rs d = Some res" by blast
    then have "residues_answer (Some res) d (clamped e)"
      using rs_residues_exact [OF rr(2)] run_good_clamped [of e rs] v(2) by (auto simp: residues_answer_def)
    then show ?thesis using v(1,3) rr by (auto simp: modulo_by_runs_def)
  next
    case False
    then have "modulo_by_runs s b d = Some (r, b2)" using v(1) E(1)
      by (auto simp: modulo_by_runs_def split: option.splits)
    then show ?thesis using E b2 by blast
  qed
qed

lemma bls_modulo_good:
  assumes "store_ok s" "obj_ok s b" "bls_denotes s b e" "1 \<le> d"
  shows "\<exists>r b'. bls_modulo s b d = Some (r, b') \<and> residues_answer r d (clamped e) \<and> same_obj s b b' \<and>
    (fits kExpandLimit e \<or> \<not> int64_max < greatest e \<and> res_fits e d \<longrightarrow> r \<noteq> None)"
proof (cases "d = 1")
  case True
  have "clamped e \<noteq> {}" using clamped_nonempty node_wf [OF assms(1,3)] by blast
  then have "residues_answer (Some [0]) 1 (clamped e)" by (auto simp: residues_answer_def)
  then show ?thesis using True assms(2) by (simp add: bls_modulo_def same_obj_def)
next
  case False
  then have d: "1 < d" using assms(4) by simp
  obtain r b1 where R: "modulo_by_runs s b d = Some (r, b1)" "residues_answer r d (clamped e)" "same_obj s b b1"
    "fits kExpandLimit e \<longrightarrow> r \<noteq> None"
    using modulo_by_runs_good [OF assms(1-3) d] by blast
  have new: "mask_of (new_residue_set d) d {}" using new_residue_set_ok [of d] d by (simp add: mask_of_def)
  obtain ok msk where N: "node_residues (nodes s) (root b) d (new_residue_set d) = Some (ok, msk)"
    "ok \<longrightarrow> \<not> int64_max < greatest e \<and> mask_of msk d ({} \<union> lengths e)"
    "\<not> int64_max < greatest e \<and> res_fits e d \<longrightarrow> ok"
    using node_residues_good [OF _ assms(3) _ new] assms(1) d unfolding store_ok_def by fastforce
  have w: "wf_expr e" by (rule node_wf [OF assms(1,3)])
  have mask: "residues_answer (Some (residueSetToFlatSet msk)) d (clamped e)" if ok
    using that N(2) residueSetToFlatSet_ok [of msk] unsaturated_lengths [of e]
    by (auto simp: residues_answer_def mask_of_def)
  have "\<not> res_fits e d" if "\<not> d \<le> kResidueModulusCap" using res_fits_cap [OF w, of d] d that by linarith
  then show ?thesis using R N mask assms(2) d False
    by (cases ok) (auto simp: bls_modulo_def same_obj_def)
qed

subsection \<open>Comparisons are exact or refused\<close>

lemma ranges_includes_subset:
  "flat_ok xs \<Longrightarrow> flat_ok ys \<Longrightarrow> ranges_includes xs ys \<longleftrightarrow> set ys \<subseteq> set xs"
proof (induction xs ys rule: ranges_includes.induct)
  case (3 x xs y ys)
  consider "y < x" | "x < y" | "x = y" by linarith
  then show ?case
  proof cases
    case 1
    then have "y \<notin> set (x # xs)" using "3.prems" by auto
    then show ?thesis using 1 by simp
  next
    case 2
    then have "\<forall>z\<in>set (y # ys). x < z" using "3.prems" by auto
    then show ?thesis using 2 "3.IH"(1) "3.prems" by auto
  next
    case 3
    then have "\<forall>z\<in>set ys. x < z" using "3.prems" by auto
    then show ?thesis using 3 "3.IH"(2) "3.prems" by auto
  qed
qed auto

lemma compare_exact_good:
  assumes s: "store_ok s" and a: "obj_ok s a" "bls_denotes s a ea" and b: "obj_ok s b" "bls_denotes s b eb"
    and runs: "\<And>x y. rs_ok x \<Longrightarrow> rs_ok y \<Longrightarrow> on_runs x y \<longleftrightarrow> R (runs_set x) (runs_set y)"
    and vals: "\<And>xs ys. flat_ok xs \<Longrightarrow> flat_ok ys \<Longrightarrow> on_values xs ys \<longleftrightarrow> R (set xs) (set ys)"
  shows "\<exists>r a' b'. compare_exact on_runs on_values s a b = Some (r, a', b') \<and> same_obj s a a' \<and> same_obj s b b' \<and>
    (\<forall>v. r = Some v \<longrightarrow> (v \<longleftrightarrow> R (clamped ea) (clamped eb))) \<and> (fits kExpandLimit ea \<and> fits kExpandLimit eb \<longrightarrow> r \<noteq> None)"
proof -
  obtain ra a' where ra: "bls_runSet s a = Some (ra, a')" "run_good ea ra" "same_obj s a a'"
    using bls_runSet_good [OF s a] by blast
  obtain rb b' where rb: "bls_runSet s b = Some (rb, b')" "run_good eb rb" "same_obj s b b'"
    using bls_runSet_good [OF s b] by blast
  have d: "bls_denotes s a' ea" "bls_denotes s b' eb" using ra(3) rb(3) a(2) b(2) by (auto simp: same_obj_def)
  obtain xa xb where x: "bls_expandChecked s a' kExpandLimit = Some xa" "expand_good kExpandLimit ea xa"
    "bls_expandChecked s b' kExpandLimit = Some xb" "expand_good kExpandLimit eb xb"
    using bls_expandChecked_good [OF s d(1), of kExpandLimit] bls_expandChecked_good [OF s d(2), of kExpandLimit]
    by (auto simp: kExpandLimit_def)
  show ?thesis
  proof (cases "\<exists>x y. ra = Some x \<and> rb = Some y")
    case True
    then obtain rx ry where xy: "ra = Some rx" "rb = Some ry" by blast
    have "on_runs rx ry \<longleftrightarrow> R (clamped ea) (clamped eb)"
      using runs [of rx ry] run_good_clamped [of ea rx] run_good_clamped [of eb ry] ra(2) rb(2) xy by simp
    then show ?thesis using ra rb xy by (auto simp: compare_exact_def)
  next
    case False
    have "on_values (exp_values xa) (exp_values xb) \<longleftrightarrow> R (clamped ea) (clamped eb)" if "exact xa" "exact xb"
      using vals [of "exp_values xa" "exp_values xb"] x that by (auto simp: expand_good_def kept_def)
    moreover have "compare_exact on_runs on_values s a b =
        Some (if exact xa \<and> exact xb then Some (on_values (exp_values xa) (exp_values xb)) else None, a', b')"
      using False ra(1) rb(1) x by (auto simp: compare_exact_def split: option.splits)
    ultimately show ?thesis using ra(3) rb(3) x by (auto simp: expand_good_def)
  qed
qed

lemma bounds_good:
  assumes "store_ok s" "bls_denotes s b e"
  shows "bls_min s b = Some (Min (clamped e))" "bls_max s b = Some (Max (clamped e))"
  using node_min_exact [OF _ assms(2)] node_max_exact [OF _ assms(2)] node_wf [OF assms] assms(1)
  by (simp_all add: bls_min_def bls_max_def store_ok_def Min_clamped Max_clamped)

lemma same_obj_refl: "obj_ok s b \<Longrightarrow> same_obj s b b"
  by (simp add: same_obj_def)

lemma equalsExact_good:
  assumes s: "store_ok s" and a: "obj_ok s a" "bls_denotes s a ea" and b: "obj_ok s b" "bls_denotes s b eb"
  shows "\<exists>r a' b'. equalsExact s a b = Some (r, a', b') \<and> same_obj s a a' \<and> same_obj s b b' \<and>
    (\<forall>v. r = Some v \<longrightarrow> (v \<longleftrightarrow> clamped ea = clamped eb)) \<and> (fits kExpandLimit ea \<and> fits kExpandLimit eb \<longrightarrow> r \<noteq> None)"
proof (cases "root a = root b")
  case True
  then have "ea = eb" using a(2) b(2) denotes_unique by simp
  then show ?thesis using True a(1) b(1) by (auto simp: equalsExact_def intro: same_obj_refl)
next
  case False
  note bounds = bounds_good [OF s a(2)] bounds_good [OF s b(2)]
  show ?thesis
  proof (cases "Min (clamped ea) \<noteq> Min (clamped eb) \<or> Max (clamped ea) \<noteq> Max (clamped eb)")
    case True
    then have "clamped ea \<noteq> clamped eb" by auto
    then show ?thesis using True False bounds a(1) b(1) by (auto simp: equalsExact_def intro: same_obj_refl)
  next
    case eq: False
    have "equalsExact s a b = compare_exact rs_equals flat_eq s a b"
      using eq False bounds by (simp add: equalsExact_def)
    moreover have "flat_eq xs ys \<longleftrightarrow> set xs = set ys" if "flat_ok xs" "flat_ok ys" for xs ys :: "int list"
      using flat_ok_unique that by (auto simp: flat_eq_def)
    ultimately show ?thesis
      using compare_exact_good [OF s a b, of rs_equals "(=)" flat_eq] by (simp add: rs_equals_exact rs_ok_iff)
  qed
qed

lemma isSubsetOfExact_good:
  assumes s: "store_ok s" and a: "obj_ok s a" "bls_denotes s a ea" and b: "obj_ok s b" "bls_denotes s b eb"
  shows "\<exists>r a' b'. isSubsetOfExact s a b = Some (r, a', b') \<and> same_obj s a a' \<and> same_obj s b b' \<and>
    (\<forall>v. r = Some v \<longrightarrow> (v \<longleftrightarrow> clamped ea \<subseteq> clamped eb)) \<and> (fits kExpandLimit ea \<and> fits kExpandLimit eb \<longrightarrow> r \<noteq> None)"
proof (cases "root a = root b")
  case True
  then have "ea = eb" using a(2) b(2) denotes_unique by simp
  then show ?thesis using True a(1) b(1) by (auto simp: isSubsetOfExact_def intro: same_obj_refl)
next
  case False
  note bounds = bounds_good [OF s a(2)] bounds_good [OF s b(2)]
  have ne: "clamped ea \<noteq> {}" using clamped_nonempty node_wf [OF s a(2)] by blast
  show ?thesis
  proof (cases "Min (clamped ea) < Min (clamped eb) \<or> Max (clamped eb) < Max (clamped ea)")
    case True
    have "\<not> clamped ea \<subseteq> clamped eb"
    proof
      assume sub: "clamped ea \<subseteq> clamped eb"
      have "Min (clamped eb) \<le> Min (clamped ea)" by (rule Min_antimono [OF sub ne finite_clamped])
      moreover have "Max (clamped ea) \<le> Max (clamped eb)" by (rule Max_mono [OF sub ne finite_clamped])
      ultimately show False using True by linarith
    qed
    then show ?thesis using True False bounds a(1) b(1) by (auto simp: isSubsetOfExact_def intro: same_obj_refl)
  next
    case eq: False
    have "isSubsetOfExact s a b = compare_exact rs_isSubsetOf (\<lambda>xs ys. ranges_includes ys xs) s a b"
      using eq False bounds by (auto simp: isSubsetOfExact_def)
    then show ?thesis
      using compare_exact_good [OF s a b, of rs_isSubsetOf "(\<subseteq>)" "\<lambda>xs ys. ranges_includes ys xs"]
      by (simp add: rs_isSubsetOf_exact rs_ok_iff ranges_includes_subset)
  qed
qed

subsection \<open>Rendering\<close>

text \<open>
  \<^verbatim>\<open>Node::str\<close>: a stack of nodes to expand and literals to emit. On an arbitrary heap the loop may
  not end, so it is a partial function.
\<close>

fun digits_of :: "nat \<Rightarrow> string" where
  "digits_of n = (if n < 10 then [char_of (n + 48)] else digits_of (n div 10) @ [char_of (n mod 10 + 48)])"

definition decimal :: "int \<Rightarrow> string" where
  "decimal v = (if v < 0 then CHR ''-'' # digits_of (nat (- v)) else digits_of (nat v))"

fun join_values :: "int list \<Rightarrow> string" where
  "join_values [] = []"
| "join_values [v] = decimal v"
| "join_values (v # vs) = decimal v @ '','' @ join_values vs"

datatype frame = Expand nat | Emit string

definition node_frames :: "node \<Rightarrow> frame list" where
  "node_frames n =
     (let sub = (\<lambda>p. case p of None \<Rightarrow> [Emit []] | Some c \<Rightarrow> [Expand c])
      in case kind n of
           KLeaf \<Rightarrow> [Emit (''{'' @ join_values (vals n) @ ''}'')]
         | KAdd \<Rightarrow> [Emit ''concat(''] @ sub (lhs n) @ [Emit '',''] @ sub (rhs n) @ [Emit '')'']
         | KUnion \<Rightarrow> [Emit ''union(''] @ sub (lhs n) @ [Emit '',''] @ sub (rhs n) @ [Emit '')'']
         | KPad \<Rightarrow> [Emit ''pad(''] @ sub (lhs n) @ [Emit ('','' @ decimal (param n)), Emit '')'']
         | KRepeat \<Rightarrow> [Emit ''repeat(''] @ sub (lhs n) @ [Emit ('','' @ decimal (param n)), Emit '')'']
         | KRepeatRange \<Rightarrow> [Emit ''repeat_range(''] @ sub (lhs n) @ [Emit ('','' @ decimal (param n)), Emit '')''])"

partial_function (option) str_loop :: "heap \<Rightarrow> frame list \<Rightarrow> string \<Rightarrow> string option" where
  "str_loop h stack out =
     (case stack of
        [] \<Rightarrow> Some out
      | Emit s # rest \<Rightarrow> str_loop h rest (out @ s)
      | Expand p # rest \<Rightarrow> str_loop h (node_frames (h ! p) @ rest) out)"

definition bls_str :: "store \<Rightarrow> bit_length_set \<Rightarrow> string option" where
  "bls_str s b = str_loop (nodes s) [Expand (root b)] []"

text \<open>The grammar of the header, on expressions.\<close>

fun render :: "bl_expr \<Rightarrow> string" where
  "render (Leaf vs) = ''{'' @ join_values vs @ ''}''"
| "render (Add a b) = ''concat('' @ render a @ '','' @ render b @ '')''"
| "render (Unite a b) = ''union('' @ render a @ '','' @ render b @ '')''"
| "render (Pad a k) = ''pad('' @ render a @ '','' @ decimal k @ '')''"
| "render (Repeat a k) = ''repeat('' @ render a @ '','' @ decimal k @ '')''"
| "render (RepeatRange a k) = ''repeat_range('' @ render a @ '','' @ decimal k @ '')''"

declare digits_of.simps [simp del]

lemma str_loop_simps [simp]:
  "str_loop h [] out = Some out"
  "str_loop h (Emit t # rest) out = str_loop h rest (out @ t)"
  by (subst str_loop.simps, simp)+

lemma str_loop_expand: "str_loop h (Expand p # rest) out = str_loop h (node_frames (h ! p) @ rest) out"
  by (subst str_loop.simps) simp

lemma str_loop_renders: "denotes h p e \<Longrightarrow> str_loop h (Expand p # rest) out = str_loop h rest (out @ render e)"
  by (induction arbitrary: rest out rule: denotes.induct)
    (subst str_loop_expand, simp add: node_frames_def)+

lemma bls_str_renders: "bls_denotes s b e \<Longrightarrow> bls_str s b = Some (render e)"
  using str_loop_renders [of "nodes s" "root b" e "[]" "[]"] by (simp add: bls_str_def)

end
