(* ===== verification/AST.thy ===== *)
theory AST
  imports Rational Lexer BitLengthSet
begin

text \<open>
  The syntax trees of \<^verbatim>\<open>include/llvmdsdl/Frontend/AST.h\<close> and their printer,
  \<^verbatim>\<open>lib/Frontend/ASTPrinter.cpp\<close>. The operands of unary and binary nodes and the elements of a set
  are shared pointers that the parser always sets and the evaluator dereferences without a test; they
  are plain subtrees here, so the \<^verbatim>\<open>?\<close> that the printer shows for a null operand cannot arise. The
  capacity of an array type, the value of a constant and the expression of a directive are optional.
\<close>

subsection \<open>Types and expressions\<close>

datatype CastMode = Saturated | Truncated

datatype PrimitiveKind = PrimBool | PrimByte | PrimUtf8 | PrimUnsignedInt | PrimSignedInt | PrimFloat

datatype ArrayKind = ArrNone | ArrFixed | ArrVariableInclusive | ArrVariableExclusive

datatype ScalarTypeAST =
    PrimitiveTypeExprAST PrimitiveKind CastMode "32 word"
  | VoidTypeExprAST "32 word"
  | VersionedTypeExprAST "string list" "32 word" "32 word"

datatype UnaryOp = UnPlus | UnMinus | UnLogicalNot

datatype BinaryOp =
    BinAttribute | BinPow | BinMul | BinDiv | BinMod | BinAdd | BinSub | BinBitOr | BinBitXor | BinBitAnd
  | BinEq | BinNe | BinLe | BinGe | BinLt | BinGt | BinLogicalOr | BinLogicalAnd

datatype ExprAST = ExprAST (expr_location: SourceLocation) (expr_value: ExprValue)
  and ExprValue =
    ExprBool bool
  | ExprRational rational
  | ExprString string
  | ExprIdentifier string
  | ExprUnary UnaryOp ExprAST
  | ExprBinary BinaryOp ExprAST ExprAST
  | ExprSetLiteral "ExprAST list"
  | ExprTypeLiteral TypeExprAST
  and TypeExprAST =
    TypeExprAST (type_location: SourceLocation) (type_scalar: ScalarTypeAST)
      (arrayKind: ArrayKind) (arrayCapacity: "ExprAST option")

subsection \<open>Statements and definitions\<close>

datatype DirectiveKind =
    DirUnion | DirExtent | DirSealed | DirDeprecated | DirAssert | DirPrint | DirAliasable | DirUnknown

record AttachedDocLine =
  docline_location :: SourceLocation
  docline_text :: string

type_synonym AttachedDoc = "AttachedDocLine list"

record ConstantDeclAST =
  const_location :: SourceLocation
  const_doc :: AttachedDoc
  const_type :: TypeExprAST
  const_name :: string
  const_nameLocation :: SourceLocation
  const_value :: "ExprAST option"

record FieldDeclAST =
  field_location :: SourceLocation
  field_doc :: AttachedDoc
  field_type :: TypeExprAST
  field_name :: string
  field_nameLocation :: SourceLocation
  isPadding :: bool

record DirectiveAST =
  dir_location :: SourceLocation
  dir_doc :: AttachedDoc
  dir_kind :: DirectiveKind
  rawName :: string
  dir_expression :: "ExprAST option"

record ServiceResponseMarkerAST =
  marker_location :: SourceLocation
  marker_doc :: AttachedDoc

datatype StatementAST =
    StmtConstant ConstantDeclAST
  | StmtField FieldDeclAST
  | StmtDirective DirectiveAST
  | StmtMarker ServiceResponseMarkerAST

record DefinitionAST =
  def_location :: SourceLocation
  def_doc :: AttachedDoc
  statements :: "StatementAST list"

record DiscoveredDefinition =
  filePath :: string
  rootNamespacePath :: string
  fullName :: string
  shortName :: string
  namespaceComponents :: "string list"
  majorVersion :: "32 word"
  minorVersion :: "32 word"
  fixedPortId :: "32 word option"
  isExplicitTarget :: bool
  isNamedTarget :: bool
  source_text :: string

record ParsedDefinition =
  parsed_info :: DiscoveredDefinition
  parsed_ast :: DefinitionAST

type_synonym ASTModule = "ParsedDefinition list"

definition is_service :: "DefinitionAST \<Rightarrow> bool" where
  "is_service d \<longleftrightarrow> list_ex (\<lambda>stmt. case stmt of StmtMarker _ \<Rightarrow> True | _ \<Rightarrow> False) (statements d)"

definition is_deprecated :: "DefinitionAST \<Rightarrow> bool" where
  "is_deprecated d \<longleftrightarrow>
     list_ex (\<lambda>stmt. case stmt of StmtDirective dir \<Rightarrow> dir_kind dir = DirDeprecated | _ \<Rightarrow> False) (statements d)"

definition is_void :: "TypeExprAST \<Rightarrow> bool" where
  "is_void t \<longleftrightarrow> (case type_scalar t of VoidTypeExprAST _ \<Rightarrow> True | _ \<Rightarrow> False)"

subsection \<open>Printing\<close>

fun binaryOpToString :: "BinaryOp \<Rightarrow> string" where
  "binaryOpToString BinAttribute = ''.''"
| "binaryOpToString BinPow = ''**''"
| "binaryOpToString BinMul = ''*''"
| "binaryOpToString BinDiv = ''/''"
| "binaryOpToString BinMod = ''%''"
| "binaryOpToString BinAdd = ''+''"
| "binaryOpToString BinSub = ''-''"
| "binaryOpToString BinBitOr = ''|''"
| "binaryOpToString BinBitXor = ''^''"
| "binaryOpToString BinBitAnd = ''&''"
| "binaryOpToString BinEq = ''==''"
| "binaryOpToString BinNe = ''!=''"
| "binaryOpToString BinLe = ''<=''"
| "binaryOpToString BinGe = ''>=''"
| "binaryOpToString BinLt = ''<''"
| "binaryOpToString BinGt = ''>''"
| "binaryOpToString BinLogicalOr = ''||''"
| "binaryOpToString BinLogicalAnd = ''&&''"

fun unaryOpToString :: "UnaryOp \<Rightarrow> string" where
  "unaryOpToString UnPlus = ''+''"
| "unaryOpToString UnMinus = ''-''"
| "unaryOpToString UnLogicalNot = ''!''"

fun directiveToString :: "DirectiveKind \<Rightarrow> string" where
  "directiveToString DirUnion = ''union''"
| "directiveToString DirExtent = ''extent''"
| "directiveToString DirSealed = ''sealed''"
| "directiveToString DirDeprecated = ''deprecated''"
| "directiveToString DirAssert = ''assert''"
| "directiveToString DirPrint = ''print''"
| "directiveToString DirAliasable = ''aliasable''"
| "directiveToString DirUnknown = ''unknown''"

fun separated_by :: "string \<Rightarrow> string list \<Rightarrow> string" where
  "separated_by sep [] = []"
| "separated_by sep [x] = x"
| "separated_by sep (x # y # xs) = x @ sep @ separated_by sep (y # xs)"

definition doc_str :: "AttachedDoc \<Rightarrow> string" where
  "doc_str doc = separated_by [CHR 0x0A] (map docline_text doc)"

fun scalar_str :: "ScalarTypeAST \<Rightarrow> string" where
  "scalar_str (PrimitiveTypeExprAST family castMode bitLength) =
     (let showCast = (family \<noteq> PrimBool \<and> family \<noteq> PrimByte \<and> family \<noteq> PrimUtf8)
      in (if showCast then (if castMode = Truncated then ''truncated '' else ''saturated '') else []) @
         (case family of
            PrimBool \<Rightarrow> ''bool''
          | PrimByte \<Rightarrow> ''byte''
          | PrimUtf8 \<Rightarrow> ''utf8''
          | PrimUnsignedInt \<Rightarrow> ''uint'' @ decimal (uint bitLength)
          | PrimSignedInt \<Rightarrow> ''int'' @ decimal (uint bitLength)
          | PrimFloat \<Rightarrow> ''float'' @ decimal (uint bitLength)))"
| "scalar_str (VoidTypeExprAST bitLength) = ''void'' @ decimal (uint bitLength)"
| "scalar_str (VersionedTypeExprAST names major minor) =
     separated_by ''.'' names @ ''.'' @ decimal (uint major) @ ''.'' @ decimal (uint minor)"

fun type_str :: "TypeExprAST \<Rightarrow> string"
  and expr_str :: "ExprAST \<Rightarrow> string"
  and value_str :: "ExprValue \<Rightarrow> string"
  and elements_str :: "ExprAST list \<Rightarrow> string" where
  "type_str (TypeExprAST _ scalar arr capacity) =
     scalar_str scalar @
     (if arr = ArrNone then []
      else ''['' @ (if arr = ArrVariableExclusive then ''<''
                    else if arr = ArrVariableInclusive then ''<='' else []) @
           (case capacity of Some e \<Rightarrow> expr_str e | None \<Rightarrow> ''?'') @ '']'')"
| "expr_str (ExprAST _ v) = value_str v"
| "value_str (ExprBool b) = (if b then ''true'' else ''false'')"
| "value_str (ExprRational r) = rat_str r"
| "value_str (ExprString s) = [CHR 0x27] @ s @ [CHR 0x27]"
| "value_str (ExprIdentifier name) = name"
| "value_str (ExprUnary op operand) = ''('' @ unaryOpToString op @ expr_str operand @ '')''"
| "value_str (ExprBinary op l r) =
     ''('' @ expr_str l @ '' '' @ binaryOpToString op @ '' '' @ expr_str r @ '')''"
| "value_str (ExprSetLiteral es) = ''{'' @ elements_str es @ ''}''"
| "value_str (ExprTypeLiteral t) = type_str t"
| "elements_str [] = []"
| "elements_str [e] = expr_str e"
| "elements_str (e # d # es) = expr_str e @ '', '' @ elements_str (d # es)"

subsection \<open>The listing of a module\<close>

definition emitDoc :: "nat \<Rightarrow> AttachedDoc \<Rightarrow> string" where
  "emitDoc indent doc =
     concat (map (\<lambda>line. replicate (indent * 2) CHR '' '' @ ''#'' @
       (if docline_text line \<noteq> [] then '' '' @ docline_text line else []) @ [CHR 0x0A]) doc)"

fun statement_str :: "StatementAST \<Rightarrow> string" where
  "statement_str (StmtField s) =
     emitDoc 2 (field_doc s) @ ''    field '' @ type_str (field_type s) @
     (if \<not> isPadding s then '' '' @ field_name s else []) @ [CHR 0x0A]"
| "statement_str (StmtConstant s) =
     emitDoc 2 (const_doc s) @ ''    const '' @ type_str (const_type s) @ '' '' @ const_name s @ '' = '' @
     (case const_value s of Some e \<Rightarrow> expr_str e | None \<Rightarrow> ''?'') @ [CHR 0x0A]"
| "statement_str (StmtDirective s) =
     emitDoc 2 (dir_doc s) @ ''    @'' @ directiveToString (dir_kind s) @
     (case dir_expression s of Some e \<Rightarrow> '' '' @ expr_str e | None \<Rightarrow> []) @ [CHR 0x0A]"
| "statement_str (StmtMarker s) = emitDoc 2 (marker_doc s) @ ''    ---'' @ [CHR 0x0A]"

definition definition_str :: "ParsedDefinition \<Rightarrow> string" where
  "definition_str d =
     emitDoc 1 (def_doc (parsed_ast d)) @
     ''  definition '' @ [CHR 0x22] @ fullName (parsed_info d) @ ''.'' @
     decimal (uint (majorVersion (parsed_info d))) @ ''.'' @ decimal (uint (minorVersion (parsed_info d))) @ [CHR 0x22] @
     (if is_service (parsed_ast d) then '' service'' else []) @ '' {'' @ [CHR 0x0A] @
     concat (map statement_str (statements (parsed_ast d))) @ ''  }'' @ [CHR 0x0A]"

definition printAST :: "ASTModule \<Rightarrow> string" where
  "printAST definitions =
     ''module {'' @ [CHR 0x0A] @ concat (map definition_str definitions) @ ''}'' @ [CHR 0x0A]"

end
