(* ===== verification/Evaluator.thy ===== *)
theory Evaluator
  imports RationalSet Diagnostics AST
begin

text \<open>
  The constant-expression evaluator, \<^verbatim>\<open>lib/Semantics/Evaluator.cpp\<close>. The state of a run is the
  diagnostic log and the node graph to which \<^verbatim>\<open>_offset_ + c\<close> adds nodes. A result has two layers: the
  outer option is \<open>None\<close> where the code runs into undefined behaviour or an exception, the inner one
  where it returns \<^verbatim>\<open>std::nullopt\<close>. The type-attribute resolver is a parameter, and \<open>rnd\<close> is the
  rounding of the extended format that the wide comparison of rationals uses.
\<close>

unbundle bit_operations_syntax

subsection \<open>Values and results\<close>

datatype Value =
    ValBool bool
  | ValRational rational
  | ValString string
  | ValSet "rational list"
  | ValType TypeExprAST
  | ValBitLengthSet bit_length_set

record ev_state =
  diags :: diagnostics
  graph :: store

type_synonym ('a, 'z) eval = "'z ev_state_scheme \<Rightarrow> ('a option \<times> 'z ev_state_scheme) option"
type_synonym 'z resolver = "TypeExprAST \<Rightarrow> string \<Rightarrow> SourceLocation \<Rightarrow> (Value, 'z) eval"

definition answer :: "'a \<Rightarrow> ('a, 'z) eval" where
  "answer v st = Some (Some v, st)"

definition fail :: "SourceLocation \<Rightarrow> string \<Rightarrow> ('a, 'z) eval" where
  "fail location message st = Some (None, st\<lparr>diags := error location message (diags st)\<rparr>)"

text \<open>Going on with a value, or returning \<^verbatim>\<open>std::nullopt\<close> when there is none.\<close>

definition on_value :: "('a option \<times> 'z ev_state_scheme) option \<Rightarrow> ('a \<Rightarrow> ('b, 'z) eval) \<Rightarrow> ('b option \<times> 'z ev_state_scheme) option" where
  "on_value m k =
     (case m of None \<Rightarrow> None | Some (None, st) \<Rightarrow> Some (None, st) | Some (Some v, st) \<Rightarrow> k v st)"

lemma on_value_cong [fundef_cong]:
  "m = m' \<Longrightarrow> (\<And>v st. m' = Some (Some v, st) \<Longrightarrow> k v st = k' v st) \<Longrightarrow> on_value m k = on_value m' k'"
  by (simp add: on_value_def split: option.splits prod.splits)

fun typeName :: "Value \<Rightarrow> string" where
  "typeName (ValBool _) = ''bool''"
| "typeName (ValRational _) = ''rational''"
| "typeName (ValString _) = ''string''"
| "typeName (ValSet _) = ''set<rational>''"
| "typeName (ValBitLengthSet _) = ''set<rational>''"
| "typeName (ValType _) = ''metaserializable''"

subsection \<open>Symbolic sets made concrete\<close>

definition kExactMaterializationLimit :: nat where "kExactMaterializationLimit = 16384"

definition unsignedMagnitude :: "int \<Rightarrow> int" where
  "unsignedMagnitude v = (if v < 0 then - (v + 1) + 1 else v)"

fun rationals_into :: "(rat \<Rightarrow> rat) \<Rightarrow> int list \<Rightarrow> rational list \<Rightarrow> rational list option" where
  "rationals_into rnd [] out = Some out"
| "rationals_into rnd (v # vs) out = do { r \<leftarrow> rational_of v 1; rationals_into rnd vs (rset_insert rnd r out) }"

definition toRationalSet :: "(rat \<Rightarrow> rat) \<Rightarrow> int list \<Rightarrow> rational list option" where
  "toRationalSet rnd vs = rationals_into rnd vs []"

definition materializeExact :: "(rat \<Rightarrow> rat) \<Rightarrow> bit_length_set \<Rightarrow> SourceLocation \<Rightarrow> (rational list, 'z) eval" where
  "materializeExact rnd bls location st =
     (let refuse = fail location
            (''this expression requires the full contents of '_offset_', which cannot be materialised '' @
             ''exactly within the evaluator's capacity of '' @ decimal (int kExactMaterializationLimit) @
             '' values; rewrite using '_offset_.min', '_offset_.max', '_offset_.count', '' @
             '''_offset_ % <divisor>', or a set comparison, which use exact-or-refuse symbolic evaluation'') st
      in case bls_runSet (graph st) bls of
           None \<Rightarrow> None
         | Some (Some rs, bls') \<Rightarrow>
             (case rs_materialize rs kExactMaterializationLimit of
                Some values \<Rightarrow> do { out \<leftarrow> toRationalSet rnd values; answer out st }
              | None \<Rightarrow> refuse)
         | Some (None, bls') \<Rightarrow> do {
             expansion \<leftarrow> bls_expandChecked (graph st) bls' kExactMaterializationLimit;
             if exact expansion then do { out \<leftarrow> toRationalSet rnd (exp_values expansion); answer out st }
             else refuse
           })"

definition literalElementAsInt :: "rational \<Rightarrow> int option" where
  "literalElementAsInt r =
     (if \<not> isInteger r then None
      else case asWideInteger r of
             None \<Rightarrow> None
           | Some wide \<Rightarrow> if wide < int64_min \<or> int64_max < wide then None else Some wide)"

text \<open>The cast of a non-negative 64-bit cardinality to \<^verbatim>\<open>std::uintmax_t\<close>.\<close>

definition uintmax :: "int \<Rightarrow> int" where
  "uintmax n = n mod 2 ^ 64"

definition set_comparison_refused :: "SourceLocation \<Rightarrow> ('a, 'z) eval" where
  "set_comparison_refused location =
     fail location
       (''cannot decide this '_offset_' set comparison exactly within the evaluator's capacity of '' @
        decimal (int kExactMaterializationLimit) @
        '' values; compare '_offset_.min'/'_offset_.max' or '_offset_ % <divisor>' instead'')"

text \<open>The ladder below the bounds: the run set, then the bounded expansion, whose truncation is
  still a subset.\<close>

definition equality_by_expansion ::
  "(rat \<Rightarrow> rat) \<Rightarrow> bit_length_set \<Rightarrow> rational list \<Rightarrow> SourceLocation \<Rightarrow> (bool, 'z) eval" where
  "equality_by_expansion rnd bls literal location st = do {
     expansion \<leftarrow> bls_expandChecked (graph st) bls kExactMaterializationLimit;
     known \<leftarrow> toRationalSet rnd (exp_values expansion);
     if exact expansion then answer (rset_eq known literal) st
     else if length literal < length known then answer False st
     else if list_ex (\<lambda>v. \<not> rset_contains rnd literal v) known then answer False st
     else set_comparison_refused location st
   }"

definition decideSetEquality ::
  "(rat \<Rightarrow> rat) \<Rightarrow> bit_length_set \<Rightarrow> rational list \<Rightarrow> SourceLocation \<Rightarrow> (bool, 'z) eval" where
  "decideSetEquality rnd bls literal location st =
     (if literal = [] then answer False st
      else do {
        lo \<leftarrow> bls_min (graph st) bls;
        hi \<leftarrow> bls_max (graph st) bls;
        loR \<leftarrow> rational_of lo 1;
        hiR \<leftarrow> rational_of hi 1;
        if rat_neq (hd literal) loR \<or> rat_neq (last literal) hiR then answer False st
        else case bls_runSet (graph st) bls of
               None \<Rightarrow> None
             | Some (Some rs, bls') \<Rightarrow>
                 (case rs_count rs of
                    Some n \<Rightarrow>
                      if uintmax n \<noteq> int (length literal) then answer False st
                      else answer (list_all (\<lambda>r. case literalElementAsInt r of None \<Rightarrow> False
                                                 | Some v \<Rightarrow> rs_contains rs v) literal) st
                  | None \<Rightarrow> equality_by_expansion rnd bls' literal location st)
             | Some (None, bls') \<Rightarrow> equality_by_expansion rnd bls' literal location st
      })"

subsection \<open>Rational operations\<close>

fun asBool :: "Value \<Rightarrow> bool option" where
  "asBool (ValBool b) = Some b"
| "asBool _ = None"

fun asRational :: "Value \<Rightarrow> rational option" where
  "asRational (ValRational r) = Some r"
| "asRational _ = None"

text \<open>The loop of \<^verbatim>\<open>intPow\<close>: \<open>n\<close> multiplications are left.\<close>

function pow_loop :: "int \<Rightarrow> rational \<Rightarrow> rational \<Rightarrow> rational option option" where
  "pow_loop n out base =
     (if n \<le> 0 then Some (Some out)
      else do {
        out \<leftarrow> rat_mul out base;
        if overflowed out then Some None else pow_loop (n - 1) out base
      })"
  by pat_completeness auto
termination by (relation "measure (\<lambda>(n, _, _). nat n)") auto

declare pow_loop.simps [simp del]

definition rational_1 :: rational where "rational_1 = \<lparr>numer = 1, denom = 1, overflowed = False\<rparr>"
definition rational_0 :: rational where "rational_0 = \<lparr>numer = 0, denom = 1, overflowed = False\<rparr>"
definition rational_minus_1 :: rational where "rational_minus_1 = \<lparr>numer = - 1, denom = 1, overflowed = False\<rparr>"

definition intPow :: "rational \<Rightarrow> rational \<Rightarrow> rational option option" where
  "intPow base ex =
     (if \<not> isInteger ex then Some None
      else let e = (case asWideInteger ex of None \<Rightarrow> 0 | Some w \<Rightarrow> w)
           in if rat_eq base rational_1 then Some (Some rational_1)
              else if rat_eq base rational_0
              then (if e < 0 then Some None else if e = 0 then Some (Some rational_1) else Some (Some rational_0))
              else if rat_eq base rational_minus_1
              then (if e smod 2 = 0 then Some (Some rational_1) else Some (Some rational_minus_1))
              else case pow_loop \<bar>e\<bar> rational_1 base of
                     None \<Rightarrow> None
                   | Some None \<Rightarrow> Some None
                   | Some (Some out) \<Rightarrow>
                       if e < 0 then do {
                         out \<leftarrow> rat_div rational_1 out;
                         Some (if overflowed out then None else Some out)
                       } else Some (Some out))"

text \<open>A result that carries the overflow mark is refused.\<close>

definition checked_result :: "rational option \<Rightarrow> Value option option" where
  "checked_result m = map_option (\<lambda>r. if overflowed r then None else Some (ValRational r)) m"

definition rational_result :: "rational option \<Rightarrow> Value option option" where
  "rational_result m = map_option (\<lambda>r. Some (ValRational r)) m"

definition rational_bits :: "(int \<Rightarrow> int \<Rightarrow> int) \<Rightarrow> rational \<Rightarrow> rational \<Rightarrow> Value option option" where
  "rational_bits f l r =
     (if \<not> isInteger l \<or> \<not> isInteger r then Some None
      else do { li \<leftarrow> asWideInteger l; ri \<leftarrow> asWideInteger r; rational_result (rational_of (f li ri) 1) })"

definition rational_mod :: "rational \<Rightarrow> rational \<Rightarrow> Value option option" where
  "rational_mod l r =
     (if \<not> isInteger l \<or> \<not> isInteger r \<or> rat_eq r rational_0 then Some None
      else do {
        li \<leftarrow> asWideInteger l;
        ri \<leftarrow> asWideInteger r;
        if ri = - 1 then rational_result (rational_of 0 1) else rational_result (rational_of (li smod ri) 1)
      })"

definition applyBinaryRational ::
  "(rat \<Rightarrow> rat) \<Rightarrow> BinaryOp \<Rightarrow> rational \<Rightarrow> rational \<Rightarrow> Value option option" where
  "applyBinaryRational rnd op l r =
     (case op of
        BinPow \<Rightarrow> map_option (map_option ValRational) (intPow l r)
      | BinMul \<Rightarrow> checked_result (rat_mul l r)
      | BinDiv \<Rightarrow> if rat_eq r rational_0 then Some None else checked_result (rat_div l r)
      | BinMod \<Rightarrow> rational_mod l r
      | BinAdd \<Rightarrow> checked_result (rat_add l r)
      | BinSub \<Rightarrow> checked_result (rat_sub l r)
      | BinBitOr \<Rightarrow> rational_bits (OR) l r
      | BinBitXor \<Rightarrow> rational_bits (XOR) l r
      | BinBitAnd \<Rightarrow> rational_bits (AND) l r
      | BinEq \<Rightarrow> Some (Some (ValBool (rat_eq l r)))
      | BinNe \<Rightarrow> Some (Some (ValBool (rat_neq l r)))
      | BinLe \<Rightarrow> Some (Some (ValBool (rat_leq rnd l r)))
      | BinGe \<Rightarrow> Some (Some (ValBool (rat_geq rnd l r)))
      | BinLt \<Rightarrow> Some (Some (ValBool (rat_less rnd l r)))
      | BinGt \<Rightarrow> Some (Some (ValBool (rat_greater rnd l r)))
      | _ \<Rightarrow> Some None)"

subsection \<open>Operations on concrete sets\<close>

definition applySetBinary ::
  "(rat \<Rightarrow> rat) \<Rightarrow> BinaryOp \<Rightarrow> rational list \<Rightarrow> rational list \<Rightarrow> rational list" where
  "applySetBinary rnd op l r =
     (case op of
        BinBitOr \<Rightarrow> rset_insert_all rnd r l
      | BinBitAnd \<Rightarrow> rset_insert_all rnd (filter (rset_contains rnd r) l) []
      | BinBitXor \<Rightarrow>
          rset_insert_all rnd (filter (\<lambda>x. \<not> rset_contains rnd l x) r)
            (rset_insert_all rnd (filter (\<lambda>x. \<not> rset_contains rnd r x) l) [])
      | _ \<Rightarrow> [])"

fun elementwise_row ::
  "(rat \<Rightarrow> rat) \<Rightarrow> BinaryOp \<Rightarrow> rational \<Rightarrow> rational list \<Rightarrow> rational list \<Rightarrow> rational list option option" where
  "elementwise_row rnd op a [] out = Some (Some out)"
| "elementwise_row rnd op a (b # bs) out =
     (case applyBinaryRational rnd op a b of
        None \<Rightarrow> None
      | Some (Some (ValRational p)) \<Rightarrow> elementwise_row rnd op a bs (rset_insert rnd p out)
      | Some _ \<Rightarrow> Some None)"

fun elementwise_rows ::
  "(rat \<Rightarrow> rat) \<Rightarrow> BinaryOp \<Rightarrow> rational list \<Rightarrow> rational list \<Rightarrow> rational list \<Rightarrow> rational list option option" where
  "elementwise_rows rnd op [] bs out = Some (Some out)"
| "elementwise_rows rnd op (a # as) bs out =
     (case elementwise_row rnd op a bs out of
        None \<Rightarrow> None
      | Some None \<Rightarrow> Some None
      | Some (Some out') \<Rightarrow> elementwise_rows rnd op as bs out')"

definition applySetElementwise ::
  "(rat \<Rightarrow> rat) \<Rightarrow> BinaryOp \<Rightarrow> rational list \<Rightarrow> rational list \<Rightarrow> rational list option option" where
  "applySetElementwise rnd op l r = elementwise_rows rnd op l r []"

subsection \<open>Symbolic operands\<close>

text \<open>
  A strategy for symbolic operands either answers or leaves the two operands, whose run-set caches
  it may have filled, to the next one.
\<close>

type_synonym 'z attempt = "((Value option, Value \<times> Value) sum \<times> 'z ev_state_scheme) option"

definition answered :: "('a option \<times> 'z ev_state_scheme) option \<Rightarrow> ('a \<Rightarrow> Value) \<Rightarrow> 'z attempt" where
  "answered m f = map_option (\<lambda>(v, st). (Inl (map_option f v), st)) m"

definition left_over :: "Value \<Rightarrow> Value \<Rightarrow> 'z ev_state_scheme \<Rightarrow> 'z attempt" where
  "left_over l r st = Some (Inr (l, r), st)"

definition or_else :: "'z attempt \<Rightarrow> (Value \<Rightarrow> Value \<Rightarrow> 'z ev_state_scheme \<Rightarrow> 'z attempt) \<Rightarrow> 'z attempt" where
  "or_else m k =
     (case m of Some (Inr (l, r), st) \<Rightarrow> k l r st | _ \<Rightarrow> m)"

fun symbolic_mod :: "(rat \<Rightarrow> rat) \<Rightarrow> BinaryOp \<Rightarrow> SourceLocation \<Rightarrow> Value \<Rightarrow> Value \<Rightarrow> 'z ev_state_scheme \<Rightarrow> 'z attempt" where
  "symbolic_mod rnd BinMod location (ValBitLengthSet lbls) (ValRational r) st =
     (if \<not> isInteger r then left_over (ValBitLengthSet lbls) (ValRational r) st
      else do {
        d \<leftarrow> asWideInteger r;
        if d = 0 then answered (fail location ''invalid elementwise set operation'' st) id
        else if unsignedMagnitude d \<le> int64_max
        then (case bls_modulo (graph st) lbls (unsignedMagnitude d) of
                None \<Rightarrow> None
              | Some (Some res, lbls') \<Rightarrow> do {
                  out \<leftarrow> toRationalSet rnd res;
                  answered (answer out st) ValSet
                }
              | Some (None, lbls') \<Rightarrow> left_over (ValBitLengthSet lbls') (ValRational r) st)
        else left_over (ValBitLengthSet lbls) (ValRational r) st
      })"
| "symbolic_mod rnd _ location l r st = left_over l r st"

definition symbolic_budget :: "SourceLocation \<Rightarrow> ('a, 'z) eval" where
  "symbolic_budget location =
     fail location (''cannot decide this '_offset_' set comparison exactly within the evaluator's '' @
       ''symbolic operation budget'')"

fun symbolic_equality :: "(rat \<Rightarrow> rat) \<Rightarrow> BinaryOp \<Rightarrow> SourceLocation \<Rightarrow> Value \<Rightarrow> Value \<Rightarrow> 'z ev_state_scheme \<Rightarrow> 'z attempt" where
  "symbolic_equality rnd op location (ValBitLengthSet lbls) (ValBitLengthSet rbls) st =
     (if op = BinEq \<or> op = BinNe
      then (case equalsExact (graph st) lbls rbls of
              None \<Rightarrow> None
            | Some (None, _, _) \<Rightarrow> answered (symbolic_budget location st) id
            | Some (Some eq, _, _) \<Rightarrow> answered (answer (if op = BinEq then eq else \<not> eq) st) ValBool)
      else left_over (ValBitLengthSet lbls) (ValBitLengthSet rbls) st)"
| "symbolic_equality rnd op location (ValBitLengthSet lbls) (ValSet rset) st =
     (if op = BinEq \<or> op = BinNe
      then answered (decideSetEquality rnd lbls rset location st) (\<lambda>eq. ValBool (if op = BinEq then eq else \<not> eq))
      else left_over (ValBitLengthSet lbls) (ValSet rset) st)"
| "symbolic_equality rnd op location (ValSet lset) (ValBitLengthSet rbls) st =
     (if op = BinEq \<or> op = BinNe
      then answered (decideSetEquality rnd rbls lset location st) (\<lambda>eq. ValBool (if op = BinEq then eq else \<not> eq))
      else left_over (ValSet lset) (ValBitLengthSet rbls) st)"
| "symbolic_equality rnd op location l r st = left_over l r st"

text \<open>
  The three verdicts on a symbolic set S and a literal: whether the literal is a subset of S, whether
  S is a subset of the literal, and whether the cardinalities agree. \<open>None\<close> is undecided.
\<close>

type_synonym verdicts = "bool option \<times> bool option \<times> bool option"

definition verdicts_by_runs :: "run_set \<Rightarrow> int \<Rightarrow> rational list \<Rightarrow> verdicts" where
  "verdicts_by_runs rs n literal =
     (let member = (\<lambda>r. case literalElementAsInt r of None \<Rightarrow> False | Some v \<Rightarrow> rs_contains rs v);
          literalMembersInSymbolic = length (filter member literal);
          symbolicCardinality = uintmax n;
          literalCardinality = int (length literal)
      in (Some (list_all member literal),
          Some (symbolicCardinality \<le> literalCardinality \<and> int literalMembersInSymbolic = symbolicCardinality),
          Some (symbolicCardinality = literalCardinality)))"

text \<open>What the truncated case knows of an element of the literal, from the bounds and the subset.\<close>

definition literal_inside :: "(rat \<Rightarrow> rat) \<Rightarrow> rational \<Rightarrow> rational \<Rightarrow> rational list \<Rightarrow> rational \<Rightarrow> bool" where
  "literal_inside rnd minR maxR known r \<longleftrightarrow> rat_eq r minR \<or> rat_eq r maxR \<or> rset_contains rnd known r"

definition literal_outside :: "int \<Rightarrow> int \<Rightarrow> rational \<Rightarrow> bool" where
  "literal_outside lo hi r \<longleftrightarrow> (case literalElementAsInt r of None \<Rightarrow> True | Some v \<Rightarrow> v < lo \<or> hi < v)"

definition verdicts_truncated ::
  "(rat \<Rightarrow> rat) \<Rightarrow> int \<Rightarrow> int \<Rightarrow> rational \<Rightarrow> rational \<Rightarrow> rational list \<Rightarrow> rational list \<Rightarrow> verdicts" where
  "verdicts_truncated rnd lo hi minR maxR known literal =
     (let sInLit = (if \<not> rset_contains rnd literal minR \<or> \<not> rset_contains rnd literal maxR \<or>
                       length literal < length known \<or> list_ex (\<lambda>v. \<not> rset_contains rnd literal v) known
                    then Some False else None);
          rest = filter (\<lambda>r. \<not> literal_inside rnd minR maxR known r) literal;
          allIn = \<not> list_ex (literal_outside lo hi) rest;
          decided = list_all (literal_outside lo hi) rest;
          litInS = (if \<not> allIn then Some False else if decided then Some True else None)
      in (litInS, sInLit, None))"

definition verdicts_by_expansion ::
  "(rat \<Rightarrow> rat) \<Rightarrow> store \<Rightarrow> bit_length_set \<Rightarrow> rational list \<Rightarrow> verdicts option" where
  "verdicts_by_expansion rnd s bls literal = do {
     expansion \<leftarrow> bls_expandChecked s bls kExactMaterializationLimit;
     known \<leftarrow> toRationalSet rnd (exp_values expansion);
     if exact expansion
     then Some (Some (list_all (rset_contains rnd known) literal), Some (list_all (rset_contains rnd literal) known),
                Some (length known = length literal))
     else do {
       lo \<leftarrow> bls_min s bls;
       hi \<leftarrow> bls_max s bls;
       minR \<leftarrow> rational_of lo 1;
       maxR \<leftarrow> rational_of hi 1;
       Some (verdicts_truncated rnd lo hi minR maxR known literal)
     }
   }"

definition order_verdicts ::
  "(rat \<Rightarrow> rat) \<Rightarrow> store \<Rightarrow> bit_length_set \<Rightarrow> rational list \<Rightarrow> (verdicts \<times> bit_length_set) option" where
  "order_verdicts rnd s bls literal =
     (case bls_runSet s bls of
        None \<Rightarrow> None
      | Some (Some rs, bls') \<Rightarrow>
          (case rs_count rs of
             Some n \<Rightarrow> Some (verdicts_by_runs rs n literal, bls')
           | None \<Rightarrow> map_option (\<lambda>v. (v, bls')) (verdicts_by_expansion rnd s bls' literal))
      | Some (None, bls') \<Rightarrow> map_option (\<lambda>v. (v, bls')) (verdicts_by_expansion rnd s bls' literal))"

definition is_order :: "BinaryOp \<Rightarrow> bool" where
  "is_order op \<longleftrightarrow> op = BinLe \<or> op = BinLt \<or> op = BinGe \<or> op = BinGt"

text \<open>A strict relation needs the subset direction and, if it holds, the cardinalities.\<close>

definition strict_verdict :: "bool option \<Rightarrow> bool option \<Rightarrow> bool option" where
  "strict_verdict sub sameCard =
     (case sub of None \<Rightarrow> None | Some False \<Rightarrow> Some False | Some True \<Rightarrow> map_option Not sameCard)"

definition order_result :: "BinaryOp \<Rightarrow> bool option \<Rightarrow> bool option \<Rightarrow> bool option \<Rightarrow> bool option" where
  "order_result op subsetLR supersetLR sameCard =
     (case op of
        BinLe \<Rightarrow> subsetLR
      | BinLt \<Rightarrow> strict_verdict subsetLR sameCard
      | BinGe \<Rightarrow> supersetLR
      | _ \<Rightarrow> strict_verdict supersetLR sameCard)"

fun symbolic_order :: "(rat \<Rightarrow> rat) \<Rightarrow> BinaryOp \<Rightarrow> SourceLocation \<Rightarrow> Value \<Rightarrow> Value \<Rightarrow> 'z ev_state_scheme \<Rightarrow> 'z attempt" where
  "symbolic_order rnd op location (ValBitLengthSet lbls) (ValBitLengthSet rbls) st =
     (if \<not> is_order op then left_over (ValBitLengthSet lbls) (ValBitLengthSet rbls) st
      else do {
        (sub, lbls, rbls) \<leftarrow> isSubsetOfExact (graph st) lbls rbls;
        (super, rbls, lbls) \<leftarrow> isSubsetOfExact (graph st) rbls lbls;
        case (sub, super) of
          (Some p, Some q) \<Rightarrow>
            let equivalent = (p \<and> q)
            in answered (answer (case op of BinLe \<Rightarrow> p | BinLt \<Rightarrow> p \<and> \<not> equivalent | BinGe \<Rightarrow> q
                                 | _ \<Rightarrow> q \<and> \<not> equivalent) st) ValBool
        | _ \<Rightarrow> answered (symbolic_budget location st) id
      })"
| "symbolic_order rnd op location (ValBitLengthSet lbls) (ValSet literal) st =
     (if \<not> is_order op then left_over (ValBitLengthSet lbls) (ValSet literal) st
      else do {
        ((litInS, sInLit, sameCard), lbls) \<leftarrow> order_verdicts rnd (graph st) lbls literal;
        case order_result op sInLit litInS sameCard of
          Some result \<Rightarrow> answered (answer result st) ValBool
        | None \<Rightarrow> left_over (ValBitLengthSet lbls) (ValSet literal) st
      })"
| "symbolic_order rnd op location (ValSet literal) (ValBitLengthSet rbls) st =
     (if \<not> is_order op then left_over (ValSet literal) (ValBitLengthSet rbls) st
      else do {
        ((litInS, sInLit, sameCard), rbls) \<leftarrow> order_verdicts rnd (graph st) rbls literal;
        case order_result op litInS sInLit sameCard of
          Some result \<Rightarrow> answered (answer result st) ValBool
        | None \<Rightarrow> left_over (ValSet literal) (ValBitLengthSet rbls) st
      })"
| "symbolic_order rnd op location l r st = left_over l r st"

text \<open>The sum with a non-negative 64-bit integer stays symbolic; \<open>l\<close> and \<open>r\<close> are the operands in order.\<close>

definition plus_scalar :: "bit_length_set \<Rightarrow> rational \<Rightarrow> Value \<Rightarrow> Value \<Rightarrow> 'z ev_state_scheme \<Rightarrow> 'z attempt" where
  "plus_scalar sbls scalar l r st =
     (if \<not> isInteger scalar then left_over l r st
      else case asWideInteger scalar of
             None \<Rightarrow> left_over l r st
           | Some wide \<Rightarrow>
               if 0 \<le> wide \<and> wide \<le> int64_max
               then (let (c, s1) = bls_of_value wide (graph st); (total, s2) = bls_plus sbls c s1
                     in answered (answer total (st\<lparr>graph := s2\<rparr>)) ValBitLengthSet)
               else left_over l r st)"

fun symbolic_add :: "BinaryOp \<Rightarrow> Value \<Rightarrow> Value \<Rightarrow> 'z ev_state_scheme \<Rightarrow> 'z attempt" where
  "symbolic_add BinAdd (ValBitLengthSet b) (ValRational r) st =
     plus_scalar b r (ValBitLengthSet b) (ValRational r) st"
| "symbolic_add BinAdd (ValRational r) (ValBitLengthSet b) st =
     plus_scalar b r (ValRational r) (ValBitLengthSet b) st"
| "symbolic_add _ l r st = left_over l r st"

fun materialize_left :: "(rat \<Rightarrow> rat) \<Rightarrow> SourceLocation \<Rightarrow> Value \<Rightarrow> Value \<Rightarrow> 'z ev_state_scheme \<Rightarrow> 'z attempt" where
  "materialize_left rnd location (ValBitLengthSet b) r st =
     (case materializeExact rnd b location st of
        None \<Rightarrow> None
      | Some (None, st) \<Rightarrow> Some (Inl None, st)
      | Some (Some xs, st) \<Rightarrow> left_over (ValSet xs) r st)"
| "materialize_left rnd location l r st = left_over l r st"

fun materialize_right :: "(rat \<Rightarrow> rat) \<Rightarrow> SourceLocation \<Rightarrow> Value \<Rightarrow> Value \<Rightarrow> 'z ev_state_scheme \<Rightarrow> 'z attempt" where
  "materialize_right rnd location l (ValBitLengthSet b) st =
     (case materializeExact rnd b location st of
        None \<Rightarrow> None
      | Some (None, st) \<Rightarrow> Some (Inl None, st)
      | Some (Some xs, st) \<Rightarrow> left_over l (ValSet xs) st)"
| "materialize_right rnd location l r st = left_over l r st"

definition symbolic_binary :: "(rat \<Rightarrow> rat) \<Rightarrow> BinaryOp \<Rightarrow> SourceLocation \<Rightarrow> Value \<Rightarrow> Value \<Rightarrow> 'z ev_state_scheme \<Rightarrow> 'z attempt" where
  "symbolic_binary rnd op location l r st =
     or_else (or_else (or_else (or_else (or_else
       (symbolic_mod rnd op location l r st)
       (symbolic_equality rnd op location))
       (symbolic_order rnd op location))
       (symbolic_add op))
       (materialize_left rnd location))
       (materialize_right rnd location)"

subsection \<open>Concrete operands\<close>

definition is_elementwise :: "BinaryOp \<Rightarrow> bool" where
  "is_elementwise op \<longleftrightarrow> op = BinPow \<or> op = BinMul \<or> op = BinDiv \<or> op = BinMod \<or> op = BinAdd \<or> op = BinSub"

definition unsupported :: "SourceLocation \<Rightarrow> Value \<Rightarrow> Value \<Rightarrow> (Value, 'z) eval" where
  "unsupported location l r = fail location (''unsupported operand types: '' @ typeName l @ '' and '' @ typeName r)"

definition elementwise ::
  "(rat \<Rightarrow> rat) \<Rightarrow> BinaryOp \<Rightarrow> SourceLocation \<Rightarrow> rational list \<Rightarrow> rational list \<Rightarrow> (Value, 'z) eval" where
  "elementwise rnd op location ls rs st =
     (case applySetElementwise rnd op ls rs of
        None \<Rightarrow> None
      | Some None \<Rightarrow> fail location ''invalid elementwise set operation'' st
      | Some (Some out) \<Rightarrow> answer (ValSet out) st)"

definition rset_subset :: "(rat \<Rightarrow> rat) \<Rightarrow> rational list \<Rightarrow> rational list \<Rightarrow> bool" where
  "rset_subset rnd xs ys \<longleftrightarrow> list_all (rset_contains rnd ys) xs"

definition set_order :: "(rat \<Rightarrow> rat) \<Rightarrow> BinaryOp \<Rightarrow> rational list \<Rightarrow> rational list \<Rightarrow> bool" where
  "set_order rnd op ls rs =
     (case op of
        BinLe \<Rightarrow> rset_subset rnd ls rs
      | BinLt \<Rightarrow> rset_subset rnd ls rs \<and> \<not> rset_eq ls rs
      | BinGe \<Rightarrow> rset_subset rnd rs ls
      | _ \<Rightarrow> rset_subset rnd rs ls \<and> \<not> rset_eq ls rs)"

fun concrete_binary :: "(rat \<Rightarrow> rat) \<Rightarrow> BinaryOp \<Rightarrow> SourceLocation \<Rightarrow> Value \<Rightarrow> Value \<Rightarrow> (Value, 'z) eval" where
  "concrete_binary rnd op location (ValRational l) (ValRational r) st =
     (case applyBinaryRational rnd op l r of
        None \<Rightarrow> None
      | Some None \<Rightarrow> fail location ''invalid rational operation'' st
      | Some (Some v) \<Rightarrow> answer v st)"
| "concrete_binary rnd op location (ValBool l) (ValBool r) st =
     (case op of
        BinLogicalOr \<Rightarrow> answer (ValBool (l \<or> r)) st
      | BinLogicalAnd \<Rightarrow> answer (ValBool (l \<and> r)) st
      | BinEq \<Rightarrow> answer (ValBool (l = r)) st
      | BinNe \<Rightarrow> answer (ValBool (l \<noteq> r)) st
      | _ \<Rightarrow> unsupported location (ValBool l) (ValBool r) st)"
| "concrete_binary rnd op location (ValString l) (ValString r) st =
     (case op of
        BinAdd \<Rightarrow> answer (ValString (l @ r)) st
      | BinEq \<Rightarrow> answer (ValBool (l = r)) st
      | BinNe \<Rightarrow> answer (ValBool (l \<noteq> r)) st
      | _ \<Rightarrow> unsupported location (ValString l) (ValString r) st)"
| "concrete_binary rnd op location (ValSet ls) (ValSet rs) st =
     (if op = BinEq then answer (ValBool (rset_eq ls rs)) st
      else if op = BinNe then answer (ValBool (\<not> rset_eq ls rs)) st
      else if is_order op then answer (ValBool (set_order rnd op ls rs)) st
      else if op = BinBitOr \<or> op = BinBitAnd \<or> op = BinBitXor then answer (ValSet (applySetBinary rnd op ls rs)) st
      else if is_elementwise op then elementwise rnd op location ls rs st
      else unsupported location (ValSet ls) (ValSet rs) st)"
| "concrete_binary rnd op location (ValSet ls) (ValRational r) st =
     (if is_elementwise op then elementwise rnd op location ls [r] st
      else unsupported location (ValSet ls) (ValRational r) st)"
| "concrete_binary rnd op location (ValRational l) (ValSet rs) st =
     (if is_elementwise op then elementwise rnd op location [l] rs st
      else unsupported location (ValRational l) (ValSet rs) st)"
| "concrete_binary rnd op location l r st = unsupported location l r st"

definition is_symbolic :: "Value \<Rightarrow> bool" where
  "is_symbolic v \<longleftrightarrow> (case v of ValBitLengthSet _ \<Rightarrow> True | _ \<Rightarrow> False)"

text \<open>What \<^verbatim>\<open>evaluateBinary\<close> does once both operands have values.\<close>

definition binary_values :: "(rat \<Rightarrow> rat) \<Rightarrow> BinaryOp \<Rightarrow> SourceLocation \<Rightarrow> Value \<Rightarrow> Value \<Rightarrow> (Value, 'z) eval" where
  "binary_values rnd op location l r st =
     (if is_symbolic l \<or> is_symbolic r
      then (case symbolic_binary rnd op location l r st of
              None \<Rightarrow> None
            | Some (Inl result, st) \<Rightarrow> Some (result, st)
            | Some (Inr (l, r), st) \<Rightarrow> concrete_binary rnd op location l r st)
      else concrete_binary rnd op location l r st)"

subsection \<open>Attributes\<close>

text \<open>The cast of a size to \<^verbatim>\<open>std::int64_t\<close>.\<close>

definition int64_of_size :: "nat \<Rightarrow> int" where
  "int64_of_size n = (int n + 2 ^ 63) mod 2 ^ 64 - 2 ^ 63"

definition rational_value :: "int \<Rightarrow> (Value, 'z) eval" where
  "rational_value n st = do { r \<leftarrow> rational_of n 1; answer (ValRational r) st }"

definition no_attribute :: "SourceLocation \<Rightarrow> Value \<Rightarrow> (Value, 'z) eval" where
  "no_attribute location v = fail location (''attribute operator is not defined on '' @ typeName v)"

definition symbolic_count :: "(rat \<Rightarrow> rat) \<Rightarrow> bit_length_set \<Rightarrow> SourceLocation \<Rightarrow> (Value, 'z) eval" where
  "symbolic_count rnd bls location st =
     (let enumerate = (\<lambda>bls. on_value (materializeExact rnd bls location st) (\<lambda>xs. rational_value (int64_of_size (length xs))))
      in do {
        isFixed \<leftarrow> bls_fixed (graph st) bls;
        if isFixed then rational_value 1 st
        else case bls_runSet (graph st) bls of
               None \<Rightarrow> None
             | Some (Some rs, bls') \<Rightarrow>
                 (case rs_count rs of Some n \<Rightarrow> rational_value n st | None \<Rightarrow> enumerate bls')
             | Some (None, bls') \<Rightarrow> enumerate bls'
      })"

definition attribute_name :: "ExprAST \<Rightarrow> string option" where
  "attribute_name e = (case expr_value e of ExprIdentifier name \<Rightarrow> Some name | _ \<Rightarrow> None)"

fun attribute_of ::
  "(rat \<Rightarrow> rat) \<Rightarrow> 'z resolver option \<Rightarrow> string \<Rightarrow> SourceLocation \<Rightarrow> Value \<Rightarrow> (Value, 'z) eval" where
  "attribute_of rnd resolver name location (ValBitLengthSet bls) st =
     (if name = ''min'' then do { lo \<leftarrow> bls_min (graph st) bls; rational_value lo st }
      else if name = ''max'' then do { hi \<leftarrow> bls_max (graph st) bls; rational_value hi st }
      else if name = ''count'' then symbolic_count rnd bls location st
      else no_attribute location (ValBitLengthSet bls) st)"
| "attribute_of rnd resolver name location (ValSet xs) st =
     (if name = ''count'' then rational_value (int64_of_size (length xs)) st
      else if xs = [] then fail location ''cannot access set min/max on an empty set literal'' st
      else if name = ''min'' then answer (ValRational (hd xs)) st
      else if name = ''max'' then answer (ValRational (last xs)) st
      else no_attribute location (ValSet xs) st)"
| "attribute_of rnd resolver name location (ValType t) st =
     (case resolver of
        Some resolve \<Rightarrow> resolve t name location st
      | None \<Rightarrow>
          if name = ''_extent_'' then rational_value 0 st
          else fail location (''unsupported metaserializable attribute: '' @ name) st)"
| "attribute_of rnd resolver name location v st = no_attribute location v st"

subsection \<open>Evaluation\<close>

fun unary_value :: "UnaryOp \<Rightarrow> SourceLocation \<Rightarrow> Value \<Rightarrow> (Value, 'z) eval" where
  "unary_value UnLogicalNot location v st =
     (case asBool v of
        None \<Rightarrow> fail location ''logical not requires boolean operand'' st
      | Some b \<Rightarrow> answer (ValBool (\<not> b)) st)"
| "unary_value op location v st =
     (case asRational v of
        None \<Rightarrow> fail location ''unary +/- requires rational operand'' st
      | Some r \<Rightarrow>
          if op = UnMinus
          then do { n \<leftarrow> neg128 (numer r); m \<leftarrow> rational_of n (denom r); answer (ValRational m) st }
          else answer (ValRational r) st)"

function (sequential) evaluate_expr ::
    "(rat \<Rightarrow> rat) \<Rightarrow> (string \<rightharpoonup> Value) \<Rightarrow> 'z resolver option \<Rightarrow> ExprAST \<Rightarrow> (Value, 'z) eval"
  and evaluateBinary ::
    "(rat \<Rightarrow> rat) \<Rightarrow> (string \<rightharpoonup> Value) \<Rightarrow> 'z resolver option \<Rightarrow> BinaryOp \<Rightarrow> ExprAST \<Rightarrow> ExprAST \<Rightarrow> SourceLocation \<Rightarrow> (Value, 'z) eval"
  and evaluate_elements ::
    "(rat \<Rightarrow> rat) \<Rightarrow> (string \<rightharpoonup> Value) \<Rightarrow> 'z resolver option \<Rightarrow> ExprAST list \<Rightarrow> rational list \<Rightarrow> (rational list, 'z) eval" where
  "evaluate_expr rnd env resolver (ExprAST location (ExprBool b)) st = answer (ValBool b) st"
| "evaluate_expr rnd env resolver (ExprAST location (ExprRational r)) st = answer (ValRational r) st"
| "evaluate_expr rnd env resolver (ExprAST location (ExprString s)) st = answer (ValString s) st"
| "evaluate_expr rnd env resolver (ExprAST location (ExprIdentifier name)) st =
     (case env name of
        None \<Rightarrow> fail location (''undefined identifier: '' @ name) st
      | Some v \<Rightarrow> answer v st)"
| "evaluate_expr rnd env resolver (ExprAST location (ExprUnary op operand)) st =
     on_value (evaluate_expr rnd env resolver operand st) (unary_value op location)"
| "evaluate_expr rnd env resolver (ExprAST location (ExprBinary op l r)) st =
     evaluateBinary rnd env resolver op l r location st"
| "evaluate_expr rnd env resolver (ExprAST location (ExprSetLiteral es)) st =
     on_value (evaluate_elements rnd env resolver es [] st) (\<lambda>xs. answer (ValSet xs))"
| "evaluate_expr rnd env resolver (ExprAST location (ExprTypeLiteral t)) st = answer (ValType t) st"
| "evaluateBinary rnd env resolver op l r location st =
     (if op = BinAttribute
      then on_value (evaluate_expr rnd env resolver l st)
             (\<lambda>v st. case attribute_name r of
                None \<Rightarrow> fail location ''attribute operator expects identifier on RHS'' st
              | Some name \<Rightarrow> attribute_of rnd resolver name location v st)
      else do {
        (lv, st) \<leftarrow> evaluate_expr rnd env resolver l st;
        (rv, st) \<leftarrow> evaluate_expr rnd env resolver r st;
        case (lv, rv) of
          (Some lv, Some rv) \<Rightarrow> binary_values rnd op location lv rv st
        | _ \<Rightarrow> Some (None, st)
      })"
| "evaluate_elements rnd env resolver [] xs st = answer xs st"
| "evaluate_elements rnd env resolver (e # es) xs st =
     on_value (evaluate_expr rnd env resolver e st)
       (\<lambda>v st. case v of
          ValRational r \<Rightarrow> evaluate_elements rnd env resolver es (rset_insert rnd r xs) st
        | _ \<Rightarrow> fail (expr_location e) ''set literal elements must evaluate to rational'' st)"
  by pat_completeness auto
termination
  by (relation "measure (\<lambda>x. case x of
        Inl (_, _, _, e, _) \<Rightarrow> 2 * size e
      | Inr (Inl (_, _, _, _, l, r, _, _)) \<Rightarrow> 2 * (size l + size r) + 1
      | Inr (Inr (_, _, _, es, _, _)) \<Rightarrow> 2 * size_list size es + 1)") auto

text \<open>The entry point adds a diagnostic of its own when a failure left none.\<close>

definition evaluateExpression ::
  "(rat \<Rightarrow> rat) \<Rightarrow> ExprAST \<Rightarrow> (string \<rightharpoonup> Value) \<Rightarrow> SourceLocation \<Rightarrow> 'z resolver option \<Rightarrow> (Value, 'z) eval" where
  "evaluateExpression rnd expr env location resolver st = do {
     (v, st') \<leftarrow> evaluate_expr rnd env resolver expr st;
     if v = None \<and> length (diags st') = length (diags st) then fail location ''failed to evaluate expression'' st'
     else Some (v, st')
   }"

subsection \<open>Rendering\<close>

definition symbolic_str :: "store \<Rightarrow> bit_length_set \<Rightarrow> string option" where
  "symbolic_str s bls =
     (let braces = (\<lambda>vs. ''{'' @ separated_by '', '' (map decimal vs) @ ''}'')
      in case bls_runSet s bls of
           None \<Rightarrow> None
         | Some (Some rs, bls') \<Rightarrow>
             (case rs_materialize rs kExactMaterializationLimit of
                Some vs \<Rightarrow> Some (braces vs)
              | None \<Rightarrow> bls_str s bls')
         | Some (None, bls') \<Rightarrow> do {
             expansion \<leftarrow> bls_expandChecked s bls' kExactMaterializationLimit;
             if exact expansion then Some (braces (exp_values expansion)) else bls_str s bls'
           })"

fun val_str :: "store \<Rightarrow> Value \<Rightarrow> string option" where
  "val_str s (ValBool b) = Some (if b then ''true'' else ''false'')"
| "val_str s (ValRational r) = Some (rat_str r)"
| "val_str s (ValString t) = Some ([CHR 0x27] @ t @ [CHR 0x27])"
| "val_str s (ValSet xs) = Some (''{'' @ separated_by '', '' (map rat_str xs) @ ''}'')"
| "val_str s (ValType t) = Some (type_str t)"
| "val_str s (ValBitLengthSet b) = symbolic_str s b"

declare evaluateBinary.simps [simp del]

end
