(* ===== verification/EvaluatorTyping.thy ===== *)
theory EvaluatorTyping
  imports Evaluator
begin

text \<open>
  What every evaluation guarantees whatever the values are: how it uses the diagnostic log, and the
  types of the values it returns. The log only grows, a failure adds an error, and without a resolver
  a success adds nothing. The type system is the table of the operand types that the code accepts; an
  evaluation that returns a value returns one of the inferred type.
\<close>

subsection \<open>The log\<close>

text \<open>
  \<open>logged strict st m\<close>: the result \<open>m\<close> of a computation started in \<open>st\<close> appends to the log, at least one
  error if it fails, and in the strict case nothing if it succeeds.
\<close>

definition appended :: "bool \<Rightarrow> diagnostics \<Rightarrow> bool \<Rightarrow> diagnostics \<Rightarrow> bool" where
  "appended strict ds failed ds' \<longleftrightarrow>
     (\<exists>es. ds' = ds @ es \<and> (failed \<longrightarrow> hasErrors es) \<and> (strict \<longrightarrow> \<not> failed \<longrightarrow> es = []))"

definition logged :: "bool \<Rightarrow> 'z ev_state_scheme \<Rightarrow> ('a option \<times> 'z ev_state_scheme) option \<Rightarrow> bool" where
  "logged strict st m \<longleftrightarrow> (\<forall>r st'. m = Some (r, st') \<longrightarrow> appended strict (diags st) (r = None) (diags st'))"

definition logged_attempt :: "bool \<Rightarrow> 'z ev_state_scheme \<Rightarrow> 'z attempt \<Rightarrow> bool" where
  "logged_attempt strict st m \<longleftrightarrow>
     (\<forall>r st'. m = Some (r, st') \<longrightarrow> appended strict (diags st) (r = Inl None) (diags st'))"

definition resolver_logged :: "bool \<Rightarrow> 'z resolver option \<Rightarrow> bool" where
  "resolver_logged strict resolver \<longleftrightarrow>
     (\<forall>resolve t name location st. resolver = Some resolve \<longrightarrow> logged strict st (resolve t name location st))"

named_theorems logs \<open>computations that use the log as they should\<close>

lemma appended_refl [simp]: "appended strict ds False ds"
  by (simp add: appended_def)

lemma appended_error [simp]: "appended strict ds True (error location message ds)"
  by (auto simp: appended_def error_def error_at_def report_def hasErrors_def)

lemma hasErrors_append [simp]: "hasErrors [] \<longleftrightarrow> False" "hasErrors (xs @ ys) \<longleftrightarrow> hasErrors xs \<or> hasErrors ys"
  by (simp_all add: hasErrors_def)

lemma appended_trans:
  "appended strict ds a ds1 \<Longrightarrow> appended strict ds1 b ds2 \<Longrightarrow> c = (a \<or> b) \<Longrightarrow> appended strict ds c ds2"
  by (cases a) (auto simp: appended_def)

lemma logged_None [logs]: "logged strict st None"
  by (simp add: logged_def)

lemma logged_answer [logs]: "logged strict st (answer v st)"
  by (simp add: logged_def answer_def)

lemma logged_fail [logs]: "logged strict st (fail location message st)"
  by (simp add: logged_def fail_def)

lemma logged_bind [logs]: "(\<And>x. m = Some x \<Longrightarrow> logged strict st (k x)) \<Longrightarrow> logged strict st (Option.bind m k)"
  by (cases m) (simp_all add: logged_None)

lemma logged_on_value [logs]:
  assumes "logged strict st m" "\<And>v st'. m = Some (Some v, st') \<Longrightarrow> logged strict st' (k v st')"
  shows "logged strict st (on_value m k)"
proof (cases m)
  case (Some p)
  then show ?thesis using assms
    by (cases p; cases "fst p") (fastforce simp: logged_def on_value_def intro: appended_trans)+
qed (simp add: on_value_def logged_None)

lemma logged_attempt_None [logs]: "logged_attempt strict st None"
  by (simp add: logged_attempt_def)

lemma logged_left_over [logs]: "logged_attempt strict st (left_over l r st)"
  by (simp add: logged_attempt_def left_over_def)

lemma logged_answered [logs]: "logged strict st m \<Longrightarrow> logged_attempt strict st (answered m f)"
  by (auto simp: logged_attempt_def logged_def answered_def split: option.splits)

lemma logged_attempt_bind [logs]:
  "(\<And>x. m = Some x \<Longrightarrow> logged_attempt strict st (k x)) \<Longrightarrow> logged_attempt strict st (Option.bind m k)"
  by (cases m) (simp_all add: logged_attempt_None)

lemma logged_or_else [logs]:
  assumes "logged_attempt strict st m"
    and "\<And>l r st'. m = Some (Inr (l, r), st') \<Longrightarrow> logged_attempt strict st' (k l r st')"
  shows "logged_attempt strict st (or_else m k)"
proof (cases "\<exists>l r st'. m = Some (Inr (l, r), st')")
  case True
  then obtain l r st' where m: "m = Some (Inr (l, r), st')" by blast
  then show ?thesis using assms(1) assms(2) [OF m]
    by (fastforce simp: logged_attempt_def or_else_def intro: appended_trans)
next
  case False
  then have "or_else m k = m" by (auto simp: or_else_def split: option.splits sum.splits)
  then show ?thesis using assms(1) by simp
qed

lemma logged_comparison [logs]:
  "logged strict st (set_comparison_refused location st)" "logged strict st (symbolic_budget location st)"
  by (simp_all add: set_comparison_refused_def symbolic_budget_def logged_fail)

lemma logged_unsupported [logs]: "logged strict st (unsupported location l r st)"
  by (simp add: unsupported_def logged_fail)

lemma logged_no_attribute [logs]: "logged strict st (no_attribute location v st)"
  by (simp add: no_attribute_def logged_fail)

lemma logged_rational_value [logs]: "logged strict st (rational_value n st)"
  unfolding rational_value_def by (intro logs)

lemma logged_materialize [logs]: "logged strict st (materializeExact rnd bls location st)"
  by (auto simp: materializeExact_def Let_def intro!: logs split: option.splits)

lemma logged_equality_by_expansion [logs]: "logged strict st (equality_by_expansion rnd bls literal location st)"
  unfolding equality_by_expansion_def by (auto intro!: logs)

lemma logged_decide [logs]: "logged strict st (decideSetEquality rnd bls literal location st)"
  by (auto simp: decideSetEquality_def intro!: logs split: option.splits)

lemma logged_mod [logs]: "logged_attempt strict st (symbolic_mod rnd op location l r st)"
  by (rule symbolic_mod.cases [of "(rnd, op, location, l, r, st)"])
    (auto intro!: logs split: option.splits)

lemma logged_equality [logs]: "logged_attempt strict st (symbolic_equality rnd op location l r st)"
  by (rule symbolic_equality.cases [of "(rnd, op, location, l, r, st)"])
    (auto intro!: logs split: option.splits)

lemma logged_order [logs]: "logged_attempt strict st (symbolic_order rnd op location l r st)"
  by (rule symbolic_order.cases [of "(rnd, op, location, l, r, st)"])
    (auto simp: Let_def intro!: logs split: option.splits)

lemma logged_plus [logs]: "logged_attempt strict st (plus_scalar b x l r st)"
  by (auto simp: plus_scalar_def answered_def answer_def logged_attempt_def left_over_def split: option.splits prod.splits)

lemma logged_add [logs]: "logged_attempt strict st (symbolic_add op l r st)"
  by (rule symbolic_add.cases [of "(op, l, r, st)"]) (auto intro!: logs)

lemma logged_attempt_of:
  assumes "logged strict st m" "\<And>xs st'. m = Some (Some xs, st') \<Longrightarrow> k xs st' = left_over (f xs) (g xs) st'"
  shows "logged_attempt strict st
    (case m of None \<Rightarrow> None | Some (None, st) \<Rightarrow> Some (Inl None, st) | Some (Some xs, st) \<Rightarrow> k xs st)"
  using assms by (auto simp: logged_def logged_attempt_def left_over_def split: option.splits)

lemma logged_left [logs]: "logged_attempt strict st (materialize_left rnd location l r st)"
  by (cases l) (auto intro!: logs logged_attempt_of)

lemma logged_right [logs]: "logged_attempt strict st (materialize_right rnd location l r st)"
  by (cases r) (auto intro!: logs logged_attempt_of)

lemma logged_symbolic [logs]: "logged_attempt strict st (symbolic_binary rnd op location l r st)"
  unfolding symbolic_binary_def by (intro logs)

lemma logged_elementwise [logs]: "logged strict st (elementwise rnd op location ls rs st)"
  by (auto simp: elementwise_def intro!: logs split: option.splits)

lemma logged_concrete [logs]: "logged strict st (concrete_binary rnd op location l r st)"
  by (cases l; cases r) (auto intro!: logs split: option.splits BinaryOp.splits)

lemma logged_binary_values [logs]:
  fixes st :: "'z ev_state_scheme"
  shows "logged strict st (binary_values rnd op location l r st)"
proof (cases "is_symbolic l \<or> is_symbolic r")
  case True
  have "logged strict st (case m of None \<Rightarrow> None | Some (Inl result, st) \<Rightarrow> Some (result, st)
      | Some (Inr (l, r), st) \<Rightarrow> concrete_binary rnd op location l r st)"
    if "logged_attempt strict st m" for m :: "'z attempt"
    using that logged_concrete [where 'a = 'z]
    by (fastforce simp: logged_def logged_attempt_def intro: appended_trans split: option.splits sum.splits)
  then show ?thesis using True by (simp add: binary_values_def logged_symbolic)
qed (simp add: binary_values_def logged_concrete)

lemma logged_attribute [logs]:
  "resolver_logged strict resolver \<Longrightarrow> logged strict st (attribute_of rnd resolver name location v st)"
  by (cases v) (auto simp: symbolic_count_def Let_def resolver_logged_def intro!: logs split: option.splits)

lemma logged_unary [logs]: "logged strict st (unary_value op location v st)"
  by (cases op) (auto intro!: logs split: option.splits)

lemma logged_operands:
  assumes "logged strict st m" "\<And>lv st'. m = Some (lv, st') \<Longrightarrow> logged strict st' (n st')"
  shows "logged strict st (do {
    (lv, st) \<leftarrow> m; (rv, st) \<leftarrow> n st;
    case (lv, rv) of (Some lv, Some rv) \<Rightarrow> binary_values rnd op location lv rv st | _ \<Rightarrow> Some (None, st) })"
proof -
  have "appended strict (diags st) (r = None) (diags st')"
    if s: "m = Some (lv, st1)" "n st1 = Some (rv, st2)"
      "(case (lv, rv) of (Some lv, Some rv) \<Rightarrow> binary_values rnd op location lv rv st2 | _ \<Rightarrow> Some (None, st2)) = Some (r, st')"
    for lv st1 rv st2 r st'
  proof -
    have a: "appended strict (diags st) (lv = None) (diags st1)" "appended strict (diags st1) (rv = None) (diags st2)"
      using assms(1) assms(2) [OF s(1)] s by (auto simp: logged_def)
    have both: "appended strict (diags st) (lv = None \<or> rv = None) (diags st2)" using appended_trans [OF a] by blast
    show ?thesis
    proof (cases "lv = None \<or> rv = None")
      case True
      then have "r = None \<and> st' = st2" using s(3) by (auto split: option.splits)
      then show ?thesis using both True by simp
    next
      case False
      then obtain a b where "lv = Some a" "rv = Some b" by auto
      then have "appended strict (diags st2) (r = None) (diags st')"
        using s(3) logged_binary_values [of strict st2 rnd op location a b] by (simp add: logged_def)
      then show ?thesis using appended_trans [OF both] False by blast
    qed
  qed
  then show ?thesis by (auto simp: logged_def Option.bind_eq_Some_conv)
qed

lemma logged_evaluation:
  assumes "resolver_logged strict resolver"
  shows "logged strict st (evaluate_expr rnd env resolver e st)"
    and "logged strict st (evaluateBinary rnd env resolver op l r location st)"
    and "logged strict st (evaluate_elements rnd env resolver es xs st)"
  using assms
proof (induction rnd env resolver e st and rnd env resolver op l r location st and rnd env resolver es xs st
    rule: evaluate_expr_evaluateBinary_evaluate_elements.induct)
  case (9 rnd env resolver op l r location st)
  show ?case
  proof (cases "op = BinAttribute")
    case True
    then show ?thesis using 9 by (auto simp: evaluateBinary.simps intro!: logs split: option.splits)
  next
    case False
    have "logged strict st (evaluate_expr rnd env resolver l st)" using "9.IH"(2) False "9.prems" by blast
    then show ?thesis unfolding evaluateBinary.simps using False "9.IH"(3) "9.prems"
      by (simp only: if_False) (rule logged_operands, auto)
  qed
qed (auto intro!: logs split: option.splits Value.splits)

lemma logged_evaluateExpression:
  assumes "resolver_logged strict resolver"
  shows "logged strict st (evaluateExpression rnd e env location resolver st)"
proof -
  have L: "logged strict st (evaluate_expr rnd env resolver e st)" by (rule logged_evaluation [OF assms])
  have "length (diags st') \<noteq> length (diags st)" if "evaluate_expr rnd env resolver e st = Some (None, st')" for st'
    using L that by (fastforce simp: logged_def appended_def hasErrors_def)
  then show ?thesis using L by (auto simp: evaluateExpression_def logged_def Option.bind_eq_Some_conv split: if_splits)
qed

subsection \<open>Types\<close>

datatype ty = TyBool | TyRational | TyString | TySet | TyMeta

fun ty_of :: "Value \<Rightarrow> ty" where
  "ty_of (ValBool _) = TyBool"
| "ty_of (ValRational _) = TyRational"
| "ty_of (ValString _) = TyString"
| "ty_of (ValSet _) = TySet"
| "ty_of (ValBitLengthSet _) = TySet"
| "ty_of (ValType _) = TyMeta"

fun ty_name :: "ty \<Rightarrow> string" where
  "ty_name TyBool = ''bool''"
| "ty_name TyRational = ''rational''"
| "ty_name TyString = ''string''"
| "ty_name TySet = ''set<rational>''"
| "ty_name TyMeta = ''metaserializable''"

lemma ty_name_of: "typeName v = ty_name (ty_of v)"
  by (cases v) simp_all

definition is_bitwise :: "BinaryOp \<Rightarrow> bool" where
  "is_bitwise op \<longleftrightarrow> op = BinBitOr \<or> op = BinBitXor \<or> op = BinBitAnd"

definition is_equality :: "BinaryOp \<Rightarrow> bool" where
  "is_equality op \<longleftrightarrow> op = BinEq \<or> op = BinNe"

fun binary_type :: "BinaryOp \<Rightarrow> ty \<Rightarrow> ty \<Rightarrow> ty option" where
  "binary_type op TyRational TyRational =
     (if is_elementwise op \<or> is_bitwise op then Some TyRational
      else if is_equality op \<or> is_order op then Some TyBool else None)"
| "binary_type op TyBool TyBool =
     (if op = BinLogicalOr \<or> op = BinLogicalAnd \<or> is_equality op then Some TyBool else None)"
| "binary_type op TyString TyString =
     (if op = BinAdd then Some TyString else if is_equality op then Some TyBool else None)"
| "binary_type op TySet TySet =
     (if is_elementwise op \<or> is_bitwise op then Some TySet
      else if is_equality op \<or> is_order op then Some TyBool else None)"
| "binary_type op TySet TyRational = (if is_elementwise op then Some TySet else None)"
| "binary_type op TyRational TySet = (if is_elementwise op then Some TySet else None)"
| "binary_type op _ _ = None"

fun unary_type :: "UnaryOp \<Rightarrow> ty \<Rightarrow> ty option" where
  "unary_type UnLogicalNot t = (if t = TyBool then Some TyBool else None)"
| "unary_type _ t = (if t = TyRational then Some TyRational else None)"

text \<open>\<open>meta\<close> types the attributes that a resolver answers.\<close>

fun attribute_type :: "(string \<rightharpoonup> ty) \<Rightarrow> string \<Rightarrow> ty \<Rightarrow> ty option" where
  "attribute_type meta name TySet =
     (if name = ''min'' \<or> name = ''max'' \<or> name = ''count'' then Some TyRational else None)"
| "attribute_type meta name TyMeta = meta name"
| "attribute_type meta name _ = None"

fun infer :: "(string \<rightharpoonup> ty) \<Rightarrow> (string \<rightharpoonup> ty) \<Rightarrow> ExprAST \<Rightarrow> ty option"
  and infer_value :: "(string \<rightharpoonup> ty) \<Rightarrow> (string \<rightharpoonup> ty) \<Rightarrow> ExprValue \<Rightarrow> ty option"
  and all_rational :: "(string \<rightharpoonup> ty) \<Rightarrow> (string \<rightharpoonup> ty) \<Rightarrow> ExprAST list \<Rightarrow> bool" where
  "infer meta env (ExprAST _ v) = infer_value meta env v"
| "infer_value meta env (ExprBool _) = Some TyBool"
| "infer_value meta env (ExprRational _) = Some TyRational"
| "infer_value meta env (ExprString _) = Some TyString"
| "infer_value meta env (ExprIdentifier name) = env name"
| "infer_value meta env (ExprUnary op e) = Option.bind (infer meta env e) (unary_type op)"
| "infer_value meta env (ExprBinary op l r) =
     (if op = BinAttribute
      then (case attribute_name r of None \<Rightarrow> None
            | Some name \<Rightarrow> Option.bind (infer meta env l) (attribute_type meta name))
      else do { a \<leftarrow> infer meta env l; b \<leftarrow> infer meta env r; binary_type op a b })"
| "infer_value meta env (ExprSetLiteral es) = (if all_rational meta env es then Some TySet else None)"
| "infer_value meta env (ExprTypeLiteral _) = Some TyMeta"
| "all_rational meta env [] \<longleftrightarrow> True"
| "all_rational meta env (e # es) \<longleftrightarrow> infer meta env e = Some TyRational \<and> all_rational meta env es"

text \<open>\<open>of_type t m\<close>: a value of the result \<open>m\<close> has the type \<open>t\<close>, and there is none when \<open>t\<close> is none.\<close>

definition of_type :: "ty option \<Rightarrow> (Value option \<times> 'z ev_state_scheme) option \<Rightarrow> bool" where
  "of_type t m \<longleftrightarrow> (\<forall>v st'. m = Some (Some v, st') \<longrightarrow> t = Some (ty_of v))"

definition attempt_of_type :: "ty option \<Rightarrow> ty \<Rightarrow> ty \<Rightarrow> 'z attempt \<Rightarrow> bool" where
  "attempt_of_type t a b m \<longleftrightarrow>
     (\<forall>v st'. m = Some (Inl (Some v), st') \<longrightarrow> t = Some (ty_of v)) \<and>
     (\<forall>l r st'. m = Some (Inr (l, r), st') \<longrightarrow> ty_of l = a \<and> ty_of r = b)"

definition env_typed :: "(string \<rightharpoonup> ty) \<Rightarrow> (string \<rightharpoonup> Value) \<Rightarrow> bool" where
  "env_typed \<Gamma> env \<longleftrightarrow> (\<forall>name v. env name = Some v \<longrightarrow> \<Gamma> name = Some (ty_of v))"

definition resolver_typed :: "(string \<rightharpoonup> ty) \<Rightarrow> 'z resolver option \<Rightarrow> bool" where
  "resolver_typed meta resolver \<longleftrightarrow>
     (case resolver of None \<Rightarrow> meta ''_extent_'' = Some TyRational
      | Some resolve \<Rightarrow> \<forall>t name location st. of_type (meta name) (resolve t name location st))"

named_theorems typed \<open>results of the right type\<close>

lemma of_type_None [typed]: "of_type t None"
  by (simp add: of_type_def)

lemma of_type_answer [typed]: "t = Some (ty_of v) \<Longrightarrow> of_type t (answer v st)"
  by (simp add: of_type_def answer_def)

lemma of_type_fail [typed]:
  "of_type t (fail location message st)" "of_type t (unsupported location l r st)" "of_type t (no_attribute location v st)"
  by (simp_all add: of_type_def fail_def unsupported_def no_attribute_def)

lemma of_type_bind [typed]: "(\<And>x. m = Some x \<Longrightarrow> of_type t (k x)) \<Longrightarrow> of_type t (Option.bind m k)"
  by (cases m) (simp_all add: of_type_None)

lemma of_type_on_value [typed]:
  "(\<And>v st'. m = Some (Some v, st') \<Longrightarrow> of_type t (k v st')) \<Longrightarrow> of_type t (on_value m k)"
  by (auto simp: of_type_def on_value_def split: option.splits)

lemma of_type_rational_value [typed]: "t = Some TyRational \<Longrightarrow> of_type t (rational_value n st)"
  unfolding rational_value_def by (intro typed) simp

lemma attempt_None [typed]: "attempt_of_type t a b None"
  by (simp add: attempt_of_type_def)

lemma attempt_left_over [typed]: "ty_of l = a \<Longrightarrow> ty_of r = b \<Longrightarrow> attempt_of_type t a b (left_over l r st)"
  by (simp add: attempt_of_type_def left_over_def)

lemma attempt_answered [typed]: "(\<And>x. t = Some (ty_of (f x))) \<Longrightarrow> attempt_of_type t a b (answered m f)"
  by (auto simp: attempt_of_type_def answered_def)

lemma attempt_bind [typed]:
  "(\<And>x. m = Some x \<Longrightarrow> attempt_of_type t a b (k x)) \<Longrightarrow> attempt_of_type t a b (Option.bind m k)"
  by (cases m) (simp_all add: attempt_None)

lemma attempt_or_else:
  assumes "attempt_of_type t a b m" "\<And>l r st'. ty_of l = a \<Longrightarrow> ty_of r = b \<Longrightarrow> attempt_of_type t a b (k l r st')"
  shows "attempt_of_type t a b (or_else m k)"
proof (cases "\<exists>l r st'. m = Some (Inr (l, r), st')")
  case True
  then obtain l r st' where m: "m = Some (Inr (l, r), st')" by blast
  then have "ty_of l = a" "ty_of r = b" using assms(1) by (simp_all add: attempt_of_type_def)
  then show ?thesis using assms(2) [of l r st'] m by (simp add: or_else_def)
next
  case False
  then have "or_else m k = m" by (auto simp: or_else_def split: option.splits sum.splits)
  then show ?thesis using assms(1) by simp
qed

lemma attempt_refused [typed]:
  "attempt_of_type t a b (answered (fail location message st) id)"
  "attempt_of_type t a b (answered (symbolic_budget location st) id)"
  by (simp_all add: attempt_of_type_def answered_def fail_def symbolic_budget_def)

lemmas op_classes = is_elementwise_def is_bitwise_def is_equality_def is_order_def

lemma typed_mod: "attempt_of_type (binary_type op (ty_of l) (ty_of r)) (ty_of l) (ty_of r) (symbolic_mod rnd op location l r st)"
  by (rule symbolic_mod.cases [of "(rnd, op, location, l, r, st)"])
    (auto simp: op_classes intro!: typed split: option.splits)

lemma typed_equality: "attempt_of_type (binary_type op (ty_of l) (ty_of r)) (ty_of l) (ty_of r) (symbolic_equality rnd op location l r st)"
  by (rule symbolic_equality.cases [of "(rnd, op, location, l, r, st)"])
    (auto simp: op_classes intro!: typed split: option.splits)

lemma typed_order: "attempt_of_type (binary_type op (ty_of l) (ty_of r)) (ty_of l) (ty_of r) (symbolic_order rnd op location l r st)"
  by (rule symbolic_order.cases [of "(rnd, op, location, l, r, st)"])
    (auto simp: op_classes Let_def intro!: typed split: option.splits)

lemma typed_plus:
  "t = Some TySet \<Longrightarrow> ty_of l = a \<Longrightarrow> ty_of r = b \<Longrightarrow> attempt_of_type t a b (plus_scalar x s l r st)"
  by (auto simp: plus_scalar_def intro!: typed split: option.splits prod.splits)

lemma typed_add: "attempt_of_type (binary_type op (ty_of l) (ty_of r)) (ty_of l) (ty_of r) (symbolic_add op l r st)"
  by (rule symbolic_add.cases [of "(op, l, r, st)"]) (auto simp: op_classes intro!: typed typed_plus)

lemma typed_left: "attempt_of_type t (ty_of l) (ty_of r) (materialize_left rnd location l r st)"
  by (cases l) (auto simp: attempt_of_type_def left_over_def split: option.splits)

lemma typed_right: "attempt_of_type t (ty_of l) (ty_of r) (materialize_right rnd location l r st)"
  by (cases r) (auto simp: attempt_of_type_def left_over_def split: option.splits)

lemma typed_symbolic:
  "attempt_of_type (binary_type op (ty_of l) (ty_of r)) (ty_of l) (ty_of r) (symbolic_binary rnd op location l r st)"
proof -
  let ?of = "attempt_of_type (binary_type op (ty_of l) (ty_of r)) (ty_of l) (ty_of r)"
  have steps: "?of (symbolic_equality rnd op location l' r' st')" "?of (symbolic_order rnd op location l' r' st')"
    "?of (symbolic_add op l' r' st')" "?of (materialize_left rnd location l' r' st')"
    "?of (materialize_right rnd location l' r' st')"
    if "ty_of l' = ty_of l" "ty_of r' = ty_of r" for l' r' st'
    using that typed_equality [of op l' r'] typed_order [of op l' r'] typed_add [of op l' r']
      typed_left [of _ l' r'] typed_right [of _ l' r'] by simp_all
  show ?thesis unfolding symbolic_binary_def by (intro attempt_or_else typed_mod steps)
qed

lemma typed_rational: "applyBinaryRational rnd op l r = Some (Some v) \<Longrightarrow> binary_type op TyRational TyRational = Some (ty_of v)"
  by (cases op)
    (auto simp: applyBinaryRational_def op_classes checked_result_def rational_result_def rational_bits_def
      rational_mod_def Option.bind_eq_Some_conv split: if_splits)

lemma typed_elementwise [typed]: "t = Some TySet \<Longrightarrow> of_type t (elementwise rnd op location ls rs st)"
  by (auto simp: elementwise_def intro!: typed split: option.splits)

lemma typed_concrete: "of_type (binary_type op (ty_of l) (ty_of r)) (concrete_binary rnd op location l r st)"
proof (cases "\<exists>a b. l = ValRational a \<and> r = ValRational b")
  case True
  then obtain a b where "l = ValRational a" "r = ValRational b" by blast
  then show ?thesis using typed_rational [of rnd op a b]
    by (auto simp del: binary_type.simps intro!: typed split: option.splits)
next
  case False
  have "of_type (binary_type op TyBool TyBool) (concrete_binary rnd op location (ValBool a) (ValBool b) st)" for a b
    by (cases op) (simp_all add: op_classes typed)
  moreover have "of_type (binary_type op TyString TyString) (concrete_binary rnd op location (ValString a) (ValString b) st)" for a b
    by (cases op) (simp_all add: op_classes typed)
  moreover have "of_type (binary_type op TySet TySet) (concrete_binary rnd op location (ValSet a) (ValSet b) st)" for a b
    by (cases op) (simp_all add: op_classes typed)
  ultimately show ?thesis using False by (cases l; cases r) (simp_all add: typed)
qed

lemma typed_binary_values:
  fixes st :: "'z ev_state_scheme"
  shows "of_type (binary_type op (ty_of l) (ty_of r)) (binary_values rnd op location l r st)"
proof (cases "is_symbolic l \<or> is_symbolic r")
  case True
  have "of_type t (case m of None \<Rightarrow> None | Some (Inl result, st) \<Rightarrow> Some (result, st)
      | Some (Inr (l, r), st) \<Rightarrow> concrete_binary rnd op location l r st)"
    if "attempt_of_type t a b m" "t = binary_type op a b" for m :: "'z attempt" and t a b
    using that(1) typed_concrete [where 'a = 'z]
    unfolding that(2) of_type_def attempt_of_type_def by (auto split: option.splits sum.splits) blast
  then show ?thesis using True by (simp add: binary_values_def typed_symbolic)
qed (simp add: binary_values_def typed_concrete)

lemma typed_attribute:
  "resolver_typed meta resolver \<Longrightarrow> of_type (attribute_type meta name (ty_of v)) (attribute_of rnd resolver name location v st)"
  by (cases v) (auto simp: symbolic_count_def Let_def resolver_typed_def intro!: typed split: option.splits)

lemma typed_unary: "of_type (unary_type op (ty_of v)) (unary_value op location v st)"
  by (cases op; cases v) (auto intro!: typed)

lemma both_operands:
  assumes "Option.bind m (\<lambda>(lv, st). Option.bind (n st) (\<lambda>(rv, st).
    case (lv, rv) of (Some lv, Some rv) \<Rightarrow> k lv rv st | _ \<Rightarrow> Some (None, st))) = Some (Some v, st')"
  obtains a st1 b st2 where "m = Some (Some a, st1)" "n st1 = Some (Some b, st2)" "k a b st2 = Some (Some v, st')"
  using assms by (auto simp: Option.bind_eq_Some_conv split: prod.splits) (auto split: option.splits)

lemma typed_evaluation:
  assumes "env_typed \<Gamma> env" "resolver_typed meta resolver"
  shows "of_type (infer meta \<Gamma> e) (evaluate_expr rnd env resolver e st)"
    and "of_type (infer_value meta \<Gamma> (ExprBinary op l r)) (evaluateBinary rnd env resolver op l r location st)"
    and "evaluate_elements rnd env resolver es xs st = Some (Some ys, st') \<Longrightarrow> all_rational meta \<Gamma> es"
  using assms
proof (induction rnd env resolver e st and rnd env resolver op l r location st and rnd env resolver es xs st
    arbitrary: and and ys st'
    rule: evaluate_expr_evaluateBinary_evaluate_elements.induct)
  case (4 rnd env resolver location name st)
  then show ?case by (auto simp: env_typed_def intro!: typed split: option.splits)
next
  case (5 rnd env resolver location op operand st)
  then show ?case using typed_unary by (fastforce simp: of_type_def on_value_def split: option.splits)
next
  case (7 rnd env resolver location es st)
  then show ?case by (auto simp: of_type_def on_value_def answer_def split: option.splits)
next
  case (9 rnd env resolver op l r location st)
  show ?case
  proof (cases "op = BinAttribute")
    case True
    have L: "of_type (infer meta \<Gamma> l) (evaluate_expr rnd env resolver l st)" using 9 True by blast
    have "of_type (infer_value meta \<Gamma> (ExprBinary op l r))
        (case attribute_name r of None \<Rightarrow> fail location ''attribute operator expects identifier on RHS'' st'
         | Some name \<Rightarrow> attribute_of rnd resolver name location v st')"
      if "evaluate_expr rnd env resolver l st = Some (Some v, st')" for v st'
      using L that True typed_attribute [OF "9.prems"(2), of _ v rnd location st']
      by (auto simp: of_type_def fail_def split: option.splits)
    then show ?thesis using True by (auto simp: evaluateBinary.simps intro!: of_type_on_value)
  next
    case False
    have L: "of_type (infer meta \<Gamma> l) (evaluate_expr rnd env resolver l st)" using 9 False by blast
    have R: "of_type (infer meta \<Gamma> r) (evaluate_expr rnd env resolver r st1)"
      if "evaluate_expr rnd env resolver l st = Some (lv, st1)" for lv st1 using 9 False that by blast
    have "infer_value meta \<Gamma> (ExprBinary op l r) = Some (ty_of v)"
      if "evaluate_expr rnd env resolver l st = Some (Some a, st1)" "evaluate_expr rnd env resolver r st1 = Some (Some b, st2)"
        "binary_values rnd op location a b st2 = Some (Some v, st')" for a st1 b st2 v st'
      using L R [OF that(1)] that typed_binary_values [of op a b rnd location st2] False by (auto simp: of_type_def)
    then show ?thesis using False
      unfolding of_type_def evaluateBinary.simps if_not_P [OF False] by (blast elim!: both_operands)
  qed
next
  case (11 rnd env resolver e es xs st)
  then show ?case by (auto simp: of_type_def on_value_def fail_def split: option.splits Value.splits)
qed (auto intro!: typed)

end
