(* ===== verification/EvaluatorSets.thy ===== *)
theory EvaluatorSets
  imports EvaluatorTyping
begin

text \<open>
  What the evaluator finds out about a symbolic set, stated on the set of rational numbers it stands
  for: a materialised set is that set, the verdict of a comparison is the mathematical one, and the
  truncated expansions that the ladder falls back to never decide anything they do not know.
\<close>

subsection \<open>Integers as rationals\<close>

definition rat_of_i64 :: "int \<Rightarrow> rational" where
  "rat_of_i64 v = \<lparr>numer = v, denom = 1, overflowed = False\<rparr>"

lemma rat_of_i64_simps [simp]:
  "numer (rat_of_i64 v) = v" "denom (rat_of_i64 v) = 1" "overflowed (rat_of_i64 v) = False"
  "rat_value (rat_of_i64 v) = of_int v"
  by (simp_all add: rat_of_i64_def rat_value_def)

lemma rational_of_int: "\<bar>v\<bar> \<le> int128_max \<Longrightarrow> rational_of v 1 = Some (rat_of_i64 v)"
  using rational_of_reduces [of v 1] by (simp add: reduced_def rat_of_i64_def int128_max_def)

lemma i64_abs: "i64 v \<Longrightarrow> \<bar>v\<bar> \<le> int128_max"
  by (auto simp: int64_defs int128_max_def)

lemma small_rat_of_i64: "i64 v \<Longrightarrow> small_rational (rat_of_i64 v)"
  using i64_abs [of v] by (auto simp: small_rational_def rat_ok_def fits64_def int128_max_def int64_max_def)

lemma rational_of_i64: "i64 v \<Longrightarrow> rational_of v 1 = Some (rat_of_i64 v)"
  by (simp add: rational_of_int i64_abs)

lemma rat_ok_integer: "rat_ok r \<Longrightarrow> rat_value r = of_int v \<longleftrightarrow> denom r = 1 \<and> numer r = v"
proof
  assume ok: "rat_ok r" and v: "rat_value r = of_int v"
  then have "rat_of_int (numer r) = of_int (v * denom r)" by (simp add: rat_value_def rat_ok_def field_simps)
  then have n: "numer r = v * denom r" by (simp only: of_int_eq_iff)
  moreover have "coprime (numer r) (denom r)" "0 < denom r" using ok by (auto simp: rat_ok_def)
  ultimately show "denom r = 1 \<and> numer r = v" by simp
qed (simp add: rat_value_def)

lemma isInteger_value: "rat_ok r \<Longrightarrow> isInteger r \<longleftrightarrow> rat_value r \<in> \<int>"
  using rat_ok_integer [of r] by (auto simp: isInteger_def Ints_def rat_value_def)

lemma integer_floor: "rat_ok r \<Longrightarrow> isInteger r \<Longrightarrow> numer r = \<lfloor>rat_value r\<rfloor>"
  by (simp add: isInteger_def rat_value_def)

lemma literal_as_int: "small_rational r \<Longrightarrow> literalElementAsInt r = Some v \<longleftrightarrow> rat_value r = of_int v"
  using rat_ok_integer [of r v]
  by (auto simp: literalElementAsInt_def isInteger_def asWideInteger_def small_rational_def fits64_def i64_def)

text \<open>The test on one element of a literal, given a membership test on integers.\<close>

lemma literal_member:
  assumes "small_rational r"
  shows "(case literalElementAsInt r of None \<Rightarrow> False | Some v \<Rightarrow> P v) \<longleftrightarrow> rat_value r \<in> of_int ` {v. P v}"
proof (cases "literalElementAsInt r")
  case None
  then show ?thesis using literal_as_int [OF assms] by auto
next
  case (Some v)
  then have "rat_value r = of_int v" using literal_as_int [OF assms] by simp
  then show ?thesis using Some by auto
qed

lemma rationals_into_good:
  "\<forall>v\<in>set vs. i64 v \<Longrightarrow> rset_ok out \<Longrightarrow>
    \<exists>xs. rationals_into rnd vs out = Some xs \<and> rset_ok xs \<and> rset_values xs = of_int ` set vs \<union> rset_values out"
proof (induction vs arbitrary: out)
  case (Cons v vs)
  have "rset_ok (rset_insert rnd (rat_of_i64 v) out)"
    "rset_values (rset_insert rnd (rat_of_i64 v) out) = insert (of_int v) (rset_values out)"
    using rset_insert_ok [OF small_rat_of_i64 Cons.prems(2)] Cons.prems(1) by auto
  then show ?case using Cons.IH [of "rset_insert rnd (rat_of_i64 v) out"] Cons.prems(1)
    by (auto simp: rational_of_i64)
qed simp

lemma toRationalSet_good:
  "\<forall>v\<in>set vs. i64 v \<Longrightarrow> \<exists>xs. toRationalSet rnd vs = Some xs \<and> rset_ok xs \<and> rset_values xs = of_int ` set vs"
  using rationals_into_good [of vs "[]" rnd] by (simp add: toRationalSet_def)

subsection \<open>The rational set of a symbolic set\<close>

definition rationals :: "bl_expr \<Rightarrow> rat set" where
  "rationals e = of_int ` clamped e"

lemma finite_rationals [simp]: "finite (rationals e)"
  by (simp add: rationals_def)

lemma card_rationals: "card (rationals e) = card (clamped e)"
  unfolding rationals_def by (rule card_image) (simp add: inj_on_def)

lemma Min_rationals: "clamped e \<noteq> {} \<Longrightarrow> Min (rationals e) = of_int (Min (clamped e))"
  unfolding rationals_def by (rule mono_Min_commute [symmetric]) (auto intro: monoI)

lemma Max_rationals: "clamped e \<noteq> {} \<Longrightarrow> Max (rationals e) = of_int (Max (clamped e))"
  unfolding rationals_def by (rule mono_Max_commute [symmetric]) (auto intro: monoI)

lemma expansion_good:
  assumes "store_ok s" "bls_denotes s b e" "0 < limit"
  shows "\<exists>x xs. bls_expandChecked s b limit = Some x \<and> toRationalSet rnd (exp_values x) = Some xs \<and> rset_ok xs \<and>
    rset_values xs \<subseteq> rationals e \<and> (exact x \<longrightarrow> rset_values xs = rationals e)"
proof -
  obtain x where x: "bls_expandChecked s b limit = Some x" "expand_good limit e x"
    using bls_expandChecked_good [OF assms(1,2), of limit] assms(3) by (auto simp: max_def)
  then have k: "set (exp_values x) \<subseteq> clamped e" "exact x \<longrightarrow> set (exp_values x) = clamped e"
    by (auto simp: expand_good_def kept_def)
  have "\<forall>v\<in>set (exp_values x). i64 v" using k(1) clamped_i64 [OF node_wf [OF assms(1,2)]] by blast
  then obtain xs where xs: "toRationalSet rnd (exp_values x) = Some xs" "rset_ok xs"
    "rset_values xs = of_int ` set (exp_values x)" using toRationalSet_good by blast
  have "rset_values xs \<subseteq> rationals e" unfolding xs(3) rationals_def using k(1) by (rule image_mono)
  then show ?thesis using xs x(1) k(2) by (auto simp: rationals_def)
qed

lemma limit_pos: "0 < kExactMaterializationLimit"
  by (simp add: kExactMaterializationLimit_def)

lemma materializeExact_good:
  assumes "store_ok (graph st)" "obj_ok (graph st) b" "bls_denotes (graph st) b e"
  shows "\<exists>r st'. materializeExact rnd b location st = Some (r, st') \<and>
    (\<forall>xs. r = Some xs \<longrightarrow> st' = st \<and> rset_ok xs \<and> rset_values xs = rationals e)"
proof -
  obtain v b' where v: "bls_runSet (graph st) b = Some (v, b')" "run_good e v" "same_obj (graph st) b b'"
    using bls_runSet_good [OF assms] by blast
  have d: "bls_denotes (graph st) b' e" using v(3) assms(3) by (simp add: same_obj_def)
  obtain x xs where x: "bls_expandChecked (graph st) b' kExactMaterializationLimit = Some x"
    "toRationalSet rnd (exp_values x) = Some xs" "rset_ok xs" "exact x \<longrightarrow> rset_values xs = rationals e"
    using expansion_good [OF assms(1) d limit_pos] by blast
  have runs: "\<exists>xs. toRationalSet rnd vs = Some xs \<and> rset_ok xs \<and> rset_values xs = rationals e"
    if m: "v = Some rs" "rs_materialize rs kExactMaterializationLimit = Some vs" for rs vs
  proof -
    have rs: "rs_ok rs" "runs_set rs = clamped e" using run_good_clamped [of e rs] v(2) m(1) by simp_all
    then have "vs = sorted_list_of_set (clamped e)"
      using m(2) by (auto simp: rs_ok_iff rs_materialize_exact split: if_splits)
    then have "set vs = clamped e" by simp
    then show ?thesis using toRationalSet_good [of vs rnd] clamped_i64 [OF node_wf [OF assms(1,3)]]
      by (auto simp: rationals_def)
  qed
  show ?thesis
  proof (cases v)
    case None
    then show ?thesis using v(1) x by (auto simp: materializeExact_def Let_def answer_def fail_def)
  next
    case (Some rs)
    show ?thesis
    proof (cases "rs_materialize rs kExactMaterializationLimit")
      case None
      then show ?thesis using Some v(1) by (simp add: materializeExact_def Let_def fail_def)
    next
      case vs: (Some vs)
      then show ?thesis using runs [OF Some vs] Some v(1) by (auto simp: materializeExact_def Let_def answer_def)
    qed
  qed
qed

subsection \<open>Deciding equality\<close>

lemma uintmax_count: "uintmax (int (card A)) = int (card A)" if "int (card A) \<le> int64_max"
  using that by (simp add: uintmax_def int64_max_def)

text \<open>Finite sets of equal size are equal once one contains the other.\<close>

lemma card_subset_eq_iff: "finite A \<Longrightarrow> card A = card B \<Longrightarrow> B \<subseteq> A \<longleftrightarrow> B = A"
  by (auto dest: card_subset_eq)

lemma equality_by_expansion_good:
  assumes "store_ok (graph st)" "bls_denotes (graph st) b e" "rset_ok L"
  shows "\<exists>r st'. equality_by_expansion rnd b L location st = Some (r, st') \<and>
    (\<forall>eq. r = Some eq \<longrightarrow> st' = st \<and> (eq \<longleftrightarrow> rationals e = rset_values L))"
proof -
  obtain x xs where x: "bls_expandChecked (graph st) b kExactMaterializationLimit = Some x"
    "toRationalSet rnd (exp_values x) = Some xs" "rset_ok xs" "rset_values xs \<subseteq> rationals e"
    "exact x \<longrightarrow> rset_values xs = rationals e"
    using expansion_good [OF assms(1,2) limit_pos] by blast
  have "rationals e \<noteq> rset_values L" if "length L < length xs"
  proof
    assume "rationals e = rset_values L"
    then have "card (rset_values xs) \<le> card (rset_values L)" using x(4) by (auto intro: card_mono)
    then show False using that rset_length [OF x(3)] rset_length [OF assms(3)] by simp
  qed
  moreover have "rationals e \<noteq> rset_values L" if "v \<in> set xs" "\<not> rset_contains rnd L v" for v
    using that x(4) rset_contains_iff [OF rset_okD [OF x(3)] assms(3)] by blast
  moreover have "rset_eq xs L \<longleftrightarrow> rset_values xs = rset_values L" by (rule rset_eq_iff [OF x(3) assms(3)])
  ultimately show ?thesis using x
    by (auto simp: equality_by_expansion_def answer_def set_comparison_refused_def fail_def list_ex_iff)
qed

lemma bounds_rational:
  assumes "store_ok s" "bls_denotes s b e"
  shows "bls_min s b = Some (Min (clamped e))" "bls_max s b = Some (Max (clamped e))"
    "rational_of (Min (clamped e)) 1 = Some (rat_of_i64 (Min (clamped e)))"
    "rational_of (Max (clamped e)) 1 = Some (rat_of_i64 (Max (clamped e)))"
    "small_rational (rat_of_i64 (Min (clamped e)))" "small_rational (rat_of_i64 (Max (clamped e)))"
    "of_int (Min (clamped e)) \<in> rationals e" "of_int (Max (clamped e)) \<in> rationals e"
proof -
  note w = node_wf [OF assms] and ne = clamped_nonempty [OF node_wf [OF assms]]
  have m: "Min (clamped e) \<in> clamped e" "Max (clamped e) \<in> clamped e" using ne by simp_all
  have i: "i64 (Min (clamped e))" "i64 (Max (clamped e))" using clamped_i64 [OF w] m by blast+
  show "bls_min s b = Some (Min (clamped e))" "bls_max s b = Some (Max (clamped e))" by (rule bounds_good [OF assms])+
  show "rational_of (Min (clamped e)) 1 = Some (rat_of_i64 (Min (clamped e)))"
    "rational_of (Max (clamped e)) 1 = Some (rat_of_i64 (Max (clamped e)))" using i by (auto intro: rational_of_i64)
  show "small_rational (rat_of_i64 (Min (clamped e)))" "small_rational (rat_of_i64 (Max (clamped e)))"
    using i by (auto intro: small_rat_of_i64)
  show "of_int (Min (clamped e)) \<in> rationals e" "of_int (Max (clamped e)) \<in> rationals e"
    using m by (auto simp: rationals_def)
qed

lemma all_members:
  assumes "rset_ok L" "rs_ok rs" "of_int ` runs_set rs = S"
  shows "list_all (\<lambda>r. case literalElementAsInt r of None \<Rightarrow> False | Some v \<Rightarrow> rs_contains rs v) L \<longleftrightarrow> rset_values L \<subseteq> S"
proof -
  have "(case literalElementAsInt r of None \<Rightarrow> False | Some v \<Rightarrow> rs_contains rs v) \<longleftrightarrow> rat_value r \<in> S" if "r \<in> set L" for r
    using literal_member [OF rset_okD [OF assms(1) that], of "rs_contains rs"] assms(2,3)
    by (simp add: rs_contains_exact rs_ok_iff)
  then show ?thesis by (auto simp: list_all_iff)
qed

lemma decideSetEquality_good:
  assumes "store_ok (graph st)" "obj_ok (graph st) b" "bls_denotes (graph st) b e" "rset_ok L"
  shows "\<exists>r st'. decideSetEquality rnd b L location st = Some (r, st') \<and>
    (\<forall>eq. r = Some eq \<longrightarrow> st' = st \<and> (eq \<longleftrightarrow> rationals e = rset_values L))"
proof (cases "L = []")
  case True
  then show ?thesis using clamped_nonempty [OF node_wf [OF assms(1,3)]]
    by (simp add: decideSetEquality_def answer_def rationals_def)
next
  case False
  note B = bounds_rational [OF assms(1,3)] and ne = clamped_nonempty [OF node_wf [OF assms(1,3)]]
  have eqs: "rat_neq (hd L) (rat_of_i64 (Min (clamped e))) \<longleftrightarrow> Min (rset_values L) \<noteq> Min (rationals e)"
    "rat_neq (last L) (rat_of_i64 (Max (clamped e))) \<longleftrightarrow> Max (rset_values L) \<noteq> Max (rationals e)"
    using rset_hd [OF assms(4) False] rset_last [OF assms(4) False] rset_okD [OF assms(4)] False B(5,6)
      Min_rationals [OF ne] Max_rationals [OF ne]
    by (simp_all add: rat_neq_def rat_eq_value small_rational_def hd_in_set last_in_set)
  obtain v b' where v: "bls_runSet (graph st) b = Some (v, b')" "run_good e v" "same_obj (graph st) b b'"
    using bls_runSet_good [OF assms(1-3)] by blast
  have d: "bls_denotes (graph st) b' e" using v(3) assms(3) by (simp add: same_obj_def)
  obtain r st' where fallback: "equality_by_expansion rnd b' L location st = Some (r, st')"
    "\<forall>eq. r = Some eq \<longrightarrow> st' = st \<and> (eq \<longleftrightarrow> rationals e = rset_values L)"
    using equality_by_expansion_good [OF assms(1) d assms(4)] by blast
  have runs: "(uintmax n \<noteq> int (length L) \<longrightarrow> rationals e \<noteq> rset_values L) \<and>
      (uintmax n = int (length L) \<longrightarrow> (list_all (\<lambda>r. case literalElementAsInt r of None \<Rightarrow> False
        | Some v \<Rightarrow> rs_contains rs v) L \<longleftrightarrow> rationals e = rset_values L))"
    if n: "v = Some rs" "rs_count rs = Some n" for rs n
  proof -
    have rs: "rs_ok rs" "of_int ` runs_set rs = rationals e" "runs_set rs = clamped e"
      using run_good_clamped [of e rs] v(2) n(1) by (simp_all add: rationals_def)
    have "uintmax n = int (card (rationals e))"
      using n(2) rs(1,3) uintmax_count [of "clamped e"]
      by (simp add: rs_ok_iff rs_count_exact card_rationals split: if_splits)
    then show ?thesis using all_members [OF assms(4) rs(1,2)] rset_length [OF assms(4)]
      card_subset_eq_iff [of "rationals e" "rset_values L"] by auto
  qed
  show ?thesis
  proof (cases "Min (rset_values L) \<noteq> Min (rationals e) \<or> Max (rset_values L) \<noteq> Max (rationals e)")
    case True
    then have "decideSetEquality rnd b L location st = Some (Some False, st)" "rationals e \<noteq> rset_values L"
      using False B eqs by (auto simp: decideSetEquality_def answer_def)
    then show ?thesis by simp
  next
    case same: False
    show ?thesis using False B eqs same v(1) fallback runs
      by (cases v) (auto simp: decideSetEquality_def answer_def split: option.splits)
  qed
qed

subsection \<open>Deciding inclusion\<close>

text \<open>A verdict is right when it is what holds, if there is one.\<close>

definition right :: "bool option \<Rightarrow> bool \<Rightarrow> bool" where
  "right verdict holds \<longleftrightarrow> (\<forall>v. verdict = Some v \<longrightarrow> (v \<longleftrightarrow> holds))"

definition verdicts_right :: "verdicts \<Rightarrow> rat set \<Rightarrow> rat set \<Rightarrow> bool" where
  "verdicts_right v S L \<longleftrightarrow> (case v of (litInS, sInLit, sameCard) \<Rightarrow>
     right litInS (L \<subseteq> S) \<and> right sInLit (S \<subseteq> L) \<and> right sameCard (card S = card L))"

lemma right_simps [simp]: "right None holds" "right (Some v) holds \<longleftrightarrow> (v \<longleftrightarrow> holds)"
  by (simp_all add: right_def)

lemma subset_by_count: "finite S \<Longrightarrow> card (L \<inter> S) = card S \<longleftrightarrow> S \<subseteq> L"
proof
  assume "finite S" "card (L \<inter> S) = card S"
  then have "L \<inter> S = S" by (intro card_subset_eq) auto
  then show "S \<subseteq> L" by blast
qed (simp add: Int_absorb1)

lemma verdicts_by_runs_right:
  assumes "rset_ok L" "rs_ok rs" "of_int ` runs_set rs = S" "rs_count rs = Some n"
  shows "verdicts_right (verdicts_by_runs rs n L) S (rset_values L)"
proof -
  let ?in = "\<lambda>r. case literalElementAsInt r of None \<Rightarrow> False | Some v \<Rightarrow> rs_contains rs v"
  have f: "finite S" using assms(3) by (auto simp: runs_set_def)
  have c: "card S = card (runs_set rs)" unfolding assms(3) [symmetric] by (rule card_image) (simp add: inj_on_def)
  then have n: "uintmax n = int (card S)"
    using assms(2,4) uintmax_count [of "runs_set rs"] by (simp add: rs_ok_iff rs_count_exact split: if_splits)
  have m: "?in r \<longleftrightarrow> rat_value r \<in> S" if "r \<in> set L" for r
    using literal_member [OF rset_okD [OF assms(1) that], of "rs_contains rs"] assms(2,3)
    by (simp add: rs_contains_exact rs_ok_iff)
  have ok: "rset_ok (filter ?in L)" using assms(1) by (auto simp: rset_ok_def sorted_wrt_filter)
  have "rset_values (filter ?in L) = rset_values L \<inter> S" using m by auto
  then have l: "length (filter ?in L) = card (rset_values L \<inter> S)" using rset_length [OF ok] by simp
  have le: "S \<subseteq> rset_values L \<Longrightarrow> card S \<le> card (rset_values L)" by (rule card_mono) simp_all
  have "int (card S) \<le> int (length L) \<and> int (card (rset_values L \<inter> S)) = int (card S) \<longleftrightarrow> S \<subseteq> rset_values L"
    using subset_by_count [OF f, of "rset_values L"] le rset_length [OF assms(1)] by auto
  then show ?thesis using all_members [OF assms(1-3)] rset_length [OF assms(1)]
    by (simp add: verdicts_right_def verdicts_by_runs_def Let_def n l)
qed

lemma verdicts_truncated_right:
  assumes "rset_ok L" "rset_ok xs" "rset_values xs \<subseteq> rationals e" "wf_expr e"
    and "lo = Min (clamped e)" "hi = Max (clamped e)" "i64 lo" "i64 hi"
  shows "verdicts_right (verdicts_truncated rnd lo hi (rat_of_i64 lo) (rat_of_i64 hi) xs L) (rationals e) (rset_values L)"
proof -
  have mem: "of_int lo \<in> rationals e" "of_int hi \<in> rationals e"
    using clamped_nonempty [OF assms(4)] assms(5,6) by (simp_all add: rationals_def)
  note small = small_rat_of_i64 [OF assms(7)] small_rat_of_i64 [OF assms(8)]
  have c: "rset_contains rnd L (rat_of_i64 lo) \<longleftrightarrow> of_int lo \<in> rset_values L"
    "rset_contains rnd L (rat_of_i64 hi) \<longleftrightarrow> of_int hi \<in> rset_values L"
    "\<And>v. v \<in> set xs \<Longrightarrow> rset_contains rnd L v \<longleftrightarrow> rat_value v \<in> rset_values L"
    "\<And>r. r \<in> set L \<Longrightarrow> rset_contains rnd xs r \<longleftrightarrow> rat_value r \<in> rset_values xs"
    using rset_contains_iff [OF small(1) assms(1)] rset_contains_iff [OF small(2) assms(1)]
      rset_contains_iff [OF rset_okD [OF assms(2)] assms(1)] rset_contains_iff [OF rset_okD [OF assms(1)] assms(2)] by simp_all
  have "\<not> rationals e \<subseteq> rset_values L" if "length L < length xs"
  proof
    assume "rationals e \<subseteq> rset_values L"
    then have "card (rset_values xs) \<le> card (rset_values L)" using assms(3) by (intro card_mono) auto
    then show False using that rset_length [OF assms(1)] rset_length [OF assms(2)] by simp
  qed
  then have sInLit: "\<not> rationals e \<subseteq> rset_values L"
    if "\<not> rset_contains rnd L (rat_of_i64 lo) \<or> \<not> rset_contains rnd L (rat_of_i64 hi) \<or> length L < length xs \<or>
      list_ex (\<lambda>v. \<not> rset_contains rnd L v) xs"
    using that mem assms(3) c by (auto simp: list_ex_iff)
  have inside: "rat_value r \<in> rationals e"
    if "r \<in> set L" "literal_inside rnd (rat_of_i64 lo) (rat_of_i64 hi) xs r" for r
    using that mem c(4) assms(3) rset_okD [OF assms(1)] small
    by (auto simp: literal_inside_def rat_eq_value small_rational_def)
  have outside: "rat_value r \<notin> rationals e" if "r \<in> set L" "literal_outside lo hi r" for r
  proof
    assume "rat_value r \<in> rationals e"
    then obtain v where v: "v \<in> clamped e" "rat_value r = of_int v" by (auto simp: rationals_def)
    then have "literalElementAsInt r = Some v" using literal_as_int [OF rset_okD [OF assms(1) that(1)]] by blast
    moreover have "lo \<le> v" "v \<le> hi" using v(1) assms(5,6) by simp_all
    ultimately show False using that(2) by (simp add: literal_outside_def)
  qed
  have "rset_values L \<subseteq> rationals e"
    if "\<And>r. r \<in> set L \<Longrightarrow> literal_inside rnd (rat_of_i64 lo) (rat_of_i64 hi) xs r" using that inside by auto
  then show ?thesis using sInLit outside
    by (auto simp: verdicts_right_def verdicts_truncated_def Let_def list_ex_iff list_all_iff)
qed

lemma order_verdicts_good:
  assumes "store_ok s" "obj_ok s b" "bls_denotes s b e" "rset_ok L"
  shows "\<exists>v b'. order_verdicts rnd s b L = Some (v, b') \<and> same_obj s b b' \<and> verdicts_right v (rationals e) (rset_values L)"
proof -
  obtain v b' where v: "bls_runSet s b = Some (v, b')" "run_good e v" "same_obj s b b'"
    using bls_runSet_good [OF assms(1-3)] by blast
  have d: "bls_denotes s b' e" using v(3) assms(3) by (simp add: same_obj_def)
  obtain x xs where x: "bls_expandChecked s b' kExactMaterializationLimit = Some x"
    "toRationalSet rnd (exp_values x) = Some xs" "rset_ok xs" "rset_values xs \<subseteq> rationals e"
    "exact x \<longrightarrow> rset_values xs = rationals e"
    using expansion_good [OF assms(1) d limit_pos] by blast
  note B = bounds_rational [OF assms(1) d] and w = node_wf [OF assms(1) d]
  have i: "i64 (Min (clamped e))" "i64 (Max (clamped e))"
    using clamped_i64 [OF w] clamped_nonempty [OF w] by (simp_all add: Min_in Max_in)
  have c: "list_all (rset_contains rnd xs) L \<longleftrightarrow> rset_values L \<subseteq> rset_values xs"
    "list_all (rset_contains rnd L) xs \<longleftrightarrow> rset_values xs \<subseteq> rset_values L"
    using rset_contains_iff [OF rset_okD [OF assms(4)] x(3)] rset_contains_iff [OF rset_okD [OF x(3)] assms(4)]
    by (auto simp: list_all_iff)
  have fallback: "\<exists>vs. verdicts_by_expansion rnd s b' L = Some vs \<and> verdicts_right vs (rationals e) (rset_values L)"
    using x B c verdicts_truncated_right [OF assms(4) x(3,4) w refl refl i, of rnd] rset_length [OF x(3)] rset_length [OF assms(4)]
    by (cases "exact x") (auto simp: verdicts_by_expansion_def verdicts_right_def)
  show ?thesis
  proof (cases "\<exists>rs n. v = Some rs \<and> rs_count rs = Some n")
    case True
    then obtain rs n where n: "v = Some rs" "rs_count rs = Some n" by blast
    then show ?thesis using verdicts_by_runs_right [OF assms(4) _ _ n(2)] run_good_clamped [of e rs] v
      by (simp add: order_verdicts_def rationals_def)
  next
    case False
    then have "order_verdicts rnd s b L = map_option (\<lambda>v. (v, b')) (verdicts_by_expansion rnd s b' L)"
      using v(1) by (auto simp: order_verdicts_def split: option.splits)
    then show ?thesis using fallback v(3) by auto
  qed
qed

text \<open>What an ordered comparison of sets means.\<close>

definition set_relation :: "BinaryOp \<Rightarrow> 'a set \<Rightarrow> 'a set \<Rightarrow> bool" where
  "set_relation op A B \<longleftrightarrow>
     (case op of BinLe \<Rightarrow> A \<subseteq> B | BinLt \<Rightarrow> A \<subset> B | BinGe \<Rightarrow> B \<subseteq> A | BinGt \<Rightarrow> B \<subset> A
      | BinEq \<Rightarrow> A = B | BinNe \<Rightarrow> A \<noteq> B | _ \<Rightarrow> False)"

lemma strict_verdict_right:
  assumes "right p (A \<subseteq> B)" "right c (card A = card B)" "finite B"
  shows "right (strict_verdict p c) (A \<subset> B)"
proof -
  have "A \<subset> B \<longleftrightarrow> card A \<noteq> card B" if "A \<subseteq> B"
    using that card_subset_eq [OF assms(3) that] by auto
  then show ?thesis using assms(1,2)
    by (cases p; cases c) (auto simp: strict_verdict_def right_def split: bool.splits)
qed

lemma order_result_right:
  assumes "right p (A \<subseteq> B)" "right q (B \<subseteq> A)" "right c (card A = card B)" "finite A" "finite B" "is_order op"
    "order_result op p q c = Some v"
  shows "v \<longleftrightarrow> set_relation op A B"
proof -
  have c: "right c (card B = card A)" using assms(3) by (simp add: eq_commute)
  show ?thesis
    using assms(1,2,6,7) strict_verdict_right [OF assms(1,3,5)] strict_verdict_right [OF assms(2) c assms(4)]
    by (cases op) (auto simp: is_order_def order_result_def set_relation_def right_def)
qed

end
