(* ===== verification/EvaluatorRational.thy ===== *)
theory EvaluatorRational
  imports EvaluatorSets
begin

text \<open>
  The ideal meaning of the rational operators, on unbounded rational numbers, and what the evaluator
  makes of it: an operation that yields a value yields the ideal one, elementwise operations give the
  set of all pairwise results, and operands of 64 bits whose result fits never fail.
\<close>

subsection \<open>Meanings\<close>

datatype meaning = MBool bool | MRational rat | MString string | MSet "rat set" | MMeta TypeExprAST

definition ideal_pow :: "rat \<Rightarrow> rat \<Rightarrow> rat option" where
  "ideal_pow x y = (if y \<notin> \<int> \<or> x = 0 \<and> y < 0 then None else Some (x powi \<lfloor>y\<rfloor>))"

definition ideal_integers :: "(int \<Rightarrow> int \<Rightarrow> int) \<Rightarrow> rat \<Rightarrow> rat \<Rightarrow> meaning option" where
  "ideal_integers f x y = (if x \<notin> \<int> \<or> y \<notin> \<int> then None else Some (MRational (of_int (f \<lfloor>x\<rfloor> \<lfloor>y\<rfloor>))))"

fun ideal_rational :: "BinaryOp \<Rightarrow> rat \<Rightarrow> rat \<Rightarrow> meaning option" where
  "ideal_rational BinPow x y = map_option MRational (ideal_pow x y)"
| "ideal_rational BinMul x y = Some (MRational (x * y))"
| "ideal_rational BinDiv x y = (if y = 0 then None else Some (MRational (x / y)))"
| "ideal_rational BinMod x y = (if y = 0 then None else ideal_integers (\<lambda>a b. a smod b) x y)"
| "ideal_rational BinAdd x y = Some (MRational (x + y))"
| "ideal_rational BinSub x y = Some (MRational (x - y))"
| "ideal_rational BinBitOr x y = ideal_integers (OR) x y"
| "ideal_rational BinBitXor x y = ideal_integers (XOR) x y"
| "ideal_rational BinBitAnd x y = ideal_integers (AND) x y"
| "ideal_rational BinEq x y = Some (MBool (x = y))"
| "ideal_rational BinNe x y = Some (MBool (x \<noteq> y))"
| "ideal_rational BinLe x y = Some (MBool (x \<le> y))"
| "ideal_rational BinGe x y = Some (MBool (x \<ge> y))"
| "ideal_rational BinLt x y = Some (MBool (x < y))"
| "ideal_rational BinGt x y = Some (MBool (x > y))"
| "ideal_rational _ x y = None"

definition pairwise :: "BinaryOp \<Rightarrow> rat set \<Rightarrow> rat set \<Rightarrow> rat set" where
  "pairwise op A B = {z. \<exists>x\<in>A. \<exists>y\<in>B. ideal_rational op x y = Some (MRational z)}"

definition ideal_elementwise :: "BinaryOp \<Rightarrow> rat set \<Rightarrow> rat set \<Rightarrow> meaning option" where
  "ideal_elementwise op A B =
     (if \<forall>x\<in>A. \<forall>y\<in>B. ideal_rational op x y \<noteq> None then Some (MSet (pairwise op A B)) else None)"

subsection \<open>Sizes\<close>

text \<open>Parts of 64 bits, and two numbers whose cross products fit 128 bits.\<close>

definition fits_rat :: "rat \<Rightarrow> bool" where
  "fits_rat x \<longleftrightarrow> (case quotient_of x of (n, d) \<Rightarrow> i64 n \<and> d \<le> int64_max)"

definition cross_fit :: "rat \<Rightarrow> rat \<Rightarrow> bool" where
  "cross_fit x y \<longleftrightarrow> (case (quotient_of x, quotient_of y) of ((n, d), (p, q)) \<Rightarrow> i128 (n * q) \<and> i128 (p * d))"

lemma quotient_of_value: "rat_ok r \<Longrightarrow> quotient_of (rat_value r) = (numer r, denom r)"
  by (simp add: rat_value_def rat_ok_def Fract_of_int_quotient [symmetric] quotient_of_Fract normalize_stable)

lemma fits64_value: "rat_ok r \<Longrightarrow> fits64 r \<longleftrightarrow> fits_rat (rat_value r)"
  by (simp add: fits64_def fits_rat_def quotient_of_value)

lemma comparable_value: "rat_ok l \<Longrightarrow> rat_ok r \<Longrightarrow> comparable l r \<longleftrightarrow> cross_fit (rat_value l) (rat_value r)"
  by (simp add: comparable_def cross_fit_def quotient_of_value)

definition sound_rational :: "rational \<Rightarrow> bool" where
  "sound_rational r \<longleftrightarrow> rat_ok r \<and> \<not> overflowed r"

lemma small_sound: "small_rational r \<longleftrightarrow> sound_rational r \<and> fits_rat (rat_value r)"
  by (auto simp: small_rational_def sound_rational_def fits64_value)

lemma sound_constants [simp]:
  "sound_rational rational_1" "sound_rational rational_0" "sound_rational rational_minus_1"
  "rat_value rational_1 = 1" "rat_value rational_0 = 0" "rat_value rational_minus_1 = - 1"
  by (simp_all add: sound_rational_def rat_ok_def rational_1_def rational_0_def rational_minus_1_def
      int128_max_def rat_value_def)

lemma sound_rat_eq: "sound_rational l \<Longrightarrow> sound_rational r \<Longrightarrow> rat_eq l r \<longleftrightarrow> rat_value l = rat_value r"
  by (simp add: sound_rational_def rat_eq_value)

lemma sound_rat_of_int: "\<bar>n\<bar> \<le> int128_max \<Longrightarrow> sound_rational (rat_of_i64 n)"
  by (simp add: sound_rational_def rat_ok_def int128_max_def)

lemma sound_operators:
  assumes "sound_rational l" "sound_rational r"
  shows "rat_add l r = Some x \<Longrightarrow> \<not> overflowed x \<Longrightarrow> sound_rational x \<and> rat_value x = rat_value l + rat_value r"
    "rat_sub l r = Some x \<Longrightarrow> \<not> overflowed x \<Longrightarrow> sound_rational x \<and> rat_value x = rat_value l - rat_value r"
    "rat_mul l r = Some x \<Longrightarrow> \<not> overflowed x \<Longrightarrow> sound_rational x \<and> rat_value x = rat_value l * rat_value r"
    "rat_value r \<noteq> 0 \<Longrightarrow> rat_div l r = Some x \<Longrightarrow> \<not> overflowed x \<Longrightarrow> sound_rational x \<and> rat_value x = rat_value l / rat_value r"
  using operators_exact [of l r] assms unfolding operator_exact_def sound_rational_def by blast+

subsection \<open>Powers\<close>

lemma pow_loop_step:
  "pow_loop n out base = (if n \<le> 0 then Some (Some out) else do {
     out \<leftarrow> rat_mul out base; if overflowed out then Some None else pow_loop (n - 1) out base })"
  by (simp add: pow_loop.simps)

lemma pow_loop_sound:
  assumes "sound_rational base" "sound_rational out" "pow_loop n out base = Some (Some x)"
  shows "sound_rational x \<and> rat_value x = rat_value out * rat_value base ^ nat n"
  using assms
proof (induction n out base rule: pow_loop.induct)
  case (1 n out base)
  show ?case
  proof (cases "n \<le> 0")
    case True
    then show ?thesis using 1 by (simp add: pow_loop_step [of n])
  next
    case False
    then obtain out' where o: "rat_mul out base = Some out'" "\<not> overflowed out'" "pow_loop (n - 1) out' base = Some (Some x)"
      using "1.prems"(3) by (auto simp: pow_loop_step [of n] Option.bind_eq_Some_conv split: if_splits)
    note m = sound_operators(3) [OF "1.prems"(2,1) o(1,2)]
    have "sound_rational x \<and> rat_value x = rat_value out' * rat_value base ^ nat (n - 1)"
      using "1.IH" [OF False o(1,2) "1.prems"(1) _ o(3)] m by blast
    moreover have "nat n = Suc (nat (n - 1))" using False by simp
    ultimately show ?thesis using m by (simp add: mult.assoc)
  qed
qed

lemma sound_nonzero: "sound_rational r \<Longrightarrow> rat_value r \<noteq> 0 \<longleftrightarrow> numer r \<noteq> 0"
  by (auto simp: sound_rational_def rat_ok_def rat_value_def)

lemma smod_2_even: "e smod 2 = 0 \<longleftrightarrow> even e" for e :: int
  by (simp add: smod_eq_0_iff)

lemma intPow_sound:
  assumes "sound_rational base" "sound_rational ex" "intPow base ex = Some (Some x)"
  shows "sound_rational x \<and> ideal_pow (rat_value base) (rat_value ex) = Some (rat_value x)"
proof -
  have i: "isInteger ex" using assms(3) by (auto simp: intPow_def split: if_splits)
  define e where "e = numer ex"
  have v: "rat_value ex = of_int e" using i by (simp add: rat_value_def isInteger_def e_def)
  have w: "(case asWideInteger ex of None \<Rightarrow> 0 | Some w \<Rightarrow> w) = e" using i by (simp add: asWideInteger_def e_def)
  note P = assms(3) [unfolded intPow_def w Let_def]
  have eqs: "rat_eq base rational_1 \<longleftrightarrow> rat_value base = 1" "rat_eq base rational_0 \<longleftrightarrow> rat_value base = 0"
    "rat_eq base rational_minus_1 \<longleftrightarrow> rat_value base = - 1" using sound_rat_eq [OF assms(1)] by simp_all
  consider "rat_value base = 1" | "rat_value base = 0" | "rat_value base = - 1"
    | (loop) out where "rat_value base \<noteq> 0" "rat_value base \<noteq> 1" "rat_value base \<noteq> - 1"
        "pow_loop \<bar>e\<bar> rational_1 base = Some (Some out)"
    using P i eqs by (auto split: if_splits option.splits)
  then show ?thesis
  proof cases
    case 1
    then show ?thesis using P i eqs v by (auto simp: ideal_pow_def)
  next
    case 2
    then show ?thesis using P i eqs v by (auto simp: ideal_pow_def power_int_0_left_if split: if_splits)
  next
    case 3
    then show ?thesis using P i eqs v by (auto simp: ideal_pow_def smod_2_even power_int_minus_left split: if_splits)
  next
    case loop
    have o: "sound_rational out" "rat_value out = rat_value base ^ nat \<bar>e\<bar>"
      using pow_loop_sound [OF assms(1) _ loop(4)] by simp_all
    have d: "rat_value out \<noteq> 0" using o(2) loop(1) by simp
    show ?thesis
    proof (cases "e < 0")
      case True
      then have "rat_div rational_1 out = Some x" "\<not> overflowed x"
        using P i eqs loop by (auto simp: Option.bind_eq_Some_conv split: if_splits)
      then have "sound_rational x" "rat_value x = 1 / rat_value out"
        using sound_operators(4) [OF _ o(1) d, of rational_1 x] by simp_all
      then show ?thesis using True o(2) v loop(1) by (simp add: ideal_pow_def power_int_def field_simps)
    next
      case False
      then show ?thesis using P i eqs loop o v by (simp add: ideal_pow_def power_int_def)
    qed
  qed
qed

subsection \<open>One operation\<close>

lemma i128_signed: "i128 n \<longleftrightarrow> signed_take_bit 127 n = n"
  by (auto simp: signed_take_bit_int_eq_self_iff i128_defs)

lemma i128_bits: "i128 a \<Longrightarrow> i128 b \<Longrightarrow> i128 (a OR b)" "i128 a \<Longrightarrow> i128 b \<Longrightarrow> i128 (a XOR b)"
  "i128 a \<Longrightarrow> i128 b \<Longrightarrow> i128 (a AND b)"
proof -
  have "signed_take_bit n (a OR b) = signed_take_bit n a OR signed_take_bit n b"
    "signed_take_bit n (a XOR b) = signed_take_bit n a XOR signed_take_bit n b"
    "signed_take_bit n (a AND b) = signed_take_bit n a AND signed_take_bit n b" for n and a b :: int
    by (rule bit_eqI, simp add: bit_signed_take_bit_iff bit_or_iff bit_xor_iff bit_and_iff)+
  then show "i128 a \<Longrightarrow> i128 b \<Longrightarrow> i128 (a OR b)" "i128 a \<Longrightarrow> i128 b \<Longrightarrow> i128 (a XOR b)"
    "i128 a \<Longrightarrow> i128 b \<Longrightarrow> i128 (a AND b)" by (simp_all add: i128_signed)
qed

lemma rational_of_undefined: "rational_of int128_min 1 = None"
  by (simp add: rational_of_def normalize_def wideGcd_def neg128_def i128_defs)

lemma rational_of_i128: "i128 n \<Longrightarrow> rational_of n 1 = (if n = int128_min then None else Some (rat_of_i64 n))"
  using rational_of_int [of n] rational_of_undefined by (auto simp: i128_defs)

lemma sound_i128: "sound_rational r \<Longrightarrow> i128 (numer r)"
  by (auto simp: sound_rational_def rat_ok_def i128_defs)

text \<open>Values that do not depend on the store.\<close>

fun stands_for :: "Value \<Rightarrow> meaning \<Rightarrow> bool" where
  "stands_for (ValBool b) m \<longleftrightarrow> m = MBool b"
| "stands_for (ValRational r) m \<longleftrightarrow> sound_rational r \<and> m = MRational (rat_value r)"
| "stands_for (ValString t) m \<longleftrightarrow> m = MString t"
| "stands_for (ValSet xs) m \<longleftrightarrow> rset_ok xs \<and> m = MSet (rset_values xs)"
| "stands_for (ValType t) m \<longleftrightarrow> m = MMeta t"
| "stands_for (ValBitLengthSet _) m \<longleftrightarrow> False"

lemma rational_bits_sound:
  assumes "sound_rational l" "sound_rational r" "\<And>a b. i128 a \<Longrightarrow> i128 b \<Longrightarrow> i128 (f a b)"
    "rational_bits f l r = Some (Some v)"
  shows "\<exists>m. ideal_integers f (rat_value l) (rat_value r) = Some m \<and> stands_for v m"
proof -
  have i: "isInteger l" "isInteger r" using assms(4) by (auto simp: rational_bits_def split: if_splits)
  have n: "rational_of (f (numer l) (numer r)) 1 = (if f (numer l) (numer r) = int128_min then None
      else Some (rat_of_i64 (f (numer l) (numer r))))"
    by (intro rational_of_i128 assms(3) sound_i128 assms(1,2))
  have "i128 (f (numer l) (numer r))" by (intro assms(3) sound_i128 assms(1,2))
  then have s: "f (numer l) (numer r) \<noteq> int128_min \<Longrightarrow> sound_rational (rat_of_i64 (f (numer l) (numer r)))"
    by (intro sound_rat_of_int) (auto simp: i128_defs)
  have "\<lfloor>rat_value l\<rfloor> = numer l" "\<lfloor>rat_value r\<rfloor> = numer r" "rat_value l \<in> \<int>" "rat_value r \<in> \<int>"
    using i integer_floor isInteger_value assms(1,2) by (auto simp: sound_rational_def)
  then show ?thesis using assms(4) i n s
    by (auto simp: rational_bits_def asWideInteger_def rational_result_def ideal_integers_def split: if_splits)
qed

lemma smod_i128: "i128 a \<Longrightarrow> b \<noteq> 0 \<Longrightarrow> \<bar>b\<bar> \<le> int128_max \<Longrightarrow> \<bar>a smod b\<bar> \<le> int128_max" for a b :: int
  using smod_abs_less [of b a] by linarith

lemma rational_mod_sound:
  assumes "sound_rational l" "sound_rational r" "rational_mod l r = Some (Some v)"
  shows "\<exists>m. ideal_rational BinMod (rat_value l) (rat_value r) = Some m \<and> stands_for v m"
proof -
  have i: "isInteger l" "isInteger r" "rat_value r \<noteq> 0"
    using assms(3) sound_rat_eq [OF assms(2)] by (auto simp: rational_mod_def split: if_splits)
  have f: "\<lfloor>rat_value l\<rfloor> = numer l" "\<lfloor>rat_value r\<rfloor> = numer r" "rat_value l \<in> \<int>" "rat_value r \<in> \<int>"
    using i integer_floor isInteger_value assms(1,2) by (auto simp: sound_rational_def)
  have z: "numer r \<noteq> 0" using i(3) sound_nonzero [OF assms(2)] by simp
  have "rational_of 0 1 = Some (rat_of_i64 0)" by (intro rational_of_int) (simp add: int128_max_def)
  moreover have b: "\<bar>numer l smod numer r\<bar> \<le> int128_max"
    using smod_i128 [OF sound_i128 [OF assms(1)] z] assms(2) by (simp add: sound_rational_def rat_ok_def)
  moreover have "numer l smod - 1 = 0" using smod_abs_less [of "- 1" "numer l"] by simp
  ultimately show ?thesis using assms(3) i f sound_rat_of_int [OF b] sound_rat_of_int [of 0]
    by (auto simp: rational_mod_def rational_result_def asWideInteger_def ideal_integers_def rational_of_int int128_max_def
        split: if_splits)
qed

lemma checked_result_Some:
  "checked_result m = Some (Some v) \<longleftrightarrow> (\<exists>x. m = Some x \<and> \<not> overflowed x \<and> v = ValRational x)"
  by (auto simp: checked_result_def)

lemma applyBinaryRational_sound:
  assumes "sound_rational l" "sound_rational r" "is_order op \<Longrightarrow> cross_fit (rat_value l) (rat_value r)"
    and "applyBinaryRational rnd op l r = Some (Some v)"
  shows "\<exists>m. ideal_rational op (rat_value l) (rat_value r) = Some m \<and> stands_for v m"
proof -
  note S = assms(1,2)
  have ok: "rat_ok l" "rat_ok r" using S by (simp_all add: sound_rational_def)
  have c: "comparable l r" if "is_order op" using assms(3) that comparable_value [OF ok] by simp
  have zero: "rat_eq r rational_0 \<longleftrightarrow> rat_value r = 0" using sound_rat_eq [OF S(2)] by simp
  have order: "rat_less rnd l r \<longleftrightarrow> rat_value l < rat_value r" "rat_leq rnd l r \<longleftrightarrow> rat_value l \<le> rat_value r"
    "rat_greater rnd l r \<longleftrightarrow> rat_value r < rat_value l" "rat_geq rnd l r \<longleftrightarrow> rat_value r \<le> rat_value l" if "is_order op"
    using c [OF that] comparable_sym [OF c [OF that]] ok
    by (simp_all add: rat_less_value rat_leq_value rat_greater_def rat_geq_def)
  note A = assms(4) [unfolded applyBinaryRational_def]
  show ?thesis
  proof (cases op)
    case BinPow
    then show ?thesis using A intPow_sound [OF S] by auto
  next
    case BinMul
    then show ?thesis using A sound_operators(3) [OF S] by (auto simp: checked_result_Some)
  next
    case BinDiv
    then show ?thesis using A sound_operators(4) [OF S] zero by (auto simp: checked_result_Some split: if_splits)
  next
    case BinMod
    then show ?thesis using A rational_mod_sound [OF S] by simp
  next
    case BinAdd
    then show ?thesis using A sound_operators(1) [OF S] by (auto simp: checked_result_Some)
  next
    case BinSub
    then show ?thesis using A sound_operators(2) [OF S] by (auto simp: checked_result_Some)
  next
    case BinBitOr
    then show ?thesis using A rational_bits_sound [OF S i128_bits(1)] by simp
  next
    case BinBitXor
    then show ?thesis using A rational_bits_sound [OF S i128_bits(2)] by simp
  next
    case BinBitAnd
    then show ?thesis using A rational_bits_sound [OF S i128_bits(3)] by simp
  qed (use A order sound_rat_eq [OF S] in \<open>auto simp: is_order_def rat_neq_def\<close>)
qed

end
