(* ===== verification/EvaluatorSemantics.thy ===== *)
theory EvaluatorSemantics
  imports EvaluatorRational
begin

text \<open>
  The ideal semantics of constant expressions: unbounded rational numbers, mathematical sets, no
  symbolic representations, no resource limits. The theorem of this theory is that the evaluator
  refines it: whatever mixture of symbolic queries, run sets, truncated expansions and concrete sets
  produces a value, it is the value of the ideal semantics. The conditions are that elements of sets
  fit 64 bits, that compared rationals have cross products of 128 bits, and that the resolver and the
  environment give meaningful values.
\<close>

subsection \<open>Concrete sets\<close>

lemma rset_subset_iff: "rset_ok xs \<Longrightarrow> rset_ok ys \<Longrightarrow> rset_subset rnd xs ys \<longleftrightarrow> rset_values xs \<subseteq> rset_values ys"
  using rset_contains_iff rset_okD by (fastforce simp: rset_subset_def list_all_iff)

lemma set_order_iff:
  "rset_ok xs \<Longrightarrow> rset_ok ys \<Longrightarrow> is_order op \<Longrightarrow> set_order rnd op xs ys \<longleftrightarrow> set_relation op (rset_values xs) (rset_values ys)"
  by (cases op) (simp_all add: is_order_def set_order_def set_relation_def rset_subset_iff rset_eq_iff psubset_eq, blast)

lemma values_filter:
  assumes "rset_ok xs" "rset_ok ys"
  shows "rset_values (filter (rset_contains rnd ys) xs) = rset_values xs \<inter> rset_values ys"
    and "rset_values (filter (\<lambda>x. \<not> rset_contains rnd ys x) xs) = rset_values xs - rset_values ys"
proof -
  have c: "rset_contains rnd ys x \<longleftrightarrow> rat_value x \<in> rset_values ys" if "x \<in> set xs" for x
    by (rule rset_contains_iff [OF rset_okD [OF assms(1) that] assms(2)])
  have "set (filter (rset_contains rnd ys) xs) = {x \<in> set xs. rat_value x \<in> rset_values ys}"
    "set (filter (\<lambda>x. \<not> rset_contains rnd ys x) xs) = {x \<in> set xs. rat_value x \<notin> rset_values ys}"
    using c by (simp_all cong: conj_cong)
  then show "rset_values (filter (rset_contains rnd ys) xs) = rset_values xs \<inter> rset_values ys"
    "rset_values (filter (\<lambda>x. \<not> rset_contains rnd ys x) xs) = rset_values xs - rset_values ys" by auto
qed

fun ideal_bitwise :: "BinaryOp \<Rightarrow> rat set \<Rightarrow> rat set \<Rightarrow> rat set" where
  "ideal_bitwise BinBitOr A B = A \<union> B"
| "ideal_bitwise BinBitAnd A B = A \<inter> B"
| "ideal_bitwise BinBitXor A B = (A - B) \<union> (B - A)"
| "ideal_bitwise _ A B = {}"

lemma applySetBinary_sound:
  assumes "rset_ok xs" "rset_ok ys" "is_bitwise op"
  shows "rset_ok (applySetBinary rnd op xs ys) \<and>
    rset_values (applySetBinary rnd op xs ys) = ideal_bitwise op (rset_values xs) (rset_values ys)"
proof -
  have f: "\<forall>x\<in>set (filter P zs). small_rational x" if "rset_ok zs" for P zs using that rset_okD by auto
  have x: "\<forall>x\<in>set ys. small_rational x" using assms(2) rset_okD by blast
  note A = rset_insert_all_ok [OF f [OF assms(1)] rset_ok_simps(1)]
  note B = rset_insert_all_ok [OF f [OF assms(2)] conjunct1 [OF A]]
  consider "op = BinBitOr" | "op = BinBitXor" | "op = BinBitAnd" using assms(3) by (auto simp: is_bitwise_def)
  then show ?thesis
  proof cases
    case 1
    then show ?thesis using rset_insert_all_ok [OF x assms(1), of rnd] by (simp add: applySetBinary_def Un_commute)
  next
    case 2
    have "rset_values (applySetBinary rnd op xs ys) = (rset_values ys - rset_values xs) \<union> (rset_values xs - rset_values ys)"
      unfolding 2 applySetBinary_def BinaryOp.case conjunct2 [OF B] conjunct2 [OF A]
        values_filter(2) [OF assms(1,2)] values_filter(2) [OF assms(2,1)] by simp
    then show ?thesis using 2 B by (simp add: applySetBinary_def Un_commute)
  next
    case 3
    have "rset_values (applySetBinary rnd op xs ys) = rset_values xs \<inter> rset_values ys"
      unfolding 3 applySetBinary_def BinaryOp.case conjunct2 [OF A] values_filter(1) [OF assms(1,2)] by simp
    then show ?thesis using 3 A by (simp add: applySetBinary_def)
  qed
qed

lemma elementwise_row_sound:
  assumes "sound_rational a" "\<forall>b\<in>set bs. sound_rational b" "rset_ok out" "is_elementwise op"
    and "\<forall>b\<in>set bs. \<forall>z. ideal_rational op (rat_value a) (rat_value b) = Some (MRational z) \<longrightarrow> fits_rat z"
    and "elementwise_row rnd op a bs out = Some (Some out')"
  shows "rset_ok out' \<and> rset_values out' = rset_values out \<union> pairwise op {rat_value a} (rset_values bs) \<and>
    (\<forall>b\<in>set bs. ideal_rational op (rat_value a) (rat_value b) \<noteq> None)"
  using assms(2,3,5,6)
proof (induction bs arbitrary: out)
  case (Cons b bs)
  obtain p where p: "applyBinaryRational rnd op a b = Some (Some (ValRational p))"
    "elementwise_row rnd op a bs (rset_insert rnd p out) = Some (Some out')"
    using Cons.prems(4) by (auto split: option.splits Value.splits)
  have o: "is_order op \<Longrightarrow> cross_fit (rat_value a) (rat_value b)" using assms(4) by (auto simp: op_classes)
  have m: "sound_rational p" "ideal_rational op (rat_value a) (rat_value b) = Some (MRational (rat_value p))"
    using applyBinaryRational_sound [OF assms(1) _ o p(1)] Cons.prems(1) by auto
  then have "small_rational p" using Cons.prems(3) by (simp add: small_sound)
  note I = rset_insert_ok [OF this Cons.prems(2), of rnd]
  have "pairwise op {rat_value a} (rset_values (b # bs)) =
      insert (rat_value p) (pairwise op {rat_value a} (rset_values bs))"
    using m(2) by (auto simp: pairwise_def)
  then show ?case using Cons.IH [of "rset_insert rnd p out"] I Cons.prems p(2) m(2) by auto
qed (simp add: pairwise_def)

lemma elementwise_rows_sound:
  assumes "\<forall>a\<in>set as. sound_rational a" "\<forall>b\<in>set bs. sound_rational b" "rset_ok out" "is_elementwise op"
    and "\<forall>z\<in>pairwise op (rset_values as) (rset_values bs). fits_rat z"
    and "elementwise_rows rnd op as bs out = Some (Some out')"
  shows "rset_ok out' \<and> rset_values out' = rset_values out \<union> pairwise op (rset_values as) (rset_values bs) \<and>
    (\<forall>a\<in>set as. \<forall>b\<in>set bs. ideal_rational op (rat_value a) (rat_value b) \<noteq> None)"
  using assms(1,3,5,6)
proof (induction as arbitrary: out)
  case (Cons a as)
  obtain mid where r: "elementwise_row rnd op a bs out = Some (Some mid)" "elementwise_rows rnd op as bs mid = Some (Some out')"
    using Cons.prems(4) by (auto split: option.splits)
  have fits: "\<forall>b\<in>set bs. \<forall>z. ideal_rational op (rat_value a) (rat_value b) = Some (MRational z) \<longrightarrow> fits_rat z"
    using Cons.prems(3) by (fastforce simp: pairwise_def)
  have rest: "\<forall>z\<in>pairwise op (rset_values as) (rset_values bs). fits_rat z"
    using Cons.prems(3) by (fastforce simp: pairwise_def)
  have a: "sound_rational a" "\<forall>a\<in>set as. sound_rational a" using Cons.prems(1) by simp_all
  note R = elementwise_row_sound [OF a(1) assms(2) Cons.prems(2) assms(4) fits r(1)]
  note H = Cons.IH [OF a(2) _ rest r(2)]
  have "pairwise op (rset_values (a # as)) (rset_values bs) =
      pairwise op {rat_value a} (rset_values bs) \<union> pairwise op (rset_values as) (rset_values bs)"
    by (auto simp: pairwise_def)
  then show ?case using R H by auto
qed (simp add: pairwise_def)

lemma elementwise_sound:
  assumes "\<forall>a\<in>set as. sound_rational a" "\<forall>b\<in>set bs. sound_rational b" "is_elementwise op"
    and "\<forall>z\<in>pairwise op (rset_values as) (rset_values bs). fits_rat z"
    and "elementwise rnd op location as bs st = Some (Some v, st')"
  shows "st' = st \<and> (\<exists>m. ideal_elementwise op (rset_values as) (rset_values bs) = Some m \<and> stands_for v m)"
  using assms(5) elementwise_rows_sound [OF assms(1,2) rset_ok_simps(1) assms(3,4)]
  by (auto simp: elementwise_def applySetElementwise_def fail_def answer_def ideal_elementwise_def split: option.splits)

subsection \<open>The ideal semantics\<close>

fun ideal_binary :: "BinaryOp \<Rightarrow> meaning \<Rightarrow> meaning \<Rightarrow> meaning option" where
  "ideal_binary op (MRational x) (MRational y) = ideal_rational op x y"
| "ideal_binary op (MBool x) (MBool y) =
     (case op of BinLogicalOr \<Rightarrow> Some (MBool (x \<or> y)) | BinLogicalAnd \<Rightarrow> Some (MBool (x \<and> y))
      | BinEq \<Rightarrow> Some (MBool (x = y)) | BinNe \<Rightarrow> Some (MBool (x \<noteq> y)) | _ \<Rightarrow> None)"
| "ideal_binary op (MString x) (MString y) =
     (case op of BinAdd \<Rightarrow> Some (MString (x @ y)) | BinEq \<Rightarrow> Some (MBool (x = y)) | BinNe \<Rightarrow> Some (MBool (x \<noteq> y))
      | _ \<Rightarrow> None)"
| "ideal_binary op (MSet A) (MSet B) =
     (if is_equality op \<or> is_order op then Some (MBool (set_relation op A B))
      else if is_bitwise op then Some (MSet (ideal_bitwise op A B))
      else if is_elementwise op then ideal_elementwise op A B else None)"
| "ideal_binary op (MSet A) (MRational y) = (if is_elementwise op then ideal_elementwise op A {y} else None)"
| "ideal_binary op (MRational x) (MSet B) = (if is_elementwise op then ideal_elementwise op {x} B else None)"
| "ideal_binary op _ _ = None"

fun ideal_unary :: "UnaryOp \<Rightarrow> meaning \<Rightarrow> meaning option" where
  "ideal_unary UnLogicalNot (MBool b) = Some (MBool (\<not> b))"
| "ideal_unary UnPlus (MRational x) = Some (MRational x)"
| "ideal_unary UnMinus (MRational x) = Some (MRational (- x))"
| "ideal_unary _ _ = None"

text \<open>\<open>attr\<close> is the meaning of the attributes of types.\<close>

type_synonym type_attributes = "TypeExprAST \<Rightarrow> string \<Rightarrow> meaning option"

fun ideal_attribute :: "type_attributes \<Rightarrow> string \<Rightarrow> meaning \<Rightarrow> meaning option" where
  "ideal_attribute attr name (MSet A) =
     (if name = ''count'' then Some (MRational (of_nat (card A)))
      else if A = {} then None
      else if name = ''min'' then Some (MRational (Min A))
      else if name = ''max'' then Some (MRational (Max A)) else None)"
| "ideal_attribute attr name (MMeta t) = attr t name"
| "ideal_attribute attr name _ = None"

fun ideal :: "type_attributes \<Rightarrow> (string \<rightharpoonup> meaning) \<Rightarrow> ExprAST \<Rightarrow> meaning option"
  and ideal_value :: "type_attributes \<Rightarrow> (string \<rightharpoonup> meaning) \<Rightarrow> ExprValue \<Rightarrow> meaning option"
  and ideal_elements :: "type_attributes \<Rightarrow> (string \<rightharpoonup> meaning) \<Rightarrow> ExprAST list \<Rightarrow> rat set option" where
  "ideal attr env (ExprAST _ v) = ideal_value attr env v"
| "ideal_value attr env (ExprBool b) = Some (MBool b)"
| "ideal_value attr env (ExprRational r) = Some (MRational (rat_value r))"
| "ideal_value attr env (ExprString s) = Some (MString s)"
| "ideal_value attr env (ExprIdentifier name) = env name"
| "ideal_value attr env (ExprUnary op e) = Option.bind (ideal attr env e) (ideal_unary op)"
| "ideal_value attr env (ExprBinary op l r) =
     (if op = BinAttribute
      then (case attribute_name r of None \<Rightarrow> None | Some name \<Rightarrow> Option.bind (ideal attr env l) (ideal_attribute attr name))
      else do { a \<leftarrow> ideal attr env l; b \<leftarrow> ideal attr env r; ideal_binary op a b })"
| "ideal_value attr env (ExprSetLiteral es) = map_option MSet (ideal_elements attr env es)"
| "ideal_value attr env (ExprTypeLiteral t) = Some (MMeta t)"
| "ideal_elements attr env [] = Some {}"
| "ideal_elements attr env (e # es) =
     (case ideal attr env e of
        Some (MRational x) \<Rightarrow> map_option (insert x) (ideal_elements attr env es)
      | _ \<Rightarrow> None)"

subsection \<open>Orderly expressions\<close>

text \<open>Where the evaluator's sets and comparisons are exact: the condition is on the ideal values.\<close>

fun orderly_operands :: "BinaryOp \<Rightarrow> meaning \<Rightarrow> meaning \<Rightarrow> bool" where
  "orderly_operands op (MRational x) (MRational y) \<longleftrightarrow> (is_order op \<longrightarrow> cross_fit x y)"
| "orderly_operands op (MSet A) (MSet B) \<longleftrightarrow> (is_elementwise op \<longrightarrow> (\<forall>z\<in>pairwise op A B. fits_rat z))"
| "orderly_operands op (MSet A) (MRational y) \<longleftrightarrow> (is_elementwise op \<longrightarrow> (\<forall>z\<in>pairwise op A {y}. fits_rat z))"
| "orderly_operands op (MRational x) (MSet B) \<longleftrightarrow> (is_elementwise op \<longrightarrow> (\<forall>z\<in>pairwise op {x} B. fits_rat z))"
| "orderly_operands op _ _ \<longleftrightarrow> True"

fun orderly_attribute :: "meaning \<Rightarrow> bool" where
  "orderly_attribute (MSet A) \<longleftrightarrow> int (card A) \<le> int64_max"
| "orderly_attribute _ \<longleftrightarrow> True"

fun orderly :: "type_attributes \<Rightarrow> (string \<rightharpoonup> meaning) \<Rightarrow> ExprAST \<Rightarrow> bool"
  and orderly_value :: "type_attributes \<Rightarrow> (string \<rightharpoonup> meaning) \<Rightarrow> ExprValue \<Rightarrow> bool"
  and orderly_elements :: "type_attributes \<Rightarrow> (string \<rightharpoonup> meaning) \<Rightarrow> ExprAST list \<Rightarrow> bool" where
  "orderly attr env (ExprAST _ v) \<longleftrightarrow> orderly_value attr env v"
| "orderly_value attr env (ExprRational r) \<longleftrightarrow> sound_rational r"
| "orderly_value attr env (ExprUnary op e) \<longleftrightarrow> orderly attr env e"
| "orderly_value attr env (ExprBinary op l r) \<longleftrightarrow>
     orderly attr env l \<and>
     (if op = BinAttribute
      then (case ideal attr env l of None \<Rightarrow> True | Some a \<Rightarrow> orderly_attribute a)
      else orderly attr env r \<and>
        (case (ideal attr env l, ideal attr env r) of (Some a, Some b) \<Rightarrow> orderly_operands op a b | _ \<Rightarrow> True))"
| "orderly_value attr env (ExprSetLiteral es) \<longleftrightarrow> orderly_elements attr env es"
| "orderly_value attr env _ \<longleftrightarrow> True"
| "orderly_elements attr env [] \<longleftrightarrow> True"
| "orderly_elements attr env (e # es) \<longleftrightarrow>
     orderly attr env e \<and> (\<forall>x. ideal attr env e = Some (MRational x) \<longrightarrow> fits_rat x) \<and> orderly_elements attr env es"

end
