(* ===== verification/EvaluatorRefinement.thy ===== *)
theory EvaluatorRefinement
  imports EvaluatorSemantics
begin

text \<open>
  The evaluator refines the ideal semantics: the proof follows the code, strategy by strategy. A
  strategy for symbolic operands either answers with the ideal value or leaves operands that still
  mean the same; the concrete operations work on the sets of values; the store only grows, so the
  values of the environment keep their meaning.
\<close>

subsection \<open>Meaning of values in a store\<close>

definition means :: "store \<Rightarrow> Value \<Rightarrow> meaning \<Rightarrow> bool" where
  "means s v m \<longleftrightarrow>
     (case v of
        ValBitLengthSet b \<Rightarrow> \<exists>e. obj_ok s b \<and> bls_denotes s b e \<and> m = MSet (rationals e)
      | _ \<Rightarrow> stands_for v m)"

lemma means_simps [simp]:
  "means s (ValBool b) m \<longleftrightarrow> m = MBool b"
  "means s (ValRational r) m \<longleftrightarrow> sound_rational r \<and> m = MRational (rat_value r)"
  "means s (ValString t) m \<longleftrightarrow> m = MString t"
  "means s (ValSet xs) m \<longleftrightarrow> rset_ok xs \<and> m = MSet (rset_values xs)"
  "means s (ValType u) m \<longleftrightarrow> m = MMeta u"
  by (simp_all add: means_def)

lemma means_symbolic:
  "means s (ValBitLengthSet b) m \<longleftrightarrow> (\<exists>e. obj_ok s b \<and> bls_denotes s b e \<and> m = MSet (rationals e))"
  by (simp add: means_def)

lemma stands_for_means: "stands_for v m \<Longrightarrow> means s v m"
  by (cases v) simp_all

lemma means_extends: "extends s s' \<Longrightarrow> means s v m \<Longrightarrow> means s' v m"
  by (cases v) (simp_all add: means_symbolic, blast intro: extends_obj extends_denotes)

definition grown :: "'z ev_state_scheme \<Rightarrow> 'z ev_state_scheme \<Rightarrow> bool" where
  "grown st st' \<longleftrightarrow> store_ok (graph st') \<and> extends (graph st) (graph st')"

lemma extends_refl [simp]: "extends s s"
  by (simp add: extends_def)

lemma extends_trans: "extends s s' \<Longrightarrow> extends s' s'' \<Longrightarrow> extends s s''"
  by (auto simp: extends_def)

lemma grown_refl [simp]: "store_ok (graph st) \<Longrightarrow> grown st st"
  by (simp add: grown_def)

lemma grown_trans: "grown st st' \<Longrightarrow> grown st' st'' \<Longrightarrow> grown st st''"
  by (auto simp: grown_def intro: extends_trans)

lemma grown_means: "grown st st' \<Longrightarrow> means (graph st) v m \<Longrightarrow> means (graph st') v m"
  by (auto simp: grown_def intro: means_extends)

definition refines :: "'z ev_state_scheme \<Rightarrow> meaning option \<Rightarrow> (Value option \<times> 'z ev_state_scheme) option \<Rightarrow> bool" where
  "refines st mo m \<longleftrightarrow>
     (\<forall>v st'. m = Some (Some v, st') \<longrightarrow> grown st st' \<and> (\<exists>x. mo = Some x \<and> means (graph st') v x))"

definition attempt_refines :: "'z ev_state_scheme \<Rightarrow> meaning option \<Rightarrow> meaning \<Rightarrow> meaning \<Rightarrow> 'z attempt \<Rightarrow> bool" where
  "attempt_refines st mo a b m \<longleftrightarrow>
     (\<forall>v st'. m = Some (Inl (Some v), st') \<longrightarrow> grown st st' \<and> (\<exists>x. mo = Some x \<and> means (graph st') v x)) \<and>
     (\<forall>l r st'. m = Some (Inr (l, r), st') \<longrightarrow> grown st st' \<and> means (graph st') l a \<and> means (graph st') r b)"

named_theorems refined \<open>results that agree with the ideal semantics\<close>

lemma refines_None [refined]: "refines st mo None"
  by (simp add: refines_def)

lemma refines_fail [refined]:
  "refines st mo (fail location message st')" "refines st mo (unsupported location l r st')" "refines st mo (no_attribute location v st')"
  by (simp_all add: refines_def fail_def unsupported_def no_attribute_def)

lemma refines_answer [refined]: "store_ok (graph st) \<Longrightarrow> mo = Some x \<Longrightarrow> means (graph st) v x \<Longrightarrow> refines st mo (answer v st)"
  by (simp add: refines_def answer_def)

lemma refines_rational_value [refined]:
  "store_ok (graph st) \<Longrightarrow> \<bar>n\<bar> \<le> int128_max \<Longrightarrow> mo = Some (MRational (of_int n)) \<Longrightarrow> refines st mo (rational_value n st)"
  by (simp add: rational_value_def rational_of_int refines_answer sound_rat_of_int)

lemma attempt_refines_left_over [refined]:
  "store_ok (graph st) \<Longrightarrow> means (graph st) l a \<Longrightarrow> means (graph st) r b \<Longrightarrow> attempt_refines st mo a b (left_over l r st)"
  by (simp add: attempt_refines_def left_over_def)

lemma attempt_refines_answered [refined]:
  "store_ok (graph st) \<Longrightarrow> mo = Some x \<Longrightarrow> means (graph st) (f v) x \<Longrightarrow> attempt_refines st mo a b (answered (answer v st) f)"
  by (simp add: attempt_refines_def answered_def answer_def)

lemma attempt_refines_refused [refined]:
  "attempt_refines st mo a b None" "attempt_refines st mo a b (answered (fail location message st') id)"
  "attempt_refines st mo a b (answered (symbolic_budget location st') id)"
  by (simp_all add: attempt_refines_def answered_def fail_def symbolic_budget_def)

lemma attempt_refines_or_else:
  assumes "attempt_refines st mo a b m"
    and "\<And>l r st'. grown st st' \<Longrightarrow> means (graph st') l a \<Longrightarrow> means (graph st') r b \<Longrightarrow> attempt_refines st' mo a b (k l r st')"
  shows "attempt_refines st mo a b (or_else m k)"
proof (cases "\<exists>l r st'. m = Some (Inr (l, r), st')")
  case True
  then obtain l r st' where m: "m = Some (Inr (l, r), st')" by blast
  then have g: "grown st st'" and "means (graph st') l a" "means (graph st') r b"
    using assms(1) by (simp_all add: attempt_refines_def)
  then have "attempt_refines st' mo a b (k l r st')" by (rule assms(2))
  then show ?thesis using m grown_trans [OF g] by (auto simp: or_else_def attempt_refines_def)
next
  case False
  then have "or_else m k = m" by (auto simp: or_else_def split: option.splits sum.splits)
  then show ?thesis using assms(1) by simp
qed

lemma same_obj_means: "same_obj s b b' \<Longrightarrow> bls_denotes s b e \<Longrightarrow> means s (ValBitLengthSet b') (MSet (rationals e))"
  by (auto simp: same_obj_def means_symbolic)

subsection \<open>Symbolic strategies\<close>

lemma smod_magnitude: "0 \<le> v \<Longrightarrow> v smod d = v mod \<bar>d\<bar>" for v d :: int
  by (cases "v = 0") (simp_all add: signed_modulo_int_def)

lemma pairwise_mod:
  assumes "wf_expr e" "d \<noteq> 0"
  shows "ideal_elementwise BinMod (rationals e) {of_int d} = Some (MSet (of_int ` (\<lambda>v. v mod \<bar>d\<bar>) ` clamped e))"
proof -
  have v: "ideal_rational BinMod (of_int v) (of_int d) = Some (MRational (of_int (v mod \<bar>d\<bar>)))" if "v \<in> clamped e" for v
    using clamped_i64 [OF assms(1) that] assms(2) by (simp add: ideal_integers_def smod_magnitude)
  then have "pairwise BinMod (rationals e) {of_int d} = of_int ` (\<lambda>v. v mod \<bar>d\<bar>) ` clamped e"
    by (fastforce simp: pairwise_def rationals_def image_iff)
  then show ?thesis using v by (auto simp: ideal_elementwise_def rationals_def)
qed

lemma mod_refines:
  assumes "store_ok (graph st)" "means (graph st) l a" "means (graph st) r b"
  shows "attempt_refines st (ideal_binary op a b) a b (symbolic_mod rnd op location l r st)"
proof (cases "\<exists>x y. op = BinMod \<and> l = ValBitLengthSet x \<and> r = ValRational y \<and> isInteger y \<and> numer y \<noteq> 0 \<and>
    unsignedMagnitude (numer y) \<le> int64_max")
  case True
  then obtain x y where xy: "op = BinMod" "l = ValBitLengthSet x" "r = ValRational y" "isInteger y" "numer y \<noteq> 0"
    "unsignedMagnitude (numer y) \<le> int64_max" by blast
  obtain e where e: "obj_ok (graph st) x" "bls_denotes (graph st) x e" "a = MSet (rationals e)"
    using assms(2) xy by (auto simp: means_symbolic)
  have y: "b = MRational (of_int (numer y))" using assms(3) xy by (auto simp: rat_value_def isInteger_def)
  have k: "unsignedMagnitude (numer y) = \<bar>numer y\<bar>" by (auto simp: unsignedMagnitude_def)
  obtain res x' where m: "bls_modulo (graph st) x \<bar>numer y\<bar> = Some (res, x')"
    "residues_answer res \<bar>numer y\<bar> (clamped e)" "same_obj (graph st) x x'"
    using bls_modulo_good [OF assms(1) e(1,2), of "\<bar>numer y\<bar>"] xy(5) by (metis abs_ge_zero abs_eq_0 int_one_le_iff_zero_less less_le)
  note w = node_wf [OF assms(1) e(2)]
  have ideal: "ideal_binary op a b = Some (MSet (of_int ` (\<lambda>v. v mod \<bar>numer y\<bar>) ` clamped e))"
    using pairwise_mod [OF w xy(5)] xy(1) e(3) y by (simp add: is_elementwise_def)
  show ?thesis
  proof (cases res)
    case None
    then show ?thesis using xy m k same_obj_means [OF m(3) e(2)] assms(1,3) e(3)
      by (auto simp: asWideInteger_def intro!: refined)
  next
    case (Some vs)
    then have vs: "set vs = (\<lambda>v. v mod \<bar>numer y\<bar>) ` clamped e" using m(2) by (simp add: residues_answer_def)
    have "i64 (v mod \<bar>numer y\<bar>)" for v
    proof -
      have "0 \<le> v mod \<bar>numer y\<bar>" "v mod \<bar>numer y\<bar> < \<bar>numer y\<bar>" using xy(5) by simp_all
      then show ?thesis unfolding i64_def using xy(6) k int64_max_pos(3) by linarith
    qed
    then have "\<forall>v\<in>set vs. i64 v" unfolding vs by blast
    then obtain xs where "toRationalSet rnd vs = Some xs" "rset_ok xs" "rset_values xs = of_int ` set vs"
      using toRationalSet_good by blast
    then show ?thesis using xy m k Some vs assms(1) ideal
      by (auto simp: asWideInteger_def intro!: attempt_refines_answered)
  qed
next
  case False
  then show ?thesis using assms
    by (cases "(rnd, op, location, l, r, st)" rule: symbolic_mod.cases)
      (auto simp: asWideInteger_def isInteger_def intro!: refined)
qed

lemma ideal_comparison:
  "op = BinEq \<or> op = BinNe \<Longrightarrow> ideal_binary op (MSet A) (MSet B) = Some (MBool (if op = BinEq then A = B else A \<noteq> B))"
  "is_order op \<Longrightarrow> ideal_binary op (MSet A) (MSet B) = Some (MBool (set_relation op A B))"
  by (auto simp: is_equality_def set_relation_def)

lemma inj_rat: "inj rat_of_int"
  by (simp add: inj_on_def)

lemma rationals_eq_iff: "rationals e = rationals f \<longleftrightarrow> clamped e = clamped f"
  "rationals e \<subseteq> rationals f \<longleftrightarrow> clamped e \<subseteq> clamped f"
  by (simp_all add: rationals_def inj_image_eq_iff inj_image_subset_iff inj_rat)

lemma decided_refines:
  assumes "store_ok (graph st)" "obj_ok (graph st) x" "bls_denotes (graph st) x e" "rset_ok L"
    and "mo = Some (MBool (if op = BinEq then rationals e = rset_values L else rationals e \<noteq> rset_values L))"
  shows "attempt_refines st mo a b
    (answered (decideSetEquality rnd x L location st) (\<lambda>eq. ValBool (if op = BinEq then eq else \<not> eq)))"
proof -
  obtain v st' where D: "decideSetEquality rnd x L location st = Some (v, st')"
    "\<forall>eq. v = Some eq \<longrightarrow> st' = st \<and> (eq \<longleftrightarrow> rationals e = rset_values L)"
    using decideSetEquality_good [OF assms(1-4)] by blast
  show ?thesis
  proof (cases v)
    case None
    then show ?thesis using D(1) by (simp add: attempt_refines_def answered_def)
  next
    case (Some eq)
    then have "st' = st" "eq = (rationals e = rset_values L)" using D(2) by blast+
    then show ?thesis using D(1) Some assms(1,5) by (simp add: attempt_refines_def answered_def)
  qed
qed

lemma equality_refines:
  assumes "store_ok (graph st)" "means (graph st) l a" "means (graph st) r b"
  shows "attempt_refines st (ideal_binary op a b) a b (symbolic_equality rnd op location l r st)"
proof (cases "op = BinEq \<or> op = BinNe")
  case op: True
  show ?thesis
  proof (cases "(rnd, op, location, l, r, st)" rule: symbolic_equality.cases)
    case (1 rnd' op' location' x y st')
    obtain e f where e: "obj_ok (graph st) x" "bls_denotes (graph st) x e" "a = MSet (rationals e)"
      and f: "obj_ok (graph st) y" "bls_denotes (graph st) y f" "b = MSet (rationals f)"
      using assms(2,3) 1 by (auto simp: means_symbolic)
    obtain v x' y' where "equalsExact (graph st) x y = Some (v, x', y')" "\<forall>eq. v = Some eq \<longrightarrow> (eq \<longleftrightarrow> clamped e = clamped f)"
      using equalsExact_good [OF assms(1) e(1,2) f(1,2)] by blast
    then show ?thesis using 1 op e(3) f(3) assms(1) ideal_comparison(1) [OF op, of "rationals e" "rationals f"]
      by (cases v) (auto simp: rationals_eq_iff intro!: refined)
  next
    case (2 rnd' op' location' x L st')
    obtain e where e: "obj_ok (graph st) x" "bls_denotes (graph st) x e" "a = MSet (rationals e)"
      using assms(2) 2 by (auto simp: means_symbolic)
    have L: "rset_ok L" "b = MSet (rset_values L)" using assms(3) 2 by auto
    have "symbolic_equality rnd op location l r st =
        answered (decideSetEquality rnd x L location st) (\<lambda>eq. ValBool (if op = BinEq then eq else \<not> eq))"
      using 2 op by simp
    then show ?thesis
      using decided_refines [OF assms(1) e(1,2) L(1), of _ op] ideal_comparison(1) [OF op, of "rationals e" "rset_values L"]
      by (simp only: e(3) L(2))
  next
    case (3 rnd' op' location' L y st')
    obtain e where e: "obj_ok (graph st) y" "bls_denotes (graph st) y e" "b = MSet (rationals e)"
      using assms(3) 3 by (auto simp: means_symbolic)
    have L: "rset_ok L" "a = MSet (rset_values L)" using assms(2) 3 by auto
    have "symbolic_equality rnd op location l r st =
        answered (decideSetEquality rnd y L location st) (\<lambda>eq. ValBool (if op = BinEq then eq else \<not> eq))"
      using 3 op by simp
    then show ?thesis
      using decided_refines [OF assms(1) e(1,2) L(1), of _ op] ideal_comparison(1) [OF op, of "rset_values L" "rationals e"]
      by (simp only: e(3) L(2) eq_commute [of "rset_values L" "rationals e"])
  qed (use assms in \<open>auto intro!: refined\<close>)
next
  case False
  then show ?thesis using assms
    by (cases "(rnd, op, location, l, r, st)" rule: symbolic_equality.cases) (auto intro!: refined)
qed

lemma verdict_refines:
  assumes "store_ok (graph st)" "obj_ok (graph st) x" "bls_denotes (graph st) x e" "rset_ok L" "is_order op"
  obtains litInS sInLit sameCard x' where
    "order_verdicts rnd (graph st) x L = Some ((litInS, sInLit, sameCard), x')"
    "means (graph st) (ValBitLengthSet x') (MSet (rationals e))"
    "\<And>v. order_result op sInLit litInS sameCard = Some v \<Longrightarrow> v \<longleftrightarrow> set_relation op (rationals e) (rset_values L)"
    "\<And>v. order_result op litInS sInLit sameCard = Some v \<Longrightarrow> v \<longleftrightarrow> set_relation op (rset_values L) (rationals e)"
proof -
  obtain w x' where w: "order_verdicts rnd (graph st) x L = Some (w, x')" "same_obj (graph st) x x'"
    "verdicts_right w (rationals e) (rset_values L)" using order_verdicts_good [OF assms(1-4)] by blast
  obtain p q c where pqc: "w = (p, q, c)" by (cases w)
  then have r: "right p (rset_values L \<subseteq> rationals e)" "right q (rationals e \<subseteq> rset_values L)"
    "right c (card (rationals e) = card (rset_values L))" using w(3) by (simp_all add: verdicts_right_def)
  have c: "right c (card (rset_values L) = card (rationals e))" using r(3) by (simp add: right_def eq_commute)
  show thesis
  proof (rule that)
    show "order_verdicts rnd (graph st) x L = Some ((p, q, c), x')" using w(1) pqc by simp
    show "means (graph st) (ValBitLengthSet x') (MSet (rationals e))" by (rule same_obj_means [OF w(2) assms(3)])
    show "v \<longleftrightarrow> set_relation op (rationals e) (rset_values L)" if "order_result op q p c = Some v" for v
      by (rule order_result_right [OF r(2,1,3) _ _ assms(5) that]) simp_all
    show "v \<longleftrightarrow> set_relation op (rset_values L) (rationals e)" if "order_result op p q c = Some v" for v
      by (rule order_result_right [OF r(1,2) c _ _ assms(5) that]) simp_all
  qed
qed

lemma order_refines:
  assumes "store_ok (graph st)" "means (graph st) l a" "means (graph st) r b"
  shows "attempt_refines st (ideal_binary op a b) a b (symbolic_order rnd op location l r st)"
proof (cases "is_order op")
  case op: True
  show ?thesis
  proof (cases "(rnd, op, location, l, r, st)" rule: symbolic_order.cases)
    case (1 rnd' op' location' x y st')
    obtain e f where e: "obj_ok (graph st) x" "bls_denotes (graph st) x e" "a = MSet (rationals e)"
      and f: "obj_ok (graph st) y" "bls_denotes (graph st) y f" "b = MSet (rationals f)"
      using assms(2,3) 1 by (auto simp: means_symbolic)
    obtain p x' y' where p: "isSubsetOfExact (graph st) x y = Some (p, x', y')" "same_obj (graph st) x x'" "same_obj (graph st) y y'"
      "\<forall>v. p = Some v \<longrightarrow> (v \<longleftrightarrow> rationals e \<subseteq> rationals f)"
      using isSubsetOfExact_good [OF assms(1) e(1,2) f(1,2)] unfolding rationals_eq_iff by blast
    have d: "obj_ok (graph st) x'" "bls_denotes (graph st) x' e" "obj_ok (graph st) y'" "bls_denotes (graph st) y' f"
      using p(2,3) e(2) f(2) by (simp_all add: same_obj_def)
    obtain q y'' x'' where q: "isSubsetOfExact (graph st) y' x' = Some (q, y'', x'')"
      "\<forall>v. q = Some v \<longrightarrow> (v \<longleftrightarrow> rationals f \<subseteq> rationals e)"
      using isSubsetOfExact_good [OF assms(1) d(3,4,1,2)] unfolding rationals_eq_iff by blast
    have i: "ideal_binary op a b = Some (MBool (set_relation op (rationals e) (rationals f)))"
      using ideal_comparison(2) [OF op] e(3) f(3) by simp
    have s: "symbolic_order rnd op location l r st = (case (p, q) of
        (Some p, Some q) \<Rightarrow> answered (answer (case op of BinLe \<Rightarrow> p | BinLt \<Rightarrow> p \<and> \<not> (p \<and> q) | BinGe \<Rightarrow> q
          | _ \<Rightarrow> q \<and> \<not> (p \<and> q)) st) ValBool
      | _ \<Rightarrow> answered (symbolic_budget location st) id)"
      using 1 op p(1) q(1) by (cases p; cases q) (simp_all add: Let_def)
    show ?thesis
    proof (cases "\<exists>u v. p = Some u \<and> q = Some v")
      case True
      then obtain u v where uv: "p = Some u" "q = Some v" by blast
      then have "u \<longleftrightarrow> rationals e \<subseteq> rationals f" "v \<longleftrightarrow> rationals f \<subseteq> rationals e" using p(4) q(2) by blast+
      then have "(case op of BinLe \<Rightarrow> u | BinLt \<Rightarrow> u \<and> \<not> (u \<and> v) | BinGe \<Rightarrow> v | _ \<Rightarrow> v \<and> \<not> (u \<and> v)) \<longleftrightarrow>
          set_relation op (rationals e) (rationals f)"
        using op by (cases op) (auto simp: is_order_def set_relation_def)
      then show ?thesis unfolding s uv prod.case option.case using attempt_refines_answered [OF assms(1) i, where f = ValBool] by simp
    next
      case False
      then have "symbolic_order rnd op location l r st = answered (symbolic_budget location st) id"
        unfolding s by (auto split: option.splits)
      then show ?thesis by (simp add: attempt_refines_refused)
    qed
  next
    case (2 rnd' op' location' x L st')
    obtain e where e: "obj_ok (graph st) x" "bls_denotes (graph st) x e" "a = MSet (rationals e)"
      using assms(2) 2 by (auto simp: means_symbolic)
    have L: "rset_ok L" "b = MSet (rset_values L)" using assms(3) 2 by auto
    obtain p q c x' where V: "order_verdicts rnd (graph st) x L = Some ((p, q, c), x')"
      "means (graph st) (ValBitLengthSet x') (MSet (rationals e))"
      "\<And>v. order_result op q p c = Some v \<Longrightarrow> v \<longleftrightarrow> set_relation op (rationals e) (rset_values L)"
      using verdict_refines [OF assms(1) e(1,2) L(1) op] by metis
    have "symbolic_order rnd op location l r st = (case order_result op q p c of
        Some v \<Rightarrow> answered (answer v st) ValBool | None \<Rightarrow> left_over (ValBitLengthSet x') (ValSet L) st)"
      using 2 op V(1) by (cases "order_result op q p c") simp_all
    then show ?thesis using V(2,3) assms(1,3) 2 e(3) L ideal_comparison(2) [OF op, of "rationals e" "rset_values L"]
      by (cases "order_result op q p c") (simp_all add: attempt_refines_left_over attempt_refines_answered)
  next
    case (3 rnd' op' location' L y st')
    obtain e where e: "obj_ok (graph st) y" "bls_denotes (graph st) y e" "b = MSet (rationals e)"
      using assms(3) 3 by (auto simp: means_symbolic)
    have L: "rset_ok L" "a = MSet (rset_values L)" using assms(2) 3 by auto
    obtain p q c y' where V: "order_verdicts rnd (graph st) y L = Some ((p, q, c), y')"
      "means (graph st) (ValBitLengthSet y') (MSet (rationals e))"
      "\<And>v. order_result op p q c = Some v \<Longrightarrow> v \<longleftrightarrow> set_relation op (rset_values L) (rationals e)"
      using verdict_refines [OF assms(1) e(1,2) L(1) op] by metis
    have "symbolic_order rnd op location l r st = (case order_result op p q c of
        Some v \<Rightarrow> answered (answer v st) ValBool | None \<Rightarrow> left_over (ValSet L) (ValBitLengthSet y') st)"
      using 3 op V(1) by (cases "order_result op p q c") simp_all
    then show ?thesis using V(2,3) assms(1,2) 3 e(3) L ideal_comparison(2) [OF op, of "rset_values L" "rationals e"]
      by (cases "order_result op p q c") (simp_all add: attempt_refines_left_over attempt_refines_answered)
  qed (use assms in \<open>auto intro!: refined\<close>)
next
  case False
  then show ?thesis using assms
    by (cases "(rnd, op, location, l, r, st)" rule: symbolic_order.cases) (auto intro!: refined)
qed

lemma pairwise_add:
  "pairwise BinAdd A {y} = (\<lambda>x. x + y) ` A" "pairwise BinAdd {y} A = (\<lambda>x. y + x) ` A"
  by (auto simp: pairwise_def)

lemma fits_rat_int: "fits_rat (of_int n) \<longleftrightarrow> i64 n"
  by (simp add: fits_rat_def int64_max_def)

lemma plus_refines:
  assumes "store_ok (graph st)" "obj_ok (graph st) x" "bls_denotes (graph st) x e" "sound_rational y"
    and "means (graph st) l a" "means (graph st) r b"
    and "mo = Some (MSet ((\<lambda>z. z + rat_value y) ` rationals e))" "\<forall>z\<in>rationals e. fits_rat (z + rat_value y)"
  shows "attempt_refines st mo a b (plus_scalar x y l r st)"
proof (cases "isInteger y \<and> 0 \<le> numer y \<and> numer y \<le> int64_max")
  case True
  then have y: "rat_value y = of_int (numer y)" "i64 (numer y)" by (auto simp: rat_value_def isInteger_def int64_defs)
  obtain c s1 where c: "bls_of_value (numer y) (graph st) = (c, s1)" by force
  obtain t s2 where t: "bls_plus x c s1 = (t, s2)" by force
  have B: "builds (graph st) s1 c {numer y}"
    using of_values_builds [OF c [unfolded bls_of_value_def] assms(1)] y(2) True by simp
  have "bls_denotes s1 x e" using B extends_denotes [OF _ assms(3)] by (simp add: builds_def)
  then have x: "bls_set s1 x (clamped e)" "bls_set s1 c {numer y}" "store_ok s1"
    using B by (auto simp: builds_def bls_set_def)
  have T: "builds s1 s2 t (clamp ` msum (clamped e) {numer y})" by (rule plus_builds [OF t x(3,1,2)])
  have fit: "i64 (v + numer y)" if "v \<in> clamped e" for v
    using assms(8) that y(1) fits_rat_int [of "v + numer y"] by (auto simp: rationals_def)
  then have "clamp ` msum (clamped e) {numer y} = (\<lambda>v. v + numer y) ` clamped e"
    unfolding msum_singleton image_image by (intro image_cong) (auto simp: clamp_def i64_def)
  then obtain f where f: "obj_ok s2 t" "bls_denotes s2 t f" "(\<lambda>v. v + numer y) ` clamped e = clamped f"
    using T by (auto simp: builds_def bls_set_def)
  have "rationals f = (\<lambda>z. z + rat_value y) ` rationals e"
    unfolding rationals_def f(3) [symmetric] image_image y(1) by simp
  moreover have "grown st (st\<lparr>graph := s2\<rparr>)"
    using B T by (auto simp: grown_def builds_def intro: extends_trans)
  ultimately show ?thesis using True c t f assms(7)
    by (simp add: plus_scalar_def asWideInteger_def attempt_refines_def answered_def answer_def means_symbolic) blast
next
  case False
  then show ?thesis using assms(1,5,6)
    by (auto simp: plus_scalar_def asWideInteger_def intro!: refined split: option.splits)
qed

lemma add_refines:
  assumes "store_ok (graph st)" "means (graph st) l a" "means (graph st) r b" "orderly_operands op a b"
  shows "attempt_refines st (ideal_binary op a b) a b (symbolic_add op l r st)"
proof -
  have def_add: "ideal_elementwise BinAdd A B = Some (MSet (pairwise BinAdd A B))" for A B
    by (simp add: ideal_elementwise_def)
  show ?thesis
  proof (cases "(op, l, r, st)" rule: symbolic_add.cases)
    case (1 x y st')
    obtain e where e: "obj_ok (graph st) x" "bls_denotes (graph st) x e" "a = MSet (rationals e)"
      using assms(2) 1 by (auto simp: means_symbolic)
    have y: "sound_rational y" "b = MRational (rat_value y)" using assms(3) 1 by auto
    have "attempt_refines st (ideal_binary op a b) a b (plus_scalar x y l r st)"
      using 1 e(3) y(2) assms(4) by (intro plus_refines [OF assms(1) e(1,2) y(1) assms(2,3)])
        (auto simp: is_elementwise_def def_add pairwise_add)
    then show ?thesis using 1 by simp
  next
    case (2 y x st')
    obtain e where e: "obj_ok (graph st) x" "bls_denotes (graph st) x e" "b = MSet (rationals e)"
      using assms(3) 2 by (auto simp: means_symbolic)
    have y: "sound_rational y" "a = MRational (rat_value y)" using assms(2) 2 by auto
    have "attempt_refines st (ideal_binary op a b) a b (plus_scalar x y l r st)"
      using 2 e(3) y(2) assms(4) by (intro plus_refines [OF assms(1) e(1,2) y(1) assms(2,3)])
        (auto simp: is_elementwise_def def_add pairwise_add add.commute)
    then show ?thesis using 2 by simp
  qed (use assms in \<open>auto intro!: refined\<close>)
qed

lemma materialized_refines:
  assumes "store_ok (graph st)" "means (graph st) (ValBitLengthSet x) a"
    and "materializeExact rnd x location st = Some (Some xs, st')"
  shows "st' = st \<and> means (graph st) (ValSet xs) a"
proof -
  obtain e where "obj_ok (graph st) x" "bls_denotes (graph st) x e" "a = MSet (rationals e)"
    using assms(2) by (auto simp: means_symbolic)
  then show ?thesis using materializeExact_good [OF assms(1), of x e rnd location] assms(3) by auto
qed

lemma left_refines:
  assumes "store_ok (graph st)" "means (graph st) l a" "means (graph st) r b"
  shows "attempt_refines st mo a b (materialize_left rnd location l r st)"
proof (cases "\<exists>x xs st'. l = ValBitLengthSet x \<and> materializeExact rnd x location st = Some (Some xs, st')")
  case True
  then obtain x xs st' where x: "l = ValBitLengthSet x" "materializeExact rnd x location st = Some (Some xs, st')" by blast
  have "st' = st \<and> means (graph st) (ValSet xs) a" by (rule materialized_refines [OF assms(1) _ x(2)]) (use assms x(1) in simp)
  then show ?thesis using x assms by (auto simp: attempt_refines_def left_over_def)
next
  case False
  then show ?thesis using assms
    by (cases l) (auto simp: attempt_refines_def left_over_def split: option.splits prod.splits)
qed

lemma right_refines:
  assumes "store_ok (graph st)" "means (graph st) l a" "means (graph st) r b"
  shows "attempt_refines st mo a b (materialize_right rnd location l r st)"
proof (cases "\<exists>x xs st'. r = ValBitLengthSet x \<and> materializeExact rnd x location st = Some (Some xs, st')")
  case True
  then obtain x xs st' where x: "r = ValBitLengthSet x" "materializeExact rnd x location st = Some (Some xs, st')" by blast
  have "st' = st \<and> means (graph st) (ValSet xs) b" by (rule materialized_refines [OF assms(1) _ x(2)]) (use assms x(1) in simp)
  then show ?thesis using x assms by (auto simp: attempt_refines_def left_over_def)
next
  case False
  then show ?thesis using assms
    by (cases r) (auto simp: attempt_refines_def left_over_def split: option.splits prod.splits)
qed

lemma symbolic_refines:
  assumes "store_ok (graph st)" "means (graph st) l a" "means (graph st) r b" "orderly_operands op a b"
  shows "attempt_refines st (ideal_binary op a b) a b (symbolic_binary rnd op location l r st)"
  unfolding symbolic_binary_def
  by (intro attempt_refines_or_else mod_refines equality_refines order_refines add_refines left_refines right_refines assms)
    (simp_all add: grown_def)

subsection \<open>Concrete operands\<close>

lemma refines_elementwise:
  assumes "store_ok (graph st)" "\<forall>a\<in>set as. sound_rational a" "\<forall>b\<in>set bs. sound_rational b" "is_elementwise op"
    and "\<forall>z\<in>pairwise op (rset_values as) (rset_values bs). fits_rat z"
    and "mo = ideal_elementwise op (rset_values as) (rset_values bs)"
  shows "refines st mo (elementwise rnd op location as bs st)"
proof -
  have "grown st st' \<and> (\<exists>x. mo = Some x \<and> means (graph st') v x)"
    if "elementwise rnd op location as bs st = Some (Some v, st')" for v st'
    using elementwise_sound [OF assms(2-5) that] assms(1,6) stands_for_means by auto
  then show ?thesis by (auto simp: refines_def)
qed

lemma rset_sound: "rset_ok xs \<Longrightarrow> \<forall>x\<in>set xs. sound_rational x"
  by (auto dest: rset_okD simp: small_sound)

lemma sets_refine:
  assumes "store_ok (graph st)" "rset_ok xs" "rset_ok ys"
    and "orderly_operands op (MSet (rset_values xs)) (MSet (rset_values ys))"
  shows "refines st (ideal_binary op (MSet (rset_values xs)) (MSet (rset_values ys)))
    (concrete_binary rnd op location (ValSet xs) (ValSet ys) st)"
proof -
  consider "op = BinEq" | "op = BinNe" | "is_order op" | "is_bitwise op" | "is_elementwise op"
    | "\<not> (is_equality op \<or> is_order op \<or> is_bitwise op \<or> is_elementwise op)"
    by (auto simp: is_equality_def)
  then show ?thesis
  proof cases
    case 1
    then show ?thesis using assms rset_eq_iff [OF assms(2,3)]
      by (simp add: is_equality_def set_relation_def refines_answer)
  next
    case 2
    then show ?thesis using assms rset_eq_iff [OF assms(2,3)]
      by (simp add: is_equality_def set_relation_def refines_answer)
  next
    case 3
    then have "op \<noteq> BinEq" "op \<noteq> BinNe" by (auto simp: is_order_def)
    then show ?thesis using 3 assms set_order_iff [OF assms(2,3) 3] by (simp add: refines_answer)
  next
    case 4
    then have "op \<noteq> BinEq" "op \<noteq> BinNe" "\<not> is_order op" "\<not> is_equality op" "op = BinBitOr \<or> op = BinBitAnd \<or> op = BinBitXor"
      by (auto simp: op_classes)
    then show ?thesis using 4 assms applySetBinary_sound [OF assms(2,3) 4, of rnd] by (simp add: refines_answer)
  next
    case 5
    then have "op \<noteq> BinEq" "op \<noteq> BinNe" "\<not> is_order op" "\<not> is_equality op" "\<not> is_bitwise op"
      "\<not> (op = BinBitOr \<or> op = BinBitAnd \<or> op = BinBitXor)" by (auto simp: op_classes)
    then show ?thesis using 5 assms rset_sound by (simp add: refines_elementwise)
  next
    case 6
    then have "op \<noteq> BinEq" "op \<noteq> BinNe" "\<not> (op = BinBitOr \<or> op = BinBitAnd \<or> op = BinBitXor)" by (auto simp: op_classes)
    then show ?thesis using 6 by (simp add: refines_fail)
  qed
qed

lemma concrete_refines:
  assumes "store_ok (graph st)" "means (graph st) l a" "means (graph st) r b" "orderly_operands op a b"
  shows "refines st (ideal_binary op a b) (concrete_binary rnd op location l r st)"
proof (cases "(rnd, op, location, l, r, st)" rule: concrete_binary.cases)
  case (1 rnd' op' location' x y st')
  then have xy: "sound_rational x" "sound_rational y" "a = MRational (rat_value x)" "b = MRational (rat_value y)"
    using assms(2,3) by auto
  then have c: "is_order op \<Longrightarrow> cross_fit (rat_value x) (rat_value y)" using assms(4) by simp
  have A: "refines st (ideal_binary op a b) (answer v st)" if "applyBinaryRational rnd op x y = Some (Some v)" for v
    using applyBinaryRational_sound [OF xy(1,2) c that] xy(3,4) assms(1) by (auto intro!: refines_answer stands_for_means)
  have "concrete_binary rnd op location l r st = (case applyBinaryRational rnd op x y of None \<Rightarrow> None
      | Some None \<Rightarrow> fail location ''invalid rational operation'' st | Some (Some v) \<Rightarrow> answer v st)"
    using 1 by (simp split: option.split)
  then show ?thesis using A by (auto simp: refines_None refines_fail split: option.split)
next
  case (2 rnd' op' location' x y st')
  then show ?thesis using assms by (cases op) (simp_all add: refines_answer refines_fail)
next
  case (3 rnd' op' location' x y st')
  then show ?thesis using assms by (cases op) (simp_all add: refines_answer refines_fail)
next
  case (4 rnd' op' location' xs ys st')
  then show ?thesis using assms sets_refine [OF assms(1), of xs ys op rnd location] by auto
next
  case (5 rnd' op' location' xs y st')
  then show ?thesis using assms rset_sound [of xs]
    by (auto simp: refines_fail intro!: refines_elementwise)
next
  case (6 rnd' op' location' x ys st')
  then show ?thesis using assms rset_sound [of ys]
    by (auto simp: refines_fail intro!: refines_elementwise)
qed (auto simp: refines_fail)

lemma binary_refines:
  assumes "store_ok (graph st)" "means (graph st) l a" "means (graph st) r b" "orderly_operands op a b"
  shows "refines st (ideal_binary op a b) (binary_values rnd op location l r st)"
proof (cases "is_symbolic l \<or> is_symbolic r")
  case True
  note S = symbolic_refines [OF assms, of rnd location]
  show ?thesis
  proof (cases "symbolic_binary rnd op location l r st")
    case None
    then show ?thesis using True by (simp add: binary_values_def refines_None)
  next
    case (Some p)
    obtain q st1 where p: "p = (q, st1)" by force
    show ?thesis
    proof (cases q)
      case (Inl v)
      then have "binary_values rnd op location l r st = Some (v, st1)" using True Some p by (simp add: binary_values_def)
      then show ?thesis using S Some p Inl by (auto simp: refines_def attempt_refines_def)
    next
      case (Inr lr)
      obtain l' r' where lr: "lr = (l', r')" by force
      have g: "grown st st1" "means (graph st1) l' a" "means (graph st1) r' b"
        using S Some p Inr lr by (auto simp: attempt_refines_def)
      have "binary_values rnd op location l r st = concrete_binary rnd op location l' r' st1"
        using True Some p Inr lr by (simp add: binary_values_def)
      then show ?thesis using concrete_refines [OF _ g(2,3) assms(4), of rnd location] g(1) grown_trans [OF g(1)]
        by (auto simp: refines_def grown_def)
    qed
  qed
qed (simp add: binary_values_def concrete_refines [OF assms])

subsection \<open>Attributes and unary operators\<close>

definition resolver_refines :: "type_attributes \<Rightarrow> 'z resolver option \<Rightarrow> bool" where
  "resolver_refines attr resolver \<longleftrightarrow>
     (case resolver of
        None \<Rightarrow> \<forall>t. attr t ''_extent_'' = Some (MRational 0)
      | Some resolve \<Rightarrow> \<forall>t name location st. store_ok (graph st) \<longrightarrow> refines st (attr t name) (resolve t name location st))"

lemma int64_of_size_small: "int n \<le> int64_max \<Longrightarrow> int64_of_size n = int n"
  by (simp add: int64_of_size_def int64_max_def)

lemma count_refines:
  assumes "store_ok (graph st)" "int n \<le> int64_max" "mo = Some (MRational (of_nat n))"
  shows "refines st mo (rational_value (int64_of_size n) st)"
  using assms by (intro refines_rational_value) (auto simp: int64_of_size_small int64_max_def int128_max_def)

lemma symbolic_count_refines:
  assumes "store_ok (graph st)" "obj_ok (graph st) x" "bls_denotes (graph st) x e" "int (card (rationals e)) \<le> int64_max"
  shows "refines st (Some (MRational (of_nat (card (rationals e))))) (symbolic_count rnd x location st)"
proof -
  note B = bounds_good [OF assms(1,3)] and ne = clamped_nonempty [OF node_wf [OF assms(1,3)]]
  have fixed: "bls_fixed (graph st) x = Some (Min (clamped e) = Max (clamped e))" using B by (simp add: bls_fixed_def)
  have one: "card (rationals e) = 1" if "Min (clamped e) = Max (clamped e)"
    using that Min_eq_Max_card [OF ne] by (simp add: card_rationals)
  obtain v x' where v: "bls_runSet (graph st) x = Some (v, x')" "run_good e v" "same_obj (graph st) x x'"
    using bls_runSet_good [OF assms(1-3)] by blast
  have x': "obj_ok (graph st) x'" "bls_denotes (graph st) x' e" using v(3) assms(3) by (simp_all add: same_obj_def)
  have enumerate: "refines st (Some (MRational (of_nat (card (rationals e)))))
      (on_value (materializeExact rnd x' location st) (\<lambda>xs. rational_value (int64_of_size (length xs))))"
  proof (cases "\<exists>xs st'. materializeExact rnd x' location st = Some (Some xs, st')")
    case True
    then obtain xs st' where m: "materializeExact rnd x' location st = Some (Some xs, st')" by blast
    then have "st' = st" "length xs = card (rationals e)"
      using materializeExact_good [OF assms(1) x', of rnd location] rset_length by auto
    then show ?thesis using m assms(1,4) by (simp add: on_value_def count_refines)
  next
    case False
    then show ?thesis by (auto simp: on_value_def refines_def split: option.splits prod.splits)
  qed
  have "refines st (Some (MRational (of_nat (card (rationals e))))) (rational_value n st)"
    if n: "v = Some rs" "rs_count rs = Some n" for rs n
  proof -
    have "n = int (card (rationals e))" using n run_good_clamped [of e rs] v(2)
      by (simp add: rs_ok_iff rs_count_exact card_rationals split: if_splits)
    then show ?thesis using assms(1,4) by (auto simp: int64_max_def int128_max_def intro!: refines_rational_value)
  qed
  then show ?thesis using v(1) fixed one enumerate assms(1)
    by (auto simp: symbolic_count_def Let_def int128_max_def split: option.splits intro!: refines_rational_value)
qed

lemma attribute_refines:
  assumes "store_ok (graph st)" "means (graph st) v a" "orderly_attribute a" "resolver_refines attr resolver"
  shows "refines st (ideal_attribute attr name a) (attribute_of rnd resolver name location v st)"
proof (cases v)
  case (ValSet xs)
  then have x: "rset_ok xs" "a = MSet (rset_values xs)" using assms(2) by auto
  have n: "int (length xs) \<le> int64_max" using assms(3) x rset_length [OF x(1)] by simp
  have "sound_rational (hd xs)" "sound_rational (last xs)" if "xs \<noteq> []"
    using that rset_sound [OF x(1)] by simp_all
  then show ?thesis using ValSet x n assms(1) rset_hd [OF x(1)] rset_last [OF x(1)] rset_length [OF x(1)]
    by (auto intro!: refined count_refines)
next
  case (ValBitLengthSet b)
  obtain e where e: "obj_ok (graph st) b" "bls_denotes (graph st) b e" "a = MSet (rationals e)"
    using assms(2) ValBitLengthSet by (auto simp: means_symbolic)
  note B = bounds_rational [OF assms(1) e(2)] and w = node_wf [OF assms(1) e(2)]
  have ne: "rationals e \<noteq> {}" using B(7) by blast
  have i: "\<bar>Min (clamped e)\<bar> \<le> int128_max" "\<bar>Max (clamped e)\<bar> \<le> int128_max"
    using clamped_i64 [OF w] clamped_nonempty [OF w] by (meson Min_in Max_in finite_clamped i64_abs)+
  have m: "Min (rationals e) = of_int (Min (clamped e))" "Max (rationals e) = of_int (Max (clamped e))"
    using Min_rationals Max_rationals clamped_nonempty [OF w] by blast+
  have "int (card (rationals e)) \<le> int64_max" using assms(3) e(3) by simp
  note C = symbolic_count_refines [OF assms(1) e(1,2) this, of rnd location]
  consider "name = ''min''" | "name = ''max''" | "name = ''count''" | "name \<notin> {''min'', ''max'', ''count''}" by auto
  then show ?thesis
  proof cases
    case 1
    then show ?thesis using ValBitLengthSet e(3) B(1) ne m(1) i(1) assms(1) by (simp add: refines_rational_value)
  next
    case 2
    then show ?thesis using ValBitLengthSet e(3) B(2) ne m(2) i(2) assms(1) by (simp add: refines_rational_value)
  next
    case 3
    then show ?thesis using ValBitLengthSet e(3) C by simp
  next
    case 4
    then show ?thesis using ValBitLengthSet by (simp add: refines_fail)
  qed
next
  case (ValType t)
  then show ?thesis using assms by (auto simp: resolver_refines_def int128_max_def intro!: refined split: option.splits)
qed (auto simp: refines_fail)

lemma unary_refines:
  assumes "store_ok (graph st)" "means (graph st) v a"
  shows "refines st (ideal_unary op a) (unary_value op location v st)"
proof (cases "\<exists>r. v = ValRational r \<and> op = UnMinus")
  case True
  then obtain r where r: "v = ValRational r" "op = UnMinus" by blast
  then have ok: "sound_rational r" "a = MRational (rat_value r)" using assms(2) by auto
  have b: "\<bar>numer r\<bar> \<le> int128_max" "0 < denom r" "denom r \<le> int128_max" "coprime (numer r) (denom r)"
    using ok(1) by (auto simp: sound_rational_def rat_ok_def)
  then have "neg128 (numer r) = Some (- numer r)" by (auto simp: neg128_def i128_defs)
  moreover have "rational_of (- numer r) (denom r) = Some (reduced (- numer r) (denom r) False)"
    using rational_of_reduces [of "- numer r" "denom r"] b by simp
  moreover note R = reduced_ok [of "- numer r" "denom r" False]
  moreover have "rat_of_int (- numer r) / of_int (denom r) = - rat_value r" by (simp add: rat_value_def)
  ultimately show ?thesis using r ok b assms(1)
    by (auto simp: sound_rational_def intro!: refines_answer)
next
  case False
  then show ?thesis using assms by (cases op; cases v) (auto simp: refines_fail intro!: refines_answer)
qed

subsection \<open>The evaluator\<close>

definition env_means :: "store \<Rightarrow> (string \<rightharpoonup> Value) \<Rightarrow> (string \<rightharpoonup> meaning) \<Rightarrow> bool" where
  "env_means s env ideals \<longleftrightarrow> (\<forall>name v. env name = Some v \<longrightarrow> (\<exists>m. ideals name = Some m \<and> means s v m))"

lemma env_means_extends: "grown st st' \<Longrightarrow> env_means (graph st) env ideals \<Longrightarrow> env_means (graph st') env ideals"
  using grown_means by (fastforce simp: env_means_def)

lemma refines_bind:
  assumes "refines st mo m" "\<And>v st' x. m = Some (Some v, st') \<Longrightarrow> grown st st' \<Longrightarrow> mo = Some x \<Longrightarrow> means (graph st') v x \<Longrightarrow> refines st' (k' x) (k v st')"
  shows "refines st (Option.bind mo k') (on_value m k)"
proof (cases "\<exists>v st'. m = Some (Some v, st')")
  case True
  then obtain v st' where m: "m = Some (Some v, st')" by blast
  then obtain x where x: "grown st st'" "mo = Some x" "means (graph st') v x" using assms(1) by (auto simp: refines_def)
  have "refines st' (k' x) (k v st')" by (rule assms(2) [OF m x])
  then show ?thesis using m x grown_trans [OF x(1)] by (auto simp: refines_def on_value_def)
next
  case False
  then show ?thesis by (auto simp: on_value_def refines_def split: option.splits prod.splits)
qed

lemma operands_refine:
  assumes "refines st ma (evaluate_expr rnd env resolver l st)"
    and "\<And>lv st1. evaluate_expr rnd env resolver l st = Some (lv, st1) \<Longrightarrow> grown st st1 \<Longrightarrow>
      refines st1 mb (evaluate_expr rnd env resolver r st1)"
    and "\<And>a b. ma = Some a \<Longrightarrow> mb = Some b \<Longrightarrow> orderly_operands op a b" "op \<noteq> BinAttribute"
  shows "refines st (do { a \<leftarrow> ma; b \<leftarrow> mb; ideal_binary op a b }) (evaluateBinary rnd env resolver op l r location st)"
  unfolding refines_def
proof (intro allI impI)
  fix v st' assume "evaluateBinary rnd env resolver op l r location st = Some (Some v, st')"
  then obtain u st1 w st2 where e: "evaluate_expr rnd env resolver l st = Some (Some u, st1)"
    "evaluate_expr rnd env resolver r st1 = Some (Some w, st2)" "binary_values rnd op location u w st2 = Some (Some v, st')"
    unfolding evaluateBinary.simps if_not_P [OF assms(4)] by (blast elim!: both_operands)
  obtain a where a: "grown st st1" "ma = Some a" "means (graph st1) u a" using assms(1) e(1) by (auto simp: refines_def)
  obtain b where b: "grown st1 st2" "mb = Some b" "means (graph st2) w b"
    using assms(2) [OF e(1) a(1)] e(2) by (auto simp: refines_def)
  have ok: "store_ok (graph st2)" using b(1) by (simp add: grown_def)
  have "refines st2 (ideal_binary op a b) (binary_values rnd op location u w st2)"
    by (rule binary_refines [OF ok grown_means [OF b(1) a(3)] b(3) assms(3) [OF a(2) b(2)]])
  then show "grown st st' \<and> (\<exists>x. Option.bind ma (\<lambda>a. Option.bind mb (ideal_binary op a)) = Some x \<and> means (graph st') v x)"
    using e(3) a(2) b(2) grown_trans [OF a(1) b(1)] by (auto simp: refines_def intro: grown_trans)
qed

lemma evaluation_refines:
  assumes "resolver_refines attr resolver"
  shows "store_ok (graph st) \<Longrightarrow> env_means (graph st) env ideals \<Longrightarrow> orderly attr ideals e \<Longrightarrow>
      refines st (ideal attr ideals e) (evaluate_expr rnd env resolver e st)"
    and "store_ok (graph st) \<Longrightarrow> env_means (graph st) env ideals \<Longrightarrow> orderly_value attr ideals (ExprBinary op l r) \<Longrightarrow>
      refines st (ideal_value attr ideals (ExprBinary op l r)) (evaluateBinary rnd env resolver op l r location st)"
    and "store_ok (graph st) \<Longrightarrow> env_means (graph st) env ideals \<Longrightarrow> orderly_elements attr ideals es \<Longrightarrow> rset_ok xs \<Longrightarrow>
      evaluate_elements rnd env resolver es xs st = Some (Some ys, st') \<Longrightarrow> grown st st' \<and> rset_ok ys \<and>
      (\<exists>A. ideal_elements attr ideals es = Some A \<and> rset_values ys = A \<union> rset_values xs)"
  using assms
proof (induction rnd env resolver e st and rnd env resolver op l r location st and rnd env resolver es xs st
    arbitrary: and and ys st' rule: evaluate_expr_evaluateBinary_evaluate_elements.induct)
  case (4 rnd env resolver location name st)
  show ?case
  proof (cases "env name")
    case (Some v)
    then obtain m where "ideals name = Some m" "means (graph st) v m" using "4.prems"(2) by (auto simp: env_means_def)
    then show ?thesis using Some "4.prems"(1) by (simp add: refines_answer)
  qed (simp add: refines_fail)
next
  case (5 rnd env resolver location op operand st)
  have "refines st (ideal attr ideals operand) (evaluate_expr rnd env resolver operand st)" using 5 by simp
  then show ?case
    by (auto simp: grown_def intro!: refines_bind unary_refines)
next
  case (7 rnd env resolver location es st)
  have "grown st st' \<and> (\<exists>x. ideal_value attr ideals (ExprSetLiteral es) = Some x \<and> means (graph st') (ValSet ys) x)"
    if "evaluate_elements rnd env resolver es [] st = Some (Some ys, st')" for ys st'
    using "7.IH" [of ys st'] "7.prems" that by auto
  then show ?case by (auto simp: refines_def on_value_def answer_def split: option.splits prod.splits)
next
  case (9 rnd env resolver op l r location st)
  show ?case
  proof (cases "op = BinAttribute")
    case True
    have L: "refines st (ideal attr ideals l) (evaluate_expr rnd env resolver l st)" using "9.IH"(1) "9.prems" True by simp
    show ?thesis
    proof (cases "attribute_name r")
      case None
      then show ?thesis using True
        by (auto simp: evaluateBinary.simps on_value_def refines_def fail_def split: option.splits prod.splits)
    next
      case (Some name)
      have "refines st (Option.bind (ideal attr ideals l) (ideal_attribute attr name))
          (on_value (evaluate_expr rnd env resolver l st) (attribute_of rnd resolver name location))"
        using "9.prems" True by (intro refines_bind L attribute_refines) (auto simp: grown_def)
      then show ?thesis using True Some by (simp add: evaluateBinary.simps)
    qed
  next
    case False
    have L: "refines st (ideal attr ideals l) (evaluate_expr rnd env resolver l st)" using "9.IH"(2) "9.prems" False by simp
    have R: "refines st1 (ideal attr ideals r) (evaluate_expr rnd env resolver r st1)"
      if "evaluate_expr rnd env resolver l st = Some (lv, st1)" "grown st st1" for lv st1
      using "9.IH"(3) [OF False that(1) refl] "9.prems" False that(2) env_means_extends [OF that(2)] by (simp add: grown_def)
    have o: "orderly_operands op a b" if "ideal attr ideals l = Some a" "ideal attr ideals r = Some b" for a b
      using "9.prems"(3) False that by simp
    show ?thesis using operands_refine [OF L R o False] False by simp
  qed
next
  case (11 rnd env resolver e es xs st)
  note E = "11.prems"(5)
  have V: "refines st (ideal attr ideals e) (evaluate_expr rnd env resolver e st)" using "11.IH"(1) "11.prems" by simp
  obtain r st1 where r: "evaluate_expr rnd env resolver e st = Some (Some (ValRational r), st1)"
    "evaluate_elements rnd env resolver es (rset_insert rnd r xs) st1 = Some (Some ys, st')"
    using E by (auto simp: on_value_def fail_def split: option.splits prod.splits Value.splits)
  have g: "grown st st1" and i: "ideal attr ideals e = Some (MRational (rat_value r))" "sound_rational r"
    using V r(1) by (auto simp: refines_def)
  then have "small_rational r" using "11.prems"(3) by (simp add: small_sound)
  note I = rset_insert_ok [OF this "11.prems"(4), of rnd]
  have "grown st1 st' \<and> rset_ok ys \<and>
      (\<exists>A. ideal_elements attr ideals es = Some A \<and> rset_values ys = A \<union> rset_values (rset_insert rnd r xs))"
    using "11.IH"(2) [OF r(1) refl, of ys st'] "11.prems" r(2) I g env_means_extends [OF g] by (simp add: grown_def)
  then show ?case using I i(1) grown_trans [OF g] by auto
next
  case (10 rnd env resolver xs st)
  then show ?case by (auto simp: answer_def)
qed (auto intro!: refined)

end
