(* ===== verification/EvaluatorTotal.thy ===== *)
theory EvaluatorTotal
  imports EvaluatorRefinement
begin

text \<open>
  When evaluation succeeds: on expressions whose ideal values have parts of 64 bits and that use no
  symbolic set, the evaluator neither reaches undefined behaviour nor refuses anything that has an
  ideal value. Also the bound on the loop of the power operator, which is what keeps a huge exponent
  from stalling the compiler.
\<close>

subsection \<open>Symmetric 64-bit parts\<close>

definition fits_sym :: "rat \<Rightarrow> bool" where
  "fits_sym x \<longleftrightarrow> (case quotient_of x of (n, d) \<Rightarrow> \<bar>n\<bar> \<le> int64_max \<and> d \<le> int64_max)"

lemma fits_sym_rat: "fits_sym x \<Longrightarrow> fits_rat x"
  by (auto simp: fits_sym_def fits_rat_def int64_defs split: prod.splits)

lemma quotient_of_ratio: "coprime n d \<Longrightarrow> 0 < d \<Longrightarrow> quotient_of (of_int n / of_int d) = (n, d)"
  by (simp add: Fract_of_int_quotient [symmetric] quotient_of_Fract normalize_stable)

lemma quotient_of_parts:
  assumes "quotient_of x = (n, d)"
  shows "x = of_int n / of_int d" "coprime n d" "0 < d"
  using assms quotient_of_div quotient_of_coprime quotient_of_denom_pos by auto

lemma fits_sym_ratio: "coprime n d \<Longrightarrow> 0 < d \<Longrightarrow> fits_sym (of_int n / of_int d) \<longleftrightarrow> \<bar>n\<bar> \<le> int64_max \<and> d \<le> int64_max"
  by (simp add: fits_sym_def quotient_of_ratio)

lemma fits_sym_int: "fits_sym (of_int n) \<longleftrightarrow> \<bar>n\<bar> \<le> int64_max"
  using fits_sym_ratio [of n 1] by (simp add: int64_max_def)

lemma fits_sym_uminus: "fits_sym (- x) \<longleftrightarrow> fits_sym x"
proof -
  obtain n d where q: "quotient_of x = (n, d)" by force
  note p = quotient_of_parts [OF q]
  have "- x = of_int (- n) / of_int d" using p(1) by simp
  then show ?thesis using fits_sym_ratio [of "- n" d] fits_sym_ratio [of n d] p by simp
qed

lemma fits_sym_inverse: "x \<noteq> 0 \<Longrightarrow> fits_sym (inverse x) \<longleftrightarrow> fits_sym x"
proof -
  assume "x \<noteq> 0"
  obtain n d where q: "quotient_of x = (n, d)" by force
  note p = quotient_of_parts [OF q]
  have n: "n \<noteq> 0" using p(1) \<open>x \<noteq> 0\<close> by auto
  have "inverse x = of_int (sgn n * d) / of_int \<bar>n\<bar>" using p(1) n by (cases "0 < n") auto
  moreover have "coprime (sgn n * d) \<bar>n\<bar>" using p(2) n by (auto simp: sgn_if coprime_commute)
  ultimately show ?thesis using fits_sym_ratio [of "sgn n * d" "\<bar>n\<bar>"] fits_sym_ratio [of n d] p n by (auto simp: abs_mult)
qed

lemma abs_power_mono: "x \<noteq> 0 \<Longrightarrow> i \<le> k \<Longrightarrow> \<bar>x ^ i\<bar> \<le> \<bar>x ^ k\<bar>" for x :: int
  by (simp add: power_abs) (intro power_increasing, auto)

lemma fits_sym_power:
  assumes "x \<noteq> 0" "fits_sym (x ^ k)" "i \<le> k"
  shows "fits_sym (x ^ i)"
proof -
  obtain n d where q: "quotient_of x = (n, d)" by force
  note p = quotient_of_parts [OF q]
  have n: "n \<noteq> 0" using p(1) assms(1) by auto
  have f: "fits_sym (x ^ j) \<longleftrightarrow> \<bar>n ^ j\<bar> \<le> int64_max \<and> d ^ j \<le> int64_max" for j
    using fits_sym_ratio [of "n ^ j" "d ^ j"] p by (simp add: power_divide)
  have "\<bar>n ^ i\<bar> \<le> \<bar>n ^ k\<bar>" "d ^ i \<le> d ^ k"
    using abs_power_mono [OF n assms(3)] p(3) assms(3) by (auto intro: power_increasing)
  then show ?thesis using assms(2) unfolding f by linarith
qed

lemma fits_sym_powi:
  assumes "x \<noteq> 0" "fits_sym (x powi e)" "i \<le> nat \<bar>e\<bar>"
  shows "fits_sym (x ^ i)"
proof -
  have "fits_sym (x ^ nat \<bar>e\<bar>)"
  proof (cases "0 \<le> e")
    case True
    then show ?thesis using assms(2) by (simp add: power_int_def)
  next
    case False
    then have "x powi e = inverse (x ^ nat \<bar>e\<bar>)" by (simp add: power_int_def power_inverse)
    then show ?thesis using assms(1,2) fits_sym_inverse [of "x ^ nat \<bar>e\<bar>"] by simp
  qed
  then show ?thesis by (rule fits_sym_power [OF assms(1) _ assms(3)])
qed

subsection \<open>Rational operators\<close>

lemma small_operators:
  assumes "small_rational l" "small_rational r"
  shows "\<exists>x. rat_add l r = Some x \<and> sound_rational x \<and> rat_value x = rat_value l + rat_value r"
    "\<exists>x. rat_sub l r = Some x \<and> sound_rational x \<and> rat_value x = rat_value l - rat_value r"
    "\<exists>x. rat_mul l r = Some x \<and> sound_rational x \<and> rat_value x = rat_value l * rat_value r"
    "rat_value r \<noteq> 0 \<Longrightarrow> \<exists>x. rat_div l r = Some x \<and> sound_rational x \<and> rat_value x = rat_value l / rat_value r"
proof -
  have o: "rat_ok l" "rat_ok r" "fits64 l" "fits64 r" "\<not> overflowed l" "\<not> overflowed r"
    using assms by (simp_all add: small_rational_def)
  show "\<exists>x. rat_add l r = Some x \<and> sound_rational x \<and> rat_value x = rat_value l + rat_value r"
    "\<exists>x. rat_sub l r = Some x \<and> sound_rational x \<and> rat_value x = rat_value l - rat_value r"
    "\<exists>x. rat_mul l r = Some x \<and> sound_rational x \<and> rat_value x = rat_value l * rat_value r"
    using operators_exact(1-3) [OF o(1,2)] o(3-6) unfolding operator_exact_def sound_rational_def by blast+
  show "\<exists>x. rat_div l r = Some x \<and> sound_rational x \<and> rat_value x = rat_value l / rat_value r" if "rat_value r \<noteq> 0"
    using operators_exact(4) [OF o(1,2) that] o(3-6) unfolding operator_exact_def sound_rational_def by blast
qed

lemma pow_loop_total:
  assumes "small_rational base" "sound_rational out"
    and "\<And>i. i \<le> nat n \<Longrightarrow> fits_rat (rat_value out * rat_value base ^ i)"
  shows "\<exists>x. pow_loop n out base = Some (Some x)"
  using assms
proof (induction n out base rule: pow_loop.induct)
  case (1 n out base)
  show ?case
  proof (cases "n \<le> 0")
    case True
    then show ?thesis by (simp add: pow_loop_step [of n])
  next
    case False
    have "small_rational out" using 1(3) 1(4) [of 0] by (simp add: small_sound)
    then obtain out' where o: "rat_mul out base = Some out'" "sound_rational out'" "rat_value out' = rat_value out * rat_value base"
      using small_operators(3) 1(2) by blast
    have f: "\<not> overflowed out'" using o(2) by (simp add: sound_rational_def)
    have "fits_rat (rat_value out' * rat_value base ^ i)" if "i \<le> nat (n - 1)" for i
      using 1(4) [of "Suc i"] that False o(3) by (simp add: mult.assoc)
    then have "\<exists>x. pow_loop (n - 1) out' base = Some (Some x)" using 1(1) [OF False o(1) f 1(2) o(2)] by blast
    then show ?thesis using False o(1) f by (simp add: pow_loop_step [of n])
  qed
qed

lemma intPow_total:
  assumes "small_rational base" "sound_rational ex"
    and "\<And>z. ideal_pow (rat_value base) (rat_value ex) = Some z \<Longrightarrow> fits_sym z"
  shows "\<exists>v. intPow base ex = Some v \<and> (v = None \<longleftrightarrow> ideal_pow (rat_value base) (rat_value ex) = None)"
proof (cases "isInteger ex")
  case False
  then have "rat_value ex \<notin> \<int>" using isInteger_value assms(2) by (auto simp: sound_rational_def)
  then show ?thesis using False by (simp add: intPow_def ideal_pow_def)
next
  case i: True
  define e where "e = numer ex"
  have v: "rat_value ex = of_int e" using i by (simp add: rat_value_def isInteger_def e_def)
  have w: "(case asWideInteger ex of None \<Rightarrow> 0 | Some w \<Rightarrow> w) = e" using i by (simp add: asWideInteger_def e_def)
  have s: "sound_rational base" using assms(1) by (simp add: small_sound)
  have eqs: "rat_eq base rational_1 \<longleftrightarrow> rat_value base = 1" "rat_eq base rational_0 \<longleftrightarrow> rat_value base = 0"
    "rat_eq base rational_minus_1 \<longleftrightarrow> rat_value base = - 1" using sound_rat_eq [OF s] by simp_all
  show ?thesis
  proof (cases "rat_value base \<in> {0, 1, - 1}")
    case True
    then show ?thesis using i eqs by (auto simp: intPow_def w [unfolded e_def] v ideal_pow_def e_def)
  next
    case False
    then have z: "rat_value base \<noteq> 0" by simp
    have f: "fits_sym (rat_value base ^ k)" if "k \<le> nat \<bar>e\<bar>" for k
      using fits_sym_powi [OF z assms(3) that] z v by (simp add: ideal_pow_def)
    obtain out where out: "pow_loop \<bar>e\<bar> rational_1 base = Some (Some out)"
      using pow_loop_total [OF assms(1), of rational_1 "\<bar>e\<bar>"] f fits_sym_rat by auto
    have o: "sound_rational out" "rat_value out = rat_value base ^ nat \<bar>e\<bar>"
      using pow_loop_sound [OF s _ out] by simp_all
    then have "small_rational out" "rat_value out \<noteq> 0" using f [OF order_refl] fits_sym_rat z by (auto simp: small_sound)
    moreover have "small_rational rational_1"
      using fits_sym_int [of 1] fits_sym_rat [of 1] by (simp add: small_sound int64_max_def)
    ultimately obtain x where x: "rat_div rational_1 out = Some x" "sound_rational x" using small_operators(4) by blast
    have "\<exists>y. intPow base ex = Some (Some y)"
      using i False eqs out x by (auto simp: intPow_def w [unfolded e_def] e_def [symmetric] sound_rational_def Let_def)
    moreover have "ideal_pow (rat_value base) (rat_value ex) \<noteq> None" using z v by (simp add: ideal_pow_def)
    ultimately show ?thesis by auto
  qed
qed

lemma i64_signed: "i64 n \<longleftrightarrow> signed_take_bit 63 n = n"
  by (auto simp: signed_take_bit_int_eq_self_iff int64_defs)

lemma signed_bits: "signed_take_bit n (a OR b) = signed_take_bit n a OR signed_take_bit n b"
  "signed_take_bit n (a XOR b) = signed_take_bit n a XOR signed_take_bit n b"
  "signed_take_bit n (a AND b) = signed_take_bit n a AND signed_take_bit n b" for a b :: int
  by (rule bit_eqI, simp add: bit_signed_take_bit_iff bit_or_iff bit_xor_iff bit_and_iff)+

lemma rational_bits_total:
  assumes "small_rational l" "small_rational r" "\<And>a b. i64 a \<Longrightarrow> i64 b \<Longrightarrow> i64 (f a b)"
  shows "\<exists>v. rational_bits f l r = Some v \<and> (v = None \<longleftrightarrow> ideal_integers f (rat_value l) (rat_value r) = None)"
proof (cases "isInteger l \<and> isInteger r")
  case True
  have "i64 (f (numer l) (numer r))" using assms by (auto simp: small_rational_def fits64_def)
  then have "rational_of (f (numer l) (numer r)) 1 = Some (rat_of_i64 (f (numer l) (numer r)))" by (rule rational_of_i64)
  then show ?thesis using True isInteger_value assms(1,2)
    by (auto simp: rational_bits_def rational_result_def asWideInteger_def ideal_integers_def small_rational_def)
next
  case False
  then show ?thesis using isInteger_value assms(1,2)
    by (auto simp: rational_bits_def ideal_integers_def small_rational_def)
qed

lemma rational_mod_total:
  assumes "small_rational l" "small_rational r"
  shows "\<exists>v. rational_mod l r = Some v \<and> (v = None \<longleftrightarrow> ideal_rational BinMod (rat_value l) (rat_value r) = None)"
proof -
  have s: "sound_rational l" "sound_rational r" using assms by (simp_all add: small_sound)
  then have zero: "rat_eq r rational_0 \<longleftrightarrow> rat_value r = 0" using sound_rat_eq [of r rational_0] by simp
  have ints: "isInteger l \<longleftrightarrow> rat_value l \<in> \<int>" "isInteger r \<longleftrightarrow> rat_value r \<in> \<int>"
    using isInteger_value s by (simp_all add: sound_rational_def)
  have "\<bar>numer l smod numer r\<bar> \<le> int128_max" if "rat_value r \<noteq> 0"
    using smod_i128 [OF sound_i128 [OF s(1)], of "numer r"] that sound_nonzero [OF s(2)] s(2)
    by (simp add: sound_rational_def rat_ok_def)
  then show ?thesis
    by (auto simp: rational_mod_def rational_result_def asWideInteger_def ideal_integers_def rational_of_int int128_max_def
        zero ints)
qed

lemma applyBinaryRational_total:
  assumes "small_rational l" "small_rational r"
    and "\<And>z. ideal_rational op (rat_value l) (rat_value r) = Some (MRational z) \<Longrightarrow> fits_sym z"
  shows "\<exists>v. applyBinaryRational rnd op l r = Some v \<and> (v = None \<longleftrightarrow> ideal_rational op (rat_value l) (rat_value r) = None)"
proof -
  note S = small_operators [OF assms(1,2)]
  have s: "sound_rational r" using assms(2) by (simp add: small_sound)
  have zero: "rat_eq r rational_0 \<longleftrightarrow> rat_value r = 0" using sound_rat_eq [OF s] by simp
  have i64: "i64 (a OR b)" "i64 (a XOR b)" "i64 (a AND b)" if "i64 a" "i64 b" for a b
    using that by (simp_all add: i64_signed signed_bits)
  note bits = rational_bits_total [OF assms(1,2)]
  show ?thesis
  proof (cases op)
    case BinPow
    obtain v where "intPow l r = Some v" "v = None \<longleftrightarrow> ideal_pow (rat_value l) (rat_value r) = None"
      using intPow_total [OF assms(1) s] assms(3) BinPow by auto
    then show ?thesis using BinPow by (simp add: applyBinaryRational_def)
  next
    case BinMul
    then show ?thesis using S(3) by (auto simp: applyBinaryRational_def checked_result_def sound_rational_def)
  next
    case BinDiv
    then show ?thesis using S(4) zero by (auto simp: applyBinaryRational_def checked_result_def sound_rational_def)
  next
    case BinMod
    then show ?thesis using rational_mod_total [OF assms(1,2)] by (simp add: applyBinaryRational_def)
  next
    case BinAdd
    then show ?thesis using S(1) by (auto simp: applyBinaryRational_def checked_result_def sound_rational_def)
  next
    case BinSub
    then show ?thesis using S(2) by (auto simp: applyBinaryRational_def checked_result_def sound_rational_def)
  next
    case BinBitOr
    then show ?thesis using bits [of "(OR)"] i64(1) by (simp add: applyBinaryRational_def)
  next
    case BinBitXor
    then show ?thesis using bits [of "(XOR)"] i64(2) by (simp add: applyBinaryRational_def)
  next
    case BinBitAnd
    then show ?thesis using bits [of "(AND)"] i64(3) by (simp add: applyBinaryRational_def)
  qed (simp_all add: applyBinaryRational_def)
qed

subsection \<open>Tame expressions\<close>

fun scalars :: "meaning \<Rightarrow> rat set" where
  "scalars (MRational x) = {x}"
| "scalars (MSet A) = A"
| "scalars _ = {}"

fun tame_meaning :: "meaning \<Rightarrow> bool" where
  "tame_meaning (MRational x) \<longleftrightarrow> fits_sym x"
| "tame_meaning (MSet A) \<longleftrightarrow> (\<forall>x\<in>A. fits_sym x) \<and> int (card A) \<le> int64_max"
| "tame_meaning _ \<longleftrightarrow> True"

definition tame_operands :: "BinaryOp \<Rightarrow> meaning \<Rightarrow> meaning \<Rightarrow> bool" where
  "tame_operands op a b \<longleftrightarrow>
     (\<forall>x\<in>scalars a. \<forall>y\<in>scalars b. \<forall>z. ideal_rational op x y = Some (MRational z) \<longrightarrow> fits_sym z)"

definition no_resolver :: type_attributes where
  "no_resolver t name = (if name = ''_extent_'' then Some (MRational 0) else None)"

fun tame :: "(string \<rightharpoonup> meaning) \<Rightarrow> ExprAST \<Rightarrow> bool"
  and tame_value :: "(string \<rightharpoonup> meaning) \<Rightarrow> ExprValue \<Rightarrow> bool"
  and tame_elements :: "(string \<rightharpoonup> meaning) \<Rightarrow> ExprAST list \<Rightarrow> bool" where
  "tame env (ExprAST _ v) \<longleftrightarrow>
     tame_value env v \<and> (case ideal_value no_resolver env v of None \<Rightarrow> True | Some m \<Rightarrow> tame_meaning m)"
| "tame_value env (ExprRational r) \<longleftrightarrow> sound_rational r"
| "tame_value env (ExprUnary op e) \<longleftrightarrow> tame env e"
| "tame_value env (ExprBinary op l r) \<longleftrightarrow>
     tame env l \<and>
     (if op = BinAttribute then True
      else tame env r \<and>
        (case (ideal no_resolver env l, ideal no_resolver env r) of (Some a, Some b) \<Rightarrow> tame_operands op a b | _ \<Rightarrow> True))"
| "tame_value env (ExprSetLiteral es) \<longleftrightarrow> tame_elements env es"
| "tame_value env _ \<longleftrightarrow> True"
| "tame_elements env [] \<longleftrightarrow> True"
| "tame_elements env (e # es) \<longleftrightarrow> tame env e \<and> tame_elements env es"

lemma tame_ideal: "tame env e \<Longrightarrow> ideal no_resolver env e = Some m \<Longrightarrow> tame_meaning m"
  by (cases e) auto

lemma cross_fit_sym: "fits_sym x \<Longrightarrow> fits_sym y \<Longrightarrow> cross_fit x y"
proof -
  assume f: "fits_sym x" "fits_sym y"
  obtain n d p q where xy: "quotient_of x = (n, d)" "quotient_of y = (p, q)" by force
  have b: "\<bar>n\<bar> \<le> int64_max" "d \<le> int64_max" "0 < d" "\<bar>p\<bar> \<le> int64_max" "q \<le> int64_max" "0 < q"
    using f xy quotient_of_denom_pos by (auto simp: fits_sym_def)
  then have "\<bar>n * q\<bar> \<le> int64_max * int64_max" "\<bar>p * d\<bar> \<le> int64_max * int64_max"
    by (simp_all add: abs_mult mult_mono)
  then show ?thesis using xy by (auto simp: cross_fit_def i128_defs int64_max_def)
qed

lemma tame_pairwise: "tame_operands op a b \<Longrightarrow> z \<in> pairwise op (scalars a) (scalars b) \<Longrightarrow> fits_rat z"
  by (auto simp: tame_operands_def pairwise_def intro: fits_sym_rat)

lemma tame_orderly_operands:
  assumes "tame_meaning a" "tame_meaning b" "tame_operands op a b"
  shows "orderly_operands op a b"
  using assms(1,2) tame_pairwise [OF assms(3)] by (cases a; cases b) (auto intro: cross_fit_sym)

lemma tame_orderly:
  "tame env e \<Longrightarrow> orderly no_resolver env e"
  "tame_value env v \<Longrightarrow> orderly_value no_resolver env v"
  "tame_elements env es \<Longrightarrow> orderly_elements no_resolver env es"
proof (induction env e and env v and env es rule: tame_tame_value_tame_elements.induct)
  case (4 env op l r)
  have a: "orderly_attribute m" if "ideal no_resolver env l = Some m" for m
    using tame_ideal [OF _ that] 4(3) by (cases m) auto
  have "orderly_operands op m n" if "op \<noteq> BinAttribute" "ideal no_resolver env l = Some m" "ideal no_resolver env r = Some n" for m n
    using that 4(3) tame_ideal by (intro tame_orderly_operands) auto
  then show ?case using 4 a by (auto split: option.splits)
next
  case (8 env e es)
  then show ?case using tame_ideal [of env e] fits_sym_rat by fastforce
qed auto

subsection \<open>Concrete operations succeed\<close>

text \<open>\<open>settles m mo\<close>: the computation is defined, and has a value exactly when there is an ideal one.\<close>

definition settles :: "'z ev_state_scheme \<Rightarrow> (Value option \<times> 'z ev_state_scheme) option \<Rightarrow> meaning option \<Rightarrow> bool" where
  "settles st m mo \<longleftrightarrow>
     (\<exists>r st'. m = Some (r, st') \<and> graph st' = graph st \<and> (r = None \<longleftrightarrow> mo = None) \<and> (\<forall>v. r = Some v \<longrightarrow> \<not> is_symbolic v))"

named_theorems settled \<open>computations that settle\<close>

lemma settles_answer [settled]: "mo \<noteq> None \<Longrightarrow> \<not> is_symbolic v \<Longrightarrow> settles st (answer v st) mo"
  by (auto simp: settles_def answer_def)

lemma settles_fail [settled]:
  "mo = None \<Longrightarrow> settles st (fail location message st) mo"
  "mo = None \<Longrightarrow> settles st (unsupported location l r st) mo"
  "mo = None \<Longrightarrow> settles st (no_attribute location v st) mo"
  by (auto simp: settles_def fail_def unsupported_def no_attribute_def)

lemma settles_rational_value [settled]: "\<bar>n\<bar> \<le> int128_max \<Longrightarrow> mo \<noteq> None \<Longrightarrow> settles st (rational_value n st) mo"
  by (auto simp: rational_value_def rational_of_int is_symbolic_def intro!: settles_answer)

lemma elementwise_rational: "is_elementwise op \<Longrightarrow> ideal_rational op x y = Some m \<Longrightarrow> \<exists>z. m = MRational z"
  by (cases op) (auto simp: is_elementwise_def ideal_integers_def split: if_splits)

lemma elementwise_pair:
  assumes "small_rational a" "small_rational b" "is_elementwise op"
    and "\<And>z. ideal_rational op (rat_value a) (rat_value b) = Some (MRational z) \<Longrightarrow> fits_sym z"
  shows "(\<exists>p. applyBinaryRational rnd op a b = Some (Some (ValRational p)) \<and> ideal_rational op (rat_value a) (rat_value b) \<noteq> None) \<or>
    applyBinaryRational rnd op a b = Some None \<and> ideal_rational op (rat_value a) (rat_value b) = None"
proof -
  obtain v where v: "applyBinaryRational rnd op a b = Some v" "v = None \<longleftrightarrow> ideal_rational op (rat_value a) (rat_value b) = None"
    using applyBinaryRational_total [OF assms(1,2,4)] by blast
  have o: "is_order op \<Longrightarrow> cross_fit (rat_value a) (rat_value b)" using assms(3) by (auto simp: op_classes)
  show ?thesis
  proof (cases v)
    case (Some w)
    obtain m where m: "ideal_rational op (rat_value a) (rat_value b) = Some m" "stands_for w m"
      using applyBinaryRational_sound [where rnd = rnd and op = op and v = w, OF _ _ o] assms(1,2) v(1) Some by (auto simp: small_sound)
    then obtain p where "w = ValRational p" using elementwise_rational [OF assms(3) m(1)] by (cases w) auto
    then show ?thesis using v Some by auto
  qed (use v in simp)
qed

lemma elementwise_row_total:
  assumes "small_rational a" "\<forall>b\<in>set bs. small_rational b" "is_elementwise op"
    and "\<forall>b\<in>set bs. \<forall>z. ideal_rational op (rat_value a) (rat_value b) = Some (MRational z) \<longrightarrow> fits_sym z"
  shows "\<exists>v. elementwise_row rnd op a bs out = Some v \<and>
    (v = None \<longleftrightarrow> (\<exists>b\<in>set bs. ideal_rational op (rat_value a) (rat_value b) = None))"
  using assms(2,4)
proof (induction bs arbitrary: out)
  case (Cons b bs)
  then have "small_rational b" "\<And>z. ideal_rational op (rat_value a) (rat_value b) = Some (MRational z) \<Longrightarrow> fits_sym z" by auto
  note P = elementwise_pair [OF assms(1) this(1) assms(3) this(2), of rnd]
  then show ?case using Cons by auto
qed simp

lemma elementwise_rows_total:
  assumes "\<forall>a\<in>set as. small_rational a" "\<forall>b\<in>set bs. small_rational b" "is_elementwise op"
    and "\<forall>a\<in>set as. \<forall>b\<in>set bs. \<forall>z. ideal_rational op (rat_value a) (rat_value b) = Some (MRational z) \<longrightarrow> fits_sym z"
  shows "\<exists>v. elementwise_rows rnd op as bs out = Some v \<and>
    (v = None \<longleftrightarrow> (\<exists>a\<in>set as. \<exists>b\<in>set bs. ideal_rational op (rat_value a) (rat_value b) = None))"
  using assms(1,4)
proof (induction as arbitrary: out)
  case (Cons a as)
  then have a: "small_rational a"
    "\<forall>b\<in>set bs. \<forall>z. ideal_rational op (rat_value a) (rat_value b) = Some (MRational z) \<longrightarrow> fits_sym z" by auto
  obtain v where v: "elementwise_row rnd op a bs out = Some v"
    "v = None \<longleftrightarrow> (\<exists>b\<in>set bs. ideal_rational op (rat_value a) (rat_value b) = None)"
    using elementwise_row_total [OF a(1) assms(2,3) a(2)] by blast
  obtain u where "elementwise_rows rnd op as bs (the v) = Some u"
    "u = None \<longleftrightarrow> (\<exists>a\<in>set as. \<exists>b\<in>set bs. ideal_rational op (rat_value a) (rat_value b) = None)"
    using Cons.IH [of "the v"] Cons.prems by auto
  moreover have "v \<noteq> None \<Longrightarrow> (\<exists>a'\<in>set (a # as). \<exists>b\<in>set bs. ideal_rational op (rat_value a') (rat_value b) = None) \<longleftrightarrow>
      (\<exists>a\<in>set as. \<exists>b\<in>set bs. ideal_rational op (rat_value a) (rat_value b) = None)"
    using v(2) by auto
  ultimately show ?case using v by (cases v) auto
qed simp

lemma elementwise_settles:
  assumes "\<forall>a\<in>set as. small_rational a" "\<forall>b\<in>set bs. small_rational b" "is_elementwise op"
    and "\<And>x y z. x \<in> rset_values as \<Longrightarrow> y \<in> rset_values bs \<Longrightarrow> ideal_rational op x y = Some (MRational z) \<Longrightarrow> fits_sym z"
  shows "settles st (elementwise rnd op location as bs st) (ideal_elementwise op (rset_values as) (rset_values bs))"
proof -
  obtain v where v: "elementwise_rows rnd op as bs [] = Some v"
    "v = None \<longleftrightarrow> (\<exists>a\<in>set as. \<exists>b\<in>set bs. ideal_rational op (rat_value a) (rat_value b) = None)"
    using elementwise_rows_total [OF assms(1-3)] assms(4) by blast
  moreover from v(2) have "v = None \<longleftrightarrow> ideal_elementwise op (rset_values as) (rset_values bs) = None"
    by (auto simp: ideal_elementwise_def)
  ultimately show ?thesis
    by (cases v) (auto simp: elementwise_def applySetElementwise_def ideal_elementwise_def is_symbolic_def intro!: settled)
qed

lemma concrete_settles:
  assumes "means s l a" "means s r b" "\<not> is_symbolic l" "\<not> is_symbolic r"
    and "tame_meaning a" "tame_meaning b" "tame_operands op a b"
  shows "settles st (concrete_binary rnd op location l r st) (ideal_binary op a b)"
proof (cases "(rnd, op, location, l, r, st)" rule: concrete_binary.cases)
  case (1 rnd' op' location' x y st')
  then have xy: "small_rational x" "small_rational y" "a = MRational (rat_value x)" "b = MRational (rat_value y)"
    using assms(1,2,5,6) fits_sym_rat by (auto simp: small_sound)
  obtain v where v: "applyBinaryRational rnd op x y = Some v" "v = None \<longleftrightarrow> ideal_rational op (rat_value x) (rat_value y) = None"
    using applyBinaryRational_total [OF xy(1,2), of op rnd] assms(7) xy(3,4) by (auto simp: tame_operands_def)
  have "\<not> is_symbolic w" if "v = Some w" for w
    using typed_rational [where rnd = rnd and op = op and l = x and r = y and v = w] v(1) that by (cases w) (auto simp: is_symbolic_def split: if_splits)
  then show ?thesis using 1 xy v by (cases v) (auto intro!: settled)
next
  case (2 rnd' op' location' x y st')
  then show ?thesis using assms by (cases op) (simp_all add: settled is_symbolic_def)
next
  case (3 rnd' op' location' x y st')
  then show ?thesis using assms by (cases op) (simp_all add: settled is_symbolic_def)
next
  case (4 rnd' op' location' xs ys st')
  then have ok: "rset_ok xs" "rset_ok ys" "a = MSet (rset_values xs)" "b = MSet (rset_values ys)" using assms(1,2) by auto
  then have "settles st (elementwise rnd op location xs ys st) (ideal_elementwise op (rset_values xs) (rset_values ys))"
    if "is_elementwise op"
    using that assms(7) rset_okD by (intro elementwise_settles) (auto simp: tame_operands_def)
  then show ?thesis using 4 ok by (cases op) (simp_all add: op_classes settled is_symbolic_def)
next
  case (5 rnd' op' location' xs y st')
  then have ok: "rset_ok xs" "small_rational y" "a = MSet (rset_values xs)" "b = MRational (rat_value y)"
    using assms(1,2,6) fits_sym_rat by (auto simp: small_sound)
  then have "settles st (elementwise rnd op location xs [y] st) (ideal_elementwise op (rset_values xs) {rat_value y})"
    if "is_elementwise op"
    using that assms(7) rset_okD elementwise_settles [of xs "[y]" op st rnd location] by (auto simp: tame_operands_def)
  then show ?thesis using 5 ok by (auto intro!: settled)
next
  case (6 rnd' op' location' x ys st')
  then have ok: "rset_ok ys" "small_rational x" "b = MSet (rset_values ys)" "a = MRational (rat_value x)"
    using assms(1,2,5) fits_sym_rat by (auto simp: small_sound)
  then have "settles st (elementwise rnd op location [x] ys st) (ideal_elementwise op {rat_value x} (rset_values ys))"
    if "is_elementwise op"
    using that assms(7) rset_okD elementwise_settles [of "[x]" ys op st rnd location] by (auto simp: tame_operands_def)
  then show ?thesis using 6 ok by (auto intro!: settled)
qed (use assms(1-4) in \<open>auto simp: is_symbolic_def intro!: settled\<close>)

lemma unary_settles:
  assumes "means s v a" "\<not> is_symbolic v"
  shows "settles st (unary_value op location v st) (ideal_unary op a)"
proof (cases "\<exists>r. v = ValRational r \<and> op = UnMinus")
  case True
  then obtain r where r: "v = ValRational r" "op = UnMinus" by blast
  then have ok: "sound_rational r" "a = MRational (rat_value r)" using assms by auto
  have b: "\<bar>numer r\<bar> \<le> int128_max" "0 < denom r" "denom r \<le> int128_max"
    using ok(1) by (auto simp: sound_rational_def rat_ok_def)
  then have "neg128 (numer r) = Some (- numer r)" by (auto simp: neg128_def i128_defs)
  moreover have "rational_of (- numer r) (denom r) = Some (reduced (- numer r) (denom r) False)"
    using rational_of_reduces [of "- numer r" "denom r"] b by simp
  ultimately show ?thesis using r ok by (auto simp: is_symbolic_def intro!: settled)
next
  case False
  then show ?thesis using assms by (cases op; cases v) (auto simp: is_symbolic_def intro!: settled)
qed

lemma attribute_settles:
  assumes "means s v a" "\<not> is_symbolic v"
  shows "settles st (attribute_of rnd None name location v st) (ideal_attribute no_resolver name a)"
proof -
  have "\<bar>int64_of_size n\<bar> \<le> int128_max" for n
  proof -
    have "0 \<le> (int n + 2 ^ 63) mod 2 ^ 64" "(int n + 2 ^ 63) mod 2 ^ 64 < 2 ^ 64" by simp_all
    then show ?thesis by (simp add: int64_of_size_def int128_max_def)
  qed
  then show ?thesis using assms
    by (cases v) (auto simp: is_symbolic_def no_resolver_def int128_max_def intro!: settled)
qed

subsection \<open>Evaluation succeeds\<close>

definition concrete_env :: "(string \<rightharpoonup> Value) \<Rightarrow> (string \<rightharpoonup> meaning) \<Rightarrow> bool" where
  "concrete_env env ideals \<longleftrightarrow>
     (\<forall>name. env name = None \<longleftrightarrow> ideals name = None) \<and> (\<forall>name v. env name = Some v \<longrightarrow> \<not> is_symbolic v)"

definition ready :: "'z ev_state_scheme \<Rightarrow> (string \<rightharpoonup> Value) \<Rightarrow> (string \<rightharpoonup> meaning) \<Rightarrow> bool" where
  "ready st env ideals \<longleftrightarrow> store_ok (graph st) \<and> env_means (graph st) env ideals \<and> concrete_env env ideals"

lemma ready_graph: "graph st' = graph st \<Longrightarrow> ready st' env ideals \<longleftrightarrow> ready st env ideals"
  by (simp add: ready_def)

lemma no_resolver_refines: "resolver_refines no_resolver None"
  by (simp add: resolver_refines_def no_resolver_def)

text \<open>What is known of a subexpression that settles: its two outcomes.\<close>

lemma settled_cases:
  assumes "settles st m mo" "refines st mo m"
  obtains st' where "m = Some (None, st')" "mo = None" "graph st' = graph st"
  | v x st' where "m = Some (Some v, st')" "mo = Some x" "graph st' = graph st" "means (graph st) v x" "\<not> is_symbolic v"
proof -
  obtain r st' where r: "m = Some (r, st')" "graph st' = graph st" "r = None \<longleftrightarrow> mo = None" "\<And>v. r = Some v \<Longrightarrow> \<not> is_symbolic v"
    using assms(1) unfolding settles_def by blast
  show thesis
  proof (cases r)
    case None
    then show thesis using r that(1) by blast
  next
    case (Some v)
    then obtain x where "mo = Some x" "means (graph st') v x" using assms(2) r(1) by (auto simp: refines_def)
    then show thesis using r Some that(2) by metis
  qed
qed

lemma settles_bind:
  assumes "settles st m mo" "refines st mo m"
    and "\<And>v st' x. m = Some (Some v, st') \<Longrightarrow> mo = Some x \<Longrightarrow> graph st' = graph st \<Longrightarrow> means (graph st) v x \<Longrightarrow> \<not> is_symbolic v \<Longrightarrow>
      settles st' (k v st') (k' x)"
  shows "settles st (on_value m k) (Option.bind mo k')"
proof (cases rule: settled_cases [OF assms(1,2)])
  case (1 st')
  then show ?thesis by (simp add: on_value_def settles_def)
next
  case (2 v x st')
  then show ?thesis using assms(3) [OF 2] by (simp add: on_value_def settles_def)
qed

lemma operands_settle:
  assumes l: "settles st (evaluate_expr rnd env resolver l st) ma" "refines st ma (evaluate_expr rnd env resolver l st)"
    and r: "\<And>lv st1. evaluate_expr rnd env resolver l st = Some (lv, st1) \<Longrightarrow> graph st1 = graph st \<Longrightarrow>
      settles st1 (evaluate_expr rnd env resolver r st1) mb \<and>
      refines st1 mb (evaluate_expr rnd env resolver r st1)"
    and "\<And>a b. ma = Some a \<Longrightarrow> mb = Some b \<Longrightarrow> tame_meaning a \<and> tame_meaning b \<and> tame_operands op a b" "op \<noteq> BinAttribute"
  shows "settles st (evaluateBinary rnd env resolver op l r location st) (do { a \<leftarrow> ma; b \<leftarrow> mb; ideal_binary op a b })"
proof (cases rule: settled_cases [OF l])
  case (1 st1)
  from r [OF 1(1,3)] have R: "settles st1 (evaluate_expr rnd env resolver r st1) mb" by blast
  then show ?thesis using 1 assms(5) by (auto simp: evaluateBinary.simps settles_def)
next
  case (2 u a st1)
  from r [OF 2(1,3)] have R: "settles st1 (evaluate_expr rnd env resolver r st1) mb"
    "refines st1 mb (evaluate_expr rnd env resolver r st1)" by blast+
  show ?thesis
  proof (cases rule: settled_cases [OF R])
    case (1 st2)
    then show ?thesis using 2 assms(5) by (simp add: evaluateBinary.simps settles_def)
  next
    case s: (2 w b st2)
    have "tame_meaning a" "tame_meaning b" "tame_operands op a b" using assms(4) 2(2) s(2) by blast+
    then have "settles st2 (concrete_binary rnd op location u w st2) (ideal_binary op a b)"
      using 2 s by (intro concrete_settles [of "graph st1"]) simp_all
    then show ?thesis using 2 s assms(5) by (simp add: evaluateBinary.simps binary_values_def settles_def)
  qed
qed

lemma refines_tame:
  "ready st env ideals \<Longrightarrow> tame ideals e \<Longrightarrow> refines st (ideal no_resolver ideals e) (evaluate_expr rnd env None e st)"
  by (simp add: ready_def evaluation_refines(1) [OF no_resolver_refines] tame_orderly(1))

lemma evaluation_settles:
  fixes st :: "'z ev_state_scheme"
  shows "ready st env ideals \<Longrightarrow> tame ideals e \<Longrightarrow>
      settles st (evaluate_expr rnd env None e st) (ideal no_resolver ideals e)"
    and "ready st env ideals \<Longrightarrow> tame_value ideals (ExprBinary op l r) \<Longrightarrow>
      settles st (evaluateBinary rnd env None op l r location st) (ideal_value no_resolver ideals (ExprBinary op l r))"
    and "ready st env ideals \<Longrightarrow> tame_elements ideals es \<Longrightarrow>
      \<exists>r st'. evaluate_elements rnd env None es xs st = Some (r, st') \<and> graph st' = graph st \<and>
        (r = None \<longleftrightarrow> ideal_elements no_resolver ideals es = None)"
proof (induction rnd env "None :: 'z resolver option" e st and rnd env "None :: 'z resolver option" op l r location st and
    rnd env "None :: 'z resolver option" es xs st
    rule: evaluate_expr_evaluateBinary_evaluate_elements.induct)
  case (4 rnd env location name st)
  then have "env name = None \<longleftrightarrow> ideals name = None" "env name = Some v \<Longrightarrow> \<not> is_symbolic v" for v
    by (auto simp: ready_def concrete_env_def)
  then show ?case by (cases "env name"; cases "ideals name") (auto intro!: settled)
next
  case (5 rnd env location op operand st)
  then have "settles st (evaluate_expr rnd env None operand st) (ideal no_resolver ideals operand)"
    "refines st (ideal no_resolver ideals operand) (evaluate_expr rnd env None operand st)"
    by (simp_all add: refines_tame)
  then show ?case by (auto intro!: settles_bind unary_settles)
next
  case (7 rnd env location es st)
  then obtain r st' where "evaluate_elements rnd env None es [] st = Some (r, st')" "graph st' = graph st"
    "r = None \<longleftrightarrow> ideal_elements no_resolver ideals es = None" by auto
  then show ?case by (cases r) (auto simp: on_value_def settles_def answer_def is_symbolic_def)
next
  case (9 rnd env op l r location st)
  show ?case
  proof (cases "op = BinAttribute")
    case True
    then have L: "settles st (evaluate_expr rnd env None l st) (ideal no_resolver ideals l)"
      "refines st (ideal no_resolver ideals l) (evaluate_expr rnd env None l st)"
      using 9 by (simp_all add: refines_tame)
    show ?thesis
    proof (cases "attribute_name r")
      case None
      then show ?thesis using True
        by (cases rule: settled_cases [OF L]) (simp_all add: evaluateBinary.simps on_value_def settles_def fail_def)
    next
      case (Some name)
      have "settles st (on_value (evaluate_expr rnd env None l st) (attribute_of rnd None name location))
          (Option.bind (ideal no_resolver ideals l) (ideal_attribute no_resolver name))"
        by (rule settles_bind [OF L]) (rule attribute_settles)
      then show ?thesis using True Some by (simp add: evaluateBinary.simps)
    qed
  next
    case False
    have t: "tame ideals l" "tame ideals r" using "9.prems"(2) False by simp_all
    have L: "settles st (evaluate_expr rnd env None l st) (ideal no_resolver ideals l)"
      using "9.hyps" "9.prems" False t by simp
    have R: "settles st1 (evaluate_expr rnd env None r st1) (ideal no_resolver ideals r) \<and>
      refines st1 (ideal no_resolver ideals r) (evaluate_expr rnd env None r st1)"
      if "evaluate_expr rnd env None l st = Some (lv, st1)" "graph st1 = graph st" for lv st1
    proof -
      have "ready st1 env ideals" using "9.prems"(1) ready_graph [OF that(2)] by simp
      then show ?thesis using "9.hyps"(3) [OF False that(1) refl] t(2) refines_tame by blast
    qed
    have "tame_meaning a \<and> tame_meaning b \<and> tame_operands op a b"
      if "ideal no_resolver ideals l = Some a" "ideal no_resolver ideals r = Some b" for a b
      using "9.prems"(2) False that t tame_ideal by simp
    from operands_settle [OF L refines_tame [OF "9.prems"(1) t(1)] R this False] False show ?thesis by simp
  qed
next
  case (10 rnd env xs st)
  then show ?case by (simp add: answer_def)
next
  case (11 rnd env e es xs st)
  then have E: "settles st (evaluate_expr rnd env None e st) (ideal no_resolver ideals e)"
    "refines st (ideal no_resolver ideals e) (evaluate_expr rnd env None e st)"
    by (simp_all add: refines_tame)
  show ?case
  proof (cases rule: settled_cases [OF E])
    case (1 st')
    then show ?thesis by (simp add: on_value_def)
  next
    case (2 v x st')
    have "ready st' env ideals" using 11(3) ready_graph [OF 2(3)] by simp
    then show ?thesis using 2 11 by (cases v) (auto simp: on_value_def fail_def is_symbolic_def)
  qed
qed (auto simp: is_symbolic_def intro!: settled)

end
