(* ===== verification/LiteralValue.thy ===== *)
theory LiteralValue
  imports AST
begin

text \<open>
  The values of literals, the first part of \<^verbatim>\<open>lib/Frontend/Parser.cpp\<close>: integer literals, which are
  refused beyond the widest DSDL integer type, real literals, built from a 64-bit significand and a
  power of ten, and version specifiers. \<open>parseRealLiteral\<close> has two layers of failure: the outer
  \<open>None\<close> is the behaviour that C++ leaves undefined, the inner one a literal that is refused. The
  lemmas show that an integer literal has its positional value or is refused for exceeding 64 bits,
  that a real literal of at most 18
  fractional digits is exact or refused, and that only the exponent -2147483648 is undefined.
\<close>

subsection \<open>Integers\<close>

function pow10_loop :: "int \<Rightarrow> int \<Rightarrow> int" where
  "pow10_loop n out =
     (if n \<le> 0 then out
      else if out > int64_max div 10 then int64_max
      else pow10_loop (n - 1) (out * 10))"
  by pat_completeness auto
termination by (relation "measure (\<lambda>(n, _). nat n)") auto

declare pow10_loop.simps [simp del]

definition pow10i :: "int \<Rightarrow> int" where
  "pow10i n = pow10_loop n 1"

definition removeUnderscores :: "string \<Rightarrow> string" where
  "removeUnderscores s = filter (\<lambda>c. c \<noteq> CHR ''_'') s"

definition hex_digit_value :: "char \<Rightarrow> int" where
  "hex_digit_value c =
     (let n = (of_char c :: int)
      in if 48 \<le> n \<and> n \<le> 57 then n - 48
         else if 97 \<le> n \<and> n \<le> 102 then 10 + (n - 97)
         else if 65 \<le> n \<and> n \<le> 70 then 10 + (n - 65)
         else - 1)"

definition kUint64Max :: int where "kUint64Max = 2 ^ 64 - 1"

fun accumulate_digits :: "int \<Rightarrow> string \<Rightarrow> int \<Rightarrow> int option" where
  "accumulate_digits base [] out = Some out"
| "accumulate_digits base (c # s) out =
     (let v = hex_digit_value c
      in if v < 0 \<or> v \<ge> base then None
         else if out > (kUint64Max - v) div base then None
         else accumulate_digits base s (out * base + v))"

definition literal_base :: "string \<Rightarrow> int \<times> nat" where
  "literal_base s =
     (if length s > 2 \<and> s ! 0 = CHR ''0'' \<and> s ! 1 \<in> {CHR ''x'', CHR ''X''} then (16, 2)
      else if length s > 2 \<and> s ! 0 = CHR ''0'' \<and> s ! 1 \<in> {CHR ''b'', CHR ''B''} then (2, 2)
      else if length s > 2 \<and> s ! 0 = CHR ''0'' \<and> s ! 1 \<in> {CHR ''o'', CHR ''O''} then (8, 2)
      else (10, 0))"

definition parseIntegerLiteral :: "string \<Rightarrow> int option" where
  "parseIntegerLiteral text =
     (let s = removeUnderscores text; (base, start) = literal_base s
      in accumulate_digits base (drop start s) 0)"

definition isDecimalIntegerLiteral :: "string \<Rightarrow> bool" where
  "isDecimalIntegerLiteral text \<longleftrightarrow>
     length text < 2 \<or> text ! 0 \<noteq> CHR ''0'' \<or>
     text ! 1 \<notin> {CHR ''x'', CHR ''X'', CHR ''b'', CHR ''B'', CHR ''o'', CHR ''O''}"

text \<open>The pattern is the lexer's \<open>kDecimal\<close>, spelled the same.\<close>

definition isDecimalIntegerToken :: "string \<Rightarrow> bool" where
  "isDecimalIntegerToken text = regex_match text kDecimal"

text \<open>The addition of the size to the column wraps in 32 bits.\<close>

definition tokensAdjacent :: "Token \<Rightarrow> Token \<Rightarrow> bool" where
  "tokensAdjacent a b \<longleftrightarrow>
     loc_line (tok_location a) = loc_line (tok_location b) \<and>
     loc_column (tok_location b) = loc_column (tok_location a) + of_nat (length (tok_text a))"

subsection \<open>Reals\<close>

text \<open>\<^verbatim>\<open>std::stoi\<close>: blanks, an optional sign and the longest run of digits; no digits, or a value
  outside \<^verbatim>\<open>int\<close>, is the exception that the code catches.\<close>

definition isspace :: "char \<Rightarrow> bool" where
  "isspace c \<longleftrightarrow> c = CHR '' '' \<or> (9 \<le> (of_char c :: nat) \<and> (of_char c :: nat) \<le> 13)"

definition digits_value :: "string \<Rightarrow> int" where
  "digits_value s = foldl (\<lambda>n c. 10 * n + (of_char c - 48)) 0 s"

definition stoi :: "string \<Rightarrow> int option" where
  "stoi text =
     (let s = dropWhile isspace text;
          negative = (s \<noteq> [] \<and> hd s = CHR ''-'');
          s = (if s \<noteq> [] \<and> (hd s = CHR ''+'' \<or> hd s = CHR ''-'') then tl s else s);
          run = takeWhile isdigit s;
          v = (if negative then - digits_value run else digits_value run)
      in if run = [] \<or> v < - (2 ^ 31) \<or> v > 2 ^ 31 - 1 then None else Some v)"

text \<open>The cast of a size to \<^verbatim>\<open>int\<close>.\<close>

definition int_of_size :: "nat \<Rightarrow> int" where
  "int_of_size n = (int n + 2 ^ 31) mod 2 ^ 32 - 2 ^ 31"

fun significand_digits :: "string \<Rightarrow> int \<Rightarrow> int option" where
  "significand_digits [] num = Some num"
| "significand_digits (c # s) num =
     (if \<not> isdigit c then None
      else if num > (int64_max - (of_char c - 48)) sdiv 10 then None
      else significand_digits s (num * 10 + (of_char c - 48)))"

text \<open>The significand without its point, and how many digits follow the point.\<close>

definition split_point :: "string \<Rightarrow> string \<times> int" where
  "split_point significand =
     (let whole = takeWhile (\<lambda>c. c \<noteq> CHR ''.'') significand
      in if length whole = length significand then (significand, 0)
         else (whole @ drop (length whole + 1) significand, int_of_size (length significand - length whole - 1)))"

definition signed_significand :: "string \<Rightarrow> int option" where
  "signed_significand digits =
     (if digits = [] \<or> digits = ''+'' \<or> digits = ''-'' then None
      else let signed = (hd digits = CHR ''+'' \<or> hd digits = CHR ''-'');
               neg = (hd digits = CHR ''-'')
           in case significand_digits (if signed then tl digits else digits) 0 of
                None \<Rightarrow> None
              | Some num \<Rightarrow> Some (if neg then - num else num))"

definition scale_literal :: "int \<Rightarrow> int \<Rightarrow> int \<Rightarrow> rational option option" where
  "scale_literal num den ex =
     (if ex > 0 then
        let p = pow10i ex
        in if p = int64_max \<or> (num > 0 \<and> num > int64_max sdiv p) \<or> (num < 0 \<and> num < int64_min sdiv p)
           then Some None
           else map_option Some (rational_of (num * p) den)
      else if ex < 0 then
        (if ex = - (2 ^ 31) then None
         else let p = pow10i (- ex)
              in if p = int64_max \<or> den > int64_max sdiv p then Some None
                 else map_option Some (rational_of num (den * p)))
      else map_option Some (rational_of num den))"

definition parseRealLiteral :: "string \<Rightarrow> rational option option" where
  "parseRealLiteral text =
     (let s = removeUnderscores text;
          significand = takeWhile (\<lambda>c. c \<noteq> CHR ''e'' \<and> c \<noteq> CHR ''E'') s;
          ex = (if length significand = length s then Some 0 else stoi (drop (length significand + 1) s))
      in case ex of
           None \<Rightarrow> Some None
         | Some ex \<Rightarrow>
             (let (digits, fracDigits) = split_point significand
              in case signed_significand digits of
                   None \<Rightarrow> Some None
                 | Some num \<Rightarrow> scale_literal num (pow10i fracDigits) ex))"

subsection \<open>Versions\<close>

definition parseVersionTokenAsMajorMinor :: "string \<Rightarrow> (32 word \<times> 32 word) option" where
  "parseVersionTokenAsMajorMinor text =
     (let majorText = takeWhile (\<lambda>c. c \<noteq> CHR ''.'') text;
          minorText = drop (length majorText + 1) text
      in if length majorText = length text \<or> majorText = [] \<or> length majorText + 1 \<ge> length text then None
         else if CHR ''.'' \<in> set minorText then None
         else if \<not> isDecimalIntegerToken majorText \<or> \<not> isDecimalIntegerToken minorText then None
         else case (parseIntegerLiteral majorText, parseIntegerLiteral minorText) of
                (Some major, Some minor) \<Rightarrow>
                  if major < 0 \<or> minor < 0 then None else Some (word_of_int major, word_of_int minor)
              | _ \<Rightarrow> None)"

definition normalizeCommentTokenText :: "string \<Rightarrow> string" where
  "normalizeCommentTokenText text =
     (let s = (if text \<noteq> [] \<and> hd text = CHR ''#'' then tl text else text)
      in if s \<noteq> [] \<and> hd s = CHR '' '' then tl s else s)"

subsection \<open>Integer literals have their positional value\<close>

definition positional :: "int \<Rightarrow> string \<Rightarrow> int \<Rightarrow> int" where
  "positional base s out = foldl (\<lambda>n c. n * base + hex_digit_value c) out s"

definition is_digit :: "int \<Rightarrow> char \<Rightarrow> bool" where
  "is_digit base c \<longleftrightarrow> 0 \<le> hex_digit_value c \<and> hex_digit_value c < base"

lemma positional_grows: "0 < base \<Longrightarrow> 0 \<le> out \<Longrightarrow> list_all (is_digit base) s \<Longrightarrow> out \<le> positional base s out"
proof (induction s arbitrary: out)
  case (Cons c s)
  then have "out \<le> out * base + hex_digit_value c" "0 \<le> out * base + hex_digit_value c"
    by (simp_all add: is_digit_def add_increasing2 mult_le_cancel_left1)
  then show ?case using Cons by (fastforce simp: positional_def)
qed (simp add: positional_def)

lemma literal_overflow: "0 < base \<Longrightarrow> 0 \<le> v \<Longrightarrow> out > (kUint64Max - v) div base \<longleftrightarrow> out * base + v > kUint64Max" for out :: int
  using int_div_less_iff [of base "kUint64Max - v" out] by auto

theorem accumulate_digits_value:
  assumes "0 < base" "list_all (is_digit base) s" "0 \<le> out" "out \<le> kUint64Max"
  shows "accumulate_digits base s out = (if positional base s out \<le> kUint64Max then Some (positional base s out) else None)"
  using assms(2-4)
proof (induction s arbitrary: out)
  case (Cons c s)
  let ?out = "out * base + hex_digit_value c"
  have d: "0 \<le> hex_digit_value c" "hex_digit_value c < base" "list_all (is_digit base) s"
    using Cons.prems(1) by (simp_all add: is_digit_def [of base c])
  have p: "0 \<le> ?out" using Cons.prems(2) d(1) assms(1) by simp
  have step: "positional base (c # s) out = positional base s ?out" by (simp add: positional_def)
  show ?case
  proof (cases "?out > kUint64Max")
    case True
    then have "positional base s ?out > kUint64Max" using positional_grows [OF assms(1) p d(3)] by simp
    then show ?thesis using True d literal_overflow [OF assms(1) d(1), of out] step by (simp add: Let_def)
  next
    case False
    then show ?thesis using Cons.IH [OF d(3) p] d literal_overflow [OF assms(1) d(1), of out] step by (simp add: Let_def)
  qed
qed (simp add: positional_def)

lemma accumulate_digits_refused: "\<not> list_all (is_digit base) s \<Longrightarrow> accumulate_digits base s out = None"
  by (induction s arbitrary: out) (auto simp: is_digit_def Let_def)

lemma literal_base_pos: "literal_base s = (base, skip) \<Longrightarrow> 0 < base"
  by (auto simp: literal_base_def split: if_splits)

theorem parseIntegerLiteral_value:
  assumes "literal_base (removeUnderscores text) = (base, skip)"
  shows "parseIntegerLiteral text = (let digits = drop skip (removeUnderscores text) in
    if list_all (is_digit base) digits \<and> positional base digits 0 \<le> kUint64Max then Some (positional base digits 0) else None)"
proof (cases "list_all (is_digit base) (drop skip (removeUnderscores text))")
  case True
  then show ?thesis using assms accumulate_digits_value [OF literal_base_pos [OF assms] True, of 0]
    by (simp add: parseIntegerLiteral_def Let_def kUint64Max_def)
next
  case False
  then show ?thesis using assms accumulate_digits_refused [OF False, of 0] by (simp add: parseIntegerLiteral_def Let_def)
qed

lemma parseIntegerLiteral_range:
  assumes "parseIntegerLiteral text = Some n"
  shows "0 \<le> n \<and> n \<le> kUint64Max"
proof -
  obtain base skip where b: "literal_base (removeUnderscores text) = (base, skip)" by force
  let ?s = "drop skip (removeUnderscores text)"
  from assms have "list_all (is_digit base) ?s" "n = positional base ?s 0" "n \<le> kUint64Max"
    unfolding parseIntegerLiteral_value [OF b] by (simp_all add: Let_def split: if_splits)
  then show ?thesis using positional_grows [OF literal_base_pos [OF b], of 0 ?s] by simp
qed

subsection \<open>Real literals\<close>

lemma pow10_loop_value:
  "0 \<le> k \<Longrightarrow> k + int n \<le> 18 \<Longrightarrow> pow10_loop (int n) (10 ^ nat k) = 10 ^ (n + nat k)"
proof (induction n arbitrary: k)
  case (Suc n)
  have "(10 :: int) ^ nat k \<le> 10 ^ 17" using Suc.prems by (intro power_increasing) auto
  then have small: "\<not> 10 ^ nat k > int64_max div 10" by (simp add: int64_max_def)
  have "(10 :: int) ^ nat k * 10 = 10 ^ nat (k + 1)" using Suc.prems by (simp add: nat_add_distrib)
  then show ?case using Suc.IH [of "k + 1"] Suc.prems small
    by (subst pow10_loop.simps) (simp add: nat_add_distrib mult.commute)
qed (subst pow10_loop.simps, simp)

text \<open>Powers of ten up to the eighteenth are exact; beyond, the largest 64-bit integer stands for them,
  which \<open>scale_literal\<close> refuses in an exponent and \<open>parseRealLiteral\<close> takes for the denominator of a
  literal with 19 or more digits after the point.\<close>

lemma pow10i_exact: "n \<le> 18 \<Longrightarrow> pow10i (int n) = 10 ^ n"
  using pow10_loop_value [of 0 n] by (simp add: pow10i_def)

lemma long_fraction_is_wrong:
  "parseRealLiteral ''0.1000000000000000000'' = Some (Some \<lparr>numer = 10 ^ 18, denom = 2 ^ 63 - 1, overflowed = False\<rparr>)"
  "parseRealLiteral ''0.100000000000000000'' = Some (Some \<lparr>numer = 1, denom = 10, overflowed = False\<rparr>)"
  by code_simp+

text \<open>The exponent whose negation does not fit \<^verbatim>\<open>int\<close>.\<close>

lemma least_exponent_undefined: "parseRealLiteral ''1e-2147483648'' = None" "parseRealLiteral ''1e-2147483647'' = Some None"
  by code_simp+

text \<open>The exponent that the code reads, and the only way to undefined behaviour.\<close>

definition literal_exponent :: "string \<Rightarrow> int option" where
  "literal_exponent text =
     (let s = removeUnderscores text;
          significand = takeWhile (\<lambda>c. c \<noteq> CHR ''e'' \<and> c \<noteq> CHR ''E'') s
      in if length significand = length s then Some 0 else stoi (drop (length significand + 1) s))"

lemma pow10_loop_range: "0 < out \<Longrightarrow> out \<le> int64_max \<Longrightarrow> 0 < pow10_loop n out \<and> pow10_loop n out \<le> int64_max"
proof (induction n out rule: pow10_loop.induct)
  case (1 n out)
  have "out * 10 \<le> int64_max" if "\<not> out > int64_max div 10" using that by (simp add: int64_max_def)
  then show ?case using 1 by (subst (1 2) pow10_loop.simps) (auto simp: int64_max_def)
qed

lemma pow10i_range: "0 < pow10i n" "pow10i n \<le> int64_max"
  using pow10_loop_range [of 1 n] by (simp_all add: pow10i_def int64_max_def)

lemma significand_digits_range:
  "significand_digits s num = Some v \<Longrightarrow> 0 \<le> num \<Longrightarrow> num \<le> int64_max \<Longrightarrow> 0 \<le> v \<and> v \<le> int64_max"
proof (induction s arbitrary: num)
  case (Cons c s)
  let ?d = "of_char c - 48 :: int"
  have d: "0 \<le> ?d" "?d \<le> 9"
    using Cons.prems(1) of_nat_of_char [of c, where 'a = int, symmetric] by (auto simp: isdigit_def split: if_splits)
  have "\<not> num > (int64_max - ?d) sdiv 10" using Cons.prems(1) by (simp split: if_splits)
  moreover have "(int64_max - ?d) sdiv 10 = (int64_max - ?d) div 10"
    using d by (simp add: signed_divide_int_def int64_max_def)
  ultimately have "num * 10 + ?d \<le> int64_max" by simp
  then show ?case using Cons d by (simp split: if_splits)
qed simp

lemma signed_significand_range: "signed_significand digits = Some num \<Longrightarrow> \<bar>num\<bar> \<le> int64_max"
  using significand_digits_range [of _ 0] by (fastforce simp: signed_significand_def Let_def int64_max_def split: if_splits option.splits)

lemma scaled_within:
  assumes "0 < p" "p \<le> int64_max" "\<bar>num\<bar> \<le> int64_max" "0 < den" "den \<le> int64_max"
  shows "rational_of (num * p) den \<noteq> None" "rational_of num (den * p) \<noteq> None" "rational_of num den \<noteq> None"
proof -
  have "\<bar>num\<bar> * p \<le> int64_max * int64_max" "den * p \<le> int64_max * int64_max" using assms by (intro mult_mono; simp)+
  moreover have "int64_max * int64_max \<le> int128_max" "int64_max \<le> int128_max" by (simp_all add: int64_max_def int128_max_def)
  ultimately show "rational_of (num * p) den \<noteq> None" "rational_of num (den * p) \<noteq> None" "rational_of num den \<noteq> None"
    using assms by (simp_all add: rational_of_reduces abs_mult)
qed

theorem parseRealLiteral_defined:
  assumes "literal_exponent text \<noteq> Some (- (2 ^ 31))"
  shows "parseRealLiteral text \<noteq> None"
proof -
  have "scale_literal num (pow10i f) ex \<noteq> None" if "\<bar>num\<bar> \<le> int64_max" "ex \<noteq> - (2 ^ 31)" for num f ex
    using that scaled_within [OF pow10i_range that(1) pow10i_range] by (simp add: scale_literal_def Let_def)
  then show ?thesis using assms signed_significand_range
    by (auto simp: parseRealLiteral_def literal_exponent_def Let_def split: option.splits prod.splits if_splits)
qed

lemma stoi_point: "stoi (s @ ''.'') = stoi s"
proof -
  have n: "\<not> isspace CHR ''.''" by (simp add: isspace_def)
  have t: "takeWhile isdigit (x @ ''.'') = takeWhile isdigit x" for x by (induction x) (auto simp: isdigit_def)
  show ?thesis
  proof (cases "list_all isspace s")
    case True
    then have d: "dropWhile isspace s = []" "dropWhile isspace (s @ ''.'') = ''.''" by (induction s) (auto simp: n)
    show ?thesis unfolding stoi_def d by (simp add: isdigit_def)
  next
    case False
    then have "dropWhile isspace s \<noteq> []" "dropWhile isspace (s @ ''.'') = dropWhile isspace s @ ''.''"
      by (induction s) (auto simp: n)
    then show ?thesis by (simp add: stoi_def t Let_def)
  qed
qed

lemma takeWhile_point:
  assumes "P CHR ''.''"
  shows "takeWhile P (s @ ''.'') = (if list_all P s then s @ ''.'' else takeWhile P s)"
  using assms by (induction s) auto

lemma takeWhile_shorter: "\<not> list_all P s \<Longrightarrow> length (takeWhile P s) < length s"
  by (induction s) auto

lemma exponent_point: "literal_exponent (''.'' @ text) = literal_exponent text" "literal_exponent (text @ ''.'') = literal_exponent text"
proof -
  show "literal_exponent (''.'' @ text) = literal_exponent text" by (simp add: literal_exponent_def removeUnderscores_def Let_def)
  let ?P = "\<lambda>c :: char. c \<noteq> CHR ''e'' \<and> c \<noteq> CHR ''E''" and ?s = "removeUnderscores text"
  have r: "removeUnderscores (text @ ''.'') = ?s @ ''.''" by (simp add: removeUnderscores_def)
  show "literal_exponent (text @ ''.'') = literal_exponent text"
  proof (cases "list_all ?P ?s")
    case True
    then have t: "takeWhile ?P ?s = ?s" by (simp add: takeWhile_eq_all_conv list_all_iff)
    show ?thesis using takeWhile_point [of ?P ?s] True unfolding literal_exponent_def r Let_def t by simp
  next
    case False
    then show ?thesis using takeWhile_point [of ?P ?s] takeWhile_shorter [OF False]
      unfolding literal_exponent_def r Let_def by (simp add: stoi_point)
  qed
qed

subsection \<open>Real literals are exact\<close>

lemma pow10_loop_saturates:
  assumes "18 < n"
  shows "pow10i n = int64_max"
proof -
  have "k \<le> 18 \<Longrightarrow> 18 < int k + n \<Longrightarrow> pow10_loop n (10 ^ k) = int64_max" for k n
  proof (induction "18 - k" arbitrary: k n)
    case 0
    then show ?case by (subst pow10_loop.simps) (simp add: int64_max_def)
  next
    case (Suc m)
    have "(10 :: int) ^ k \<le> 10 ^ 17" using Suc(2) by (intro power_increasing) auto
    then have "\<not> 10 ^ k > int64_max div 10" by (simp add: int64_max_def)
    then show ?case using Suc(1) [of "Suc k" "n - 1"] Suc(2-4) by (subst pow10_loop.simps) (simp add: mult.commute)
  qed
  from this [of 0 n] show ?thesis using assms by (simp add: pow10i_def)
qed

lemma pow10i_exponent: "0 \<le> n \<Longrightarrow> pow10i n \<noteq> int64_max \<Longrightarrow> pow10i n = 10 ^ nat n"
  using pow10i_exact [of "nat n"] pow10_loop_saturates [of n] by (cases "n \<le> 18") simp_all

definition decimal_digits :: "string \<Rightarrow> int" where
  "decimal_digits digits =
     (if hd digits = CHR ''-'' then - digits_value (tl digits)
      else if hd digits = CHR ''+'' then digits_value (tl digits) else digits_value digits)"

lemma significand_digits_value: "significand_digits s num = Some v \<Longrightarrow> v = foldl (\<lambda>n c. 10 * n + (of_char c - 48)) num s"
  by (induction s arbitrary: num) (auto simp: mult.commute split: if_splits)

lemma signed_significand_value: "signed_significand digits = Some num \<Longrightarrow> num = decimal_digits digits"
  using significand_digits_value [of _ 0]
  by (fastforce simp: signed_significand_def decimal_digits_def digits_value_def Let_def split: if_splits option.splits)

lemma rational_of_value:
  assumes "rational_of n d = Some r" "\<bar>n\<bar> \<le> int128_max" "0 < d" "d \<le> int128_max"
  shows "rat_ok r \<and> rat_value r = of_int n / of_int d \<and> \<not> overflowed r"
  using assms reduced_ok [of n d False] by (simp add: rational_of_reduces)

lemma scale_literal_exact:
  assumes "scale_literal num den ex = Some (Some r)" "\<bar>num\<bar> \<le> int64_max" "0 < den" "den \<le> int64_max"
  shows "rat_ok r \<and> rat_value r = of_int num * 10 powi ex / of_int den \<and> \<not> overflowed r"
proof -
  have big: "int64_max * int64_max \<le> int128_max" "int64_max \<le> int128_max" by (simp_all add: int64_max_def int128_max_def)
  have b: "\<bar>num * pow10i n\<bar> \<le> int128_max" "den * pow10i n \<le> int128_max" for n
  proof -
    have "\<bar>num\<bar> * pow10i n \<le> int64_max * int64_max" "den * pow10i n \<le> int64_max * int64_max"
      using assms pow10i_range [of n] by (intro mult_mono; simp)+
    then show "\<bar>num * pow10i n\<bar> \<le> int128_max" "den * pow10i n \<le> int128_max"
      using big pow10i_range [of n] by (simp_all add: abs_mult)
  qed
  consider "0 < ex" "pow10i ex \<noteq> int64_max" "rational_of (num * pow10i ex) den = Some r"
    | "ex < 0" "pow10i (- ex) \<noteq> int64_max" "rational_of num (den * pow10i (- ex)) = Some r"
    | "ex = 0" "rational_of num den = Some r"
    using assms(1) by (auto simp: scale_literal_def Let_def split: if_splits)
  then show ?thesis
  proof cases
    case 1
    then show ?thesis using rational_of_value [OF 1(3) b(1) assms(3)] assms(4) big pow10i_exponent [of ex]
      by (simp add: power_int_def)
  next
    case 2
    then show ?thesis using rational_of_value [OF 2(3) _ _ b(2)] assms(2,3) big pow10i_range [of "- ex"] pow10i_exponent [of "- ex"]
      by (simp add: power_int_def divide_simps mult.commute)
  next
    case 3
    then show ?thesis using rational_of_value [OF 3(2) _ assms(3)] assms(2,4) big by simp
  qed
qed

text \<open>A literal with at most 18 digits after the point is refused or has exactly its decimal value.\<close>

theorem parseRealLiteral_exact:
  assumes "parseRealLiteral text = Some (Some r)"
    and "split_point (takeWhile (\<lambda>c. c \<noteq> CHR ''e'' \<and> c \<noteq> CHR ''E'') (removeUnderscores text)) = (digits, places)"
    and "0 \<le> places" "places \<le> 18"
  shows "\<exists>ex. literal_exponent text = Some ex \<and> rat_ok r \<and> \<not> overflowed r \<and>
    rat_value r = of_int (decimal_digits digits) * 10 powi ex / 10 ^ nat places"
proof -
  obtain ex num where x: "literal_exponent text = Some ex" "signed_significand digits = Some num"
      "scale_literal num (pow10i places) ex = Some (Some r)"
    using assms(1,2) by (auto simp: parseRealLiteral_def literal_exponent_def Let_def split: option.splits if_splits)
  have "pow10i places = 10 ^ nat places" using pow10i_exact [of "nat places"] assms(3,4) by simp
  then show ?thesis
    using scale_literal_exact [OF x(3) signed_significand_range [OF x(2)] pow10i_range] signed_significand_value [OF x(2)] x(1)
    by simp
qed

end
