(* ===== verification/Parser.thy ===== *)
theory Parser
  imports LiteralValue Diagnostics "HOL-Library.Monad_Syntax"
begin

text \<open>
  The recursive-descent parser, the class \<^verbatim>\<open>Parser\<close> of \<^verbatim>\<open>lib/Frontend/Parser.cpp\<close>. The members
  \<^verbatim>\<open>filePath_\<close> and \<^verbatim>\<open>tokens_\<close> never change and are arguments; the others are the record \<open>parser\<close>,
  which every member function threads. The outer \<open>None\<close> of a result is a read of \<^verbatim>\<open>tokens_\<close> outside
  its range, undefined behaviour of a literal, or a loop whose bound has run out; \<open>ParserTotal\<close> shows
  that for the tokens of a lexer only the literal can be the cause. The inner option is the null
  pointer or empty optional of the code. The members \<^verbatim>\<open>advance\<close> and \<^verbatim>\<open>isAtEnd\<close>, whose names the
  lexer has taken, are \<open>take_token\<close> and \<open>at_end\<close>.

  A parser of expressions calls itself through \<^verbatim>\<open>parseExpression\<close> only, which bounds the nesting, so
  the functions below it take that call as an argument \<open>pe\<close>, and \<open>expression_within\<close> ties the knot by
  recursion on the number of levels left. The loops over operators and elements run at most as often
  as there are tokens.
\<close>

subsection \<open>The token stream\<close>

record parser =
  cursor :: nat
  expressionDepth :: nat
  diagnostics_of :: diagnostics

type_synonym 'a parse = "parser \<Rightarrow> ('a \<times> parser) option"

definition current :: "Token list \<Rightarrow> parser \<Rightarrow> Token option" where
  "current ts p = (if cursor p < length ts then Some (ts ! cursor p) else None)"

definition previous :: "Token list \<Rightarrow> parser \<Rightarrow> Token option" where
  "previous ts p = (if 0 < cursor p \<and> cursor p \<le> length ts then Some (ts ! (cursor p - 1)) else None)"

definition check :: "Token list \<Rightarrow> TokenKind \<Rightarrow> parser \<Rightarrow> bool" where
  "check ts k p \<longleftrightarrow> map_option tok_kind (current ts p) = Some k"

definition at_end :: "Token list \<Rightarrow> parser \<Rightarrow> bool" where
  "at_end ts p \<longleftrightarrow> check ts TkEof p"

definition take_token :: "Token list \<Rightarrow> Token parse" where
  "take_token ts p = do {
     t \<leftarrow> current ts p;
     let p = (if tok_kind t \<noteq> TkEof then p\<lparr>cursor := cursor p + 1\<rparr> else p);
     t \<leftarrow> previous ts p;
     Some (t, p)
   }"

definition match :: "Token list \<Rightarrow> TokenKind \<Rightarrow> bool parse" where
  "match ts k p =
     (if \<not> check ts k p then Some (False, p) else do { (_, p) \<leftarrow> take_token ts p; Some (True, p) })"

fun matchAny :: "Token list \<Rightarrow> TokenKind list \<Rightarrow> bool parse" where
  "matchAny ts [] p = Some (False, p)"
| "matchAny ts (k # ks) p =
     (if check ts k p then do { (_, p) \<leftarrow> take_token ts p; Some (True, p) } else matchAny ts ks p)"

definition complain :: "SourceLocation \<Rightarrow> string \<Rightarrow> parser \<Rightarrow> parser" where
  "complain location message p = p\<lparr>diagnostics_of := error location message (diagnostics_of p)\<rparr>"

definition complain_here :: "Token list \<Rightarrow> string \<Rightarrow> parser \<Rightarrow> parser option" where
  "complain_here ts message p = do { t \<leftarrow> current ts p; Some (complain (tok_location t) message p) }"

definition expect :: "Token list \<Rightarrow> TokenKind \<Rightarrow> string \<Rightarrow> bool parse" where
  "expect ts k message p =
     (if check ts k p then do { (_, p) \<leftarrow> take_token ts p; Some (True, p) }
      else do { p \<leftarrow> complain_here ts message p; Some (False, p) })"

definition quoted :: "string \<Rightarrow> string" where
  "quoted s = [CHR 0x27] @ s @ [CHR 0x27]"

text \<open>Messages that quote a token.\<close>

definition array_unclosed :: string where "array_unclosed = ''expected closing '' @ quoted '']'' @ '' in array type''"
definition set_unclosed :: string where "set_unclosed = ''expected '' @ quoted ''}'' @ '' to close set literal''"
definition paren_unclosed :: string where "paren_unclosed = ''expected '' @ quoted '')'' @ '' after expression''"
definition no_at_sign :: string where "no_at_sign = ''expected '' @ quoted ''@'' @ '' to begin directive''"
definition no_version_dot :: string where "no_version_dot = ''expected '' @ quoted ''.'' @ '' between major/minor version''"
definition no_constant_value :: string where "no_constant_value = ''expected expression after '' @ quoted ''='' @ '' in constant''"

definition tokens_left :: "Token list \<Rightarrow> parser \<Rightarrow> nat" where
  "tokens_left ts p = length ts - cursor p"

lemma check_current: "check ts k p \<longleftrightarrow> (\<exists>t. current ts p = Some t \<and> tok_kind t = k)"
  by (auto simp: check_def)

lemma current_Some: "current ts p = Some t \<longleftrightarrow> cursor p < length ts \<and> t = ts ! cursor p"
  by (auto simp: current_def)

lemma take_token_Some:
  "current ts p = Some t \<Longrightarrow> tok_kind t \<noteq> TkEof \<Longrightarrow> take_token ts p = Some (t, p\<lparr>cursor := cursor p + 1\<rparr>)"
  by (auto simp: take_token_def current_def previous_def Let_def split: if_splits)

lemma take_token_left:
  "take_token ts p = Some (t, p') \<Longrightarrow> \<not> at_end ts p \<Longrightarrow> tokens_left ts p' < tokens_left ts p"
  by (auto simp: take_token_def at_end_def check_def current_def previous_def tokens_left_def Let_def
      Option.bind_eq_Some_conv split: if_splits)

lemma not_at_end: "check ts k p \<Longrightarrow> k \<noteq> TkEof \<Longrightarrow> \<not> at_end ts p"
  by (auto simp: at_end_def check_def)

function sync_line :: "Token list \<Rightarrow> parser \<Rightarrow> parser option" where
  "sync_line ts p =
     (if at_end ts p \<or> check ts TkNewline p then Some p
      else do { (_, p) \<leftarrow> take_token ts p; sync_line ts p })"
  by pat_completeness auto
termination by (relation "measure (\<lambda>(ts, p). tokens_left ts p)") (auto dest: take_token_left)

function sync_blank :: "Token list \<Rightarrow> parser \<Rightarrow> parser option" where
  "sync_blank ts p =
     (if check ts TkNewline p \<or> check ts TkComment p
      then do { (_, p) \<leftarrow> take_token ts p; sync_blank ts p }
      else Some p)"
  by pat_completeness auto
termination by (relation "measure (\<lambda>(ts, p). tokens_left ts p)")
    (auto dest!: take_token_left dest: not_at_end)

declare sync_line.simps [simp del] sync_blank.simps [simp del]

definition syncToNextLine :: "Token list \<Rightarrow> parser \<Rightarrow> parser option" where
  "syncToNextLine ts p = do { p \<leftarrow> sync_line ts p; sync_blank ts p }"

subsection \<open>Type expressions\<close>

definition kIntegerType :: regex where
  "kIntegerType = cat_all [optional (lit CHR ''u''), lit CHR ''i'', lit CHR ''n'', lit CHR ''t'',
     Class [(CHR ''1'', CHR ''9'')], Star (Class [(CHR ''0'', CHR ''9'')])]"

definition kFloatType :: regex where
  "kFloatType = cat_all [lit CHR ''f'', lit CHR ''l'', lit CHR ''o'', lit CHR ''a'', lit CHR ''t'',
     Class [(CHR ''1'', CHR ''9'')], Star (Class [(CHR ''0'', CHR ''9'')])]"

definition kVoidType :: regex where
  "kVoidType = cat_all [lit CHR ''v'', lit CHR ''o'', lit CHR ''i'', lit CHR ''d'',
     Class [(CHR ''1'', CHR ''9'')], Star (Class [(CHR ''0'', CHR ''9'')])]"

definition numeric_type_name :: "string \<Rightarrow> bool" where
  "numeric_type_name name \<longleftrightarrow> regex_match name kIntegerType \<or> regex_match name kFloatType"

definition primitive_type_name :: "string \<Rightarrow> bool" where
  "primitive_type_name name \<longleftrightarrow>
     name = ''bool'' \<or> name = ''byte'' \<or> name = ''utf8'' \<or> numeric_type_name name \<or> regex_match name kVoidType"

definition complain_unless :: "bool \<Rightarrow> SourceLocation \<Rightarrow> string \<Rightarrow> parser \<Rightarrow> parser" where
  "complain_unless silent location message p = (if silent then p else complain location message p)"

definition parseBitLength :: "bool \<Rightarrow> Token \<Rightarrow> string \<Rightarrow> parser \<Rightarrow> 32 word option \<times> parser" where
  "parseBitLength silent baseTok digits p =
     (let value = digits_value digits
      in if value \<le> 2 ^ 32 - 1 then (Some (word_of_int value), p)
         else (None, complain_unless silent (tok_location baseTok) ''primitive type bit length is out of range'' p))"

datatype WidthDomain = SignedIntegerWidth | UnsignedIntegerWidth | FloatWidth | VoidWidth

fun valid_width :: "WidthDomain \<Rightarrow> 32 word \<Rightarrow> bool" where
  "valid_width SignedIntegerWidth bits \<longleftrightarrow> \<not> (bits < 2 \<or> bits > 64)"
| "valid_width UnsignedIntegerWidth bits \<longleftrightarrow> \<not> (bits < 1 \<or> bits > 64)"
| "valid_width FloatWidth bits \<longleftrightarrow> \<not> (bits \<noteq> 16 \<and> bits \<noteq> 32 \<and> bits \<noteq> 64)"
| "valid_width VoidWidth bits \<longleftrightarrow> \<not> (bits < 1 \<or> bits > 64)"

fun width_message :: "WidthDomain \<Rightarrow> 32 word \<Rightarrow> string" where
  "width_message SignedIntegerWidth bits =
     ''invalid signed integer bit length '' @ decimal (uint bits) @ ''; must be in the range [2, 64]''"
| "width_message UnsignedIntegerWidth bits =
     ''invalid unsigned integer bit length '' @ decimal (uint bits) @ ''; must be in the range [1, 64]''"
| "width_message FloatWidth bits =
     ''invalid floating point bit length '' @ decimal (uint bits) @ ''; must be 16, 32, or 64''"
| "width_message VoidWidth bits =
     ''invalid void bit length '' @ decimal (uint bits) @ ''; must be in the range [1, 64]''"

definition validateBitLength :: "bool \<Rightarrow> Token \<Rightarrow> WidthDomain \<Rightarrow> 32 word \<Rightarrow> parser \<Rightarrow> bool \<times> parser" where
  "validateBitLength silent baseTok domain bits p =
     (if valid_width domain bits then (True, p)
      else (False, complain_unless silent (tok_location baseTok) (width_message domain bits) p))"

definition sized_type ::
  "bool \<Rightarrow> Token \<Rightarrow> WidthDomain \<Rightarrow> string \<Rightarrow> (32 word \<Rightarrow> ScalarTypeAST) \<Rightarrow> parser \<Rightarrow> ScalarTypeAST option \<times> parser" where
  "sized_type silent baseTok domain digits mk p =
     (case parseBitLength silent baseTok digits p of
        (None, p) \<Rightarrow> (None, p)
      | (Some bits, p) \<Rightarrow>
          (case validateBitLength silent baseTok domain bits p of
             (False, p) \<Rightarrow> (None, p)
           | (True, p) \<Rightarrow> (Some (mk bits), p)))"

definition starts_with :: "string \<Rightarrow> string \<Rightarrow> bool" where
  "starts_with prefix s \<longleftrightarrow> take (length prefix) s = prefix"

definition primitive_type :: "bool \<Rightarrow> CastMode \<Rightarrow> Token \<Rightarrow> parser \<Rightarrow> ScalarTypeAST option \<times> parser" where
  "primitive_type silent castMode baseTok p =
     (let name = tok_text baseTok
      in if starts_with ''void'' name then sized_type silent baseTok VoidWidth (drop 4 name) VoidTypeExprAST p
         else if name = ''bool'' then (Some (PrimitiveTypeExprAST PrimBool castMode 1), p)
         else if name = ''byte'' then (Some (PrimitiveTypeExprAST PrimByte Truncated 8), p)
         else if name = ''utf8'' then (Some (PrimitiveTypeExprAST PrimUtf8 Truncated 8), p)
         else if starts_with ''uint'' name
         then sized_type silent baseTok UnsignedIntegerWidth (drop 4 name) (PrimitiveTypeExprAST PrimUnsignedInt castMode) p
         else if starts_with ''int'' name
         then sized_type silent baseTok SignedIntegerWidth (drop 3 name) (PrimitiveTypeExprAST PrimSignedInt castMode) p
         else sized_type silent baseTok FloatWidth (drop 5 name) (PrimitiveTypeExprAST PrimFloat castMode) p)"

definition kind_at :: "Token list \<Rightarrow> nat \<Rightarrow> TokenKind option" where
  "kind_at ts i = (if i < length ts then Some (tok_kind (ts ! i)) else None)"

lemma take_dot_left:
  "check ts TkDot p \<Longrightarrow> take_token ts p = Some (t, p') \<Longrightarrow> tokens_left ts p' < tokens_left ts p"
  using take_token_left [of ts p t p'] not_at_end [of ts TkDot p] by simp

text \<open>The loop over the dots of a versioned name. The component after a dot is read in the step that
  meets the dot, so \<open>lastTok\<close> is the last component.\<close>

definition invalid_version :: "bool \<Rightarrow> Token \<Rightarrow> parser \<Rightarrow> ((string list \<times> 32 word \<times> 32 word) option \<times> parser) option" where
  "invalid_version silent baseTok p =
     Some (None, complain_unless silent (tok_location baseTok) ''invalid version specifier'' p)"

definition integer_version ::
  "Token list \<Rightarrow> bool \<Rightarrow> Token \<Rightarrow> Token \<Rightarrow> string list \<Rightarrow> (string list \<times> 32 word \<times> 32 word) option parse" where
  "integer_version ts silent baseTok dotTok names p = do {
     (_, p) \<leftarrow> take_token ts p;
     (majorTok, p) \<leftarrow> take_token ts p;
     midDot \<leftarrow> current ts p;
     (_, p) \<leftarrow> expect ts TkDot no_version_dot p;
     (minorTok, p) \<leftarrow> take_token ts p;
     case (parseIntegerLiteral (tok_text majorTok), parseIntegerLiteral (tok_text minorTok)) of
       (Some major, Some minor) \<Rightarrow>
         if major < 0 \<or> minor < 0 \<or> \<not> isDecimalIntegerToken (tok_text majorTok) \<or>
            \<not> isDecimalIntegerToken (tok_text minorTok) \<or> \<not> tokensAdjacent dotTok majorTok \<or>
            \<not> tokensAdjacent majorTok midDot \<or> \<not> tokensAdjacent midDot minorTok
         then invalid_version silent baseTok p
         else Some (Some (names, word_of_int major, word_of_int minor), p)
     | _ \<Rightarrow> invalid_version silent baseTok p
   }"

definition real_version ::
  "Token list \<Rightarrow> bool \<Rightarrow> Token \<Rightarrow> Token \<Rightarrow> string list \<Rightarrow> (string list \<times> 32 word \<times> 32 word) option parse" where
  "real_version ts silent baseTok dotTok names p = do {
     (_, p) \<leftarrow> take_token ts p;
     (realTok, p) \<leftarrow> take_token ts p;
     case parseVersionTokenAsMajorMinor (tok_text realTok) of
       Some (major, minor) \<Rightarrow>
         if tokensAdjacent dotTok realTok then Some (Some (names, major, minor), p)
         else invalid_version silent baseTok p
     | None \<Rightarrow> invalid_version silent baseTok p
   }"

function versioned_loop ::
  "Token list \<Rightarrow> bool \<Rightarrow> Token \<Rightarrow> Token \<Rightarrow> string list \<Rightarrow> (string list \<times> 32 word \<times> 32 word) option parse" where
  "versioned_loop ts silent baseTok lastTok names p =
     (if \<not> check ts TkDot p
      then Some (None, complain_unless silent (tok_location baseTok)
                         (''expected version suffix '' @ quoted ''.major.minor'' @ '' for composite type'') p)
      else do {
        dotTok \<leftarrow> current ts p;
        if \<not> tokensAdjacent lastTok dotTok
        then Some (None, complain_unless silent (tok_location dotTok) ''no whitespace allowed in a versioned type name'' p)
        else if kind_at ts (cursor p + 1) = Some TkInteger \<and> kind_at ts (cursor p + 2) = Some TkDot \<and>
                kind_at ts (cursor p + 3) = Some TkInteger
        then integer_version ts silent baseTok dotTok names p
        else if kind_at ts (cursor p + 1) = Some TkReal
        then real_version ts silent baseTok dotTok names p
        else do {
          (_, p) \<leftarrow> take_token ts p;
          t \<leftarrow> current ts p;
          if tok_kind t \<noteq> TkIdentifier \<or> \<not> tokensAdjacent dotTok t
          then Some (None, complain_unless silent (tok_location t) ''expected identifier in versioned type name'' p)
          else do {
            (t, p) \<leftarrow> take_token ts p;
            versioned_loop ts silent baseTok t (names @ [tok_text t]) p
          }
        }
      })"
  by pat_completeness auto
termination
  by (relation "measure (\<lambda>(ts, _, _, _, _, p). tokens_left ts p)")
    (auto simp: take_token_Some check_current current_Some tokens_left_def)

declare versioned_loop.simps [simp del]

definition versioned_type :: "Token list \<Rightarrow> bool \<Rightarrow> Token \<Rightarrow> ScalarTypeAST option parse" where
  "versioned_type ts silent baseTok p = do {
     (v, p) \<leftarrow> versioned_loop ts silent baseTok baseTok [tok_text baseTok] p;
     Some (map_option (\<lambda>(names, major, minor). VersionedTypeExprAST names major minor) v, p)
   }"

definition array_bound :: "Token list \<Rightarrow> ArrayKind parse" where
  "array_bound ts p = do {
     (inclusive, p) \<leftarrow> match ts TkLessEqual p;
     if inclusive then Some (ArrVariableInclusive, p)
     else do {
       (exclusive, p) \<leftarrow> match ts TkLess p;
       Some (if exclusive then ArrVariableExclusive else ArrFixed, p)
     }
   }"

text \<open>The brackets of an array type; \<open>pe\<close> parses the capacity, and a null capacity is kept.\<close>

definition array_type ::
  "Token list \<Rightarrow> ExprAST option parse \<Rightarrow> SourceLocation \<Rightarrow> ScalarTypeAST \<Rightarrow> TypeExprAST option parse" where
  "array_type ts pe location scalar p = do {
     (bracket, p) \<leftarrow> match ts TkLBracket p;
     if \<not> bracket then Some (Some (TypeExprAST location scalar ArrNone None), p)
     else do {
       (arr, p) \<leftarrow> array_bound ts p;
       (capacity, p) \<leftarrow> pe p;
       (closed, p) \<leftarrow> expect ts TkRBracket array_unclosed p;
       Some (if closed then Some (TypeExprAST location scalar arr capacity) else None, p)
     }
   }"

definition cast_ahead :: "Token list \<Rightarrow> parser \<Rightarrow> bool" where
  "cast_ahead ts p \<longleftrightarrow>
     check ts TkIdentifier p \<and> map_option tok_text (current ts p) \<in> {Some ''saturated'', Some ''truncated''} \<and>
     kind_at ts (cursor p + 1) = Some TkIdentifier"

definition scalar_type :: "Token list \<Rightarrow> bool \<Rightarrow> ScalarTypeAST option parse" where
  "scalar_type ts silent p = do {
     first \<leftarrow> current ts p;
     let castApplied = cast_ahead ts p;
     let castMode = (if castApplied \<and> tok_text first = ''truncated'' then Truncated else Saturated);
     p \<leftarrow> (if castApplied then map_option snd (take_token ts p) else Some p);
     if \<not> check ts TkIdentifier p then Some (None, p)
     else do {
       (baseTok, p) \<leftarrow> take_token ts p;
       if castApplied \<and> \<not> numeric_type_name (tok_text baseTok)
       then Some (None, complain_unless silent (tok_location baseTok)
              (''a cast mode ('' @ quoted ''saturated'' @ ''/'' @ quoted ''truncated'' @
               '') may only precede an integer or floating-point type'') p)
       else if primitive_type_name (tok_text baseTok) then Some (primitive_type silent castMode baseTok p)
       else versioned_type ts silent baseTok p
     }
   }"

text \<open>Every failure returns to the token where the type began.\<close>

definition parseTypeExpr :: "Token list \<Rightarrow> ExprAST option parse \<Rightarrow> bool \<Rightarrow> TypeExprAST option parse" where
  "parseTypeExpr ts pe silent p = do {
     let start = cursor p;
     first \<leftarrow> current ts p;
     (scalar, p) \<leftarrow> scalar_type ts silent p;
     case scalar of
       None \<Rightarrow> Some (None, p\<lparr>cursor := start\<rparr>)
     | Some scalar \<Rightarrow> do {
         (t, p) \<leftarrow> array_type ts pe (tok_location first) scalar p;
         Some (t, if t = None then p\<lparr>cursor := start\<rparr> else p)
       }
   }"

subsection \<open>Atoms\<close>

definition leading_point :: "Token list \<Rightarrow> parser \<Rightarrow> bool" where
  "leading_point ts p \<longleftrightarrow>
     check ts TkDot p \<and> kind_at ts (cursor p + 1) \<in> {Some TkInteger, Some TkReal} \<and>
     (kind_at ts (cursor p + 1) \<noteq> Some TkInteger \<or> isDecimalIntegerLiteral (tok_text (ts ! (cursor p + 1)))) \<and>
     tokensAdjacent (ts ! cursor p) (ts ! (cursor p + 1))"

definition trailing_point :: "Token list \<Rightarrow> Token \<Rightarrow> parser \<Rightarrow> bool" where
  "trailing_point ts intToken p \<longleftrightarrow>
     check ts TkDot p \<and> isDecimalIntegerLiteral (tok_text intToken) \<and> tokensAdjacent intToken (ts ! cursor p)"

text \<open>The node of a literal: an error and zero when the value is refused.\<close>

definition literal_node :: "SourceLocation \<Rightarrow> rational option \<Rightarrow> string \<Rightarrow> parser \<Rightarrow> (ExprAST option \<times> parser) option" where
  "literal_node location v message p =
     Some (Some (ExprAST location (ExprRational (case v of Some r \<Rightarrow> r | None \<Rightarrow> \<lparr>numer = 0, denom = 1, overflowed = False\<rparr>))),
           if v = None then complain location message p else p)"

definition cannot_represent :: "string \<Rightarrow> string \<Rightarrow> string" where
  "cannot_represent what text = what @ '' literal '' @ quoted text @ '' cannot be represented''"

definition parse_number :: "Token list \<Rightarrow> Token \<Rightarrow> ExprAST option parse" where
  "parse_number ts intToken p =
     (if trailing_point ts intToken p then do {
        (_, p) \<leftarrow> take_token ts p;
        v \<leftarrow> parseRealLiteral (tok_text intToken @ ''.'');
        literal_node (tok_location intToken) v ''real literal cannot be represented'' p
      }
      else do {
        v \<leftarrow> (case parseIntegerLiteral (tok_text intToken) of
                None \<Rightarrow> Some None
              | Some n \<Rightarrow> map_option Some (rational_of n 1));
        literal_node (tok_location intToken) v (cannot_represent ''integer'' (tok_text intToken)) p
      })"

fun set_loop :: "nat \<Rightarrow> Token list \<Rightarrow> ExprAST option parse \<Rightarrow> ExprAST list \<Rightarrow> ExprAST list parse" where
  "set_loop 0 ts pe elements p = None"
| "set_loop (Suc n) ts pe elements p = do {
     (item, p) \<leftarrow> pe p;
     case item of
       None \<Rightarrow> Some (elements, p)
     | Some e \<Rightarrow> do {
         (comma, p) \<leftarrow> match ts TkComma p;
         if comma then set_loop n ts pe (elements @ [e]) p else Some (elements @ [e], p)
       }
   }"

definition parseSetLiteral :: "Token list \<Rightarrow> ExprAST option parse \<Rightarrow> SourceLocation \<Rightarrow> ExprAST option parse" where
  "parseSetLiteral ts pe location p = do {
     (elements, p) \<leftarrow> (if check ts TkRBrace p then Some ([], p) else set_loop (Suc (length ts)) ts pe [] p);
     (_, p) \<leftarrow> expect ts TkRBrace set_unclosed p;
     Some (Some (ExprAST location (ExprSetLiteral elements)), p)
   }"

definition parse_identifier :: "Token list \<Rightarrow> ExprAST option parse \<Rightarrow> ExprAST option parse" where
  "parse_identifier ts pe p = do {
     let save = cursor p;
     (t, p) \<leftarrow> parseTypeExpr ts pe True p;
     case t of
       Some t \<Rightarrow> Some (Some (ExprAST (type_location t) (ExprTypeLiteral t)), p)
     | None \<Rightarrow> do {
         (name, p) \<leftarrow> take_token ts (p\<lparr>cursor := save\<rparr>);
         Some (Some (ExprAST (tok_location name) (ExprIdentifier (tok_text name))), p)
       }
   }"

definition parsePrimary :: "Token list \<Rightarrow> ExprAST option parse \<Rightarrow> ExprAST option parse" where
  "parsePrimary ts pe p = do {
     first \<leftarrow> current ts p;
     let location = tok_location first;
     if leading_point ts p then do {
       (_, p) \<leftarrow> take_token ts p;
       (fraction, p) \<leftarrow> take_token ts p;
       v \<leftarrow> parseRealLiteral (''.'' @ tok_text fraction);
       literal_node location v ''real literal cannot be represented'' p
     }
     else case tok_kind first of
       TkTrue \<Rightarrow> do { (_, p) \<leftarrow> take_token ts p; Some (Some (ExprAST location (ExprBool True)), p) }
     | TkFalse \<Rightarrow> do { (_, p) \<leftarrow> take_token ts p; Some (Some (ExprAST location (ExprBool False)), p) }
     | TkInteger \<Rightarrow> do { (_, p) \<leftarrow> take_token ts p; parse_number ts first p }
     | TkReal \<Rightarrow> do {
         (_, p) \<leftarrow> take_token ts p;
         v \<leftarrow> parseRealLiteral (tok_text first);
         literal_node location v (cannot_represent ''real'' (tok_text first)) p
       }
     | TkString \<Rightarrow> do { (_, p) \<leftarrow> take_token ts p; Some (Some (ExprAST location (ExprString (tok_text first))), p) }
     | TkLParen \<Rightarrow> do {
         (_, p) \<leftarrow> take_token ts p;
         (e, p) \<leftarrow> pe p;
         (_, p) \<leftarrow> expect ts TkRParen paren_unclosed p;
         Some (e, p)
       }
     | TkLBrace \<Rightarrow> do { (_, p) \<leftarrow> take_token ts p; parseSetLiteral ts pe location p }
     | TkIdentifier \<Rightarrow> parse_identifier ts pe p
     | _ \<Rightarrow> Some (None, complain location ''expected expression atom'' p)
   }"

subsection \<open>Operators\<close>

fun toBinaryOp :: "TokenKind \<Rightarrow> BinaryOp option" where
  "toBinaryOp TkDot = Some BinAttribute"
| "toBinaryOp TkStarStar = Some BinPow"
| "toBinaryOp TkStar = Some BinMul"
| "toBinaryOp TkSlash = Some BinDiv"
| "toBinaryOp TkPercent = Some BinMod"
| "toBinaryOp TkPlus = Some BinAdd"
| "toBinaryOp TkMinus = Some BinSub"
| "toBinaryOp TkPipe = Some BinBitOr"
| "toBinaryOp TkCaret = Some BinBitXor"
| "toBinaryOp TkAmp = Some BinBitAnd"
| "toBinaryOp TkEqualEqual = Some BinEq"
| "toBinaryOp TkBangEqual = Some BinNe"
| "toBinaryOp TkLessEqual = Some BinLe"
| "toBinaryOp TkGreaterEqual = Some BinGe"
| "toBinaryOp TkLess = Some BinLt"
| "toBinaryOp TkGreater = Some BinGt"
| "toBinaryOp TkPipePipe = Some BinLogicalOr"
| "toBinaryOp TkAmpAmp = Some BinLogicalAnd"
| "toBinaryOp _ = None"

definition makeBinaryNode :: "BinaryOp \<Rightarrow> ExprAST \<Rightarrow> ExprAST \<Rightarrow> SourceLocation \<Rightarrow> ExprAST" where
  "makeBinaryNode op l r location = ExprAST location (ExprBinary op l r)"

definition makeUnaryNode :: "UnaryOp \<Rightarrow> ExprAST \<Rightarrow> SourceLocation \<Rightarrow> ExprAST" where
  "makeUnaryNode op operand location = ExprAST location (ExprUnary op operand)"

definition no_rhs :: string where "no_rhs = ''expected right-hand side expression''"

definition no_operand :: string where "no_operand = ''expected expression after unary operator''"

text \<open>The loop that the five left-associative levels share: while the current token is one of the
  level's operators, an operand of the next level is joined to what has been read.\<close>

fun chain_loop :: "nat \<Rightarrow> Token list \<Rightarrow> TokenKind list \<Rightarrow> ExprAST option parse \<Rightarrow> ExprAST \<Rightarrow> ExprAST option parse" where
  "chain_loop 0 ts ops operand e p = None"
| "chain_loop (Suc n) ts ops operand e p = do {
     t \<leftarrow> current ts p;
     if tok_kind t \<notin> set ops then Some (Some e, p)
     else do {
       (op, p) \<leftarrow> take_token ts p;
       (r, p) \<leftarrow> operand p;
       case r of
         None \<Rightarrow> Some (Some e, complain (tok_location op) no_rhs p)
       | Some r \<Rightarrow> do {
           b \<leftarrow> toBinaryOp (tok_kind op);
           chain_loop n ts ops operand (makeBinaryNode b e r (tok_location op)) p
         }
     }
   }"

definition chain_level :: "Token list \<Rightarrow> TokenKind list \<Rightarrow> ExprAST option parse \<Rightarrow> ExprAST option parse" where
  "chain_level ts ops operand p = do {
     (l, p) \<leftarrow> operand p;
     case l of
       None \<Rightarrow> Some (None, p)
     | Some e \<Rightarrow> chain_loop (Suc (length ts)) ts ops operand e p
   }"

text \<open>\<^verbatim>\<open>.\<close> with an identifier after it, as often as it comes.\<close>

function attribute_loop :: "Token list \<Rightarrow> ExprAST \<Rightarrow> ExprAST option parse" where
  "attribute_loop ts e p =
     (if check ts TkDot p \<and> kind_at ts (cursor p + 1) = Some TkIdentifier then do {
        (op, p) \<leftarrow> take_token ts p;
        (ident, p) \<leftarrow> take_token ts p;
        attribute_loop ts
          (makeBinaryNode BinAttribute e (ExprAST (tok_location ident) (ExprIdentifier (tok_text ident))) (tok_location op)) p
      }
      else Some (Some e, p))"
  by pat_completeness auto
termination
  by (relation "measure (\<lambda>(ts, _, p). tokens_left ts p)")
    (auto simp: take_token_Some check_current current_Some tokens_left_def kind_at_def split: if_splits)

declare attribute_loop.simps [simp del]

definition parseAttributeAccess :: "Token list \<Rightarrow> ExprAST option parse \<Rightarrow> ExprAST option parse" where
  "parseAttributeAccess ts pe p = do {
     (l, p) \<leftarrow> parsePrimary ts pe p;
     case l of None \<Rightarrow> Some (None, p) | Some e \<Rightarrow> attribute_loop ts e p
   }"

text \<open>\<^verbatim>\<open>parseInversion\<close> on top of a parser of exponentials.\<close>

definition inversion_on :: "Token list \<Rightarrow> ExprAST option parse \<Rightarrow> ExprAST option parse" where
  "inversion_on ts exponential p =
     (if check ts TkPlus p \<or> check ts TkMinus p then do {
        (op, p) \<leftarrow> take_token ts p;
        (operand, p) \<leftarrow> exponential p;
        case operand of
          None \<Rightarrow> Some (None, complain (tok_location op) no_operand p)
        | Some e \<Rightarrow>
            Some (Some (makeUnaryNode (if tok_kind op = TkMinus then UnMinus else UnPlus) e (tok_location op)), p)
      }
      else exponential p)"

fun exponential_within :: "nat \<Rightarrow> Token list \<Rightarrow> ExprAST option parse \<Rightarrow> ExprAST option parse" where
  "exponential_within 0 ts pe p = None"
| "exponential_within (Suc n) ts pe p = do {
     (l, p) \<leftarrow> parseAttributeAccess ts pe p;
     case l of
       None \<Rightarrow> Some (None, p)
     | Some e \<Rightarrow>
         if check ts TkStarStar p then do {
           (op, p) \<leftarrow> take_token ts p;
           (r, p) \<leftarrow> inversion_on ts (exponential_within n ts pe) p;
           case r of
             None \<Rightarrow> Some (Some e, complain (tok_location op) no_rhs p)
           | Some r \<Rightarrow> Some (Some (makeBinaryNode BinPow e r (tok_location op)), p)
         }
         else Some (Some e, p)
   }"

definition parseExponential :: "Token list \<Rightarrow> ExprAST option parse \<Rightarrow> ExprAST option parse" where
  "parseExponential ts pe = exponential_within (Suc (length ts)) ts pe"

definition parseInversion :: "Token list \<Rightarrow> ExprAST option parse \<Rightarrow> ExprAST option parse" where
  "parseInversion ts pe = inversion_on ts (parseExponential ts pe)"

definition multiplicative_ops :: "TokenKind list" where "multiplicative_ops = [TkStar, TkSlash, TkPercent]"
definition additive_ops :: "TokenKind list" where "additive_ops = [TkPlus, TkMinus]"
definition bitwise_ops :: "TokenKind list" where "bitwise_ops = [TkPipe, TkCaret, TkAmp]"
definition comparison_ops :: "TokenKind list" where
  "comparison_ops = [TkEqualEqual, TkBangEqual, TkLessEqual, TkGreaterEqual, TkLess, TkGreater]"
definition logical_ops :: "TokenKind list" where "logical_ops = [TkPipePipe, TkAmpAmp]"

definition parseMultiplicative :: "Token list \<Rightarrow> ExprAST option parse \<Rightarrow> ExprAST option parse" where
  "parseMultiplicative ts pe = chain_level ts multiplicative_ops (parseInversion ts pe)"

definition parseAdditive :: "Token list \<Rightarrow> ExprAST option parse \<Rightarrow> ExprAST option parse" where
  "parseAdditive ts pe = chain_level ts additive_ops (parseMultiplicative ts pe)"

definition parseBitwise :: "Token list \<Rightarrow> ExprAST option parse \<Rightarrow> ExprAST option parse" where
  "parseBitwise ts pe = chain_level ts bitwise_ops (parseAdditive ts pe)"

definition parseComparison :: "Token list \<Rightarrow> ExprAST option parse \<Rightarrow> ExprAST option parse" where
  "parseComparison ts pe = chain_level ts comparison_ops (parseBitwise ts pe)"

function parseLogicalNot :: "Token list \<Rightarrow> ExprAST option parse \<Rightarrow> ExprAST option parse" where
  "parseLogicalNot ts pe p =
     (if check ts TkBang p then do {
        (op, p) \<leftarrow> take_token ts p;
        (operand, p) \<leftarrow> parseLogicalNot ts pe p;
        case operand of
          None \<Rightarrow> Some (None, complain (tok_location op) no_operand p)
        | Some e \<Rightarrow> Some (Some (makeUnaryNode UnLogicalNot e (tok_location op)), p)
      }
      else parseComparison ts pe p)"
  by pat_completeness auto
termination
  by (relation "measure (\<lambda>(ts, _, p). tokens_left ts p)") (auto dest!: take_token_left dest: not_at_end)

declare parseLogicalNot.simps [simp del]

definition parseLogical :: "Token list \<Rightarrow> ExprAST option parse \<Rightarrow> ExprAST option parse" where
  "parseLogical ts pe = chain_level ts logical_ops (parseLogicalNot ts pe)"

definition kMaxExpressionDepth :: nat where "kMaxExpressionDepth = 128"

text \<open>The guard releases the level when the call returns.\<close>

fun expression_within :: "nat \<Rightarrow> Token list \<Rightarrow> ExprAST option parse" where
  "expression_within 0 ts p = None"
| "expression_within (Suc k) ts p =
     (if expressionDepth p \<ge> kMaxExpressionDepth then do {
        p \<leftarrow> complain_here ts ''expression nesting is too deep'' p;
        Some (None, p)
      }
      else do {
        (e, p) \<leftarrow> parseLogical ts (expression_within k ts) (p\<lparr>expressionDepth := expressionDepth p + 1\<rparr>);
        Some (e, p\<lparr>expressionDepth := expressionDepth p - 1\<rparr>)
      })"

definition parseExpression :: "Token list \<Rightarrow> ExprAST option parse" where
  "parseExpression ts = expression_within (Suc kMaxExpressionDepth) ts"

subsection \<open>Statements\<close>

fun directive_kind :: "string \<Rightarrow> DirectiveKind" where
  "directive_kind name =
     (if name = ''union'' then DirUnion
      else if name = ''extent'' then DirExtent
      else if name = ''sealed'' then DirSealed
      else if name = ''deprecated'' then DirDeprecated
      else if name = ''assert'' then DirAssert
      else if name = ''print'' then DirPrint
      else if name = ''aliasable'' then DirAliasable
      else DirUnknown)"

definition no_blank_after_at :: string where
  "no_blank_after_at = ''no whitespace allowed between '' @ quoted ''@'' @ '' and the directive name''"

text \<open>\<open>refuse\<close>: an error at the current token and no result.\<close>

definition refuse :: "Token list \<Rightarrow> string \<Rightarrow> 'a option parse" where
  "refuse ts message p = do { p \<leftarrow> complain_here ts message p; Some (None, p) }"

definition directive_expression :: "Token list \<Rightarrow> SourceLocation \<Rightarrow> Token \<Rightarrow> DirectiveAST option parse" where
  "directive_expression ts location nameTok p =
     (let out = \<lparr>dir_location = location, dir_doc = [], dir_kind = directive_kind (tok_text nameTok),
                 rawName = tok_text nameTok, dir_expression = None\<rparr>
      in if check ts TkNewline p \<or> check ts TkComment p \<or> check ts TkEof p then Some (Some out, p)
         else do {
           t \<leftarrow> current ts p;
           if tokensAdjacent nameTok t then refuse ts ''expected whitespace before directive expression'' p
           else do {
             (e, p) \<leftarrow> parseExpression ts p;
             Some (Some (out\<lparr>dir_expression := e\<rparr>), p)
           }
         })"

definition parseDirective :: "Token list \<Rightarrow> DirectiveAST option parse" where
  "parseDirective ts p = do {
     first \<leftarrow> current ts p;
     (begins, p) \<leftarrow> expect ts TkAt no_at_sign p;
     if \<not> begins then Some (None, p)
     else if \<not> check ts TkIdentifier p \<and> \<not> check ts TkTrue p \<and> \<not> check ts TkFalse p
     then refuse ts ''expected directive name'' p
     else do {
       prev \<leftarrow> previous ts p;
       t \<leftarrow> current ts p;
       if \<not> tokensAdjacent prev t then refuse ts no_blank_after_at p
       else do {
         (nameTok, p) \<leftarrow> take_token ts p;
         directive_expression ts (tok_location first) nameTok p
       }
     }
   }"

definition parse_named :: "Token list \<Rightarrow> TypeExprAST \<Rightarrow> StatementAST option parse" where
  "parse_named ts type p = do {
     prev \<leftarrow> previous ts p;
     t \<leftarrow> current ts p;
     if tokensAdjacent prev t then refuse ts ''expected whitespace between type and name'' p
     else do {
       (nameTok, p) \<leftarrow> take_token ts p;
       (equal, p) \<leftarrow> match ts TkEqual p;
       if equal then do {
         (value, p) \<leftarrow> parseExpression ts p;
         if value = None
         then refuse ts no_constant_value p
         else Some (Some (StmtConstant \<lparr>const_location = tok_location nameTok, const_doc = [], const_type = type,
                const_name = tok_text nameTok, const_nameLocation = tok_location nameTok, const_value = value\<rparr>), p)
       }
       else Some (Some (StmtField \<lparr>field_location = tok_location nameTok, field_doc = [], field_type = type,
              field_name = tok_text nameTok, field_nameLocation = tok_location nameTok, isPadding = False\<rparr>), p)
     }
   }"

definition parseAttribute :: "Token list \<Rightarrow> StatementAST option parse" where
  "parseAttribute ts p = do {
     (type, p) \<leftarrow> parseTypeExpr ts (parseExpression ts) False p;
     case type of
       None \<Rightarrow> refuse ts ''expected type expression'' p
     | Some type \<Rightarrow>
         if check ts TkIdentifier p then parse_named ts type p
         else if is_void type then
           (if arrayKind type \<noteq> ArrNone
            then Some (None, complain (type_location type) ''a void (padding) field cannot be an array'' p)
            else Some (Some (StmtField \<lparr>field_location = type_location type, field_doc = [], field_type = type,
                   field_name = [], field_nameLocation = type_location type, isPadding = True\<rparr>), p))
         else refuse ts ''expected field name or constant initialiser'' p
   }"

definition parseStatement :: "Token list \<Rightarrow> StatementAST option parse" where
  "parseStatement ts p =
     (if check ts TkAt p then do {
        (d, p) \<leftarrow> parseDirective ts p;
        Some (map_option StmtDirective d, p)
      }
      else if check ts TkServiceResponseMarker p then do {
        (t, p) \<leftarrow> take_token ts p;
        Some (Some (StmtMarker \<lparr>marker_location = tok_location t, marker_doc = []\<rparr>), p)
      }
      else parseAttribute ts p)"

subsection \<open>Documentation\<close>

fun statement_location :: "StatementAST \<Rightarrow> SourceLocation" where
  "statement_location (StmtConstant s) = const_location s"
| "statement_location (StmtField s) = field_location s"
| "statement_location (StmtDirective s) = dir_location s"
| "statement_location (StmtMarker s) = marker_location s"

definition statementLine :: "StatementAST \<Rightarrow> 32 word" where
  "statementLine s = loc_line (statement_location s)"

fun attachDocToStatement :: "AttachedDoc \<Rightarrow> StatementAST \<Rightarrow> StatementAST" where
  "attachDocToStatement doc (StmtConstant s) = StmtConstant (s\<lparr>const_doc := doc\<rparr>)"
| "attachDocToStatement doc (StmtField s) = StmtField (s\<lparr>field_doc := doc\<rparr>)"
| "attachDocToStatement doc (StmtDirective s) = StmtDirective (s\<lparr>dir_doc := doc\<rparr>)"
| "attachDocToStatement doc (StmtMarker s) = StmtMarker (s\<lparr>marker_doc := doc\<rparr>)"

text \<open>The document that is appended from is left empty; the callers write that out.\<close>

fun appendDocToStatement :: "AttachedDoc \<Rightarrow> StatementAST \<Rightarrow> StatementAST" where
  "appendDocToStatement doc (StmtConstant s) = StmtConstant (s\<lparr>const_doc := const_doc s @ doc\<rparr>)"
| "appendDocToStatement doc (StmtField s) = StmtField (s\<lparr>field_doc := field_doc s @ doc\<rparr>)"
| "appendDocToStatement doc (StmtDirective s) = StmtDirective (s\<lparr>dir_doc := dir_doc s @ doc\<rparr>)"
| "appendDocToStatement doc (StmtMarker s) = StmtMarker (s\<lparr>marker_doc := marker_doc s @ doc\<rparr>)"

record doc_trivia =
  trivia_doc :: AttachedDoc
  newlinesBeforeFirstComment :: nat
  newlinesAfterLastComment :: nat
  sawComment :: bool

definition no_trivia :: doc_trivia where
  "no_trivia = \<lparr>trivia_doc = [], newlinesBeforeFirstComment = 0, newlinesAfterLastComment = 0, sawComment = False\<rparr>"

definition doc_line :: "Token \<Rightarrow> string \<Rightarrow> AttachedDocLine" where
  "doc_line t text = \<lparr>docline_location = tok_location t, docline_text = text\<rparr>"

definition add_comment :: "Token \<Rightarrow> doc_trivia \<Rightarrow> doc_trivia" where
  "add_comment t out =
     out\<lparr>trivia_doc := trivia_doc out @
           (if sawComment out \<and> newlinesAfterLastComment out > 1 then [doc_line t []] else []) @
           [doc_line t (normalizeCommentTokenText (tok_text t))],
         sawComment := True, newlinesAfterLastComment := 0\<rparr>"

definition add_newline :: "doc_trivia \<Rightarrow> doc_trivia" where
  "add_newline out =
     (if sawComment out then out\<lparr>newlinesAfterLastComment := newlinesAfterLastComment out + 1\<rparr>
      else out\<lparr>newlinesBeforeFirstComment := newlinesBeforeFirstComment out + 1\<rparr>)"

function collectDocTrivia :: "Token list \<Rightarrow> doc_trivia \<Rightarrow> doc_trivia parse" where
  "collectDocTrivia ts out p =
     (if check ts TkNewline p \<or> check ts TkComment p then do {
        let comment = check ts TkComment p;
        (t, p) \<leftarrow> take_token ts p;
        collectDocTrivia ts (if comment then add_comment t out else add_newline out) p
      }
      else Some (out, p))"
  by pat_completeness auto
termination
  by (relation "measure (\<lambda>(ts, _, p). tokens_left ts p)") (auto dest!: take_token_left dest: not_at_end)

declare collectDocTrivia.simps [simp del]

definition collectTrailingDoc :: "Token list \<Rightarrow> 32 word \<Rightarrow> AttachedDoc parse" where
  "collectTrailingDoc ts line p = do {
     t \<leftarrow> current ts p;
     if tok_kind t = TkComment \<and> loc_line (tok_location t) = line then do {
       (t, p) \<leftarrow> take_token ts p;
       Some ([doc_line t (normalizeCommentTokenText (tok_text t))], p)
     }
     else Some ([], p)
   }"

subsection \<open>Definitions\<close>

definition map_last :: "('a \<Rightarrow> 'a) \<Rightarrow> 'a list \<Rightarrow> 'a list" where
  "map_last f xs = (if xs = [] then [] else butlast xs @ [f (last xs)])"

text \<open>What happens to the comments before a statement: the first become the document of the
  definition; those that follow a statement closely, with a blank line after them, belong to it. The
  vector that is moved from is empty afterwards.\<close>

definition place_leading :: "doc_trivia \<Rightarrow> DefinitionAST \<Rightarrow> doc_trivia \<times> DefinitionAST" where
  "place_leading leading d =
     (let (leading, d) =
            (if statements d = [] \<and> def_doc d = [] \<and> trivia_doc leading \<noteq> []
             then (leading\<lparr>trivia_doc := []\<rparr>, d\<lparr>def_doc := trivia_doc leading\<rparr>) else (leading, d))
      in if statements d \<noteq> [] \<and> trivia_doc leading \<noteq> [] \<and> newlinesBeforeFirstComment leading \<le> 1 \<and>
            newlinesAfterLastComment leading > 1
         then (leading\<lparr>trivia_doc := []\<rparr>,
               d\<lparr>statements := map_last (appendDocToStatement (trivia_doc leading)) (statements d)\<rparr>)
         else (leading, d))"

definition place_final :: "doc_trivia \<Rightarrow> DefinitionAST \<Rightarrow> DefinitionAST" where
  "place_final leading d =
     (if statements d \<noteq> [] \<and> trivia_doc leading \<noteq> [] \<and> newlinesBeforeFirstComment leading \<le> 1
      then d\<lparr>statements := map_last (appendDocToStatement (trivia_doc leading)) (statements d)\<rparr> else d)"

text \<open>One turn of the loop over statements: the definition so far, and whether the loop goes on.\<close>

definition parse_line :: "Token list \<Rightarrow> DefinitionAST \<Rightarrow> (DefinitionAST \<times> bool) parse" where
  "parse_line ts d p = do {
     (leading, p) \<leftarrow> collectDocTrivia ts no_trivia p;
     let (leading, d) = place_leading leading d;
     if at_end ts p then Some ((place_final leading d, False), p)
     else do {
       t \<leftarrow> current ts p;
       if loc_column (tok_location t) \<noteq> 1 then do {
         p \<leftarrow> syncToNextLine ts (complain (tok_location t) ''a statement must begin at the start of the line'' p);
         Some ((d, True), p)
       }
       else do {
         (stmt, p) \<leftarrow> parseStatement ts p;
         case stmt of
           None \<Rightarrow> do { p \<leftarrow> syncToNextLine ts p; Some ((d, True), p) }
         | Some stmt \<Rightarrow> do {
             (trailing, p) \<leftarrow> collectTrailingDoc ts (statementLine stmt) p;
             let d = d\<lparr>statements := statements d @ [attachDocToStatement (trivia_doc leading @ trailing) stmt]\<rparr>;
             if check ts TkNewline p \<or> check ts TkEof p \<or> check ts TkComment p then Some ((d, True), p)
             else do {
               p \<leftarrow> complain_here ts ''expected end of line after statement'' p;
               p \<leftarrow> syncToNextLine ts p;
               Some ((d, True), p)
             }
           }
       }
     }
   }"

fun parse_lines :: "nat \<Rightarrow> Token list \<Rightarrow> DefinitionAST \<Rightarrow> DefinitionAST parse" where
  "parse_lines 0 ts d p = None"
| "parse_lines (Suc n) ts d p =
     (if at_end ts p then Some (d, p)
      else do {
        ((d, more), p) \<leftarrow> parse_line ts d p;
        if more then parse_lines n ts d p else Some (d, p)
      })"

text \<open>The parsed definition, or nothing when the engine holds an error.\<close>

definition parseDefinition :: "string \<Rightarrow> Token list \<Rightarrow> diagnostics \<Rightarrow> (DefinitionAST option \<times> diagnostics) option" where
  "parseDefinition file ts ds = do {
     (d, p) \<leftarrow> parse_lines (Suc (length ts)) ts
       \<lparr>def_location = \<lparr>loc_file = file, loc_line = 1, loc_column = 1\<rparr>, def_doc = [], statements = []\<rparr>
       \<lparr>cursor = 0, expressionDepth = 0, diagnostics_of = ds\<rparr>;
     Some (if hasErrors (diagnostics_of p) then None else Some d, diagnostics_of p)
   }"

definition report_lexer_errors :: "LexerError list \<Rightarrow> diagnostics \<Rightarrow> diagnostics" where
  "report_lexer_errors es ds = fold (\<lambda>e. error (err_location e) (err_message e)) es ds"

text \<open>The loop of \<^verbatim>\<open>parseDefinitions\<close> over the discovered files.\<close>

fun parse_files :: "DiscoveredDefinition list \<Rightarrow> ASTModule \<Rightarrow> diagnostics \<Rightarrow> (ASTModule \<times> diagnostics) option" where
  "parse_files [] out ds = Some (out, ds)"
| "parse_files (f # fs) out ds =
     (let (tokens, lx) = lex (Lexer_init (filePath f) (source_text f))
      in do {
        (parsed, ds) \<leftarrow> parseDefinition (filePath f) tokens (report_lexer_errors (lx_errors lx) ds);
        parse_files fs (case parsed of None \<Rightarrow> out | Some d \<Rightarrow> out @ [\<lparr>parsed_info = f, parsed_ast = d\<rparr>]) ds
      })"

text \<open>Finding the files and comparing the names of their generated types are other components, given
  here as \<open>find_files\<close> and \<open>collisions\<close>.\<close>

definition parseDefinitions ::
  "(diagnostics \<Rightarrow> DiscoveredDefinition list \<times> diagnostics) \<Rightarrow> (ASTModule \<Rightarrow> diagnostics \<Rightarrow> diagnostics) \<Rightarrow>
   diagnostics \<Rightarrow> (ASTModule option \<times> diagnostics) option" where
  "parseDefinitions find_files collisions ds = do {
     let (files, ds) = find_files ds;
     (module, ds) \<leftarrow> parse_files files [] ds;
     let ds = (if hasErrors ds then ds else collisions module ds);
     Some (if hasErrors ds then None else Some module, ds)
   }"

end
