(* ===== verification/ParserTotal.thy ===== *)
theory ParserTotal
  imports Parser LexerRoundtrip
begin

text \<open>
  The parser always returns. On tokens that end in their only end-of-file token, as every lexer result
  does, no read leaves the token vector, no loop runs out of its bound and the nesting guard is
  balanced, so the only undefined behaviour left is that of a literal whose exponent is the least
  \<^verbatim>\<open>int\<close>. The diagnostics only grow, by errors, and a parser without a result has reported one.
\<close>

subsection \<open>Token streams\<close>

definition literals_defined :: "Token list \<Rightarrow> bool" where
  "literals_defined ts \<longleftrightarrow>
     list_all (\<lambda>t. tok_kind t \<in> {TkInteger, TkReal} \<longrightarrow> literal_exponent (tok_text t) \<noteq> Some (- (2 ^ 31))) ts"

definition ends_in_eof :: "Token list \<Rightarrow> bool" where
  "ends_in_eof ts \<longleftrightarrow> (\<exists>us t. ts = us @ [t] \<and> tok_kind t = TkEof \<and> (\<forall>u\<in>set us. tok_kind u \<noteq> TkEof))"

definition stream :: "Token list \<Rightarrow> bool" where
  "stream ts \<longleftrightarrow> ends_in_eof ts \<and> literals_defined ts"

lemma eof_last: "ends_in_eof ts \<Longrightarrow> i < length ts \<Longrightarrow> tok_kind (ts ! i) \<noteq> TkEof \<Longrightarrow> i + 1 < length ts"
  by (auto simp: ends_in_eof_def nth_append split: if_splits)

lemma stream_literal:
  assumes "stream ts" "i < length ts" "tok_kind (ts ! i) \<in> {TkInteger, TkReal}"
  obtains v v' v'' where "parseRealLiteral (tok_text (ts ! i)) = Some v"
    "parseRealLiteral (''.'' @ tok_text (ts ! i)) = Some v'" "parseRealLiteral (tok_text (ts ! i) @ ''.'') = Some v''"
proof -
  have "literal_exponent (tok_text (ts ! i)) \<noteq> Some (- (2 ^ 31))"
    using assms unfolding stream_def literals_defined_def list_all_length by blast
  then show thesis using that parseRealLiteral_defined exponent_point by (metis option.exhaust)
qed

subsection \<open>Steps forward\<close>

definition onward :: "Token list \<Rightarrow> parser \<Rightarrow> parser \<Rightarrow> bool" where
  "onward ts p p' \<longleftrightarrow> cursor p \<le> cursor p' \<and> cursor p' < length ts \<and> expressionDepth p' = expressionDepth p \<and>
     (diagnostics_of p' = diagnostics_of p \<or> reported (diagnostics_of p) (diagnostics_of p'))"

lemma onward_refl: "cursor p < length ts \<Longrightarrow> onward ts p p"
  by (simp add: onward_def)

lemma onward_trans: "onward ts p q \<Longrightarrow> onward ts q r \<Longrightarrow> onward ts p r"
  unfolding onward_def using reported_trans by fastforce

definition lands :: "Token list \<Rightarrow> parser \<Rightarrow> ('a \<Rightarrow> parser \<Rightarrow> bool) \<Rightarrow> ('a \<times> parser) option \<Rightarrow> bool" where
  "lands ts p Q m \<longleftrightarrow> (\<exists>r p'. m = Some (r, p') \<and> onward ts p p' \<and> Q r p')"

named_theorems landing \<open>parsers that land\<close>

lemma lands_Some: "onward ts p p' \<Longrightarrow> Q r p' \<Longrightarrow> lands ts p Q (Some (r, p'))"
  by (simp add: lands_def)

lemma landsE:
  assumes "lands ts p Q m"
  obtains r q where "m = Some (r, q)" "onward ts p q" "Q r q"
  using assms by (auto simp: lands_def)

lemma lands_bind:
  assumes "lands ts p Q m" "\<And>r p'. m = Some (r, p') \<Longrightarrow> onward ts p p' \<Longrightarrow> Q r p' \<Longrightarrow> lands ts p R (k (r, p'))"
  shows "lands ts p R (Option.bind m k)"
proof -
  obtain r p' where m: "m = Some (r, p')" "onward ts p p'" "Q r p'" using assms(1) by (auto simp: lands_def)
  then show ?thesis using assms(2) [OF m] by simp
qed

lemma lands_from: "onward ts p q \<Longrightarrow> lands ts q Q m \<Longrightarrow> lands ts p Q m"
  unfolding lands_def using onward_trans by blast

lemma lands_mono: "lands ts p Q m \<Longrightarrow> (\<And>r p'. onward ts p p' \<Longrightarrow> Q r p' \<Longrightarrow> R r p') \<Longrightarrow> lands ts p R m"
  unfolding lands_def by blast

text \<open>\<open>told p r p'\<close>: without a result an error was reported, with one a token was consumed.\<close>

definition told :: "parser \<Rightarrow> 'a option \<Rightarrow> parser \<Rightarrow> bool" where
  "told p r p' \<longleftrightarrow> (if r = None then reported (diagnostics_of p) (diagnostics_of p') else cursor p < cursor p')"

definition total_at :: "Token list \<Rightarrow> nat \<Rightarrow> 'a option parse \<Rightarrow> bool" where
  "total_at ts d f \<longleftrightarrow> (\<forall>p. cursor p < length ts \<longrightarrow> expressionDepth p = d \<longrightarrow> lands ts p (told p) (f p))"

lemma total_atD: "total_at ts d f \<Longrightarrow> cursor p < length ts \<Longrightarrow> expressionDepth p = d \<Longrightarrow> lands ts p (told p) (f p)"
  by (simp add: total_at_def)

lemma onward_token: "ends_in_eof ts \<Longrightarrow> cursor p < length ts \<Longrightarrow> tok_kind (ts ! cursor p) \<noteq> TkEof \<Longrightarrow>
    onward ts p (p\<lparr>cursor := Suc (cursor p)\<rparr>)"
  using eof_last [of ts "cursor p"] by (simp add: onward_def)

lemma take_lands: "ends_in_eof ts \<Longrightarrow> cursor p < length ts \<Longrightarrow> tok_kind (ts ! cursor p) \<noteq> TkEof \<Longrightarrow>
    take_token ts p = Some (ts ! cursor p, p\<lparr>cursor := Suc (cursor p)\<rparr>)"
  by (simp add: take_token_Some current_def)

lemma onward_complain: "cursor p < length ts \<Longrightarrow> onward ts p (complain location message p)"
  by (simp add: onward_def complain_def)

lemma reported_complain: "diagnostics_of q = diagnostics_of p \<or> reported (diagnostics_of p) (diagnostics_of q) \<Longrightarrow>
    reported (diagnostics_of p) (diagnostics_of (complain location message q))"
  using reported_trans by (auto simp: complain_def)

lemma check_iff: "cursor p < length ts \<Longrightarrow> check ts k p \<longleftrightarrow> tok_kind (ts ! cursor p) = k"
  by (simp add: check_def current_def)

lemma current_lands: "cursor p < length ts \<Longrightarrow> current ts p = Some (ts ! cursor p)"
  by (simp add: current_def)

lemma match_lands:
  assumes "ends_in_eof ts" "cursor p < length ts" "k \<noteq> TkEof"
  shows "lands ts p (\<lambda>b q. (b \<longleftrightarrow> check ts k p) \<and> diagnostics_of q = diagnostics_of p \<and>
    cursor q = (if b then cursor p + 1 else cursor p)) (match ts k p)"
proof (cases "check ts k p")
  case True
  then have "tok_kind (ts ! cursor p) \<noteq> TkEof" using assms by (auto simp: check_iff)
  then show ?thesis using True assms onward_token by (auto simp: match_def take_lands intro!: lands_Some)
next
  case False
  then show ?thesis using assms by (auto simp: match_def intro!: lands_Some onward_refl)
qed

lemma expect_lands:
  assumes "ends_in_eof ts" "cursor p < length ts" "k \<noteq> TkEof"
  shows "lands ts p (\<lambda>b q. \<not> b \<longrightarrow> reported (diagnostics_of p) (diagnostics_of q)) (expect ts k message p)"
proof (cases "check ts k p")
  case True
  then have "tok_kind (ts ! cursor p) \<noteq> TkEof" using assms by (auto simp: check_iff)
  then show ?thesis using True assms onward_token by (auto simp: expect_def take_lands intro!: lands_Some)
next
  case False
  then show ?thesis using assms onward_complain reported_complain [of p p]
    by (auto simp: expect_def complain_here_def current_lands intro!: lands_Some)
qed

lemma refuse_lands: "cursor p < length ts \<Longrightarrow> lands ts p (told p) (refuse ts message p)"
  using onward_complain reported_complain [of p p]
  by (simp add: refuse_def complain_here_def current_lands lands_def told_def)

lemma onward_in: "onward ts p q \<Longrightarrow> cursor q < length ts" "onward ts p q \<Longrightarrow> expressionDepth q = expressionDepth p"
  by (simp_all add: onward_def)

lemma told_from: "onward ts p q \<Longrightarrow> told q r p' \<Longrightarrow> told p r p'"
  unfolding onward_def told_def using reported_trans by (fastforce split: if_splits)

lemma told_later: "told p r q \<Longrightarrow> onward ts q q2 \<Longrightarrow> told p r q2"
  unfolding onward_def told_def using reported_trans by (fastforce split: if_splits)

text \<open>The call of a total parser from a later position.\<close>

lemma total_call:
  assumes "total_at ts d f" "onward ts p q" "expressionDepth p = d"
  shows "lands ts p (told q) (f q)"
  using lands_from [OF assms(2) total_atD [OF assms(1)]] onward_in [OF assms(2)] assms(3) by simp

subsection \<open>Types\<close>

lemma quiet_onward: "cursor p < length ts \<Longrightarrow> onward ts p (complain_unless silent location message p)"
  by (simp add: complain_unless_def onward_refl onward_complain)

abbreviation returns :: "'a \<Rightarrow> parser \<Rightarrow> bool" where
  "returns \<equiv> \<lambda>_ _. True"

lemma sized_type_lands:
  assumes "cursor p < length ts"
  shows "lands ts p returns (Some (sized_type silent baseTok domain digits mk p))"
  using quiet_onward [OF assms, of silent] onward_refl [OF assms]
  by (auto simp: sized_type_def parseBitLength_def validateBitLength_def lands_def Let_def  split: prod.splits)

lemma primitive_type_lands:
  "cursor p < length ts \<Longrightarrow> lands ts p returns (Some (primitive_type silent castMode baseTok p))"
  using sized_type_lands by (auto simp: primitive_type_def Let_def lands_def onward_refl )

lemma kind_at_Some: "kind_at ts i = Some k \<longleftrightarrow> i < length ts \<and> tok_kind (ts ! i) = k"
  by (auto simp: kind_at_def)

lemma onward_skip: "ends_in_eof ts \<Longrightarrow> cursor p + n < length ts \<Longrightarrow> onward ts p (p\<lparr>cursor := cursor p + n\<rparr>)"
  by (simp add: onward_def)

lemma invalid_version_lands: "onward ts p q \<Longrightarrow> lands ts p returns (invalid_version silent baseTok q)"
  using onward_trans [OF _ quiet_onward]
  by (auto simp: invalid_version_def lands_def onward_in)

lemma integer_version_lands:
  assumes "ends_in_eof ts" "check ts TkDot p" "kind_at ts (cursor p + 1) = Some TkInteger"
    "kind_at ts (cursor p + 2) = Some TkDot" "kind_at ts (cursor p + 3) = Some TkInteger"
  shows "lands ts p returns (integer_version ts silent baseTok dotTok names p)"
proof -
  have l: "cursor p + 3 < length ts" using assms by (auto simp: kind_at_Some)
  then have k: "tok_kind (ts ! cursor p) = TkDot" using assms(2) by (simp add: check_iff)
  have l4: "cursor p + 4 < length ts" using eof_last [OF assms(1) l] assms(5) by (auto simp: kind_at_Some)
  have n: "onward ts p (p\<lparr>cursor := cursor p + 4\<rparr>)" using assms(1) l4 by (rule onward_skip)
  show ?thesis
    using assms k l l4 n invalid_version_lands [OF n]
    by (auto simp: integer_version_def take_lands kind_at_Some expect_def check_iff current_def numeral_eq_Suc
        intro!: lands_Some split: option.splits)
qed

lemma real_version_lands:
  assumes "ends_in_eof ts" "check ts TkDot p" "kind_at ts (cursor p + 1) = Some TkReal"
  shows "lands ts p returns (real_version ts silent baseTok dotTok names p)"
proof -
  have l: "cursor p + 1 < length ts" using assms by (auto simp: kind_at_Some)
  then have k: "tok_kind (ts ! cursor p) = TkDot" using assms(2) by (simp add: check_iff)
  have l2: "cursor p + 2 < length ts" using eof_last [OF assms(1) l] assms(3) by (auto simp: kind_at_Some)
  have n: "onward ts p (p\<lparr>cursor := cursor p + 2\<rparr>)" using assms(1) l2 by (rule onward_skip)
  show ?thesis
    using assms k l l2 n invalid_version_lands [OF n]
    by (auto simp: real_version_def take_lands kind_at_Some numeral_eq_Suc
        intro!: lands_Some split: option.splits)
qed

lemma versioned_loop_lands:
  assumes "ends_in_eof ts"
  shows "cursor p < length ts \<Longrightarrow> lands ts p returns (versioned_loop ts silent baseTok lastTok names p)"
proof (induction "tokens_left ts p" arbitrary: p lastTok names rule: less_induct)
  case less
  note l = \<open>cursor p < length ts\<close>
  have quiet: "lands ts p returns (Some (None :: (string list \<times> 32 word \<times> 32 word) option, complain_unless silent location message p))" for location message
    using quiet_onward [OF l] by (rule lands_Some) simp
  show ?case
  proof (cases "check ts TkDot p")
    case False
    then show ?thesis using quiet by (simp add: versioned_loop.simps)
  next
    case True
    let ?q = "p\<lparr>cursor := Suc (cursor p)\<rparr>" and ?r = "p\<lparr>cursor := Suc (Suc (cursor p))\<rparr>"
    have dot: "tok_kind (ts ! cursor p) \<noteq> TkEof" using True l by (simp add: check_iff)
    have q: "onward ts p ?q" by (rule onward_token [OF assms l dot])
    have lq: "Suc (cursor p) < length ts" using onward_in(1) [OF q] by simp
    have fail: "lands ts p returns (Some (None :: (string list \<times> 32 word \<times> 32 word) option, complain_unless silent location message ?q))" for location message
      using onward_trans [OF q quiet_onward] lq by (intro lands_Some) simp_all
    have rest: "lands ts p returns (versioned_loop ts silent baseTok t names' ?r)"
      if "tok_kind (ts ! Suc (cursor p)) = TkIdentifier" for t names'
    proof -
      have r: "onward ts p ?r" using onward_trans [OF q onward_token [of ts ?q]] assms lq that by simp
      have "lands ts ?r returns (versioned_loop ts silent baseTok t names' ?r)"
        using onward_in(1) [OF r] l by (intro less.hyps) (simp_all add: tokens_left_def)
      then show ?thesis by (rule lands_from [OF r])
    qed
    show ?thesis
      using True l lq dot assms quiet fail rest integer_version_lands [OF assms True] real_version_lands [OF assms True]
      by (subst versioned_loop.simps) (simp add: current_lands take_lands current_def)
  qed
qed

text \<open>With a result, a token was consumed.\<close>

definition progress :: "parser \<Rightarrow> 'a option \<Rightarrow> parser \<Rightarrow> bool" where
  "progress p r q \<longleftrightarrow> r = None \<or> cursor p < cursor q"

lemma lands_progress:
  assumes "onward ts p q" "cursor p < cursor q" "lands ts q returns m"
  shows "lands ts p (progress p) m"
proof -
  have "lands ts q (progress p) m"
    by (rule lands_mono [OF assms(3)]) (use assms(2) in \<open>auto simp: progress_def onward_def\<close>)
  then show ?thesis by (rule lands_from [OF assms(1)])
qed

lemma versioned_type_lands:
  "ends_in_eof ts \<Longrightarrow> cursor p < length ts \<Longrightarrow> lands ts p returns (versioned_type ts silent baseTok p)"
  unfolding versioned_type_def by (rule lands_bind [OF versioned_loop_lands]) (auto intro!: lands_Some)

lemma base_type_lands:
  assumes "ends_in_eof ts" "cursor p < length ts"
  shows "lands ts p (progress p)
    (if \<not> check ts TkIdentifier p then Some (None, p)
     else do {
       (baseTok, p) \<leftarrow> take_token ts p;
       if castApplied \<and> \<not> numeric_type_name (tok_text baseTok)
       then Some (None, complain_unless silent (tok_location baseTok) message p)
       else if primitive_type_name (tok_text baseTok) then Some (primitive_type silent castMode baseTok p)
       else versioned_type ts silent baseTok p
     })"
proof (cases "check ts TkIdentifier p")
  case True
  then have k: "tok_kind (ts ! cursor p) \<noteq> TkEof" using assms(2) by (simp add: check_iff)
  let ?q = "p\<lparr>cursor := Suc (cursor p)\<rparr>"
  have q: "onward ts p ?q" by (rule onward_token [OF assms k])
  have l: "cursor ?q < length ts" by (rule onward_in [OF q])
  show ?thesis
    using True k assms l versioned_type_lands [OF assms(1) l] primitive_type_lands [OF l]
    by (auto simp: take_lands intro!: lands_progress [OF q] intro: lands_Some [OF quiet_onward])
qed (use assms in \<open>auto simp: progress_def intro!: lands_Some onward_refl\<close>)

lemma scalar_type_lands:
  assumes "ends_in_eof ts" "cursor p < length ts"
  shows "lands ts p (progress p) (scalar_type ts silent p)"
proof (cases "cast_ahead ts p")
  case True
  then have k: "tok_kind (ts ! cursor p) \<noteq> TkEof" using assms(2) by (auto simp: cast_ahead_def check_iff)
  let ?q = "p\<lparr>cursor := Suc (cursor p)\<rparr>"
  have q: "onward ts p ?q" by (rule onward_token [OF assms k])
  note B = lands_from [OF q lands_mono [OF base_type_lands [OF assms(1) onward_in(1) [OF q]]], of "progress p"]
  show ?thesis
    using True assms k unfolding scalar_type_def
    by (simp add: current_lands take_lands split del: if_split) (rule B, auto simp: progress_def)
next
  case False
  show ?thesis using False base_type_lands [OF assms] by (simp add: scalar_type_def current_lands [OF assms(2)])
qed

lemma array_bound_lands:
  assumes "ends_in_eof ts" "cursor p < length ts"
  shows "lands ts p returns (array_bound ts p)"
proof -
  obtain b q where b: "match ts TkLessEqual p = Some (b, q)" "onward ts p q"
    using match_lands [OF assms, of TkLessEqual] by (auto simp: lands_def)
  obtain c r where "match ts TkLess q = Some (c, r)" "onward ts q r"
    using match_lands [OF assms(1) onward_in(1) [OF b(2)], of TkLess] by (auto simp: lands_def)
  then show ?thesis using b onward_trans [of ts p q r] by (auto simp: array_bound_def intro: lands_Some)
qed

lemma array_type_lands:
  assumes "ends_in_eof ts" "cursor p < length ts" "total_at ts (expressionDepth p) pe"
  shows "lands ts p returns (array_type ts pe location scalar p)"
proof -
  obtain b q where b: "match ts TkLBracket p = Some (b, q)" "onward ts p q"
    using match_lands [OF assms(1,2), of TkLBracket] by (auto simp: lands_def)
  obtain arr q1 where a: "array_bound ts q = Some (arr, q1)" "onward ts q q1"
    using array_bound_lands [OF assms(1) onward_in(1) [OF b(2)]] by (auto simp: lands_def)
  have p1: "onward ts p q1" by (rule onward_trans [OF b(2) a(2)])
  obtain e q2 where e: "pe q1 = Some (e, q2)" "onward ts p q2"
    using total_call [OF assms(3) p1 refl] by (auto simp: lands_def)
  obtain c q3 where c: "expect ts TkRBracket array_unclosed q2 = Some (c, q3)" "onward ts q2 q3"
    using expect_lands [OF assms(1) onward_in(1) [OF e(2)], of TkRBracket array_unclosed] by (auto simp: lands_def)
  then show ?thesis using b a e onward_trans [OF e(2) c(2)] by (auto simp: array_type_def intro: lands_Some)
qed

lemma parseTypeExpr_lands:
  assumes "ends_in_eof ts" "cursor p < length ts" "total_at ts (expressionDepth p) pe"
  shows "lands ts p (\<lambda>r q. progress p r q \<and> (r = None \<longrightarrow> cursor q = cursor p)) (parseTypeExpr ts pe silent p)"
proof -
  have reset: "onward ts p (q\<lparr>cursor := cursor p\<rparr>)" if "onward ts p q" for q
    using that assms(2) by (simp add: onward_def)
  obtain scalar q where q: "scalar_type ts silent p = Some (scalar, q)" "onward ts p q" "progress p scalar q"
    using scalar_type_lands [OF assms(1,2), of silent] by (auto simp: lands_def)
  show ?thesis
  proof (cases scalar)
    case None
    then show ?thesis using q reset by (auto simp: parseTypeExpr_def current_lands [OF assms(2)] progress_def intro: lands_Some)
  next
    case (Some s)
    obtain t q2 where t: "array_type ts pe (tok_location (ts ! cursor p)) s q = Some (t, q2)" "onward ts q q2"
      using array_type_lands [OF assms(1) onward_in(1) [OF q(2)], of pe "tok_location (ts ! cursor p)" s] assms(3) onward_in(2) [OF q(2)]
      by (auto simp: lands_def)
    have "onward ts p q2" "cursor q \<le> cursor q2" using onward_trans [OF q(2) t(2)] t(2) by (simp_all add: onward_def)
    then show ?thesis using q Some t reset
      by (cases t) (auto simp: parseTypeExpr_def current_lands [OF assms(2)] progress_def intro: lands_Some)
  qed
qed

subsection \<open>Atoms\<close>

lemma told_progress: "onward ts p q \<Longrightarrow> cursor p < cursor q \<Longrightarrow> told p (Some x) q"
  by (simp add: told_def)

lemma lands_told_after:
  assumes "onward ts p q" "cursor p < cursor q" "lands ts q returns m" "\<And>r p'. m = Some (r, p') \<Longrightarrow> r \<noteq> None"
  shows "lands ts p (told p) m"
  using assms onward_trans [OF assms(1)] by (fastforce simp: lands_def told_def onward_def)

lemma literal_node_lands: "cursor p < length ts \<Longrightarrow> lands ts p returns (literal_node location v message p)"
  by (auto simp: literal_node_def intro: lands_Some onward_refl onward_complain)

lemma literal_node_Some: "literal_node location v message p = Some (r, p') \<Longrightarrow> r \<noteq> None"
  by (auto simp: literal_node_def)

lemma set_loop_lands:
  assumes "ends_in_eof ts" "total_at ts d pe"
  shows "cursor p < length ts \<Longrightarrow> expressionDepth p = d \<Longrightarrow> tokens_left ts p < n \<Longrightarrow>
    lands ts p returns (set_loop n ts pe es p)"
proof (induction n arbitrary: p es)
  case (Suc n)
  obtain item q where i: "pe p = Some (item, q)" "onward ts p q" "told p item q"
    using total_atD [OF assms(2) Suc.prems(1,2)] by (auto simp: lands_def)
  show ?case
  proof (cases item)
    case None
    then show ?thesis using i by (auto intro: lands_Some)
  next
    case (Some e)
    obtain c q2 where c: "match ts TkComma q = Some (c, q2)" "onward ts q q2"
      using match_lands [OF assms(1) onward_in(1) [OF i(2)], of TkComma] by (auto simp: lands_def)
    have q2: "onward ts p q2" by (rule onward_trans [OF i(2) c(2)])
    have "tokens_left ts q2 < n"
      using Suc.prems(1,3) c(2) i(3) Some by (auto simp: tokens_left_def told_def onward_def)
    then have "lands ts q2 returns (set_loop n ts pe (es @ [e]) q2)"
      using Suc.IH onward_in [OF q2] Suc.prems(2) by simp
    then show ?thesis using i c Some q2 lands_from [OF q2] by (auto intro: lands_Some)
  qed
qed simp

lemma set_literal_lands:
  assumes "ends_in_eof ts" "total_at ts (expressionDepth p) pe" "cursor p < length ts"
  shows "lands ts p returns (parseSetLiteral ts pe location p)"
proof -
  obtain es q where e: "(if check ts TkRBrace p then Some ([], p) else set_loop (Suc (length ts)) ts pe [] p) = Some (es, q)"
      "onward ts p q"
  proof -
    have "tokens_left ts p < Suc (length ts)" by (simp add: tokens_left_def)
    from set_loop_lands [OF assms(1,2,3) refl this, of "[]"] onward_refl [OF assms(3)] that
    show thesis by (cases "check ts TkRBrace p") (auto simp: lands_def simp del: set_loop.simps)
  qed
  obtain c q2 where c: "expect ts TkRBrace set_unclosed q = Some (c, q2)" "onward ts q q2"
    using expect_lands [OF assms(1) onward_in(1) [OF e(2)], of TkRBrace set_unclosed] by (auto simp: lands_def)
  show ?thesis unfolding parseSetLiteral_def e(1) using c onward_trans [OF e(2) c(2)] by (auto intro: lands_Some)
qed

lemma parse_identifier_lands:
  assumes "ends_in_eof ts" "total_at ts (expressionDepth p) pe" "cursor p < length ts" "check ts TkIdentifier p"
  shows "lands ts p (told p) (parse_identifier ts pe p)"
proof -
  obtain t q where t: "parseTypeExpr ts pe True p = Some (t, q)" "onward ts p q" "progress p t q" "t = None \<longrightarrow> cursor q = cursor p"
    using parseTypeExpr_lands [OF assms(1,3,2), of True] by (auto simp: lands_def)
  have k: "tok_kind (ts ! cursor p) \<noteq> TkEof" using assms(3,4) by (simp add: check_iff)
  have l: "Suc (cursor p) < length ts" using eof_last [OF assms(1,3) k] by simp
  show ?thesis
    using t k l assms(1,3)
    by (cases t) (auto simp: parse_identifier_def progress_def take_lands told_def onward_def intro!: lands_Some)
qed

lemma parse_number_lands:
  assumes "stream ts" "cursor p < length ts" "i < length ts" "ts ! i = intToken" "tok_kind intToken = TkInteger"
  shows "lands ts p returns (parse_number ts intToken p)"
proof (cases "trailing_point ts intToken p")
  case True
  then have k: "tok_kind (ts ! cursor p) \<noteq> TkEof" using assms(2) by (simp add: trailing_point_def check_iff)
  have e: "ends_in_eof ts" using assms(1) by (simp add: stream_def)
  obtain v where "parseRealLiteral (tok_text intToken @ ''.'') = Some v"
    using stream_literal [OF assms(1,3)] assms(4,5) by auto
  moreover have q: "onward ts p (p\<lparr>cursor := Suc (cursor p)\<rparr>)" by (rule onward_token [OF e assms(2) k])
  ultimately show ?thesis
    using True k e assms(2) lands_from [OF q literal_node_lands] onward_in(1) [OF q] by (simp add: parse_number_def take_lands)
next
  case False
  have "\<exists>v. rational_of n 1 = Some v" if "parseIntegerLiteral (tok_text intToken) = Some n" for n
    using rational_of_reduces [of n 1] parseIntegerLiteral_range [OF that] by (simp add: kUint64Max_def int128_max_def)
  then show ?thesis using False assms(2) by (auto simp: parse_number_def intro!: literal_node_lands split: option.splits)
qed

lemma parse_number_Some: "parse_number ts t p = Some (r, p') \<Longrightarrow> r \<noteq> None"
  by (auto simp: parse_number_def literal_node_def Option.bind_eq_Some_conv split: if_splits prod.splits)

lemma set_literal_Some: "parseSetLiteral ts pe location p = Some (r, p') \<Longrightarrow> r \<noteq> None"
  by (auto simp: parseSetLiteral_def Option.bind_eq_Some_conv split: prod.splits)

lemma leading_point_lands:
  assumes "stream ts" "cursor p < length ts" "leading_point ts p"
  shows "lands ts p (told p) (parsePrimary ts pe p)"
proof -
  have e: "ends_in_eof ts" using assms(1) by (simp add: stream_def)
  have k: "tok_kind (ts ! cursor p) = TkDot" "Suc (cursor p) < length ts" "tok_kind (ts ! Suc (cursor p)) \<in> {TkInteger, TkReal}"
    using assms(2,3) by (auto simp: leading_point_def check_iff kind_at_Some)
  then have n: "tok_kind (ts ! Suc (cursor p)) \<noteq> TkEof" by auto
  have q: "onward ts p (p\<lparr>cursor := Suc (Suc (cursor p))\<rparr>)"
    using eof_last [OF e k(2) n] onward_skip [OF e, of p 2] by simp
  obtain w where "parseRealLiteral (''.'' @ tok_text (ts ! Suc (cursor p))) = Some w"
    using stream_literal [OF assms(1) k(2,3)] by blast
  then show ?thesis
    using assms(2,3) k n e lands_told_after [OF q _ literal_node_lands] onward_in(1) [OF q] literal_node_Some
    by (simp add: parsePrimary_def current_lands take_lands)
qed

lemma paren_lands:
  assumes "ends_in_eof ts" "onward ts p q" "cursor p < cursor q" "total_at ts (expressionDepth q) pe"
  shows "lands ts p (told p) (do { (e, r) \<leftarrow> pe q; (_, r) \<leftarrow> expect ts TkRParen paren_unclosed r; Some (e, r) })"
proof -
  obtain x r where x: "pe q = Some (x, r)" "onward ts q r" "told q x r"
    using total_atD [OF assms(4) onward_in(1) [OF assms(2)] refl] by (auto simp: lands_def)
  obtain c s where c: "expect ts TkRParen paren_unclosed r = Some (c, s)" "onward ts r s"
    using expect_lands [OF assms(1) onward_in(1) [OF x(2)], of TkRParen paren_unclosed] by (auto simp: lands_def)
  have "lands ts p (told p) (Some (x, s))"
    using onward_trans [OF assms(2) onward_trans [OF x(2) c(2)]] told_later [OF told_from [OF assms(2) x(3)] c(2)] by (rule lands_Some)
  then show ?thesis using x(1) c(1) by simp
qed

lemma atom_token_lands:
  assumes "stream ts" "total_at ts (expressionDepth p) pe" "cursor p < length ts" "\<not> leading_point ts p"
    and "tok_kind (ts ! cursor p) \<in> {TkTrue, TkFalse, TkInteger, TkReal, TkString, TkLParen, TkLBrace}"
  shows "lands ts p (told p) (parsePrimary ts pe p)"
proof -
  let ?q = "p\<lparr>cursor := Suc (cursor p)\<rparr>" and ?t = "ts ! cursor p"
  have e: "ends_in_eof ts" using assms(1) by (simp add: stream_def)
  have k: "tok_kind ?t \<noteq> TkEof" using assms(5) by auto
  have q: "onward ts p ?q" by (rule onward_token [OF e assms(3) k])
  have take: "take_token ts p = Some (?t, ?q)" by (rule take_lands [OF e assms(3) k])
  have l: "cursor ?q < length ts" by (rule onward_in(1) [OF q])
  have pe: "total_at ts (expressionDepth ?q) pe" using assms(2) by simp
  have real: "\<exists>v. parseRealLiteral (tok_text ?t) = Some v" if "tok_kind ?t = TkReal"
    using stream_literal [OF assms(1,3)] that by blast
  have paren: "lands ts p (told p) (do { (e, r) \<leftarrow> pe ?q; (_, r) \<leftarrow> expect ts TkRParen paren_unclosed r; Some (e, r) })"
    by (rule paren_lands [OF e q _ pe]) simp
  have literal: "lands ts p (told p) (literal_node location v message ?q)" for location v message
    using q literal_node_lands [OF l] literal_node_Some by (intro lands_told_after [OF q]) auto
  have number: "lands ts p (told p) (parse_number ts ?t ?q)" if "tok_kind ?t = TkInteger"
    using parse_number_lands [OF assms(1) l assms(3) refl that] parse_number_Some by (intro lands_told_after [OF q]) auto
  have set_literal: "lands ts p (told p) (parseSetLiteral ts pe location ?q)" for location
    using set_literal_lands [OF e pe l] set_literal_Some by (intro lands_told_after [OF q]) auto
  have plain: "lands ts p (told p) (Some (Some a, ?q))" for a :: ExprAST
    using q by (auto simp: told_def intro: lands_Some)
  from assms(5) show ?thesis
    using assms(3,4) take paren real literal number set_literal plain by (auto simp: parsePrimary_def current_lands)
qed

lemma parsePrimary_lands:
  assumes "stream ts" "total_at ts d pe"
  shows "total_at ts d (parsePrimary ts pe)"
  unfolding total_at_def
proof (intro allI impI)
  fix p :: parser assume p: "cursor p < length ts" "expressionDepth p = d"
  let ?t = "ts ! cursor p"
  have Le: "total_at ts (expressionDepth p) pe" using assms(2) p(2) by simp
  consider "leading_point ts p"
    | "\<not> leading_point ts p" "tok_kind ?t \<in> {TkTrue, TkFalse, TkInteger, TkReal, TkString, TkLParen, TkLBrace}"
    | "\<not> leading_point ts p" "tok_kind ?t = TkIdentifier"
    | "\<not> leading_point ts p" "tok_kind ?t \<notin> {TkTrue, TkFalse, TkInteger, TkReal, TkString, TkLParen, TkLBrace, TkIdentifier}"
    by blast
  then show "lands ts p (told p) (parsePrimary ts pe p)"
  proof cases
    case 1
    then show ?thesis by (rule leading_point_lands [OF assms(1) p(1)])
  next
    case 2
    then show ?thesis by (rule atom_token_lands [OF assms(1) Le p(1)])
  next
    case 3
    then show ?thesis using p assms parse_identifier_lands [of ts p pe]
      by (simp add: parsePrimary_def current_lands check_iff stream_def)
  next
    case 4
    have "lands ts p (told p) (Some (None, complain (tok_location ?t) ''expected expression atom'' p))"
      using onward_complain [OF p(1)] reported_complain [of p p] by (auto simp: told_def intro: lands_Some)
    then show ?thesis using p 4 by (cases "tok_kind ?t") (simp_all add: parsePrimary_def current_lands)
  qed
qed

subsection \<open>Operators\<close>

lemma chain_loop_lands:
  assumes "ends_in_eof ts" "total_at ts d operand" "\<forall>k\<in>set ops. toBinaryOp k \<noteq> None"
  shows "cursor p < length ts \<Longrightarrow> expressionDepth p = d \<Longrightarrow> tokens_left ts p < n \<Longrightarrow>
    lands ts p (\<lambda>r q. r \<noteq> None) (chain_loop n ts ops operand e p)"
proof (induction n arbitrary: p e)
  case (Suc n)
  show ?case
  proof (cases "tok_kind (ts ! cursor p) \<in> set ops")
    case True
    then have k: "tok_kind (ts ! cursor p) \<noteq> TkEof" using assms(3) by fastforce
    obtain b where b: "toBinaryOp (tok_kind (ts ! cursor p)) = Some b" using True assms(3) by auto
    let ?q = "p\<lparr>cursor := Suc (cursor p)\<rparr>"
    have q: "onward ts p ?q" by (rule onward_token [OF assms(1) Suc.prems(1) k])
    obtain r q2 where r: "operand ?q = Some (r, q2)" "onward ts ?q q2"
      using total_atD [OF assms(2) onward_in(1) [OF q]] Suc.prems(2) by (auto simp: lands_def)
    have q2: "onward ts p q2" by (rule onward_trans [OF q r(2)])
    have "tokens_left ts q2 < n" using Suc.prems(1,3) r(2) by (auto simp: tokens_left_def onward_def)
    then have "lands ts p (\<lambda>r q. r \<noteq> None) (chain_loop n ts ops operand e' q2)" for e'
      using lands_from [OF q2 Suc.IH] onward_in [OF q2] Suc.prems(2) by simp
    then show ?thesis
      using True b r q2 k assms(1) Suc.prems(1) onward_trans [OF q2 onward_complain [OF onward_in(1) [OF q2]]]
      by (auto simp: current_lands take_lands intro: lands_Some split: option.splits)
  qed (use Suc.prems in \<open>auto simp: current_lands intro: lands_Some onward_refl\<close>)
qed simp

lemma chain_level_lands:
  assumes "ends_in_eof ts" "total_at ts d operand" "\<forall>k\<in>set ops. toBinaryOp k \<noteq> None"
  shows "total_at ts d (chain_level ts ops operand)"
  unfolding total_at_def
proof (intro allI impI)
  fix p :: parser assume p: "cursor p < length ts" "expressionDepth p = d"
  obtain l q where l: "operand p = Some (l, q)" "onward ts p q" "told p l q"
    using total_atD [OF assms(2) p] by (auto simp: lands_def)
  show "lands ts p (told p) (chain_level ts ops operand p)"
  proof (cases l)
    case (Some e)
    have "tokens_left ts q < Suc (length ts)" by (simp add: tokens_left_def)
    from chain_loop_lands [OF assms onward_in(1) [OF l(2)] _ this, of e]
    obtain r q2 where r: "chain_loop (Suc (length ts)) ts ops operand e q = Some (r, q2)" "onward ts q q2" "r \<noteq> None"
      using onward_in(2) [OF l(2)] p(2) by (auto simp: lands_def)
    then have "told p r q2" using l(3) Some by (auto simp: told_def onward_def)
    then show ?thesis using l Some r onward_trans [OF l(2) r(2)] by (auto simp del: chain_loop.simps simp: chain_level_def intro: lands_Some)
  qed (use l in \<open>auto simp: chain_level_def intro: lands_Some\<close>)
qed

lemma attribute_loop_lands:
  assumes "ends_in_eof ts"
  shows "cursor p < length ts \<Longrightarrow> lands ts p (\<lambda>r q. r \<noteq> None) (attribute_loop ts e p)"
proof (induction "tokens_left ts p" arbitrary: p e rule: less_induct)
  case less
  note l = \<open>cursor p < length ts\<close>
  show ?case
  proof (cases "check ts TkDot p \<and> kind_at ts (cursor p + 1) = Some TkIdentifier")
    case True
    then have k: "tok_kind (ts ! cursor p) \<noteq> TkEof" "Suc (cursor p) < length ts" "tok_kind (ts ! Suc (cursor p)) \<noteq> TkEof"
      using l by (auto simp: check_iff kind_at_Some)
    let ?q = "p\<lparr>cursor := Suc (Suc (cursor p))\<rparr>"
    have q: "onward ts p ?q" using eof_last [OF assms k(2,3)] onward_skip [OF assms, of p 2] by simp
    have "lands ts p (\<lambda>r q. r \<noteq> None) (attribute_loop ts e' ?q)" for e'
      using lands_from [OF q less.hyps] onward_in(1) [OF q] l by (simp add: tokens_left_def)
    then show ?thesis using True k l assms by (subst attribute_loop.simps) (simp add: take_lands)
  next
    case False
    then show ?thesis by (subst attribute_loop.simps) (auto intro: lands_Some onward_refl [OF l])
  qed
qed

text \<open>A parser that goes on, after a total one has a result, with steps that keep a result.\<close>

lemma total_then:
  assumes "total_at ts d f" "\<And>e q. cursor q < length ts \<Longrightarrow> expressionDepth q = d \<Longrightarrow> lands ts q (\<lambda>r q. r \<noteq> None) (g e q)"
  shows "total_at ts d (\<lambda>p. do { (l, p) \<leftarrow> f p; case l of None \<Rightarrow> Some (None, p) | Some e \<Rightarrow> g e p })"
  unfolding total_at_def
proof (intro allI impI)
  fix p :: parser assume p: "cursor p < length ts" "expressionDepth p = d"
  obtain l q where l: "f p = Some (l, q)" "onward ts p q" "told p l q"
    using total_atD [OF assms(1) p] by (auto simp: lands_def)
  show "lands ts p (told p) (do { (l, p) \<leftarrow> f p; case l of None \<Rightarrow> Some (None, p) | Some e \<Rightarrow> g e p })"
  proof (cases l)
    case (Some e)
    obtain r q2 where r: "g e q = Some (r, q2)" "onward ts q q2" "r \<noteq> None"
      using assms(2) [of q e] onward_in [OF l(2)] p(2) by (auto simp: lands_def)
    then have "told p r q2" using l(3) Some by (auto simp: told_def onward_def)
    then show ?thesis using l Some r onward_trans [OF l(2) r(2)] by (auto intro: lands_Some)
  qed (use l in \<open>auto simp: told_def intro: lands_Some\<close>)
qed

lemma parseAttributeAccess_lands:
  assumes "stream ts" "total_at ts d pe"
  shows "total_at ts d (parseAttributeAccess ts pe)"
  using total_then [OF parsePrimary_lands [OF assms] attribute_loop_lands] assms(1)
  by (simp add: parseAttributeAccess_def [abs_def] stream_def)

text \<open>A prefix operator before a total parser.\<close>

lemma prefix_lands:
  assumes "ends_in_eof ts" "cursor p < length ts" "tok_kind (ts ! cursor p) \<noteq> TkEof"
    and "lands ts (p\<lparr>cursor := Suc (cursor p)\<rparr>) (told (p\<lparr>cursor := Suc (cursor p)\<rparr>)) (f (p\<lparr>cursor := Suc (cursor p)\<rparr>))"
  shows "lands ts p (told p) (do {
    (op, p) \<leftarrow> take_token ts p;
    (operand, p) \<leftarrow> f p;
    case operand of
      None \<Rightarrow> Some (None, complain (tok_location op) message p)
    | Some e \<Rightarrow> Some (Some (g op e), p) })"
proof -
  let ?q = "p\<lparr>cursor := Suc (cursor p)\<rparr>"
  have q: "onward ts p ?q" by (rule onward_token [OF assms(1-3)])
  obtain r q2 where r: "f ?q = Some (r, q2)" "onward ts ?q q2" "told ?q r q2" using assms(4) by (auto simp: lands_def)
  have q2: "onward ts p q2" "told p r q2" using onward_trans [OF q r(2)] told_from [OF q r(3)] by simp_all
  show ?thesis
  proof (cases r)
    case None
    have c: "onward ts q2 (complain location message q2)" for location by (rule onward_complain [OF onward_in(1) [OF q2(1)]])
    show ?thesis
      using None r(1) assms(1-3) onward_trans [OF q2(1) c] told_later [OF q2(2) c]
      by (auto simp: take_lands told_def intro!: lands_Some)
  next
    case (Some e)
    then show ?thesis using r(1) q2 assms(1-3) by (auto simp: take_lands told_def intro!: lands_Some)
  qed
qed

text \<open>As \<open>total_at\<close>, with a bound on the tokens that are left.\<close>

definition total_within :: "Token list \<Rightarrow> nat \<Rightarrow> nat \<Rightarrow> 'a option parse \<Rightarrow> bool" where
  "total_within ts d n f \<longleftrightarrow>
     (\<forall>p. cursor p < length ts \<longrightarrow> expressionDepth p = d \<longrightarrow> tokens_left ts p < n \<longrightarrow> lands ts p (told p) (f p))"

lemma total_within_at: "total_at ts d f \<longleftrightarrow> total_within ts d (Suc (length ts)) f"
  by (auto simp: total_at_def total_within_def tokens_left_def)

lemma inversion_on_lands:
  assumes "ends_in_eof ts" "total_within ts d n f"
  shows "total_within ts d n (inversion_on ts f)"
  unfolding total_within_def
proof (intro allI impI)
  fix p :: parser assume p: "cursor p < length ts" "expressionDepth p = d" "tokens_left ts p < n"
  show "lands ts p (told p) (inversion_on ts f p)"
  proof (cases "check ts TkPlus p \<or> check ts TkMinus p")
    case True
    let ?q = "p\<lparr>cursor := Suc (cursor p)\<rparr>"
    have k: "tok_kind (ts ! cursor p) \<noteq> TkEof" using True p(1) by (auto simp: check_iff)
    have q: "onward ts p ?q" by (rule onward_token [OF assms(1) p(1) k])
    have f: "lands ts ?q (told ?q) (f ?q)"
      using assms(2) onward_in [OF q] p by (simp add: total_within_def tokens_left_def)
    from True show ?thesis unfolding inversion_on_def
      using prefix_lands [where f = f, OF assms(1) p(1) k f] by simp
  next
    case False
    then show ?thesis using assms(2) p by (simp add: inversion_on_def total_within_def)
  qed
qed

lemma exponential_within_lands:
  assumes "stream ts" "total_at ts d pe"
  shows "total_within ts d n (exponential_within n ts pe)"
proof (induction n)
  case (Suc n)
  have e: "ends_in_eof ts" using assms(1) by (simp add: stream_def)
  show ?case unfolding total_within_def
  proof (intro allI impI)
    fix p :: parser assume p: "cursor p < length ts" "expressionDepth p = d" "tokens_left ts p < Suc n"
    obtain l q where l: "parseAttributeAccess ts pe p = Some (l, q)" "onward ts p q" "told p l q"
      using total_atD [OF parseAttributeAccess_lands [OF assms] p(1,2)] by (auto simp: lands_def)
    show "lands ts p (told p) (exponential_within (Suc n) ts pe p)"
    proof (cases "l \<noteq> None \<and> check ts TkStarStar q")
      case True
      then obtain x where x: "l = Some x" by blast
      have k: "tok_kind (ts ! cursor q) \<noteq> TkEof" using True onward_in(1) [OF l(2)] by (simp add: check_iff)
      let ?r = "q\<lparr>cursor := Suc (cursor q)\<rparr>"
      have r: "onward ts q ?r" by (rule onward_token [OF e onward_in(1) [OF l(2)] k])
      have "cursor p < cursor q" using l(3) x by (simp add: told_def)
      then have left: "tokens_left ts ?r < n" using p(1,3) by (simp add: tokens_left_def)
      have "lands ts ?r (told ?r) (inversion_on ts (exponential_within n ts pe) ?r)"
        using inversion_on_lands [OF e Suc] onward_in [OF r] onward_in [OF l(2)] p(2) left by (simp add: total_within_def)
      then obtain y q2 where y: "inversion_on ts (exponential_within n ts pe) ?r = Some (y, q2)" "onward ts ?r q2"
        by (auto simp: lands_def)
      have q2: "onward ts p q2" "cursor p < cursor q2"
        using onward_trans [OF l(2) onward_trans [OF r y(2)]] y(2) \<open>cursor p < cursor q\<close> by (auto simp: onward_def)
      have c: "onward ts q2 (complain location message q2)" for location message by (rule onward_complain [OF onward_in(1) [OF q2(1)]])
      show ?thesis
        using x True l(1) y(1) q2 onward_in(1) [OF l(2)] k e onward_trans [OF q2(1) c]
        by (auto simp: take_lands told_def complain_def intro!: lands_Some split: option.splits)
    next
      case False
      then show ?thesis using l by (cases l) (auto intro: lands_Some simp: told_def)
    qed
  qed
qed (simp add: total_within_def)

lemma logical_not_lands:
  assumes "ends_in_eof ts" "total_at ts d (parseComparison ts pe)"
  shows "total_at ts d (parseLogicalNot ts pe)"
proof -
  have "lands ts p (told p) (parseLogicalNot ts pe p)" if "cursor p < length ts" "expressionDepth p = d" for p
    using that
  proof (induction "tokens_left ts p" arbitrary: p rule: less_induct)
    case less
    show ?case
    proof (cases "check ts TkBang p")
      case True
      let ?q = "p\<lparr>cursor := Suc (cursor p)\<rparr>"
      have k: "tok_kind (ts ! cursor p) \<noteq> TkEof" using True less.prems(1) by (auto simp: check_iff)
      have q: "onward ts p ?q" by (rule onward_token [OF assms(1) less.prems(1) k])
      have "lands ts ?q (told ?q) (parseLogicalNot ts pe ?q)"
        using less.prems onward_in [OF q] by (intro less.hyps) (simp_all add: tokens_left_def)
      from prefix_lands [where f = "parseLogicalNot ts pe", OF assms(1) less.prems(1) k this] True show ?thesis
        by (subst parseLogicalNot.simps) simp
    next
      case False
      then show ?thesis using total_atD [OF assms(2) less.prems] by (subst parseLogicalNot.simps) simp
    qed
  qed
  then show ?thesis by (simp add: total_at_def)
qed

theorem parseLogical_lands:
  assumes "stream ts" "total_at ts d pe"
  shows "total_at ts d (parseLogical ts pe)"
proof -
  have e: "ends_in_eof ts" using assms(1) by (simp add: stream_def)
  have "total_at ts d (parseExponential ts pe)"
    using exponential_within_lands [OF assms] by (simp add: parseExponential_def total_within_at del: exponential_within.simps)
  then have "total_at ts d (parseInversion ts pe)"
    using inversion_on_lands [OF e] by (simp add: parseInversion_def total_within_at)
  then have "total_at ts d (parseMultiplicative ts pe)"
    using chain_level_lands [OF e] by (simp add: parseMultiplicative_def multiplicative_ops_def)
  then have "total_at ts d (parseAdditive ts pe)"
    using chain_level_lands [OF e] by (simp add: parseAdditive_def additive_ops_def)
  then have "total_at ts d (parseBitwise ts pe)"
    using chain_level_lands [OF e] by (simp add: parseBitwise_def bitwise_ops_def)
  then have "total_at ts d (parseComparison ts pe)"
    using chain_level_lands [OF e] by (simp add: parseComparison_def comparison_ops_def)
  then have "total_at ts d (parseLogicalNot ts pe)" by (rule logical_not_lands [OF e])
  then show ?thesis using chain_level_lands [OF e] by (simp add: parseLogical_def logical_ops_def)
qed

lemma expression_within_lands:
  assumes "stream ts"
  shows "d \<le> kMaxExpressionDepth \<Longrightarrow> kMaxExpressionDepth < d + k \<Longrightarrow> total_at ts d (expression_within k ts)"
proof (induction k arbitrary: d)
  case (Suc k)
  show ?case unfolding total_at_def
  proof (intro allI impI)
    fix p :: parser assume p: "cursor p < length ts" "expressionDepth p = d"
    show "lands ts p (told p) (expression_within (Suc k) ts p)"
    proof (cases "d < kMaxExpressionDepth")
      case True
      let ?p = "p\<lparr>expressionDepth := expressionDepth p + 1\<rparr>"
      have "total_at ts (Suc d) (parseLogical ts (expression_within k ts))"
        using Suc True by (intro parseLogical_lands [OF assms]) simp
      then have "lands ts ?p (told ?p) (parseLogical ts (expression_within k ts) ?p)"
        using p by (intro total_atD) simp_all
      then obtain r q where r: "parseLogical ts (expression_within k ts) ?p = Some (r, q)" "onward ts ?p q" "told ?p r q"
        by (auto simp: lands_def)
      let ?q = "q\<lparr>expressionDepth := expressionDepth q - 1\<rparr>"
      have "onward ts p ?q" using r(2) by (simp add: onward_def)
      moreover have "told p r ?q" using r(3) by (cases r) (simp_all add: told_def)
      ultimately show ?thesis using True p(2) r(1) by (simp add: lands_Some)
    next
      case False
      then show ?thesis
        using p onward_complain [OF p(1)] reported_complain [of p p]
        by (auto simp: complain_here_def current_lands told_def intro!: lands_Some)
    qed
  qed
qed simp

theorem parseExpression_lands: "stream ts \<Longrightarrow> total_at ts 0 (parseExpression ts)"
  unfolding parseExpression_def by (rule expression_within_lands) simp_all

subsection \<open>Statements\<close>

lemma parse_type_lands:
  assumes "stream ts" "cursor p < length ts" "expressionDepth p = 0"
  shows "lands ts p (\<lambda>r q. progress p r q \<and> (r = None \<longrightarrow> cursor q = cursor p)) (parseTypeExpr ts (parseExpression ts) False p)"
  using parseTypeExpr_lands [of ts p "parseExpression ts"] parseExpression_lands [OF assms(1)] assms by (simp add: stream_def)

lemma previous_after: "onward ts p q \<Longrightarrow> cursor p < cursor q \<Longrightarrow> previous ts q = Some (ts ! (cursor q - 1))"
  by (auto simp: previous_def onward_def)

lemma refuse_after:
  assumes "onward ts p q"
  shows "lands ts p (told p) (refuse ts message q)"
proof -
  have "lands ts q (told p) (refuse ts message q)"
    using told_from [OF assms] by (rule lands_mono [OF refuse_lands [OF onward_in(1) [OF assms]]])
  then show ?thesis by (rule lands_from [OF assms])
qed

lemma directive_expression_lands:
  assumes "stream ts" "onward ts p q" "cursor p < cursor q" "expressionDepth p = 0"
  shows "lands ts p (told p) (directive_expression ts location nameTok q)"
proof -
  have l: "cursor q < length ts" "expressionDepth q = 0" using onward_in [OF assms(2)] assms(4) by simp_all
  obtain e q2 where e: "parseExpression ts q = Some (e, q2)" "onward ts q q2"
    using total_atD [OF parseExpression_lands [OF assms(1)] l] by (auto simp: lands_def)
  have q2: "onward ts p q2" "cursor p < cursor q2" using onward_trans [OF assms(2) e(2)] e(2) assms(3) by (auto simp: onward_def)
  show ?thesis
    using e(1) q2 assms(2,3) l refuse_after [OF assms(2)]
    by (auto simp: directive_expression_def Let_def current_lands told_def intro!: lands_Some)
qed

lemma parseDirective_lands:
  assumes "stream ts" "cursor p < length ts" "expressionDepth p = 0"
  shows "lands ts p (told p) (parseDirective ts p)"
proof -
  have e: "ends_in_eof ts" using assms(1) by (simp add: stream_def)
  show ?thesis
  proof (cases "check ts TkAt p")
    case True
    then have k: "tok_kind (ts ! cursor p) \<noteq> TkEof" using assms(2) by (simp add: check_iff)
    let ?q = "p\<lparr>cursor := Suc (cursor p)\<rparr>"
    have q: "onward ts p ?q" by (rule onward_token [OF e assms(2) k])
    have l: "cursor ?q < length ts" by (rule onward_in(1) [OF q])
    have name: "lands ts p (told p) (do { (nameTok, p) \<leftarrow> take_token ts ?q; directive_expression ts location nameTok p })"
      if "tok_kind (ts ! cursor ?q) \<noteq> TkEof" for location
    proof -
      have r: "onward ts ?q (p\<lparr>cursor := Suc (Suc (cursor p))\<rparr>)" using onward_token [OF e l that] by simp
      show ?thesis using directive_expression_lands [OF assms(1) onward_trans [OF q r]] take_lands [OF e l that] assms(3) by simp
    qed
    show ?thesis
      using True k e assms(2) l refuse_after [OF q] name previous_after [OF q]
      by (auto simp: parseDirective_def expect_def take_lands current_lands check_iff)
  next
    case False
    then show ?thesis using assms(2) onward_complain [OF assms(2)] reported_complain [of p p]
      by (auto simp: parseDirective_def expect_def current_lands complain_here_def told_def intro!: lands_Some)
  qed
qed

lemma parse_named_lands:
  assumes "stream ts" "onward ts p q" "cursor p < cursor q" "expressionDepth p = 0" "check ts TkIdentifier q"
  shows "lands ts p (told p) (parse_named ts type q)"
proof -
  have e: "ends_in_eof ts" using assms(1) by (simp add: stream_def)
  have l: "cursor q < length ts" by (rule onward_in(1) [OF assms(2)])
  have k: "tok_kind (ts ! cursor q) \<noteq> TkEof" using assms(5) l by (simp add: check_iff)
  let ?r = "q\<lparr>cursor := Suc (cursor q)\<rparr>"
  have r: "onward ts q ?r" by (rule onward_token [OF e l k])
  obtain b s where b: "match ts TkEqual ?r = Some (b, s)" "onward ts ?r s"
    using match_lands [OF e onward_in(1) [OF r], of TkEqual] by (auto simp: lands_def)
  have s: "onward ts p s" "cursor p < cursor s" "expressionDepth s = 0"
    using onward_trans [OF assms(2) onward_trans [OF r b(2)]] b(2) assms(3,4) by (auto simp: onward_def)
  obtain v s2 where v: "parseExpression ts s = Some (v, s2)" "onward ts s s2"
    using total_atD [OF parseExpression_lands [OF assms(1)] onward_in(1) [OF s(1)] s(3)] by (auto simp: lands_def)
  have s2: "onward ts p s2" "cursor p < cursor s2" using onward_trans [OF s(1) v(2)] v(2) s(2) by (auto simp: onward_def)
  show ?thesis
    using b(1) v(1) s s2 k e l refuse_after [OF assms(2)] refuse_after [OF s2(1)] previous_after [OF assms(2,3)]
    by (auto simp: parse_named_def current_lands take_lands told_def intro!: lands_Some)
qed

lemma parseAttribute_lands:
  assumes "stream ts" "cursor p < length ts" "expressionDepth p = 0"
  shows "lands ts p (told p) (parseAttribute ts p)"
proof -
  obtain t q where t: "parseTypeExpr ts (parseExpression ts) False p = Some (t, q)" "onward ts p q" "progress p t q"
    using parse_type_lands [OF assms] by (auto simp: lands_def)
  have c: "onward ts p (complain location message q)" "reported (diagnostics_of p) (diagnostics_of (complain location message q))"
    for location message
    using onward_trans [OF t(2) onward_complain [OF onward_in(1) [OF t(2)]]] t(2) by (auto simp: onward_def intro: reported_complain)
  show ?thesis
    using t refuse_after [OF t(2)] parse_named_lands [OF assms(1) t(2) _ assms(3)] c
    by (auto simp: parseAttribute_def progress_def told_def intro!: lands_Some split: option.splits)
qed

lemma parseStatement_lands:
  assumes "stream ts" "cursor p < length ts" "expressionDepth p = 0"
  shows "lands ts p (told p) (parseStatement ts p)"
proof -
  have e: "ends_in_eof ts" using assms(1) by (simp add: stream_def)
  consider (directive) "check ts TkAt p" | (marker) "check ts TkServiceResponseMarker p" "\<not> check ts TkAt p"
    | (attr) "\<not> check ts TkServiceResponseMarker p" "\<not> check ts TkAt p" by blast
  then show ?thesis
  proof cases
    case directive
    obtain r q where "parseDirective ts p = Some (r, q)" "onward ts p q" "told p r q"
      using parseDirective_lands [OF assms] by (auto simp: lands_def)
    then show ?thesis using directive by (cases r) (auto simp: parseStatement_def told_def intro!: lands_Some)
  next
    case marker
    then have k: "tok_kind (ts ! cursor p) \<noteq> TkEof" using assms(2) by (simp add: check_iff)
    show ?thesis using marker k e assms(2) onward_token [OF e assms(2) k]
      by (auto simp: parseStatement_def take_lands told_def intro!: lands_Some)
  next
    case attr
    then show ?thesis using parseAttribute_lands [OF assms] by (simp add: parseStatement_def)
  qed
qed

subsection \<open>Lines and definitions\<close>

lemma sync_line_lands:
  assumes "ends_in_eof ts"
  shows "cursor p < length ts \<Longrightarrow> \<exists>q. sync_line ts p = Some q \<and> onward ts p q \<and>
    (\<not> at_end ts p \<and> \<not> check ts TkNewline p \<longrightarrow> cursor p < cursor q)"
proof (induction "tokens_left ts p" arbitrary: p rule: less_induct)
  case less
  show ?case
  proof (cases "at_end ts p \<or> check ts TkNewline p")
    case True
    then show ?thesis using less.prems by (subst sync_line.simps) (auto simp: onward_refl)
  next
    case False
    then have k: "tok_kind (ts ! cursor p) \<noteq> TkEof" using less.prems by (simp add: at_end_def check_iff)
    let ?q = "p\<lparr>cursor := Suc (cursor p)\<rparr>"
    have q: "onward ts p ?q" by (rule onward_token [OF assms less.prems k])
    have t: "tokens_left ts ?q < tokens_left ts p" using less.prems by (simp add: tokens_left_def)
    obtain r where r: "sync_line ts ?q = Some r" "onward ts ?q r"
      using less.hyps [OF t onward_in(1) [OF q]] by blast
    then show ?thesis using False k assms less.prems onward_trans [OF q r(2)]
      by (subst sync_line.simps) (auto simp: take_lands onward_def)
  qed
qed

lemma sync_blank_lands:
  assumes "ends_in_eof ts"
  shows "cursor p < length ts \<Longrightarrow> \<exists>q. sync_blank ts p = Some q \<and> onward ts p q"
proof (induction "tokens_left ts p" arbitrary: p rule: less_induct)
  case less
  show ?case
  proof (cases "check ts TkNewline p \<or> check ts TkComment p")
    case True
    then have k: "tok_kind (ts ! cursor p) \<noteq> TkEof" using less.prems by (auto simp: check_iff)
    let ?q = "p\<lparr>cursor := Suc (cursor p)\<rparr>"
    have q: "onward ts p ?q" by (rule onward_token [OF assms less.prems k])
    have t: "tokens_left ts ?q < tokens_left ts p" using less.prems by (simp add: tokens_left_def)
    obtain r where r: "sync_blank ts ?q = Some r" "onward ts ?q r"
      using less.hyps [OF t onward_in(1) [OF q]] by blast
    then show ?thesis using True k assms less.prems onward_trans [OF q r(2)]
      by (subst sync_blank.simps) (auto simp: take_lands)
  next
    case False
    then show ?thesis using less.prems by (subst sync_blank.simps) (auto simp: onward_refl)
  qed
qed

lemma sync_lands:
  assumes "ends_in_eof ts" "cursor p < length ts"
  obtains q where "syncToNextLine ts p = Some q" "onward ts p q"
    "\<not> at_end ts p \<Longrightarrow> \<not> check ts TkNewline p \<Longrightarrow> cursor p < cursor q"
proof -
  obtain q where q: "sync_line ts p = Some q" "onward ts p q" "\<not> at_end ts p \<and> \<not> check ts TkNewline p \<longrightarrow> cursor p < cursor q"
    using sync_line_lands [OF assms] by blast
  obtain r where r: "sync_blank ts q = Some r" "onward ts q r" using sync_blank_lands [OF assms(1) onward_in(1) [OF q(2)]] by blast
  show thesis using that [of r] q r onward_trans [OF q(2) r(2)] by (auto simp: syncToNextLine_def onward_def)
qed

lemma trivia_lands:
  assumes "ends_in_eof ts"
  shows "cursor p < length ts \<Longrightarrow>
    lands ts p (\<lambda>r q. \<not> check ts TkNewline q \<and> \<not> check ts TkComment q) (collectDocTrivia ts out p)"
proof (induction "tokens_left ts p" arbitrary: p out rule: less_induct)
  case less
  show ?case
  proof (cases "check ts TkNewline p \<or> check ts TkComment p")
    case True
    then have k: "tok_kind (ts ! cursor p) \<noteq> TkEof" using less.prems by (auto simp: check_iff)
    let ?q = "p\<lparr>cursor := Suc (cursor p)\<rparr>"
    have q: "onward ts p ?q" by (rule onward_token [OF assms less.prems k])
    have "lands ts p (\<lambda>r q. \<not> check ts TkNewline q \<and> \<not> check ts TkComment q) (collectDocTrivia ts out' ?q)" for out'
      using lands_from [OF q less.hyps] onward_in(1) [OF q] less.prems by (simp add: tokens_left_def)
    then show ?thesis using True k assms less.prems by (subst collectDocTrivia.simps) (auto simp: take_lands)
  next
    case False
    then show ?thesis using less.prems by (subst collectDocTrivia.simps) (auto intro: lands_Some onward_refl)
  qed
qed

lemma trailing_lands:
  assumes "ends_in_eof ts" "cursor p < length ts"
  shows "lands ts p returns (collectTrailingDoc ts line p)"
  using assms onward_token [OF assms] onward_refl [OF assms(2)]
  by (auto simp: collectTrailingDoc_def current_lands take_lands intro!: lands_Some)

text \<open>A turn of the loop consumes a token or ends the loop.\<close>

lemma parse_line_lands:
  assumes "stream ts" "cursor p < length ts" "expressionDepth p = 0"
  shows "lands ts p (\<lambda>(d, more) q. more \<longrightarrow> cursor p < cursor q) (parse_line ts d p)"
proof -
  have e: "ends_in_eof ts" using assms(1) by (simp add: stream_def)
  obtain leading q where q: "collectDocTrivia ts no_trivia p = Some (leading, q)" "onward ts p q"
      "\<not> check ts TkNewline q" "\<not> check ts TkComment q"
    using trivia_lands [OF e assms(2), of no_trivia] by (auto simp: lands_def)
  obtain leading' d' where d': "place_leading leading d = (leading', d')" by force
  have l: "cursor q < length ts" "expressionDepth q = 0" using onward_in [OF q(2)] assms(3) by simp_all
  show ?thesis
  proof (cases "at_end ts q")
    case True
    then show ?thesis using q d' by (auto simp: parse_line_def intro!: lands_Some)
  next
    case more: False
    let ?c = "complain (tok_location (ts ! cursor q)) ''a statement must begin at the start of the line'' q"
    obtain q1 where q1: "syncToNextLine ts ?c = Some q1" "onward ts ?c q1" "cursor q < cursor q1"
    proof (rule sync_lands [OF e, of ?c])
      show "cursor ?c < length ts" using l(1) by (simp add: complain_def)
    qed (use q(3) more in \<open>simp_all add: complain_def check_def current_def at_end_def\<close>)
    obtain stmt q2 where s: "parseStatement ts q = Some (stmt, q2)" "onward ts q q2" "told q stmt q2"
      using parseStatement_lands [OF assms(1) l] by (auto simp: lands_def)
    obtain q3 where q3: "syncToNextLine ts q2 = Some q3" "onward ts q2 q3" "cursor q < cursor q3"
    proof (rule sync_lands [OF e onward_in(1) [OF s(2)]])
      fix r assume r: "syncToNextLine ts q2 = Some r" "onward ts q2 r"
        "\<not> at_end ts q2 \<Longrightarrow> \<not> check ts TkNewline q2 \<Longrightarrow> cursor q2 < cursor r"
      have "cursor q < cursor r"
      proof (cases "cursor q2 = cursor q")
        case True
        then have "\<not> at_end ts q2" "\<not> check ts TkNewline q2" using more q(3) by (simp_all add: at_end_def check_def current_def)
        then show ?thesis using r(3) True by simp
      qed (use s(2) r(2) in \<open>auto simp: onward_def\<close>)
      then show thesis using r that by blast
    qed
    obtain doc q4 where q4: "collectTrailingDoc ts (statementLine (the stmt)) q2 = Some (doc, q4)" "onward ts q2 q4"
      using trailing_lands [OF e onward_in(1) [OF s(2)], of "statementLine (the stmt)"] by (auto simp: lands_def)
    have l4: "cursor q4 < length ts" by (rule onward_in(1) [OF q4(2)])
    let ?c4 = "complain (tok_location (ts ! cursor q4)) ''expected end of line after statement'' q4"
    obtain q5 where q5: "syncToNextLine ts ?c4 = Some q5" "onward ts ?c4 q5"
      using sync_lands [OF e onward_in(1) [OF onward_complain [OF l4]]] by blast
    have o1: "onward ts p q1" using onward_trans [OF q(2) onward_trans [OF onward_complain [OF l(1)] q1(2)]] .
    have o3: "onward ts p q3" using onward_trans [OF q(2) onward_trans [OF s(2) q3(2)]] .
    have o4: "onward ts p q4" using onward_trans [OF q(2) onward_trans [OF s(2) q4(2)]] .
    have o5: "onward ts p q5" using onward_trans [OF o4 onward_trans [OF onward_complain [OF l4] q5(2)]] .
    have c: "cursor p \<le> cursor q" using q(2) by (simp add: onward_def)
    have c4: "cursor q < cursor q4" "cursor q4 \<le> cursor q5" if "stmt \<noteq> None"
      using that s(3) q4(2) q5(2) by (auto simp: told_def onward_def complain_def)
    show ?thesis
      using q(1) d' more l(1) q1 s(1) q3 q4(1) q5(1) o1 o3 o4 o5 c c4 l4
      by (auto simp: parse_line_def current_lands complain_here_def Let_def intro!: lands_Some split: option.splits)
  qed
qed

lemma parse_lines_lands:
  assumes "stream ts"
  shows "cursor p < length ts \<Longrightarrow> expressionDepth p = 0 \<Longrightarrow> tokens_left ts p < n \<Longrightarrow> lands ts p returns (parse_lines n ts d p)"
proof (induction n arbitrary: p d)
  case (Suc n)
  show ?case
  proof (cases "at_end ts p")
    case True
    then show ?thesis using Suc.prems by (auto intro: lands_Some onward_refl)
  next
    case False
    obtain d' more q where q: "parse_line ts d p = Some ((d', more), q)" "onward ts p q" "more \<longrightarrow> cursor p < cursor q"
      using parse_line_lands [OF assms Suc.prems(1,2), of d] by (auto simp: lands_def)
    have "lands ts q returns (parse_lines n ts d' q)" if more
      using that q onward_in [OF q(2)] Suc.prems by (intro Suc.IH) (auto simp: tokens_left_def)
    then show ?thesis using False q lands_from [OF q(2)] by (auto intro: lands_Some)
  qed
qed simp

theorem parseDefinition_lands:
  assumes "stream ts"
  obtains d ds' where "parseDefinition file ts ds = Some (if hasErrors ds' then None else Some d, ds')"
    "ds' = ds \<or> reported ds ds'"
proof -
  let ?p = "\<lparr>cursor = 0, expressionDepth = 0, diagnostics_of = ds\<rparr>"
  let ?d = "\<lparr>def_location = \<lparr>loc_file = file, loc_line = 1, loc_column = 1\<rparr>, def_doc = [], statements = []\<rparr>"
  have "0 < length ts" using assms by (auto simp: stream_def ends_in_eof_def)
  then obtain d q where "parse_lines (Suc (length ts)) ts ?d ?p = Some (d, q)" "onward ts ?p q"
    using parse_lines_lands [OF assms, of ?p "Suc (length ts)" ?d] by (auto simp: lands_def tokens_left_def simp del: parse_lines.simps)
  then show thesis using that [of "diagnostics_of q" d] by (auto simp: parseDefinition_def onward_def simp del: parse_lines.simps)
qed

corollary parseDefinition_appends:
  assumes "stream ts"
  shows "\<exists>d new. parseDefinition file ts ds = Some (if hasErrors (ds @ new) then None else Some d, ds @ new) \<and>
    list_all (\<lambda>x. diag_level x = LevelError) new"
proof -
  obtain d ds' where r: "parseDefinition file ts ds = Some (if hasErrors ds' then None else Some d, ds')" "ds' = ds \<or> reported ds ds'"
    by (rule parseDefinition_lands [OF assms])
  then obtain new where n: "ds' = ds @ new" "list_all (\<lambda>x. diag_level x = LevelError) new"
    by (cases "ds' = ds") (auto simp: reported_def)
  show ?thesis using r(1) n(2) unfolding n(1) by (intro exI conjI)
qed

text \<open>What the lexer returns is such a stream.\<close>

lemma tokenizes_no_eof: "tokenizes f prev pre s ts es \<Longrightarrow> t \<in> set ts \<Longrightarrow> tok_kind t \<noteq> TkEof"
proof (induction rule: tokenizes.induct)
  case (next_piece prev pre w r ts1 es1 ts es)
  have "tok_kind t \<noteq> TkEof" if "t \<in> set ts1"
    using next_piece.hyps(1) that by cases (auto simp: tok_at_def dest: spells_kind)
  then show ?case using next_piece by auto
qed simp

lemma lex_ends_in_eof: "ends_in_eof (fst (lex (Lexer_init f s)))"
proof -
  obtain ts es where "tokenizes f [] [] s ts es" "fst (lex (Lexer_init f s)) = ts @ [tok_at f s TkEof []]"
    using lex_tokenizes [of f s] by auto
  then show ?thesis using tokenizes_no_eof by (auto simp: ends_in_eof_def tok_at_def)
qed

end
