(* ===== verification/ParserGrammar.thy ===== *)
theory ParserGrammar
  imports ParserTotal
begin

text \<open>
  The expression grammar of the DSDL specification, which the comments of \<^verbatim>\<open>lib/Frontend/Parser.cpp\<close>
  cite production by production, as an inductive relation between token lists and trees, and the
  theorem that the parser returns exactly the tree of a derivation, reports nothing and stops behind
  it. The relation fixes precedence and associativity: an operator level is a first operand and a tail
  of operators with operands of the next level, which associates to the left; a power has a single
  operator whose right side may again be one; \<^verbatim>\<open>!\<close> is the loosest and \<^verbatim>\<open>+\<close> and \<^verbatim>\<open>-\<close> bind between the
  multiplications and the powers. The first argument of the relation bounds the nesting of
  parentheses, sets and array capacities.
\<close>

subsection \<open>Levels\<close>

datatype level =
    Logical | LogicalNot | Comparison | Bitwise | Additive | Multiplicative | Inversion | Exponential | Attribute | Atom

fun operators :: "level \<Rightarrow> TokenKind list" where
  "operators Logical = [TkPipePipe, TkAmpAmp]"
| "operators Comparison = [TkEqualEqual, TkBangEqual, TkLessEqual, TkGreaterEqual, TkLess, TkGreater]"
| "operators Bitwise = [TkPipe, TkCaret, TkAmp]"
| "operators Additive = [TkPlus, TkMinus]"
| "operators Multiplicative = [TkStar, TkSlash, TkPercent]"
| "operators _ = []"

fun operand_level :: "level \<Rightarrow> level" where
  "operand_level Logical = LogicalNot"
| "operand_level Comparison = Bitwise"
| "operand_level Bitwise = Additive"
| "operand_level Additive = Multiplicative"
| "operand_level Multiplicative = Inversion"
| "operand_level L = L"

fun tightness :: "level \<Rightarrow> nat" where
  "tightness Logical = 0"
| "tightness LogicalNot = 1"
| "tightness Comparison = 2"
| "tightness Bitwise = 3"
| "tightness Additive = 4"
| "tightness Multiplicative = 5"
| "tightness Inversion = 6"
| "tightness Exponential = 7"
| "tightness Attribute = 8"
| "tightness Atom = 9"

text \<open>The kinds of token that may follow an expression of each level.\<close>

definition terminators :: "TokenKind set" where
  "terminators = {TkEof, TkNewline, TkComment, TkRParen, TkRBracket, TkRBrace, TkComma}"

function follow :: "level \<Rightarrow> TokenKind set" where
  "follow Logical = terminators"
| "follow LogicalNot = follow Logical \<union> set (operators Logical)"
| "follow Comparison = follow LogicalNot"
| "follow Bitwise = follow Comparison \<union> set (operators Comparison)"
| "follow Additive = follow Bitwise \<union> set (operators Bitwise)"
| "follow Multiplicative = follow Additive \<union> set (operators Additive)"
| "follow Inversion = follow Multiplicative \<union> set (operators Multiplicative)"
| "follow Exponential = follow Inversion"
| "follow Attribute = insert TkStarStar (follow Exponential)"
| "follow Atom = insert TkDot (follow Attribute)"
  by pat_completeness auto
termination by (relation "measure tightness") auto

subsection \<open>Atoms\<close>

definition fresh :: parser where
  "fresh = \<lparr>cursor = 0, expressionDepth = 0, diagnostics_of = []\<rparr>"

text \<open>Scalar types: a primitive, one with a cast, or a versioned name.\<close>

definition primitive_scalar :: "CastMode \<Rightarrow> Token \<Rightarrow> ScalarTypeAST option" where
  "primitive_scalar mode t = fst (primitive_type True mode t fresh)"

inductive scalar_tokens :: "Token list \<Rightarrow> ScalarTypeAST \<Rightarrow> bool" where
  plain: "tok_kind t = TkIdentifier \<Longrightarrow> primitive_type_name (tok_text t) \<Longrightarrow> primitive_scalar Saturated t = Some s \<Longrightarrow>
    scalar_tokens [t] s"
| cast: "tok_kind c = TkIdentifier \<Longrightarrow> tok_text c = ''saturated'' \<and> mode = Saturated \<or> tok_text c = ''truncated'' \<and> mode = Truncated \<Longrightarrow>
    tok_kind t = TkIdentifier \<Longrightarrow> numeric_type_name (tok_text t) \<Longrightarrow> primitive_scalar mode t = Some s \<Longrightarrow>
    scalar_tokens [c, t] s"

text \<open>The node of a literal of one or two tokens.\<close>

definition number_node :: "SourceLocation \<Rightarrow> rational \<Rightarrow> ExprAST" where
  "number_node location r = ExprAST location (ExprRational r)"

definition integer_value :: "string \<Rightarrow> rational option" where
  "integer_value text = Option.bind (parseIntegerLiteral text) (\<lambda>n. rational_of n 1)"

inductive literal :: "Token list \<Rightarrow> ExprAST \<Rightarrow> bool" where
  true: "tok_kind t = TkTrue \<Longrightarrow> literal [t] (ExprAST (tok_location t) (ExprBool True))"
| false: "tok_kind t = TkFalse \<Longrightarrow> literal [t] (ExprAST (tok_location t) (ExprBool False))"
| string: "tok_kind t = TkString \<Longrightarrow> literal [t] (ExprAST (tok_location t) (ExprString (tok_text t)))"
| real: "tok_kind t = TkReal \<Longrightarrow> parseRealLiteral (tok_text t) = Some (Some r) \<Longrightarrow> literal [t] (number_node (tok_location t) r)"
| integer: "tok_kind t = TkInteger \<Longrightarrow> integer_value (tok_text t) = Some r \<Longrightarrow> literal [t] (number_node (tok_location t) r)"
| leading: "tok_kind t = TkDot \<Longrightarrow> tok_kind u = TkInteger \<and> isDecimalIntegerLiteral (tok_text u) \<or> tok_kind u = TkReal \<Longrightarrow>
    tokensAdjacent t u \<Longrightarrow> parseRealLiteral (''.'' @ tok_text u) = Some (Some r) \<Longrightarrow>
    literal [t, u] (number_node (tok_location t) r)"
| trailing: "tok_kind t = TkInteger \<Longrightarrow> isDecimalIntegerLiteral (tok_text t) \<Longrightarrow> tok_kind u = TkDot \<Longrightarrow> tokensAdjacent t u \<Longrightarrow>
    parseRealLiteral (tok_text t @ ''.'') = Some (Some r) \<Longrightarrow> literal [t, u] (number_node (tok_location t) r)"

text \<open>The names after an atom. An integer with a point right behind it would be a real.\<close>

inductive attributes :: "Token list \<Rightarrow> ExprAST \<Rightarrow> ExprAST \<Rightarrow> bool" where
  no_attribute: "attributes [] e e"
| attribute: "tok_kind t = TkDot \<Longrightarrow> tok_kind i = TkIdentifier \<Longrightarrow>
    attributes w (makeBinaryNode BinAttribute a (ExprAST (tok_location i) (ExprIdentifier (tok_text i))) (tok_location t)) e \<Longrightarrow>
    attributes (t # i # w) a e"

definition separate :: "Token list \<Rightarrow> Token list \<Rightarrow> bool" where
  "separate w v \<longleftrightarrow> v = [] \<or> tok_kind (last w) \<noteq> TkInteger \<or> \<not> isDecimalIntegerLiteral (tok_text (last w)) \<or>
     \<not> tokensAdjacent (last w) (hd v)"

definition bound_tokens :: "Token list \<Rightarrow> ArrayKind \<Rightarrow> bool" where
  "bound_tokens w k \<longleftrightarrow>
     (w = [] \<and> k = ArrFixed) \<or> (\<exists>t. w = [t] \<and> tok_kind t = TkLess \<and> k = ArrVariableExclusive) \<or>
     (\<exists>t. w = [t] \<and> tok_kind t = TkLessEqual \<and> k = ArrVariableInclusive)"

subsection \<open>The grammar\<close>

inductive derives :: "nat \<Rightarrow> level \<Rightarrow> Token list \<Rightarrow> ExprAST \<Rightarrow> bool"
  and operands :: "nat \<Rightarrow> level \<Rightarrow> Token list \<Rightarrow> ExprAST \<Rightarrow> ExprAST \<Rightarrow> bool"
  and elements :: "nat \<Rightarrow> Token list \<Rightarrow> ExprAST list \<Rightarrow> bool" where
  chain: "operators L \<noteq> [] \<Longrightarrow> derives d (operand_level L) w a \<Longrightarrow> operands d L v a e \<Longrightarrow> derives d L (w @ v) e"
| no_operand: "operands d L [] e e"
| operand: "tok_kind t \<in> set (operators L) \<Longrightarrow> toBinaryOp (tok_kind t) = Some b \<Longrightarrow> derives d (operand_level L) w r \<Longrightarrow>
    operands d L v (makeBinaryNode b a r (tok_location t)) e \<Longrightarrow> operands d L (t # w @ v) a e"
| not_negated: "derives d Comparison w e \<Longrightarrow> derives d LogicalNot w e"
| negated: "tok_kind t = TkBang \<Longrightarrow> derives d LogicalNot w e \<Longrightarrow>
    derives d LogicalNot (t # w) (makeUnaryNode UnLogicalNot e (tok_location t))"
| unsigned: "derives d Exponential w e \<Longrightarrow> derives d Inversion w e"
| signed: "tok_kind t = TkPlus \<and> op = UnPlus \<or> tok_kind t = TkMinus \<and> op = UnMinus \<Longrightarrow> derives d Exponential w e \<Longrightarrow>
    derives d Inversion (t # w) (makeUnaryNode op e (tok_location t))"
| no_power: "derives d Attribute w e \<Longrightarrow> derives d Exponential w e"
| power: "derives d Attribute w a \<Longrightarrow> tok_kind t = TkStarStar \<Longrightarrow> derives d Inversion v b \<Longrightarrow>
    derives d Exponential (w @ t # v) (makeBinaryNode BinPow a b (tok_location t))"
| attributes: "derives d Atom w a \<Longrightarrow> attributes v a e \<Longrightarrow> separate w v \<Longrightarrow> derives d Attribute (w @ v) e"
| name: "tok_kind t = TkIdentifier \<Longrightarrow> \<not> primitive_type_name (tok_text t) \<Longrightarrow>
    attributes v (ExprAST (tok_location t) (ExprIdentifier (tok_text t))) e \<Longrightarrow> derives d Attribute (t # v) e"
| literal: "literal w e \<Longrightarrow> derives d Atom w e"
| parenthesised: "tok_kind l = TkLParen \<Longrightarrow> derives d Logical w e \<Longrightarrow> tok_kind r = TkRParen \<Longrightarrow>
    derives (Suc d) Atom (l # w @ [r]) e"
| set_literal: "tok_kind l = TkLBrace \<Longrightarrow> elements d w es \<Longrightarrow> tok_kind r = TkRBrace \<Longrightarrow>
    derives (Suc d) Atom (l # w @ [r]) (ExprAST (tok_location l) (ExprSetLiteral es))"
| scalar_type: "scalar_tokens w s \<Longrightarrow>
    derives d Atom w (ExprAST (tok_location (hd w)) (ExprTypeLiteral (TypeExprAST (tok_location (hd w)) s ArrNone None)))"
| array_type: "scalar_tokens w s \<Longrightarrow> tok_kind l = TkLBracket \<Longrightarrow> bound_tokens b k \<Longrightarrow> derives d Logical v c \<Longrightarrow>
    tok_kind r = TkRBracket \<Longrightarrow>
    derives (Suc d) Atom (w @ l # b @ v @ [r])
      (ExprAST (tok_location (hd w)) (ExprTypeLiteral (TypeExprAST (tok_location (hd w)) s k (Some c))))"
| no_element: "elements d [] []"
| last_element: "derives d Logical w e \<Longrightarrow> elements d w [e]"
| element: "derives d Logical w e \<Longrightarrow> tok_kind t = TkComma \<Longrightarrow> elements d v (f # es) \<Longrightarrow> elements d (w @ t # v) (e # f # es)"

subsection \<open>Positions\<close>

definition ahead :: "Token list \<Rightarrow> parser \<Rightarrow> Token list" where
  "ahead ts p = drop (cursor p) ts"

definition skip_tokens :: "nat \<Rightarrow> parser \<Rightarrow> parser" where
  "skip_tokens n p = p\<lparr>cursor := cursor p + n\<rparr>"

lemma ahead_skip [simp]: "ahead ts (skip_tokens n p) = drop n (ahead ts p)"
  by (simp add: ahead_def skip_tokens_def add.commute)

lemma skip_skip [simp]: "skip_tokens m (skip_tokens n p) = skip_tokens (n + m) p"
  by (simp add: skip_tokens_def)

lemma skip_0 [simp]: "skip_tokens 0 p = p"
  by (simp add: skip_tokens_def)

lemma skip_fields [simp]: "expressionDepth (skip_tokens n p) = expressionDepth p" "diagnostics_of (skip_tokens n p) = diagnostics_of p"
  "cursor (skip_tokens n p) = cursor p + n"
  by (simp_all add: skip_tokens_def)

lemma current_ahead: "ahead ts p = t # r \<Longrightarrow> current ts p = Some t"
proof -
  assume a: "ahead ts p = t # r"
  then have "cursor p < length ts" by (metis ahead_def drop_eq_Nil leI list.distinct(1))
  then show ?thesis using a by (simp add: current_def ahead_def Cons_nth_drop_Suc [symmetric])
qed

lemma check_ahead: "ahead ts p = t # r \<Longrightarrow> check ts k p \<longleftrightarrow> tok_kind t = k"
  by (simp add: check_def current_ahead)

lemma take_ahead: "ahead ts p = t # r \<Longrightarrow> tok_kind t \<noteq> TkEof \<Longrightarrow> take_token ts p = Some (t, skip_tokens 1 p)"
  using take_token_Some [OF current_ahead] by (simp add: skip_tokens_def)

lemma match_ahead: "ahead ts p = t # r \<Longrightarrow> k \<noteq> TkEof \<Longrightarrow>
    match ts k p = Some (if tok_kind t = k then (True, skip_tokens 1 p) else (False, p))"
  by (auto simp: match_def check_ahead take_ahead)

lemma expect_ahead: "ahead ts p = t # r \<Longrightarrow> tok_kind t = k \<Longrightarrow> k \<noteq> TkEof \<Longrightarrow>
    expect ts k message p = Some (True, skip_tokens 1 p)"
  by (simp add: expect_def check_ahead take_ahead)

lemma kind_ahead: "kind_at ts (cursor p + n) = (if n < length (ahead ts p) then Some (tok_kind (ahead ts p ! n)) else None)"
  by (auto simp: kind_at_def ahead_def)

text \<open>\<open>parses ts c F f w e\<close>: at depth \<open>c\<close>, on the tokens \<open>w\<close> with a token of the kinds \<open>F\<close> behind
  them, \<open>f\<close> returns \<open>e\<close>, has consumed \<open>w\<close> and has changed nothing else.\<close>

definition parses :: "Token list \<Rightarrow> nat \<Rightarrow> TokenKind set \<Rightarrow> ExprAST option parse \<Rightarrow> Token list \<Rightarrow> ExprAST \<Rightarrow> bool" where
  "parses ts c F f w e \<longleftrightarrow>
     (\<forall>p t rest. ahead ts p = w @ t # rest \<longrightarrow> tok_kind t \<in> F \<longrightarrow> (tok_kind t = TkDot \<longrightarrow> separate w [t]) \<longrightarrow>
        expressionDepth p = c \<longrightarrow> f p = Some (Some e, skip_tokens (length w) p))"

lemma parsesD: "parses ts c F f w e \<Longrightarrow> ahead ts p = w @ t # rest \<Longrightarrow> tok_kind t \<in> F \<Longrightarrow>
    (tok_kind t = TkDot \<Longrightarrow> separate w [t]) \<Longrightarrow> expressionDepth p = c \<Longrightarrow> f p = Some (Some e, skip_tokens (length w) p)"
  unfolding parses_def by blast

lemma parsesI: "(\<And>p t rest. ahead ts p = w @ t # rest \<Longrightarrow> tok_kind t \<in> F \<Longrightarrow> (tok_kind t = TkDot \<Longrightarrow> separate w [t]) \<Longrightarrow>
    expressionDepth p = c \<Longrightarrow> f p = Some (Some e, skip_tokens (length w) p)) \<Longrightarrow> parses ts c F f w e"
  unfolding parses_def by blast

lemma no_dot: "L \<noteq> Atom \<Longrightarrow> TkDot \<notin> follow L"
  by (cases L) (auto simp: terminators_def)

lemma follow_no_dot: "k \<in> follow L \<Longrightarrow> L \<noteq> Atom \<Longrightarrow> k \<noteq> TkDot"
  using no_dot by auto

subsection \<open>Names and their attributes\<close>

lemma attributes_parse:
  "attributes v a e \<Longrightarrow> ahead ts p = v @ t # rest \<Longrightarrow> tok_kind t \<noteq> TkDot \<Longrightarrow>
    attribute_loop ts a p = Some (Some e, skip_tokens (length v) p)"
proof (induction arbitrary: p rule: attributes.induct)
  case (no_attribute e)
  then show ?case by (subst attribute_loop.simps) (simp add: check_ahead)
next
  case (attribute d i w a e)
  have p: "ahead ts p = d # i # w @ t # rest" using attribute.prems by simp
  have q: "ahead ts (skip_tokens 1 p) = i # w @ t # rest" using p by simp
  show ?case
    using attribute.hyps attribute.IH [of "skip_tokens (Suc (Suc 0)) p"] attribute.prems(2) p take_ahead [OF p] take_ahead [OF q]
      kind_ahead [of ts p 1]
    by (subst attribute_loop.simps) (simp add: check_ahead [OF p])
qed

lemma versioned_loop_names:
  "attributes v a e \<Longrightarrow> ahead ts p = v @ t # rest \<Longrightarrow> tok_kind t \<noteq> TkDot \<Longrightarrow>
    \<exists>n. versioned_loop ts True base lastTok names p = Some (None, skip_tokens n p)"
proof (induction arbitrary: p lastTok names rule: attributes.induct)
  case (no_attribute e)
  then show ?case by (subst versioned_loop.simps) (auto simp: check_ahead complain_unless_def intro: exI [of _ 0])
next
  case (attribute d i w a e)
  have p: "ahead ts p = d # i # w @ t # rest" using attribute.prems by simp
  have q: "ahead ts (skip_tokens 1 p) = i # w @ t # rest" using p by simp
  obtain n where n: "versioned_loop ts True base i (names @ [tok_text i]) (skip_tokens (Suc (Suc 0)) p) = Some (None, skip_tokens n (skip_tokens (Suc (Suc 0)) p))"
    using attribute.IH [of "skip_tokens (Suc (Suc 0)) p"] attribute.prems p by auto
  have k: "kind_at ts (cursor p + 1) = Some TkIdentifier" using kind_ahead [of ts p 1] p attribute.hyps(2) by simp
  have "\<exists>m. versioned_loop ts True base lastTok names p = Some (None, skip_tokens m p)"
    using attribute.hyps k n current_ahead [OF p] current_ahead [OF q] take_ahead [OF p] take_ahead [OF q]
    by (subst versioned_loop.simps)
      (auto simp: check_ahead [OF p] complain_unless_def intro: exI [of _ 0] exI [of _ 1] exI [of _ "Suc (Suc n)"])
  then show ?case .
qed

lemma not_cast_ahead:
  assumes "ahead ts p = t # u # rest" "tok_kind u \<noteq> TkIdentifier"
  shows "\<not> cast_ahead ts p"
  using assms kind_ahead [of ts p 1] by (simp add: cast_ahead_def)

lemma reset_skip: "(skip_tokens n p)\<lparr>cursor := cursor p\<rparr> = p"
  by (simp add: skip_tokens_def)

lemma name_is_no_type:
  assumes "attributes v a e" "ahead ts p = i # v @ t # rest" "tok_kind t \<notin> {TkDot, TkIdentifier}"
    and "tok_kind i = TkIdentifier" "\<not> primitive_type_name (tok_text i)"
  shows "parseTypeExpr ts pe True p = Some (None, p)"
proof -
  have u: "tok_kind (hd (v @ [t])) \<noteq> TkIdentifier" using assms(1,3) by cases auto
  then have c: "\<not> cast_ahead ts p" using assms(2) not_cast_ahead [of ts p i "hd (v @ [t])"]
    by (cases v) auto
  obtain n where n: "versioned_loop ts True i i [tok_text i] (skip_tokens 1 p) = Some (None, skip_tokens n (skip_tokens 1 p))"
    using versioned_loop_names [OF assms(1), of ts "skip_tokens 1 p" t rest i i "[tok_text i]"] assms(2,3) by auto
  have "scalar_type ts True p = Some (None, skip_tokens (1 + n) p)"
    using c n assms(4,5) current_ahead [OF assms(2)] take_ahead [OF assms(2)]
    by (simp add: scalar_type_def check_ahead [OF assms(2)] versioned_type_def)
  then show ?thesis using current_ahead [OF assms(2)] reset_skip by (simp add: parseTypeExpr_def)
qed

lemma name_parses:
  assumes "tok_kind i = TkIdentifier" "\<not> primitive_type_name (tok_text i)"
    and "attributes v (ExprAST (tok_location i) (ExprIdentifier (tok_text i))) e"
  shows "parses ts c (follow Attribute) (parseAttributeAccess ts pe) (i # v) e"
proof (rule parsesI)
  fix p t rest assume p: "ahead ts p = (i # v) @ t # rest" "tok_kind t \<in> follow Attribute"
  then have t: "tok_kind t \<notin> {TkDot, TkIdentifier}" by (auto simp: terminators_def)
  have a: "ahead ts p = i # v @ t # rest" using p by simp
  have "parse_identifier ts pe p = Some (Some (ExprAST (tok_location i) (ExprIdentifier (tok_text i))), skip_tokens 1 p)"
    using name_is_no_type [OF assms(3) a t assms(1,2)] take_ahead [OF a] assms(1) by (simp add: parse_identifier_def)
  then have "parsePrimary ts pe p = Some (Some (ExprAST (tok_location i) (ExprIdentifier (tok_text i))), skip_tokens 1 p)"
    using assms(1) by (simp add: parsePrimary_def current_ahead [OF a] leading_point_def check_ahead [OF a])
  then show "parseAttributeAccess ts pe p = Some (Some e, skip_tokens (length (i # v)) p)"
    using attributes_parse [OF assms(3), of ts "skip_tokens 1 p" t rest] a t by (simp add: parseAttributeAccess_def)
qed

subsection \<open>Literals and types\<close>

lemma nth_ahead: "n < length (ahead ts p) \<Longrightarrow> ts ! (cursor p + n) = ahead ts p ! n"
  by (simp add: ahead_def)

lemma here_ahead: "ahead ts p = t # r \<Longrightarrow> ts ! cursor p = t"
  using nth_ahead [of 0 ts p] by simp

lemma no_leading_point: "ahead ts p = t # r \<Longrightarrow> tok_kind t \<noteq> TkDot \<Longrightarrow> \<not> leading_point ts p"
  by (simp add: leading_point_def check_ahead)

lemma no_trailing_point:
  "ahead ts p = t # r \<Longrightarrow> (tok_kind t = TkDot \<Longrightarrow> separate [i] [t]) \<Longrightarrow> tok_kind i = TkInteger \<Longrightarrow> \<not> trailing_point ts i p"
  by (auto simp: trailing_point_def check_ahead here_ahead separate_def)

lemma literal_parses:
  assumes "literal w e"
  shows "parses ts c (follow Atom) (parsePrimary ts pe) w e"
proof (rule parsesI)
  fix p n rest assume p: "ahead ts p = w @ n # rest" and s: "tok_kind n = TkDot \<Longrightarrow> separate w [n]"
  from assms show "parsePrimary ts pe p = Some (Some e, skip_tokens (length w) p)"
  proof cases
    case (integer t r)
    have a: "ahead ts p = t # n # rest" using p integer by simp
    have b: "ahead ts (skip_tokens (Suc 0) p) = n # rest" using a by simp
    show ?thesis using integer s no_trailing_point [OF b, of t]
      by (auto simp: parsePrimary_def current_ahead [OF a] no_leading_point [OF a] take_ahead [OF a] parse_number_def
          literal_node_def integer_value_def number_node_def Option.bind_eq_Some_conv)
  next
    case (leading t u r)
    have a: "ahead ts p = t # u # n # rest" using p leading by simp
    have b: "ahead ts (skip_tokens (Suc 0) p) = u # n # rest" using a by simp
    have "leading_point ts p"
      using leading kind_ahead [of ts p 1] nth_ahead [of 1 ts p] here_ahead [OF a]
      by (auto simp: leading_point_def check_ahead [OF a] a)
    then show ?thesis using leading
      by (auto simp: parsePrimary_def current_ahead [OF a] take_ahead [OF a] take_ahead [OF b] literal_node_def number_node_def
          numeral_2_eq_2)
  next
    case (trailing t u r)
    have a: "ahead ts p = t # u # n # rest" using p trailing by simp
    have b: "ahead ts (skip_tokens (Suc 0) p) = u # n # rest" using a by simp
    have "trailing_point ts t (skip_tokens 1 p)"
      using trailing here_ahead [OF b] by (simp add: trailing_point_def check_ahead [OF b])
    then show ?thesis using trailing
      by (auto simp: parsePrimary_def current_ahead [OF a] no_leading_point [OF a] take_ahead [OF a] take_ahead [OF b]
          literal_node_def number_node_def numeral_2_eq_2 parse_number_def)
  qed (use p in \<open>auto simp: parsePrimary_def current_ahead no_leading_point take_ahead literal_node_def number_node_def\<close>)
qed

lemma primitive_type_silent: "primitive_type True mode t p = (primitive_scalar mode t, p)"
  by (simp add: primitive_scalar_def primitive_type_def sized_type_def parseBitLength_def validateBitLength_def
      complain_unless_def Let_def)

lemma scalar_tokens_parse:
  assumes "scalar_tokens w s" "ahead ts p = w @ t # rest" "tok_kind t \<noteq> TkIdentifier"
  shows "scalar_type ts True p = Some (Some s, skip_tokens (length w) p)"
  using assms(1)
proof cases
  case (plain i)
  have a: "ahead ts p = i # t # rest" using assms(2) plain by simp
  show ?thesis using plain not_cast_ahead [OF a assms(3)]
    by (simp add: scalar_type_def current_ahead [OF a] check_ahead [OF a] take_ahead [OF a] primitive_type_silent)
next
  case (cast i mode j)
  have a: "ahead ts p = i # j # t # rest" using assms(2) cast by simp
  have b: "ahead ts (skip_tokens (Suc 0) p) = j # t # rest" using a by simp
  have "cast_ahead ts p" using cast kind_ahead [of ts p 1] a
    by (auto simp: cast_ahead_def current_ahead [OF a] check_ahead [OF a])
  then show ?thesis using cast
    by (auto simp: scalar_type_def current_ahead [OF a] check_ahead [OF b] take_ahead [OF a] take_ahead [OF b]
        primitive_type_silent primitive_type_name_def numeral_2_eq_2)
qed

lemma scalar_tokens_first: "scalar_tokens w s \<Longrightarrow> w \<noteq> [] \<and> tok_kind (hd w) = TkIdentifier"
  by (auto elim: scalar_tokens.cases)

lemma type_atom_parses:
  assumes "scalar_tokens w s" "ahead ts p = w @ t # rest" "tok_kind t \<noteq> TkIdentifier"
    and "array_type ts pe (tok_location (hd w)) s (skip_tokens (length w) p) = Some (Some ty, q)"
    and "type_location ty = tok_location (hd w)"
  shows "parsePrimary ts pe p = Some (Some (ExprAST (tok_location (hd w)) (ExprTypeLiteral ty)), q)"
proof -
  obtain r where a: "ahead ts p = hd w # r" "tok_kind (hd w) = TkIdentifier"
    using scalar_tokens_first [OF assms(1)] assms(2) by (cases w) auto
  show ?thesis using assms(4,5) scalar_tokens_parse [OF assms(1-3)] a(2)
    by (simp add: parsePrimary_def current_ahead [OF a(1)] no_leading_point [OF a(1)] parse_identifier_def parseTypeExpr_def)
qed

lemma scalar_parses:
  assumes "scalar_tokens w s"
  shows "parses ts c (follow Atom) (parsePrimary ts pe) w
    (ExprAST (tok_location (hd w)) (ExprTypeLiteral (TypeExprAST (tok_location (hd w)) s ArrNone None)))"
proof (rule parsesI)
  fix p t rest assume p: "ahead ts p = w @ t # rest" "tok_kind t \<in> follow Atom"
  then have t: "tok_kind t \<noteq> TkIdentifier" "tok_kind t \<noteq> TkLBracket" by (auto simp: terminators_def)
  have b: "ahead ts (skip_tokens (length w) p) = t # rest" using p by simp
  show "parsePrimary ts pe p =
      Some (Some (ExprAST (tok_location (hd w)) (ExprTypeLiteral (TypeExprAST (tok_location (hd w)) s ArrNone None))),
        skip_tokens (length w) p)"
    by (rule type_atom_parses [OF assms p(1) t(1)]) (simp_all add: array_type_def match_ahead [OF b] t)
qed

lemma bound_parses:
  assumes "bound_tokens b k" "ahead ts p = b @ v @ r" "v @ r \<noteq> []" "tok_kind (hd (v @ r)) \<notin> {TkLess, TkLessEqual}"
  shows "array_bound ts p = Some (k, skip_tokens (length b) p)"
proof -
  obtain x y where x: "v @ r = x # y" using assms(3) by (cases "v @ r") auto
  then have "tok_kind x \<notin> {TkLess, TkLessEqual}" using assms(4) by simp
  then show ?thesis using assms(1,2) x by (auto simp: bound_tokens_def array_bound_def match_ahead)
qed

subsection \<open>First tokens\<close>

fun starters :: "level \<Rightarrow> TokenKind set" where
  "starters L = {TkDot, TkTrue, TkFalse, TkInteger, TkReal, TkString, TkLParen, TkLBrace, TkIdentifier} \<union>
     (if tightness L \<le> 6 then {TkPlus, TkMinus} else {}) \<union> (if tightness L \<le> 1 then {TkBang} else {})"

lemma operator_levels: "operators L \<noteq> [] \<longleftrightarrow> L \<in> {Logical, Comparison, Bitwise, Additive, Multiplicative}"
  by (cases L) auto

lemma literal_first: "literal w e \<Longrightarrow> w \<noteq> [] \<and> tok_kind (hd w) \<in> {TkDot, TkTrue, TkFalse, TkInteger, TkReal, TkString}"
  by (auto elim!: literal.cases)

lemma first_token:
  shows "derives d L w e \<Longrightarrow> w \<noteq> [] \<and> tok_kind (hd w) \<in> starters L"
    and "operands d L v a e \<Longrightarrow> True"
    and "elements d v es \<Longrightarrow> es \<noteq> [] \<longrightarrow> v \<noteq> [] \<and> tok_kind (hd v) \<in> starters Logical"
proof (induction rule: derives_operands_elements.inducts)
  case (chain L d w a v e)
  then show ?case by (auto simp: operator_levels split: if_splits)
next
  case (scalar_type w s d)
  then show ?case using scalar_tokens_first by fastforce
next
  case (array_type w s l b k d v c r)
  then show ?case using scalar_tokens_first by fastforce
next
  case (literal w e d)
  then show ?case using literal_first by fastforce
qed (auto split: if_splits)

subsection \<open>Operator levels\<close>

text \<open>The parser of a level; \<open>n\<close> bounds the signed exponents of a power.\<close>

fun level_parser :: "nat \<Rightarrow> Token list \<Rightarrow> ExprAST option parse \<Rightarrow> level \<Rightarrow> ExprAST option parse" where
  "level_parser n ts pe Logical = parseLogical ts pe"
| "level_parser n ts pe LogicalNot = parseLogicalNot ts pe"
| "level_parser n ts pe Comparison = parseComparison ts pe"
| "level_parser n ts pe Bitwise = parseBitwise ts pe"
| "level_parser n ts pe Additive = parseAdditive ts pe"
| "level_parser n ts pe Multiplicative = parseMultiplicative ts pe"
| "level_parser n ts pe Inversion = inversion_on ts (exponential_within n ts pe)"
| "level_parser n ts pe Exponential = exponential_within n ts pe"
| "level_parser n ts pe Attribute = parseAttributeAccess ts pe"
| "level_parser n ts pe Atom = parsePrimary ts pe"

lemma level_parser_chain:
  "operators L \<noteq> [] \<Longrightarrow> level_parser n ts pe L = chain_level ts (operators L) (level_parser (Suc (length ts)) ts pe (operand_level L))"
  by (cases L) (auto simp: parseLogical_def parseComparison_def parseBitwise_def parseAdditive_def parseMultiplicative_def
      logical_ops_def comparison_ops_def bitwise_ops_def additive_ops_def multiplicative_ops_def
      parseInversion_def parseExponential_def fun_eq_iff)

lemma follow_operand: "operators L \<noteq> [] \<Longrightarrow> follow (operand_level L) = follow L \<union> set (operators L)"
  by (cases L) auto

lemma follow_no_operator: "operators L \<noteq> [] \<Longrightarrow> k \<in> follow L \<Longrightarrow> k \<notin> set (operators L) \<and> k \<noteq> TkDot"
  by (cases L) (auto simp: terminators_def)

lemma operator_no_end: "k \<in> set (operators L) \<Longrightarrow> k \<noteq> TkEof \<and> k \<noteq> TkDot"
  by (cases L) auto

text \<open>What the induction shows of each part of the grammar, with \<open>k\<close> levels of nesting left.\<close>

definition level_parses :: "Token list \<Rightarrow> nat \<Rightarrow> nat \<Rightarrow> level \<Rightarrow> Token list \<Rightarrow> ExprAST \<Rightarrow> bool" where
  "level_parses ts k c L w e \<longleftrightarrow> (\<forall>n>length w. parses ts c (follow L) (level_parser n ts (expression_within k ts) L) w e)"

definition chain_parses :: "Token list \<Rightarrow> nat \<Rightarrow> nat \<Rightarrow> level \<Rightarrow> Token list \<Rightarrow> ExprAST \<Rightarrow> ExprAST \<Rightarrow> bool" where
  "chain_parses ts k c L v a e \<longleftrightarrow> (\<forall>n>length v. parses ts c (follow L)
     (chain_loop n ts (operators L) (level_parser (Suc (length ts)) ts (expression_within k ts) (operand_level L)) a) v e)"

lemma ahead_length: "ahead ts p = w @ r \<Longrightarrow> length w + length r \<le> length ts"
  by (metis ahead_def diff_le_self length_append length_drop)

lemma level_parsesD:
  assumes "level_parses ts k c L w e" "ahead ts p = w @ t # rest" "tok_kind t \<in> follow L"
    and "tok_kind t = TkDot \<Longrightarrow> separate w [t]" "expressionDepth p = c" "length w < n"
  shows "level_parser n ts (expression_within k ts) L p = Some (Some e, skip_tokens (length w) p)"
  using assms parsesD unfolding level_parses_def by blast

lemma level_parses_whole:
  assumes "level_parses ts k c L w e" "ahead ts p = w @ t # rest" "tok_kind t \<in> follow L"
    and "tok_kind t \<noteq> TkDot" "expressionDepth p = c"
  shows "level_parser (Suc (length ts)) ts (expression_within k ts) L p = Some (Some e, skip_tokens (length w) p)"
  using level_parsesD [OF assms(1-3) _ assms(5)] assms(4) ahead_length [OF assms(2)] by simp

lemma operand_parses:
  assumes "tok_kind t \<in> set (operators L)" "toBinaryOp (tok_kind t) = Some b"
    and "level_parses ts k c (operand_level L) w r" "chain_parses ts k c L v (makeBinaryNode b a r (tok_location t)) e"
    and v: "v = [] \<or> tok_kind (hd v) \<in> set (operators L)"
  shows "chain_parses ts k c L (t # w @ v) a e"
  unfolding chain_parses_def
proof (intro allI impI, rule parsesI)
  fix n p u rest
  assume n: "length (t # w @ v) < n" and p: "ahead ts p = (t # w @ v) @ u # rest" "tok_kind u \<in> follow L" "expressionDepth p = c"
  obtain m where m: "n = Suc m" "length v < m" using n by (cases n) auto
  have L: "operators L \<noteq> []" using assms(1) by auto
  have a: "ahead ts p = t # w @ v @ u # rest" using p by simp
  obtain y ys where y: "v @ u # rest = y # ys" "tok_kind y \<in> follow (operand_level L)" "tok_kind y \<noteq> TkDot"
    using v p(2) operator_no_end [of "tok_kind (hd v)" L] follow_no_operator [OF L p(2)] by (cases v) (auto simp: follow_operand [OF L])
  have "level_parser (Suc (length ts)) ts (expression_within k ts) (operand_level L) (skip_tokens 1 p) =
      Some (Some r, skip_tokens (length w) (skip_tokens 1 p))"
    using a y p(3) by (intro level_parses_whole [OF assms(3), where t = y and rest = ys]) auto
  moreover have "chain_loop m ts (operators L) (level_parser (Suc (length ts)) ts (expression_within k ts) (operand_level L))
      (makeBinaryNode b a r (tok_location t)) (skip_tokens (length w) (skip_tokens 1 p)) =
      Some (Some e, skip_tokens (length v) (skip_tokens (length w) (skip_tokens 1 p)))"
    using a p m(2) follow_no_operator [OF L p(2)]
    by (intro parsesD [OF assms(4) [unfolded chain_parses_def, rule_format], where t = u and rest = rest]) auto
  ultimately show "chain_loop n ts (operators L) (level_parser (Suc (length ts)) ts (expression_within k ts) (operand_level L)) a p =
      Some (Some e, skip_tokens (length (t # w @ v)) p)"
    using assms(1,2) m(1) current_ahead [OF a] take_ahead [OF a] operator_no_end [OF assms(1)] by (simp add: add.commute add.left_commute)
qed

lemma no_operand_parses: "operators L \<noteq> [] \<Longrightarrow> chain_parses ts k c L [] e e"
  unfolding chain_parses_def
proof (intro allI impI, rule parsesI)
  fix n p u rest
  assume "operators L \<noteq> []" "length [] < n" "ahead ts p = [] @ u # rest" "tok_kind u \<in> follow L"
  then show "chain_loop n ts (operators L) (level_parser (Suc (length ts)) ts (expression_within k ts) (operand_level L)) e p =
      Some (Some e, skip_tokens (length []) p)"
    using current_ahead [of ts p u rest] follow_no_operator [of L "tok_kind u"] by (cases n) auto
qed

lemma chain_level_parses:
  assumes L: "operators L \<noteq> []" and "level_parses ts k c (operand_level L) w a" "chain_parses ts k c L v a e"
    and v: "v = [] \<or> tok_kind (hd v) \<in> set (operators L)"
  shows "level_parses ts k c L (w @ v) e"
  unfolding level_parses_def
proof (intro allI impI, rule parsesI)
  fix n p u rest
  assume p: "ahead ts p = (w @ v) @ u # rest" "tok_kind u \<in> follow L" "expressionDepth p = c"
  have a: "ahead ts p = w @ v @ u # rest" using p by simp
  obtain y ys where y: "v @ u # rest = y # ys" "tok_kind y \<in> follow (operand_level L)" "tok_kind y \<noteq> TkDot"
    using v p(2) operator_no_end [of "tok_kind (hd v)" L] follow_no_operator [OF L p(2)] by (cases v) (auto simp: follow_operand [OF L])
  have "level_parser (Suc (length ts)) ts (expression_within k ts) (operand_level L) p = Some (Some a, skip_tokens (length w) p)"
    using a y p(3) by (intro level_parses_whole [OF assms(2), where t = y and rest = ys]) auto
  moreover have "chain_loop (Suc (length ts)) ts (operators L) (level_parser (Suc (length ts)) ts (expression_within k ts) (operand_level L))
      a (skip_tokens (length w) p) = Some (Some e, skip_tokens (length v) (skip_tokens (length w) p))"
    using a p ahead_length [OF p(1)] follow_no_operator [OF L p(2)]
    by (intro parsesD [OF assms(3) [unfolded chain_parses_def, rule_format], where t = u and rest = rest]) auto
  ultimately show "level_parser n ts (expression_within k ts) L p = Some (Some e, skip_tokens (length (w @ v)) p)"
    by (simp add: level_parser_chain [OF L] chain_level_def del: chain_loop.simps)
qed

lemma operands_first: "operands d L v a e \<Longrightarrow> v = [] \<or> tok_kind (hd v) \<in> set (operators L)"
  by (erule operands.cases) auto

subsection \<open>Unary operators and powers\<close>

lemma level_starters: "derives d L w e \<Longrightarrow> ahead ts p = w @ r \<Longrightarrow>
    \<exists>x y. ahead ts p = x # y \<and> tok_kind x \<in> starters L"
  using first_token(1) [of d L w e] by (cases w) auto

lemma not_negated_parses:
  assumes "derives d Comparison w e" "level_parses ts k c Comparison w e"
  shows "level_parses ts k c LogicalNot w e"
  unfolding level_parses_def
proof (intro allI impI, rule parsesI)
  fix n p u rest
  assume n: "length w < n" and p: "ahead ts p = w @ u # rest" "tok_kind u \<in> follow LogicalNot" "expressionDepth p = c"
  have "\<not> check ts TkBang p" using level_starters [OF assms(1) p(1)] by (auto simp: check_ahead split: if_splits)
  moreover have "parseComparison ts (expression_within k ts) p = Some (Some e, skip_tokens (length w) p)"
    using level_parsesD [OF assms(2) p(1) _ _ p(3) n] p(2) follow_no_dot [OF p(2)] by simp
  ultimately show "level_parser n ts (expression_within k ts) LogicalNot p = Some (Some e, skip_tokens (length w) p)"
    by (simp add: parseLogicalNot.simps [of ts _ p])
qed

lemma negated_parses:
  assumes "tok_kind t = TkBang" "level_parses ts k c LogicalNot w e"
  shows "level_parses ts k c LogicalNot (t # w) (makeUnaryNode UnLogicalNot e (tok_location t))"
  unfolding level_parses_def
proof (intro allI impI, rule parsesI)
  fix n p u rest
  assume n: "length (t # w) < n" and p: "ahead ts p = (t # w) @ u # rest" "tok_kind u \<in> follow LogicalNot" "expressionDepth p = c"
  have a: "ahead ts p = t # w @ u # rest" using p by simp
  have u: "tok_kind u \<noteq> TkDot" using p(2) no_dot [of LogicalNot] by auto
  have "parseLogicalNot ts (expression_within k ts) (skip_tokens 1 p) = Some (Some e, skip_tokens (length w) (skip_tokens 1 p))"
    using level_parses_whole [OF assms(2), of "skip_tokens 1 p" u rest] a p(2,3) u by simp
  then show "level_parser n ts (expression_within k ts) LogicalNot p =
      Some (Some (makeUnaryNode UnLogicalNot e (tok_location t)), skip_tokens (length (t # w)) p)"
    using assms(1) by (simp add: parseLogicalNot.simps [of ts _ p] check_ahead [OF a] take_ahead [OF a])
qed

lemma unsigned_parses:
  assumes "derives d Exponential w e" "level_parses ts k c Exponential w e"
  shows "level_parses ts k c Inversion w e"
  unfolding level_parses_def
proof (intro allI impI, rule parsesI)
  fix n p u rest
  assume n: "length w < n" and p: "ahead ts p = w @ u # rest" "tok_kind u \<in> follow Inversion" "expressionDepth p = c"
  have "\<not> check ts TkPlus p \<and> \<not> check ts TkMinus p"
    using level_starters [OF assms(1) p(1)] by (auto simp: check_ahead split: if_splits)
  moreover have "exponential_within n ts (expression_within k ts) p = Some (Some e, skip_tokens (length w) p)"
    using level_parsesD [OF assms(2) p(1) _ _ p(3) n] p(2) follow_no_dot [OF p(2)] by simp
  ultimately show "level_parser n ts (expression_within k ts) Inversion p = Some (Some e, skip_tokens (length w) p)"
    by (simp add: inversion_on_def)
qed

lemma signed_parses:
  assumes "tok_kind t = TkPlus \<and> op = UnPlus \<or> tok_kind t = TkMinus \<and> op = UnMinus" "level_parses ts k c Exponential w e"
  shows "level_parses ts k c Inversion (t # w) (makeUnaryNode op e (tok_location t))"
  unfolding level_parses_def
proof (intro allI impI, rule parsesI)
  fix n p u rest
  assume n: "length (t # w) < n" and p: "ahead ts p = (t # w) @ u # rest" "tok_kind u \<in> follow Inversion" "expressionDepth p = c"
  have a: "ahead ts p = t # w @ u # rest" using p by simp
  have u: "tok_kind u \<noteq> TkDot" "tok_kind u \<in> follow Exponential" using p(2) no_dot [of Inversion] by auto
  have "exponential_within n ts (expression_within k ts) (skip_tokens 1 p) = Some (Some e, skip_tokens (length w) (skip_tokens 1 p))"
    using level_parsesD [OF assms(2), of "skip_tokens 1 p" u rest n] a p(3) u n by simp
  then show "level_parser n ts (expression_within k ts) Inversion p =
      Some (Some (makeUnaryNode op e (tok_location t)), skip_tokens (length (t # w)) p)"
    using assms(1) by (auto simp: inversion_on_def check_ahead [OF a] take_ahead [OF a])
qed

lemma no_power_parses:
  assumes "level_parses ts k c Attribute w e"
  shows "level_parses ts k c Exponential w e"
  unfolding level_parses_def
proof (intro allI impI, rule parsesI)
  fix n p u rest
  assume n: "length w < n" and p: "ahead ts p = w @ u # rest" "tok_kind u \<in> follow Exponential" "expressionDepth p = c"
  have u: "tok_kind u \<noteq> TkDot" "tok_kind u \<noteq> TkStarStar" "tok_kind u \<in> follow Attribute"
    using p(2) by (auto simp: terminators_def)
  have b: "ahead ts (skip_tokens (length w) p) = u # rest" using p by simp
  have "parseAttributeAccess ts (expression_within k ts) p = Some (Some e, skip_tokens (length w) p)"
    using level_parsesD [OF assms p(1) u(3) _ p(3) n] u(1) by simp
  then show "level_parser n ts (expression_within k ts) Exponential p = Some (Some e, skip_tokens (length w) p)"
    using n u(2) by (cases n) (simp_all add: check_ahead [OF b])
qed

lemma power_parses:
  assumes "level_parses ts k c Attribute w a" "tok_kind t = TkStarStar" "level_parses ts k c Inversion v b"
  shows "level_parses ts k c Exponential (w @ t # v) (makeBinaryNode BinPow a b (tok_location t))"
  unfolding level_parses_def
proof (intro allI impI, rule parsesI)
  fix n p u rest
  assume n: "length (w @ t # v) < n" and p: "ahead ts p = (w @ t # v) @ u # rest" "tok_kind u \<in> follow Exponential"
    "expressionDepth p = c"
  obtain m where m: "n = Suc m" "length v < m" using n by (cases n) auto
  have a: "ahead ts p = w @ t # v @ u # rest" using p by simp
  have b: "ahead ts (skip_tokens (length w) p) = t # v @ u # rest" using a by simp
  have u: "tok_kind u \<noteq> TkDot" "tok_kind u \<in> follow Inversion" using p(2) no_dot [of Exponential] by auto
  have "parseAttributeAccess ts (expression_within k ts) p = Some (Some a, skip_tokens (length w) p)"
    using level_parsesD [OF assms(1) a _ _ p(3) lessI] assms(2) by simp
  moreover have "inversion_on ts (exponential_within m ts (expression_within k ts)) (skip_tokens 1 (skip_tokens (length w) p)) =
      Some (Some b, skip_tokens (length v) (skip_tokens 1 (skip_tokens (length w) p)))"
    using level_parsesD [OF assms(3), of "skip_tokens 1 (skip_tokens (length w) p)" u rest m] a p(3) u m(2) by simp
  ultimately show "level_parser n ts (expression_within k ts) Exponential p =
      Some (Some (makeBinaryNode BinPow a b (tok_location t)), skip_tokens (length (w @ t # v)) p)"
    using assms(2) m(1) take_ahead [OF b] by (simp add: check_ahead [OF b] add.commute add.left_commute)
qed

subsection \<open>Attributes\<close>

lemma attributes_first: "attributes v a e \<Longrightarrow> v = [] \<or> tok_kind (hd v) = TkDot"
  by (erule attributes.cases) auto

lemma attributes_level:
  assumes "level_parses ts k c Atom w a" "attributes v a e" "separate w v"
  shows "level_parses ts k c Attribute (w @ v) e"
  unfolding level_parses_def
proof (intro allI impI, rule parsesI)
  fix n p u rest
  assume n: "length (w @ v) < n" and p: "ahead ts p = (w @ v) @ u # rest" "tok_kind u \<in> follow Attribute" "expressionDepth p = c"
  have u: "tok_kind u \<noteq> TkDot" using p(2) no_dot [of Attribute] by auto
  obtain y ys where y: "v @ u # rest = y # ys" "tok_kind y \<in> follow Atom" "tok_kind y = TkDot \<Longrightarrow> separate w [y]"
    using attributes_first [OF assms(2)] assms(3) p(2) u by (cases v) (auto simp: separate_def)
  have a: "ahead ts p = w @ y # ys" using p y(1) by simp
  have "parsePrimary ts (expression_within k ts) p = Some (Some a, skip_tokens (length w) p)"
    using level_parsesD [OF assms(1) a y(2) _ p(3), of n] y(3) n by simp
  moreover have "attribute_loop ts a (skip_tokens (length w) p) = Some (Some e, skip_tokens (length v) (skip_tokens (length w) p))"
    using attributes_parse [OF assms(2) _ u, of ts "skip_tokens (length w) p" rest] p(1) by simp
  ultimately show "level_parser n ts (expression_within k ts) Attribute p = Some (Some e, skip_tokens (length (w @ v)) p)"
    by (simp add: parseAttributeAccess_def)
qed

subsection \<open>Nesting\<close>

lemma nested_parses:
  assumes "level_parses ts k (Suc c) Logical w e" "c < kMaxExpressionDepth"
  shows "parses ts c (follow Logical) (expression_within (Suc k) ts) w e"
proof (rule parsesI)
  fix p u rest
  assume p: "ahead ts p = w @ u # rest" "tok_kind u \<in> follow Logical" "expressionDepth p = c"
  let ?q = "p\<lparr>expressionDepth := Suc c\<rparr>"
  have q: "ahead ts ?q = w @ u # rest" using p(1) by (simp add: ahead_def)
  have "parseLogical ts (expression_within k ts) ?q = Some (Some e, skip_tokens (length w) ?q)"
    using level_parses_whole [OF assms(1) q p(2)] follow_no_dot [OF p(2)] by simp
  then show "expression_within (Suc k) ts p = Some (Some e, skip_tokens (length w) p)"
    using p(3) assms(2) by (simp add: skip_tokens_def)
qed

lemma parenthesised_parses:
  assumes "level_parses ts k (Suc c) Logical w e" "c < kMaxExpressionDepth" "tok_kind l = TkLParen" "tok_kind r = TkRParen"
  shows "parses ts c (follow Atom) (parsePrimary ts (expression_within (Suc k) ts)) (l # w @ [r]) e"
proof (rule parsesI)
  fix p u rest
  assume p: "ahead ts p = (l # w @ [r]) @ u # rest" "expressionDepth p = c"
  have a: "ahead ts p = l # w @ r # u # rest" using p by simp
  have b: "ahead ts (skip_tokens (length w) (skip_tokens 1 p)) = r # u # rest" using a by simp
  have "expression_within (Suc k) ts (skip_tokens 1 p) = Some (Some e, skip_tokens (length w) (skip_tokens 1 p))"
    using a p(2) assms(4)
    by (intro parsesD [OF nested_parses [OF assms(1,2)], where t = r and rest = "u # rest"]) (auto simp: terminators_def)
  then show "parsePrimary ts (expression_within (Suc k) ts) p = Some (Some e, skip_tokens (length (l # w @ [r])) p)"
    using assms(3,4) expect_ahead [OF b]
    by (simp add: parsePrimary_def current_ahead [OF a] no_leading_point [OF a] take_ahead [OF a] del: expression_within.simps)
qed

text \<open>The elements of a set, with a fuel for each and with the brace behind them.\<close>

definition elements_parse :: "Token list \<Rightarrow> nat \<Rightarrow> nat \<Rightarrow> Token list \<Rightarrow> ExprAST list \<Rightarrow> bool" where
  "elements_parse ts k c v es \<longleftrightarrow> (\<forall>n xs p t rest. length v < n \<longrightarrow> ahead ts p = v @ t # rest \<longrightarrow> tok_kind t = TkRBrace \<longrightarrow>
     expressionDepth p = c \<longrightarrow> set_loop n ts (expression_within (Suc k) ts) xs p = Some (xs @ es, skip_tokens (length v) p))"

lemma elements_parseD: "elements_parse ts k c v es \<Longrightarrow> length v < n \<Longrightarrow> ahead ts p = v @ t # rest \<Longrightarrow> tok_kind t = TkRBrace \<Longrightarrow>
     expressionDepth p = c \<Longrightarrow> set_loop n ts (expression_within (Suc k) ts) xs p = Some (xs @ es, skip_tokens (length v) p)"
  unfolding elements_parse_def by blast

lemma last_element_parses:
  assumes "level_parses ts k (Suc c) Logical w e" "c < kMaxExpressionDepth"
  shows "elements_parse ts k c w [e]"
  unfolding elements_parse_def
proof (intro allI impI)
  fix n xs p t rest
  assume n: "length w < n" and p: "ahead ts p = w @ t # rest" "tok_kind t = TkRBrace" "expressionDepth p = c"
  have b: "ahead ts (skip_tokens (length w) p) = t # rest" using p by simp
  have "expression_within (Suc k) ts p = Some (Some e, skip_tokens (length w) p)"
    using parsesD [OF nested_parses [OF assms] p(1) _ _ p(3)] p(2) by (simp add: terminators_def)
  then show "set_loop n ts (expression_within (Suc k) ts) xs p = Some (xs @ [e], skip_tokens (length w) p)"
    using n p(2) by (cases n) (simp_all add: match_ahead [OF b] del: expression_within.simps)
qed

lemma element_parses:
  assumes "level_parses ts k (Suc c) Logical w e" "c < kMaxExpressionDepth" "tok_kind t = TkComma" "elements_parse ts k c v es"
  shows "elements_parse ts k c (w @ t # v) (e # es)"
  unfolding elements_parse_def
proof (intro allI impI)
  fix n xs p u rest
  assume n: "length (w @ t # v) < n" and p: "ahead ts p = (w @ t # v) @ u # rest" "tok_kind u = TkRBrace" "expressionDepth p = c"
  obtain m where m: "n = Suc m" "length v < m" using n by (cases n) auto
  have a: "ahead ts p = w @ t # v @ u # rest" using p by simp
  have b: "ahead ts (skip_tokens (length w) p) = t # v @ u # rest" using a by simp
  have "expression_within (Suc k) ts p = Some (Some e, skip_tokens (length w) p)"
    using parsesD [OF nested_parses [OF assms(1,2)] a _ _ p(3)] assms(3) by (simp add: terminators_def)
  moreover have "set_loop m ts (expression_within (Suc k) ts) (xs @ [e]) (skip_tokens 1 (skip_tokens (length w) p)) =
      Some ((xs @ [e]) @ es, skip_tokens (length v) (skip_tokens 1 (skip_tokens (length w) p)))"
    using a p m(2) by (intro elements_parseD [OF assms(4)]) auto
  ultimately show "set_loop n ts (expression_within (Suc k) ts) xs p = Some (xs @ e # es, skip_tokens (length (w @ t # v)) p)"
    using m(1) assms(3) by (simp add: match_ahead [OF b] add.commute add.left_commute del: expression_within.simps)
qed

lemma set_literal_parses:
  assumes "elements d v es" "es \<noteq> [] \<Longrightarrow> elements_parse ts k c v es" "tok_kind l = TkLBrace" "tok_kind r = TkRBrace"
  shows "parses ts c (follow Atom) (parsePrimary ts (expression_within (Suc k) ts)) (l # v @ [r])
    (ExprAST (tok_location l) (ExprSetLiteral es))"
proof (rule parsesI)
  fix p u rest
  assume p: "ahead ts p = (l # v @ [r]) @ u # rest" "expressionDepth p = c"
  have a: "ahead ts p = l # v @ r # u # rest" using p by simp
  have a': "ahead ts (skip_tokens 1 p) = v @ r # u # rest" using a by simp
  have b: "ahead ts (skip_tokens (length v) (skip_tokens 1 p)) = r # u # rest" using a by simp
  have "(if check ts TkRBrace (skip_tokens 1 p) then Some ([], skip_tokens 1 p)
      else set_loop (Suc (length ts)) ts (expression_within (Suc k) ts) [] (skip_tokens 1 p)) =
      Some (es, skip_tokens (length v) (skip_tokens 1 p))"
  proof (cases "es = []")
    case True
    then have "v = []" using assms(1) by (auto elim: elements.cases)
    then show ?thesis using True a' assms(4) check_ahead [of ts "skip_tokens 1 p" r "u # rest" TkRBrace] by simp
  next
    case False
    obtain x y where x: "v = x # y" "tok_kind x \<in> starters Logical" using first_token(3) [OF assms(1)] False by (cases v) auto
    then have "\<not> check ts TkRBrace (skip_tokens 1 p)" using a' check_ahead [of ts "skip_tokens 1 p" x "y @ r # u # rest"] by auto
    then show ?thesis
      using elements_parseD [OF assms(2) [OF False] _ a' assms(4), of "Suc (length ts)" "[]"] p(2) ahead_length [OF a'] by simp
  qed
  then have "parseSetLiteral ts (expression_within (Suc k) ts) (tok_location l) (skip_tokens 1 p) =
      Some (Some (ExprAST (tok_location l) (ExprSetLiteral es)), skip_tokens (length (l # v @ [r])) p)"
    using expect_ahead [OF b assms(4)] unfolding parseSetLiteral_def by simp
  then show "parsePrimary ts (expression_within (Suc k) ts) p =
      Some (Some (ExprAST (tok_location l) (ExprSetLiteral es)), skip_tokens (length (l # v @ [r])) p)"
    using assms(3)
    by (simp add: parsePrimary_def current_ahead [OF a] no_leading_point [OF a] take_ahead [OF a] del: expression_within.simps)
qed

lemma bounded_capacity:
  assumes "bound_tokens b bk" "derives d Logical v x" "level_parses ts k (Suc c) Logical v x" "c < kMaxExpressionDepth"
    and "ahead ts p = b @ v @ r # rest" "tok_kind r = TkRBracket" "expressionDepth p = c"
  shows "array_bound ts p = Some (bk, skip_tokens (length b) p)"
    and "expression_within (Suc k) ts (skip_tokens (length b) p) = Some (Some x, skip_tokens (length v) (skip_tokens (length b) p))"
proof -
  have v: "v \<noteq> []" "tok_kind (hd v) \<in> starters Logical" using first_token(1) [OF assms(2)] by blast+
  show "array_bound ts p = Some (bk, skip_tokens (length b) p)"
    using v by (intro bound_parses [OF assms(1,5)]) (auto split: if_splits)
  show "expression_within (Suc k) ts (skip_tokens (length b) p) = Some (Some x, skip_tokens (length v) (skip_tokens (length b) p))"
    using assms(5-7) by (intro parsesD [OF nested_parses [OF assms(3,4)], where t = r and rest = rest]) (auto simp: terminators_def)
qed

lemma array_parses:
  assumes "scalar_tokens w s" "tok_kind l = TkLBracket" "bound_tokens b bk" "derives d Logical v x"
    and "level_parses ts k (Suc c) Logical v x" "c < kMaxExpressionDepth" "tok_kind r = TkRBracket"
  shows "parses ts c (follow Atom) (parsePrimary ts (expression_within (Suc k) ts)) (w @ l # b @ v @ [r])
    (ExprAST (tok_location (hd w)) (ExprTypeLiteral (TypeExprAST (tok_location (hd w)) s bk (Some x))))"
proof (rule parsesI)
  fix p u rest
  assume p: "ahead ts p = (w @ l # b @ v @ [r]) @ u # rest" "expressionDepth p = c"
  have a: "ahead ts p = w @ l # b @ v @ r # u # rest" using p by simp
  let ?q = "skip_tokens (length w) p"
  let ?z = "skip_tokens (length v) (skip_tokens (length b) (skip_tokens 1 ?q))"
  have q: "ahead ts ?q = l # b @ v @ r # u # rest" using a by simp
  have n: "ahead ts (skip_tokens 1 ?q) = b @ v @ r # u # rest" using a by simp
  have c: "array_bound ts (skip_tokens 1 ?q) = Some (bk, skip_tokens (length b) (skip_tokens 1 ?q))"
    "expression_within (Suc k) ts (skip_tokens (length b) (skip_tokens 1 ?q)) = Some (Some x, ?z)"
    using bounded_capacity [OF assms(3-6) n assms(7)] p(2) unfolding skip_fields by blast+
  have z: "ahead ts ?z = r # u # rest" using a by simp
  have "array_type ts (expression_within (Suc k) ts) (tok_location (hd w)) s ?q =
      Some (Some (TypeExprAST (tok_location (hd w)) s bk (Some x)), skip_tokens 1 ?z)"
    unfolding array_type_def using match_ahead [OF q, of TkLBracket] assms(2) c expect_ahead [OF z assms(7)]
    by (simp del: expression_within.simps skip_skip)
  then show "parsePrimary ts (expression_within (Suc k) ts) p =
    Some (Some (ExprAST (tok_location (hd w)) (ExprTypeLiteral (TypeExprAST (tok_location (hd w)) s bk (Some x)))),
      skip_tokens (length (w @ l # b @ v @ [r])) p)"
    using assms(2) by (subst type_atom_parses [OF assms(1) a]) (simp_all add: add.commute add.left_commute)
qed

subsection \<open>The parser returns the tree of the derivation\<close>

lemma atom_levels: "(\<forall>n. parses ts c (follow Atom) (parsePrimary ts (expression_within k ts)) w e) \<Longrightarrow> level_parses ts k c Atom w e"
  by (simp add: level_parses_def)

theorem derivation_parses:
  shows "derives d L w e \<Longrightarrow> d \<le> k \<Longrightarrow> c + d \<le> kMaxExpressionDepth \<Longrightarrow> level_parses ts k c L w e"
    and "operands d L v a e \<Longrightarrow> operators L \<noteq> [] \<Longrightarrow> d \<le> k \<Longrightarrow> c + d \<le> kMaxExpressionDepth \<Longrightarrow> chain_parses ts k c L v a e"
    and "elements d v es \<Longrightarrow> es \<noteq> [] \<Longrightarrow> d \<le> k \<Longrightarrow> c + d < kMaxExpressionDepth \<Longrightarrow> elements_parse ts k c v es"
proof (induction arbitrary: k c and k c and k c rule: derives_operands_elements.inducts)
  case (chain L d w a v e)
  then show ?case using chain_level_parses operands_first by blast
next
  case (no_operand d L e)
  then show ?case by (intro no_operand_parses)
next
  case (operand t L b d w r v a e)
  then show ?case using operand_parses operands_first by blast
next
  case (not_negated d w e)
  then show ?case by (intro not_negated_parses)
next
  case (negated t d w e)
  then show ?case by (intro negated_parses)
next
  case (unsigned d w e)
  then show ?case by (intro unsigned_parses)
next
  case (signed t op d w e)
  then show ?case by (intro signed_parses)
next
  case (no_power d w e)
  then show ?case by (intro no_power_parses)
next
  case (power d w a t v b)
  then show ?case by (intro power_parses)
next
  case (attributes d w a v e)
  then show ?case by (intro attributes_level)
next
  case (name t v e d)
  then show ?case using name_parses by (simp add: level_parses_def)
next
  case (literal w e d)
  then show ?case by (intro atom_levels allI literal_parses)
next
  case (parenthesised l d w e r)
  then obtain m where m: "k = Suc m" "d \<le> m" by (cases k) auto
  have "level_parses ts m (Suc c) Logical w e" using parenthesised.IH m parenthesised.prems by simp
  then show ?case unfolding m(1) using parenthesised.hyps parenthesised.prems
    by (intro atom_levels allI parenthesised_parses) simp_all
next
  case (set_literal l d w es r)
  then obtain m where m: "k = Suc m" "d \<le> m" by (cases k) auto
  have "es \<noteq> [] \<Longrightarrow> elements_parse ts m c w es" using set_literal.IH m set_literal.prems by simp
  then show ?case unfolding m(1) using set_literal.hyps by (intro atom_levels allI set_literal_parses)
next
  case (scalar_type w s d)
  then show ?case by (intro atom_levels allI scalar_parses)
next
  case (array_type w s l b ak d v x r)
  then obtain m where m: "k = Suc m" "d \<le> m" by (cases k) auto
  have "level_parses ts m (Suc c) Logical v x" using array_type.IH m array_type.prems by simp
  then show ?case unfolding m(1) using array_type.hyps array_type.prems by (intro atom_levels allI array_parses) simp_all
next
  case (no_element d)
  then show ?case by simp
next
  case (last_element d w e)
  then show ?case by (intro last_element_parses) simp_all
next
  case (element d w e t v f es)
  then show ?case by (intro element_parses) simp_all
qed

text \<open>At the outermost level up to 127 nested parentheses, sets and capacities are parsed.\<close>

theorem parseExpression_derivation:
  assumes "derives d Logical w e" "d < kMaxExpressionDepth"
    and "ahead ts p = w @ t # rest" "tok_kind t \<in> terminators" "expressionDepth p = 0"
  shows "parseExpression ts p = Some (Some e, p\<lparr>cursor := cursor p + length w\<rparr>)"
proof -
  have "level_parses ts kMaxExpressionDepth (Suc 0) Logical w e" using derivation_parses(1) [OF assms(1)] assms(2) by simp
  from nested_parses [OF this] show ?thesis
    using parsesD [of ts 0 "follow Logical" "parseExpression ts" w e p t rest] assms(3-5)
    by (auto simp: parseExpression_def kMaxExpressionDepth_def skip_tokens_def terminators_def)
qed

text \<open>So the grammar gives a text at most one tree.\<close>

corollary derivation_unique:
  assumes "derives d Logical w e" "derives d' Logical w e'" "d < kMaxExpressionDepth" "d' < kMaxExpressionDepth"
  shows "e = e'"
proof -
  let ?eof = "\<lparr>tok_kind = TkEof, tok_text = [], tok_location = \<lparr>loc_file = [], loc_line = 1, loc_column = 1\<rparr>\<rparr>"
  have a: "ahead (w @ [?eof]) fresh = w @ [?eof]" "expressionDepth fresh = 0" "tok_kind ?eof \<in> terminators"
    by (simp_all add: ahead_def fresh_def terminators_def)
  show ?thesis
    using parseExpression_derivation [OF assms(1,3) a(1,3,2)] parseExpression_derivation [OF assms(2,4) a(1,3,2)] by simp
qed

text \<open>An expression of a tighter level is one of a looser level.\<close>

lemma derives_loosen: "operators L \<noteq> [] \<Longrightarrow> derives d (operand_level L) w e \<Longrightarrow> derives d L w e"
  using chain [of L d w e "[]" e] no_operand by simp

lemma name_derives:
  assumes "tok_kind t = TkIdentifier" "\<not> primitive_type_name (tok_text t)"
  shows "derives d Attribute [t] (ExprAST (tok_location t) (ExprIdentifier (tok_text t)))"
  using name [OF assms no_attribute] by simp

lemma attribute_multiplicative: "derives d Attribute w e \<Longrightarrow> derives d Multiplicative w e"
  using derives_loosen [of Multiplicative d w e] unsigned no_power by simp

lemma additive_logical: "derives d Additive w e \<Longrightarrow> derives d Logical w e"
  using derives_loosen [of Bitwise d w e] derives_loosen [of Comparison d w e] not_negated [of d w e]
    derives_loosen [of Logical d w e] by simp

lemma minus_operand:
  assumes "tok_kind m = TkMinus" "derives d Multiplicative w r" "operands d Additive v (makeBinaryNode BinSub a r (tok_location m)) e"
  shows "operands d Additive (m # w @ v) a e"
  using operand [of m Additive BinSub d w r v a e] assms by simp

end
