(* ===== verification/SemanticModel.thy ===== *)
theory SemanticModel
  imports Evaluator
begin

text \<open>
  The resolved model that the analyzer builds, \<^verbatim>\<open>include/llvmdsdl/Semantics/Model.h\<close>: definitions with
  their sections, fields, constants and layout verdicts. Members whose names are used by other types
  carry a prefix. Bit-length sets are objects of the store of the evaluator.
\<close>

datatype SemanticScalarCategory =
    CatBool | CatByte | CatUtf8 | CatUnsignedInt | CatSignedInt | CatFloat | CatVoid | CatComposite

record SemanticTypeRef =
  ref_fullName :: string
  ref_namespaceComponents :: "string list"
  ref_shortName :: string
  ref_majorVersion :: "32 word"
  ref_minorVersion :: "32 word"

record SemanticFieldType =
  scalarCategory :: SemanticScalarCategory
  ft_castMode :: CastMode
  ft_bitLength :: "32 word"
  ft_arrayKind :: ArrayKind
  ft_arrayCapacity :: int
  arrayLengthPrefixBits :: int
  alignmentBits :: int
  bitLengthSet :: bit_length_set
  compositeType :: "SemanticTypeRef option"
  compositeSealed :: bool
  compositeExtentBits :: int

record SemanticField =
  sf_name :: string
  sf_doc :: AttachedDoc
  sf_type :: TypeExprAST
  sf_isPadding :: bool
  resolvedType :: SemanticFieldType
  sectionName :: string
  unionOptionIndex :: "32 word"
  unionTagBits :: "32 word"
  heldAsView :: bool

record SemanticConstant =
  sc_name :: string
  sc_doc :: AttachedDoc
  sc_type :: TypeExprAST
  sc_value :: Value

datatype AliasLayoutReason =
    ReasonNone | NotSealed | NotFixedSize | UnionType | EmptyLayout | VariableArray | SubByteField
  | UnalignedField | NestedNotFlat | NestedUnresolved | WirePadding | StorageWidth | HostPadding | ViewMember

record AliasLayoutVerdict =
  layout_holds :: bool
  layout_reason :: AliasLayoutReason
  blocked_field :: string
  nestedTypeName :: string
  nestedReason :: AliasLayoutReason
  nestedFieldName :: string

record HostImageMember =
  member_fieldName :: string
  offsetBytes :: int
  sizeBytes :: int

record SemanticSection =
  isUnion :: bool
  is_sealed :: bool
  deprecated :: bool
  extentBits :: "int option"
  section_fields :: "SemanticField list"
  section_constants :: "SemanticConstant list"
  offsetAtEnd :: bit_length_set
  minBitLength :: int
  maxBitLength :: int
  fixedSize :: bool
  serializationBufferSizeBits :: int
  aliasableDirective :: "SourceLocation option"
  wireFlat :: AliasLayoutVerdict
  hostImage :: AliasLayoutVerdict
  hostImageMembers :: "HostImageMember list"

record SemanticDefinition =
  sem_info :: DiscoveredDefinition
  sem_doc :: AttachedDoc
  isService :: bool
  request :: SemanticSection
  response :: "SemanticSection option"

type_synonym SemanticModule = "SemanticDefinition list"

text \<open>Default member values; a default bit-length set is the object \<open>z\<close>.\<close>

definition default_field_type :: "bit_length_set \<Rightarrow> SemanticFieldType" where
  "default_field_type z =
     \<lparr>scalarCategory = CatVoid, ft_castMode = Saturated, ft_bitLength = 0, ft_arrayKind = ArrNone, ft_arrayCapacity = 0,
      arrayLengthPrefixBits = 0, alignmentBits = 1, bitLengthSet = z, compositeType = None, compositeSealed = True,
      compositeExtentBits = 0\<rparr>"

definition default_verdict :: AliasLayoutVerdict where
  "default_verdict =
     \<lparr>layout_holds = False, layout_reason = ReasonNone, blocked_field = [], nestedTypeName = [],
      nestedReason = ReasonNone, nestedFieldName = []\<rparr>"

definition default_section :: "bit_length_set \<Rightarrow> SemanticSection" where
  "default_section z =
     \<lparr>isUnion = False, is_sealed = False, deprecated = False, extentBits = None, section_fields = [], section_constants = [],
      offsetAtEnd = z, minBitLength = 0, maxBitLength = 0, fixedSize = True, serializationBufferSizeBits = 0,
      aliasableDirective = None, wireFlat = default_verdict, hostImage = default_verdict, hostImageMembers = []\<rparr>"

end
