(* ===== verification/AliasLayout.thy ===== *)
theory AliasLayout
  imports SemanticModel
begin

text \<open>
  The layout verdicts of \<^verbatim>\<open>lib/Semantics/AliasLayout.cpp\<close> with the storage widths of
  \<^verbatim>\<open>lib/Support/ScalarStorage.cpp\<close>. A section is identified by the definition that holds it, local or
  of the catalog, and by which of the two sections of a service it is, where the code has its address.
  The two walks over nested types have a bound on their depth; the outer \<open>None\<close> is an overflow of a
  64-bit bitpos, undefined in C++, or the end of that bound, which the sections being visited keep
  from being reached.
\<close>

subsection \<open>Storage widths\<close>

definition scalarStorageBits :: "32 word \<Rightarrow> 32 word" where
  "scalarStorageBits bitLength =
     (if bitLength \<le> 8 then 8 else if bitLength \<le> 16 then 16 else if bitLength \<le> 32 then 32 else 64)"

definition floatStorageBits :: "32 word \<Rightarrow> 32 word" where
  "floatStorageBits bitLength = (if bitLength = 64 then 64 else 32)"

subsection \<open>Verdicts\<close>

definition blocked :: "AliasLayoutReason \<Rightarrow> string \<Rightarrow> AliasLayoutVerdict" where
  "blocked reason field = default_verdict\<lparr>layout_holds := False, layout_reason := reason, blocked_field := field\<rparr>"

definition holdsVerdict :: AliasLayoutVerdict where
  "holdsVerdict = default_verdict\<lparr>layout_holds := True\<rparr>"

fun aliasLayoutReasonToken :: "AliasLayoutReason \<Rightarrow> string" where
  "aliasLayoutReasonToken ReasonNone = ''flat''"
| "aliasLayoutReasonToken NotSealed = ''not-sealed''"
| "aliasLayoutReasonToken NotFixedSize = ''not-fixed-size''"
| "aliasLayoutReasonToken UnionType = ''union-type''"
| "aliasLayoutReasonToken EmptyLayout = ''empty-layout''"
| "aliasLayoutReasonToken VariableArray = ''variable-array''"
| "aliasLayoutReasonToken SubByteField = ''sub-byte-field''"
| "aliasLayoutReasonToken UnalignedField = ''unaligned-field''"
| "aliasLayoutReasonToken NestedNotFlat = ''nested-not-flat''"
| "aliasLayoutReasonToken NestedUnresolved = ''nested-unresolved''"
| "aliasLayoutReasonToken WirePadding = ''wire-padding''"
| "aliasLayoutReasonToken StorageWidth = ''storage-width''"
| "aliasLayoutReasonToken HostPadding = ''host-padding''"
| "aliasLayoutReasonToken ViewMember = ''view-member''"

definition describeAliasLayoutVerdict :: "AliasLayoutVerdict \<Rightarrow> string" where
  "describeAliasLayoutVerdict v =
     (let name = blocked_field v;
          field = (if name = [] then [] else ''field '' @ [CHR 0x27] @ name @ [CHR 0x27] @ '' '')
      in case layout_reason v of
           ReasonNone \<Rightarrow> ''the layout is a flat byte image''
         | NotSealed \<Rightarrow> ''the type is delimited, so a length header precedes its payload; add @sealed''
         | NotFixedSize \<Rightarrow> ''the serialised length varies with the value''
         | UnionType \<Rightarrow> ''a union serialises a tag and one option, so it has no single layout''
         | EmptyLayout \<Rightarrow> ''the type has no fields''
         | VariableArray \<Rightarrow> field @ ''is a variable-length array, so the fields after it move''
         | SubByteField \<Rightarrow>
             (if name = [] then ''the payload is not a whole number of bytes wide''
              else field @ ''is not a whole number of bytes wide'')
         | UnalignedField \<Rightarrow> field @ ''does not begin on a byte boundary''
         | NestedNotFlat \<Rightarrow> field @ ''has a type whose own layout is not a flat byte image''
         | NestedUnresolved \<Rightarrow>
             (if name = [] then ''a nested type could not be resolved'' else field @ ''has a type that could not be resolved'')
         | WirePadding \<Rightarrow> field @ ''is padding, which the wire reserves and the generated type does not hold''
         | StorageWidth \<Rightarrow> field @ ''is stored wider than the wire carries it''
         | HostPadding \<Rightarrow>
             (if name = [] then ''the generated type would carry padding after its last field''
              else field @ ''would follow alignment padding in the generated type'')
         | ViewMember \<Rightarrow> field @ ''is held as a view of the buffer'')"

subsection \<open>Fields\<close>

definition elementBits :: "SemanticFieldType \<Rightarrow> int" where
  "elementBits type = uint (ft_bitLength type)"

definition elementCount :: "SemanticFieldType \<Rightarrow> int" where
  "elementCount type = (if ft_arrayKind type = ArrNone then 1 else max (ft_arrayCapacity type) 0)"

definition isVariableLength :: "ArrayKind \<Rightarrow> bool" where
  "isVariableLength k \<longleftrightarrow> k = ArrVariableInclusive \<or> k = ArrVariableExclusive"

text \<open>\<open>bits * count\<close> and a sum in \<^verbatim>\<open>std::int64_t\<close>.\<close>

definition field_bits :: "int \<Rightarrow> SemanticFieldType \<Rightarrow> int option" where
  "field_bits bits type = checkedMultiply bits (elementCount type)"

subsection \<open>The index\<close>

datatype SectionId = SectionId (section_is_local: bool) (section_index: nat) (section_is_response: bool)

type_synonym SectionKey = "string \<times> 32 word \<times> 32 word \<times> bool"

type_synonym section_entries = "SectionKey \<Rightarrow> (bool \<times> nat) option"

record layout_context =
  layout_module :: SemanticModule
  layout_catalog :: "SemanticModule option"
  layout_entries :: section_entries

definition keyOf :: "SemanticTypeRef \<Rightarrow> bool \<Rightarrow> SectionKey" where
  "keyOf ref resp = (ref_fullName ref, ref_majorVersion ref, ref_minorVersion ref, resp)"

definition definition_key :: "SemanticDefinition \<Rightarrow> bool \<Rightarrow> SectionKey" where
  "definition_key d resp = (fullName (sem_info d), majorVersion (sem_info d), minorVersion (sem_info d), resp)"

definition index_key :: "bool \<Rightarrow> nat \<Rightarrow> SectionKey \<Rightarrow> section_entries \<Rightarrow> section_entries" where
  "index_key local i key entries = (if local \<or> entries key = None then entries(key \<mapsto> (local, i)) else entries)"

definition index_definition :: "bool \<Rightarrow> nat \<times> SemanticDefinition \<Rightarrow> section_entries \<Rightarrow> section_entries" where
  "index_definition local = (\<lambda>(i, d) entries.
     let entries = index_key local i (definition_key d False) entries
     in if response d \<noteq> None then index_key local i (definition_key d True) entries else entries)"

definition all_entries :: "SemanticModule \<Rightarrow> SemanticModule option \<Rightarrow> section_entries" where
  "all_entries defs catalog =
     (let entries = (case catalog of None \<Rightarrow> Map.empty
                     | Some defs \<Rightarrow> fold (index_definition False) (List.enumerate 0 defs) Map.empty)
      in fold (index_definition True) (List.enumerate 0 defs) entries)"

definition section_of :: "layout_context \<Rightarrow> SectionId \<Rightarrow> SemanticSection option" where
  "section_of lc i =
     (let defs = (if section_is_local i then layout_module lc
                  else case layout_catalog lc of None \<Rightarrow> [] | Some defs \<Rightarrow> defs)
      in if section_index i < length defs then
           (if section_is_response i then response (defs ! section_index i) else Some (request (defs ! section_index i)))
         else None)"

definition find_section :: "layout_context \<Rightarrow> SectionKey \<Rightarrow> (SectionId \<times> SemanticSection) option" where
  "find_section lc key =
     (case layout_entries lc key of
        None \<Rightarrow> None
      | Some (local, i) \<Rightarrow>
          (let sid = SectionId local i (snd (snd (snd key)))
           in map_option (Pair sid) (section_of lc sid)))"

subsection \<open>Views\<close>

definition view_of :: "layout_context \<Rightarrow> SemanticField \<Rightarrow> SemanticField" where
  "view_of lc field =
     (if sf_isPadding field \<or> scalarCategory (resolvedType field) \<noteq> CatComposite then field
      else case compositeType (resolvedType field) of
        None \<Rightarrow> field
      | Some ref \<Rightarrow>
          field\<lparr>heldAsView := (case find_section lc (keyOf ref False) of
             None \<Rightarrow> False | Some (_, nested) \<Rightarrow> aliasableDirective nested \<noteq> None)\<rparr>)"

definition markViews :: "layout_context \<Rightarrow> SemanticSection \<Rightarrow> SemanticSection" where
  "markViews lc sec = (if isUnion sec then sec else sec\<lparr>section_fields := map (view_of lc) (section_fields sec)\<rparr>)"

definition map_sections :: "(SemanticSection \<Rightarrow> SemanticSection) \<Rightarrow> SemanticDefinition \<Rightarrow> SemanticDefinition" where
  "map_sections f d = d\<lparr>request := f (request d), response := map_option f (response d)\<rparr>"

subsection \<open>The wire form\<close>

record HostExtent =
  extent_sizeBytes :: int
  extent_alignBytes :: int

record ResolvedImage =
  image_verdict :: AliasLayoutVerdict
  image_extent :: HostExtent
  image_members :: "HostImageMember list"

record layout_state =
  wireFlatCache :: "SectionId \<Rightarrow> AliasLayoutVerdict option"
  hostImageCache :: "SectionId \<Rightarrow> ResolvedImage option"
  visiting :: "SectionId set"

type_synonym 'a layout = "layout_state \<Rightarrow> ('a \<times> layout_state) option"

definition nested_name :: "SemanticTypeRef \<Rightarrow> string" where
  "nested_name ref =
     ref_fullName ref @ ''.'' @ decimal (uint (ref_majorVersion ref)) @ ''.'' @ decimal (uint (ref_minorVersion ref))"

definition nested_blocker :: "SemanticTypeRef \<Rightarrow> string \<Rightarrow> AliasLayoutVerdict \<Rightarrow> AliasLayoutVerdict" where
  "nested_blocker ref field nested =
     (blocked NestedNotFlat field)\<lparr>nestedTypeName := nested_name ref, nestedReason := layout_reason nested,
        nestedFieldName := blocked_field nested\<rparr>"

text \<open>The contribution of a field that is not padding: a refusal or its width in bits.\<close>

definition wire_field ::
  "layout_context \<Rightarrow> (SectionId \<Rightarrow> SemanticSection \<Rightarrow> AliasLayoutVerdict layout) \<Rightarrow> SemanticField \<Rightarrow>
   (AliasLayoutVerdict, int) sum layout" where
  "wire_field lc nested_flat field s =
     (let type = resolvedType field; name = sf_name field
      in if isVariableLength (ft_arrayKind type) then Some (Inl (blocked VariableArray name), s)
         else if scalarCategory type = CatComposite then
           (case compositeType type of
              None \<Rightarrow> Some (Inl (blocked NestedUnresolved name), s)
            | Some ref \<Rightarrow>
                (case find_section lc (keyOf ref False) of
                   None \<Rightarrow> Some (Inl (blocked NestedUnresolved name), s)
                 | Some (sid, nested) \<Rightarrow> do {
                     (v, s) \<leftarrow> nested_flat sid nested s;
                     if \<not> layout_holds v then Some (Inl (nested_blocker ref name v), s)
                     else do { width \<leftarrow> field_bits (maxBitLength nested) type; Some (Inr width, s) }
                   }))
         else do {
           width \<leftarrow> field_bits (elementBits type) type;
           if elementBits type \<le> 0 \<or> width mod 8 \<noteq> 0 then Some (Inl (blocked SubByteField name), s)
           else Some (Inr width, s)
         })"

fun wire_fields ::
  "layout_context \<Rightarrow> (SectionId \<Rightarrow> SemanticSection \<Rightarrow> AliasLayoutVerdict layout) \<Rightarrow> SemanticField list \<Rightarrow> int \<Rightarrow> bool \<Rightarrow>
   (AliasLayoutVerdict, int \<times> bool) sum layout" where
  "wire_fields lc nested_flat [] bitpos hasPayload s = Some (Inr (bitpos, hasPayload), s)"
| "wire_fields lc nested_flat (f # fs) bitpos hasPayload s =
     (if sf_isPadding f then do {
        width \<leftarrow> field_bits (elementBits (resolvedType f)) (resolvedType f);
        bitpos \<leftarrow> checkedAdd bitpos width;
        wire_fields lc nested_flat fs bitpos hasPayload s
      }
      else if bitpos mod 8 \<noteq> 0 then Some (Inl (blocked UnalignedField (sf_name f)), s)
      else do {
        (r, s) \<leftarrow> wire_field lc nested_flat f s;
        case r of
          Inl v \<Rightarrow> Some (Inl v, s)
        | Inr width \<Rightarrow> do { bitpos \<leftarrow> checkedAdd bitpos width; wire_fields lc nested_flat fs bitpos True s }
      })"

definition section_verdict :: "SemanticSection \<Rightarrow> int \<Rightarrow> bool \<Rightarrow> AliasLayoutVerdict" where
  "section_verdict sec bitpos hasPayload =
     (if \<not> hasPayload then blocked EmptyLayout []
      else if bitpos mod 8 \<noteq> 0 then blocked SubByteField []
      else if \<not> is_sealed sec then blocked NotSealed []
      else if \<not> fixedSize sec then blocked NotFixedSize []
      else holdsVerdict)"

definition computeWireFlat ::
  "layout_context \<Rightarrow> (SectionId \<Rightarrow> SemanticSection \<Rightarrow> AliasLayoutVerdict layout) \<Rightarrow> SemanticSection \<Rightarrow> AliasLayoutVerdict layout"
  where
  "computeWireFlat lc nested_flat sec s =
     (if isUnion sec then Some (blocked UnionType [], s)
      else do {
        (r, s) \<leftarrow> wire_fields lc nested_flat (section_fields sec) 0 False s;
        Some (case r of Inl v \<Rightarrow> v | Inr (bitpos, hasPayload) \<Rightarrow> section_verdict sec bitpos hasPayload, s)
      })"

fun wire_flat_within :: "nat \<Rightarrow> layout_context \<Rightarrow> SectionId \<Rightarrow> SemanticSection \<Rightarrow> AliasLayoutVerdict layout" where
  "wire_flat_within 0 lc sid sec s = None"
| "wire_flat_within (Suc n) lc sid sec s =
     (case wireFlatCache s sid of
        Some v \<Rightarrow> Some (v, s)
      | None \<Rightarrow>
          if sid \<in> visiting s then Some (blocked NestedUnresolved [], s)
          else do {
            (v, s) \<leftarrow> computeWireFlat lc (wire_flat_within n lc) sec (s\<lparr>visiting := insert sid (visiting s)\<rparr>);
            Some (v, s\<lparr>visiting := visiting s - {sid}, wireFlatCache := (wireFlatCache s)(sid \<mapsto> v)\<rparr>)
          })"

subsection \<open>The structure in memory\<close>

definition image_refused :: "AliasLayoutVerdict \<Rightarrow> ResolvedImage" where
  "image_refused v =
     \<lparr>image_verdict = v, image_extent = \<lparr>extent_sizeBytes = 0, extent_alignBytes = 1\<rparr>, image_members = []\<rparr>"

text \<open>The size and alignment of an element, or a refusal.\<close>

definition host_composite ::
  "layout_context \<Rightarrow> (SemanticSection \<Rightarrow> ResolvedImage layout) \<Rightarrow> SemanticField \<Rightarrow> (AliasLayoutVerdict, HostExtent) sum layout"
  where
  "host_composite lc nested_image field s =
     (case compositeType (resolvedType field) of
        None \<Rightarrow> None
      | Some ref \<Rightarrow>
          (case find_section lc (keyOf ref False) of
             None \<Rightarrow> Some (Inl (blocked NestedUnresolved (sf_name field)), s)
           | Some (sid, nested) \<Rightarrow>
               (let judge = (\<lambda>img. if layout_holds (image_verdict img) then Inr (image_extent img)
                                     else Inl (blocked NestedNotFlat (sf_name field)))
                in case hostImageCache s sid of
                     Some img \<Rightarrow> Some (judge img, s)
                   | None \<Rightarrow>
                       if sid \<in> visiting s then Some (Inl (blocked NestedUnresolved (sf_name field)), s)
                       else do {
                         (img, s) \<leftarrow> nested_image nested (s\<lparr>visiting := insert sid (visiting s)\<rparr>);
                         Some (judge img,
                               s\<lparr>visiting := visiting s - {sid}, hostImageCache := (hostImageCache s)(sid \<mapsto> img)\<rparr>)
                       })))"

definition host_scalar :: "SemanticField \<Rightarrow> (AliasLayoutVerdict, HostExtent) sum" where
  "host_scalar field =
     (let type = resolvedType field;
          bits = ft_bitLength type;
          storage = (if scalarCategory type = CatFloat then floatStorageBits bits else scalarStorageBits bits)
      in if storage \<noteq> bits then Inl (blocked StorageWidth (sf_name field))
         else Inr \<lparr>extent_sizeBytes = uint (bits div 8), extent_alignBytes = uint (bits div 8)\<rparr>)"

definition host_element ::
  "layout_context \<Rightarrow> (SemanticSection \<Rightarrow> ResolvedImage layout) \<Rightarrow> SemanticField \<Rightarrow> (AliasLayoutVerdict, HostExtent) sum layout"
  where
  "host_element lc nested_image field s =
     (if sf_isPadding field then Some (Inl (blocked WirePadding (sf_name field)), s)
      else if heldAsView field then Some (Inl (blocked ViewMember (sf_name field)), s)
      else if scalarCategory (resolvedType field) = CatComposite then host_composite lc nested_image field s
      else Some (host_scalar field, s))"

fun host_fields ::
  "layout_context \<Rightarrow> (SemanticSection \<Rightarrow> ResolvedImage layout) \<Rightarrow> SemanticField list \<Rightarrow> int \<Rightarrow> int \<Rightarrow> HostImageMember list \<Rightarrow>
   ResolvedImage layout" where
  "host_fields lc nested_image [] bitpos align members s =
     Some (if bitpos mod align \<noteq> 0 then image_refused (blocked HostPadding [])
           else \<lparr>image_verdict = holdsVerdict, image_extent = \<lparr>extent_sizeBytes = bitpos, extent_alignBytes = align\<rparr>,
                 image_members = members\<rparr>, s)"
| "host_fields lc nested_image (f # fs) bitpos align members s = do {
     (r, s) \<leftarrow> host_element lc nested_image f s;
     case r of
       Inl v \<Rightarrow> Some (image_refused v, s)
     | Inr element \<Rightarrow>
         if bitpos mod extent_alignBytes element \<noteq> 0 then Some (image_refused (blocked HostPadding (sf_name f)), s)
         else do {
           size \<leftarrow> checkedMultiply (extent_sizeBytes element) (elementCount (resolvedType f));
           bitpos' \<leftarrow> checkedAdd bitpos size;
           host_fields lc nested_image fs bitpos' (max align (extent_alignBytes element))
             (members @ [\<lparr>member_fieldName = sf_name f, offsetBytes = bitpos, sizeBytes = size\<rparr>]) s
         }
   }"

fun host_image_within ::
  "nat \<Rightarrow> layout_context \<Rightarrow> (SectionId \<Rightarrow> SemanticSection \<Rightarrow> AliasLayoutVerdict layout) \<Rightarrow> SemanticSection \<Rightarrow> ResolvedImage layout"
  where
  "host_image_within 0 lc nested_flat sec s = None"
| "host_image_within (Suc n) lc nested_flat sec s = do {
     (flat, s) \<leftarrow> computeWireFlat lc nested_flat sec s;
     if \<not> layout_holds flat then Some (image_refused flat, s)
     else host_fields lc (host_image_within n lc nested_flat) (section_fields sec) 0 1 [] s
   }"

subsection \<open>Annotating a module\<close>

definition section_bound :: "layout_context \<Rightarrow> nat" where
  "section_bound lc =
     Suc (2 * length (layout_module lc) + 2 * (case layout_catalog lc of None \<Rightarrow> 0 | Some defs \<Rightarrow> length defs))"

definition decide_wireFlat :: "layout_context \<Rightarrow> SectionId \<Rightarrow> SemanticSection \<Rightarrow> AliasLayoutVerdict layout" where
  "decide_wireFlat lc = wire_flat_within (section_bound lc) lc"

definition decide_hostImage :: "layout_context \<Rightarrow> SectionId \<Rightarrow> SemanticSection \<Rightarrow> AliasLayoutVerdict layout" where
  "decide_hostImage lc sid sec s =
     (case hostImageCache s sid of
        Some img \<Rightarrow> Some (image_verdict img, s)
      | None \<Rightarrow>
          if sid \<in> visiting s then Some (blocked NestedUnresolved [], s)
          else do {
            (img, s) \<leftarrow> host_image_within (section_bound lc) lc (decide_wireFlat lc) sec (s\<lparr>visiting := insert sid (visiting s)\<rparr>);
            Some (image_verdict img,
                  s\<lparr>visiting := visiting s - {sid}, hostImageCache := (hostImageCache s)(sid \<mapsto> img)\<rparr>)
          })"

definition annotate :: "layout_context \<Rightarrow> SectionId \<Rightarrow> SemanticSection \<Rightarrow> SemanticSection layout" where
  "annotate lc sid sec s = do {
     (flat, s) \<leftarrow> decide_wireFlat lc sid sec s;
     (img, s) \<leftarrow> decide_hostImage lc sid sec s;
     members \<leftarrow> (if layout_holds img then map_option image_members (hostImageCache s sid) else Some (hostImageMembers sec));
     Some (sec\<lparr>wireFlat := flat, hostImage := img, hostImageMembers := members\<rparr>, s)
   }"

definition annotate_definition :: "layout_context \<Rightarrow> nat \<Rightarrow> SemanticDefinition \<Rightarrow> SemanticDefinition layout" where
  "annotate_definition lc i d s = do {
     (req, s) \<leftarrow> annotate lc (SectionId True i False) (request d) s;
     case response d of
       None \<Rightarrow> Some (d\<lparr>request := req\<rparr>, s)
     | Some resp \<Rightarrow> do {
         (resp, s) \<leftarrow> annotate lc (SectionId True i True) resp s;
         Some (d\<lparr>request := req, response := Some resp\<rparr>, s)
       }
   }"

fun annotate_definitions :: "layout_context \<Rightarrow> nat \<Rightarrow> SemanticModule \<Rightarrow> SemanticModule layout" where
  "annotate_definitions lc i [] s = Some ([], s)"
| "annotate_definitions lc i (d # ds) s = do {
     (d, s) \<leftarrow> annotate_definition lc i d s;
     (ds, s) \<leftarrow> annotate_definitions lc (Suc i) ds s;
     Some (d # ds, s)
   }"

text \<open>The verdicts read no member that annotating a section sets, so every section is read as it was
  when the views had been marked.\<close>

definition annotateAliasLayout :: "SemanticModule \<Rightarrow> SemanticModule option \<Rightarrow> bool \<Rightarrow> SemanticModule option" where
  "annotateAliasLayout defs catalog views =
     (let entries = all_entries defs catalog;
          lc = \<lparr>layout_module = defs, layout_catalog = catalog, layout_entries = entries\<rparr>;
          defs = (if views then map (map_sections (markViews lc)) defs else defs);
          lc = lc\<lparr>layout_module := defs\<rparr>
      in map_option fst (annotate_definitions lc 0 defs
           \<lparr>wireFlatCache = Map.empty, hostImageCache = Map.empty, visiting = {}\<rparr>))"

end
