(* ===== verification/Analyzer.thy ===== *)
theory Analyzer
  imports AliasLayout Parser "HOL-Library.List_Lexorder" "HOL-Library.Char_ord" "HOL-Library.Product_Lexorder"
begin

text \<open>
  The semantic analyzer, \<^verbatim>\<open>lib/Semantics/Analyzer.cpp\<close>, and the predicate on names of
  \<^verbatim>\<open>lib/Support/ReservedIdentifiers.cpp\<close>. The members of \<^verbatim>\<open>AnalyzerImpl\<close> that change extend the state of
  the evaluator to the record \<open>analyzer\<close>; the module, the catalog and the options are the record
  \<open>analysis\<close>. The analysis of a definition calls itself for the types of fields and for attributes of
  types inside expressions, through \<^verbatim>\<open>analyzeOne\<close> only, so the functions below it take that call as the
  argument \<open>ao\<close> and \<open>analyze_within\<close> ties the knot by recursion on the number of levels left. The outer
  \<open>None\<close> is undefined behaviour of the evaluator or of an operation on integers.
\<close>

subsection \<open>Reserved identifiers\<close>

text \<open>\<^verbatim>\<open>std::tolower\<close> in the C locale, which is also what the comment in the code wants.\<close>

definition lower :: "char \<Rightarrow> char" where
  "lower c = (if 65 \<le> (of_char c :: nat) \<and> (of_char c :: nat) \<le> 90 then char_of ((of_char c :: nat) + 32) else c)"

definition kExactWords :: "string list" where
  "kExactWords =
     [''truncated'', ''saturated'', ''true'', ''false'', ''bool'', ''byte'', ''utf8'', ''optional'',
      ''aligned'', ''const'', ''struct'', ''super'', ''template'', ''enum'', ''self'', ''and'',
      ''or'', ''not'', ''auto'', ''type'', ''con'', ''prn'', ''aux'', ''nul'']"

definition text_regex :: "string \<Rightarrow> regex" where
  "text_regex s = cat_all (map lit s)"

definition digit_class :: regex where
  "digit_class = Class [(CHR ''0'', CHR ''9'')]"

text \<open>The dot of a regular expression matches all but line terminators.\<close>

definition any_char :: regex where
  "any_char = Class [(CHR 0x00, CHR 0x09), (CHR 0x0B, CHR 0x0C), (CHR 0x0E, CHR 0xFF)]"

definition kPatterns :: regex where
  "kPatterns =
     foldr Alt
       [cat_all [optional (lit CHR ''u''), text_regex ''int'', Star digit_class],
        cat_all [text_regex ''float'', Star digit_class],
        cat_all [text_regex ''void'', Star digit_class],
        cat_all [lit CHR ''q'', one_or_more digit_class, lit CHR ''_'', one_or_more digit_class],
        cat_all [text_regex ''com'', digit_class],
        cat_all [text_regex ''lpt'', digit_class]]
       (cat_all [lit CHR ''_'', Star any_char, lit CHR ''_''])"

definition isReservedIdentifier :: "string \<Rightarrow> bool" where
  "isReservedIdentifier identifier =
     (let lowered = map lower identifier
      in lowered \<in> set kExactWords \<or> regex_match lowered kPatterns)"

subsection \<open>Numbers\<close>

function bit_width_loop :: "int \<Rightarrow> int \<Rightarrow> int" where
  "bit_width_loop v out = (if v > 0 then bit_width_loop (v div 2) (out + 1) else out)"
  by pat_completeness auto
termination by (relation "measure (\<lambda>(v, _). nat v)") auto

declare bit_width_loop.simps [simp del]

definition ceilLog2 :: "int \<Rightarrow> int" where
  "ceilLog2 x = (if x \<le> 1 then 0 else bit_width_loop (x - 1) 0)"

text \<open>The power that the loop doubles is kept as its exponent.\<close>

function pow2_loop :: "int \<Rightarrow> nat \<Rightarrow> int" where
  "pow2_loop x k = (if 2 ^ k < x \<and> (2 :: int) ^ k < 2 ^ 62 then pow2_loop x (Suc k) else 2 ^ k)"
  by pat_completeness auto
termination
  by (relation "measure (\<lambda>(_, k). 62 - k)") (auto dest!: power_less_imp_less_exp [rotated, where a = "2 :: int" and n = 62, simplified])

declare pow2_loop.simps [simp del]

definition pow2ceil :: "int \<Rightarrow> int" where
  "pow2ceil x = (if x \<le> 1 then 1 else pow2_loop x 0)"

definition isStandardRootNamespace :: "string \<Rightarrow> bool" where
  "isStandardRootNamespace r \<longleftrightarrow> r = ''uavcan'' \<or> r = ''cyphal''"

definition maxPortId :: "bool \<Rightarrow> 32 word" where
  "maxPortId service = (if service then 511 else 8191)"

text \<open>\<^verbatim>\<open>StringRef::trim\<close> removes blanks at both ends.\<close>

definition trim :: "string \<Rightarrow> string" where
  "trim s = rev (dropWhile isspace (rev (dropWhile isspace s)))"

definition isValidRegulatedPortId :: "32 word \<Rightarrow> bool \<Rightarrow> string \<Rightarrow> bool" where
  "isValidRegulatedPortId portId service rootNamespace =
     (let standard = isStandardRootNamespace (trim rootNamespace)
      in if service then (let lo = (if standard then 384 else 256); hi = (if standard then 511 else 383)
                          in portId \<ge> lo \<and> portId \<le> hi)
         else (let lo = (if standard then 7168 else 6144); hi = (if standard then 8191 else 7167)
               in portId \<ge> lo \<and> portId \<le> hi))"

subsection \<open>Expressions\<close>

fun exprContainsOffset :: "ExprAST \<Rightarrow> bool"
  and valueContainsOffset :: "ExprValue \<Rightarrow> bool" where
  "exprContainsOffset (ExprAST _ v) = valueContainsOffset v"
| "valueContainsOffset (ExprIdentifier name) \<longleftrightarrow> name = ''_offset_''"
| "valueContainsOffset (ExprUnary _ operand) = exprContainsOffset operand"
| "valueContainsOffset (ExprBinary _ l r) \<longleftrightarrow> exprContainsOffset l \<or> exprContainsOffset r"
| "valueContainsOffset (ExprSetLiteral es) \<longleftrightarrow> (\<exists>e\<in>set es. exprContainsOffset e)"
| "valueContainsOffset _ = False"

definition contains_offset :: "ExprAST option \<Rightarrow> bool" where
  "contains_offset e = (case e of None \<Rightarrow> False | Some e \<Rightarrow> exprContainsOffset e)"

text \<open>The position of the first occurrence of a character at or after a position.\<close>

definition find_from :: "char \<Rightarrow> nat \<Rightarrow> string \<Rightarrow> nat option" where
  "find_from c i s =
     (let gap = length (takeWhile (\<lambda>d. d \<noteq> c) (drop i s))
      in if i + gap < length s then Some (i + gap) else None)"

function line_start :: "string \<Rightarrow> nat \<Rightarrow> nat \<Rightarrow> nat \<Rightarrow> nat option" where
  "line_start sourceText line lineStart lineIndex =
     (if lineIndex < line \<and> lineStart < length sourceText then
        (case find_from CHR 0x0A lineStart sourceText of
           None \<Rightarrow> None
         | Some nextLine \<Rightarrow> line_start sourceText line (nextLine + 1) (lineIndex + 1))
      else Some lineStart)"
  by pat_completeness auto
termination by (relation "measure (\<lambda>(_, line, _, i). line - i)") auto

declare line_start.simps [simp del]

fun trim_end :: "string \<Rightarrow> nat \<Rightarrow> nat \<Rightarrow> nat" where
  "trim_end s first 0 = 0"
| "trim_end s first (Suc stop) =
     (if stop \<ge> first \<and> s ! stop \<in> {CHR '' '', CHR 0x09, CHR 0x0D, CHR 0x0C, CHR 0x0B}
      then trim_end s first stop else Suc stop)"

definition expressionSpanLengthFromSource :: "string \<Rightarrow> SourceLocation \<Rightarrow> nat \<Rightarrow> 32 word" where
  "expressionSpanLengthFromSource sourceText location fallbackLength =
     (let fallback = of_nat (max 1 fallbackLength)
      in if loc_line location = 0 \<or> loc_column location = 0 then fallback
         else case line_start sourceText (unat (loc_line location)) 0 1 of
           None \<Rightarrow> fallback
         | Some lineStart \<Rightarrow>
             (let lineEnd = find_from CHR 0x0A lineStart sourceText;
                  stop = (case lineEnd of None \<Rightarrow> length sourceText | Some i \<Rightarrow> i);
                  first = lineStart + unat (loc_column location - 1)
              in if first \<ge> stop then fallback
                 else let comment = find_from CHR ''#'' first sourceText;
                          stop = (case comment of Some i \<Rightarrow> if i < stop then i else stop | None \<Rightarrow> stop);
                          stop = trim_end sourceText first stop
                      in if stop \<le> first then fallback else of_nat (stop - first)))"

subsection \<open>The state of the analysis\<close>

datatype State = Unvisited | Visiting | Done

record analyzer = ev_state +
  visit_states :: "State list"
  results_of :: "SemanticDefinition option list"
  analysisDepth :: nat

record analysis =
  module_of :: ASTModule
  externalSemanticCatalog :: "SemanticModule option"
  allowUnregulatedFixedPortId :: bool
  aliasableViews :: bool

type_synonym 'a act = "analyzer \<Rightarrow> ('a \<times> analyzer) option"
type_synonym analyze_one = "nat \<Rightarrow> SemanticDefinition option act"

definition report_error :: "SourceLocation \<Rightarrow> string \<Rightarrow> analyzer \<Rightarrow> analyzer" where
  "report_error location message st = st\<lparr>diags := error location message (diags st)\<rparr>"

definition report_if :: "bool \<Rightarrow> SourceLocation \<Rightarrow> string \<Rightarrow> analyzer \<Rightarrow> analyzer" where
  "report_if c location message st = (if c then report_error location message st else st)"

definition with_graph :: "(store \<Rightarrow> 'a \<times> store) \<Rightarrow> analyzer \<Rightarrow> 'a \<times> analyzer" where
  "with_graph f st = (let (b, g) = f (graph st) in (b, st\<lparr>graph := g\<rparr>))"

definition typeKey :: "string \<Rightarrow> 32 word \<Rightarrow> 32 word \<Rightarrow> string" where
  "typeKey name major minor = name @ '':'' @ decimal (uint major) @ '':'' @ decimal (uint minor)"

definition info_key :: "DiscoveredDefinition \<Rightarrow> string" where
  "info_key info = typeKey (fullName info) (majorVersion info) (minorVersion info)"

text \<open>\<^verbatim>\<open>emplace\<close> keeps the first definition of a key.\<close>

fun index_from :: "nat \<Rightarrow> string \<Rightarrow> ASTModule \<Rightarrow> nat option" where
  "index_from i key [] = None"
| "index_from i key (d # ds) = (if info_key (parsed_info d) = key then Some i else index_from (Suc i) key ds)"

definition resolveDefinitionIndex :: "analysis \<Rightarrow> string \<Rightarrow> 32 word \<Rightarrow> 32 word \<Rightarrow> nat option" where
  "resolveDefinitionIndex cx name major minor = index_from 0 (typeKey name major minor) (module_of cx)"

definition externalByKey :: "analysis \<Rightarrow> string \<Rightarrow> SemanticDefinition option" where
  "externalByKey cx key =
     (case externalSemanticCatalog cx of
        None \<Rightarrow> None
      | Some defs \<Rightarrow> List.find (\<lambda>d. info_key (sem_info d) = key) defs)"

definition compositeWireBitLengthSet :: "SemanticSection \<Rightarrow> analyzer \<Rightarrow> bit_length_set \<times> analyzer" where
  "compositeWireBitLengthSet sec st =
     (if is_sealed sec then (offsetAtEnd sec, st)
      else let extent = (case extentBits sec of Some e \<Rightarrow> e | None \<Rightarrow> 0);
               (header, st) = with_graph (bls_of_value 32) st;
               (byte, st) = with_graph (bls_of_value 8) st;
               (payload, st) = with_graph (bls_repeatRange byte (extent sdiv 8)) st
           in with_graph (bls_plus header payload) st)"

subsection \<open>Composite types\<close>

datatype ResolvedCompositeDefinition =
    LocalDefinition string nat
  | ExternalDefinition string SemanticDefinition

fun candidateName :: "ResolvedCompositeDefinition \<Rightarrow> string" where
  "candidateName (LocalDefinition name _) = name"
| "candidateName (ExternalDefinition name _) = name"

definition joinComponents :: "string list \<Rightarrow> string" where
  "joinComponents components = separated_by ''.'' components"

definition candidate_names :: "DiscoveredDefinition \<Rightarrow> string list \<Rightarrow> string list" where
  "candidate_names owner names =
     (let explicitName = joinComponents names; nss = namespaceComponents owner
      in if length names = 1 then
           (if nss \<noteq> [] then [joinComponents nss @ ''.'' @ hd names] else [hd names])
         else explicitName #
           (if nss \<noteq> [] then [hd nss @ ''.'' @ explicitName, joinComponents nss @ ''.'' @ explicitName] else []))"

fun first_resolved :: "analysis \<Rightarrow> 32 word \<Rightarrow> 32 word \<Rightarrow> string set \<Rightarrow> string list \<Rightarrow> ResolvedCompositeDefinition option" where
  "first_resolved cx major minor seen [] = None"
| "first_resolved cx major minor seen (c # cs) =
     (if c \<in> seen then first_resolved cx major minor seen cs
      else case resolveDefinitionIndex cx c major minor of
        Some i \<Rightarrow> Some (LocalDefinition c i)
      | None \<Rightarrow>
          (case externalByKey cx (typeKey c major minor) of
             Some d \<Rightarrow> Some (ExternalDefinition c d)
           | None \<Rightarrow> first_resolved cx major minor (insert c seen) cs))"

text \<open>Every caller asks for the error.\<close>

definition resolveCompositeType ::
  "analysis \<Rightarrow> DiscoveredDefinition \<Rightarrow> string list \<Rightarrow> 32 word \<Rightarrow> 32 word \<Rightarrow> SourceLocation \<Rightarrow> bool \<Rightarrow> analyzer \<Rightarrow>
   ResolvedCompositeDefinition option \<times> analyzer" where
  "resolveCompositeType cx owner names major minor location reportError st =
     (case first_resolved cx major minor {} (candidate_names owner names) of
        Some r \<Rightarrow> (Some r, st)
      | None \<Rightarrow>
          (None, report_if reportError location
             (''unresolved composite type: '' @ joinComponents names @ ''.'' @ decimal (uint major) @ ''.'' @
              decimal (uint minor)) st))"

text \<open>The definition behind a resolved name: null when its analysis has no result.\<close>

definition resolved_definition :: "analyze_one \<Rightarrow> ResolvedCompositeDefinition \<Rightarrow> SemanticDefinition option act" where
  "resolved_definition ao r st =
     (case r of LocalDefinition _ i \<Rightarrow> ao i st | ExternalDefinition _ d \<Rightarrow> Some (Some d, st))"

subsection \<open>Types\<close>

record TypeLayout =
  layout_bls :: bit_length_set
  layout_alignment :: int
  layout_resolved :: SemanticFieldType

text \<open>The layout of a type that could not be resolved. Its default sets share the zero leaf that the
  defaults of all later layouts are, so only the sets that replace them appear below.\<close>

definition empty_layout :: "analyzer \<Rightarrow> TypeLayout \<times> analyzer" where
  "empty_layout st =
     (let (z, st) = with_graph bls_default st;
          (b, st) = with_graph (bls_of_value 0) st
      in (\<lparr>layout_bls = b, layout_alignment = 1, layout_resolved = (default_field_type z)\<lparr>bitLengthSet := b\<rparr>\<rparr>, st))"

definition scalar_layout :: "SemanticScalarCategory \<Rightarrow> CastMode \<Rightarrow> 32 word \<Rightarrow> analyzer \<Rightarrow> TypeLayout \<times> analyzer" where
  "scalar_layout category cast_mode bits st =
     (let (b, st) = with_graph (bls_of_value (uint bits)) st
      in (\<lparr>layout_bls = b, layout_alignment = 1,
           layout_resolved = (default_field_type b)\<lparr>scalarCategory := category, ft_castMode := cast_mode, ft_bitLength := bits\<rparr>\<rparr>, st))"

fun primitive_category :: "PrimitiveKind \<Rightarrow> SemanticScalarCategory" where
  "primitive_category PrimBool = CatBool"
| "primitive_category PrimByte = CatByte"
| "primitive_category PrimUtf8 = CatUtf8"
| "primitive_category PrimUnsignedInt = CatUnsignedInt"
| "primitive_category PrimSignedInt = CatSignedInt"
| "primitive_category PrimFloat = CatFloat"

definition type_ref :: "DiscoveredDefinition \<Rightarrow> SemanticTypeRef" where
  "type_ref info =
     \<lparr>ref_fullName = fullName info, ref_namespaceComponents = namespaceComponents info, ref_shortName = shortName info,
      ref_majorVersion = majorVersion info, ref_minorVersion = minorVersion info\<rparr>"

text \<open>The argument of \<^verbatim>\<open>value_or\<close> is always evaluated.\<close>

definition extent_or_max :: "SemanticSection \<Rightarrow> analyzer \<Rightarrow> int option" where
  "extent_or_max sec st = do { m \<leftarrow> bls_max (graph st) (offsetAtEnd sec); Some (case extentBits sec of Some e \<Rightarrow> e | None \<Rightarrow> m) }"

definition composite_layout :: "SemanticDefinition \<Rightarrow> TypeLayout act" where
  "composite_layout d st = do {
     let sec = request d;
     extent \<leftarrow> extent_or_max sec st;
     let (b, st) = compositeWireBitLengthSet sec st;
     Some (\<lparr>layout_bls = b, layout_alignment = 8,
            layout_resolved = (default_field_type b)\<lparr>scalarCategory := CatComposite, alignmentBits := 8,
              compositeType := Some (type_ref (sem_info d)), compositeSealed := is_sealed sec, compositeExtentBits := extent\<rparr>\<rparr>, st)
   }"

definition base_from_scalar ::
  "analysis \<Rightarrow> analyze_one \<Rightarrow> DiscoveredDefinition \<Rightarrow> TypeExprAST \<Rightarrow> TypeLayout \<Rightarrow> TypeLayout act" where
  "base_from_scalar cx ao owner type out st =
     (case type_scalar type of
        PrimitiveTypeExprAST k cast_mode bits \<Rightarrow> Some (scalar_layout (primitive_category k) cast_mode bits st)
      | VoidTypeExprAST bits \<Rightarrow> Some (scalar_layout CatVoid Saturated bits st)
      | VersionedTypeExprAST names major minor \<Rightarrow>
          (case resolveCompositeType cx owner names major minor (type_location type) True st of
             (None, st) \<Rightarrow> Some (out, st)
           | (Some r, st) \<Rightarrow> do {
               (d, st) \<leftarrow> resolved_definition ao r st;
               case d of
                 None \<Rightarrow> Some (out, st)
               | Some d \<Rightarrow>
                   if isService d
                   then Some (out, report_error (type_location type) ''service types are not valid field types'' st)
                   else composite_layout d st
             }))"

type_synonym type_resolver = "TypeExprAST \<Rightarrow> string \<Rightarrow> SourceLocation \<Rightarrow> Value option act"

definition integer_of :: "Value option \<Rightarrow> rational option" where
  "integer_of v = (case v of Some (ValRational r) \<Rightarrow> if isInteger r then Some r else None | _ \<Rightarrow> None)"

text \<open>The value of the capacity expression, or nothing after an error.\<close>

definition array_capacity ::
  "(rat \<Rightarrow> rat) \<Rightarrow> type_resolver \<Rightarrow> TypeExprAST \<Rightarrow> (string \<rightharpoonup> Value) \<Rightarrow> int option act" where
  "array_capacity rnd resolve type env st =
     (let refuse = (\<lambda>message st. Some (None, report_error (type_location type) message st))
      in case arrayCapacity type of
           None \<Rightarrow> refuse ''array type missing capacity expression'' st
         | Some e \<Rightarrow> do {
             (v, st) \<leftarrow> evaluateExpression rnd e env (type_location type) (Some resolve) st;
             case integer_of v of
               None \<Rightarrow> refuse ''array capacity expression must yield integer rational'' st
             | Some r \<Rightarrow>
                 (case asInteger r of
                    None \<Rightarrow> refuse ''array capacity is too large'' st
                  | Some n \<Rightarrow> Some (Some n, st))
           })"

text \<open>The bound of a variable-length array, one less than written when it is exclusive.\<close>

fun checked_capacity :: "ArrayKind \<Rightarrow> int \<Rightarrow> (string, int) sum" where
  "checked_capacity ArrFixed n = (if n < 1 then Inl ''fixed-length array capacity must be positive'' else Inr n)"
| "checked_capacity ArrVariableExclusive n =
     (if n \<le> 1 then Inl ''exclusive variable-length array bound must be > 1'' else Inr (n - 1))"
| "checked_capacity ArrVariableInclusive n =
     (if n < 1 then Inl ''inclusive variable-length array bound must be >= 1'' else Inr n)"
| "checked_capacity ArrNone n = Inr n"

definition length_prefix_bits :: "int \<Rightarrow> int" where
  "length_prefix_bits capacity = pow2ceil (max 8 (bit_width_loop capacity 0))"

definition array_layout :: "TypeLayout \<Rightarrow> ArrayKind \<Rightarrow> int \<Rightarrow> analyzer \<Rightarrow> TypeLayout \<times> analyzer" where
  "array_layout scalar k capacity st =
     (let prefix = (if k = ArrFixed then 0 else length_prefix_bits capacity);
          (b, st) =
            (if k = ArrFixed then with_graph (bls_repeat (layout_bls scalar) capacity) st
             else let (p, st) = with_graph (bls_of_value prefix) st;
                      (elements, st) = with_graph (bls_repeatRange (layout_bls scalar) capacity) st
                  in with_graph (bls_plus p elements) st)
      in (\<lparr>layout_bls = b, layout_alignment = layout_alignment scalar,
           layout_resolved = (layout_resolved scalar)\<lparr>ft_arrayKind := k, ft_arrayCapacity := capacity,
             arrayLengthPrefixBits := prefix, alignmentBits := layout_alignment scalar, bitLengthSet := b\<rparr>\<rparr>, st))"

definition analyzeType ::
  "(rat \<Rightarrow> rat) \<Rightarrow> analysis \<Rightarrow> analyze_one \<Rightarrow> type_resolver \<Rightarrow> DiscoveredDefinition \<Rightarrow> TypeExprAST \<Rightarrow> (string \<rightharpoonup> Value) \<Rightarrow>
   TypeLayout act" where
  "analyzeType rnd cx ao resolve owner type env st = do {
     let (out, st) = empty_layout st;
     (scalar, st) \<leftarrow> base_from_scalar cx ao owner type out st;
     let scalar = scalar\<lparr>layout_resolved := (layout_resolved scalar)\<lparr>ft_arrayKind := arrayKind type\<rparr>\<rparr>;
     if arrayKind type = ArrNone then Some (scalar, st)
     else if is_void type
     then Some (out, report_error (type_location type) ''void type is not allowed as array element type'' st)
     else do {
       (n, st) \<leftarrow> array_capacity rnd resolve type env st;
       case n of
         None \<Rightarrow> Some (out, st)
       | Some n \<Rightarrow>
           (case checked_capacity (arrayKind type) n of
              Inl message \<Rightarrow> Some (out, report_error (type_location type) message st)
            | Inr capacity \<Rightarrow> Some (array_layout scalar (arrayKind type) capacity st))
     }
   }"

text \<open>The attributes of types inside expressions.\<close>

definition attribute_value :: "SemanticSection \<Rightarrow> string \<Rightarrow> (analyzer \<Rightarrow> (Value option \<times> analyzer) option) \<Rightarrow> Value option act" where
  "attribute_value sec attributeName otherwise st =
     (if attributeName = ''_extent_'' then do {
        extent \<leftarrow> extent_or_max sec st;
        r \<leftarrow> rational_of extent 1;
        Some (Some (ValRational r), st)
      }
      else if attributeName = ''_bit_length_'' then
        (let (b, st) = compositeWireBitLengthSet sec st in Some (Some (ValBitLengthSet b), st))
      else case List.find (\<lambda>c. sc_name c = attributeName) (section_constants sec) of
             Some c \<Rightarrow> Some (Some (sc_value c), st)
           | None \<Rightarrow> otherwise st)"

definition type_attribute :: "analysis \<Rightarrow> analyze_one \<Rightarrow> DiscoveredDefinition \<Rightarrow> type_resolver" where
  "type_attribute cx ao owner typeExpr attributeName location st =
     (let unsupported = (\<lambda>message st. Some (None, report_error location message st));
          no_such = unsupported (''unsupported metaserializable attribute: '' @ attributeName)
      in if arrayKind typeExpr \<noteq> ArrNone then no_such st
         else case type_scalar typeExpr of
           VersionedTypeExprAST names major minor \<Rightarrow>
             (case resolveCompositeType cx owner names major minor location True st of
                (None, st) \<Rightarrow> Some (None, st)
              | (Some r, st) \<Rightarrow> do {
                  (d, st) \<leftarrow> resolved_definition ao r st;
                  case d of
                    None \<Rightarrow> unsupported (''failed to analyse dependent type: '' @ candidateName r) st
                  | Some d \<Rightarrow>
                      if isService d
                      then unsupported (''service types do not expose value attributes: '' @ candidateName r) st
                      else attribute_value (request d) attributeName no_such st
                })
         | _ \<Rightarrow> no_such st)"

subsection \<open>Constants\<close>

text \<open>\<^verbatim>\<open>static_cast<__int128>(1) << n\<close> for \<open>n < 127\<close>; the parser admits at most 64 bits.\<close>

definition shifted_one :: "32 word \<Rightarrow> int option" where
  "shifted_one n = (if n < 127 then Some (2 ^ unat n) else None)"

definition integer_bounds :: "bool \<Rightarrow> 32 word \<Rightarrow> (int \<times> int) option" where
  "integer_bounds isSigned bits =
     (if isSigned then map_option (\<lambda>p. (- p, p - 1)) (shifted_one (bits - 1))
      else map_option (\<lambda>p. (0, p - 1)) (shifted_one bits))"

definition check_integer_constant :: "SourceLocation \<Rightarrow> PrimitiveKind \<Rightarrow> 32 word \<Rightarrow> Value \<Rightarrow> bool act" where
  "check_integer_constant location k bits v st =
     (let refuse = (\<lambda>message. Some (False, report_error location message st));
          isSigned = (k = PrimSignedInt);
          other = refuse ''integer constants require rational or ASCII single-char string''
      in case v of
           ValRational r \<Rightarrow>
             if \<not> isInteger r then refuse ''integer constants require integer rational values''
             else (case asWideInteger r of
                None \<Rightarrow> refuse ''integer constant value is not representable''
              | Some wide \<Rightarrow> do {
                  (lo, hi) \<leftarrow> integer_bounds isSigned bits;
                  if wide < lo \<or> hi < wide
                  then refuse (''constant value '' @ wideToString wide @ '' is out of range for '' @
                         (if isSigned then ''int'' else ''uint'') @ decimal (uint bits))
                  else Some (True, st)
                })
         | ValString s \<Rightarrow>
             if k = PrimUnsignedInt \<and> bits = 8 \<and> length s = 1 \<and> (of_char (hd s) :: nat) \<le> 127 then Some (True, st) else other
         | _ \<Rightarrow> other)"

definition checkConstantCompatibility :: "ConstantDeclAST \<Rightarrow> Value \<Rightarrow> bool act" where
  "checkConstantCompatibility decl v st =
     (let location = const_location decl;
          refuse = (\<lambda>message. Some (False, report_error location message st))
      in case type_scalar (const_type decl) of
           PrimitiveTypeExprAST k _ bits \<Rightarrow>
             (if k = PrimBool then
                (case v of ValBool _ \<Rightarrow> Some (True, st) | _ \<Rightarrow> refuse ''boolean constants must be initialised from bool'')
              else if k = PrimUnsignedInt \<or> k = PrimSignedInt then check_integer_constant location k bits v st
              else if k = PrimFloat then
                (case v of ValRational _ \<Rightarrow> Some (True, st) | _ \<Rightarrow> refuse ''floating constants require rational values'')
              else refuse ''byte/utf8 are not valid constant attribute types'')
         | _ \<Rightarrow> refuse ''constant attributes must be primitive-typed'')"

subsection \<open>Sections\<close>

record section_state =
  section_so_far :: SemanticSection
  environment :: "string \<rightharpoonup> Value"
  structureOffset :: bit_length_set
  unionFields :: "TypeLayout list"
  attributesStarted :: bool
  serializationModeSet :: bool
  unionOffsetUsed :: bool
  unionOptionCounter :: "32 word"
  firstStatementLocation :: "SourceLocation option"
  unionDirectiveLocation :: "SourceLocation option"
  serializationDirectiveLocation :: "SourceLocation option"
  extentDirectiveLocation :: "SourceLocation option"
  extentExpressionLocation :: "SourceLocation option"
  extentExpressionLength :: "32 word option"
  attribute_names :: "string set"

abbreviation update_section :: "(SemanticSection \<Rightarrow> SemanticSection) \<Rightarrow> section_state \<Rightarrow> section_state" where
  "update_section f ls \<equiv> ls\<lparr>section_so_far := f (section_so_far ls)\<rparr>"

definition ownerFallbackLocation :: "DiscoveredDefinition \<Rightarrow> SourceLocation" where
  "ownerFallbackLocation owner =
     \<lparr>loc_file = (if filePath owner = [] then ''<unknown>'' else filePath owner), loc_line = 1, loc_column = 1\<rparr>"

definition value_or :: "'a option \<Rightarrow> 'a \<Rightarrow> 'a" where
  "value_or x d = (case x of Some v \<Rightarrow> v | None \<Rightarrow> d)"

definition sectionAnchorLocation :: "DiscoveredDefinition \<Rightarrow> section_state \<Rightarrow> SourceLocation" where
  "sectionAnchorLocation owner ls =
     value_or (serializationDirectiveLocation ls) (value_or (firstStatementLocation ls) (ownerFallbackLocation owner))"

text \<open>The tag of a union and the union of its options; an empty union is at offset zero.\<close>

definition union_tag_bits :: "nat \<Rightarrow> int" where
  "union_tag_bits n = pow2ceil (max 8 (ceilLog2 (int n)))"

fun unite_layouts :: "bit_length_set \<Rightarrow> TypeLayout list \<Rightarrow> analyzer \<Rightarrow> bit_length_set \<times> analyzer" where
  "unite_layouts payload [] st = (payload, st)"
| "unite_layouts payload (l # ls) st =
     (let (payload, st) = with_graph (bls_or payload (layout_bls l)) st in unite_layouts payload ls st)"

fun union_offset :: "TypeLayout list \<Rightarrow> analyzer \<Rightarrow> bit_length_set \<times> analyzer" where
  "union_offset [] st = with_graph (bls_of_value 0) st"
| "union_offset (l # ls) st =
     (let (_, st) = with_graph (bls_of_value 0) st;
          (payload, st) = unite_layouts (layout_bls l) ls st;
          (tag, st) = with_graph (bls_of_value (union_tag_bits (length (l # ls)))) st;
          (whole, st) = with_graph (bls_plus tag payload) st
      in with_graph (padToAlignment whole 8) st)"

definition stmtNeedsOffset :: "StatementAST \<Rightarrow> bool" where
  "stmtNeedsOffset stmt =
     (case stmt of
        StmtConstant c \<Rightarrow> contains_offset (const_value c)
      | StmtField f \<Rightarrow> contains_offset (arrayCapacity (field_type f))
      | StmtDirective d \<Rightarrow> contains_offset (dir_expression d)
      | StmtMarker _ \<Rightarrow> False)"

definition updateOffsetEnv :: "section_state \<Rightarrow> analyzer \<Rightarrow> section_state \<times> analyzer" where
  "updateOffsetEnv ls st =
     (let (b, st) = (if isUnion (section_so_far ls) then union_offset (unionFields ls) st else (structureOffset ls, st))
      in (ls\<lparr>environment := (environment ls)(''_offset_'' \<mapsto> ValBitLengthSet b)\<rparr>, st))"

type_synonym section_step = "section_state \<Rightarrow> analyzer \<Rightarrow> (section_state \<times> analyzer) option"

subsection \<open>Directives\<close>

definition union_directive :: "DirectiveAST \<Rightarrow> section_state \<Rightarrow> analyzer \<Rightarrow> section_state \<times> analyzer" where
  "union_directive d ls st =
     (let st = report_if (dir_expression d \<noteq> None) (dir_location d) ''@union does not accept an expression'' st;
          st = report_if (isUnion (section_so_far ls)) (dir_location d) ''duplicated @union directive'' st;
          st = report_if (attributesStarted ls) (dir_location d) ''@union must appear before first attribute'' st
      in ((update_section (\<lambda>s. s\<lparr>isUnion := True\<rparr>) ls)\<lparr>unionDirectiveLocation := Some (dir_location d)\<rparr>, st))"

definition aliasable_directive :: "DirectiveAST \<Rightarrow> section_state \<Rightarrow> analyzer \<Rightarrow> section_state \<times> analyzer" where
  "aliasable_directive d ls st =
     (let st = report_if (dir_expression d \<noteq> None) (dir_location d) ''@aliasable does not accept an expression'' st;
          st = report_if (aliasableDirective (section_so_far ls) \<noteq> None) (dir_location d) ''duplicated @aliasable directive'' st
      in (update_section (\<lambda>s. s\<lparr>aliasableDirective := Some (dir_location d)\<rparr>) ls, st))"

definition deprecated_directive :: "bool \<Rightarrow> DirectiveAST \<Rightarrow> section_state \<Rightarrow> analyzer \<Rightarrow> section_state \<times> analyzer" where
  "deprecated_directive isResponse d ls st =
     (let st = report_if (dir_expression d \<noteq> None) (dir_location d) ''@deprecated does not accept an expression'' st;
          st = report_if isResponse (dir_location d) ''@deprecated is only valid in service request section'' st;
          st = report_if (deprecated (section_so_far ls)) (dir_location d) ''duplicated @deprecated directive'' st;
          st = report_if (attributesStarted ls) (dir_location d) ''@deprecated must be placed before first attribute'' st
      in (update_section (\<lambda>s. s\<lparr>deprecated := True\<rparr>) ls, st))"

definition report_span :: "SourceLocation \<Rightarrow> string \<Rightarrow> 32 word \<Rightarrow> int option \<Rightarrow> analyzer \<Rightarrow> analyzer" where
  "report_span location message len suggestion st =
     st\<lparr>diags := error_at location message len suggestion (diags st)\<rparr>"

definition mark_offset_use :: "ExprAST \<Rightarrow> section_state \<Rightarrow> section_state" where
  "mark_offset_use e ls =
     (if exprContainsOffset e \<and> isUnion (section_so_far ls) then ls\<lparr>unionOffsetUsed := True\<rparr> else ls)"

definition set_extent :: "DirectiveAST \<Rightarrow> SourceLocation \<Rightarrow> 32 word \<Rightarrow> int \<Rightarrow> section_state \<Rightarrow> section_state" where
  "set_extent d expressionLocation len extent ls =
     (update_section (\<lambda>s. s\<lparr>extentBits := Some extent, is_sealed := False\<rparr>) ls)
       \<lparr>serializationModeSet := True, serializationDirectiveLocation := Some (dir_location d),
        extentDirectiveLocation := Some (dir_location d), extentExpressionLocation := Some expressionLocation,
        extentExpressionLength := Some len\<rparr>"

definition extent_directive ::
  "(rat \<Rightarrow> rat) \<Rightarrow> type_resolver \<Rightarrow> DiscoveredDefinition \<Rightarrow> DirectiveAST \<Rightarrow> section_step" where
  "extent_directive rnd resolve owner d ls st =
     (if serializationModeSet ls
      then Some (ls, report_error (dir_location d) ''serialisation mode already set before @extent'' st)
      else case dir_expression d of
        None \<Rightarrow> Some (ls, report_error (dir_location d) ''@extent requires an expression'' st)
      | Some e \<Rightarrow> do {
          let location = expr_location e;
          let len = expressionSpanLengthFromSource (source_text owner) location (length (expr_str e));
          let ls = mark_offset_use e ls;
          (v, st) \<leftarrow> evaluateExpression rnd e (environment ls) (dir_location d) (Some resolve) st;
          case integer_of v of
            None \<Rightarrow> Some (ls, report_span location ''@extent expression must evaluate to integer rational'' len None st)
          | Some r \<Rightarrow>
              (case asInteger r of
                 None \<Rightarrow> Some (ls, report_span location ''@extent is too large'' len None st)
               | Some extent \<Rightarrow>
                   Some (set_extent d location len extent ls,
                     if extent < 0 then report_span location ''@extent cannot be negative'' len None st else st))
        })"

definition sealed_directive :: "DirectiveAST \<Rightarrow> section_state \<Rightarrow> analyzer \<Rightarrow> section_state \<times> analyzer" where
  "sealed_directive d ls st =
     (if serializationModeSet ls
      then (ls, report_error (dir_location d) ''serialisation mode already set before @sealed'' st)
      else ((update_section (\<lambda>s. s\<lparr>is_sealed := True\<rparr>) ls)
              \<lparr>serializationModeSet := True, serializationDirectiveLocation := Some (dir_location d)\<rparr>,
            report_if (dir_expression d \<noteq> None) (dir_location d) ''@sealed does not accept an expression'' st))"

definition note_text :: "SourceLocation \<Rightarrow> string \<Rightarrow> analyzer \<Rightarrow> analyzer" where
  "note_text location message st = st\<lparr>diags := note_at location message 1 None (diags st)\<rparr>"

definition check_directive :: "(rat \<Rightarrow> rat) \<Rightarrow> type_resolver \<Rightarrow> DirectiveAST \<Rightarrow> section_step" where
  "check_directive rnd resolve d ls st =
     (case dir_expression d of
        None \<Rightarrow>
          Some (ls, if dir_kind d = DirAssert then report_error (dir_location d) ''@assert requires an expression'' st
                    else note_text (dir_location d) [] st)
      | Some e \<Rightarrow> do {
          let ls = mark_offset_use e ls;
          (v, st) \<leftarrow> evaluateExpression rnd e (environment ls) (dir_location d) (Some resolve) st;
          if dir_kind d = DirAssert then
            Some (ls, case v of
                Some (ValBool b) \<Rightarrow> report_if (\<not> b) (dir_location d) ''assertion failed'' st
              | _ \<Rightarrow> report_error (dir_location d) ''@assert expression must evaluate to bool'' st)
          else case v of
            None \<Rightarrow> Some (ls, st)
          | Some v \<Rightarrow> do { text \<leftarrow> val_str (graph st) v; Some (ls, note_text (dir_location d) text st) }
        })"

definition directive_step ::
  "(rat \<Rightarrow> rat) \<Rightarrow> type_resolver \<Rightarrow> DiscoveredDefinition \<Rightarrow> bool \<Rightarrow> DirectiveAST \<Rightarrow> section_step" where
  "directive_step rnd resolve owner isResponse d ls st =
     (case dir_kind d of
        DirUnknown \<Rightarrow> Some (ls, report_error (dir_location d) (''unknown directive @'' @ rawName d) st)
      | DirUnion \<Rightarrow> Some (union_directive d ls st)
      | DirAliasable \<Rightarrow> Some (aliasable_directive d ls st)
      | DirDeprecated \<Rightarrow> Some (deprecated_directive isResponse d ls st)
      | DirExtent \<Rightarrow> extent_directive rnd resolve owner d ls st
      | DirSealed \<Rightarrow> Some (sealed_directive d ls st)
      | DirAssert \<Rightarrow> check_directive rnd resolve d ls st
      | DirPrint \<Rightarrow> check_directive rnd resolve d ls st)"

subsection \<open>Attributes\<close>

definition late_attribute :: "SourceLocation \<Rightarrow> section_state \<Rightarrow> analyzer \<Rightarrow> analyzer" where
  "late_attribute location ls st =
     report_if (serializationModeSet ls) location ''attributes cannot follow @extent/@sealed'' st"

text \<open>The initialiser of a constant is dereferenced without a test.\<close>

definition constant_step :: "(rat \<Rightarrow> rat) \<Rightarrow> type_resolver \<Rightarrow> ConstantDeclAST \<Rightarrow> section_step" where
  "constant_step rnd resolve c ls st =
     (let ls = ls\<lparr>attributesStarted := True\<rparr>;
          st = late_attribute (const_location c) ls st
      in if isReservedIdentifier (const_name c)
         then Some (ls, report_error (const_location c) (''attribute name is a reserved identifier: '' @ const_name c) st)
         else if const_name c \<in> attribute_names ls
         then Some (ls, report_error (const_location c) (''duplicate attribute name: '' @ const_name c) st)
         else do {
           e \<leftarrow> const_value c;
           (v, st) \<leftarrow> evaluateExpression rnd e (environment ls) (const_location c) (Some resolve) st;
           case v of
             None \<Rightarrow> Some (ls, st)
           | Some v \<Rightarrow> do {
               (good, st) \<leftarrow> checkConstantCompatibility c v st;
               if \<not> good then Some (ls, st)
               else Some ((update_section (\<lambda>s. s\<lparr>section_constants := section_constants s @
                             [\<lparr>sc_name = const_name c, sc_doc = const_doc c, sc_type = const_type c, sc_value = v\<rparr>]\<rparr>) ls)
                           \<lparr>attribute_names := insert (const_name c) (attribute_names ls),
                            environment := (environment ls)(const_name c \<mapsto> v)\<rparr>, st)
             }
         })"

definition new_field :: "bool \<Rightarrow> FieldDeclAST \<Rightarrow> SemanticFieldType \<Rightarrow> 32 word \<Rightarrow> SemanticField" where
  "new_field isResponse f type option_index =
     \<lparr>sf_name = field_name f, sf_doc = field_doc f, sf_type = field_type f, sf_isPadding = isPadding f, resolvedType = type,
      sectionName = (if isResponse then ''response'' else ''request''), unionOptionIndex = option_index, unionTagBits = 0,
      heldAsView = False\<rparr>"

text \<open>A field that has been resolved is placed behind the others, or among the options.\<close>

definition place_field :: "bool \<Rightarrow> FieldDeclAST \<Rightarrow> TypeLayout \<Rightarrow> section_state \<Rightarrow> analyzer \<Rightarrow> section_state \<times> analyzer" where
  "place_field isResponse f layout ls st =
     (let option = isUnion (section_so_far ls) \<and> \<not> isPadding f;
          field = new_field isResponse f (layout_resolved layout) (if option then unionOptionCounter ls else 0);
          ls = (if option then ls\<lparr>unionOptionCounter := unionOptionCounter ls + 1\<rparr> else ls);
          ls = update_section (\<lambda>s. s\<lparr>section_fields := section_fields s @ [field]\<rparr>) ls
      in if isUnion (section_so_far ls) then (ls\<lparr>unionFields := unionFields ls @ [layout]\<rparr>, st)
         else let (aligned, st) = with_graph (padToAlignment (structureOffset ls) (layout_alignment layout)) st;
                  (offset, st) = with_graph (bls_plus aligned (layout_bls layout)) st
              in (ls\<lparr>structureOffset := offset\<rparr>, st))"

definition field_step ::
  "(rat \<Rightarrow> rat) \<Rightarrow> analysis \<Rightarrow> analyze_one \<Rightarrow> type_resolver \<Rightarrow> DiscoveredDefinition \<Rightarrow> bool \<Rightarrow> FieldDeclAST \<Rightarrow> section_step" where
  "field_step rnd cx ao resolve owner isResponse f ls st =
     (let ls = ls\<lparr>attributesStarted := True\<rparr>;
          st = late_attribute (field_location f) ls st
      in if \<not> isPadding f \<and> isReservedIdentifier (field_name f)
         then Some (ls, report_error (field_location f) (''attribute name is a reserved identifier: '' @ field_name f) st)
         else if \<not> isPadding f \<and> field_name f \<in> attribute_names ls
         then Some (ls, report_error (field_location f) (''duplicate attribute name: '' @ field_name f) st)
         else
           let ls = (if isPadding f then ls else ls\<lparr>attribute_names := insert (field_name f) (attribute_names ls)\<rparr>)
           in if isUnion (section_so_far ls) \<and> isPadding f
              then Some (ls, report_error (field_location f) ''tagged unions cannot contain padding fields'' st)
              else do {
                let st = report_if (isUnion (section_so_far ls) \<and> unionOffsetUsed ls) (field_location f)
                           ''field after _offset_ usage in union is not allowed by spec'' st;
                (layout, st) \<leftarrow> analyzeType rnd cx ao resolve owner (field_type f) (environment ls) st;
                Some (place_field isResponse f layout ls st)
              })"

definition statement_step ::
  "(rat \<Rightarrow> rat) \<Rightarrow> analysis \<Rightarrow> analyze_one \<Rightarrow> type_resolver \<Rightarrow> DiscoveredDefinition \<Rightarrow> bool \<Rightarrow> StatementAST \<Rightarrow> section_step" where
  "statement_step rnd cx ao resolve owner isResponse stmt ls st =
     (let ls = (if firstStatementLocation ls = None then ls\<lparr>firstStatementLocation := Some (statement_location stmt)\<rparr> else ls);
          (ls, st) = (if stmtNeedsOffset stmt then updateOffsetEnv ls st else (ls, st))
      in case stmt of
           StmtDirective d \<Rightarrow> directive_step rnd resolve owner isResponse d ls st
         | StmtConstant c \<Rightarrow> constant_step rnd resolve c ls st
         | StmtField f \<Rightarrow> field_step rnd cx ao resolve owner isResponse f ls st
         | StmtMarker _ \<Rightarrow> Some (ls, st))"

fun section_steps ::
  "(rat \<Rightarrow> rat) \<Rightarrow> analysis \<Rightarrow> analyze_one \<Rightarrow> type_resolver \<Rightarrow> DiscoveredDefinition \<Rightarrow> bool \<Rightarrow> StatementAST list \<Rightarrow> section_step" where
  "section_steps rnd cx ao resolve owner isResponse [] ls st = Some (ls, st)"
| "section_steps rnd cx ao resolve owner isResponse (stmt # stmts) ls st = do {
     (ls, st) \<leftarrow> statement_step rnd cx ao resolve owner isResponse stmt ls st;
     section_steps rnd cx ao resolve owner isResponse stmts ls st
   }"

subsection \<open>The end of a section\<close>

definition finish_union :: "DiscoveredDefinition \<Rightarrow> section_state \<Rightarrow> analyzer \<Rightarrow> SemanticSection \<times> analyzer" where
  "finish_union owner ls st =
     (let st = report_if (length (unionFields ls) < 2) (value_or (unionDirectiveLocation ls) (sectionAnchorLocation owner ls))
                 ''tagged unions must contain at least two fields'' st;
          (offset, st) = union_offset (unionFields ls) st;
          tag = word_of_int (union_tag_bits (length (unionFields ls)));
          sec = section_so_far ls
      in (sec\<lparr>offsetAtEnd := offset,
              section_fields := map (\<lambda>f. if sf_isPadding f then f else f\<lparr>unionTagBits := tag\<rparr>) (section_fields sec)\<rparr>, st))"

definition finish_structure :: "section_state \<Rightarrow> analyzer \<Rightarrow> SemanticSection \<times> analyzer" where
  "finish_structure ls st =
     (let (offset, st) = with_graph (padToAlignment (structureOffset ls) 8) st
      in ((section_so_far ls)\<lparr>offsetAtEnd := offset\<rparr>, st))"

text \<open>The extent that an editor may insert: rounding the largest 64-bit number up is undefined.\<close>

definition suggested_extent :: "int \<Rightarrow> int \<Rightarrow> int option" where
  "suggested_extent most extent =
     (let s = max 0 (max most extent)
      in if s mod 8 \<noteq> 0 then checkedAdd s (8 - s mod 8) else Some s)"

definition check_extent :: "DiscoveredDefinition \<Rightarrow> section_state \<Rightarrow> SemanticSection \<Rightarrow> analyzer \<Rightarrow> analyzer option" where
  "check_extent owner ls sec st = do {
     let extent = value_or (extentBits sec) (- 1);
     let location = value_or (extentDirectiveLocation ls) (sectionAnchorLocation owner ls);
     let location = value_or (extentExpressionLocation ls) location;
     let len = value_or (extentExpressionLength ls) 1;
     most \<leftarrow> bls_max (graph st) (offsetAtEnd sec);
     suggestion \<leftarrow> suggested_extent most extent;
     let complain_when = (\<lambda>c message st. if c then report_span location message len (Some suggestion) st else st);
     Some (complain_when (extent < most) ''extent smaller than maximal serialised length''
       (complain_when (extent mod 8 \<noteq> 0) ''extent must be a multiple of 8 bits''
         (complain_when (extent < 0) ''@extent must define non-negative extent bits'' st)))
   }"

definition finish_section :: "DiscoveredDefinition \<Rightarrow> section_state \<Rightarrow> SemanticSection act" where
  "finish_section owner ls st = do {
     let (sec, st) = (if isUnion (section_so_far ls) then finish_union owner ls st else finish_structure ls st);
     let st = report_if (\<not> serializationModeSet ls) (sectionAnchorLocation owner ls)
                ''either @sealed or @extent are required'' st;
     (sec, st) \<leftarrow>
       (if \<not> is_sealed sec then do { st \<leftarrow> check_extent owner ls sec st; Some (sec, st) }
        else do { most \<leftarrow> bls_max (graph st) (offsetAtEnd sec); Some (sec\<lparr>extentBits := Some most\<rparr>, st) });
     least \<leftarrow> bls_min (graph st) (offsetAtEnd sec);
     most \<leftarrow> bls_max (graph st) (offsetAtEnd sec);
     fixed \<leftarrow> bls_fixed (graph st) (offsetAtEnd sec);
     Some (sec\<lparr>minBitLength := least, maxBitLength := most, fixedSize := fixed, serializationBufferSizeBits := most\<rparr>, st)
   }"

definition initial_section :: "analyzer \<Rightarrow> section_state \<times> analyzer" where
  "initial_section st =
     (let (z, st) = with_graph bls_default st;
          (b, st) = with_graph (bls_of_value 0) st
      in (\<lparr>section_so_far = default_section z, environment = Map.empty, structureOffset = b, unionFields = [],
           attributesStarted = False, serializationModeSet = False, unionOffsetUsed = False, unionOptionCounter = 0,
           firstStatementLocation = None, unionDirectiveLocation = None, serializationDirectiveLocation = None,
           extentDirectiveLocation = None, extentExpressionLocation = None, extentExpressionLength = None,
           attribute_names = {}\<rparr>, st))"

definition analyzeSection ::
  "(rat \<Rightarrow> rat) \<Rightarrow> analysis \<Rightarrow> analyze_one \<Rightarrow> DiscoveredDefinition \<Rightarrow> StatementAST list \<Rightarrow> bool \<Rightarrow> SemanticSection act" where
  "analyzeSection rnd cx ao owner stmts isResponse st = do {
     let (ls, st) = initial_section st;
     (ls, st) \<leftarrow> section_steps rnd cx ao (type_attribute cx ao owner) owner isResponse stmts ls st;
     finish_section owner ls st
   }"

subsection \<open>Definitions\<close>

fun is_marker :: "StatementAST \<Rightarrow> bool" where
  "is_marker (StmtMarker _) = True"
| "is_marker _ = False"

definition request_statements :: "StatementAST list \<Rightarrow> StatementAST list" where
  "request_statements stmts = takeWhile (\<lambda>s. \<not> is_marker s) stmts"

definition response_statements :: "StatementAST list \<Rightarrow> StatementAST list" where
  "response_statements stmts = filter (\<lambda>s. \<not> is_marker s) (dropWhile (\<lambda>s. \<not> is_marker s) stmts)"

definition analyze_definition :: "(rat \<Rightarrow> rat) \<Rightarrow> analysis \<Rightarrow> analyze_one \<Rightarrow> ParsedDefinition \<Rightarrow> SemanticDefinition act" where
  "analyze_definition rnd cx ao parsed st = do {
     let ast = parsed_ast parsed;
     let info = parsed_info parsed;
     let markers = length (filter is_marker (statements ast));
     let st = report_if (\<not> is_service ast \<and> markers > 0) (def_location ast)
                ''service response marker is only valid in service types'' st;
     let st = report_if (markers > 1) (def_location ast) ''duplicated service response marker'' st;
     (req, st) \<leftarrow> analyzeSection rnd cx ao info (request_statements (statements ast)) False st;
     let sem = \<lparr>sem_info = info, sem_doc = def_doc ast, isService = is_service ast, request = req, response = None\<rparr>;
     if \<not> is_service ast then Some (sem, st)
     else do {
       (resp, st) \<leftarrow> analyzeSection rnd cx ao info (response_statements (statements ast)) True st;
       let st = report_if (deprecated resp) (def_location ast) ''@deprecated is only allowed in service request section'' st;
       Some (sem\<lparr>response := Some (resp\<lparr>deprecated := deprecated req\<rparr>)\<rparr>, st)
     }
   }"

definition kMaxAnalysisDepth :: nat where "kMaxAnalysisDepth = 128"

definition set_visit :: "nat \<Rightarrow> State \<Rightarrow> analyzer \<Rightarrow> analyzer" where
  "set_visit i s st = st\<lparr>visit_states := (visit_states st)[i := s]\<rparr>"

definition definition_location :: "analysis \<Rightarrow> nat \<Rightarrow> SourceLocation" where
  "definition_location cx i = def_location (parsed_ast (module_of cx ! i))"

text \<open>An index outside the module would be undefined; the callers give positions of the module.\<close>

fun analyze_within :: "nat \<Rightarrow> (rat \<Rightarrow> rat) \<Rightarrow> analysis \<Rightarrow> analyze_one" where
  "analyze_within 0 rnd cx i st = None"
| "analyze_within (Suc k) rnd cx i st =
     (if i \<ge> length (module_of cx) then None
      else case visit_states st ! i of
        Done \<Rightarrow> Some (results_of st ! i, st)
      | Visiting \<Rightarrow> Some (results_of st ! i, report_error (definition_location cx i) ''circular dependency detected'' st)
      | Unvisited \<Rightarrow>
          if analysisDepth st \<ge> kMaxAnalysisDepth
          then Some (results_of st ! i,
                 set_visit i Done (report_error (definition_location cx i)
                   (''composite type nesting is too deep (exceeds '' @ decimal (int kMaxAnalysisDepth) @ '' levels)'') st))
          else do {
            (sem, st) \<leftarrow> analyze_definition rnd cx (analyze_within k rnd cx) (module_of cx ! i)
              ((set_visit i Visiting st)\<lparr>analysisDepth := analysisDepth st + 1\<rparr>);
            Some (Some sem, (set_visit i Done (st\<lparr>results_of := (results_of st)[i := Some sem]\<rparr>))
              \<lparr>analysisDepth := analysisDepth st - 1\<rparr>)
          })"

definition analyzeOne :: "(rat \<Rightarrow> rat) \<Rightarrow> analysis \<Rightarrow> analyze_one" where
  "analyzeOne = analyze_within (Suc kMaxAnalysisDepth)"

fun analyze_all :: "(rat \<Rightarrow> rat) \<Rightarrow> analysis \<Rightarrow> nat list \<Rightarrow> analyzer \<Rightarrow> analyzer option" where
  "analyze_all rnd cx [] st = Some st"
| "analyze_all rnd cx (i # is) st = do { (_, st) \<leftarrow> analyzeOne rnd cx i st; analyze_all rnd cx is st }"

subsection \<open>Rules across definitions\<close>

definition file_location :: "SemanticDefinition \<Rightarrow> SourceLocation" where
  "file_location d = \<lparr>loc_file = filePath (sem_info d), loc_line = 1, loc_column = 1\<rparr>"

definition done_definitions :: "analyzer \<Rightarrow> SemanticDefinition list" where
  "done_definitions st = map the (filter (\<lambda>r. r \<noteq> None) (results_of st))"

text \<open>A \<^verbatim>\<open>std::map\<close> orders its keys; the sort by minor version is stable here and not in the code, which
  matters only for two definitions of the same version.\<close>

definition group_key :: "SemanticDefinition \<Rightarrow> string \<times> 32 word" where
  "group_key d = (fullName (sem_info d), majorVersion (sem_info d))"

definition version_groups :: "SemanticDefinition list \<Rightarrow> SemanticDefinition list list" where
  "version_groups ds =
     map (\<lambda>key. sort_key (\<lambda>d. minorVersion (sem_info d)) (filter (\<lambda>d. group_key d = key) ds))
       (sort (remdups (map group_key ds)))"

definition report_file :: "bool \<Rightarrow> SemanticDefinition \<Rightarrow> string \<Rightarrow> analyzer \<Rightarrow> analyzer" where
  "report_file c d message st = report_if c (file_location d) message st"

definition check_same_layout :: "SemanticDefinition \<Rightarrow> SemanticDefinition \<Rightarrow> analyzer \<Rightarrow> analyzer" where
  "check_same_layout newest d st =
     report_file (value_or (extentBits (request d)) 0 \<noteq> value_or (extentBits (request newest)) 0) d
       ''all minor versions under same major must share extent''
       (report_file (is_sealed (request d) \<noteq> is_sealed (request newest)) d
         ''all minor versions under same major must share sealing status'' st)"

fun check_fixed_ports :: "32 word option \<Rightarrow> SemanticDefinition list \<Rightarrow> analyzer \<Rightarrow> analyzer" where
  "check_fixed_ports lastFixed [] st = st"
| "check_fixed_ports lastFixed (d # ds) st =
     (let port = fixedPortId (sem_info d);
          st = report_file (port = None \<and> lastFixed \<noteq> None) d ''fixed port-ID cannot be removed under same major version'' st;
          st = report_file (port \<noteq> None \<and> lastFixed \<noteq> None \<and> lastFixed \<noteq> port) d
                 ''fixed port-ID mismatch under same major version'' st
      in check_fixed_ports (if port \<noteq> None then port else lastFixed) ds st)"

definition check_group :: "SemanticDefinition list \<Rightarrow> analyzer \<Rightarrow> analyzer" where
  "check_group ds st =
     (case ds of
        [] \<Rightarrow> st
      | first # _ \<Rightarrow>
          check_fixed_ports None ds
            (if majorVersion (sem_info first) > 0 then fold (check_same_layout first) ds st else st))"

definition check_collision :: "SemanticDefinition \<Rightarrow> SemanticDefinition \<Rightarrow> analyzer \<Rightarrow> analyzer" where
  "check_collision a b st =
     (if fixedPortId (sem_info b) = None \<or> isService a \<noteq> isService b \<or> group_key a = group_key b then st
      else report_file (fixedPortId (sem_info a) = fixedPortId (sem_info b) \<and> majorVersion (sem_info a) > 0 \<and>
                        majorVersion (sem_info b) > 0) b
             (''fixed port-ID collision with '' @ filePath (sem_info a)) st)"

fun check_collisions :: "SemanticDefinition list \<Rightarrow> analyzer \<Rightarrow> analyzer" where
  "check_collisions [] st = st"
| "check_collisions (d # ds) st =
     check_collisions ds (if fixedPortId (sem_info d) = None then st else fold (check_collision d) ds st)"

definition kind_name :: "SemanticDefinition \<Rightarrow> string" where
  "kind_name d = (if isService d then ''service'' else ''message'')"

definition check_port_width :: "SemanticDefinition \<Rightarrow> analyzer \<Rightarrow> analyzer" where
  "check_port_width d st =
     (case fixedPortId (sem_info d) of
        None \<Rightarrow> st
      | Some port \<Rightarrow>
          report_file (port > maxPortId (isService d)) d
            (''fixed port-ID '' @ decimal (uint port) @ '' for '' @ kind_name d @ '' type '' @ fullName (sem_info d) @
             '' exceeds the maximum of '' @ decimal (uint (maxPortId (isService d)))) st)"

definition root_namespace :: "DiscoveredDefinition \<Rightarrow> string" where
  "root_namespace info =
     (if namespaceComponents info \<noteq> [] then hd (namespaceComponents info)
      else takeWhile (\<lambda>c. c \<noteq> CHR ''.'') (fullName info))"

definition check_port_regulated :: "SemanticDefinition \<Rightarrow> analyzer \<Rightarrow> analyzer" where
  "check_port_regulated d st =
     (case fixedPortId (sem_info d) of
        None \<Rightarrow> st
      | Some port \<Rightarrow>
          if port > maxPortId (isService d) then st
          else report_file (\<not> isValidRegulatedPortId port (isService d) (root_namespace (sem_info d))) d
            (''regulated port-ID '' @ decimal (uint port) @ '' for '' @ kind_name d @ '' type '' @ fullName (sem_info d) @
             '' is not valid; use --allow-unregulated-fixed-port-id to override'') st)"

definition checkVersionRules :: "analysis \<Rightarrow> analyzer \<Rightarrow> analyzer" where
  "checkVersionRules cx st =
     (let ds = done_definitions st;
          st = fold check_group (version_groups ds) st;
          st = check_collisions ds st;
          st = fold check_port_width ds st
      in if allowUnregulatedFixedPortId cx then st else fold check_port_regulated ds st)"

subsection \<open>Aliasable assertions\<close>

definition checkOneAliasableAssertion :: "string \<Rightarrow> SemanticSection \<Rightarrow> analyzer \<Rightarrow> analyzer" where
  "checkOneAliasableAssertion name sec st =
     (case aliasableDirective sec of
        None \<Rightarrow> st
      | Some location \<Rightarrow>
          if layout_holds (wireFlat sec) then st
          else
            let v = wireFlat sec;
                scope = (if name = [] then [] else '' for the '' @ name);
                message = ''@aliasable does not hold'' @ scope @ '': '' @ describeAliasLayoutVerdict v;
                message = (if \<not> is_sealed sec \<and> layout_reason v \<noteq> NotSealed
                           then message @ ''; the type is also delimited, so it needs @sealed'' else message);
                st = report_error location message st
            in if layout_reason v = NestedNotFlat
               then note_text location (nestedTypeName v @ '': '' @
                      describeAliasLayoutVerdict (default_verdict\<lparr>layout_reason := nestedReason v, blocked_field := nestedFieldName v\<rparr>)) st
               else st)"

definition check_aliasable :: "SemanticDefinition \<Rightarrow> analyzer \<Rightarrow> analyzer" where
  "check_aliasable d st =
     (let st = checkOneAliasableAssertion (if isService d then ''request'' else []) (request d) st
      in case response d of None \<Rightarrow> st | Some r \<Rightarrow> checkOneAliasableAssertion ''response'' r st)"

definition checkAliasableAssertions :: "SemanticModule \<Rightarrow> analyzer \<Rightarrow> analyzer" where
  "checkAliasableAssertions defs st = fold check_aliasable defs st"

subsection \<open>The analysis of a module\<close>

definition start_analysis :: "analysis \<Rightarrow> diagnostics \<Rightarrow> store \<Rightarrow> analyzer" where
  "start_analysis cx ds g =
     \<lparr>diags = ds, graph = g, visit_states = replicate (length (module_of cx)) Unvisited,
      results_of = replicate (length (module_of cx)) None, analysisDepth = 0\<rparr>"

definition analyze :: "(rat \<Rightarrow> rat) \<Rightarrow> analysis \<Rightarrow> diagnostics \<Rightarrow> store \<Rightarrow> (SemanticModule option \<times> analyzer) option" where
  "analyze rnd cx ds g = do {
     st \<leftarrow> analyze_all rnd cx [0..<length (module_of cx)] (start_analysis cx ds g);
     let st = checkVersionRules cx st;
     if hasErrors (diags st) then Some (None, st)
     else do {
       defs \<leftarrow> annotateAliasLayout (done_definitions st) (externalSemanticCatalog cx) (aliasableViews cx);
       let st = checkAliasableAssertions defs st;
       Some (if hasErrors (diags st) then None else Some defs, st)
     }
   }"

end
