(* ===== verification/AnalyzerRules.thy ===== *)
theory AnalyzerRules
  imports Analyzer
begin

text \<open>
  The rules of the analyzer that need no evaluation: the widths of length prefixes and union tags are
  the least of 8, 16, 32 and 64 bits that can hold the number, a constant is accepted exactly when its
  value belongs to its type, and the rules across definitions report an error exactly when the port
  identifiers or the minor versions of the module break a rule, stated here without the passes of the
  code.
\<close>

subsection \<open>Widths\<close>

lemma bit_width_loop_spec:
  "0 \<le> v \<Longrightarrow> \<exists>k. bit_width_loop v out = out + int k \<and> v < 2 ^ k \<and> (k \<noteq> 0 \<longrightarrow> 2 ^ (k - 1) \<le> v)"
proof (induction v out rule: bit_width_loop.induct)
  case (1 v out)
  show ?case
  proof (cases "v > 0")
    case True
    then obtain k where k: "bit_width_loop (v div 2) (out + 1) = out + 1 + int k" "v div 2 < 2 ^ k"
      "k \<noteq> 0 \<longrightarrow> 2 ^ (k - 1) \<le> v div 2" using 1 by auto
    have low: "2 ^ k \<le> v" using k(3) True by (cases k) auto
    have "bit_width_loop v out = out + int (Suc k) \<and> v < 2 ^ Suc k \<and> 2 ^ (Suc k - 1) \<le> v"
      using True k(1,2) low by (simp add: bit_width_loop.simps [of v])
    then show ?thesis by blast
  next
    case False
    then have "bit_width_loop v out = out" by (subst bit_width_loop.simps) simp
    then show ?thesis using False 1(2) by (intro exI [of _ 0]) simp
  qed
qed

lemma pow2_loop_spec:
  "k \<le> 62 \<Longrightarrow> x \<le> 2 ^ 62 \<Longrightarrow> (k \<noteq> 0 \<longrightarrow> 2 ^ (k - 1) < x) \<Longrightarrow>
    \<exists>m. pow2_loop x k = 2 ^ m \<and> x \<le> 2 ^ m \<and> (m \<noteq> 0 \<longrightarrow> 2 ^ (m - 1) < x)"
proof (induction x k rule: pow2_loop.induct)
  case (1 x k)
  show ?case
  proof (cases "2 ^ k < x \<and> (2 :: int) ^ k < 2 ^ 62")
    case True
    then have "k < 62" using power_less_imp_less_exp [of "2 :: int" k 62] by simp
    then show ?thesis using 1 True by (simp add: pow2_loop.simps [of x])
  next
    case False
    then have "x \<le> 2 ^ k" using 1(2,3) power_increasing [of k 62 "2 :: int"] by (cases "k = 62") auto
    then show ?thesis using False 1(4) by (intro exI [of _ k]) (simp add: pow2_loop.simps [of x])
  qed
qed

lemma pow2ceil_spec:
  assumes "1 \<le> x" "x \<le> 2 ^ 62"
  shows "\<exists>m. pow2ceil x = 2 ^ m \<and> x \<le> 2 ^ m \<and> (m \<noteq> 0 \<longrightarrow> 2 ^ (m - 1) < x)"
proof (cases "x = 1")
  case True
  then show ?thesis by (intro exI [of _ 0]) (simp add: pow2ceil_def)
next
  case False
  then show ?thesis using pow2_loop_spec [of 0 x] assms by (simp add: pow2ceil_def)
qed

text \<open>The power of two above a width of 1 to 64 bits, at least 8.\<close>

lemma pow2ceil_width:
  assumes "b \<le> 64"
  shows "pow2ceil (max 8 (int b)) = (if b \<le> 8 then 8 else if b \<le> 16 then 16 else if b \<le> 32 then 32 else 64)"
proof -
  obtain m where m: "pow2ceil (max 8 (int b)) = 2 ^ m" "max 8 (int b) \<le> 2 ^ m" "m \<noteq> 0 \<longrightarrow> 2 ^ (m - 1) < max 8 (int b)"
  proof -
    have "1 \<le> max 8 (int b)" "max 8 (int b) \<le> 2 ^ 62" using assms by auto
    then show thesis using pow2ceil_spec that by blast
  qed
  have "m \<le> 6"
  proof (rule ccontr)
    assume "\<not> m \<le> 6"
    then have "(2 :: int) ^ 6 \<le> 2 ^ (m - 1)" by (intro power_increasing) auto
    then show False using m(3) \<open>\<not> m \<le> 6\<close> assms by simp
  qed
  then have "m = 0 \<or> m = 1 \<or> m = 2 \<or> m = 3 \<or> m = 4 \<or> m = 5 \<or> m = 6" by auto
  then show ?thesis using m by (elim disjE) (auto split: if_splits)
qed

definition standard_width :: "int \<Rightarrow> int \<Rightarrow> bool" where
  "standard_width n w \<longleftrightarrow> w \<in> {8, 16, 32, 64} \<and> n < 2 ^ nat w \<and> (\<forall>v\<in>{8, 16, 32, 64}. n < 2 ^ nat v \<longrightarrow> w \<le> v)"

lemma standard_width_of_bits:
  assumes "0 \<le> n" "n < 2 ^ b" "b \<noteq> 0 \<longrightarrow> 2 ^ (b - 1) \<le> n" "b \<le> 64"
  shows "standard_width n (pow2ceil (max 8 (int b)))"
proof -
  have up: "n < 2 ^ k" if "b \<le> k" for k
  proof -
    have "(2 :: int) ^ b \<le> 2 ^ k" using that by (intro power_increasing) auto
    then show ?thesis using assms(2) by linarith
  qed
  have low: "b \<le> k" if "n < 2 ^ k" for k
  proof (rule ccontr)
    assume b: "\<not> b \<le> k"
    then have "(2 :: int) ^ k \<le> 2 ^ (b - 1)" by (intro power_increasing) auto
    moreover have "2 ^ (b - 1) \<le> n" using assms(3) b by auto
    ultimately show False using that by linarith
  qed
  show ?thesis unfolding pow2ceil_width [OF assms(4)] standard_width_def
    using up [of 8] up [of 16] up [of 32] up [of 64] low [of 8] low [of 16] low [of 32] low [of 64] assms(4)
    by (auto simp del: power_numeral)
qed

lemma length_prefix_standard:
  assumes "1 \<le> capacity" "capacity \<le> int64_max"
  shows "standard_width capacity (length_prefix_bits capacity)"
proof -
  obtain b where b: "bit_width_loop capacity 0 = int b" "capacity < 2 ^ b" "b \<noteq> 0 \<longrightarrow> 2 ^ (b - 1) \<le> capacity"
    using bit_width_loop_spec [of capacity 0] assms(1) by auto
  have "b \<le> 64"
  proof (rule ccontr)
    assume "\<not> b \<le> 64"
    then have "(2 :: int) ^ 64 \<le> 2 ^ (b - 1)" by (intro power_increasing) auto
    then show False using b(3) \<open>\<not> b \<le> 64\<close> assms(2) by (auto simp: int64_max_def)
  qed
  then show ?thesis using standard_width_of_bits [of capacity b] b assms(1) by (simp add: length_prefix_bits_def)
qed

text \<open>The tag of a union of \<open>n\<close> options numbers them from zero.\<close>

lemma union_tag_standard:
  assumes "0 < n" "int n \<le> int64_max"
  shows "standard_width (int n - 1) (union_tag_bits n)"
proof -
  obtain b where b: "bit_width_loop (int n - 1) 0 = int b" "int n - 1 < 2 ^ b" "b \<noteq> 0 \<longrightarrow> 2 ^ (b - 1) \<le> int n - 1"
    using bit_width_loop_spec [of "int n - 1" 0] assms(1) by auto
  have "b \<le> 64"
  proof (rule ccontr)
    assume "\<not> b \<le> 64"
    then have "(2 :: int) ^ 64 \<le> 2 ^ (b - 1)" by (intro power_increasing) auto
    moreover have "2 ^ (b - 1) \<le> int n - 1" using b(3) \<open>\<not> b \<le> 64\<close> by auto
    ultimately have "2 ^ 64 \<le> int n - 1" by linarith
    then show False using assms(2) by (simp add: int64_max_def)
  qed
  moreover have "ceilLog2 (int n) = int b"
    using b(1) assms(1) bit_width_loop.simps [of 0 0] by (cases "n = 1") (auto simp: ceilLog2_def)
  ultimately show ?thesis using standard_width_of_bits [of "int n - 1" b] b assms(1) by (simp add: union_tag_bits_def)
qed

subsection \<open>Constants\<close>

text \<open>The values of a type that a constant of it can have.\<close>

definition integer_range :: "bool \<Rightarrow> nat \<Rightarrow> int set" where
  "integer_range isSigned bits = (if isSigned then {- (2 ^ (bits - 1)) .. 2 ^ (bits - 1) - 1} else {0 .. 2 ^ bits - 1})"

fun constant_fits :: "PrimitiveKind \<Rightarrow> nat \<Rightarrow> Value \<Rightarrow> bool" where
  "constant_fits PrimBool bits v = (\<exists>b. v = ValBool b)"
| "constant_fits PrimFloat bits v = (\<exists>r. v = ValRational r)"
| "constant_fits PrimSignedInt bits v = (\<exists>r. v = ValRational r \<and> isInteger r \<and> numer r \<in> integer_range True bits)"
| "constant_fits PrimUnsignedInt bits v =
     ((\<exists>r. v = ValRational r \<and> isInteger r \<and> numer r \<in> integer_range False bits) \<or>
      (bits = 8 \<and> (\<exists>c. v = ValString [c] \<and> (of_char c :: nat) \<le> 127)))"
| "constant_fits PrimByte bits v = False"
| "constant_fits PrimUtf8 bits v = False"

definition type_admits :: "TypeExprAST \<Rightarrow> Value \<Rightarrow> bool" where
  "type_admits t v = (case type_scalar t of PrimitiveTypeExprAST k _ bits \<Rightarrow> constant_fits k (unat bits) v | _ \<Rightarrow> False)"

definition admissible_width :: "TypeExprAST \<Rightarrow> bool" where
  "admissible_width t \<longleftrightarrow> (\<forall>k m bits. type_scalar t = PrimitiveTypeExprAST k m bits \<longrightarrow> 1 \<le> bits \<and> bits \<le> 64)"

lemma integer_bounds_range:
  assumes "1 \<le> bits" "bits \<le> 64"
  shows "\<exists>lo hi. integer_bounds s bits = Some (lo, hi) \<and> integer_range s (unat bits) = {lo..hi}"
proof -
  have u: "unat (bits - 1) = unat bits - 1" using unat_sub [OF assms(1)] by simp
  moreover have "bits - 1 < 127" "bits < 127" using assms(2) u by (simp_all add: word_le_nat_alt word_less_nat_alt)
  ultimately show ?thesis by (auto simp: integer_bounds_def shifted_one_def integer_range_def)
qed

lemma unsigned_char_eight: "bits = 8 \<longleftrightarrow> unat bits = 8" for bits :: "32 word"
proof
  assume "unat bits = 8"
  then have "of_nat (unat bits) = (8 :: 32 word)" by simp
  then show "bits = 8" by simp
qed simp

lemma one_char: "length s = 1 \<and> (of_char (hd s) :: nat) \<le> 127 \<longleftrightarrow> (\<exists>c. s = [c] \<and> (of_char c :: nat) \<le> 127)"
  by (cases s) auto

text \<open>\<open>refuses\<close>: the check fails with one error.\<close>

definition decides :: "bool \<Rightarrow> SourceLocation \<Rightarrow> analyzer \<Rightarrow> (bool \<times> analyzer) option \<Rightarrow> bool" where
  "decides b location st m \<longleftrightarrow>
     (if b then m = Some (True, st) else \<exists>message. m = Some (False, report_error location message st))"

lemma decides_simps [simp]:
  "decides b location st (Some (False, report_error location message st)) \<longleftrightarrow> \<not> b"
  "decides b location st (Some (True, st)) \<longleftrightarrow> b"
  by (auto simp: decides_def)

lemma integer_constant_decided:
  assumes "1 \<le> bits" "bits \<le> 64" "k = PrimSignedInt \<or> k = PrimUnsignedInt"
  shows "decides (constant_fits k (unat bits) v) location st (check_integer_constant location k bits v st)"
proof -
  obtain lo hi where b: "integer_bounds (k = PrimSignedInt) bits = Some (lo, hi)"
    "integer_range (k = PrimSignedInt) (unat bits) = {lo..hi}"
    using integer_bounds_range [OF assms(1,2)] by blast
  show ?thesis
  proof (cases v)
    case (ValRational r)
    have "constant_fits k (unat bits) v \<longleftrightarrow> isInteger r \<and> lo \<le> numer r \<and> numer r \<le> hi"
      using assms(3) b(2) ValRational by auto
    then show ?thesis using b(1) ValRational
      by (simp add: check_integer_constant_def asWideInteger_def Let_def)
  next
    case (ValString s)
    have "constant_fits k (unat bits) v \<longleftrightarrow>
        k = PrimUnsignedInt \<and> bits = 8 \<and> length s = 1 \<and> (of_char (hd s) :: nat) \<le> 127"
      using assms(3) ValString one_char [of s] unsigned_char_eight [of bits] by auto
    then show ?thesis using ValString by (simp add: check_integer_constant_def Let_def)
  qed (use assms(3) in \<open>auto simp: check_integer_constant_def Let_def\<close>)
qed

lemma constant_decided:
  assumes "admissible_width (const_type c)"
  shows "decides (type_admits (const_type c) v) (const_location c) st (checkConstantCompatibility c v st)"
proof (cases "type_scalar (const_type c)")
  case (PrimitiveTypeExprAST k m bits)
  then have w: "1 \<le> bits" "bits \<le> 64" using assms by (auto simp: admissible_width_def)
  show ?thesis
  proof (cases "k = PrimSignedInt \<or> k = PrimUnsignedInt")
    case True
    then show ?thesis using integer_constant_decided [OF w True, of v "const_location c" st] PrimitiveTypeExprAST
      by (auto simp: type_admits_def checkConstantCompatibility_def)
  next
    case False
    then show ?thesis using PrimitiveTypeExprAST
      by (cases k; cases v) (auto simp: type_admits_def checkConstantCompatibility_def Let_def)
  qed
qed (auto simp: type_admits_def checkConstantCompatibility_def Let_def)

subsection \<open>Rules across definitions\<close>

definition port_allowed :: "analysis \<Rightarrow> SemanticDefinition \<Rightarrow> bool" where
  "port_allowed cx d \<longleftrightarrow>
     (\<forall>port. fixedPortId (sem_info d) = Some port \<longrightarrow> port \<le> maxPortId (isService d) \<and>
        (allowUnregulatedFixedPortId cx \<or> isValidRegulatedPortId port (isService d) (root_namespace (sem_info d))))"

definition collide :: "SemanticDefinition \<Rightarrow> SemanticDefinition \<Rightarrow> bool" where
  "collide a b \<longleftrightarrow>
     fixedPortId (sem_info a) \<noteq> None \<and> fixedPortId (sem_info a) = fixedPortId (sem_info b) \<and> isService a = isService b \<and>
     group_key a \<noteq> group_key b \<and> majorVersion (sem_info a) > 0 \<and> majorVersion (sem_info b) > 0"

definition same_layout :: "SemanticDefinition \<Rightarrow> SemanticDefinition \<Rightarrow> bool" where
  "same_layout a b \<longleftrightarrow> is_sealed (request a) = is_sealed (request b) \<and>
     value_or (extentBits (request a)) 0 = value_or (extentBits (request b)) 0"

text \<open>A port that an earlier minor version has is kept by the later ones.\<close>

definition port_kept :: "SemanticDefinition \<Rightarrow> SemanticDefinition \<Rightarrow> bool" where
  "port_kept a b \<longleftrightarrow> fixedPortId (sem_info a) \<noteq> None \<longrightarrow> fixedPortId (sem_info b) = fixedPortId (sem_info a)"

definition group_consistent :: "SemanticDefinition list \<Rightarrow> bool" where
  "group_consistent ds \<longleftrightarrow>
     (majorVersion (sem_info (hd ds)) > 0 \<longrightarrow> (\<forall>d\<in>set ds. same_layout (hd ds) d)) \<and> sorted_wrt port_kept ds"

definition version_rules :: "analysis \<Rightarrow> SemanticDefinition list \<Rightarrow> bool" where
  "version_rules cx ds \<longleftrightarrow>
     (\<forall>g\<in>set (version_groups ds). group_consistent g) \<and> sorted_wrt (\<lambda>a b. \<not> collide a b) ds \<and>
     (\<forall>d\<in>set ds. port_allowed cx d)"

abbreviation erroneous :: "analyzer \<Rightarrow> bool" where
  "erroneous st \<equiv> hasErrors (diags st)"

lemma erroneous_report [simp]:
  "erroneous (report_error location message st)"
  "erroneous (report_if c location message st) \<longleftrightarrow> c \<or> erroneous st"
  "erroneous (report_file c d message st) \<longleftrightarrow> c \<or> erroneous st"
  "erroneous (report_span location message len suggestion st)"
  "erroneous (note_text location message st) \<longleftrightarrow> erroneous st"
  by (simp_all add: report_error_def report_if_def report_file_def report_span_def note_text_def error_def error_at_def
    note_at_def report_def hasErrors_def)

lemma erroneous_fold:
  assumes "\<And>x st. erroneous (f x st) \<longleftrightarrow> P x \<or> erroneous st"
  shows "erroneous (fold f xs st) \<longleftrightarrow> (\<exists>x\<in>set xs. P x) \<or> erroneous st"
  by (induction xs arbitrary: st) (auto simp: assms)

lemma erroneous_fixed_ports:
  "erroneous (check_fixed_ports former ds st) \<longleftrightarrow>
    \<not> ((former \<noteq> None \<longrightarrow> (\<forall>d\<in>set ds. fixedPortId (sem_info d) = former)) \<and> sorted_wrt port_kept ds) \<or> erroneous st"
proof (induction ds arbitrary: former st)
  case (Cons d ds)
  show ?case
    by (cases "fixedPortId (sem_info d)"; cases former) (auto simp: Let_def Cons.IH port_kept_def)
qed simp

lemma erroneous_group: "ds \<noteq> [] \<Longrightarrow> erroneous (check_group ds st) \<longleftrightarrow> \<not> group_consistent ds \<or> erroneous st"
proof (cases ds)
  case (Cons d rest)
  have f: "erroneous (check_same_layout d x st) \<longleftrightarrow> \<not> same_layout d x \<or> erroneous st" for x st
    by (auto simp: check_same_layout_def same_layout_def)
  show ?thesis
    unfolding check_group_def group_consistent_def Cons list.case list.sel erroneous_fixed_ports
    using erroneous_fold [of "check_same_layout d" "\<lambda>x. \<not> same_layout d x" "d # rest" st, OF f]
    by (simp del: fold_simps) blast
qed simp

lemma version_groups_nonempty: "g \<in> set (version_groups ds) \<Longrightarrow> g \<noteq> []"
  by (auto simp: version_groups_def filter_empty_conv simp flip: set_empty)

lemma erroneous_collision:
  "fixedPortId (sem_info a) \<noteq> None \<Longrightarrow> erroneous (check_collision a b st) \<longleftrightarrow> collide a b \<or> erroneous st"
  by (auto simp: check_collision_def collide_def)

lemma erroneous_collisions:
  "erroneous (check_collisions ds st) \<longleftrightarrow> \<not> sorted_wrt (\<lambda>a b. \<not> collide a b) ds \<or> erroneous st"
proof (induction ds arbitrary: st)
  case (Cons d ds)
  show ?case
  proof (cases "fixedPortId (sem_info d) = None")
    case True
    then show ?thesis by (simp add: Cons) (auto simp: collide_def)
  next
    case False
    then show ?thesis
      using erroneous_fold [of "check_collision d" "collide d" ds st, OF erroneous_collision [OF False]]
      by (auto simp: Cons)
  qed
qed simp

lemma erroneous_ports:
  "erroneous (check_port_width d st) \<longleftrightarrow> (\<exists>p. fixedPortId (sem_info d) = Some p \<and> \<not> p \<le> maxPortId (isService d)) \<or> erroneous st"
  "erroneous (check_port_regulated d st) \<longleftrightarrow> (\<exists>p. fixedPortId (sem_info d) = Some p \<and> p \<le> maxPortId (isService d) \<and>
      \<not> isValidRegulatedPortId p (isService d) (root_namespace (sem_info d))) \<or> erroneous st"
  by (auto simp: check_port_width_def check_port_regulated_def split: option.splits)

lemma erroneous_version_rules:
  "erroneous (checkVersionRules cx st) \<longleftrightarrow> \<not> version_rules cx (done_definitions st) \<or> erroneous st"
proof -
  let ?ds = "done_definitions st"
  have g: "erroneous (fold check_group gs st) \<longleftrightarrow> (\<exists>g\<in>set gs. \<not> group_consistent g) \<or> erroneous st"
    if "\<forall>g\<in>set gs. g \<noteq> []" for gs st
    using that by (induction gs arbitrary: st) (auto simp: erroneous_group)
  note G = g [of "version_groups ?ds", OF ballI [OF version_groups_nonempty]]
  show ?thesis
    by (auto simp: checkVersionRules_def Let_def version_rules_def port_allowed_def erroneous_fold [OF erroneous_ports(1)]
      erroneous_fold [OF erroneous_ports(2)] erroneous_collisions G)
qed

text \<open>What the rules mean for any two definitions.\<close>

lemma version_groups_member:
  assumes "d \<in> set ds"
  shows "sort_key (\<lambda>d. minorVersion (sem_info d)) (filter (\<lambda>x. group_key x = group_key d) ds) \<in> set (version_groups ds)"
  using assms by (auto simp: version_groups_def)

lemma sorted_wrt_before:
  fixes key :: "'a \<Rightarrow> 'b :: linorder"
  assumes "sorted_wrt P xs" "sorted (map key xs)" "a \<in> set xs" "b \<in> set xs" "key a < key b"
  shows "P a b"
proof -
  obtain i j where ij: "i < length xs" "xs ! i = a" "j < length xs" "xs ! j = b" using assms(3,4) by (auto simp: in_set_conv_nth)
  have "i < j"
  proof (rule ccontr)
    assume "\<not> i < j"
    then have "key (xs ! j) \<le> key (xs ! i)" using sorted_nth_mono [OF assms(2), of j i] ij by simp
    then show False using assms(5) ij by simp
  qed
  then show ?thesis using sorted_wrt_nth_less [OF assms(1)] ij by blast
qed

lemma rules_of_group:
  assumes "version_rules cx ds" "a \<in> set ds" "b \<in> set ds" "group_key a = group_key b"
  shows "majorVersion (sem_info a) > 0 \<Longrightarrow> same_layout a b"
    and "minorVersion (sem_info a) < minorVersion (sem_info b) \<Longrightarrow> port_kept a b"
proof -
  let ?k = "\<lambda>d. minorVersion (sem_info d)"
  let ?g = "sort_key ?k (filter (\<lambda>x. group_key x = group_key a) ds)"
  have g: "group_consistent ?g" using assms(1) version_groups_member [OF assms(2)] by (auto simp: version_rules_def)
  have m: "a \<in> set ?g" "b \<in> set ?g" using assms by auto
  have h: "hd ?g \<in> set ?g" using m(1) by (intro hd_in_set) (metis empty_iff list.set(1))
  then have "group_key (hd ?g) = group_key a" by auto
  then have M: "majorVersion (sem_info (hd ?g)) = majorVersion (sem_info a)" by (simp add: group_key_def)
  show "majorVersion (sem_info a) > 0 \<Longrightarrow> same_layout a b"
    using g m M unfolding group_consistent_def same_layout_def by metis
  show "?k a < ?k b \<Longrightarrow> port_kept a b"
    using sorted_wrt_before [of port_kept ?g ?k a b] g m by (simp add: group_consistent_def)
qed

text \<open>The rules without the order in which the code visits the definitions.\<close>

definition module_rules :: "analysis \<Rightarrow> SemanticDefinition set \<Rightarrow> bool" where
  "module_rules cx D \<longleftrightarrow>
     (\<forall>d\<in>D. port_allowed cx d) \<and>
     (\<forall>a\<in>D. \<forall>b\<in>D. \<not> collide a b \<and>
        (group_key a = group_key b \<longrightarrow> (majorVersion (sem_info a) > 0 \<longrightarrow> same_layout a b) \<and>
           (minorVersion (sem_info a) < minorVersion (sem_info b) \<longrightarrow> port_kept a b)))"

definition versions_distinct :: "SemanticDefinition list \<Rightarrow> bool" where
  "versions_distinct ds \<longleftrightarrow> distinct (map (\<lambda>d. (group_key d, minorVersion (sem_info d))) ds)"

lemma collide_sym: "collide a b \<Longrightarrow> collide b a"
  by (auto simp: collide_def)

lemma collide_irrefl: "\<not> collide a a"
  by (simp add: collide_def)

lemma sorted_wrt_sym:
  assumes "sorted_wrt (\<lambda>a b. \<not> P a b) xs" "\<And>a b. P a b \<Longrightarrow> P b a" "\<And>a. \<not> P a a" "a \<in> set xs" "b \<in> set xs"
  shows "\<not> P a b"
proof -
  obtain i j where ij: "i < length xs" "xs ! i = a" "j < length xs" "xs ! j = b" using assms(4,5) by (auto simp: in_set_conv_nth)
  consider "i < j" | "j < i" | "i = j" by linarith
  then show ?thesis
  proof cases
    case 1
    then show ?thesis using sorted_wrt_nth_less [OF assms(1) 1 ij(3)] ij by simp
  next
    case 2
    then show ?thesis using sorted_wrt_nth_less [OF assms(1) 2 ij(1)] ij assms(2) by auto
  next
    case 3
    then show ?thesis using ij assms(3) by simp
  qed
qed

lemma version_rules_imp: "version_rules cx ds \<Longrightarrow> module_rules cx (set ds)"
proof -
  assume v: "version_rules cx ds"
  then have "sorted_wrt (\<lambda>a b. \<not> collide a b) ds" by (simp add: version_rules_def)
  then have c: "\<not> collide a b" if "a \<in> set ds" "b \<in> set ds" for a b
    by (rule sorted_wrt_sym [OF _ collide_sym collide_irrefl that])
  have p: "port_allowed cx d" if "d \<in> set ds" for d using v that by (simp add: version_rules_def)
  show ?thesis unfolding module_rules_def using c p rules_of_group [OF v] by blast
qed

lemma group_members:
  assumes "g \<in> set (version_groups ds)"
  obtains key where "g = sort_key (\<lambda>d. minorVersion (sem_info d)) (filter (\<lambda>d. group_key d = key) ds)"
  using assms by (auto simp: version_groups_def)

lemma module_rules_imp:
  assumes d: "versions_distinct ds" and r: "module_rules cx (set ds)"
  shows "version_rules cx ds"
  unfolding version_rules_def
proof (intro conjI ballI)
  fix g assume g: "g \<in> set (version_groups ds)"
  let ?k = "\<lambda>d. minorVersion (sem_info d)"
  obtain key where key: "g = sort_key ?k (filter (\<lambda>d. group_key d = key) ds)" using g by (rule group_members)
  have m: "a \<in> set g \<Longrightarrow> a \<in> set ds \<and> group_key a = key" for a by (simp add: key)
  have h: "hd g \<in> set g" using version_groups_nonempty [OF g] by simp
  have "distinct (map ?k (filter (\<lambda>d. group_key d = key) ds))"
    using d by (auto simp: versions_distinct_def distinct_map inj_on_def)
  then have "distinct (map ?k g)" by (auto simp: key distinct_map)
  then have "sorted_wrt (\<lambda>a b. ?k a < ?k b) g"
    using sorted_sort_key [of ?k "filter (\<lambda>d. group_key d = key) ds"] strict_sorted_iff [of "map ?k g"]
    by (simp add: key [symmetric] sorted_wrt_map)
  then have "sorted_wrt port_kept g"
  proof (rule sorted_wrt_mono_rel [rotated])
    fix a b assume "a \<in> set g" "b \<in> set g" "?k a < ?k b"
    then show "port_kept a b" using r m by (auto simp: module_rules_def)
  qed
  then show "group_consistent g" using r m h unfolding group_consistent_def module_rules_def by metis
next
  show "sorted_wrt (\<lambda>a b. \<not> collide a b) ds"
    using r by (intro sorted_wrt_mono_rel [OF _ sorted_wrt_true]) (auto simp: module_rules_def)
next
  fix x assume "x \<in> set ds"
  then show "port_allowed cx x" using r by (simp add: module_rules_def)
qed

lemma version_rules_unordered: "versions_distinct ds \<Longrightarrow> version_rules cx ds \<longleftrightarrow> module_rules cx (set ds)"
  using version_rules_imp module_rules_imp by blast

end
