(* ===== verification/AliasLayoutFacts.thy ===== *)
theory AliasLayoutFacts
  imports AliasLayout
begin

text \<open>
  What the verdicts of the alias layout mean. A section is flat when its fields lie one behind the other
  at whole bytes and have fixed sizes, all the way down; the first walk accepts only such sections,
  although it remembers verdicts and stops at sections that it is visiting. The second walk accepts a
  section only if the structure in memory has every field at the byte and with the size that it has on
  the wire. Annotating a module sets nothing but the verdicts and the marks of views.
\<close>

subsection \<open>Flat sections\<close>

text \<open>The number of bits that a field takes on the wire, and the fields of a list with their offsets.\<close>

definition wire_bits :: "layout_context \<Rightarrow> SemanticField \<Rightarrow> int" where
  "wire_bits lc f =
     (let t = resolvedType f
      in if sf_isPadding f \<or> scalarCategory t \<noteq> CatComposite then elementBits t * elementCount t
         else case compositeType t of
           None \<Rightarrow> 0
         | Some ref \<Rightarrow>
             (case find_section lc (keyOf ref False) of
                None \<Rightarrow> 0 | Some (_, nested) \<Rightarrow> maxBitLength nested * elementCount t))"

fun offsets :: "layout_context \<Rightarrow> int \<Rightarrow> SemanticField list \<Rightarrow> (int \<times> SemanticField) list" where
  "offsets lc b [] = []"
| "offsets lc b (f # fs) = (b, f) # offsets lc (b + wire_bits lc f) fs"

definition total_bits :: "layout_context \<Rightarrow> SemanticSection \<Rightarrow> int" where
  "total_bits lc sec = sum_list (map (wire_bits lc) (section_fields sec))"

definition whole_bytes :: "SemanticField \<Rightarrow> bool" where
  "whole_bytes f \<longleftrightarrow> 0 < elementBits (resolvedType f) \<and>
     elementBits (resolvedType f) * elementCount (resolvedType f) mod 8 = 0"

inductive flat_section :: "layout_context \<Rightarrow> SemanticSection \<Rightarrow> bool" for lc where
  flat: "\<lbrakk> \<not> isUnion sec; is_sealed sec; fixedSize sec; total_bits lc sec mod 8 = 0; i64 (total_bits lc sec);
           \<exists>f\<in>set (section_fields sec). \<not> sf_isPadding f;
           \<forall>(b, f)\<in>set (offsets lc 0 (section_fields sec)). \<not> sf_isPadding f \<longrightarrow>
             b mod 8 = 0 \<and> \<not> isVariableLength (ft_arrayKind (resolvedType f)) \<and>
             (if scalarCategory (resolvedType f) = CatComposite
              then \<exists>ref sid nested. compositeType (resolvedType f) = Some ref \<and>
                     find_section lc (keyOf ref False) = Some (sid, nested) \<and> flat_section lc nested
              else whole_bytes f) \<rbrakk>
         \<Longrightarrow> flat_section lc sec"

abbreviation flat_field :: "layout_context \<Rightarrow> SemanticField \<Rightarrow> bool" where
  "flat_field lc f \<equiv> \<not> isVariableLength (ft_arrayKind (resolvedType f)) \<and>
     (if scalarCategory (resolvedType f) = CatComposite
      then \<exists>ref sid nested. compositeType (resolvedType f) = Some ref \<and>
             find_section lc (keyOf ref False) = Some (sid, nested) \<and> flat_section lc nested
      else whole_bytes f)"

lemma find_section_of: "find_section lc key = Some (sid, nested) \<Longrightarrow> section_of lc sid = Some nested"
  by (auto simp: find_section_def Let_def split: option.splits prod.splits)

lemma blocked_holds [simp]: "\<not> layout_holds (blocked reason field)" "\<not> layout_holds (nested_blocker ref field v)"
  "layout_holds holdsVerdict" "layout_holds (image_verdict (image_refused v)) \<longleftrightarrow> layout_holds v"
  by (simp_all add: blocked_def nested_blocker_def holdsVerdict_def image_refused_def)

text \<open>The caches remember only what is so.\<close>

definition flats_ok :: "layout_context \<Rightarrow> layout_state \<Rightarrow> bool" where
  "flats_ok lc s \<longleftrightarrow> (\<forall>sid v sec. wireFlatCache s sid = Some v \<longrightarrow> layout_holds v \<longrightarrow> section_of lc sid = Some sec \<longrightarrow>
     flat_section lc sec)"

text \<open>The first walk changes only its cache and the sections it visits.\<close>

definition walks :: "layout_context \<Rightarrow> (SectionId \<Rightarrow> SemanticSection \<Rightarrow> AliasLayoutVerdict layout) \<Rightarrow> bool" where
  "walks lc nested_flat \<longleftrightarrow> (\<forall>sid nested s v s'. flats_ok lc s \<longrightarrow> section_of lc sid = Some nested \<longrightarrow>
     nested_flat sid nested s = Some (v, s') \<longrightarrow>
     flats_ok lc s' \<and> hostImageCache s' = hostImageCache s \<and> (layout_holds v \<longrightarrow> flat_section lc nested))"

lemma checked_product: "checkedMultiply a b = Some c \<Longrightarrow> c = a * b"
  by (auto simp: checkedMultiply_def split: if_splits)

lemma checked_sum: "checkedAdd a b = Some c \<Longrightarrow> c = a + b"
  by (auto simp: checkedAdd_def split: if_splits)

lemma wire_field_walks:
  assumes w: "walks lc nested_flat" and s: "flats_ok lc s" and f: "wire_field lc nested_flat f s = Some (r, s')"
    and p: "\<not> sf_isPadding f"
  shows "flats_ok lc s' \<and> hostImageCache s' = hostImageCache s \<and>
    (case r of Inl v \<Rightarrow> \<not> layout_holds v | Inr n \<Rightarrow> n = wire_bits lc f \<and> flat_field lc f)"
proof (cases "isVariableLength (ft_arrayKind (resolvedType f))")
  case True
  then show ?thesis using f s by (auto simp: wire_field_def Let_def)
next
  case fixed: False
  show ?thesis
  proof (cases "scalarCategory (resolvedType f) = CatComposite")
    case False
    then show ?thesis using f s p fixed
      by (auto simp: wire_field_def Let_def wire_bits_def field_bits_def whole_bytes_def Option.bind_eq_Some_conv
        dest!: checked_product split: if_splits)
  next
    case True
    show ?thesis
    proof (cases "\<exists>ref sid nested. compositeType (resolvedType f) = Some ref \<and> find_section lc (keyOf ref False) = Some (sid, nested)")
      case False
      then have "\<exists>v. r = Inl v \<and> \<not> layout_holds v \<and> s' = s"
        using f fixed True by (auto simp: wire_field_def Let_def split: option.splits)
      then show ?thesis using s by auto
    next
      case found: True
      then obtain ref sid nested where n: "compositeType (resolvedType f) = Some ref"
        "find_section lc (keyOf ref False) = Some (sid, nested)" by blast
      obtain v s1 where v: "nested_flat sid nested s = Some (v, s1)"
        and r: "(if \<not> layout_holds v then Some (Inl (nested_blocker ref (sf_name f) v), s1)
            else do { width \<leftarrow> field_bits (maxBitLength nested) (resolvedType f); Some (Inr width, s1) }) = Some (r, s')"
        using f fixed True n by (auto simp: wire_field_def Let_def Option.bind_eq_Some_conv)
      have "flats_ok lc s1 \<and> hostImageCache s1 = hostImageCache s \<and> (layout_holds v \<longrightarrow> flat_section lc nested)"
        using w s find_section_of [OF n(2)] v unfolding walks_def by blast
      then show ?thesis using r fixed True n p
        by (auto simp: wire_bits_def field_bits_def Let_def Option.bind_eq_Some_conv dest!: checked_product split: if_splits)
    qed
  qed
qed

lemma wire_fields_walks:
  assumes w: "walks lc nested_flat"
  shows "flats_ok lc s \<Longrightarrow> wire_fields lc nested_flat fs b has s = Some (r, s') \<Longrightarrow>
    flats_ok lc s' \<and> hostImageCache s' = hostImageCache s \<and>
    (case r of
       Inl v \<Rightarrow> \<not> layout_holds v
     | Inr (b', has') \<Rightarrow> b' = b + sum_list (map (wire_bits lc) fs) \<and> (i64 b \<longrightarrow> i64 b') \<and> (has' \<longleftrightarrow> has \<or> (\<exists>f\<in>set fs. \<not> sf_isPadding f)) \<and>
         (\<forall>(z, f)\<in>set (offsets lc b fs). \<not> sf_isPadding f \<longrightarrow> z mod 8 = 0 \<and> flat_field lc f))"
proof (induction fs arbitrary: b has s)
  case (Cons f fs)
  show ?case
  proof (cases "sf_isPadding f")
    case True
    then obtain width b1 where 1: "field_bits (elementBits (resolvedType f)) (resolvedType f) = Some width"
      "checkedAdd b width = Some b1" "wire_fields lc nested_flat fs b1 has s = Some (r, s')"
      using Cons.prems(2) by (auto simp: Option.bind_eq_Some_conv)
    have "b1 = b + wire_bits lc f" "i64 b1"
      using 1(1,2) True by (auto simp: field_bits_def wire_bits_def Let_def checkedAdd_def dest!: checked_product split: if_splits)
    then show ?thesis using Cons.IH [OF Cons.prems(1) 1(3)] True by (auto split: sum.splits)
  next
    case False
    show ?thesis
    proof (cases "b mod 8 = 0")
      case True
      obtain q s1 where q: "wire_field lc nested_flat f s = Some (q, s1)"
        using Cons.prems(2) False True by (auto simp: Option.bind_eq_Some_conv)
      note W = wire_field_walks [OF w Cons.prems(1) q False]
      show ?thesis
      proof (cases q)
        case (Inl v)
        then show ?thesis using Cons.prems(2) False True q W by auto
      next
        case (Inr width)
        then obtain b1 where b1: "checkedAdd b width = Some b1" "wire_fields lc nested_flat fs b1 True s1 = Some (r, s')"
          using Cons.prems(2) False True q by (auto simp: Option.bind_eq_Some_conv)
        have "b1 = b + wire_bits lc f" "i64 b1" using W Inr b1(1) by (auto simp: checkedAdd_def split: if_splits)
        moreover have "flats_ok lc s1" "hostImageCache s1 = hostImageCache s" "flat_field lc f" using W Inr by auto
        ultimately show ?thesis using Cons.IH [OF _ b1(2)] False True by (auto split: sum.splits)
      qed
    next
      case unaligned: False
      then show ?thesis using Cons.prems False by auto
    qed
  qed
qed auto

lemma computeWireFlat_walks:
  assumes "walks lc nested_flat" "flats_ok lc s" "computeWireFlat lc nested_flat sec s = Some (v, s')"
  shows "flats_ok lc s' \<and> hostImageCache s' = hostImageCache s \<and> (layout_holds v \<longrightarrow> flat_section lc sec)"
proof (cases "isUnion sec")
  case True
  then show ?thesis using assms by (auto simp: computeWireFlat_def)
next
  case False
  then obtain r s1 where r: "wire_fields lc nested_flat (section_fields sec) 0 False s = Some (r, s1)" "s' = s1"
    "v = (case r of Inl v \<Rightarrow> v | Inr (b, has) \<Rightarrow> section_verdict sec b has)"
    using assms(3) by (auto simp: computeWireFlat_def Option.bind_eq_Some_conv)
  note W = wire_fields_walks [OF assms(1,2) r(1)]
  have "flat_section lc sec" if holds: "layout_holds v"
  proof -
    obtain b has where b: "r = Inr (b, has)" "layout_holds (section_verdict sec b has)"
      using W holds r(3) by (cases r) auto
    then have c: "has" "b mod 8 = 0" "is_sealed sec" "fixedSize sec" by (auto simp: section_verdict_def split: if_splits)
    have "b = total_bits lc sec" "i64 b"
      using W b(1) by (simp_all add: total_bits_def i64_def int64_min_def int64_max_def)
    then show ?thesis using W b(1) c False by (intro flat_section.flat) auto
  qed
  then show ?thesis using W r(2) by blast
qed

lemma wire_flat_walks: "walks lc (wire_flat_within n lc)"
proof (induction n)
  case (Suc n)
  show ?case unfolding walks_def
  proof (intro allI impI)
    fix sid nested s v s'
    assume s: "flats_ok lc s" "section_of lc sid = Some nested" "wire_flat_within (Suc n) lc sid nested s = Some (v, s')"
    show "flats_ok lc s' \<and> hostImageCache s' = hostImageCache s \<and> (layout_holds v \<longrightarrow> flat_section lc nested)"
    proof (cases "wireFlatCache s sid")
      case (Some u)
      then show ?thesis using s by (auto simp: flats_ok_def)
    next
      case None
      show ?thesis
      proof (cases "sid \<in> visiting s")
        case True
        then show ?thesis using s None by auto
      next
        case False
        let ?s = "s\<lparr>visiting := insert sid (visiting s)\<rparr>"
        obtain s1 where s1: "computeWireFlat lc (wire_flat_within n lc) nested ?s = Some (v, s1)"
          "s' = s1\<lparr>visiting := visiting s1 - {sid}, wireFlatCache := (wireFlatCache s1)(sid \<mapsto> v)\<rparr>"
          using s(3) None False by (auto simp: Option.bind_eq_Some_conv)
        have "flats_ok lc ?s" using s(1) by (simp add: flats_ok_def)
        note C = computeWireFlat_walks [OF Suc this s1(1)]
        have "flats_ok lc s'" using C s(2) s1(2) by (auto simp: flats_ok_def)
        then show ?thesis using C s1(2) by simp
      qed
    qed
  qed
qed (simp add: walks_def)

lemma decide_wireFlat_walks: "walks lc (decide_wireFlat lc)"
  unfolding decide_wireFlat_def by (rule wire_flat_walks)

subsection \<open>Mirrored sections\<close>

text \<open>
  The structure in memory has a member for every field, at the byte and with the size of the field on
  the wire, and scalars at multiples of their size.
\<close>

definition mirrors :: "layout_context \<Rightarrow> SemanticField list \<Rightarrow> HostImageMember list \<Rightarrow> bool" where
  "mirrors lc fs ms \<longleftrightarrow>
     map member_fieldName ms = map sf_name fs \<and>
     map (\<lambda>m. 8 * offsetBytes m) ms = map fst (offsets lc 0 fs) \<and>
     map (\<lambda>m. 8 * sizeBytes m) ms = map (wire_bits lc) fs \<and>
     (\<forall>f\<in>set fs. \<not> sf_isPadding f \<and> \<not> heldAsView f)"

text \<open>What the analyzer promises of the length of a flat section.\<close>

definition lengths_consistent :: "layout_context \<Rightarrow> bool" where
  "lengths_consistent lc \<longleftrightarrow>
     (\<forall>sid sec. section_of lc sid = Some sec \<longrightarrow> flat_section lc sec \<longrightarrow> maxBitLength sec = total_bits lc sec)"

definition image_good :: "layout_context \<Rightarrow> SemanticSection \<Rightarrow> ResolvedImage \<Rightarrow> bool" where
  "image_good lc sec img \<longleftrightarrow> (layout_holds (image_verdict img) \<longrightarrow> flat_section lc sec \<and>
     8 * extent_sizeBytes (image_extent img) = total_bits lc sec \<and>
     mirrors lc (section_fields sec) (image_members img))"

definition images_ok :: "layout_context \<Rightarrow> layout_state \<Rightarrow> bool" where
  "images_ok lc s \<longleftrightarrow> flats_ok lc s \<and>
     (\<forall>sid img sec. hostImageCache s sid = Some img \<longrightarrow> section_of lc sid = Some sec \<longrightarrow> image_good lc sec img)"

definition builds_images :: "layout_context \<Rightarrow> (SemanticSection \<Rightarrow> ResolvedImage layout) \<Rightarrow> bool" where
  "builds_images lc nested_image \<longleftrightarrow> (\<forall>sid nested s img s'. images_ok lc s \<longrightarrow> section_of lc sid = Some nested \<longrightarrow>
     nested_image nested s = Some (img, s') \<longrightarrow> images_ok lc s' \<and> image_good lc nested img)"

lemma images_ok_visiting [simp]: "images_ok lc (s\<lparr>visiting := X\<rparr>) \<longleftrightarrow> images_ok lc s"
  by (simp add: images_ok_def flats_ok_def)

lemma images_ok_remember:
  "images_ok lc s \<Longrightarrow> section_of lc sid = Some sec \<Longrightarrow> image_good lc sec img \<Longrightarrow>
    images_ok lc (s\<lparr>visiting := X, hostImageCache := (hostImageCache s)(sid \<mapsto> img)\<rparr>)"
  by (auto simp: images_ok_def flats_ok_def)

lemma image_refused_good [simp]: "\<not> layout_holds v \<Longrightarrow> image_good lc sec (image_refused v)"
  by (simp add: image_good_def)

lemma host_scalar_bits:
  assumes "host_scalar f = Inr e" "\<not> sf_isPadding f" "scalarCategory (resolvedType f) \<noteq> CatComposite"
  shows "8 * (extent_sizeBytes e * elementCount (resolvedType f)) = wire_bits lc f"
proof -
  define b where "b = ft_bitLength (resolvedType f)"
  define w where "w = (if scalarCategory (resolvedType f) = CatFloat then floatStorageBits b else scalarStorageBits b)"
  have w: "w = 8 \<or> w = 16 \<or> w = 32 \<or> w = 64" by (simp add: w_def scalarStorageBits_def floatStorageBits_def)
  have h: "host_scalar f = (if w \<noteq> b then Inl (blocked StorageWidth (sf_name f))
      else Inr \<lparr>extent_sizeBytes = uint (b div 8), extent_alignBytes = uint (b div 8)\<rparr>)"
    by (simp only: host_scalar_def Let_def b_def w_def)
  have "w = b" using assms(1) h by (cases "w = b") simp_all
  then have "8 * extent_sizeBytes e = uint b" using w assms(1) h by (elim disjE) auto
  then show ?thesis using assms(2,3) by (simp add: wire_bits_def elementBits_def Let_def b_def)
qed

text \<open>The judgement of an element: a refusal, or the size of the field in bytes.\<close>

lemma host_composite_good:
  assumes c: "lengths_consistent lc" and n: "builds_images lc nested_image" and s: "images_ok lc s"
    and f: "\<not> sf_isPadding f" "scalarCategory (resolvedType f) = CatComposite"
    and h: "host_composite lc nested_image f s = Some (r, s')"
  shows "images_ok lc s' \<and> (case r of Inl v \<Rightarrow> \<not> layout_holds v
    | Inr e \<Rightarrow> 8 * (extent_sizeBytes e * elementCount (resolvedType f)) = wire_bits lc f)"
proof -
  obtain ref where ref: "compositeType (resolvedType f) = Some ref" using h by (auto simp: host_composite_def split: option.splits)
  show ?thesis
  proof (cases "find_section lc (keyOf ref False)")
    case None
    then show ?thesis using h ref s by (auto simp: host_composite_def)
  next
    case (Some p)
    obtain sid nested where p: "p = (sid, nested)" by (cases p)
    note sec = find_section_of [OF Some [unfolded p]]
    have J: "case (if layout_holds (image_verdict img) then Inr (image_extent img) else Inl (blocked NestedNotFlat (sf_name f))) of
        Inl v \<Rightarrow> \<not> layout_holds v | Inr e \<Rightarrow> 8 * (extent_sizeBytes e * elementCount (resolvedType f)) = wire_bits lc f"
      if "image_good lc nested img" for img
    proof (cases "layout_holds (image_verdict img)")
      case True
      then have "8 * extent_sizeBytes (image_extent img) = maxBitLength nested"
        using that c sec by (simp add: image_good_def lengths_consistent_def)
      then show ?thesis using True f ref Some p by (simp add: wire_bits_def Let_def)
    qed simp
    show ?thesis
    proof (cases "hostImageCache s sid")
      case (Some img)
      then have "image_good lc nested img" using s sec by (auto simp: images_ok_def)
      then show ?thesis using J h ref \<open>find_section lc (keyOf ref False) = Some p\<close> p Some s by (auto simp: host_composite_def)
    next
      case fresh: None
      show ?thesis
      proof (cases "sid \<in> visiting s")
        case True
        then show ?thesis using h ref Some p fresh s by (auto simp: host_composite_def)
      next
        case False
        obtain img s1 where i: "nested_image nested (s\<lparr>visiting := insert sid (visiting s)\<rparr>) = Some (img, s1)"
          "r = (if layout_holds (image_verdict img) then Inr (image_extent img) else Inl (blocked NestedNotFlat (sf_name f)))"
          "s' = s1\<lparr>visiting := visiting s1 - {sid}, hostImageCache := (hostImageCache s1)(sid \<mapsto> img)\<rparr>"
          using h ref Some p fresh False by (auto simp: host_composite_def Let_def Option.bind_eq_Some_conv)
        have "images_ok lc s1 \<and> image_good lc nested img"
          using n s sec i(1) unfolding builds_images_def by (metis images_ok_visiting)
        then show ?thesis using J [of img] images_ok_remember [OF _ sec] i(2,3) by simp
      qed
    qed
  qed
qed

lemma host_element_good:
  assumes "lengths_consistent lc" "builds_images lc nested_image" "images_ok lc s"
    and h: "host_element lc nested_image f s = Some (r, s')"
  shows "images_ok lc s' \<and> (case r of Inl v \<Rightarrow> \<not> layout_holds v
    | Inr e \<Rightarrow> \<not> sf_isPadding f \<and> \<not> heldAsView f \<and> 8 * (extent_sizeBytes e * elementCount (resolvedType f)) = wire_bits lc f)"
proof (cases "sf_isPadding f \<or> heldAsView f")
  case True
  then have "\<exists>v. r = Inl v \<and> \<not> layout_holds v \<and> s' = s"
    using h by (cases "sf_isPadding f") (auto simp: host_element_def)
  then show ?thesis using assms(3) by auto
next
  case False
  show ?thesis
  proof (cases "scalarCategory (resolvedType f) = CatComposite")
    case True
    then show ?thesis using host_composite_good [OF assms(1-3) _ True] h False by (auto simp: host_element_def split: sum.splits)
  next
    case scalar: False
    then have "r = host_scalar f" "s' = s" using h False by (auto simp: host_element_def)
    moreover have "host_scalar f = Inl v \<Longrightarrow> v = blocked StorageWidth (sf_name f)" for v
      unfolding host_scalar_def Let_def by (metis Inl_inject sum.distinct(1))
    then have "host_scalar f = Inl v \<Longrightarrow> \<not> layout_holds v" for v using blocked_holds(1) by blast
    ultimately show ?thesis using host_scalar_bits [of f _ lc] scalar False assms(3) by (auto split: sum.splits)
  qed
qed

definition mirrored_from :: "layout_context \<Rightarrow> int \<Rightarrow> SemanticField list \<Rightarrow> HostImageMember list \<Rightarrow> bool" where
  "mirrored_from lc b fs ms \<longleftrightarrow>
     map member_fieldName ms = map sf_name fs \<and>
     map (\<lambda>m. 8 * offsetBytes m) ms = map fst (offsets lc (8 * b) fs) \<and>
     map (\<lambda>m. 8 * sizeBytes m) ms = map (wire_bits lc) fs \<and>
     (\<forall>f\<in>set fs. \<not> sf_isPadding f \<and> \<not> heldAsView f)"

lemma mirrored_from_Nil [simp]: "mirrored_from lc b [] ms \<longleftrightarrow> ms = []"
  by (auto simp: mirrored_from_def)

lemma mirrored_from_Cons:
  "\<not> sf_isPadding f \<Longrightarrow> \<not> heldAsView f \<Longrightarrow> 8 * n = wire_bits lc f \<Longrightarrow> mirrored_from lc (b + n) fs ms \<Longrightarrow>
    mirrored_from lc b (f # fs) (\<lparr>member_fieldName = sf_name f, offsetBytes = b, sizeBytes = n\<rparr> # ms)"
  by (auto simp: mirrored_from_def algebra_simps)

lemma host_fields_good:
  assumes c: "lengths_consistent lc" and n: "builds_images lc nested_image"
  shows "images_ok lc s \<Longrightarrow> host_fields lc nested_image fs b align ms s = Some (img, s') \<Longrightarrow>
    images_ok lc s' \<and> (layout_holds (image_verdict img) \<longrightarrow>
      (\<exists>ms'. image_members img = ms @ ms' \<and> mirrored_from lc b fs ms' \<and>
         8 * extent_sizeBytes (image_extent img) = 8 * b + sum_list (map (wire_bits lc) fs)))"
proof (induction fs arbitrary: b align ms s)
  case Nil
  then show ?case by (auto split: if_splits)
next
  case (Cons f fs)
  obtain r s1 where r: "host_element lc nested_image f s = Some (r, s1)"
    using Cons.prems(2) by (auto simp: Option.bind_eq_Some_conv)
  note E = host_element_good [OF c n Cons.prems(1) r]
  show ?case
  proof (cases r)
    case (Inl v)
    then show ?thesis using Cons.prems(2) r E by auto
  next
    case (Inr e)
    show ?thesis
    proof (cases "b mod extent_alignBytes e = 0")
      case False
      then show ?thesis using Cons.prems(2) r E Inr by auto
    next
      case True
      then obtain size b1 where q: "checkedMultiply (extent_sizeBytes e) (elementCount (resolvedType f)) = Some size"
        "checkedAdd b size = Some b1"
        "host_fields lc nested_image fs b1 (max align (extent_alignBytes e))
           (ms @ [\<lparr>member_fieldName = sf_name f, offsetBytes = b, sizeBytes = size\<rparr>]) s1 = Some (img, s')"
        using Cons.prems(2) r Inr by (auto simp: Option.bind_eq_Some_conv)
      have b1: "b1 = b + size" by (rule checked_sum [OF q(2)])
      have size: "8 * size = wire_bits lc f" "\<not> sf_isPadding f" "\<not> heldAsView f"
        using E Inr checked_product [OF q(1)] by simp_all
      have "images_ok lc s1" using E by blast
      note I = Cons.IH [OF this q(3) [unfolded b1]]
      show ?thesis
      proof (intro conjI impI)
        show "images_ok lc s'" using I by blast
        assume "layout_holds (image_verdict img)"
        then obtain ms' where m: "image_members img = (ms @ [\<lparr>member_fieldName = sf_name f, offsetBytes = b, sizeBytes = size\<rparr>]) @ ms'"
          "mirrored_from lc (b + size) fs ms'" "8 * extent_sizeBytes (image_extent img) = 8 * (b + size) + sum_list (map (wire_bits lc) fs)"
          using I by blast
        then show "\<exists>ms'. image_members img = ms @ ms' \<and> mirrored_from lc b (f # fs) ms' \<and>
            8 * extent_sizeBytes (image_extent img) = 8 * b + sum_list (map (wire_bits lc) (f # fs))"
          using mirrored_from_Cons [OF size(2,3,1) m(2)] size(1)
          by (intro exI [of _ "\<lparr>member_fieldName = sf_name f, offsetBytes = b, sizeBytes = size\<rparr> # ms'"]) simp
      qed
    qed
  qed
qed

lemma host_image_builds:
  assumes c: "lengths_consistent lc" and w: "walks lc nested_flat"
  shows "builds_images lc (host_image_within n lc nested_flat)"
proof (induction n)
  case (Suc n)
  show ?case unfolding builds_images_def
  proof (intro allI impI)
    fix sid nested s img s'
    assume s: "images_ok lc s" "section_of lc sid = Some nested" "host_image_within (Suc n) lc nested_flat nested s = Some (img, s')"
    obtain v s1 where v: "computeWireFlat lc nested_flat nested s = Some (v, s1)"
      using s(3) by (auto simp: Option.bind_eq_Some_conv)
    have F: "flats_ok lc s1 \<and> hostImageCache s1 = hostImageCache s \<and> (layout_holds v \<longrightarrow> flat_section lc nested)"
      using computeWireFlat_walks [OF w _ v] s(1) by (simp add: images_ok_def)
    then have s1: "images_ok lc s1" using s(1) by (simp add: images_ok_def)
    show "images_ok lc s' \<and> image_good lc nested img"
    proof (cases "layout_holds v")
      case False
      then show ?thesis using s(3) v s1 by auto
    next
      case True
      then have h: "host_fields lc (host_image_within n lc nested_flat) (section_fields nested) 0 1 [] s1 = Some (img, s')"
        using s(3) v by simp
      note H = host_fields_good [OF c Suc s1 h]
      then show ?thesis using F True
        by (auto simp: image_good_def mirrors_def mirrored_from_def total_bits_def)
    qed
  qed
qed (simp add: builds_images_def)

lemma decide_hostImage_good:
  assumes c: "lengths_consistent lc" and s: "images_ok lc s" "section_of lc sid = Some sec"
    and d: "decide_hostImage lc sid sec s = Some (v, s')"
  shows "images_ok lc s' \<and> (layout_holds v \<longrightarrow> (\<exists>img. hostImageCache s' sid = Some img \<and> image_verdict img = v))"
proof (cases "hostImageCache s sid")
  case (Some img)
  then show ?thesis using d s(1) by (auto simp: decide_hostImage_def)
next
  case None
  show ?thesis
  proof (cases "sid \<in> visiting s")
    case True
    then show ?thesis using d None s(1) by (auto simp: decide_hostImage_def)
  next
    case False
    obtain img s1 where i: "host_image_within (section_bound lc) lc (decide_wireFlat lc) sec (s\<lparr>visiting := insert sid (visiting s)\<rparr>) = Some (img, s1)"
      "v = image_verdict img" "s' = s1\<lparr>visiting := visiting s1 - {sid}, hostImageCache := (hostImageCache s1)(sid \<mapsto> img)\<rparr>"
      using d None False by (auto simp: decide_hostImage_def Option.bind_eq_Some_conv)
    have "images_ok lc s1 \<and> image_good lc sec img"
      using host_image_builds [OF c decide_wireFlat_walks] s i(1) unfolding builds_images_def by (metis images_ok_visiting)
    then show ?thesis using images_ok_remember [OF _ s(2)] i(2,3) by simp
  qed
qed

subsection \<open>Annotating\<close>

text \<open>What annotating leaves of a section, without the verdicts and the marks of views.\<close>

definition bare_section :: "SemanticSection \<Rightarrow> SemanticSection" where
  "bare_section sec = sec\<lparr>wireFlat := default_verdict, hostImage := default_verdict, hostImageMembers := [],
     section_fields := map (\<lambda>f. f\<lparr>heldAsView := False\<rparr>) (section_fields sec)\<rparr>"

definition bare :: "SemanticDefinition \<Rightarrow> SemanticDefinition" where
  "bare = map_sections bare_section"

definition sections_of :: "SemanticDefinition \<Rightarrow> SemanticSection list" where
  "sections_of d = request d # (case response d of None \<Rightarrow> [] | Some r \<Rightarrow> [r])"

text \<open>A section whose verdicts are right.\<close>

definition verdicts_right :: "layout_context \<Rightarrow> SemanticSection \<Rightarrow> bool" where
  "verdicts_right lc sec \<longleftrightarrow> (layout_holds (wireFlat sec) \<longrightarrow> flat_section lc sec) \<and>
     (layout_holds (hostImage sec) \<longrightarrow> flat_section lc sec \<and> mirrors lc (section_fields sec) (hostImageMembers sec))"

lemma flat_section_verdicts:
  "flat_section lc sec \<Longrightarrow> flat_section lc (sec\<lparr>wireFlat := a, hostImage := b, hostImageMembers := ms\<rparr>)"
  by (erule flat_section.cases) (auto intro!: flat_section.flat simp: total_bits_def)

lemma annotate_right:
  assumes c: "lengths_consistent lc" and s: "images_ok lc s" "section_of lc sid = Some sec"
    and a: "annotate lc sid sec s = Some (sec', s')"
  shows "images_ok lc s' \<and> verdicts_right lc sec' \<and> bare_section sec' = bare_section sec"
proof -
  obtain flat s1 img s2 ms where q: "decide_wireFlat lc sid sec s = Some (flat, s1)"
    "decide_hostImage lc sid sec s1 = Some (img, s2)" "s' = s2"
    "(if layout_holds img then map_option image_members (hostImageCache s2 sid) else Some (hostImageMembers sec)) = Some ms"
    "sec' = sec\<lparr>wireFlat := flat, hostImage := img, hostImageMembers := ms\<rparr>"
    using a by (auto simp: annotate_def Option.bind_eq_Some_conv split del: if_split)
  have F: "flats_ok lc s1 \<and> hostImageCache s1 = hostImageCache s \<and> (layout_holds flat \<longrightarrow> flat_section lc sec)"
    using decide_wireFlat_walks [of lc] s q(1) unfolding walks_def images_ok_def by blast
  then have s1: "images_ok lc s1" using s(1) by (simp add: images_ok_def)
  note H = decide_hostImage_good [OF c s1 s(2) q(2)]
  have "flat_section lc sec \<and> mirrors lc (section_fields sec) ms" if holds: "layout_holds img"
  proof -
    obtain i where i: "hostImageCache s2 sid = Some i" "image_verdict i = img" using H holds by blast
    then have "image_good lc sec i" using H s(2) by (auto simp: images_ok_def)
    then show ?thesis using i q(4) holds by (auto simp: image_good_def)
  qed
  moreover have "layout_holds flat \<Longrightarrow> flat_section lc sec'" "flat_section lc sec \<Longrightarrow> flat_section lc sec'"
    using F flat_section_verdicts unfolding q(5) by blast+
  moreover have e: "wireFlat sec' = flat" "hostImage sec' = img" "hostImageMembers sec' = ms" "section_fields sec' = section_fields sec"
    by (simp_all add: q(5))
  ultimately have "verdicts_right lc sec'" unfolding verdicts_right_def e by blast
  moreover have "bare_section sec' = bare_section sec" by (simp add: bare_section_def q(5))
  ultimately show ?thesis using H q(3) by blast
qed

lemma section_of_local:
  "i < length (layout_module lc) \<Longrightarrow> section_of lc (SectionId True i False) = Some (request (layout_module lc ! i))"
  "i < length (layout_module lc) \<Longrightarrow> section_of lc (SectionId True i True) = response (layout_module lc ! i)"
  by (simp_all add: section_of_def Let_def)

definition definition_right :: "layout_context \<Rightarrow> SemanticDefinition \<Rightarrow> SemanticDefinition \<Rightarrow> bool" where
  "definition_right lc d d' \<longleftrightarrow> bare d' = bare d \<and> (\<forall>sec\<in>set (sections_of d'). verdicts_right lc sec)"

lemma annotate_definition_right:
  assumes c: "lengths_consistent lc" and s: "images_ok lc s" and i: "i < length (layout_module lc)" "d = layout_module lc ! i"
    and a: "annotate_definition lc i d s = Some (d', s')"
  shows "images_ok lc s' \<and> definition_right lc d d'"
proof -
  obtain req s1 where r: "annotate lc (SectionId True i False) (request d) s = Some (req, s1)"
    using a by (auto simp: annotate_definition_def Option.bind_eq_Some_conv)
  have sec: "section_of lc (SectionId True i False) = Some (request d)" using section_of_local(1) [OF i(1)] i(2) by simp
  note R = annotate_right [OF c s sec r]
  show ?thesis
  proof (cases "response d")
    case None
    then show ?thesis using a r R
      by (auto simp: annotate_definition_def definition_right_def bare_def map_sections_def sections_of_def)
  next
    case (Some resp)
    then obtain resp' s2 where q: "annotate lc (SectionId True i True) resp s1 = Some (resp', s2)"
      "d' = d\<lparr>request := req, response := Some resp'\<rparr>" "s' = s2"
      using a r by (auto simp: annotate_definition_def Option.bind_eq_Some_conv)
    have "section_of lc (SectionId True i True) = Some resp" using section_of_local(2) [OF i(1)] i(2) Some by simp
    note Q = annotate_right [OF c _ this q(1)]
    then show ?thesis using R q(2,3) Some
      by (auto simp: definition_right_def bare_def map_sections_def sections_of_def)
  qed
qed

lemma annotate_definitions_right:
  assumes c: "lengths_consistent lc"
  shows "images_ok lc s \<Longrightarrow> i + length ds = length (layout_module lc) \<Longrightarrow> ds = drop i (layout_module lc) \<Longrightarrow>
    annotate_definitions lc i ds s = Some (ds', s') \<Longrightarrow> list_all2 (definition_right lc) ds ds'"
proof (induction ds arbitrary: i s ds')
  case (Cons d ds)
  obtain d' s1 ds1 where q: "annotate_definition lc i d s = Some (d', s1)"
    "annotate_definitions lc (Suc i) ds s1 = Some (ds1, s')" "ds' = d' # ds1"
    using Cons.prems(4) by (auto simp: Option.bind_eq_Some_conv)
  have i: "i < length (layout_module lc)" using Cons.prems(2) by simp
  have d: "d = layout_module lc ! i" "ds = drop (Suc i) (layout_module lc)"
    using Cons.prems(3) Cons_nth_drop_Suc [OF i] by (metis list.inject)+
  note D = annotate_definition_right [OF c Cons.prems(1) i d(1) q(1)]
  then show ?case using Cons.IH [of s1 "Suc i" ds1] Cons.prems(2) d(2) q(2,3) by simp
qed simp

text \<open>The context in which a module is annotated, with the views marked if they are in use.\<close>

definition annotation_context :: "SemanticModule \<Rightarrow> SemanticModule option \<Rightarrow> bool \<Rightarrow> layout_context" where
  "annotation_context defs catalog views =
     (let lc = \<lparr>layout_module = defs, layout_catalog = catalog, layout_entries = all_entries defs catalog\<rparr>
      in lc\<lparr>layout_module := if views then map (map_sections (markViews lc)) defs else defs\<rparr>)"

lemma annotate_in_context:
  "annotateAliasLayout defs catalog views =
     (let lc = annotation_context defs catalog views
      in map_option fst (annotate_definitions lc 0 (layout_module lc)
           \<lparr>wireFlatCache = Map.empty, hostImageCache = Map.empty, visiting = {}\<rparr>))"
  by (simp add: annotateAliasLayout_def annotation_context_def Let_def)

lemma bare_markViews [simp]: "bare (map_sections (markViews lc) d) = bare d"
proof -
  have "f\<lparr>heldAsView := False\<rparr> = (view_of lc f)\<lparr>heldAsView := False\<rparr>" for f
    by (simp add: view_of_def split: option.splits)
  then have "bare_section (markViews lc sec) = bare_section sec" for sec by (simp add: bare_section_def markViews_def)
  then show ?thesis by (simp add: bare_def map_sections_def option.map_comp comp_def)
qed

lemma annotated:
  assumes "annotateAliasLayout defs catalog views = Some defs'"
  defines "lc \<equiv> annotation_context defs catalog views"
  assumes "lengths_consistent lc"
  shows "map bare defs' = map bare defs" and "d \<in> set defs' \<Longrightarrow> sec \<in> set (sections_of d) \<Longrightarrow> verdicts_right lc sec"
proof -
  obtain s' where a: "annotate_definitions lc 0 (layout_module lc)
      \<lparr>wireFlatCache = Map.empty, hostImageCache = Map.empty, visiting = {}\<rparr> = Some (defs', s')"
    using assms(1) by (auto simp: annotate_in_context Let_def lc_def)
  have A: "list_all2 (definition_right lc) (layout_module lc) defs'"
    by (rule annotate_definitions_right [OF assms(3) _ _ _ a]) (simp_all add: images_ok_def flats_ok_def)
  have "map bare (layout_module lc) = map bare defs" by (simp add: lc_def annotation_context_def Let_def)
  moreover have "map bare defs' = map bare (layout_module lc)"
    using A by (auto simp: list_eq_iff_nth_eq list_all2_conv_all_nth definition_right_def)
  ultimately show "map bare defs' = map bare defs" by simp
  show "d \<in> set defs' \<Longrightarrow> sec \<in> set (sections_of d) \<Longrightarrow> verdicts_right lc sec"
    using A by (auto simp: list_all2_conv_all_nth definition_right_def in_set_conv_nth [of d])
qed

end
