(* ===== verification/EvaluatorEffects.thy ===== *)
theory EvaluatorEffects
  imports EvaluatorTyping
begin

text \<open>
  What an evaluation does to the state that it is given, for every extension of that state. The
  evaluator itself only appends diagnostics and allocates nodes; everything else is done by the
  resolver of type attributes. So any relation between states that is reflexive and transitive, allows
  these two changes and is kept by the resolver holds between the states before and after an
  evaluation. The locale \<open>state_relation\<close> states that; the analyzer interprets it on its own state.
\<close>

text \<open>A symbolic value stands for some set of the store.\<close>

definition value_ok :: "store \<Rightarrow> Value \<Rightarrow> bool" where
  "value_ok g v \<longleftrightarrow> (\<forall>b. v = ValBitLengthSet b \<longrightarrow> (\<exists>A. bls_set g b A))"

definition env_ok :: "store \<Rightarrow> (string \<rightharpoonup> Value) \<Rightarrow> bool" where
  "env_ok g env \<longleftrightarrow> (\<forall>name v. env name = Some v \<longrightarrow> value_ok g v)"

lemma value_ok_concrete [simp]: "\<not> is_symbolic v \<Longrightarrow> value_ok g v"
  by (auto simp: value_ok_def is_symbolic_def)

lemma value_ok_set [simp]: "value_ok g (ValBitLengthSet b) \<longleftrightarrow> (\<exists>A. bls_set g b A)"
  by (simp add: value_ok_def)

lemma value_ok_simps [simp]: "value_ok g (ValBool p)" "value_ok g (ValRational r)" "value_ok g (ValString s)"
  "value_ok g (ValSet xs)" "value_ok g (ValType t)"
  by (simp_all add: value_ok_def)

lemma value_ok_extends: "extends g g' \<Longrightarrow> value_ok g v \<Longrightarrow> value_ok g' v"
  unfolding value_ok_def by (blast intro: extends_set)

lemma env_ok_extends: "extends g g' \<Longrightarrow> env_ok g env \<Longrightarrow> env_ok g' env"
  unfolding env_ok_def by (blast intro: value_ok_extends)

text \<open>The set of an object depends on its root alone.\<close>

lemma bls_set_root: "root b = root b' \<Longrightarrow> bls_set g b A \<longleftrightarrow> bls_set g b' A"
  by (simp add: bls_set_def)

lemma runSet_root: "bls_runSet g b = Some (r, b') \<Longrightarrow> root b' = root b"
  by (auto simp: bls_runSet_def split: option.splits)

lemma modulo_by_runs_root: "modulo_by_runs g b d = Some (r, b') \<Longrightarrow> root b' = root b"
  by (auto simp: modulo_by_runs_def modulo_by_expansion_def dest!: runSet_root split: option.splits prod.splits)

lemma modulo_root: "bls_modulo g b d = Some (r, b') \<Longrightarrow> root b' = root b"
  by (auto simp: bls_modulo_def dest: modulo_by_runs_root split: option.splits if_splits prod.splits bool.splits)

lemma order_verdicts_root: "order_verdicts rnd g b xs = Some (v, b') \<Longrightarrow> root b' = root b"
  by (auto simp: order_verdicts_def dest!: runSet_root split: option.splits prod.splits)

subsection \<open>The changes of the evaluator itself\<close>

definition touched :: "'z ev_state_scheme \<Rightarrow> 'z ev_state_scheme \<Rightarrow> bool" where
  "touched st st' \<longleftrightarrow> (\<exists>g ds. st' = st\<lparr>graph := g, diags := diags st @ ds\<rparr> \<and> extends (graph st) g \<and> store_ok g)"

definition touches :: "(store \<Rightarrow> 'a \<Rightarrow> bool) \<Rightarrow> 'z ev_state_scheme \<Rightarrow> ('a option \<times> 'z ev_state_scheme) option \<Rightarrow> bool" where
  "touches Q st m \<longleftrightarrow> (\<forall>r st'. m = Some (r, st') \<longrightarrow> touched st st' \<and> (\<forall>v. r = Some v \<longrightarrow> Q (graph st') v))"

definition attempt_touches :: "'z ev_state_scheme \<Rightarrow> 'z attempt \<Rightarrow> bool" where
  "attempt_touches st m \<longleftrightarrow> (\<forall>r st'. m = Some (r, st') \<longrightarrow> touched st st' \<and>
     (\<forall>v. r = Inl (Some v) \<longrightarrow> value_ok (graph st') v) \<and>
     (\<forall>a b. r = Inr (a, b) \<longrightarrow> value_ok (graph st') a \<and> value_ok (graph st') b))"

abbreviation anything :: "store \<Rightarrow> 'a \<Rightarrow> bool" where
  "anything \<equiv> \<lambda>_ _. True"

named_theorems touching \<open>computations that only append diagnostics and nodes\<close>

lemma touched_refl [simp]: "store_ok (graph st) \<Longrightarrow> touched st st"
  by (auto simp: touched_def extends_def intro!: exI [of _ "graph st"] exI [of _ "[]"])

lemma touched_fail [simp]: "store_ok (graph st) \<Longrightarrow> touched st (st\<lparr>diags := error location message (diags st)\<rparr>)"
  by (auto simp: touched_def extends_def error_def error_at_def report_def intro!: exI [of _ "graph st"])

lemma touched_graph [simp]: "extends (graph st) g \<Longrightarrow> store_ok g \<Longrightarrow> touched st (st\<lparr>graph := g\<rparr>)"
  by (auto simp: touched_def intro!: exI [of _ g] exI [of _ "[]"])

lemma extends_compose: "extends g g1 \<Longrightarrow> extends g1 g2 \<Longrightarrow> extends g g2"
  by (auto simp: extends_def)

lemma touched_trans: "touched st st1 \<Longrightarrow> touched st1 st2 \<Longrightarrow> touched st st2"
proof -
  assume "touched st st1" "touched st1 st2"
  then obtain g ds h es where e: "st1 = st\<lparr>graph := g, diags := diags st @ ds\<rparr>" "extends (graph st) g"
    "st2 = st1\<lparr>graph := h, diags := diags st1 @ es\<rparr>" "extends g h" "store_ok h"
    by (auto simp: touched_def)
  then have "st2 = st\<lparr>graph := h, diags := diags st @ (ds @ es)\<rparr>" by simp
  then show ?thesis using e(5) extends_compose [OF e(2,4)] unfolding touched_def by blast
qed

lemma touched_store: "touched st st' \<Longrightarrow> store_ok (graph st')" "touched st st' \<Longrightarrow> extends (graph st) (graph st')"
  by (auto simp: touched_def)

lemma touches_None [touching]: "touches Q st None"
  by (simp add: touches_def)

lemma touches_answer [touching]: "store_ok (graph st) \<Longrightarrow> Q (graph st) v \<Longrightarrow> touches Q st (answer v st)"
  by (simp add: touches_def answer_def)

lemma touches_fail [touching]: "store_ok (graph st) \<Longrightarrow> touches Q st (fail location message st)"
  by (simp add: touches_def fail_def)

lemma touches_bind [touching]: "(\<And>x. m = Some x \<Longrightarrow> touches Q st (k x)) \<Longrightarrow> touches Q st (Option.bind m k)"
  by (cases m) (simp_all add: touches_None)

lemma touches_on_value [touching]:
  assumes "touches P st m" "\<And>v st'. touched st st' \<Longrightarrow> P (graph st') v \<Longrightarrow> touches Q st' (k v st')"
  shows "touches Q st (on_value m k)"
  unfolding touches_def
proof (intro allI impI)
  fix r st' assume o: "on_value m k = Some (r, st')"
  then obtain v st1 where m: "m = Some (v, st1)" by (auto simp: on_value_def split: option.splits)
  then have t: "touched st st1" "v = Some x \<Longrightarrow> P (graph st1) x" for x using assms(1) by (auto simp: touches_def)
  show "touched st st' \<and> (\<forall>v. r = Some v \<longrightarrow> Q (graph st') v)"
  proof (cases v)
    case None
    then show ?thesis using o m t(1) by (simp add: on_value_def)
  next
    case (Some x)
    then have "touched st1 st' \<and> (\<forall>v. r = Some v \<longrightarrow> Q (graph st') v)"
      using o m assms(2) [OF t(1) t(2) [OF Some]] by (simp add: on_value_def touches_def)
    then show ?thesis using touched_trans [OF t(1)] by blast
  qed
qed

lemma attempt_effect_None [touching]: "attempt_touches st None"
  by (simp add: attempt_touches_def)

lemma attempt_effect_left_over [touching]:
  "store_ok (graph st) \<Longrightarrow> value_ok (graph st) l \<Longrightarrow> value_ok (graph st) r \<Longrightarrow> attempt_touches st (left_over l r st)"
  by (simp add: attempt_touches_def left_over_def)

lemma attempt_fail [touching]: "store_ok (graph st) \<Longrightarrow> attempt_touches st (answered (fail location message st) f)"
  by (simp add: attempt_touches_def answered_def fail_def)

lemma attempt_answer [touching]:
  "store_ok (graph st) \<Longrightarrow> value_ok (graph st) (f v) \<Longrightarrow> attempt_touches st (answered (answer v st) f)"
  by (simp add: attempt_touches_def answered_def answer_def)

lemma attempt_effect_answered:
  "touches Q st m \<Longrightarrow> (\<And>g v. Q g v \<Longrightarrow> value_ok g (f v)) \<Longrightarrow> attempt_touches st (answered m f)"
  by (auto simp: attempt_touches_def touches_def answered_def)

lemma attempt_effect_bind [touching]:
  "(\<And>x. m = Some x \<Longrightarrow> attempt_touches st (k x)) \<Longrightarrow> attempt_touches st (Option.bind m k)"
  by (cases m) (simp_all add: attempt_effect_None)

lemma attempt_effect_or_else:
  assumes "attempt_touches st m"
    and "\<And>a b st'. touched st st' \<Longrightarrow> value_ok (graph st') a \<Longrightarrow> value_ok (graph st') b \<Longrightarrow> attempt_touches st' (k a b st')"
  shows "attempt_touches st (or_else m k)"
proof (cases "\<exists>a b st'. m = Some (Inr (a, b), st')")
  case True
  then obtain a b st1 where m: "m = Some (Inr (a, b), st1)" by blast
  then have t: "touched st st1" "value_ok (graph st1) a" "value_ok (graph st1) b" using assms(1) by (auto simp: attempt_touches_def)
  show ?thesis using m assms(2) [OF t] touched_trans [OF t(1)] by (auto simp: attempt_touches_def or_else_def)
next
  case False
  then have "or_else m k = m" by (auto simp: or_else_def split: option.splits sum.splits)
  then show ?thesis using assms(1) by simp
qed

subsection \<open>Operators\<close>

lemma touches_rational_value [touching]: "store_ok (graph st) \<Longrightarrow> touches value_ok st (rational_value n st)"
  unfolding rational_value_def by (auto intro!: touching)

lemma touches_materialize [touching]: "store_ok (graph st) \<Longrightarrow> touches anything st (materializeExact rnd bls location st)"
  by (auto simp: materializeExact_def Let_def intro!: touching split: option.splits)

lemma touches_equality_by_expansion [touching]:
  "store_ok (graph st) \<Longrightarrow> touches anything st (equality_by_expansion rnd bls literal location st)"
  unfolding equality_by_expansion_def set_comparison_refused_def by (auto intro!: touching)

lemma touches_decide [touching]: "store_ok (graph st) \<Longrightarrow> touches anything st (decideSetEquality rnd bls literal location st)"
  by (auto simp: decideSetEquality_def set_comparison_refused_def intro!: touching split: option.splits)

lemma value_ok_root: "root b' = root b \<Longrightarrow> bls_set g b A \<Longrightarrow> bls_set g b' A"
  by (simp add: bls_set_def)

lemma attempt_mod:
  assumes "store_ok (graph st)" "value_ok (graph st) l" "value_ok (graph st) r"
  shows "attempt_touches st (symbolic_mod rnd op location l r st)"
proof (cases "\<exists>b x. l = ValBitLengthSet b \<and> r = ValRational x \<and> op = BinMod")
  case True
  then obtain b x where e: "l = ValBitLengthSet b" "r = ValRational x" "op = BinMod" by blast
  obtain A where A: "bls_set (graph st) b A" using assms(2) by (auto simp: e)
  have L: "attempt_touches st (left_over (ValBitLengthSet b') (ValRational x) st)" if "root b' = root b" for b'
    using assms(1) value_ok_root [OF that A] by (intro attempt_effect_left_over) (auto simp del: value_ok_simps simp: value_ok_def)
  have "attempt_touches st (case bls_modulo (graph st) b d of None \<Rightarrow> None
      | Some (Some res, lbls') \<Rightarrow> do { out \<leftarrow> toRationalSet rnd res; answered (answer out st) ValSet }
      | Some (None, lbls') \<Rightarrow> left_over (ValBitLengthSet lbls') (ValRational x) st)" for d
    using assms(1) by (auto intro!: L attempt_effect_None attempt_effect_bind attempt_answer dest: modulo_root split: option.splits)
  then show ?thesis unfolding e symbolic_mod.simps
    using assms(1) L [OF refl] by (auto intro!: attempt_effect_bind attempt_fail)
next
  case False
  then have "symbolic_mod rnd op location l r st = left_over l r st"
    by (cases l; cases r; cases op) simp_all
  then show ?thesis using attempt_effect_left_over [OF assms] by simp
qed

lemma attempt_equality:
  "store_ok (graph st) \<Longrightarrow> value_ok (graph st) l \<Longrightarrow> value_ok (graph st) r \<Longrightarrow>
    attempt_touches st (symbolic_equality rnd op location l r st)"
  by (rule symbolic_equality.cases [of "(rnd, op, location, l, r, st)"])
    (auto simp: symbolic_budget_def intro!: touching intro: attempt_effect_answered [where Q = anything] split: option.splits)

lemma attempt_verdicts:
  assumes "store_ok (graph st)" "bls_set (graph st) b A"
    and "\<And>b'. root b' = root b \<Longrightarrow> value_ok (graph st) (f (ValBitLengthSet b')) \<and> value_ok (graph st) (g (ValBitLengthSet b'))"
  shows "attempt_touches st (do {
        ((litInS, sInLit, sameCard), b) \<leftarrow> order_verdicts rnd (graph st) b literal;
        case k sInLit litInS sameCard of
          Some result \<Rightarrow> answered (answer result st) ValBool
        | None \<Rightarrow> left_over (f (ValBitLengthSet b)) (g (ValBitLengthSet b)) st })"
  using assms by (auto dest!: order_verdicts_root intro!: touching split: option.splits)

lemma attempt_order:
  assumes "store_ok (graph st)" "value_ok (graph st) l" "value_ok (graph st) r"
  shows "attempt_touches st (symbolic_order rnd op location l r st)"
proof (rule symbolic_order.cases [of "(rnd, op, location, l, r, st)"])
  fix rnd1 op1 location1 lbls rbls st1
  assume "(rnd, op, location, l, r, st) = (rnd1, op1, location1, ValBitLengthSet lbls, ValBitLengthSet rbls, st1)"
  then show ?thesis using assms
    by (auto simp: Let_def symbolic_budget_def intro!: touching split: option.splits)
next
  fix rnd1 op1 location1 lbls literal st1
  assume "(rnd, op, location, l, r, st) = (rnd1, op1, location1, ValBitLengthSet lbls, ValSet literal, st1)"
  then have e: "l = ValBitLengthSet lbls" "r = ValSet literal" by auto
  obtain A where A: "bls_set (graph st) lbls A" using assms(2) by (auto simp: e)
  have v: "value_ok (graph st) (ValBitLengthSet b')" if "root b' = root lbls" for b' using value_ok_root [OF that A] by auto
  show ?thesis unfolding e symbolic_order.simps
    using attempt_effect_left_over [OF assms(1) v [OF refl], of "ValSet literal"]
      attempt_verdicts [OF assms(1) A, of "\<lambda>v. v" "\<lambda>_. ValSet literal" rnd literal "order_result op"] v by simp
next
  fix rnd1 op1 location1 literal rbls st1
  assume "(rnd, op, location, l, r, st) = (rnd1, op1, location1, ValSet literal, ValBitLengthSet rbls, st1)"
  then have e: "r = ValBitLengthSet rbls" "l = ValSet literal" by auto
  obtain A where A: "bls_set (graph st) rbls A" using assms(3) by (auto simp: e)
  have v: "value_ok (graph st) (ValBitLengthSet b')" if "root b' = root rbls" for b' using value_ok_root [OF that A] by auto
  show ?thesis unfolding e symbolic_order.simps
    using attempt_effect_left_over [OF assms(1) _ v [OF refl], of "ValSet literal"]
      attempt_verdicts [OF assms(1) A, of "\<lambda>_. ValSet literal" "\<lambda>v. v" rnd literal "\<lambda>a b. order_result op b a"] v by simp
qed (use assms in \<open>auto intro!: attempt_effect_left_over\<close>)

lemma of_value_builds:
  assumes "bls_of_value v s = (c, s')" "store_ok s" "i64 v"
  shows "builds s s' c {max 0 v}"
  using of_values_builds [of "[v]" s c s'] assms by (simp add: bls_of_value_def bls_of_values_def)

lemma scalar_sum_builds:
  assumes "bls_of_value wide g = (c, s1)" "bls_plus b c s1 = (whole, s2)" "store_ok g" "bls_set g b A"
    and "0 \<le> wide" "wide \<le> int64_max"
  shows "builds g s2 whole (clamp ` msum A {wide})"
proof -
  have 1: "builds g s1 c {wide}"
    using of_value_builds [OF assms(1,3)] assms(5,6) by (simp add: i64_def int64_min_def int64_max_def)
  have "bls_set s1 b A" using extends_set [OF _ assms(4)] 1 by (simp add: builds_def)
  then have 2: "builds s1 s2 whole (clamp ` msum A {wide})"
    by (intro plus_builds [OF assms(2)]) (use 1 in \<open>simp_all add: builds_def\<close>)
  show ?thesis using 1 2 extends_compose [of g s1 s2] by (simp add: builds_def)
qed

lemma attempt_plus:
  assumes "store_ok (graph st)" "bls_set (graph st) b A" "value_ok (graph st) l" "value_ok (graph st) r"
  shows "attempt_touches st (plus_scalar b x l r st)"
proof -
  have "attempt_touches st (answered (answer whole (st\<lparr>graph := s2\<rparr>)) ValBitLengthSet)"
    if "bls_of_value wide (graph st) = (c, s1)" "bls_plus b c s1 = (whole, s2)" "0 \<le> wide" "wide \<le> int64_max" for wide c s1 whole s2
    using scalar_sum_builds [OF that(1,2) assms(1,2) that(3,4)]
    by (auto simp: attempt_touches_def answered_def answer_def builds_def)
  then show ?thesis using assms attempt_effect_left_over [OF assms(1,3,4)]
    by (auto simp: plus_scalar_def Let_def split: option.splits prod.splits)
qed

lemma attempt_add:
  assumes "store_ok (graph st)" "value_ok (graph st) l" "value_ok (graph st) r"
  shows "attempt_touches st (symbolic_add op l r st)"
proof (cases "op = BinAdd")
  case op: True
  show ?thesis
  proof (cases l)
    case L: (ValBitLengthSet b)
    obtain A where A: "bls_set (graph st) b A" using assms(2) L by auto
    show ?thesis using attempt_plus [OF assms(1) A assms(2,3)] attempt_effect_left_over [OF assms] op L by (cases r) simp_all
  next
    case L: (ValRational x)
    show ?thesis
    proof (cases r)
      case (ValBitLengthSet b)
      obtain A where A: "bls_set (graph st) b A" using assms(3) ValBitLengthSet by auto
      show ?thesis using attempt_plus [OF assms(1) A assms(2,3)] op L ValBitLengthSet by simp
    qed (use attempt_effect_left_over [OF assms] op L in simp_all)
  qed (use attempt_effect_left_over [OF assms] op in simp_all)
next
  case False
  then have "symbolic_add op l r st = left_over l r st" by (cases op) simp_all
  then show ?thesis using attempt_effect_left_over [OF assms] by simp
qed

lemma attempt_materialized:
  assumes "touches anything st m" "\<And>xs st'. touched st st' \<Longrightarrow> attempt_touches st' (k xs st')"
  shows "attempt_touches st (case m of None \<Rightarrow> None | Some (None, st) \<Rightarrow> Some (Inl None, st) | Some (Some xs, st) \<Rightarrow> k xs st)"
proof (cases m)
  case None
  then show ?thesis by (simp add: attempt_effect_None)
next
  case (Some p)
  obtain v st1 where p: "p = (v, st1)" by (cases p)
  have t: "touched st st1" using assms(1) Some p by (auto simp: touches_def)
  show ?thesis
  proof (cases v)
    case None
    then show ?thesis using t Some p by (simp add: attempt_touches_def)
  next
    case (Some xs)
    have "attempt_touches st1 (k xs st1)" by (rule assms(2) [OF t])
    then have "attempt_touches st (k xs st1)" using touched_trans [OF t] by (auto simp: attempt_touches_def)
    then show ?thesis using Some \<open>m = Some p\<close> p by simp
  qed
qed

lemma attempt_left:
  assumes "store_ok (graph st)" "value_ok (graph st) l" "value_ok (graph st) r"
  shows "attempt_touches st (materialize_left rnd location l r st)"
proof (cases l)
  case (ValBitLengthSet b)
  then show ?thesis using assms
    by (auto intro!: attempt_materialized attempt_effect_left_over touches_materialize dest: touched_store intro: value_ok_extends)
qed (use attempt_effect_left_over [OF assms] in simp_all)

lemma attempt_right:
  assumes "store_ok (graph st)" "value_ok (graph st) l" "value_ok (graph st) r"
  shows "attempt_touches st (materialize_right rnd location l r st)"
proof (cases r)
  case (ValBitLengthSet b)
  then show ?thesis using assms
    by (auto intro!: attempt_materialized attempt_effect_left_over touches_materialize dest: touched_store intro: value_ok_extends)
qed (use attempt_effect_left_over [OF assms] in simp_all)

lemma attempt_symbolic:
  assumes "store_ok (graph st)" "value_ok (graph st) l" "value_ok (graph st) r"
  shows "attempt_touches st (symbolic_binary rnd op location l r st)"
  unfolding symbolic_binary_def
  by (intro attempt_effect_or_else attempt_mod attempt_equality attempt_order attempt_add attempt_left attempt_right assms)
    (auto dest: touched_store)

lemma touches_elementwise: "store_ok (graph st) \<Longrightarrow> touches value_ok st (elementwise rnd op location ls rs st)"
  by (auto simp: elementwise_def intro!: touching split: option.splits)

lemma applyBinaryRational_concrete: "applyBinaryRational rnd op l r = Some (Some v) \<Longrightarrow> \<not> is_symbolic v"
proof -
  assume "applyBinaryRational rnd op l r = Some (Some v)"
  then have "(\<exists>p. v = ValRational p) \<or> (\<exists>b. v = ValBool b)"
    by (auto simp: applyBinaryRational_def checked_result_def rational_result_def rational_bits_def rational_mod_def
      Option.bind_eq_Some_conv split: if_splits BinaryOp.splits option.splits)
  then show ?thesis by (auto simp: is_symbolic_def)
qed

lemma touches_concrete: "store_ok (graph st) \<Longrightarrow> touches value_ok st (concrete_binary rnd op location l r st)"
  by (rule concrete_binary.cases [of "(rnd, op, location, l, r, st)"])
    (auto simp: unsupported_def intro!: touching touches_elementwise dest: applyBinaryRational_concrete
      split: option.splits BinaryOp.splits)

lemma touches_binary:
  assumes "store_ok (graph st)" "value_ok (graph st) l" "value_ok (graph st) r"
  shows "touches value_ok st (binary_values rnd op location l r st)"
proof (cases "is_symbolic l \<or> is_symbolic r")
  case True
  have B: "touched st st' \<and> (\<forall>v. res = Some v \<longrightarrow> value_ok (graph st') v)"
    if eval: "binary_values rnd op location l r st = Some (res, st')" for res st'
  proof -
    obtain q st1 where q: "symbolic_binary rnd op location l r st = Some (q, st1)"
      using eval True by (auto simp: binary_values_def split: option.splits)
    have t: "touched st st1" "q = Inl (Some v) \<Longrightarrow> value_ok (graph st1) v" for v
      using attempt_symbolic [OF assms, of rnd op location] q by (auto simp: attempt_touches_def)
    show ?thesis
    proof (cases q)
      case (Inl x)
      then show ?thesis using t eval True q by (auto simp: binary_values_def)
    next
      case (Inr y)
      obtain a b where y: "y = (a, b)" by (cases y)
      have "concrete_binary rnd op location a b st1 = Some (res, st')" using eval True q Inr y by (simp add: binary_values_def)
      then show ?thesis using touches_concrete [OF touched_store(1) [OF t(1)], of rnd op location a b] touched_trans [OF t(1)]
        unfolding touches_def by blast
    qed
  qed
  then show ?thesis by (simp add: touches_def)
qed (simp add: binary_values_def touches_concrete [OF assms(1)])

lemma touches_count: "store_ok (graph st) \<Longrightarrow> touches value_ok st (symbolic_count rnd bls location st)"
  by (auto simp: symbolic_count_def Let_def intro!: touching dest: touched_store split: option.splits)

lemma touches_attribute:
  "store_ok (graph st) \<Longrightarrow> (\<And>t. v \<noteq> ValType t) \<Longrightarrow> touches value_ok st (attribute_of rnd resolver name location v st)"
  by (cases v) (auto simp: no_attribute_def intro!: touching touches_count)

lemma touches_unary: "store_ok (graph st) \<Longrightarrow> touches value_ok st (unary_value op location v st)"
  by (cases op) (auto intro!: touching split: option.splits)

subsection \<open>Relations that an evaluation keeps\<close>

locale state_relation =
  fixes good :: "'z ev_state_scheme \<Rightarrow> bool" and rel :: "'z ev_state_scheme \<Rightarrow> 'z ev_state_scheme \<Rightarrow> bool"
  assumes good_store: "good st \<Longrightarrow> store_ok (graph st)"
    and rel_refl: "rel st st"
    and rel_trans: "rel st st1 \<Longrightarrow> rel st1 st2 \<Longrightarrow> rel st st2"
    and rel_good: "rel st st' \<Longrightarrow> good st \<Longrightarrow> good st'"
    and rel_extends: "rel st st' \<Longrightarrow> good st \<Longrightarrow> extends (graph st) (graph st')"
    and rel_touched: "good st \<Longrightarrow> touched st st' \<Longrightarrow> rel st st'"
begin

definition keeps :: "(store \<Rightarrow> 'a \<Rightarrow> bool) \<Rightarrow> 'z ev_state_scheme \<Rightarrow> ('a option \<times> 'z ev_state_scheme) option \<Rightarrow> bool" where
  "keeps Q st m \<longleftrightarrow> (\<forall>r st'. m = Some (r, st') \<longrightarrow> rel st st' \<and> (\<forall>v. r = Some v \<longrightarrow> Q (graph st') v))"

definition resolver_keeps :: "'z resolver option \<Rightarrow> bool" where
  "resolver_keeps resolver \<longleftrightarrow>
     (\<forall>resolve t name location st. resolver = Some resolve \<longrightarrow> good st \<longrightarrow> keeps value_ok st (resolve t name location st))"

lemma touches_keeps: "good st \<Longrightarrow> touches Q st m \<Longrightarrow> keeps Q st m"
  by (auto simp: touches_def keeps_def intro: rel_touched)

lemma keeps_on_value:
  assumes "keeps P st m" "good st"
    and "\<And>v st'. m = Some (Some v, st') \<Longrightarrow> good st' \<Longrightarrow> extends (graph st) (graph st') \<Longrightarrow> P (graph st') v \<Longrightarrow>
          keeps Q st' (k v st')"
  shows "keeps Q st (on_value m k)"
  unfolding keeps_def
proof (intro allI impI)
  fix r st' assume o: "on_value m k = Some (r, st')"
  then obtain v st1 where m: "m = Some (v, st1)" by (auto simp: on_value_def split: option.splits)
  then have t: "rel st st1" "v = Some x \<Longrightarrow> P (graph st1) x" for x using assms(1) by (auto simp: keeps_def)
  note g = rel_good [OF t(1) assms(2)] rel_extends [OF t(1) assms(2)]
  show "rel st st' \<and> (\<forall>v. r = Some v \<longrightarrow> Q (graph st') v)"
  proof (cases v)
    case None
    then show ?thesis using o m t(1) by (simp add: on_value_def)
  next
    case (Some x)
    then have "rel st1 st' \<and> (\<forall>v. r = Some v \<longrightarrow> Q (graph st') v)"
      using o m assms(3) [OF _ g t(2) [OF Some]] Some by (simp add: on_value_def keeps_def)
    then show ?thesis using rel_trans [OF t(1)] by blast
  qed
qed

lemma keeps_attribute:
  assumes "resolver_keeps resolver" "good st"
  shows "keeps value_ok st (attribute_of rnd resolver name location v st)"
proof (cases "\<exists>t. v = ValType t \<and> resolver \<noteq> None")
  case True
  then show ?thesis using assms by (auto simp: resolver_keeps_def)
next
  case False
  then have "touches value_ok st (attribute_of rnd resolver name location v st)"
    using touches_attribute [OF good_store [OF assms(2)], of v] good_store [OF assms(2)]
    by (cases v) (auto intro!: touching)
  then show ?thesis by (rule touches_keeps [OF assms(2)])
qed

lemma keeps_operands:
  assumes "good st" "keeps value_ok st m"
    and "\<And>lv st'. m = Some (lv, st') \<Longrightarrow> good st' \<Longrightarrow> extends (graph st) (graph st') \<Longrightarrow> keeps value_ok st' (n st')"
  shows "keeps value_ok st (do {
    (lv, st) \<leftarrow> m; (rv, st) \<leftarrow> n st;
    case (lv, rv) of (Some lv, Some rv) \<Rightarrow> binary_values rnd op location lv rv st | _ \<Rightarrow> Some (None, st) })"
proof -
  have "rel st st' \<and> (\<forall>v. r = Some v \<longrightarrow> value_ok (graph st') v)"
    if s: "m = Some (lv, st1)" "n st1 = Some (rv, st2)"
      "(case (lv, rv) of (Some lv, Some rv) \<Rightarrow> binary_values rnd op location lv rv st2 | _ \<Rightarrow> Some (None, st2)) = Some (r, st')"
    for lv st1 rv st2 r st'
  proof -
    have 1: "rel st st1" "lv = Some v \<Longrightarrow> value_ok (graph st1) v" for v using assms(2) s(1) by (auto simp: keeps_def)
    note g1 = rel_good [OF 1(1) assms(1)] rel_extends [OF 1(1) assms(1)]
    have 2: "rel st1 st2" "rv = Some v \<Longrightarrow> value_ok (graph st2) v" for v using assms(3) [OF s(1) g1] s(2) by (auto simp: keeps_def)
    note g2 = rel_good [OF 2(1) g1(1)] rel_extends [OF 2(1) g1(1)]
    note both = rel_trans [OF 1(1) 2(1)]
    show ?thesis
    proof (cases "lv = None \<or> rv = None")
      case True
      then have "r = None \<and> st' = st2" using s(3) by (auto split: option.splits)
      then show ?thesis using both by simp
    next
      case False
      then obtain a b where e: "lv = Some a" "rv = Some b" by auto
      have "touches value_ok st2 (binary_values rnd op location a b st2)"
        by (rule touches_binary [OF good_store [OF g2(1)] value_ok_extends [OF g2(2) 1(2) [OF e(1)]] 2(2) [OF e(2)]])
      then have "rel st2 st' \<and> (\<forall>v. r = Some v \<longrightarrow> value_ok (graph st') v)"
        using touches_keeps [OF g2(1), of value_ok] s(3) e by (simp add: keeps_def)
      then show ?thesis using rel_trans [OF both] by blast
    qed
  qed
  then show ?thesis by (auto simp: keeps_def Option.bind_eq_Some_conv)
qed

lemma keeps_evaluation:
  assumes "resolver_keeps resolver" "good st" "env_ok (graph st) env"
  shows "keeps value_ok st (evaluate_expr rnd env resolver e st)"
    and "keeps value_ok st (evaluateBinary rnd env resolver op l r location st)"
    and "keeps anything st (evaluate_elements rnd env resolver es xs st)"
  using assms
proof (induction rnd env resolver e st and rnd env resolver op l r location st and rnd env resolver es xs st
    rule: evaluate_expr_evaluateBinary_evaluate_elements.induct)
  case (4 rnd env resolver location name st)
  then show ?case using good_store [OF 4(2)]
    by (auto simp: env_ok_def intro!: touches_keeps touching split: option.splits)
next
  case (5 rnd env resolver location op operand st)
  then show ?case unfolding evaluate_expr.simps
    by (intro keeps_on_value [where P = value_ok]) (auto intro!: touches_keeps touches_unary good_store)
next
  case (7 rnd env resolver location es st)
  then show ?case unfolding evaluate_expr.simps
    by (intro keeps_on_value [where P = anything]) (auto intro!: touches_keeps touching good_store)
next
  case (9 rnd env resolver op l r location st)
  show ?case
  proof (cases "op = BinAttribute")
    case True
    have "keeps value_ok st (on_value (evaluate_expr rnd env resolver l st)
       (\<lambda>v st. case attribute_name r of None \<Rightarrow> fail location ''attribute operator expects identifier on RHS'' st
         | Some name \<Rightarrow> attribute_of rnd resolver name location v st))"
      using 9 True by (intro keeps_on_value [where P = value_ok])
        (auto intro!: keeps_attribute intro: touches_keeps touching good_store split: option.splits)
    then show ?thesis using True by (simp add: evaluateBinary.simps)
  next
    case False
    have L: "keeps value_ok st (evaluate_expr rnd env resolver l st)" using "9.IH"(2) False "9.prems" by blast
    have R: "keeps value_ok st' (evaluate_expr rnd env resolver r st')"
      if "evaluate_expr rnd env resolver l st = Some (lv, st')" "good st'" "extends (graph st) (graph st')" for lv st'
      using "9.IH"(3) False "9.prems"(1) that(1,2) env_ok_extends [OF that(3) "9.prems"(3)] by blast
    show ?thesis unfolding evaluateBinary.simps using False
      by (simp only: if_False) (rule keeps_operands [OF "9.prems"(2) L R])
  qed
next
  case (11 rnd env resolver e es xs st)
  then show ?case unfolding evaluate_elements.simps
    by (intro keeps_on_value [where P = value_ok])
      (auto intro: touches_keeps touching good_store env_ok_extends split: Value.splits)
qed (auto intro!: touches_keeps touching dest: good_store)

lemma keeps_evaluateExpression:
  assumes "resolver_keeps resolver" "good st" "env_ok (graph st) env"
  shows "keeps value_ok st (evaluateExpression rnd e env location resolver st)"
proof -
  have "rel st st' \<and> (\<forall>v. r = Some v \<longrightarrow> value_ok (graph st') v)"
    if eval: "evaluateExpression rnd e env location resolver st = Some (r, st')" for r st'
  proof -
    obtain v st1 where v: "evaluate_expr rnd env resolver e st = Some (v, st1)"
      using eval by (auto simp: evaluateExpression_def Option.bind_eq_Some_conv)
    then have 1: "rel st st1" "v = Some x \<Longrightarrow> value_ok (graph st1) x" for x
      using keeps_evaluation(1) [OF assms, of rnd e] by (auto simp: keeps_def)
    note g = rel_good [OF 1(1) assms(2)]
    show ?thesis
    proof (cases "v = None \<and> length (diags st1) = length (diags st)")
      case True
      then have "Some (r, st') = fail location ''failed to evaluate expression'' st1"
        using eval v by (simp add: evaluateExpression_def)
      then have "rel st1 st' \<and> r = None"
        using rel_touched [OF g touched_fail [OF good_store [OF g]]] by (auto simp: fail_def)
      then show ?thesis using rel_trans [OF 1(1)] by auto
    next
      case False
      then show ?thesis using eval v 1 by (auto simp: evaluateExpression_def)
    qed
  qed
  then show ?thesis by (auto simp: keeps_def)
qed

end

end
