(* ===== verification/AnalyzerState.thy ===== *)
theory AnalyzerState
  imports AnalyzerRules AliasLayoutFacts EvaluatorEffects
begin

text \<open>
  What the analyzer promises of a section, and the invariant of its state. A section is solid whatever
  errors were found: its names are distinct and not reserved, every type has the set of lengths that
  its kind prescribes, and the bounds are those of its set of lengths. It obeys the rules of the
  specification when no error was reported. The relation \<open>rel\<close> between the states before and after a
  part of the analysis interprets the locale \<open>state_relation\<close>, so evaluating an expression is a part
  like the others.
\<close>

subsection \<open>Lengths\<close>

text \<open>The lengths of a composite type inside another one: its own when sealed, a header of 32 bits and up
  to an extent of bytes when not.\<close>

definition composite_lengths :: "store \<Rightarrow> SemanticSection \<Rightarrow> int set \<Rightarrow> bool" where
  "composite_lengths g sec E \<longleftrightarrow>
     (if is_sealed sec then bls_set g (offsetAtEnd sec) E
      else E = clamp ` msum {32} (clamp ` ksum_upto (nat (value_or (extentBits sec) 0 sdiv 8)) {8}))"

definition element_lengths :: "store \<Rightarrow> SemanticDefinition set \<Rightarrow> SemanticFieldType \<Rightarrow> int set \<Rightarrow> bool" where
  "element_lengths g D t E \<longleftrightarrow>
     (if scalarCategory t = CatComposite
      then \<exists>d\<in>D. compositeType t = Some (type_ref (sem_info d)) \<and> \<not> isService d \<and>
             compositeSealed t = is_sealed (request d) \<and> composite_lengths g (request d) E
      else E = {uint (ft_bitLength t)})"

definition array_lengths :: "SemanticFieldType \<Rightarrow> int set \<Rightarrow> int set" where
  "array_lengths t E =
     (if ft_arrayKind t = ArrNone then E
      else if ft_arrayKind t = ArrFixed then clamp ` ksum (nat (ft_arrayCapacity t)) E
      else clamp ` msum {arrayLengthPrefixBits t} (clamp ` ksum_upto (nat (ft_arrayCapacity t)) E))"

definition type_good :: "store \<Rightarrow> SemanticDefinition set \<Rightarrow> SemanticFieldType \<Rightarrow> bool" where
  "type_good g D t \<longleftrightarrow>
     (\<exists>E. element_lengths g D t E \<and> bls_set g (bitLengthSet t) (array_lengths t E)) \<and>
     alignmentBits t = (if scalarCategory t = CatComposite then 8 else 1) \<and>
     (ft_arrayKind t \<noteq> ArrNone \<longrightarrow> 1 \<le> ft_arrayCapacity t \<and> ft_arrayCapacity t \<le> int64_max \<and>
        arrayLengthPrefixBits t = (if ft_arrayKind t = ArrFixed then 0 else length_prefix_bits (ft_arrayCapacity t)))"

text \<open>The offsets behind the fields of a structure, each aligned first; the lengths of the options of a
  union together; and the offsets at the end of a section, which is a whole number of bytes.\<close>

inductive struct_offsets :: "store \<Rightarrow> SemanticFieldType list \<Rightarrow> int set \<Rightarrow> bool" for g where
  none: "struct_offsets g [] {0}"
| field: "struct_offsets g ts A \<Longrightarrow> bls_set g (bitLengthSet t) B \<Longrightarrow>
    struct_offsets g (ts @ [t]) (clamp ` msum ((\<lambda>v. clamp (round_up v (alignmentBits t))) ` A) B)"

definition union_lengths :: "store \<Rightarrow> SemanticFieldType list \<Rightarrow> int set \<Rightarrow> bool" where
  "union_lengths g ts U \<longleftrightarrow> (\<exists>Bs. list_all2 (\<lambda>t. bls_set g (bitLengthSet t)) ts Bs \<and> U = \<Union>(set Bs))"

definition whole_byte_offsets :: "int set \<Rightarrow> int set" where
  "whole_byte_offsets A = (\<lambda>v. clamp (round_up v 8)) ` A"

definition union_offsets :: "store \<Rightarrow> SemanticFieldType list \<Rightarrow> int set \<Rightarrow> bool" where
  "union_offsets g ts A \<longleftrightarrow>
     (if ts = [] then A = {0}
      else \<exists>U. union_lengths g ts U \<and> A = whole_byte_offsets (clamp ` msum {union_tag_bits (length ts)} U))"

definition section_offsets :: "store \<Rightarrow> SemanticSection \<Rightarrow> int set \<Rightarrow> bool" where
  "section_offsets g sec A \<longleftrightarrow>
     (let ts = map resolvedType (section_fields sec)
      in if isUnion sec then union_offsets g ts A else \<exists>S. struct_offsets g ts S \<and> A = whole_byte_offsets S)"

subsection \<open>Sections\<close>

definition attribute_names_of :: "SemanticSection \<Rightarrow> string list" where
  "attribute_names_of sec =
     map sf_name (filter (\<lambda>f. \<not> sf_isPadding f) (section_fields sec)) @ map sc_name (section_constants sec)"

definition names_good :: "SemanticSection \<Rightarrow> bool" where
  "names_good sec \<longleftrightarrow> distinct (attribute_names_of sec) \<and> (\<forall>n\<in>set (attribute_names_of sec). \<not> isReservedIdentifier n)"

definition constants_good :: "store \<Rightarrow> SemanticSection \<Rightarrow> bool" where
  "constants_good g sec \<longleftrightarrow> (\<forall>c\<in>set (section_constants sec). value_ok g (sc_value c) \<and>
     (admissible_width (sc_type c) \<longrightarrow> type_admits (sc_type c) (sc_value c)))"

definition bounds_good :: "store \<Rightarrow> SemanticSection \<Rightarrow> bool" where
  "bounds_good g sec \<longleftrightarrow>
     (\<exists>A. bls_set g (offsetAtEnd sec) A \<and> minBitLength sec = Min A \<and> maxBitLength sec = Max A \<and>
        fixedSize sec = (card A = 1)) \<and>
     serializationBufferSizeBits sec = maxBitLength sec"

definition section_solid :: "store \<Rightarrow> SemanticDefinition set \<Rightarrow> SemanticSection \<Rightarrow> bool" where
  "section_solid g D sec \<longleftrightarrow> names_good sec \<and> constants_good g sec \<and> bounds_good g sec \<and>
     (\<forall>f\<in>set (section_fields sec). type_good g D (resolvedType f)) \<and>
     (\<forall>e. extentBits sec = Some e \<longrightarrow> i64 e) \<and>
     (\<not> isUnion sec \<longrightarrow> (\<exists>A. bls_set g (offsetAtEnd sec) A \<and> section_offsets g sec A))"

text \<open>The rules of the specification.\<close>

definition extent_lawful :: "SemanticSection \<Rightarrow> bool" where
  "extent_lawful sec \<longleftrightarrow>
     (\<exists>e. extentBits sec = Some e \<and> maxBitLength sec \<le> e \<and>
        (if is_sealed sec then e = maxBitLength sec else 0 \<le> e \<and> e mod 8 = 0))"

definition options_lawful :: "SemanticSection \<Rightarrow> bool" where
  "options_lawful sec \<longleftrightarrow>
     (let fs = section_fields sec
      in isUnion sec \<longrightarrow> 2 \<le> length fs \<and>
           (\<forall>i<length fs. \<not> sf_isPadding (fs ! i) \<and> unionOptionIndex (fs ! i) = of_nat i \<and>
              unionTagBits (fs ! i) = word_of_int (union_tag_bits (length fs))))"

definition section_lawful :: "store \<Rightarrow> SemanticSection \<Rightarrow> bool" where
  "section_lawful g sec \<longleftrightarrow> extent_lawful sec \<and> options_lawful sec \<and>
     (\<exists>A. bls_set g (offsetAtEnd sec) A \<and> section_offsets g sec A)"

definition definition_solid :: "store \<Rightarrow> SemanticDefinition set \<Rightarrow> SemanticDefinition \<Rightarrow> bool" where
  "definition_solid g D d \<longleftrightarrow> (\<forall>sec\<in>set (sections_of d). section_solid g D sec)"

definition definition_lawful :: "store \<Rightarrow> SemanticDefinition \<Rightarrow> bool" where
  "definition_lawful g d \<longleftrightarrow> (\<forall>sec\<in>set (sections_of d). section_lawful g sec) \<and> (isService d \<longleftrightarrow> response d \<noteq> None)"

subsection \<open>More nodes and more definitions\<close>

lemma composite_lengths_extends: "extends g g' \<Longrightarrow> composite_lengths g sec E \<Longrightarrow> composite_lengths g' sec E"
  by (auto simp: composite_lengths_def intro: extends_set split: if_splits)

lemma element_lengths_extends:
  "extends g g' \<Longrightarrow> D \<subseteq> D' \<Longrightarrow> element_lengths g D t E \<Longrightarrow> element_lengths g' D' t E"
  by (auto simp: element_lengths_def intro: composite_lengths_extends split: if_splits)

lemma type_good_extends: "extends g g' \<Longrightarrow> D \<subseteq> D' \<Longrightarrow> type_good g D t \<Longrightarrow> type_good g' D' t"
  unfolding type_good_def by (blast intro: element_lengths_extends extends_set)

lemma struct_offsets_extends: "struct_offsets g ts A \<Longrightarrow> extends g g' \<Longrightarrow> struct_offsets g' ts A"
  by (induction rule: struct_offsets.induct) (auto intro: struct_offsets.intros extends_set)

lemma union_lengths_extends: "extends g g' \<Longrightarrow> union_lengths g ts U \<Longrightarrow> union_lengths g' ts U"
  unfolding union_lengths_def by (blast intro: list_all2_mono extends_set)

lemma union_offsets_extends: "extends g g' \<Longrightarrow> union_offsets g ts A \<Longrightarrow> union_offsets g' ts A"
  unfolding union_offsets_def by (metis union_lengths_extends)

lemma section_offsets_extends: "extends g g' \<Longrightarrow> section_offsets g sec A \<Longrightarrow> section_offsets g' sec A"
  by (auto simp: section_offsets_def Let_def intro: union_offsets_extends struct_offsets_extends split: if_splits)

lemma constants_good_extends: "extends g g' \<Longrightarrow> constants_good g sec \<Longrightarrow> constants_good g' sec"
  unfolding constants_good_def by (blast intro: value_ok_extends)

lemma bounds_good_extends: "extends g g' \<Longrightarrow> bounds_good g sec \<Longrightarrow> bounds_good g' sec"
  unfolding bounds_good_def by (blast intro: extends_set)

lemma section_solid_extends: "extends g g' \<Longrightarrow> D \<subseteq> D' \<Longrightarrow> section_solid g D sec \<Longrightarrow> section_solid g' D' sec"
  unfolding section_solid_def
  by (blast intro: constants_good_extends bounds_good_extends type_good_extends extends_set section_offsets_extends)

lemma section_lawful_extends: "extends g g' \<Longrightarrow> section_lawful g sec \<Longrightarrow> section_lawful g' sec"
  unfolding section_lawful_def by (blast intro: extends_set section_offsets_extends)

lemma definition_solid_extends: "extends g g' \<Longrightarrow> D \<subseteq> D' \<Longrightarrow> definition_solid g D d \<Longrightarrow> definition_solid g' D' d"
  unfolding definition_solid_def by (blast intro: section_solid_extends)

lemma definition_lawful_extends: "extends g g' \<Longrightarrow> definition_lawful g d \<Longrightarrow> definition_lawful g' d"
  unfolding definition_lawful_def by (blast intro: section_lawful_extends)

subsection \<open>The state\<close>

definition known :: "analysis \<Rightarrow> analyzer \<Rightarrow> SemanticDefinition set" where
  "known cx st = set (value_or (externalSemanticCatalog cx) []) \<union> {d. Some d \<in> set (results_of st)}"

text \<open>A result belongs to a definition whose analysis is over, and obeys the rules unless an error was
  reported.\<close>

definition results_good :: "analysis \<Rightarrow> analyzer \<Rightarrow> bool" where
  "results_good cx st \<longleftrightarrow>
     length (results_of st) = length (module_of cx) \<and> length (visit_states st) = length (module_of cx) \<and>
     (\<forall>i d. i < length (module_of cx) \<longrightarrow> results_of st ! i = Some d \<longrightarrow>
        visit_states st ! i = Done \<and> sem_info d = parsed_info (module_of cx ! i) \<and>
        (\<not> erroneous st \<longrightarrow> definition_lawful (graph st) d))"

definition good :: "analysis \<Rightarrow> analyzer \<Rightarrow> bool" where
  "good cx st \<longleftrightarrow> store_ok (graph st) \<and> results_good cx st \<and>
     (\<forall>d\<in>known cx st. definition_solid (graph st) (known cx st) d)"

definition grows :: "analysis \<Rightarrow> analyzer \<Rightarrow> analyzer \<Rightarrow> bool" where
  "grows cx st st' \<longleftrightarrow> good cx st' \<and> extends (graph st) (graph st') \<and> (\<exists>es. diags st' = diags st @ es) \<and>
     (\<forall>i<length (module_of cx).
        (visit_states st ! i = Visiting \<longrightarrow> visit_states st' ! i = Visiting \<and> results_of st' ! i = results_of st ! i) \<and>
        (\<forall>d. results_of st ! i = Some d \<longrightarrow> results_of st' ! i = Some d))"

definition rel :: "analysis \<Rightarrow> analyzer \<Rightarrow> analyzer \<Rightarrow> bool" where
  "rel cx st st' \<longleftrightarrow> (good cx st \<longrightarrow> grows cx st st')"

lemma extends_same [simp]: "extends g g"
  by (auto simp: extends_def)

lemma grows_refl: "good cx st \<Longrightarrow> grows cx st st"
  by (auto simp: grows_def)

lemma grows_trans:
  assumes "grows cx st st1" "grows cx st1 st2"
  shows "grows cx st st2"
  unfolding grows_def
proof (intro conjI allI impI)
  show "good cx st2" using assms(2) by (simp add: grows_def)
  show "extends (graph st) (graph st2)" using assms extends_compose by (auto simp: grows_def)
  show "\<exists>es. diags st2 = diags st @ es" using assms by (auto simp: grows_def)
  fix i assume i: "i < length (module_of cx)"
  show "visit_states st2 ! i = Visiting" if "visit_states st ! i = Visiting" using assms i that by (auto simp: grows_def)
  show "results_of st2 ! i = results_of st ! i" if "visit_states st ! i = Visiting" using assms i that by (auto simp: grows_def)
  show "results_of st2 ! i = Some d" if "results_of st ! i = Some d" for d using assms i that by (auto simp: grows_def)
qed

lemma good_lengths: "good cx st \<Longrightarrow> length (results_of st) = length (module_of cx) \<and> length (visit_states st) = length (module_of cx)"
  by (simp add: good_def results_good_def)

lemma grows_good: "grows cx st st' \<Longrightarrow> good cx st'"
  by (simp add: grows_def)

lemma grows_result: "grows cx st st' \<Longrightarrow> i < length (module_of cx) \<Longrightarrow> results_of st ! i = Some d \<Longrightarrow> results_of st' ! i = Some d"
  by (simp add: grows_def)

lemma known_mono: "good cx st \<Longrightarrow> grows cx st st' \<Longrightarrow> known cx st \<subseteq> known cx st'"
proof
  fix d assume g: "good cx st" "grows cx st st'" and d: "d \<in> known cx st"
  have n: "length (results_of st) = length (module_of cx)" "length (results_of st') = length (module_of cx)"
    using good_lengths [OF g(1)] good_lengths [OF grows_good [OF g(2)]] by simp_all
  show "d \<in> known cx st'"
  proof (cases "Some d \<in> set (results_of st)")
    case True
    then obtain i where i: "i < length (module_of cx)" "results_of st ! i = Some d" using n by (auto simp: in_set_conv_nth)
    then have "results_of st' ! i = Some d" using grows_result [OF g(2)] by blast
    then have "Some d \<in> set (results_of st')" using i(1) n nth_mem by metis
    then show ?thesis by (simp add: known_def)
  next
    case False
    then show ?thesis using d by (simp add: known_def)
  qed
qed

lemma touched_good:
  assumes "good cx st" "touched st st'"
  shows "grows cx st st'"
proof -
  obtain g ds where st': "st' = st\<lparr>graph := g, diags := diags st @ ds\<rparr>" "extends (graph st) g" "store_ok g"
    using assms(2) by (auto simp: touched_def)
  then have e: "results_of st' = results_of st" "visit_states st' = visit_states st" "graph st' = g" "diags st' = diags st @ ds"
    by simp_all
  have k: "known cx st' = known cx st" by (simp add: known_def e)
  have err: "\<not> erroneous st' \<Longrightarrow> \<not> erroneous st" by (auto simp: e hasErrors_def)
  have "results_good cx st'"
    using assms(1) st'(2) err definition_lawful_extends by (auto simp: good_def results_good_def e(1-3))
  moreover have "definition_solid g (known cx st) d" if "d \<in> known cx st" for d
    using assms(1) st'(2) that definition_solid_extends [of "graph st" g "known cx st" "known cx st"] by (auto simp: good_def)
  ultimately show ?thesis using st'(2,3) unfolding grows_def good_def k e by auto
qed

interpretation analysis_relation: state_relation "good cx" "rel cx" for cx
proof unfold_locales
  fix st st1 st2 :: analyzer
  show "good cx st \<Longrightarrow> store_ok (graph st)" by (simp add: good_def)
  show "rel cx st st" by (simp add: rel_def grows_refl)
  show "rel cx st st1 \<Longrightarrow> rel cx st1 st2 \<Longrightarrow> rel cx st st2" unfolding rel_def by (metis grows_def grows_trans)
  show "rel cx st st1 \<Longrightarrow> good cx st \<Longrightarrow> good cx st1" by (simp add: rel_def grows_def)
  show "rel cx st st1 \<Longrightarrow> good cx st \<Longrightarrow> extends (graph st) (graph st1)" by (simp add: rel_def grows_def)
  show "good cx st \<Longrightarrow> touched st st1 \<Longrightarrow> rel cx st st1" by (simp add: rel_def touched_good)
qed

end
