(* ===== verification/AnalyzerTypes.thy ===== *)
theory AnalyzerTypes
  imports AnalyzerState
begin

text \<open>
  The analysis of types keeps the invariant of the state: the bit-length sets it builds are those that
  \<open>type_good\<close> prescribes, and so are the values that the attributes of types have. The call of
  \<^verbatim>\<open>analyzeOne\<close> is a parameter here, of which only \<open>finds_definitions\<close> is assumed.
\<close>

subsection \<open>Parts of the analysis\<close>

definition yields :: "analysis \<Rightarrow> (analyzer \<Rightarrow> 'a \<Rightarrow> bool) \<Rightarrow> analyzer \<Rightarrow> ('a \<times> analyzer) option \<Rightarrow> bool" where
  "yields cx Q st m \<longleftrightarrow> (\<forall>x st'. m = Some (x, st') \<longrightarrow> grows cx st st' \<and> Q st' x)"

lemma yields_Some: "grows cx st st' \<Longrightarrow> Q st' x \<Longrightarrow> yields cx Q st (Some (x, st'))"
  by (simp add: yields_def)

lemma yields_None [simp]: "yields cx Q st None"
  by (simp add: yields_def)

lemma yields_value: "(\<And>x. m = Some x \<Longrightarrow> yields cx Q st (k x)) \<Longrightarrow> yields cx Q st (Option.bind m k)"
  by (cases m) simp_all

lemma yields_after:
  assumes "grows cx st st1" "yields cx Q st1 m"
  shows "yields cx Q st m"
  using assms grows_trans unfolding yields_def by blast

lemma yields_bind:
  assumes "yields cx P st m" "\<And>x st'. grows cx st st' \<Longrightarrow> P st' x \<Longrightarrow> yields cx Q st' (k (x, st'))"
  shows "yields cx Q st (Option.bind m k)"
proof (cases m)
  case (Some p)
  obtain x st1 where p: "p = (x, st1)" by (cases p)
  have g: "grows cx st st1" "P st1 x" using assms(1) Some p by (auto simp: yields_def)
  then show ?thesis using yields_after [OF g(1) assms(2) [OF g]] Some p by simp
qed simp

lemma grows_errors: "grows cx st st' \<Longrightarrow> erroneous st \<Longrightarrow> erroneous st'"
  by (auto simp: grows_def hasErrors_def)

lemma touched_report [simp]:
  assumes "store_ok (graph st)"
  shows "touched st (report_error location message st)" "touched st (report_if c location message st)"
    "touched st (report_file c d message st)" "touched st (report_span location message len suggestion st)"
    "touched st (note_text location message st)"
proof -
  have a: "touched st (st\<lparr>diags := diags st @ ds\<rparr>)" for ds
    using assms by (auto simp: touched_def intro!: exI [of _ "graph st"])
  then show "touched st (report_error location message st)" "touched st (report_span location message len suggestion st)"
    "touched st (note_text location message st)"
    by (simp_all add: report_error_def report_span_def note_text_def error_def error_at_def note_at_def report_def)
  show "touched st (report_if c location message st)" "touched st (report_file c d message st)"
    using a assms by (simp_all add: report_if_def report_file_def report_error_def error_def error_at_def report_def)
qed

lemma grows_touched: "good cx st \<Longrightarrow> touched st st' \<Longrightarrow> grows cx st st'"
  by (rule touched_good)

lemma good_store [simp]: "good cx st \<Longrightarrow> store_ok (graph st)"
  by (simp add: good_def)

lemma grows_report [simp]:
  assumes "good cx st"
  shows "grows cx st (report_error location message st)" "grows cx st (report_if c location message st)"
    "grows cx st (report_file c d message st)" "grows cx st (report_span location message len suggestion st)"
    "grows cx st (note_text location message st)"
  using assms by (auto intro: touched_good)

text \<open>A part that makes an object for a set.\<close>

definition makes :: "analysis \<Rightarrow> analyzer \<Rightarrow> bit_length_set \<times> analyzer \<Rightarrow> int set \<Rightarrow> bool" where
  "makes cx st m A \<longleftrightarrow> (case m of (b, st') \<Rightarrow> grows cx st st' \<and> bls_set (graph st') b A)"

lemma makes_builds:
  assumes "good cx st" "\<And>b g. f (graph st) = (b, g) \<Longrightarrow> builds (graph st) g b A"
  shows "makes cx st (with_graph f st) A"
proof -
  obtain b g where f: "f (graph st) = (b, g)" by (cases "f (graph st)")
  have "builds (graph st) g b A" by (rule assms(2) [OF f])
  then show ?thesis using assms(1) f by (auto simp: makes_def with_graph_def builds_def intro!: touched_good)
qed

lemma makes_value: "good cx st \<Longrightarrow> i64 v \<Longrightarrow> makes cx st (with_graph (bls_of_value v) st) {max 0 v}"
  by (rule makes_builds) (auto intro: of_value_builds)

lemma makes_default: "good cx st \<Longrightarrow> makes cx st (with_graph bls_default st) {0}"
  by (rule makes_builds) (auto intro: default_builds)

lemma makes_pad:
  "good cx st \<Longrightarrow> bls_set (graph st) b A \<Longrightarrow> i64 k \<Longrightarrow>
    makes cx st (with_graph (padToAlignment b k) st) ((\<lambda>v. clamp (round_up v (max 1 k))) ` A)"
  by (rule makes_builds) (auto intro: pad_builds)

lemma makes_repeat:
  "good cx st \<Longrightarrow> bls_set (graph st) b A \<Longrightarrow> i64 k \<Longrightarrow> makes cx st (with_graph (bls_repeat b k) st) (clamp ` ksum (nat k) A)"
  by (rule makes_builds) (auto intro: repeat_builds)

lemma makes_repeatRange:
  "good cx st \<Longrightarrow> bls_set (graph st) b A \<Longrightarrow> i64 k \<Longrightarrow>
    makes cx st (with_graph (bls_repeatRange b k) st) (clamp ` ksum_upto (nat k) A)"
  by (rule makes_builds) (auto intro: repeatRange_builds)

lemma makes_plus:
  "good cx st \<Longrightarrow> bls_set (graph st) b A \<Longrightarrow> bls_set (graph st) c B \<Longrightarrow>
    makes cx st (with_graph (bls_plus b c) st) (clamp ` msum A B)"
  by (rule makes_builds) (auto intro: plus_builds)

lemma makes_or:
  "good cx st \<Longrightarrow> bls_set (graph st) b A \<Longrightarrow> bls_set (graph st) c B \<Longrightarrow> makes cx st (with_graph (bls_or b c) st) (A \<union> B)"
  by (rule makes_builds) (auto intro: or_builds)

lemma grows_extends: "grows cx st st' \<Longrightarrow> extends (graph st) (graph st')"
  by (simp add: grows_def)

lemma grows_set: "grows cx st st' \<Longrightarrow> bls_set (graph st) b A \<Longrightarrow> bls_set (graph st') b A"
  by (rule extends_set [OF grows_extends])

lemma makes_grows: "makes cx st (b, st') A \<Longrightarrow> grows cx st st'"
  and makes_set: "makes cx st (b, st') A \<Longrightarrow> bls_set (graph st') b A"
  by (simp_all add: makes_def)

lemma makes_then: "grows cx st st1 \<Longrightarrow> makes cx st1 m A \<Longrightarrow> makes cx st m A"
  using grows_trans by (auto simp: makes_def split: prod.splits)

subsection \<open>Composite types\<close>

lemma i64_eighth: "i64 x \<Longrightarrow> i64 (x sdiv 8)"
proof -
  assume x: "i64 x"
  have "\<bar>x\<bar> \<le> 2 ^ 63" using x by (auto simp: i64_def int64_min_def int64_max_def abs_le_iff)
  then have "\<bar>x\<bar> div 8 \<le> 2 ^ 63 div 8" by (intro zdiv_mono1) auto
  then show ?thesis by (auto simp: i64_def int64_min_def int64_max_def signed_divide_int_def sgn_if)
qed

lemma compositeWire_makes:
  assumes g: "good cx st" and d: "section_solid (graph st) D sec"
  shows "\<exists>E. makes cx st (compositeWireBitLengthSet sec st) E \<and> composite_lengths (graph st) sec E"
proof (cases "is_sealed sec")
  case True
  then show ?thesis using d grows_refl [OF g]
    by (auto simp: compositeWireBitLengthSet_def makes_def composite_lengths_def section_solid_def bounds_good_def)
next
  case False
  define n where "n = value_or (extentBits sec) 0 sdiv 8"
  have n: "i64 n" using d i64_eighth [of "value_or (extentBits sec) 0"] i64_eighth [of 0]
    by (auto simp: n_def section_solid_def value_or_def split: option.splits)
  obtain header s1 where 1: "with_graph (bls_of_value 32) st = (header, s1)" by force
  obtain b s2 where 2: "with_graph (bls_of_value 8) s1 = (b, s2)" by force
  obtain payload s3 where 3: "with_graph (bls_repeatRange b n) s2 = (payload, s3)" by force
  have M1: "makes cx st (header, s1) {32}" using makes_value [OF g, of 32] 1 by (simp add: i64_def int64_min_def int64_max_def)
  note g1 = makes_grows [OF M1]
  have M2: "makes cx s1 (b, s2) {8}"
    using makes_value [OF grows_good [OF g1], of 8] 2 by (simp add: i64_def int64_min_def int64_max_def)
  note g2 = makes_grows [OF M2]
  have M3: "makes cx s2 (payload, s3) (clamp ` ksum_upto (nat n) {8})"
    using makes_repeatRange [OF grows_good [OF g2] makes_set [OF M2] n] 3 by simp
  note g3 = makes_grows [OF M3]
  have "makes cx s3 (with_graph (bls_plus header payload) s3) (clamp ` msum {32} (clamp ` ksum_upto (nat n) {8}))"
    by (rule makes_plus [OF grows_good [OF g3] grows_set [OF g3 grows_set [OF g2 makes_set [OF M1]]] makes_set [OF M3]])
  then have "makes cx st (with_graph (bls_plus header payload) s3) (clamp ` msum {32} (clamp ` ksum_upto (nat n) {8}))"
    using makes_then g1 g2 g3 by blast
  moreover have "compositeWireBitLengthSet sec st = with_graph (bls_plus header payload) s3"
    using False 1 2 3 by (auto simp: compositeWireBitLengthSet_def n_def value_or_def split: option.splits)
  ultimately show ?thesis using False by (auto simp: composite_lengths_def n_def)
qed

definition finds_definitions :: "analysis \<Rightarrow> analyze_one \<Rightarrow> bool" where
  "finds_definitions cx ao \<longleftrightarrow>
     (\<forall>i st. good cx st \<longrightarrow> yields cx (\<lambda>st' r. \<forall>d. r = Some d \<longrightarrow> d \<in> known cx st') st (ao i st))"

definition known_reference :: "analysis \<Rightarrow> ResolvedCompositeDefinition option \<Rightarrow> bool" where
  "known_reference cx r \<longleftrightarrow> (\<forall>c d. r = Some (ExternalDefinition c d) \<longrightarrow> d \<in> set (value_or (externalSemanticCatalog cx) []))"

lemma externalByKey_member: "externalByKey cx key = Some d \<Longrightarrow> d \<in> set (value_or (externalSemanticCatalog cx) [])"
  by (auto simp: externalByKey_def value_or_def find_Some_iff split: option.splits)

lemma first_resolved_known: "known_reference cx (first_resolved cx major minor seen cs)"
  by (induction cs arbitrary: seen) (auto simp: known_reference_def dest: externalByKey_member split: option.splits)

lemma resolve_yields:
  assumes "good cx st" "resolveCompositeType cx owner names major minor location c st = (r, st')"
  shows "grows cx st st'" "known_reference cx r"
  using assms first_resolved_known [of cx major minor "{}" "candidate_names owner names"]
  by (auto simp: resolveCompositeType_def grows_refl known_reference_def split: option.splits)

lemma resolved_definition_yields:
  assumes "finds_definitions cx ao" "good cx st" "known_reference cx (Some r)"
  shows "yields cx (\<lambda>st' x. \<forall>d. x = Some d \<longrightarrow> d \<in> known cx st') st (resolved_definition ao r st)"
proof (cases r)
  case (LocalDefinition c i)
  then show ?thesis using assms(1,2) by (simp add: resolved_definition_def finds_definitions_def)
next
  case (ExternalDefinition c d)
  then show ?thesis using assms(2,3)
    by (auto simp: resolved_definition_def known_reference_def known_def intro!: yields_Some grows_refl)
qed

lemma known_section: "good cx st \<Longrightarrow> d \<in> known cx st \<Longrightarrow> section_solid (graph st) (known cx st) (request d)"
  by (simp add: good_def definition_solid_def sections_of_def)

subsection \<open>Layouts\<close>

definition layout_good :: "analysis \<Rightarrow> analyzer \<Rightarrow> TypeLayout \<Rightarrow> bool" where
  "layout_good cx st l \<longleftrightarrow> type_good (graph st) (known cx st) (layout_resolved l) \<and>
     layout_bls l = bitLengthSet (layout_resolved l) \<and> layout_alignment l = alignmentBits (layout_resolved l)"

lemma type_good_grows: "good cx st \<Longrightarrow> grows cx st st' \<Longrightarrow> type_good (graph st) (known cx st) t \<Longrightarrow> type_good (graph st') (known cx st') t"
  by (rule type_good_extends [OF grows_extends known_mono])

lemma layout_good_grows: "good cx st \<Longrightarrow> grows cx st st' \<Longrightarrow> layout_good cx st l \<Longrightarrow> layout_good cx st' l"
  by (simp add: layout_good_def type_good_grows)

lemma layout_good_set: "layout_good cx st l \<Longrightarrow> \<exists>B. bls_set (graph st) (layout_bls l) B"
  by (auto simp: layout_good_def type_good_def)

lemma uint32_i64: "i64 (uint w)" "max 0 (uint w) = uint w" for w :: "32 word"
  using uint_lt2p [of w] order_trans [OF _ uint_ge_0, of "- 9223372036854775808" w]
  by (simp_all add: i64_def int64_min_def int64_max_def)

lemma scalar_type_good:
  assumes "bls_set g b {uint bits}" "category \<noteq> CatComposite"
  shows "type_good g D ((default_field_type z)\<lparr>scalarCategory := category, ft_castMode := m, ft_bitLength := bits, bitLengthSet := b\<rparr>)"
  using assms by (simp add: type_good_def element_lengths_def array_lengths_def default_field_type_def)

lemma scalar_layout_good:
  assumes "good cx st" "category \<noteq> CatComposite" "scalar_layout category m bits st = (l, st')"
  shows "grows cx st st' \<and> layout_good cx st' l"
proof -
  obtain b st1 where b: "with_graph (bls_of_value (uint bits)) st = (b, st1)" by force
  have M: "makes cx st (b, st1) {uint bits}" using makes_value [OF assms(1) uint32_i64(1) [of bits]] b by (simp add: uint32_i64(2))
  have l: "l = \<lparr>layout_bls = b, layout_alignment = 1,
      layout_resolved = (default_field_type b)\<lparr>scalarCategory := category, ft_castMode := m, ft_bitLength := bits\<rparr>\<rparr>" "st' = st1"
    using assms(3) b by (auto simp: scalar_layout_def)
  have "layout_resolved l =
      (default_field_type b)\<lparr>scalarCategory := category, ft_castMode := m, ft_bitLength := bits, bitLengthSet := b\<rparr>"
    by (simp add: l default_field_type_def)
  then have "type_good (graph st1) (known cx st1) (layout_resolved l)"
    by (simp only: scalar_type_good [OF makes_set [OF M] assms(2)])
  then show ?thesis using makes_grows [OF M] by (simp add: l layout_good_def default_field_type_def)
qed

lemma empty_layout_good:
  assumes "good cx st" "empty_layout st = (l, st')"
  shows "grows cx st st' \<and> layout_good cx st' l"
proof -
  obtain z st1 where z: "with_graph bls_default st = (z, st1)" by force
  obtain b st2 where b: "with_graph (bls_of_value 0) st1 = (b, st2)" by force
  have Z: "makes cx st (z, st1) {0}" using makes_default [OF assms(1)] z by simp
  have M: "makes cx st1 (b, st2) {0}"
    using makes_value [OF grows_good [OF makes_grows [OF Z]], of 0] b by (simp add: i64_def int64_min_def int64_max_def)
  have "(default_field_type z)\<lparr>bitLengthSet := b\<rparr> =
      (default_field_type z)\<lparr>scalarCategory := CatVoid, ft_castMode := Saturated, ft_bitLength := 0, bitLengthSet := b\<rparr>"
    by (simp add: default_field_type_def)
  then have "type_good (graph st2) (known cx st2) ((default_field_type z)\<lparr>bitLengthSet := b\<rparr>)"
    using scalar_type_good [of "graph st2" b 0 CatVoid] makes_set [OF M] by simp
  then show ?thesis using assms(2) z b grows_trans [OF makes_grows [OF Z] makes_grows [OF M]]
    by (auto simp: empty_layout_def layout_good_def default_field_type_def)
qed

lemma composite_layout_good:
  assumes "good cx st" "d \<in> known cx st" "\<not> isService d"
  shows "yields cx (layout_good cx) st (composite_layout d st)"
proof -
  have "grows cx st st' \<and> layout_good cx st' l" if l: "composite_layout d st = Some (l, st')" for l st'
  proof -
    obtain b st1 where "compositeWireBitLengthSet (request d) st = (b, st1)" by force
    moreover from this have "st1 = st'" using l by (auto simp: composite_layout_def Let_def Option.bind_eq_Some_conv)
    ultimately have b: "compositeWireBitLengthSet (request d) st = (b, st')" by simp
    obtain E where E: "makes cx st (b, st') E" "composite_lengths (graph st) (request d) E"
      using compositeWire_makes [OF assms(1) known_section [OF assms(1,2)]] b by metis
    note g = makes_grows [OF E(1)]
    have "d \<in> known cx st'" "composite_lengths (graph st') (request d) E"
      using known_mono [OF assms(1) g] assms(2) composite_lengths_extends [OF grows_extends [OF g] E(2)] by auto
    moreover obtain n where n: "l = \<lparr>layout_bls = b, layout_alignment = 8, layout_resolved = (default_field_type b)
        \<lparr>scalarCategory := CatComposite, alignmentBits := 8, compositeType := Some (type_ref (sem_info d)),
         compositeSealed := is_sealed (request d), compositeExtentBits := n\<rparr>\<rparr>"
      using l b by (auto simp: composite_layout_def Let_def Option.bind_eq_Some_conv)
    ultimately have "element_lengths (graph st') (known cx st') (layout_resolved l) E"
      using assms(3) by (simp add: element_lengths_def default_field_type_def) blast
    then have "type_good (graph st') (known cx st') (layout_resolved l)"
      using makes_set [OF E(1)] by (auto simp: n type_good_def array_lengths_def default_field_type_def)
    then show ?thesis using g by (simp add: layout_good_def n default_field_type_def)
  qed
  then show ?thesis by (simp add: yields_def)
qed

lemma base_from_scalar_good:
  assumes f: "finds_definitions cx ao" and g: "good cx st" and out: "layout_good cx st out"
  shows "yields cx (layout_good cx) st (base_from_scalar cx ao owner type out st)"
proof (cases "type_scalar type")
  case (PrimitiveTypeExprAST k m bits)
  have "primitive_category k \<noteq> CatComposite" by (cases k) simp_all
  then show ?thesis using scalar_layout_good [OF g] PrimitiveTypeExprAST by (auto simp: base_from_scalar_def yields_def)
next
  case (VoidTypeExprAST bits)
  then show ?thesis using scalar_layout_good [OF g, of CatVoid] by (auto simp: base_from_scalar_def yields_def)
next
  case (VersionedTypeExprAST names major minor)
  obtain r st1 where r: "resolveCompositeType cx owner names major minor (type_location type) True st = (r, st1)" by force
  note R = resolve_yields [OF g r]
  note g1 = grows_good [OF R(1)]
  show ?thesis
  proof (cases r)
    case None
    then show ?thesis using VersionedTypeExprAST r R(1) layout_good_grows [OF g R(1) out]
      by (auto simp: base_from_scalar_def intro: yields_Some)
  next
    case (Some q)
    let ?k = "\<lambda>(d, st). case d of None \<Rightarrow> Some (out, st)
      | Some d \<Rightarrow> if isService d then Some (out, report_error (type_location type) ''service types are not valid field types'' st)
                  else composite_layout d st"
    have "yields cx (layout_good cx) st1 (Option.bind (resolved_definition ao q st1) ?k)"
    proof (rule yields_bind [OF resolved_definition_yields [OF f g1 R(2) [unfolded Some]]])
      fix d st2 assume 2: "grows cx st1 st2" "\<forall>x. d = Some x \<longrightarrow> x \<in> known cx st2"
      note g2 = grows_good [OF 2(1)]
      have o: "layout_good cx st2 out" by (rule layout_good_grows [OF g grows_trans [OF R(1) 2(1)] out])
      show "yields cx (layout_good cx) st2 (?k (d, st2))"
      proof (cases d)
        case None
        then show ?thesis using o grows_refl [OF g2] by (simp add: yields_Some)
      next
        case (Some x)
        show ?thesis
        proof (cases "isService x")
          case True
          have "grows cx st2 (report_error (type_location type) ''service types are not valid field types'' st2)"
            using g2 by simp
          then show ?thesis using True Some layout_good_grows [OF g2 _ o] by (simp add: yields_Some)
        next
          case False
          then show ?thesis using Some 2(2) composite_layout_good [OF g2] by simp
        qed
      qed
    qed
    then show ?thesis using VersionedTypeExprAST r Some yields_after [OF R(1)] by (simp add: base_from_scalar_def)
  qed
qed

subsection \<open>Expressions\<close>

abbreviation value_good :: "analyzer \<Rightarrow> Value option \<Rightarrow> bool" where
  "value_good \<equiv> \<lambda>st r. \<forall>v. r = Some v \<longrightarrow> value_ok (graph st) v"

definition resolver_good :: "analysis \<Rightarrow> type_resolver \<Rightarrow> bool" where
  "resolver_good cx resolve \<longleftrightarrow>
     (\<forall>t name location st. good cx st \<longrightarrow> yields cx value_good st (resolve t name location st))"

lemma keeps_yields: "good cx st \<Longrightarrow> analysis_relation.keeps cx value_ok st m \<longleftrightarrow> yields cx value_good st m"
  by (auto simp: analysis_relation.keeps_def yields_def rel_def)

lemma evaluation_yields:
  assumes "resolver_good cx resolve" "good cx st" "env_ok (graph st) env"
  shows "yields cx value_good st (evaluateExpression rnd e env location (Some resolve) st)"
proof -
  have "analysis_relation.resolver_keeps cx (Some resolve)"
    using assms(1) by (simp add: analysis_relation.resolver_keeps_def resolver_good_def keeps_yields)
  then have "analysis_relation.keeps cx value_ok st (evaluateExpression rnd e env location (Some resolve) st)"
    by (rule analysis_relation.keeps_evaluateExpression [OF _ assms(2,3)])
  then show ?thesis by (simp add: keeps_yields assms(2))
qed

lemma env_ok_grows: "grows cx st st' \<Longrightarrow> env_ok (graph st) env \<Longrightarrow> env_ok (graph st') env"
  by (rule env_ok_extends [OF grows_extends])

subsection \<open>Arrays\<close>

lemma asInteger_i64: "asInteger r = Some n \<Longrightarrow> i64 n"
  by (auto simp: asInteger_def fitsInt64_def i64_def split: if_splits)

lemma array_capacity_yields:
  assumes "resolver_good cx resolve" "good cx st" "env_ok (graph st) env"
  shows "yields cx (\<lambda>_ n. \<forall>k. n = Some k \<longrightarrow> i64 k) st (array_capacity rnd resolve type env st)"
proof (cases "arrayCapacity type")
  case None
  then show ?thesis using assms(2) by (simp add: array_capacity_def yields_Some)
next
  case (Some e)
  have "yields cx (\<lambda>_ n. \<forall>k. n = Some k \<longrightarrow> i64 k) st
    (Option.bind (evaluateExpression rnd e env (type_location type) (Some resolve) st) (\<lambda>(v, st). case integer_of v of
       None \<Rightarrow> Some (None, report_error (type_location type) ''array capacity expression must yield integer rational'' st)
     | Some r \<Rightarrow> (case asInteger r of
          None \<Rightarrow> Some (None, report_error (type_location type) ''array capacity is too large'' st)
        | Some n \<Rightarrow> Some (Some n, st))))"
    by (rule yields_bind [OF evaluation_yields [OF assms]])
      (auto intro!: yields_Some grows_refl dest: grows_good asInteger_i64 split: option.splits)
  then show ?thesis by (simp add: array_capacity_def Some)
qed

lemma checked_capacity_bounds:
  "checked_capacity k n = Inr c \<Longrightarrow> k \<noteq> ArrNone \<Longrightarrow> i64 n \<Longrightarrow> 1 \<le> c \<and> c \<le> int64_max"
  by (cases k) (auto simp: i64_def split: if_splits)

lemma length_prefix_i64: "1 \<le> n \<Longrightarrow> n \<le> int64_max \<Longrightarrow> i64 (length_prefix_bits n) \<and> 0 \<le> length_prefix_bits n"
  using length_prefix_standard [of n] by (auto simp: standard_width_def i64_def int64_min_def int64_max_def)

lemma array_layout_good:
  assumes g: "good cx st" and s: "layout_good cx st scalar" and k: "k \<noteq> ArrNone" "1 \<le> n" "n \<le> int64_max"
    and single: "ft_arrayKind (layout_resolved scalar) = ArrNone" and l: "array_layout scalar k n st = (l, st')"
  shows "grows cx st st' \<and> layout_good cx st' l"
proof -
  have n: "i64 n" using k by (simp add: i64_def int64_min_def)
  obtain E where E: "element_lengths (graph st) (known cx st) (layout_resolved scalar) E" "bls_set (graph st) (layout_bls scalar) E"
    using s single by (auto simp: layout_good_def type_good_def array_lengths_def)
  define prefix where "prefix = (if k = ArrFixed then 0 else length_prefix_bits n)"
  define A where "A = (if k = ArrFixed then clamp ` ksum (nat n) E else clamp ` msum {prefix} (clamp ` ksum_upto (nat n) E))"
  obtain b where b: "makes cx st (b, st') A"
    "l = \<lparr>layout_bls = b, layout_alignment = layout_alignment scalar,
          layout_resolved = (layout_resolved scalar)\<lparr>ft_arrayKind := k, ft_arrayCapacity := n,
            arrayLengthPrefixBits := prefix, alignmentBits := layout_alignment scalar, bitLengthSet := b\<rparr>\<rparr>"
  proof (cases "k = ArrFixed")
    case True
    have M: "makes cx st (with_graph (bls_repeat (layout_bls scalar) n) st) A"
      using makes_repeat [OF g E(2) n] True by (simp add: A_def)
    show thesis using l True M that by (cases "with_graph (bls_repeat (layout_bls scalar) n) st") (auto simp: array_layout_def prefix_def)
  next
    case False
    obtain p s1 where p: "with_graph (bls_of_value prefix) st = (p, s1)" by force
    obtain elements s2 where e: "with_graph (bls_repeatRange (layout_bls scalar) n) s1 = (elements, s2)" by force
    obtain b s3 where b: "with_graph (bls_plus p elements) s2 = (b, s3)" by force
    have "i64 prefix \<and> 0 \<le> prefix" using length_prefix_i64 [OF k(2,3)] False by (simp add: prefix_def)
    then have P: "makes cx st (p, s1) {prefix}" using makes_value [OF g, of prefix] p by (simp add: max_def)
    note g1 = makes_grows [OF P]
    have R: "makes cx s1 (elements, s2) (clamp ` ksum_upto (nat n) E)"
      using makes_repeatRange [OF grows_good [OF g1] grows_set [OF g1 E(2)] n] e by simp
    note g2 = makes_grows [OF R]
    have "makes cx s2 (b, s3) A"
      using makes_plus [OF grows_good [OF g2] grows_set [OF g2 makes_set [OF P]] makes_set [OF R]] b False by (simp add: A_def)
    then have "makes cx st (b, s3) A" using makes_then [OF g1 makes_then [OF g2]] by blast
    moreover have "(l, st') = (\<lparr>layout_bls = b, layout_alignment = layout_alignment scalar,
          layout_resolved = (layout_resolved scalar)\<lparr>ft_arrayKind := k, ft_arrayCapacity := n,
            arrayLengthPrefixBits := prefix, alignmentBits := layout_alignment scalar, bitLengthSet := b\<rparr>\<rparr>, s3)"
      using l False p e b by (simp add: array_layout_def prefix_def)
    ultimately show thesis using that by simp
  qed
  note gr = makes_grows [OF b(1)]
  have "element_lengths (graph st') (known cx st') (layout_resolved scalar) E"
    by (rule element_lengths_extends [OF grows_extends [OF gr] known_mono [OF g gr] E(1)])
  then have "element_lengths (graph st') (known cx st') (layout_resolved l) E"
    by (simp add: b(2) element_lengths_def)
  moreover have "array_lengths (layout_resolved l) E = A" using k(1) by (simp add: array_lengths_def b(2) A_def)
  moreover have "alignmentBits (layout_resolved l) = (if scalarCategory (layout_resolved l) = CatComposite then 8 else 1)"
    using s by (simp add: b(2) layout_good_def type_good_def)
  ultimately have "type_good (graph st') (known cx st') (layout_resolved l)"
    using makes_set [OF b(1)] k by (auto simp: type_good_def b(2) prefix_def)
  then show ?thesis using gr by (simp add: layout_good_def b(2))
qed

lemma array_layout_kind:
  "array_layout (scalar\<lparr>layout_resolved := (layout_resolved scalar)\<lparr>ft_arrayKind := k'\<rparr>\<rparr>) k n st = array_layout scalar k n st"
  by (simp add: array_layout_def)

lemma same_kind: "ft_arrayKind (layout_resolved l) = k \<Longrightarrow> l\<lparr>layout_resolved := (layout_resolved l)\<lparr>ft_arrayKind := k\<rparr>\<rparr> = l"
  by (cases l; cases "layout_resolved l") simp

lemma base_is_single:
  assumes "base_from_scalar cx ao owner type out st = Some (l, st')" "ft_arrayKind (layout_resolved out) = ArrNone"
  shows "ft_arrayKind (layout_resolved l) = ArrNone"
proof -
  have s: "scalar_layout category m bits st1 = (l1, st2) \<Longrightarrow> ft_arrayKind (layout_resolved l1) = ArrNone"
    for category m bits st1 l1 and st2 :: analyzer
    by (auto simp: scalar_layout_def default_field_type_def split: prod.splits)
  have c: "composite_layout d st1 = Some (l1, st2) \<Longrightarrow> ft_arrayKind (layout_resolved l1) = ArrNone" for d st1 l1 and st2 :: analyzer
    by (cases "compositeWireBitLengthSet (request d) st1")
      (auto simp: composite_layout_def Let_def default_field_type_def Option.bind_eq_Some_conv)
  show ?thesis
  proof (cases "type_scalar type")
    case (VersionedTypeExprAST names major minor)
    obtain r st1 where r: "resolveCompositeType cx owner names major minor (type_location type) True st = (r, st1)" by force
    show ?thesis using assms VersionedTypeExprAST r
      by (cases r) (auto simp: base_from_scalar_def Option.bind_eq_Some_conv dest!: c split: option.splits if_splits)
  qed (use assms in \<open>auto simp: base_from_scalar_def dest!: s\<close>)
qed

lemma analyzeType_yields:
  assumes f: "finds_definitions cx ao" and r: "resolver_good cx resolve" and g: "good cx st" and e: "env_ok (graph st) env"
  shows "yields cx (layout_good cx) st (analyzeType rnd cx ao resolve owner type env st)"
proof -
  obtain out st1 where o: "empty_layout st = (out, st1)" by force
  note O = empty_layout_good [OF g o]
  note g1 = grows_good [OF O [THEN conjunct1]]
  have single: "ft_arrayKind (layout_resolved out) = ArrNone"
    using o by (auto simp: empty_layout_def default_field_type_def split: prod.splits)
  let ?refuse = "\<lambda>message st. Some (out, report_error (type_location type) message st)"
  let ?array = "\<lambda>l (n, st). case n of None \<Rightarrow> Some (out, st)
     | Some n \<Rightarrow> (case checked_capacity (arrayKind type) n of
          Inl message \<Rightarrow> ?refuse message st | Inr capacity \<Rightarrow> Some (array_layout l (arrayKind type) capacity st))"
  let ?rest = "\<lambda>(l, st). if arrayKind type = ArrNone then Some (l, st)
     else if is_void type then ?refuse ''void type is not allowed as array element type'' st
     else Option.bind (array_capacity rnd resolve type env st) (?array l)"
  let ?kind = "\<lambda>l :: TypeLayout. l\<lparr>layout_resolved := (layout_resolved l)\<lparr>ft_arrayKind := arrayKind type\<rparr>\<rparr>"
  have A: "yields cx (layout_good cx) st2 (?rest (?kind l, st2))"
    if l: "layout_good cx st2 l" "ft_arrayKind (layout_resolved l) = ArrNone" and s2: "grows cx st1 st2" for l st2
  proof -
    note g2 = grows_good [OF s2]
    have o2: "layout_good cx st3 out" if "grows cx st2 st3" for st3
      by (rule layout_good_grows [OF g1 grows_trans [OF s2 that]]) (use O in blast)
    consider "arrayKind type = ArrNone" | "arrayKind type \<noteq> ArrNone" "is_void type" | "arrayKind type \<noteq> ArrNone" "\<not> is_void type"
      by blast
    then show ?thesis
    proof cases
      case 1
      then show ?thesis using l(1) grows_refl [OF g2] by (simp only: same_kind [OF l(2)] prod.case if_True simp_thms yields_Some)
    next
      case 2
      then show ?thesis using o2 g2 by (simp add: yields_Some)
    next
      case 3
      have e2: "env_ok (graph st2) env" by (rule env_ok_grows [OF grows_trans [OF O [THEN conjunct1] s2] e])
      have "yields cx (layout_good cx) st2 (Option.bind (array_capacity rnd resolve type env st2) (?array l))"
      proof (rule yields_bind [OF array_capacity_yields [OF r g2 e2]])
        fix n st3 assume 4: "grows cx st2 st3" "\<forall>k. n = Some k \<longrightarrow> i64 k"
        note g3 = grows_good [OF 4(1)]
        show "yields cx (layout_good cx) st3 (?array l (n, st3))"
        proof (cases n)
          case None
          then show ?thesis using o2 [OF 4(1)] grows_refl [OF g3] by (simp add: yields_Some)
        next
          case (Some m)
          show ?thesis
          proof (cases "checked_capacity (arrayKind type) m")
            case (Inl message)
            then show ?thesis using Some o2 grows_trans [OF 4(1)] g3 by (simp add: yields_Some)
          next
            case (Inr c)
            have c: "1 \<le> c" "c \<le> int64_max" using checked_capacity_bounds [OF Inr 3(1)] 4(2) Some by auto
            show ?thesis
              using array_layout_good [OF g3 layout_good_grows [OF g2 4(1) l(1)] 3(1) c l(2)] Some Inr
              by (cases "array_layout l (arrayKind type) c st3") (auto intro: yields_Some)
          qed
        qed
      qed
      then have "yields cx (layout_good cx) st2 (Option.bind (array_capacity rnd resolve type env st2) (?array (?kind l)))"
        unfolding array_layout_kind .
      then show ?thesis using 3 by simp
    qed
  qed
  have "yields cx (\<lambda>st l. layout_good cx st l \<and> ft_arrayKind (layout_resolved l) = ArrNone) st1
      (base_from_scalar cx ao owner type out st1)"
    using base_from_scalar_good [OF f g1 O [THEN conjunct2], of owner type] base_is_single [OF _ single]
    by (auto simp: yields_def)
  then have "yields cx (layout_good cx) st1 (Option.bind (base_from_scalar cx ao owner type out st1) (\<lambda>(l, st). ?rest (?kind l, st)))"
  proof (rule yields_bind)
    fix l st2 assume "grows cx st1 st2" "layout_good cx st2 l \<and> ft_arrayKind (layout_resolved l) = ArrNone"
    then show "yields cx (layout_good cx) st2 ((\<lambda>(l, st). ?rest (?kind l, st)) (l, st2))" using A [of st2 l] by simp
  qed
  then have "yields cx (layout_good cx) st (Option.bind (base_from_scalar cx ao owner type out st1) (\<lambda>(l, st). ?rest (?kind l, st)))"
    by (rule yields_after [OF O [THEN conjunct1]])
  then show ?thesis by (simp add: analyzeType_def o Let_def)
qed

subsection \<open>Attributes of types\<close>

lemma attribute_value_yields:
  assumes g: "good cx st" and d: "d \<in> known cx st" and other: "yields cx value_good st (otherwise st)"
  shows "yields cx value_good st (attribute_value (request d) name otherwise st)"
proof -
  note s = known_section [OF g d]
  consider "name = ''_extent_''" | "name = ''_bit_length_''" | "name \<noteq> ''_extent_''" "name \<noteq> ''_bit_length_''" by blast
  then show ?thesis
  proof cases
    case 1
    then show ?thesis by (auto simp: attribute_value_def intro!: yields_value yields_Some grows_refl g)
  next
    case 2
    obtain b st1 where b: "compositeWireBitLengthSet (request d) st = (b, st1)" by force
    obtain E where "makes cx st (b, st1) E" using compositeWire_makes [OF g s] b by metis
    then show ?thesis using 2 b by (auto simp: attribute_value_def makes_def intro!: yields_Some)
  next
    case 3
    show ?thesis
    proof (cases "List.find (\<lambda>c. sc_name c = name) (section_constants (request d))")
      case None
      then show ?thesis using 3 other by (simp add: attribute_value_def)
    next
      case (Some c)
      then have "c \<in> set (section_constants (request d))" by (auto simp: find_Some_iff)
      then have "value_ok (graph st) (sc_value c)" using s by (auto simp: section_solid_def constants_good_def)
      then show ?thesis using 3 Some g by (auto simp: attribute_value_def intro!: yields_Some grows_refl)
    qed
  qed
qed

lemma type_attribute_good:
  assumes f: "finds_definitions cx ao"
  shows "resolver_good cx (type_attribute cx ao owner)"
  unfolding resolver_good_def
proof (intro allI impI)
  fix t name location st assume g: "good cx st"
  have refuse: "yields cx value_good st1 (Some (None, report_error location message st1))" if "good cx st1" for message st1
    using that by (simp add: yields_Some)
  show "yields cx value_good st (type_attribute cx ao owner t name location st)"
  proof (cases "arrayKind t = ArrNone \<and> (\<exists>names major minor. type_scalar t = VersionedTypeExprAST names major minor)")
    case False
    then show ?thesis using refuse [OF g] by (auto simp: type_attribute_def Let_def split: ScalarTypeAST.splits)
  next
    case True
    then obtain names major minor where t: "arrayKind t = ArrNone" "type_scalar t = VersionedTypeExprAST names major minor" by blast
    obtain r st1 where r: "resolveCompositeType cx owner names major minor location True st = (r, st1)" by force
    note R = resolve_yields [OF g r]
    note g1 = grows_good [OF R(1)]
    show ?thesis
    proof (cases r)
      case None
      then show ?thesis using t r R(1) by (simp add: type_attribute_def yields_Some)
    next
      case (Some q)
      let ?no = "\<lambda>st. Some (None, report_error location (''unsupported metaserializable attribute: '' @ name) st)"
      let ?k = "\<lambda>(d, st). case d of
          None \<Rightarrow> Some (None, report_error location (''failed to analyse dependent type: '' @ candidateName q) st)
        | Some d \<Rightarrow> if isService d
            then Some (None, report_error location (''service types do not expose value attributes: '' @ candidateName q) st)
            else attribute_value (request d) name ?no st"
      have "yields cx value_good st1 (Option.bind (resolved_definition ao q st1) ?k)"
      proof (rule yields_bind [OF resolved_definition_yields [OF f g1 R(2) [unfolded Some]]])
        fix d st2 assume 2: "grows cx st1 st2" "\<forall>x. d = Some x \<longrightarrow> x \<in> known cx st2"
        note g2 = grows_good [OF 2(1)]
        show "yields cx value_good st2 (?k (d, st2))"
        proof (cases d)
          case None
          then show ?thesis using refuse [OF g2] by simp
        next
          case (Some x)
          then show ?thesis using refuse [OF g2] attribute_value_yields [where otherwise = ?no, OF g2 _ refuse [OF g2]] 2(2) by simp
        qed
      qed
      moreover have "type_attribute cx ao owner t name location st = Option.bind (resolved_definition ao q st1) ?k"
        unfolding type_attribute_def Let_def t
        by (simp only: r Some simp_thms if_True if_False ScalarTypeAST.case option.case prod.case)
      ultimately show ?thesis using yields_after [OF R(1)] by simp
    qed
  qed
qed

end
